(* ===== verification/Dsh_Prelude.thy ===== *)
theory Dsh_Prelude
  imports Complex_Main
begin

section \<open>Prelude: JSON values, JavaScript list operations, replayed logs\<close>

text \<open>
  What every component of the harness shares. JSON values (the durable vocabulary of the
  session log) with JavaScript's checks on them, the array operations the source uses
  (\<open>indexOf\<close>, \<open>splice\<close>, \<open>slice\<close>), and the replay of an append-only log through a partial
  step function, which is how the surface, the goal state and the session trace are all
  computed. The locale \<open>log_replay\<close> is the contract of such a step function; the lemmas
  proved in it say that a cache which catches up with a growing log computes what a replay
  of the whole log computes.
\<close>

named_theorems dsh_defs \<open>definitions a component's proofs unfold\<close>
named_theorems dsh_splits \<open>facts about results of partial operations\<close>

subsection \<open>Results\<close>

text \<open>An operation that may throw returns \<open>Inl\<close> of the error or \<open>Inr\<close> of the value.\<close>

type_synonym ('e, 'a) result = "'e + 'a"

lemma result_case_InrD [dsh_splits]:
  "(case r of Inl e \<Rightarrow> Inl e | Inr x \<Rightarrow> f x) = Inr y \<Longrightarrow> \<exists>x. r = Inr x \<and> f x = Inr y"
  by (cases r) auto

lemma if_Inl_Inr_iff [simp]: "((if b then Inl e else r) = Inr y) \<longleftrightarrow> \<not> b \<and> r = Inr y"
  by simp

lemma case_result_Inr_iff:
  "((case r of Inl e \<Rightarrow> Inl e | Inr x \<Rightarrow> f x) = Inr y) \<longleftrightarrow> (\<exists>x. r = Inr x \<and> f x = Inr y)"
  by (cases r) auto

lemma option_case_Inr_iff:
  "((case p of None \<Rightarrow> Inl e | Some x \<Rightarrow> f x) = Inr y) \<longleftrightarrow> (\<exists>x. p = Some x \<and> f x = Inr y)"
  by (cases p) auto

lemma map_sum_Inr_iff: "map_sum f g r = Inr y \<longleftrightarrow> (\<exists>x. r = Inr x \<and> y = g x)"
  by (cases r) auto

text \<open>Sequencing of operations that may throw.\<close>

fun and_then :: "('e, 'a) result \<Rightarrow> ('a \<Rightarrow> ('e, 'b) result) \<Rightarrow> ('e, 'b) result" where
  "and_then (Inl e) f = Inl e"
| "and_then (Inr x) f = f x"

lemma and_then_Inr_iff: "and_then r f = Inr y \<longleftrightarrow> (\<exists>x. r = Inr x \<and> f x = Inr y)"
  by (cases r) auto

lemma and_then_cong [fundef_cong]:
  "r = r' \<Longrightarrow> (\<And>x. r' = Inr x \<Longrightarrow> f x = g x) \<Longrightarrow> and_then r f = and_then r' g"
  by (cases r') auto

text \<open>
  Operations on a mutable state that may throw: the state reached is kept when they do.
\<close>

type_synonym ('s, 'e, 'a) op = "'s \<Rightarrow> ('e + 'a) \<times> 's"

definition op_lift :: "'e + 'a \<Rightarrow> ('s, 'e, 'a) op" where
  "op_lift r s = (r, s)"

definition op_bind :: "('s, 'e, 'a) op \<Rightarrow> ('a \<Rightarrow> ('s, 'e, 'b) op) \<Rightarrow> ('s, 'e, 'b) op" where
  "op_bind m f s = (case m s of (Inl x, s') \<Rightarrow> (Inl x, s') | (Inr a, s') \<Rightarrow> f a s')"

lemma op_bind_Inr_iff:
  "op_bind m f s = (Inr b, s') \<longleftrightarrow> (\<exists>a t. m s = (Inr a, t) \<and> f a t = (Inr b, s'))"
  by (auto simp: op_bind_def split: prod.splits sum.splits)

text \<open>
  From a state with \<open>P\<close>, the operation returns \<open>a\<close> in a state with \<open>Q a\<close> or throws \<open>x\<close> in a
  state with \<open>E x\<close>.
\<close>

definition op_triple ::
  "('s \<Rightarrow> bool) \<Rightarrow> ('s, 'e, 'a) op \<Rightarrow> ('a \<Rightarrow> 's \<Rightarrow> bool) \<Rightarrow> ('e \<Rightarrow> 's \<Rightarrow> bool) \<Rightarrow> bool" where
  "op_triple P m Q E \<longleftrightarrow>
     (\<forall>s. P s \<longrightarrow> (case m s of (Inl x, s') \<Rightarrow> E x s' | (Inr a, s') \<Rightarrow> Q a s'))"

lemma op_tripleI:
  "(\<And>s x s'. P s \<Longrightarrow> m s = (Inl x, s') \<Longrightarrow> E x s') \<Longrightarrow>
   (\<And>s a s'. P s \<Longrightarrow> m s = (Inr a, s') \<Longrightarrow> Q a s') \<Longrightarrow> op_triple P m Q E"
  by (auto simp: op_triple_def split: prod.splits sum.splits)

lemma op_triple_returnD: "op_triple P m Q E \<Longrightarrow> P s \<Longrightarrow> m s = (Inr a, s') \<Longrightarrow> Q a s'"
  by (auto simp: op_triple_def dest!: spec [of _ s])

lemma op_triple_throwD: "op_triple P m Q E \<Longrightarrow> P s \<Longrightarrow> m s = (Inl x, s') \<Longrightarrow> E x s'"
  by (auto simp: op_triple_def dest!: spec [of _ s])

lemma op_triple_weaken:
  "op_triple P m Q E \<Longrightarrow> (\<And>s. P' s \<Longrightarrow> P s) \<Longrightarrow> (\<And>a s. Q a s \<Longrightarrow> Q' a s) \<Longrightarrow>
   (\<And>x s. E x s \<Longrightarrow> E' x s) \<Longrightarrow> op_triple P' m Q' E'"
  by (fastforce simp: op_triple_def split: prod.splits sum.splits)

lemma op_triple_bind:
  assumes "op_triple P m R E" and "\<And>a. op_triple (R a) (f a) Q E"
  shows "op_triple P (op_bind m f) Q E"
proof (rule op_tripleI)
  fix s x s' assume s: "P s" and run: "op_bind m f s = (Inl x, s')"
  then show "E x s'" using assms
    by (cases "m s"; cases "fst (m s)") (auto simp: op_bind_def dest: op_triple_throwD op_triple_returnD)
next
  fix s a s' assume s: "P s" and run: "op_bind m f s = (Inr a, s')"
  then show "Q a s'" using assms
    by (cases "m s"; cases "fst (m s)") (auto simp: op_bind_def dest: op_triple_returnD)
qed

text \<open>The same with a stronger throw condition of the first operation.\<close>

lemma op_triple_seq:
  assumes "op_triple P m R E'" and "\<And>x s. E' x s \<Longrightarrow> E x s" and "\<And>a. op_triple (R a) (f a) Q E"
  shows "op_triple P (op_bind m f) Q E"
  by (rule op_triple_bind [OF op_triple_weaken [OF assms(1)] assms(3)]) (auto intro: assms(2))

lemma op_triple_lift:
  "(\<And>s x. P s \<Longrightarrow> r = Inl x \<Longrightarrow> E x s) \<Longrightarrow> (\<And>s a. P s \<Longrightarrow> r = Inr a \<Longrightarrow> Q a s) \<Longrightarrow>
   op_triple P (op_lift r) Q E"
  by (auto simp: op_triple_def op_lift_def split: sum.splits)

lemma op_triple_ex: "(\<And>x. op_triple (P x) m Q E) \<Longrightarrow> op_triple (\<lambda>s. \<exists>x. P x s) m Q E"
  by (fastforce simp: op_triple_def)

lemma op_triple_pure: "(b \<Longrightarrow> op_triple P m Q E) \<Longrightarrow> op_triple (\<lambda>s. P s \<and> b) m Q E"
  by (auto simp: op_triple_def)

subsection \<open>JSON values\<close>

text \<open>
  A JSON number is a finite double, so a rational. An object is the list of its own
  enumerable properties in enumeration order; JavaScript guarantees distinct keys, which
  \<open>wf_json\<close> says. Characters are code units below 256.
\<close>

datatype json =
    JNull
  | JBool bool
  | JNum rat
  | JStr string
  | JArr "json list"
  | JObj "(string \<times> json) list"

type_synonym json_fields = "(string \<times> json) list"

fun wf_json :: "json \<Rightarrow> bool" where
  "wf_json (JArr xs) \<longleftrightarrow> list_all wf_json xs"
| "wf_json (JObj kvs) \<longleftrightarrow> distinct (map fst kvs) \<and> list_all (\<lambda>kv. wf_json (snd kv)) kvs"
| "wf_json _ \<longleftrightarrow> True"

abbreviation jint :: "int \<Rightarrow> json" where
  "jint i \<equiv> JNum (of_int i)"

text \<open>\<open>Number.MAX_SAFE_INTEGER\<close> and \<open>Number.isSafeInteger\<close>.\<close>

definition max_safe :: int where
  "max_safe = 9007199254740991"

definition safe_int :: "int \<Rightarrow> bool" where
  "safe_int i \<longleftrightarrow> - max_safe \<le> i \<and> i \<le> max_safe"

definition safe_int_of :: "rat \<Rightarrow> int option" where
  "safe_int_of q = (if q = of_int \<lfloor>q\<rfloor> \<and> safe_int \<lfloor>q\<rfloor> then Some \<lfloor>q\<rfloor> else None)"

lemma safe_int_of_of_int [simp]:
  "safe_int_of (of_int i) = (if safe_int i then Some i else None)"
  by (simp add: safe_int_of_def)

lemma safe_int_of_of_nat [simp]:
  "safe_int_of (of_nat k) = (if safe_int (int k) then Some (int k) else None)"
  using safe_int_of_of_int [of "int k"] by simp

lemma safe_int_of_Some_iff: "safe_int_of q = Some i \<longleftrightarrow> q = of_int i \<and> safe_int i"
  by (auto simp: safe_int_of_def split: if_splits)

fun json_safe_int :: "json \<Rightarrow> int option" where
  "json_safe_int (JNum q) = safe_int_of q"
| "json_safe_int _ = None"

lemma json_safe_int_Some_iff: "json_safe_int v = Some i \<longleftrightarrow> v = jint i \<and> safe_int i"
  by (cases v) (auto simp: safe_int_of_Some_iff)

text \<open>Reading a property: \<open>undefined\<close> (here \<open>None\<close>) when the object lacks it.\<close>

definition has_own :: "(string \<times> json) list \<Rightarrow> string \<Rightarrow> bool" where
  "has_own kvs k \<longleftrightarrow> map_of kvs k \<noteq> None"

lemma has_own_iff: "has_own kvs k \<longleftrightarrow> k \<in> fst ` set kvs"
  by (simp add: has_own_def map_of_eq_None_iff)

fun data_field :: "json \<Rightarrow> string \<Rightarrow> json option" where
  "data_field (JObj kvs) k = map_of kvs k"
| "data_field _ k = None"

text \<open>\<open>Object.keys(value)\<close> has exactly the keys \<open>ks\<close>, in any order.\<close>

definition has_exact_keys :: "(string \<times> json) list \<Rightarrow> string list \<Rightarrow> bool" where
  "has_exact_keys kvs ks \<longleftrightarrow> length kvs = length ks \<and> list_all (has_own kvs) ks"

lemma has_exact_keys_set:
  assumes "distinct ks" and "has_exact_keys kvs ks"
  shows "distinct (map fst kvs)" and "fst ` set kvs = set ks"
proof -
  from assms(2) have len: "length (map fst kvs) = length ks" and sub: "set ks \<subseteq> fst ` set kvs"
    by (auto simp: has_exact_keys_def list_all_iff has_own_iff)
  from assms(1) have "card (set ks) = length ks" by (rule distinct_card)
  moreover from sub have "card (set ks) \<le> card (set (map fst kvs))"
    by (intro card_mono) auto
  moreover have "card (set (map fst kvs)) \<le> length (map fst kvs)" by (rule card_length)
  ultimately have card: "card (set (map fst kvs)) = length (map fst kvs)"
    and card2: "card (set ks) = card (set (map fst kvs))"
    using len by linarith+
  from card show "distinct (map fst kvs)" by (rule card_distinct)
  from sub card2 have "set ks = set (map fst kvs)" by (intro card_subset_eq) auto
  then show "fst ` set kvs = set ks" by simp
qed

subsection \<open>Numbers in template strings\<close>

fun string_of_nat :: "nat \<Rightarrow> string" where
  "string_of_nat n =
     (if n < 10 then [char_of (48 + n)] else string_of_nat (n div 10) @ [char_of (48 + n mod 10)])"

declare string_of_nat.simps [simp del]

text \<open>Reading the digits back; two numbers with the same digits are equal.\<close>

definition nat_of_digits :: "string \<Rightarrow> nat" where
  "nat_of_digits ds = foldl (\<lambda>a c. a * 10 + (of_char c - 48)) 0 ds"

lemma nat_of_digits_string_of_nat [simp]: "nat_of_digits (string_of_nat n) = n"
proof (induction n rule: string_of_nat.induct)
  case (1 n)
  show ?case
  proof (cases "n < 10")
    case True
    then show ?thesis
      by (subst string_of_nat.simps) (simp add: nat_of_digits_def)
  next
    case False
    have "nat_of_digits (string_of_nat n) = nat_of_digits (string_of_nat (n div 10)) * 10 + n mod 10"
      using False by (subst string_of_nat.simps) (simp add: nat_of_digits_def)
    then show ?thesis using 1 [OF False] by simp
  qed
qed

lemma string_of_nat_inject [simp]: "string_of_nat m = string_of_nat n \<longleftrightarrow> m = n"
  by (metis nat_of_digits_string_of_nat)

definition string_of_int :: "int \<Rightarrow> string" where
  "string_of_int i = (if i < 0 then ''-'' @ string_of_nat (nat (- i)) else string_of_nat (nat i))"

subsection \<open>JavaScript arrays\<close>

fun index_of :: "'a \<Rightarrow> 'a list \<Rightarrow> nat option" where
  "index_of x [] = None"
| "index_of x (y # ys) = (if y = x then Some 0 else map_option Suc (index_of x ys))"

lemma index_of_None_iff: "index_of x xs = None \<longleftrightarrow> x \<notin> set xs"
  by (induction xs) auto

lemma index_of_SomeD: "index_of x xs = Some i \<Longrightarrow> i < length xs \<and> xs ! i = x"
  by (induction xs arbitrary: i) (auto split: if_splits)

lemma index_of_nth: "distinct xs \<Longrightarrow> i < length xs \<Longrightarrow> index_of (xs ! i) xs = Some i"
proof (induction xs arbitrary: i)
  case (Cons x xs)
  then show ?case by (cases i) auto
qed simp

definition js_splice :: "'a list \<Rightarrow> nat \<Rightarrow> nat \<Rightarrow> 'a list \<Rightarrow> 'a list" where
  "js_splice xs start del ins = take start xs @ ins @ drop (start + del) xs"

definition js_slice :: "'a list \<Rightarrow> nat \<Rightarrow> nat \<Rightarrow> 'a list" where
  "js_slice xs start stop = take (stop - start) (drop start xs)"

text \<open>\<open>xs[i]\<close> for an integer index: \<open>undefined\<close> outside the array.\<close>

definition js_at :: "'a list \<Rightarrow> int \<Rightarrow> 'a option" where
  "js_at xs i = (if 0 \<le> i \<and> i < int (length xs) then Some (xs ! nat i) else None)"

lemma js_at_Some_iff: "js_at xs i = Some x \<longleftrightarrow> 0 \<le> i \<and> i < int (length xs) \<and> xs ! nat i = x"
  by (auto simp: js_at_def)

lemma js_at_append: "i < int (length xs) \<Longrightarrow> js_at (xs @ ys) i = js_at xs i"
  by (auto simp: js_at_def nth_append nat_less_iff)

lemma set_js_splice_subset: "set (js_splice xs s d ins) \<subseteq> set xs \<union> set ins"
  by (auto simp: js_splice_def dest: in_set_takeD in_set_dropD)

lemma length_js_splice:
  "s + d \<le> length xs \<Longrightarrow> length (js_splice xs s d ins) = length xs - d + length ins"
  by (simp add: js_splice_def)

lemma js_splice_slice:
  "s + d \<le> length xs \<Longrightarrow> xs = take s xs @ js_slice xs s (s + d) @ drop (s + d) xs"
  by (metis add_diff_cancel_left' append_take_drop_id drop_drop add.commute js_slice_def)

lemma distinct_js_splice:
  assumes "distinct xs" and "distinct ins" and "set ins \<inter> set xs = {}"
  shows "distinct (js_splice xs s d ins)"
proof -
  have "distinct (take s xs @ drop (s + d) xs)"
    using assms(1) by (auto simp: distinct_append set_take_disj_set_drop_if_distinct)
  moreover have "set ins \<inter> set (take s xs @ drop (s + d) xs) = {}"
    using assms(3) by (auto dest: in_set_takeD in_set_dropD)
  ultimately show ?thesis
    using assms(2) unfolding js_splice_def by auto
qed

subsection \<open>Replaying a log through a partial step\<close>

text \<open>
  \<open>run_log f evs i s es\<close> feeds the events \<open>es\<close>, which stand at positions \<open>i, i+1, \<dots>\<close> of
  \<open>evs\<close>, to the step \<open>f\<close>. A step that throws stops the loop with the state reached so far,
  as a \<open>for\<close> loop over mutable state does.
\<close>

fun run_log ::
  "('e list \<Rightarrow> nat \<Rightarrow> 's \<Rightarrow> 'e \<Rightarrow> 'err + 's) \<Rightarrow> 'e list \<Rightarrow> nat \<Rightarrow> 's \<Rightarrow> 'e list \<Rightarrow> 'err option \<times> nat \<times> 's"
where
  "run_log f evs i s [] = (None, i, s)"
| "run_log f evs i s (e # es) =
     (case f evs i s e of Inl x \<Rightarrow> (Some x, i, s) | Inr s' \<Rightarrow> run_log f evs (Suc i) s' es)"

definition replay ::
  "('e list \<Rightarrow> nat \<Rightarrow> 's \<Rightarrow> 'e \<Rightarrow> 'err + 's) \<Rightarrow> 's \<Rightarrow> 'e list \<Rightarrow> 'err option \<times> nat \<times> 's"
where
  "replay f s evs = run_log f evs 0 s evs"

lemma run_log_append:
  "run_log f evs i s (xs @ ys) =
     (case run_log f evs i s xs of
        (Some x, j, t) \<Rightarrow> (Some x, j, t)
      | (None, j, t) \<Rightarrow> run_log f evs j t ys)"
  by (induction xs arbitrary: i s) (auto split: sum.splits)

lemma run_log_None_index: "run_log f evs i s es = (None, j, t) \<Longrightarrow> j = i + length es"
  by (induction es arbitrary: i s) (fastforce split: sum.splits)+

lemma run_log_stuck:
  "run_log f evs i s es = (Some x, j, t) \<Longrightarrow>
     i \<le> j \<and> j < i + length es \<and> run_log f evs i s (take (j - i) es) = (None, j, t) \<and>
     f evs j t (es ! (j - i)) = Inl x"
proof (induction es arbitrary: i s)
  case (Cons e es)
  show ?case
  proof (cases "f evs i s e")
    case (Inl y)
    with Cons.prems show ?thesis by simp
  next
    case (Inr s')
    with Cons.prems have "run_log f evs (Suc i) s' es = (Some x, j, t)" by simp
    from Cons.IH [OF this] have ih: "Suc i \<le> j" "j < Suc i + length es"
        "run_log f evs (Suc i) s' (take (j - Suc i) es) = (None, j, t)" "f evs j t (es ! (j - Suc i)) = Inl x"
      by auto
    have "j - i = Suc (j - Suc i)" using ih(1) by simp
    with ih Inr show ?thesis by simp
  qed
qed simp

locale log_replay =
  fixes step :: "'e list \<Rightarrow> nat \<Rightarrow> 's \<Rightarrow> 'e \<Rightarrow> 'err + 's"
    and init :: 's
    and inv :: "nat \<Rightarrow> 's \<Rightarrow> bool"
  assumes inv_init: "inv 0 init"
    and inv_step: "inv i s \<Longrightarrow> step evs i s e = Inr s' \<Longrightarrow> inv (Suc i) s'"
    and step_local: "inv i s \<Longrightarrow> i \<le> length evs \<Longrightarrow> step (evs @ rest) i s e = step evs i s e"
begin

lemma run_inv:
  "inv i s \<Longrightarrow> run_log step evs i s es = (r, j, t) \<Longrightarrow> inv j t"
  by (induction es arbitrary: i s) (auto split: sum.splits dest: inv_step)

lemma run_local:
  "inv i s \<Longrightarrow> i + length es \<le> length evs \<Longrightarrow>
   run_log step (evs @ rest) i s es = run_log step evs i s es"
proof (induction es arbitrary: i s)
  case (Cons e es)
  then show ?case
    by (auto simp: step_local dest: inv_step split: sum.splits)
qed simp

lemma replay_inv: "replay step init evs = (r, j, t) \<Longrightarrow> inv j t"
  by (auto simp: replay_def intro: run_inv inv_init)

lemma replay_snoc:
  "replay step init (evs @ [e]) =
     (case replay step init evs of
        (Some x, j, t) \<Rightarrow> (Some x, j, t)
      | (None, j, t) \<Rightarrow>
          (case step evs j t e of Inl x \<Rightarrow> (Some x, j, t) | Inr t' \<Rightarrow> (None, Suc j, t')))"
proof -
  have loc: "run_log step (evs @ [e]) 0 init evs = run_log step evs 0 init evs"
    by (rule run_local) (auto simp: inv_init)
  show ?thesis
  proof (cases "run_log step evs 0 init evs")
    case (fields r j t)
    show ?thesis
    proof (cases r)
      case None
      with fields have "j = length evs" and "inv j t"
        using run_log_None_index run_inv inv_init by fastforce+
      then have "step (evs @ [e]) j t e = step evs j t e"
        by (intro step_local) auto
      with loc fields None show ?thesis
        by (auto simp: replay_def run_log_append split: sum.splits)
    next
      case (Some x)
      with loc fields show ?thesis by (simp add: replay_def run_log_append)
    qed
  qed
qed

text \<open>
  A cache that has consumed the first \<open>n\<close> events of a log and catches up after the log
  grew reaches what a replay of the grown log reaches.
\<close>

lemma catch_up:
  assumes "replay step init evs = (None, n, s)"
  shows "run_log step (evs @ rest) n s rest = replay step init (evs @ rest)"
proof -
  have "n = length evs" and "inv n s"
    using assms run_log_None_index [of step evs 0 init evs] replay_inv
    by (auto simp: replay_def)
  moreover have "run_log step (evs @ rest) 0 init evs = (None, n, s)"
    using assms run_local [of 0 init evs evs rest] inv_init by (simp add: replay_def)
  ultimately show ?thesis
    by (simp add: replay_def run_log_append)
qed

lemma replay_length: "replay step init evs = (None, n, s) \<Longrightarrow> n = length evs"
  using run_log_None_index by (fastforce simp: replay_def)

text \<open>A replay that throws has folded the events before the one that threw.\<close>

lemma replay_stuck:
  assumes "replay step init evs = (Some x, j, t)"
  shows "j < length evs" and "replay step init (take j evs) = (None, j, t)"
    and "step evs j t (evs ! j) = Inl x"
proof -
  have run: "run_log step evs 0 init evs = (Some x, j, t)" using assms by (simp add: replay_def)
  from run_log_stuck [OF this] have stuck: "j < length evs" "run_log step evs 0 init (take j evs) = (None, j, t)"
      "step evs j t (evs ! j) = Inl x"
    by auto
  then show "j < length evs" and "step evs j t (evs ! j) = Inl x" by auto
  have "run_log step (take j evs @ drop j evs) 0 init (take j evs) = run_log step (take j evs) 0 init (take j evs)"
    by (rule run_local) (use inv_init stuck(1) in auto)
  with stuck(2) show "replay step init (take j evs) = (None, j, t)" by (simp add: replay_def)
qed

lemma replay_Nil [simp]: "replay step init [] = (None, 0, init)"
  by (simp add: replay_def)

lemma replay_snoc_Some:
  "replay step init (evs @ [e]) = (None, n, s') \<longleftrightarrow>
     n = Suc (length evs) \<and>
     (\<exists>s. replay step init evs = (None, length evs, s) \<and> step evs (length evs) s e = Inr s')"
  by (auto simp: replay_snoc dest: replay_length split: prod.splits option.splits sum.splits)

lemma replay_induct [consumes 1, case_names Nil snoc]:
  assumes "replay step init evs = (None, n, s)"
    and "P [] init"
    and "\<And>evs e s s'. replay step init evs = (None, length evs, s) \<Longrightarrow> inv (length evs) s \<Longrightarrow> P evs s
           \<Longrightarrow> step evs (length evs) s e = Inr s' \<Longrightarrow> P (evs @ [e]) s'"
  shows "P evs s"
  using assms(1)
proof (induction evs arbitrary: n s rule: rev_induct)
  case Nil
  with assms(2) show ?case by simp
next
  case (snoc e evs)
  from snoc.prems obtain t where t: "replay step init evs = (None, length evs, t)"
    and "step evs (length evs) t e = Inr s"
    unfolding replay_snoc_Some by blast
  with snoc.IH show ?case
    by (intro assms(3)) (auto dest: replay_inv)
qed

lemma replay_prefix:
  assumes "replay step init (evs @ rest) = (None, n, s)"
  obtains t where "replay step init evs = (None, length evs, t)"
proof -
  have loc: "run_log step (evs @ rest) 0 init evs = run_log step evs 0 init evs"
    by (rule run_local) (auto simp: inv_init)
  obtain r j t where run: "run_log step evs 0 init evs = (r, j, t)"
    by (cases "run_log step evs 0 init evs") auto
  with assms loc have "r = None"
    by (cases r) (auto simp: replay_def run_log_append)
  with run have "replay step init evs = (None, length evs, t)"
    using run_log_None_index by (fastforce simp: replay_def)
  then show ?thesis by (rule that)
qed

end

end
