(* ===== verification/Session_Types.thy ===== *)
theory Session_Types
  imports Dsh_Prelude
begin

section \<open>The session event vocabulary\<close>

text \<open>
  The durable vocabulary of \<^verbatim>\<open>packages/core/session/src/types.ts\<close> and of the message and
  stream types it imports from \<^verbatim>\<open>packages/llm/llm/src\<close>. TypeScript unions are datatypes with
  the source's variants; a merge-extensible union has one more constructor for the
  variants a plugin adds. Opaque plugin payloads are JSON values. Turn, step, block and
  sequence numbers are integers (the code's checks on them are written out where it makes
  them), surface metadata is kept as the raw JSON value the fold validates.
\<close>

type_synonym call_id = string
type_synonym message_id = string
type_synonym session_id = string

subsection \<open>Content blocks, messages and stream chunks\<close>

datatype content_block =
    TextB string
  | ReasoningB string
  | ImageB json
  | ToolCallB call_id string string
  | ToolResultB call_id "content_block list" "bool option"
  | OtherB string json

fun block_type :: "content_block \<Rightarrow> string" where
  "block_type (TextB _) = ''text''"
| "block_type (ReasoningB _) = ''reasoning''"
| "block_type (ImageB _) = ''image''"
| "block_type (ToolCallB _ _ _) = ''tool-call''"
| "block_type (ToolResultB _ _ _) = ''tool-result''"
| "block_type (OtherB t _) = t"

datatype message_source =
    UserSrc
  | PluginSrc json
  | ModelSrc string string "json option"
  | ToolSrc call_id
  | GoalSrc string int int
  | OtherSrc string json

record user_message =
  um_id :: message_id
  um_content :: "content_block list"
  um_source :: message_source

record assistant_message =
  am_id :: message_id
  am_content :: "content_block list"
  am_provider :: string
  am_model :: string
  am_replay :: "json option"

text \<open>A tool result message: one tool-result block and a tool source naming the call.\<close>

record tool_result_message =
  trm_id :: message_id
  trm_call :: call_id
  trm_tool_call :: call_id
  trm_content :: "content_block list"
  trm_is_error :: "bool option"

datatype message =
    UserM user_message
  | AssistantM assistant_message
  | ToolResultM tool_result_message

datatype finish_reason =
    FStop
  | FToolCalls
  | FMaxTokens
  | FAborted json
  | FError json
  | FOther string json

datatype stream_chunk =
    BlockStart int string
  | TextDelta int string
  | ReasoningDelta int string
  | ToolCallDelta int call_id "string option" string
  | BlockEnd int content_block
  | UsageC json
  | FinishC finish_reason "json option"

subsection \<open>Turn ends, todo lists, request headers\<close>

datatype cancel_cause = CauseUser | CauseParent | CauseHook string | CauseDisposed | CauseLegacy

datatype turn_end_reason =
    Completed
  | Aborted cancel_cause
  | Blocked
  | Errored json
  | MaxTokens
  | Interrupted
  | OtherEnd string json

datatype todo_status = Pending | InProgress | TodoCompleted

record todo_item =
  td_content :: string
  td_status :: todo_status

record call_config =
  cc_provider :: string
  cc_model :: string
  cc_reasoning_effort :: "string option"
  cc_temperature :: "rat option"
  cc_max_tokens :: "rat option"
  cc_stop :: "string list option"

text \<open>The markers \<open>{ reasoningEffort?: true, maxTokens?: true }\<close>.\<close>

record adapter_defaults =
  ad_reasoning_effort :: bool
  ad_max_tokens :: bool

record epoch_header =
  eh_config :: call_config
  eh_adapter_defaults :: "adapter_defaults option"
  eh_system :: "string option"
  eh_tools :: "json list option"

datatype header_reason = InitialHeader | ResumeHeader | ChangeHeader | FallbackHeader

record request_context =
  rc_provider :: string
  rc_model :: string
  rc_context_window :: "rat option"

subsection \<open>Events\<close>

record tool_result_data =
  tr_turn :: int
  tr_step :: int
  tr_message :: tool_result_message
  tr_error :: "(string \<times> string) option"
  tr_meta :: "json option"

datatype inbox_target = NextTurn | NextStep

record inbox_splice =
  sp_target :: inbox_target
  sp_start :: int
  sp_removed :: "int option"
  sp_inserted :: "user_message list"
  sp_canceled :: bool

datatype event_data =
    TurnStart int
  | TurnEnd int turn_end_reason
  | StepStart int int
  | StepEnd int int
  | UserMessage user_message
  | AssistantChunk int int stream_chunk
  | AssistantMessage int int assistant_message "json option"
  | ToolCall int int call_id string string
  | ToolResult tool_result_data
  | TodoWrite "todo_item list"
  | RequestHeader epoch_header header_reason
  | RequestContext request_context
  | EndSeed
  | InboxSpliced inbox_splice
  | GoalChange json
  | OtherEvent string json

fun event_type :: "event_data \<Rightarrow> string" where
  "event_type (TurnStart _) = ''turn/start''"
| "event_type (TurnEnd _ _) = ''turn/end''"
| "event_type (StepStart _ _) = ''step/start''"
| "event_type (StepEnd _ _) = ''step/end''"
| "event_type (UserMessage _) = ''user/message''"
| "event_type (AssistantChunk _ _ _) = ''assistant/chunk''"
| "event_type (AssistantMessage _ _ _ _) = ''assistant/message''"
| "event_type (ToolCall _ _ _ _ _) = ''tool/call''"
| "event_type (ToolResult _) = ''tool/result''"
| "event_type (TodoWrite _) = ''todo/write''"
| "event_type (RequestHeader _ _) = ''request/header''"
| "event_type (RequestContext _) = ''request/context''"
| "event_type EndSeed = ''session/end-seed''"
| "event_type (InboxSpliced _) = ''agent/inbox/spliced''"
| "event_type (GoalChange _) = ''goal/change''"
| "event_type (OtherEvent t _) = t"

record session_event =
  ev_seq :: int
  ev_time :: int
  ev_data :: event_data
  ev_surface_op :: "json option"
  ev_sources :: "json option"
  ev_ignorable :: bool

text \<open>
  Plugin events carry a type of their own: never one of the core message types, so a
  plugin event is never surface-eligible. Events of a log are in this sense well typed.
\<close>

definition message_types :: "string list" where
  "message_types = [''user/message'', ''assistant/message'', ''tool/result'']"

definition plain_event :: "int \<Rightarrow> int \<Rightarrow> event_data \<Rightarrow> session_event" where
  "plain_event n t d =
     \<lparr>ev_seq = n, ev_time = t, ev_data = d, ev_surface_op = None, ev_sources = None,
      ev_ignorable = False\<rparr>"

lemma plain_event_sel [simp]:
  "ev_seq (plain_event n t d) = n" "ev_time (plain_event n t d) = t"
  "ev_data (plain_event n t d) = d" "ev_surface_op (plain_event n t d) = None"
  "ev_sources (plain_event n t d) = None" "\<not> ev_ignorable (plain_event n t d)"
  by (simp_all add: plain_event_def)

text \<open>The sequence numbers of a log are its positions (\<open>seq = log.length\<close> at every append).\<close>

definition contiguous :: "session_event list \<Rightarrow> bool" where
  "contiguous evs \<longleftrightarrow> (\<forall>i < length evs. ev_seq (evs ! i) = int i)"

lemma contiguous_snoc:
  "contiguous (evs @ [e]) \<longleftrightarrow> contiguous evs \<and> ev_seq e = int (length evs)"
  by (auto simp: contiguous_def nth_append less_Suc_eq)

lemma contiguous_take: "contiguous evs \<Longrightarrow> contiguous (take n evs)"
  by (auto simp: contiguous_def)

lemma contiguous_Nil [simp]: "contiguous []"
  by (simp add: contiguous_def)

subsection \<open>A sample log\<close>

definition sample_user :: user_message where
  "sample_user = \<lparr>um_id = ''m1'', um_content = [TextB ''hi''], um_source = UserSrc\<rparr>"

definition sample_assistant :: assistant_message where
  "sample_assistant = \<lparr>am_id = ''m2'', am_content = [ToolCallB ''c1'' ''run'' ''{}''],
     am_provider = ''p'', am_model = ''m'', am_replay = None\<rparr>"

definition on_surface :: "int \<Rightarrow> event_data \<Rightarrow> session_event" where
  "on_surface n d = \<lparr>ev_seq = n, ev_time = 0, ev_data = d, ev_surface_op = Some (JStr ''append''),
     ev_sources = None, ev_ignorable = False\<rparr>"

text \<open>A log interrupted after its tool call was recorded.\<close>

definition sample_log :: "session_event list" where
  "sample_log =
     [plain_event 0 0 (TurnStart 1), on_surface 1 (UserMessage sample_user),
      plain_event 2 0 (StepStart 1 1), on_surface 3 (AssistantMessage 1 1 sample_assistant None),
      plain_event 4 0 (ToolCall 1 1 ''c1'' ''run'' ''{}'')]"

lemmas sample_defs = sample_log_def on_surface_def sample_user_def sample_assistant_def

end
