(* ===== verification/Session_Surface.thy ===== *)
theory Session_Surface
  imports Session_Types "HOL-Library.Multiset"
begin

section \<open>The model-visible surface of a session log\<close>

text \<open>
  Model of \<^verbatim>\<open>packages/core/session/src/surface.ts\<close>: which events join the surface, the
  validation of their surface metadata (marker, replacement range, cited sources, the
  restricted rewrite of a tool result), the two-phase plan/apply transition, the full fold
  and the incremental \<open>SurfaceManager\<close>.
\<close>

subsection \<open>Surface-eligible events and the message they derive\<close>

definition is_surface_eligible_type :: "string \<Rightarrow> bool" where
  "is_surface_eligible_type t \<longleftrightarrow> t \<in> set message_types"

definition is_surface_event :: "session_event \<Rightarrow> bool" where
  "is_surface_event e \<longleftrightarrow>
     is_surface_eligible_type (event_type (ev_data e)) \<and> ev_surface_op e \<noteq> None"

definition is_append_surface_event :: "session_event \<Rightarrow> bool" where
  "is_append_surface_event e \<longleftrightarrow>
     is_surface_event e \<and> ev_surface_op e = Some (JStr ''append'')"

definition is_replacement_surface_event :: "session_event \<Rightarrow> bool" where
  "is_replacement_surface_event e \<longleftrightarrow>
     is_surface_event e \<and> ev_surface_op e \<noteq> Some (JStr ''append'')"

fun derive_event_message :: "event_data \<Rightarrow> message option" where
  "derive_event_message (UserMessage m) = Some (UserM m)"
| "derive_event_message (AssistantMessage _ _ m _) =
     (if am_content m = [] then None else Some (AssistantM m))"
| "derive_event_message (ToolResult d) = Some (ToolResultM (tr_message d))"
| "derive_event_message _ = None"

subsection \<open>Metadata validation\<close>

datatype surface_op = OpAppend | OpReplace int int

datatype surface_error =
    NotContiguous int int
  | OpNotAllowed string
  | SourcesNotAllowed string
  | OpRequired string
  | InvalidOp string
  | InvalidReplaceOp string
  | SourcesNotArray int
  | SourcesEmpty
  | SourcesNotDense string
  | SourcesDuplicate
  | SourceNotEarlier int int
  | ShadowedMissing "int list"
  | StartNotFound int
  | EndNotFound int
  | StartAfterEnd int int
  | RewriteNotOne
  | RewriteNotResult
  | RewriteNotContent

fun is_event_seq :: "json \<Rightarrow> int option" where
  "is_event_seq v =
     (case json_safe_int v of
        None \<Rightarrow> None
      | Some i \<Rightarrow> if 0 \<le> i then Some i else None)"

declare is_event_seq.simps [simp del]

lemma is_event_seq_Some_iff: "is_event_seq v = Some i \<longleftrightarrow> v = jint i \<and> safe_int i \<and> 0 \<le> i"
  by (auto simp: is_event_seq.simps json_safe_int_Some_iff split: option.splits)

definition is_replace_op :: "(string \<times> json) list \<Rightarrow> (int \<times> int) option" where
  "is_replace_op op =
     (if length op = 3 \<and> has_own op ''op'' \<and> has_own op ''start'' \<and> has_own op ''end''
         \<and> map_of op ''op'' = Some (JStr ''replace'')
      then (case (map_of op ''start'', map_of op ''end'') of
              (Some s, Some t) \<Rightarrow>
                (case (is_event_seq s, is_event_seq t) of
                   (Some i, Some j) \<Rightarrow> Some (i, j)
                 | _ \<Rightarrow> None)
            | _ \<Rightarrow> None)
      else None)"

definition surface_op_of :: "session_event \<Rightarrow> surface_error + surface_op option" where
  "surface_op_of e =
     (let t = event_type (ev_data e) in
      if \<not> is_surface_eligible_type t then
        (if ev_surface_op e \<noteq> None then Inl (OpNotAllowed t)
         else if ev_sources e \<noteq> None then Inl (SourcesNotAllowed t)
         else Inr None)
      else
        (case ev_surface_op e of
           None \<Rightarrow> Inl (OpRequired t)
         | Some v \<Rightarrow>
             if v = JStr ''append'' then Inr (Some OpAppend)
             else
               (case v of
                  JObj kvs \<Rightarrow>
                    (case is_replace_op kvs of
                       None \<Rightarrow> Inl (InvalidReplaceOp t)
                     | Some (i, j) \<Rightarrow> Inr (Some (OpReplace i j)))
                | _ \<Rightarrow> Inl (InvalidOp t))))"

text \<open>
  The loop over the cited sources: collects the set and remembers the first source that is
  not earlier than the event. \<open>None\<close> is the throw on an entry that is no sequence number.
\<close>

fun scan_sources :: "int \<Rightarrow> json list \<Rightarrow> int list \<Rightarrow> int option \<Rightarrow> (int list \<times> int option) option" where
  "scan_sources n [] sources late = Some (sources, late)"
| "scan_sources n (v # vs) sources late =
     (case is_event_seq v of
        None \<Rightarrow> None
      | Some s \<Rightarrow>
          scan_sources n vs (s # sources) (if late = None \<and> n \<le> s then Some s else late))"

definition check_sources :: "session_event \<Rightarrow> surface_error + int list" where
  "check_sources e =
     (case ev_sources e of
        None \<Rightarrow> Inr []
      | Some (JArr raw) \<Rightarrow>
          if raw = [] \<and> event_type (ev_data e) \<noteq> ''assistant/message'' then Inl SourcesEmpty
          else
            (case scan_sources (ev_seq e) raw [] None of
               None \<Rightarrow> Inl (SourcesNotDense (event_type (ev_data e)))
             | Some (sources, late) \<Rightarrow>
                 if length (remdups sources) \<noteq> length raw then Inl SourcesDuplicate
                 else (case late of
                         Some s \<Rightarrow> Inl (SourceNotEarlier s (ev_seq e))
                       | None \<Rightarrow> Inr sources))
      | Some _ \<Rightarrow> Inl (SourcesNotArray (ev_seq e)))"

definition assert_provenance :: "session_event \<Rightarrow> int list \<Rightarrow> surface_error + unit" where
  "assert_provenance e shadowed =
     (case check_sources e of
        Inl x \<Rightarrow> Inl x
      | Inr sources \<Rightarrow>
          (let missing = filter (\<lambda>s. s \<notin> set sources) shadowed
           in if missing \<noteq> [] then Inl (ShadowedMissing missing) else Inr ()))"

subsection \<open>Structural JSON equality and the tool-result rewrite\<close>

lemma size_zip_fst [termination_simp]:
  "(a, b) \<in> set (zip xs ys) \<Longrightarrow> size a < Suc (size_list size xs)"
  by (drule set_zip_leftD) (simp add: size_list_estimation' less_Suc_eq_le)

fun is_deep_equal_json :: "json \<Rightarrow> json \<Rightarrow> bool" where
  "is_deep_equal_json (JArr xs) (JArr ys) \<longleftrightarrow>
     length xs = length ys \<and> list_all (\<lambda>(x, y). is_deep_equal_json x y) (zip xs ys)"
| "is_deep_equal_json (JObj as) (JObj bs) \<longleftrightarrow>
     length as = length bs \<and>
     list_all (\<lambda>(k, v). case map_of bs k of None \<Rightarrow> False | Some w \<Rightarrow> is_deep_equal_json v w) as"
| "is_deep_equal_json a b \<longleftrightarrow> a = b"

text \<open>
  The data of a tool result with the content of its block blanked, as the object the
  rewrite check builds: everything a rewrite must keep.
\<close>

definition tool_result_rest :: "tool_result_data \<Rightarrow> json" where
  "tool_result_rest d =
     JObj ([(''turn'', jint (tr_turn d)), (''step'', jint (tr_step d)),
       (''message'',
          JObj [(''id'', JStr (trm_id (tr_message d))), (''role'', JStr ''user''),
            (''source'', JObj [(''kind'', JStr ''tool''), (''callId'', JStr (trm_call (tr_message d)))]),
            (''content'',
               JArr [JObj ([(''type'', JStr ''tool-result''),
                   (''toolCallId'', JStr (trm_tool_call (tr_message d))), (''content'', JNull)]
                 @ (case trm_is_error (tr_message d) of
                      None \<Rightarrow> [] | Some b \<Rightarrow> [(''isError'', JBool b)]))])])]
       @ (case tr_error d of
            None \<Rightarrow> []
          | Some (n, c) \<Rightarrow> [(''error'', JObj [(''name'', JStr n), (''code'', JStr c)])])
       @ (case tr_meta d of None \<Rightarrow> [] | Some m \<Rightarrow> [(''meta'', m)]))"

fun rewrite_checks ::
  "tool_result_data \<Rightarrow> session_event list \<Rightarrow> int \<Rightarrow> int list \<Rightarrow> surface_error + unit"
where
  "rewrite_checks d evs base [] = Inr ()"
| "rewrite_checks d evs base (n # ns) =
     (case js_at evs (n - base) of
        None \<Rightarrow> Inl RewriteNotResult
      | Some original \<Rightarrow>
          (case ev_data original of
             ToolResult d0 \<Rightarrow>
               if \<not> is_deep_equal_json (tool_result_rest d0) (tool_result_rest d)
               then Inl RewriteNotContent
               else rewrite_checks d evs base ns
           | _ \<Rightarrow> Inl RewriteNotResult))"

definition assert_tool_result_rewrite ::
  "session_event \<Rightarrow> int list \<Rightarrow> session_event list \<Rightarrow> int \<Rightarrow> surface_error + unit"
where
  "assert_tool_result_rewrite e shadowed evs base =
     (case ev_data e of
        ToolResult d \<Rightarrow>
          if length shadowed \<noteq> 1 then Inl RewriteNotOne
          else rewrite_checks d evs base shadowed
      | _ \<Rightarrow> Inr ())"

subsection \<open>Plan and apply\<close>

record surface_state =
  nodes :: "int list"
  replace_generation :: nat

record replace_plan =
  rp_seq :: int
  rp_start :: int
  rp_end :: int
  rp_start_idx :: nat
  rp_end_idx :: nat
  rp_shadowed :: "int list"

datatype surface_plan = PlanAppend int | PlanReplace replace_plan

record replacement =
  re_seq :: int
  re_start :: int
  re_end :: int
  re_shadowed :: "int list"

definition create_fold_state :: surface_state where
  "create_fold_state = \<lparr>nodes = [], replace_generation = 0\<rparr>"

definition replacement_range ::
  "surface_state \<Rightarrow> int \<Rightarrow> int \<Rightarrow> surface_error + (nat \<times> nat \<times> int list)"
where
  "replacement_range st start stop =
     (case index_of start (nodes st) of
        None \<Rightarrow> Inl (StartNotFound start)
      | Some i \<Rightarrow>
          (case index_of stop (nodes st) of
             None \<Rightarrow> Inl (EndNotFound stop)
           | Some j \<Rightarrow>
               if j < i then Inl (StartAfterEnd start stop)
               else Inr (i, j, js_slice (nodes st) i (j + 1))))"

definition plan_surface_event ::
  "surface_state \<Rightarrow> session_event \<Rightarrow> int \<Rightarrow> session_event list \<Rightarrow> int \<Rightarrow> surface_error + surface_plan option"
where
  "plan_surface_event st e expected evs base =
     (if ev_seq e \<noteq> expected then Inl (NotContiguous (ev_seq e) expected)
      else
        (case surface_op_of e of
           Inl x \<Rightarrow> Inl x
         | Inr None \<Rightarrow> Inr None
         | Inr (Some OpAppend) \<Rightarrow>
             (case assert_provenance e [] of
                Inl x \<Rightarrow> Inl x
              | Inr _ \<Rightarrow> Inr (Some (PlanAppend (ev_seq e))))
         | Inr (Some (OpReplace start stop)) \<Rightarrow>
             (case replacement_range st start stop of
                Inl x \<Rightarrow> Inl x
              | Inr (i, j, shadowed) \<Rightarrow>
                  (case assert_provenance e shadowed of
                     Inl x \<Rightarrow> Inl x
                   | Inr _ \<Rightarrow>
                       (case assert_tool_result_rewrite e shadowed evs base of
                          Inl x \<Rightarrow> Inl x
                        | Inr _ \<Rightarrow>
                            Inr (Some (PlanReplace
                              \<lparr>rp_seq = ev_seq e, rp_start = start, rp_end = stop,
                               rp_start_idx = i, rp_end_idx = j, rp_shadowed = shadowed\<rparr>)))))))"

fun apply_surface_plan ::
  "surface_state \<Rightarrow> surface_plan option \<Rightarrow> surface_state \<times> replacement option"
where
  "apply_surface_plan st None = (st, None)"
| "apply_surface_plan st (Some (PlanAppend n)) = (st\<lparr>nodes := nodes st @ [n]\<rparr>, None)"
| "apply_surface_plan st (Some (PlanReplace p)) =
     (st\<lparr>nodes := js_splice (nodes st) (rp_start_idx p) (rp_end_idx p - rp_start_idx p + 1) [rp_seq p],
         replace_generation := replace_generation st + 1\<rparr>,
      Some \<lparr>re_seq = rp_seq p, re_start = rp_start p, re_end = rp_end p,
            re_shadowed = rp_shadowed p\<rparr>)"

definition apply_surface_event ::
  "surface_state \<Rightarrow> session_event \<Rightarrow> int \<Rightarrow> session_event list \<Rightarrow> int
    \<Rightarrow> surface_error + (surface_state \<times> replacement option)"
where
  "apply_surface_event st e expected evs base =
     (case plan_surface_event st e expected evs base of
        Inl x \<Rightarrow> Inl x
      | Inr p \<Rightarrow> Inr (apply_surface_plan st p))"

subsection \<open>The complete fold\<close>

definition fold_step ::
  "session_event list \<Rightarrow> nat \<Rightarrow> surface_state \<times> replacement list \<Rightarrow> session_event
    \<Rightarrow> surface_error + (surface_state \<times> replacement list)"
where
  "fold_step evs i s e =
     (case apply_surface_event (fst s) e (int i) evs 0 of
        Inl x \<Rightarrow> Inl x
      | Inr (st, None) \<Rightarrow> Inr (st, snd s)
      | Inr (st, Some r) \<Rightarrow> Inr (st, snd s @ [r]))"

definition fold_surface :: "session_event list \<Rightarrow> surface_error + (int list \<times> replacement list)" where
  "fold_surface evs =
     (case replay fold_step (create_fold_state, []) evs of
        (Some x, _, _) \<Rightarrow> Inl x
      | (None, _, (st, rs)) \<Rightarrow> Inr (nodes st, rs))"

subsection \<open>Facts about the transition\<close>

lemma surface_op_of_Inr_None:
  "surface_op_of e = Inr None \<longleftrightarrow>
     \<not> is_surface_eligible_type (event_type (ev_data e)) \<and> ev_surface_op e = None \<and> ev_sources e = None"
  by (auto simp: surface_op_of_def Let_def split: option.splits json.splits if_splits)

lemma surface_op_of_append:
  "surface_op_of e = Inr (Some OpAppend) \<longleftrightarrow> is_append_surface_event e"
  by (auto simp: surface_op_of_def Let_def is_append_surface_event_def is_surface_event_def
      split: option.splits json.splits if_splits prod.splits)

lemma surface_op_of_replace:
  "surface_op_of e = Inr (Some (OpReplace i j)) \<Longrightarrow> is_replacement_surface_event e"
  by (auto simp: surface_op_of_def Let_def is_replacement_surface_event_def is_surface_event_def
      split: option.splits json.splits if_splits prod.splits)

lemma replacement_range_InrD:
  assumes "replacement_range st a b = Inr (i, j, sh)"
  shows "i \<le> j" and "j < length (nodes st)" and "nodes st ! i = a" and "nodes st ! j = b"
    and "sh = js_slice (nodes st) i (j + 1)"
  using assms
  by (auto simp: replacement_range_def not_less split: option.splits if_splits dest: index_of_SomeD)

text \<open>The three ways an event is accepted.\<close>

lemma plan_surface_event_cases [consumes 1, case_names log_only append replace]:
  assumes "plan_surface_event st e n evs base = Inr p"
  obtains
    "ev_seq e = n" "p = None" "\<not> is_surface_event e"
      "\<not> is_surface_eligible_type (event_type (ev_data e))"
  | "ev_seq e = n" "p = Some (PlanAppend n)" "is_append_surface_event e"
      "assert_provenance e [] = Inr ()"
  | a b i j sh where "ev_seq e = n" "is_replacement_surface_event e"
      "replacement_range st a b = Inr (i, j, sh)"
      "assert_provenance e sh = Inr ()" "assert_tool_result_rewrite e sh evs base = Inr ()"
      "p = Some (PlanReplace \<lparr>rp_seq = n, rp_start = a, rp_end = b, rp_start_idx = i,
             rp_end_idx = j, rp_shadowed = sh\<rparr>)" "surface_op_of e = Inr (Some (OpReplace a b))"
proof -
  from assms have n: "ev_seq e = n"
    by (simp add: plan_surface_event_def)
  with assms obtain op where op: "surface_op_of e = Inr op"
    by (auto simp: plan_surface_event_def split: sum.splits)
  show ?thesis
  proof (cases op)
    case None
    with op have "surface_op_of e = Inr None" by simp
    with assms n show ?thesis
      by (intro that(1)) (auto simp: plan_surface_event_def surface_op_of_Inr_None is_surface_event_def
          split: if_splits)
  next
    case (Some o')
    show ?thesis
    proof (cases o')
      case OpAppend
      with op Some have op': "surface_op_of e = Inr (Some OpAppend)" by simp
      then have "is_append_surface_event e" by (simp only: surface_op_of_append)
      with op' assms n show ?thesis
        by (intro that(2)) (auto simp: plan_surface_event_def split: sum.splits)
    next
      case (OpReplace a b)
      with op Some assms n show ?thesis
        by (auto simp: plan_surface_event_def split: sum.splits
            intro!: that(3) dest: surface_op_of_replace)
    qed
  qed
qed

lemma mset_js_splice:
  assumes "i \<le> j" and "j < length xs"
  shows "mset (js_splice xs i (j - i + 1) [n]) + mset (js_slice xs i (j + 1)) = add_mset n (mset xs)"
proof -
  from assms have "xs = take i xs @ js_slice xs i (i + (j - i + 1)) @ drop (i + (j - i + 1)) xs"
    by (intro js_splice_slice) simp
  then have "mset xs = mset (take i xs) + mset (js_slice xs i (i + (j - i + 1)))
      + mset (drop (i + (j - i + 1)) xs)"
    by (metis mset_append add.assoc)
  moreover from assms have "i + (j - i + 1) = j + 1" by simp
  ultimately show ?thesis
    by (simp add: js_splice_def)
qed

definition surface_inv :: "int \<Rightarrow> nat \<Rightarrow> surface_state \<Rightarrow> bool" where
  "surface_inv base i st \<longleftrightarrow>
     distinct (nodes st) \<and> (\<forall>n \<in> set (nodes st). base \<le> n \<and> n < base + int i)"

lemma surface_inv_apply:
  assumes "surface_inv base i st" and "apply_surface_event st e (base + int i) evs base = Inr (st', r)"
  shows "surface_inv base (Suc i) st'"
proof -
  from assms(2) obtain p where p: "plan_surface_event st e (base + int i) evs base = Inr p"
    and st': "st' = fst (apply_surface_plan st p)"
    by (fastforce simp: apply_surface_event_def split: sum.splits)
  from p show ?thesis
  proof (cases rule: plan_surface_event_cases)
    case log_only
    with st' assms(1) show ?thesis by (auto simp: surface_inv_def)
  next
    case append
    with st' assms(1) show ?thesis by (auto simp: surface_inv_def)
  next
    case (replace a b k j sh)
    have "distinct (js_splice (nodes st) k (j - k + 1) [base + int i])"
      using assms(1) by (intro distinct_js_splice) (auto simp: surface_inv_def)
    moreover have "set (js_splice (nodes st) k (j - k + 1) [base + int i])
        \<subseteq> set (nodes st) \<union> {base + int i}"
      using set_js_splice_subset by fastforce
    ultimately show ?thesis
      using st' assms(1) replace by (fastforce simp: surface_inv_def)
  qed
qed

lemma rewrite_checks_append:
  "\<forall>n \<in> set ns. n < base + int (length evs) \<Longrightarrow>
   rewrite_checks d (evs @ rest) base ns = rewrite_checks d evs base ns"
  by (induction ns) (auto simp: js_at_append split: option.splits event_data.splits)

lemma plan_surface_event_append:
  assumes "\<forall>n \<in> set (nodes st). n < base + int (length evs)"
  shows "plan_surface_event st e n (evs @ rest) base = plan_surface_event st e n evs base"
proof -
  have "assert_tool_result_rewrite e sh (evs @ rest) base = assert_tool_result_rewrite e sh evs base"
    if "replacement_range st a b = Inr (i, j, sh)" for a b i j sh
  proof -
    from replacement_range_InrD(5) [OF that] assms have "\<forall>n \<in> set sh. n < base + int (length evs)"
      by (auto simp: js_slice_def dest!: in_set_takeD in_set_dropD)
    then show ?thesis
      by (simp add: assert_tool_result_rewrite_def rewrite_checks_append split: event_data.splits)
  qed
  then show ?thesis
    by (simp add: plan_surface_event_def split: sum.splits option.splits surface_op.splits prod.splits)
qed

definition surface_step ::
  "int \<Rightarrow> session_event list \<Rightarrow> nat \<Rightarrow> surface_state \<Rightarrow> session_event \<Rightarrow> surface_error + surface_state"
where
  "surface_step base evs i st e =
     (case apply_surface_event st e (base + int i) evs base of
        Inl x \<Rightarrow> Inl x
      | Inr (st', _) \<Rightarrow> Inr st')"

lemma surface_inv_init: "surface_inv base 0 create_fold_state"
  by (simp add: surface_inv_def create_fold_state_def)

lemma apply_surface_event_append:
  assumes "surface_inv base i st" and "i \<le> length evs"
  shows "apply_surface_event st e n (evs @ rest) base = apply_surface_event st e n evs base"
proof -
  from assms have "\<forall>k \<in> set (nodes st). k < base + int (length evs)"
    by (fastforce simp: surface_inv_def)
  then show ?thesis
    by (simp add: apply_surface_event_def plan_surface_event_append)
qed

interpretation surface_log: log_replay "surface_step base" create_fold_state "surface_inv base"
  for base
proof unfold_locales
  show "surface_inv base 0 create_fold_state" by (rule surface_inv_init)
next
  fix i s evs e s'
  assume "surface_inv base i s" and "surface_step base evs i s e = Inr s'"
  then show "surface_inv base (Suc i) s'"
    by (auto simp: surface_step_def split: sum.splits intro: surface_inv_apply)
next
  fix i s and evs rest :: "session_event list" and e
  assume "surface_inv base i s" and "i \<le> length evs"
  then show "surface_step base (evs @ rest) i s e = surface_step base evs i s e"
    by (simp add: surface_step_def apply_surface_event_append)
qed

interpretation fold_log: log_replay fold_step "(create_fold_state, [])" "\<lambda>i s. surface_inv 0 i (fst s)"
proof unfold_locales
  show "surface_inv 0 0 (fst (create_fold_state, []))" by (simp add: surface_inv_init)
next
  fix i s evs e s'
  assume "surface_inv 0 i (fst s)" and "fold_step evs i s e = Inr s'"
  then show "surface_inv 0 (Suc i) (fst s')"
    using surface_inv_apply [of 0 i "fst s" e evs]
    by (auto simp: fold_step_def split: sum.splits option.splits)
next
  fix i and s :: "surface_state \<times> replacement list" and evs rest :: "session_event list" and e
  assume "surface_inv 0 i (fst s)" and "i \<le> length evs"
  then show "fold_step (evs @ rest) i s e = fold_step evs i s e"
    by (simp add: fold_step_def apply_surface_event_append)
qed

subsection \<open>What the fold computes\<close>

definition shadowed_seqs :: "replacement list \<Rightarrow> int list" where
  "shadowed_seqs rs = concat (map re_shadowed rs)"

definition surface_seqs :: "session_event list \<Rightarrow> int list" where
  "surface_seqs evs = map ev_seq (filter is_surface_event evs)"

lemma fold_surface_Inr_iff:
  "fold_surface evs = Inr (ns, rs) \<longleftrightarrow>
     (\<exists>st. replay fold_step (create_fold_state, []) evs = (None, length evs, (st, rs)) \<and> nodes st = ns)"
proof -
  obtain r n st rs' where run: "replay fold_step (create_fold_state, []) evs = (r, n, (st, rs'))"
    using prod_cases4 by blast
  show ?thesis
  proof (cases r)
    case None
    with run fold_log.replay_length have "n = length evs" by blast
    with run None show ?thesis by (auto simp: fold_surface_def)
  next
    case (Some x)
    with run show ?thesis by (auto simp: fold_surface_def)
  qed
qed

lemma scan_sources_keeps_late:
  "scan_sources n vs acc late = Some (out, None) \<Longrightarrow> late = None"
proof (induction vs arbitrary: acc late)
  case Nil
  then show ?case by simp
next
  case (Cons v vs)
  from Cons.prems Cons.IH show ?case
    by (simp split: option.splits) (metis option.distinct(1))
qed

lemma scan_sources_None_late:
  "scan_sources n vs acc late = Some (out, None) \<Longrightarrow> \<forall>s \<in> set acc. 0 \<le> s \<and> s < n
     \<Longrightarrow> \<forall>s \<in> set out. 0 \<le> s \<and> s < n"
proof (induction vs arbitrary: acc late)
  case Nil
  then show ?case by simp
next
  case (Cons v vs)
  from Cons.prems(1) obtain s where s: "is_event_seq v = Some s"
    and run: "scan_sources n vs (s # acc) (if late = None \<and> n \<le> s then Some s else late) = Some (out, None)"
    by (cases "is_event_seq v") (simp_all only: scan_sources.simps option.case option.distinct)
  have "(if late = None \<and> n \<le> s then Some s else late) = None"
    using run by (rule scan_sources_keeps_late)
  then have "s < n" by (simp split: if_splits)
  with s Cons.prems(2) have "\<forall>x \<in> set (s # acc). 0 \<le> x \<and> x < n"
    by (simp add: is_event_seq_Some_iff)
  with run show ?case by (rule Cons.IH)
qed

lemma check_sources_InrD:
  assumes "check_sources e = Inr sources"
  shows "\<forall>s \<in> set sources. 0 \<le> s \<and> s < ev_seq e"
  using assms scan_sources_None_late [of "ev_seq e" _ "[]" None]
  by (auto simp: check_sources_def split: option.splits json.splits if_splits prod.splits)

lemma assert_provenance_Inr:
  assumes "assert_provenance e sh = Inr ()"
  obtains sources where "check_sources e = Inr sources" and "set sh \<subseteq> set sources"
  using assms
  by (auto simp: assert_provenance_def Let_def filter_empty_conv split: sum.splits if_splits)

lemma fold_step_cases [consumes 1, case_names log_only append replace]:
  assumes "fold_step evs i (st, rs) e = Inr (st', rs')"
  obtains
    "ev_seq e = int i" "\<not> is_surface_event e" "\<not> is_surface_eligible_type (event_type (ev_data e))"
      "st' = st" "rs' = rs"
  | "ev_seq e = int i" "is_append_surface_event e" "nodes st' = nodes st @ [int i]" "rs' = rs"
      "replace_generation st' = replace_generation st" "assert_provenance e [] = Inr ()"
  | a b k j sh where "ev_seq e = int i" "is_replacement_surface_event e"
      "replacement_range st a b = Inr (k, j, sh)" "assert_provenance e sh = Inr ()"
      "assert_tool_result_rewrite e sh evs 0 = Inr ()"
      "nodes st' = js_splice (nodes st) k (j - k + 1) [int i]"
      "replace_generation st' = replace_generation st + 1"
      "rs' = rs @ [\<lparr>re_seq = int i, re_start = a, re_end = b, re_shadowed = sh\<rparr>]"
      "surface_op_of e = Inr (Some (OpReplace a b))"
proof -
  from assms obtain p r where p: "plan_surface_event st e (int i) evs 0 = Inr p"
    and st': "apply_surface_plan st p = (st', r)"
    and rs': "rs' = (case r of None \<Rightarrow> rs | Some x \<Rightarrow> rs @ [x])"
    by (fastforce simp: fold_step_def apply_surface_event_def split: sum.splits option.splits prod.splits)
  from p show ?thesis
  proof (cases rule: plan_surface_event_cases)
    case log_only
    with st' rs' show ?thesis by (intro that(1)) auto
  next
    case append
    with st' rs' show ?thesis by (intro that(2)) auto
  next
    case (replace a b k j sh)
    with st' rs' show ?thesis by (intro that(3) [of a b k j sh]) auto
  qed
qed

lemma fold_replay_partition:
  assumes "replay fold_step (create_fold_state, []) evs = (None, n, s)"
  shows "mset (nodes (fst s)) + mset (shadowed_seqs (snd s)) = mset (surface_seqs evs)"
  using assms
proof (induction rule: fold_log.replay_induct)
  case Nil
  show ?case by (simp add: create_fold_state_def shadowed_seqs_def surface_seqs_def)
next
  case (snoc evs e s s')
  obtain st rs st' rs' where s: "s = (st, rs)" "s' = (st', rs')" by fastforce
  have "fold_step evs (length evs) s e = Inr s'" by fact
  from this [unfolded s] show ?case
  proof (cases rule: fold_step_cases)
    case log_only
    with snoc.IH s show ?thesis by (simp add: surface_seqs_def)
  next
    case append
    with snoc.IH s show ?thesis
      by (simp add: surface_seqs_def is_append_surface_event_def)
  next
    case (replace a b k j sh)
    note rg = replacement_range_InrD [OF replace(3)]
    have "mset (nodes st') + mset sh = add_mset (int (length evs)) (mset (nodes st))"
      using mset_js_splice [OF rg(1,2)] replace(6) rg(5) by simp
    then have "mset (nodes st') + mset (shadowed_seqs rs') =
        add_mset (int (length evs)) (mset (nodes st)) + mset (shadowed_seqs rs)"
      by (simp add: replace(8) shadowed_seqs_def ac_simps)
    with snoc.IH s replace(1,2) show ?thesis
      by (simp add: surface_seqs_def is_replacement_surface_event_def)
  qed
qed


lemma fold_replay_contiguous:
  assumes "replay fold_step (create_fold_state, []) evs = (None, n, s)"
  shows "contiguous evs"
  using assms
proof (induction rule: fold_log.replay_induct)
  case (snoc evs e s s')
  have "fold_step evs (length evs) s e = Inr s'" by fact
  then have "ev_seq e = int (length evs)"
    by (cases s; cases s') (auto elim: fold_step_cases)
  with snoc.IH show ?case by (simp add: contiguous_snoc)
qed simp

lemma contiguous_distinct_seqs: "contiguous evs \<Longrightarrow> distinct (map ev_seq evs)"
  by (auto simp: contiguous_def distinct_conv_nth)

lemma distinct_surface_seqs: "contiguous evs \<Longrightarrow> distinct (surface_seqs evs)"
  using contiguous_distinct_seqs distinct_map_filter by (auto simp: surface_seqs_def)

text \<open>
  Claim C2. The nodes of the folded surface together with all shadowed nodes are, as a
  multiset, exactly the surface events of the log, each once.
\<close>

theorem fold_surface_partition:
  assumes "fold_surface evs = Inr (ns, rs)"
  shows "mset ns + mset (shadowed_seqs rs) = mset (surface_seqs evs) \<and> distinct (ns @ shadowed_seqs rs)"
proof -
  from assms obtain st where run: "replay fold_step (create_fold_state, []) evs = (None, length evs, (st, rs))"
    and ns: "nodes st = ns"
    by (auto simp: fold_surface_Inr_iff)
  from fold_replay_partition [OF run] ns
  have eq: "mset (ns @ shadowed_seqs rs) = mset (surface_seqs evs)" by simp
  moreover have "distinct (surface_seqs evs)"
    using fold_replay_contiguous [OF run] by (rule distinct_surface_seqs)
  ultimately have "distinct (ns @ shadowed_seqs rs)"
    by (metis mset_eq_imp_distinct_iff)
  with eq show ?thesis by simp
qed

lemma fold_surface_partition_witness:
  "mset [1, 3] + mset (shadowed_seqs []) = mset (surface_seqs sample_log) \<and>
   distinct ([1, 3] @ shadowed_seqs [])"
  by (rule fold_surface_partition) code_simp

subsection \<open>Deep equality and rewrites\<close>

text \<open>What a tool-result rewrite may not change: everything but the block's content.\<close>

definition same_but_content :: "tool_result_data \<Rightarrow> tool_result_data \<Rightarrow> bool" where
  "same_but_content a b \<longleftrightarrow>
     tr_turn a = tr_turn b \<and> tr_step a = tr_step b \<and>
     trm_id (tr_message a) = trm_id (tr_message b) \<and>
     trm_call (tr_message a) = trm_call (tr_message b) \<and>
     trm_tool_call (tr_message a) = trm_tool_call (tr_message b) \<and>
     trm_is_error (tr_message a) = trm_is_error (tr_message b) \<and>
     tr_error a = tr_error b \<and>
     rel_option is_deep_equal_json (tr_meta a) (tr_meta b)"

lemma is_deep_equal_json_scalar [simp]:
  "is_deep_equal_json (JNum x) w \<longleftrightarrow> w = JNum x"
  "is_deep_equal_json (JStr s) w \<longleftrightarrow> w = JStr s"
  "is_deep_equal_json (JBool b) w \<longleftrightarrow> w = JBool b"
  "is_deep_equal_json JNull w \<longleftrightarrow> w = JNull"
  by (cases w; auto)+

lemma rest_equal_iff:
  "is_deep_equal_json (tool_result_rest a) (tool_result_rest b) \<longleftrightarrow> same_but_content a b"
proof -
  have "is_deep_equal_json (tool_result_rest a) (tool_result_rest b) \<Longrightarrow> same_but_content a b"
    unfolding tool_result_rest_def same_but_content_def
    by (cases "tr_error a"; cases "tr_error b"; cases "tr_meta a"; cases "tr_meta b";
        cases "trm_is_error (tr_message a)"; cases "trm_is_error (tr_message b)") auto
  moreover have "same_but_content a b \<Longrightarrow> is_deep_equal_json (tool_result_rest a) (tool_result_rest b)"
    unfolding tool_result_rest_def same_but_content_def
    by (cases "tr_error b"; cases "tr_meta a"; cases "tr_meta b"; cases "trm_is_error (tr_message b)") auto
  ultimately show ?thesis by blast
qed

lemma is_deep_equal_json_refl: "wf_json v \<Longrightarrow> is_deep_equal_json v v"
proof (induction v)
  case (JArr xs)
  then show ?case by (auto simp: list_all_iff set_zip)
next
  case (JObj kvs)
  then have "distinct (map fst kvs)" by simp
  then have "map_of kvs k = Some v" if "(k, v) \<in> set kvs" for k v
    using that by simp
  with JObj show ?case by (fastforce simp: list_all_iff)
qed auto

text \<open>Where a replacement of the fold stands in the log and what it did.\<close>

definition replacement_ok :: "session_event list \<Rightarrow> replacement \<Rightarrow> bool" where
  "replacement_ok evs r \<longleftrightarrow>
     (\<exists>i e sources. re_seq r = int i \<and> i < length evs \<and> e = evs ! i \<and>
        is_replacement_surface_event e \<and>
        re_shadowed r \<noteq> [] \<and> hd (re_shadowed r) = re_start r \<and> last (re_shadowed r) = re_end r \<and>
        check_sources e = Inr sources \<and> set (re_shadowed r) \<subseteq> set sources \<and>
        assert_tool_result_rewrite e (re_shadowed r) (take i evs) 0 = Inr ())"

lemma js_slice_hd_last:
  assumes "i \<le> j" and "j < length xs"
  shows "js_slice xs i (j + 1) \<noteq> []" and "hd (js_slice xs i (j + 1)) = xs ! i"
    and "last (js_slice xs i (j + 1)) = xs ! j"
  using assms by (simp_all add: js_slice_def hd_drop_conv_nth hd_conv_nth last_conv_nth)

lemma fold_replay_replacements:
  assumes "replay fold_step (create_fold_state, []) evs = (None, n, s)"
  shows "list_all (replacement_ok evs) (snd s)"
  using assms
proof (induction rule: fold_log.replay_induct)
  case Nil
  show ?case by simp
next
  case (snoc evs e s s')
  obtain st rs st' rs' where s: "s = (st, rs)" "s' = (st', rs')" by fastforce
  have mono: "replacement_ok evs r \<Longrightarrow> replacement_ok (evs @ [e]) r" for r
    by (fastforce simp: replacement_ok_def nth_append)
  have "fold_step evs (length evs) s e = Inr s'" by fact
  from this [unfolded s] show ?case
  proof (cases rule: fold_step_cases)
    case (replace a b k j sh)
    note rg = replacement_range_InrD [OF replace(3)]
    obtain sources where "check_sources e = Inr sources" "set sh \<subseteq> set sources"
      using replace(4) by (rule assert_provenance_Inr)
    with replace rg js_slice_hd_last [OF rg(1,2)]
    have "replacement_ok (evs @ [e])
       \<lparr>re_seq = int (length evs), re_start = a, re_end = b, re_shadowed = sh\<rparr>"
      by (auto simp: replacement_ok_def intro!: exI [of _ "length evs"])
    with snoc.IH s replace(8) mono show ?thesis by (auto simp: list_all_iff)
  qed (use snoc.IH s mono in \<open>auto simp: list_all_iff\<close>)
qed

lemma fold_surface_replacements:
  assumes "fold_surface evs = Inr (ns, rs)"
  shows "list_all (replacement_ok evs) rs"
  using assms fold_replay_replacements by (fastforce simp: fold_surface_Inr_iff)

text \<open>
  Claim C26. A replacement of a tool result shadows exactly one earlier tool result, equal
  to it in everything but the content of its block.
\<close>

theorem tool_result_rewrite_keeps_identity:
  assumes fold: "fold_surface evs = Inr (ns, rs)" and r: "r \<in> set rs"
    and d: "ev_data (evs ! nat (re_seq r)) = ToolResult d"
  shows "\<exists>m d0. re_shadowed r = [int m] \<and> int m < re_seq r \<and> ev_data (evs ! m) = ToolResult d0 \<and>
           same_but_content d0 d"
proof -
  from fold_surface_replacements [OF fold] r have "replacement_ok evs r"
    by (simp add: list_all_iff)
  then obtain i where i: "re_seq r = int i" "i < length evs"
    and chk: "assert_tool_result_rewrite (evs ! i) (re_shadowed r) (take i evs) 0 = Inr ()"
    by (auto simp: replacement_ok_def)
  from chk d i obtain n where n: "re_shadowed r = [n]"
    and rw: "rewrite_checks d (take i evs) 0 [n] = Inr ()"
    by (auto simp: assert_tool_result_rewrite_def length_Suc_conv split: if_splits)
  from rw obtain d0 where n0: "0 \<le> n" "n < int i" and "ev_data (evs ! nat n) = ToolResult d0"
    and "is_deep_equal_json (tool_result_rest d0) (tool_result_rest d)"
    using i by (auto simp: js_at_def split: option.splits event_data.splits if_splits)
  with n i show ?thesis
    by (intro exI [of _ "nat n"] exI [of _ d0]) (simp add: rest_equal_iff)
qed

definition sample_rewrite_log :: "session_event list" where
  "sample_rewrite_log =
     (let result = (\<lambda>t. ToolResult \<lparr>tr_turn = 1, tr_step = 1,
         tr_message = \<lparr>trm_id = ''m3'', trm_call = ''c1'', trm_tool_call = ''c1'',
           trm_content = [TextB t], trm_is_error = None\<rparr>, tr_error = None, tr_meta = None\<rparr>)
      in [on_surface 0 (result ''long''),
          (on_surface 1 (result ''pruned''))
            \<lparr>ev_surface_op := Some (JObj [(''op'', JStr ''replace''), (''start'', jint 0), (''end'', jint 0)]),
             ev_sources := Some (JArr [jint 0])\<rparr>])"

lemma tool_result_rewrite_keeps_identity_witness:
  "\<exists>m d0. re_shadowed \<lparr>re_seq = 1, re_start = 0, re_end = 0, re_shadowed = [0]\<rparr> = [int m] \<and>
     int m < re_seq \<lparr>re_seq = 1, re_start = 0, re_end = 0, re_shadowed = [0]\<rparr> \<and>
     ev_data (sample_rewrite_log ! m) = ToolResult d0 \<and>
     same_but_content d0 (case ev_data (sample_rewrite_log ! 1) of ToolResult d \<Rightarrow> d)"
  by (rule tool_result_rewrite_keeps_identity [of _ "[1]"
        "[\<lparr>re_seq = 1, re_start = 0, re_end = 0, re_shadowed = [0]\<rparr>]"])
    (code_simp, simp, simp add: sample_rewrite_log_def on_surface_def Let_def)

subsection \<open>The incremental manager\<close>

text \<open>
  \<open>SurfaceManager\<close> holds a reference to the session's log array; here the log is an
  argument of its operations. \<open>sm_pending\<close> is the candidate that \<open>validateNext\<close> planned
  and that may be admitted next; the source compares it by reference, the model by value.
\<close>

record surface_manager =
  sm_state :: surface_state
  sm_last :: int
  sm_pending :: "(session_event \<times> int \<times> surface_plan option) option"

definition new_surface_manager :: "int \<Rightarrow> surface_manager" where
  "new_surface_manager base =
     \<lparr>sm_state = create_fold_state, sm_last = base - 1, sm_pending = None\<rparr>"

definition admit ::
  "int \<Rightarrow> session_event list \<Rightarrow> surface_manager \<Rightarrow> session_event \<Rightarrow> int \<Rightarrow> surface_error + surface_state"
where
  "admit base evs sm e n =
     (case (case sm_pending sm of
              Some (pe, px, plan) \<Rightarrow> if pe = e \<and> px = n then Some plan else None
            | None \<Rightarrow> None) of
        Some plan \<Rightarrow> Inr (fst (apply_surface_plan (sm_state sm) plan))
      | None \<Rightarrow>
          (case apply_surface_event (sm_state sm) e n evs base of
             Inl x \<Rightarrow> Inl x
           | Inr (st, _) \<Rightarrow> Inr st))"

fun process_delta ::
  "int \<Rightarrow> session_event list \<Rightarrow> surface_manager \<Rightarrow> session_event list \<Rightarrow> surface_error option \<times> surface_manager"
where
  "process_delta base evs sm [] = (None, sm)"
| "process_delta base evs sm (e # es) =
     (let n = sm_last sm + 1 in
      case admit base evs sm e n of
        Inl x \<Rightarrow> (Some x, sm)
      | Inr st \<Rightarrow>
          process_delta base evs
            (sm\<lparr>sm_state := st,
                sm_pending := (case sm_pending sm of
                                 Some (pe, px, plan) \<Rightarrow> if px \<le> n then None else sm_pending sm
                               | None \<Rightarrow> None),
                sm_last := n\<rparr>) es)"

definition sync_surface ::
  "int \<Rightarrow> session_event list \<Rightarrow> surface_manager \<Rightarrow> surface_error option \<times> surface_manager"
where
  "sync_surface base evs sm =
     (if sm_last sm < base + int (length evs) - 1
      then process_delta base evs sm (drop (nat (sm_last sm + 1 - base)) evs)
      else (None, sm))"

definition validate_next ::
  "int \<Rightarrow> session_event list \<Rightarrow> session_event \<Rightarrow> surface_manager \<Rightarrow> surface_error option \<times> surface_manager"
where
  "validate_next base evs e sm =
     (case sync_surface base evs sm of
        (Some x, sm') \<Rightarrow> (Some x, sm')
      | (None, sm') \<Rightarrow>
          (let n = base + int (length evs) in
           case plan_surface_event (sm_state sm') e n evs base of
             Inl x \<Rightarrow> (Some x, sm')
           | Inr p \<Rightarrow> (None, sm'\<lparr>sm_pending := Some (e, n, p)\<rparr>)))"

definition manager_nodes ::
  "int \<Rightarrow> session_event list \<Rightarrow> surface_manager \<Rightarrow> (surface_error + int list) \<times> surface_manager"
where
  "manager_nodes base evs sm =
     (case sync_surface base evs sm of
        (Some x, sm') \<Rightarrow> (Inl x, sm')
      | (None, sm') \<Rightarrow> (Inr (nodes (sm_state sm')), sm'))"

definition manager_generation ::
  "int \<Rightarrow> session_event list \<Rightarrow> surface_manager \<Rightarrow> (surface_error + nat) \<times> surface_manager"
where
  "manager_generation base evs sm =
     (case sync_surface base evs sm of
        (Some x, sm') \<Rightarrow> (Inl x, sm')
      | (None, sm') \<Rightarrow> (Inr (replace_generation (sm_state sm')), sm'))"

text \<open>
  A manager agrees with a log when it holds the fold of some prefix of it, and its pending
  plan, if any, is the plan of the event that stands right after that prefix.
\<close>

definition pending_ok :: "int \<Rightarrow> session_event list \<Rightarrow> nat \<Rightarrow> surface_manager \<Rightarrow> bool" where
  "pending_ok base evs k sm \<longleftrightarrow>
     (case sm_pending sm of
        None \<Rightarrow> True
      | Some (e, n, p) \<Rightarrow>
          n = base + int k \<and> plan_surface_event (sm_state sm) e n (take k evs) base = Inr p)"

definition manager_at :: "int \<Rightarrow> session_event list \<Rightarrow> nat \<Rightarrow> surface_manager \<Rightarrow> bool" where
  "manager_at base evs k sm \<longleftrightarrow>
     k \<le> length evs \<and> sm_last sm = base + int k - 1 \<and>
     replay (surface_step base) create_fold_state (take k evs) = (None, k, sm_state sm) \<and>
     pending_ok base evs k sm"

lemma manager_at_inv: "manager_at base evs k sm \<Longrightarrow> surface_inv base k (sm_state sm)"
  using surface_log.replay_inv by (fastforce simp: manager_at_def)

lemma manager_at_append: "manager_at base evs k sm \<Longrightarrow> manager_at base (evs @ rest) k sm"
  by (auto simp: manager_at_def pending_ok_def split: option.splits)

lemma manager_at_new: "manager_at base evs 0 (new_surface_manager base)"
  by (simp add: manager_at_def pending_ok_def new_surface_manager_def)

text \<open>The pending plan never changes what is admitted: it is the plan the event has now.\<close>

lemma admit_eq_step:
  assumes "manager_at base evs k sm" and "k < length evs"
  shows "admit base evs sm e (base + int k) = surface_step base (take k evs) k (sm_state sm) e"
proof -
  let ?pre = "take k evs"
  have inv: "surface_inv base k (sm_state sm)" using assms(1) by (rule manager_at_inv)
  have loc: "apply_surface_event (sm_state sm) e n evs base = apply_surface_event (sm_state sm) e n ?pre base"
    for n
    using apply_surface_event_append [OF inv, of ?pre e n "drop k evs"] assms(2) by simp
  show ?thesis
  proof (cases "\<exists>plan. sm_pending sm = Some (e, base + int k, plan)")
    case True
    then obtain plan where p: "sm_pending sm = Some (e, base + int k, plan)" by blast
    with assms(1) have "plan_surface_event (sm_state sm) e (base + int k) ?pre base = Inr plan"
      by (simp add: manager_at_def pending_ok_def)
    with p show ?thesis
      by (simp add: admit_def surface_step_def apply_surface_event_def case_prod_unfold)
  next
    case False
    then show ?thesis
      by (auto simp: admit_def surface_step_def loc split: option.splits sum.splits)
  qed
qed

lemma manager_at_step:
  assumes "manager_at base evs k sm" and "k < length evs"
    and "admit base evs sm (evs ! k) (base + int k) = Inr st"
  shows "manager_at base evs (Suc k)
           (sm\<lparr>sm_state := st,
               sm_pending := (case sm_pending sm of
                                Some (pe, px, plan) \<Rightarrow>
                                  if px \<le> base + int k then None else sm_pending sm
                              | None \<Rightarrow> None),
               sm_last := base + int k\<rparr>)"
proof -
  have "replay (surface_step base) create_fold_state (take (Suc k) evs) = (None, Suc k, st)"
    using assms admit_eq_step [OF assms(1,2)]
    by (simp add: take_Suc_conv_app_nth surface_log.replay_snoc manager_at_def min_def)
  moreover have "(case sm_pending sm of
        Some (pe, px, plan) \<Rightarrow> if px \<le> base + int k then None else sm_pending sm
      | None \<Rightarrow> None) = None"
    using assms(1) by (auto simp: manager_at_def pending_ok_def split: option.splits)
  ultimately show ?thesis
    using assms(1,2) by (simp add: manager_at_def pending_ok_def)
qed

lemma process_delta_replay:
  assumes "manager_at base evs k sm" and "es = drop k evs"
    and "process_delta base evs sm es = (r, sm')"
  shows "\<exists>j. manager_at base evs j sm' \<and>
           replay (surface_step base) create_fold_state evs = (r, j, sm_state sm')"
  using assms
proof (induction es arbitrary: k sm)
  case Nil
  then have "k = length evs" and "sm' = sm" and "r = None"
    by (auto simp: manager_at_def)
  with Nil.prems(1) show ?case
    by (intro exI [of _ k]) (simp add: manager_at_def)
next
  case (Cons e es)
  have k: "k < length evs" using Cons.prems(2) by (metis drop_all list.distinct(1) not_less)
  have e: "evs ! k = e" and es: "es = drop (Suc k) evs"
    using Cons.prems(2) k by (metis Cons_nth_drop_Suc list.inject)+
  have n: "sm_last sm + 1 = base + int k" using Cons.prems(1) by (simp add: manager_at_def)
  show ?case
  proof (cases "admit base evs sm e (base + int k)")
    case (Inl x)
    have rp: "replay (surface_step base) create_fold_state (take k evs) = (None, k, sm_state sm)"
      using Cons.prems(1) by (simp add: manager_at_def)
    have "surface_step base (take k evs) k (sm_state sm) e = Inl x"
      using Inl admit_eq_step [OF Cons.prems(1) k] by simp
    then have step: "surface_step base evs k (sm_state sm) e = Inl x"
      using surface_log.step_local [OF manager_at_inv [OF Cons.prems(1)], of "take k evs" "drop k evs"] k
      by simp
    have "replay (surface_step base) create_fold_state evs =
        run_log (surface_step base) evs k (sm_state sm) (drop k evs)"
      using surface_log.catch_up [OF rp, of "drop k evs"] by simp
    also have "\<dots> = (Some x, k, sm_state sm)"
      using step Cons.prems(2) by (simp flip: Cons.prems(2))
    finally show ?thesis
      using Cons.prems(1,3) Inl n by (intro exI [of _ k]) (simp add: Let_def)
  next
    case (Inr st)
    with Cons.prems(3) n show ?thesis
      using Cons.IH [OF manager_at_step [OF Cons.prems(1) k] es] e by (simp add: Let_def)
  qed
qed

lemma sync_surface_replay:
  assumes "manager_at base evs k sm" and "sync_surface base evs sm = (r, sm')"
  obtains j where "manager_at base evs j sm'"
    and "replay (surface_step base) create_fold_state evs = (r, j, sm_state sm')"
proof (cases "sm_last sm < base + int (length evs) - 1")
  case True
  have "nat (sm_last sm + 1 - base) = k" using assms(1) by (simp add: manager_at_def)
  with True assms(2) have "process_delta base evs sm (drop k evs) = (r, sm')"
    by (simp add: sync_surface_def)
  from process_delta_replay [OF assms(1) refl this] that show ?thesis by blast
next
  case False
  with assms have "k = length evs" "sm' = sm" "r = None"
    by (auto simp: manager_at_def sync_surface_def)
  with assms(1) that [of k] show ?thesis by (simp add: manager_at_def)
qed

lemma validate_next_at:
  assumes "manager_at base evs k sm" and "validate_next base evs e sm = (r, sm')"
  obtains j where "manager_at base evs j sm'"
proof -
  obtain q sm1 where sync: "sync_surface base evs sm = (q, sm1)" by fastforce
  obtain j where at: "manager_at base evs j sm1"
    and run: "replay (surface_step base) create_fold_state evs = (q, j, sm_state sm1)"
    using sync_surface_replay [OF assms(1) sync] .
  show ?thesis
  proof (cases q)
    case (Some x)
    with assms(2) sync at that show ?thesis by (auto simp: validate_next_def)
  next
    case None
    with run have j: "j = length evs" using surface_log.replay_length by blast
    show ?thesis
    proof (cases "plan_surface_event (sm_state sm1) e (base + int (length evs)) evs base")
      case (Inl x)
      with None assms(2) sync at that show ?thesis by (auto simp: validate_next_def Let_def)
    next
      case (Inr p)
      with None assms(2) sync have "sm' = sm1\<lparr>sm_pending := Some (e, base + int (length evs), p)\<rparr>"
        by (simp add: validate_next_def Let_def)
      with at j Inr have "manager_at base evs j sm'"
        by (simp add: manager_at_def pending_ok_def)
      then show ?thesis by (rule that)
    qed
  qed
qed


text \<open>Every manager a session can hold: log growth, validations and reads in any order.\<close>

inductive manager_reach :: "int \<Rightarrow> session_event list \<Rightarrow> surface_manager \<Rightarrow> bool" for base where
  create: "manager_reach base evs (new_surface_manager base)"
| push: "manager_reach base evs sm \<Longrightarrow> manager_reach base (evs @ [e]) sm"
| validate: "manager_reach base evs sm \<Longrightarrow> validate_next base evs e sm = (r, sm') \<Longrightarrow>
    manager_reach base evs sm'"
| read_nodes: "manager_reach base evs sm \<Longrightarrow> manager_nodes base evs sm = (r, sm') \<Longrightarrow>
    manager_reach base evs sm'"
| read_generation: "manager_reach base evs sm \<Longrightarrow> manager_generation base evs sm = (r', sm') \<Longrightarrow>
    manager_reach base evs sm'"

lemma manager_reach_at: "manager_reach base evs sm \<Longrightarrow> \<exists>k. manager_at base evs k sm"
proof (induction rule: manager_reach.induct)
  case (create evs)
  show ?case using manager_at_new by blast
next
  case (push evs sm e)
  then show ?case using manager_at_append by blast
next
  case (validate evs sm e r sm')
  then show ?case by (blast elim: validate_next_at)
next
  case (read_nodes evs sm r sm')
  then have "\<exists>q. sync_surface base evs sm = (q, sm')"
    by (auto simp: manager_nodes_def split: prod.splits option.splits)
  with read_nodes.IH show ?case by (blast elim: sync_surface_replay)
next
  case (read_generation evs sm r' sm')
  then have "\<exists>q. sync_surface base evs sm = (q, sm')"
    by (auto simp: manager_generation_def split: prod.splits option.splits)
  with read_generation.IH show ?case by (blast elim: sync_surface_replay)
qed

lemma run_fold_surface_step:
  "run_log fold_step evs i s es = (r, j, t) \<Longrightarrow>
   run_log (surface_step 0) evs i (fst s) es = (r, j, fst t)"
proof (induction es arbitrary: i s)
  case (Cons e es)
  then show ?case
    by (cases "apply_surface_event (fst s) e (int i) evs 0")
      (auto simp: fold_step_def surface_step_def split: option.splits)
qed auto

lemma fold_surface_eq_replay:
  "(case fold_surface evs of Inl x \<Rightarrow> Inl x | Inr (ns, _) \<Rightarrow> Inr ns) =
   (case replay (surface_step 0) create_fold_state evs of
      (Some x, _, _) \<Rightarrow> Inl x
    | (None, _, st) \<Rightarrow> Inr (nodes st))"
proof -
  obtain r j st rs where run: "replay fold_step (create_fold_state, []) evs = (r, j, (st, rs))"
    using prod_cases4 by blast
  then have "replay (surface_step 0) create_fold_state evs = (r, j, st)"
    using run_fold_surface_step by (fastforce simp: replay_def)
  with run show ?thesis
    by (cases r) (simp_all add: fold_surface_def)
qed

text \<open>
  Claim C9. Whatever the order of log growth, validations and reads, the nodes the
  incremental SurfaceManager returns are those of the full fold, errors included.
\<close>

theorem surface_manager_refines_fold:
  assumes "manager_reach 0 evs sm"
  shows "fst (manager_nodes 0 evs sm) =
           (case fold_surface evs of Inl x \<Rightarrow> Inl x | Inr (ns, _) \<Rightarrow> Inr ns)"
proof -
  obtain k where k: "manager_at 0 evs k sm" using manager_reach_at [OF assms] by blast
  obtain r sm' where sync: "sync_surface 0 evs sm = (r, sm')" by fastforce
  obtain j where "replay (surface_step 0) create_fold_state evs = (r, j, sm_state sm')"
    using sync_surface_replay [OF k sync] by blast
  with sync show ?thesis
    by (simp add: fold_surface_eq_replay manager_nodes_def split: option.splits)
qed

lemma surface_manager_refines_fold_witness:
  "fst (manager_nodes 0 sample_log (new_surface_manager 0)) =
     (case fold_surface sample_log of Inl x \<Rightarrow> Inl x | Inr (ns, _) \<Rightarrow> Inr ns)"
  by (rule surface_manager_refines_fold) (rule manager_reach.create)

end
