(* ===== verification/Request_Header.thy ===== *)
theory Request_Header
  imports Session_Types
begin

section \<open>Request headers\<close>

text \<open>
  Model of \<^verbatim>\<open>packages/core/session/src/request-header.ts\<close> and of \<open>callConfigEquals\<close> in
  \<^verbatim>\<open>packages/llm/llm/src/call-config.ts\<close>. Tool schemas compare by their canonical JSON text;
  on JSON values as modelled here (objects in enumeration order, no negative zero) that is
  equality.
\<close>

definition call_config_equals :: "call_config \<Rightarrow> call_config \<Rightarrow> bool" where
  "call_config_equals a b \<longleftrightarrow>
     (if cc_provider a \<noteq> cc_provider b \<or> cc_model a \<noteq> cc_model b
         \<or> cc_reasoning_effort a \<noteq> cc_reasoning_effort b
         \<or> cc_temperature a \<noteq> cc_temperature b \<or> cc_max_tokens a \<noteq> cc_max_tokens b
      then False
      else
        (case (cc_stop a, cc_stop b) of
           (Some xs, Some ys) \<Rightarrow> length xs = length ys \<and> list_all (\<lambda>(x, y). x = y) (zip xs ys)
         | (x, y) \<Rightarrow> x = y))"

definition canonical_header :: "epoch_header \<Rightarrow> epoch_header" where
  "canonical_header h =
     \<lparr>eh_config = eh_config h,
      eh_adapter_defaults =
        (case eh_adapter_defaults h of
           None \<Rightarrow> None
         | Some d \<Rightarrow> if ad_reasoning_effort d \<or> ad_max_tokens d then Some d else None),
      eh_system = (case eh_system h of None \<Rightarrow> None | Some t \<Rightarrow> if t \<noteq> [] then Some t else None),
      eh_tools = (case eh_tools h of None \<Rightarrow> None | Some ts \<Rightarrow> if ts \<noteq> [] then Some ts else None)\<rparr>"

definition same_schema :: "json \<Rightarrow> json \<Rightarrow> bool" where
  "same_schema a b \<longleftrightarrow> a = b"

definition header_equals :: "epoch_header \<Rightarrow> epoch_header \<Rightarrow> bool" where
  "header_equals a b \<longleftrightarrow>
     (let marker = (\<lambda>f h. case eh_adapter_defaults h of None \<Rightarrow> False | Some d \<Rightarrow> f d) in
      if \<not> call_config_equals (eh_config a) (eh_config b)
         \<or> marker ad_reasoning_effort a \<noteq> marker ad_reasoning_effort b
         \<or> marker ad_max_tokens a \<noteq> marker ad_max_tokens b
         \<or> eh_system a \<noteq> eh_system b
      then False
      else
        (let ats = (case eh_tools a of None \<Rightarrow> [] | Some ts \<Rightarrow> ts);
            bts = (case eh_tools b of None \<Rightarrow> [] | Some ts \<Rightarrow> ts)
         in length ats = length bts \<and> list_all (\<lambda>(x, y). same_schema x y) (zip ats bts)))"

fun fold_header_from :: "epoch_header option \<Rightarrow> session_event list \<Rightarrow> epoch_header option" where
  "fold_header_from st [] = st"
| "fold_header_from st (e # es) =
     fold_header_from
       (case ev_data e of RequestHeader h _ \<Rightarrow> Some (canonical_header h) | _ \<Rightarrow> st) es"

definition fold_request_header :: "session_event list \<Rightarrow> epoch_header option" where
  "fold_request_header evs = fold_header_from None evs"

subsection \<open>Lemmas\<close>

lemma list_all_zip_eq:
  "length xs = length ys \<and> list_all (\<lambda>(x, y). x = y) (zip xs ys) \<longleftrightarrow> xs = ys"
proof
  assume "length xs = length ys \<and> list_all (\<lambda>(x, y). x = y) (zip xs ys)"
  then have "length xs = length ys" and "list_all (\<lambda>(x, y). x = y) (zip xs ys)" by auto
  then show "xs = ys" by (induction xs ys rule: list_induct2) auto
qed (induction xs arbitrary: ys; auto)

lemma call_config_equals_iff: "call_config_equals a b \<longleftrightarrow> a = b"
  by (cases "cc_stop a"; cases "cc_stop b")
    (auto simp: call_config_equals_def list_all_zip_eq intro: call_config.equality)

text \<open>What \<open>header_equals\<close> compares: the fields, with an absent marker record or tool list read
as empty.\<close>

lemma header_equals_fields:
  "header_equals a b \<longleftrightarrow>
     eh_config a = eh_config b \<and>
     map_option ad_reasoning_effort (eh_adapter_defaults a) \<in> {None, Some False}
       = (map_option ad_reasoning_effort (eh_adapter_defaults b) \<in> {None, Some False}) \<and>
     map_option ad_max_tokens (eh_adapter_defaults a) \<in> {None, Some False}
       = (map_option ad_max_tokens (eh_adapter_defaults b) \<in> {None, Some False}) \<and>
     eh_system a = eh_system b \<and>
     (case eh_tools a of None \<Rightarrow> [] | Some ts \<Rightarrow> ts) = (case eh_tools b of None \<Rightarrow> [] | Some ts \<Rightarrow> ts)"
  by (auto simp: header_equals_def Let_def call_config_equals_iff same_schema_def [abs_def]
      list_all_zip_eq split: option.splits)

lemma fold_header_from_append:
  "fold_header_from st (xs @ ys) = fold_header_from (fold_header_from st xs) ys"
  by (induction xs arbitrary: st) auto

lemma header_equals_iff:
  assumes "canonical_header a = a" and "canonical_header b = b"
  shows "header_equals a b \<longleftrightarrow> a = b"
proof
  assume eq: "header_equals a b"
  have tools: "eh_tools h \<noteq> Some []"
    and defaults: "eh_adapter_defaults h \<noteq> Some \<lparr>ad_reasoning_effort = False, ad_max_tokens = False\<rparr>"
    if "canonical_header h = h" for h
    using arg_cong [OF that, of eh_tools] arg_cong [OF that, of eh_adapter_defaults]
    by (auto simp: canonical_header_def)
  have "eh_tools a = eh_tools b"
    using eq tools [OF assms(1)] tools [OF assms(2)]
    by (auto simp: header_equals_fields split: option.splits)
  moreover have "eh_adapter_defaults a = eh_adapter_defaults b"
    using eq defaults [OF assms(1)] defaults [OF assms(2)]
    by (cases "eh_adapter_defaults a"; cases "eh_adapter_defaults b")
      (auto simp: header_equals_fields intro: adapter_defaults.equality)
  ultimately show "a = b"
    using eq by (auto simp: header_equals_fields intro: epoch_header.equality)
next
  assume "a = b"
  then show "header_equals a b"
    by (simp add: header_equals_fields)
qed

lemma canonical_header_idem: "canonical_header (canonical_header h) = canonical_header h"
  by (auto simp: canonical_header_def split: option.splits)

lemma fold_header_canonical:
  "fold_header_from st evs = Some h \<Longrightarrow> (\<And>g. st = Some g \<Longrightarrow> canonical_header g = g) \<Longrightarrow>
   canonical_header h = h"
proof (induction evs arbitrary: st)
  case (Cons e es)
  then show ?case
    by (cases "ev_data e") (auto simp: canonical_header_idem intro: Cons.IH [of "Some (canonical_header _)"])
qed auto

theorem header_change_is_exact:
  assumes "fold_request_header evs = Some g" and that: "ev_data e = RequestHeader h r"
  shows "header_equals g (canonical_header h) \<longleftrightarrow> fold_request_header (evs @ [e]) = Some g"
proof -
  have "canonical_header g = g"
    using assms fold_header_canonical [of None evs g] by (simp add: fold_request_header_def)
  then have "header_equals g (canonical_header h) \<longleftrightarrow> g = canonical_header h"
    by (intro header_equals_iff) (simp_all add: canonical_header_idem)
  with assms that show ?thesis
    by (auto simp: fold_request_header_def fold_header_from_append)
qed

definition sample_header :: epoch_header where
  "sample_header =
     \<lparr>eh_config = \<lparr>cc_provider = ''p'', cc_model = ''m'', cc_reasoning_effort = None,
        cc_temperature = None, cc_max_tokens = None, cc_stop = Some []\<rparr>,
      eh_adapter_defaults = None, eh_system = Some [], eh_tools = None\<rparr>"

lemma header_change_is_exact_witness:
  "header_equals (canonical_header sample_header) (canonical_header sample_header) \<longleftrightarrow>
   fold_request_header ([plain_event 0 0 (RequestHeader sample_header InitialHeader)]
     @ [plain_event 1 0 (RequestHeader sample_header ChangeHeader)]) = Some (canonical_header sample_header)"
  by (rule header_change_is_exact)
    (simp_all add: fold_request_header_def plain_event_def)

end
