(* ===== verification/Session_Log.thy ===== *)
theory Session_Log
  imports Session_Surface Request_Header
begin

section \<open>Sessions: the append-only log and its cached views\<close>

text \<open>
  Model of the class \<open>Session\<close> of \<^verbatim>\<open>packages/core/session/src/index.ts\<close>: construction from a
  seed, \<open>append\<close>, the cached header and context folds and the cached message derivation. A
  session is a record with the private fields of the class. What the class gets from its
  surroundings is an argument: the lossless JSON snapshot of a borrowed value (\<open>None\<close> when
  \<open>snapshotJsonValue\<close> refuses it), the clock, and whether the store's dispatch of the event
  throws. Errors are values; an operation that throws after it changed a field returns the
  changed session as well.
\<close>

subsection \<open>Creation metadata\<close>



definition session_format_version :: int where
  "session_format_version = 0"

datatype header_error =
    HeaderNotRecord | HeaderNotJson | BadVersion | IdMismatch | BadCreatedAt | CwdNotString
  | CwdNotAbsolute | BadParentSession | BadSeedLength | BadOrigin | BadDelegationDepth
  | BadAgentPreset

fun is_jstr :: "json \<Rightarrow> bool" where
  "is_jstr (JStr _) = True"
| "is_jstr _ = False"

definition absent_or :: "(json \<Rightarrow> bool) \<Rightarrow> json option \<Rightarrow> bool" where
  "absent_or p v = (case v of None \<Rightarrow> True | Some x \<Rightarrow> p x)"

definition is_count :: "json \<Rightarrow> bool" where
  "is_count v = (case json_safe_int v of None \<Rightarrow> False | Some i \<Rightarrow> 0 \<le> i)"

text \<open>\<open>isAbsolute\<close> of \<open>node:path\<close> on a POSIX host.\<close>

definition is_absolute :: "string \<Rightarrow> bool" where
  "is_absolute p = (case p of [] \<Rightarrow> False | c # _ \<Rightarrow> c = CHR ''/'')"

fun is_absolute_json :: "json \<Rightarrow> bool" where
  "is_absolute_json (JStr p) = is_absolute p"
| "is_absolute_json _ = False"

definition validate_session_header :: "session_id \<Rightarrow> json \<Rightarrow> header_error + json_fields" where
  "validate_session_header sid input =
     (case input of
        JObj r \<Rightarrow>
          if map_of r ''version'' \<noteq> Some (jint session_format_version) then Inl BadVersion
          else if map_of r ''id'' \<noteq> Some (JStr sid) then Inl IdMismatch
          else if map_of r ''createdAt'' = None \<or> \<not> absent_or is_count (map_of r ''createdAt'')
            then Inl BadCreatedAt
          else if \<not> absent_or is_jstr (map_of r ''cwd'') then Inl CwdNotString
          else if \<not> absent_or is_absolute_json (map_of r ''cwd'') then Inl CwdNotAbsolute
          else if \<not> absent_or is_jstr (map_of r ''parentSession'') then Inl BadParentSession
          else if \<not> absent_or is_count (map_of r ''seedLength'') then Inl BadSeedLength
          else if \<not> absent_or (\<lambda>v. v = JStr ''subagent'') (map_of r ''origin'') then Inl BadOrigin
          else if \<not> absent_or is_count (map_of r ''delegationDepth'') then Inl BadDelegationDepth
          else if \<not> absent_or is_jstr (map_of r ''agentPreset'') then Inl BadAgentPreset
          else Inr r
      | _ \<Rightarrow> Inl HeaderNotRecord)"

text \<open>
  The header source of a construction: none (a minimal header is synthesized), or the
  lossless JSON snapshot of the given object.
\<close>

definition snapshot_session_header ::
  "session_id \<Rightarrow> int \<Rightarrow> json option option \<Rightarrow> header_error + json_fields"
where
  "snapshot_session_header sid now src =
     (case src of
        None \<Rightarrow>
          validate_session_header sid
            (JObj [(''version'', jint session_format_version), (''id'', JStr sid), (''createdAt'', jint now)])
      | Some None \<Rightarrow> Inl HeaderNotJson
      | Some (Some v) \<Rightarrow> validate_session_header sid v)"

subsection \<open>The checks on a seed event\<close>

datatype seed_problem =
    NotJson | LegacyDelta | LegacyFallback | BadEnvelope | LacksProviderModel
  | BadReasoningEffort | BadAdapterDefaults | LacksMessage | BadSource | NotModelSource
  | NotToolSource | MismatchedCallIds | SeqMismatch int | BadSurface surface_error

definition has_provider_model :: "string \<Rightarrow> string \<Rightarrow> bool" where
  "has_provider_model p m \<longleftrightarrow> p \<noteq> [] \<and> m \<noteq> []"

definition assert_adapter_defaults :: "adapter_defaults option \<Rightarrow> call_config \<Rightarrow> seed_problem option" where
  "assert_adapter_defaults v c =
     (case v of
        None \<Rightarrow> None
      | Some d \<Rightarrow>
          if ad_reasoning_effort d \<and> cc_reasoning_effort c = None
             \<or> ad_max_tokens d \<and> cc_max_tokens c = None
          then Some BadAdapterDefaults
          else None)"

fun source_kind :: "message_source \<Rightarrow> string" where
  "source_kind UserSrc = ''user''"
| "source_kind (PluginSrc _) = ''plugin''"
| "source_kind (ModelSrc _ _ _) = ''model''"
| "source_kind (ToolSrc _) = ''tool''"
| "source_kind (GoalSrc _ _ _) = ''goal''"
| "source_kind (OtherSrc k _) = k"

text \<open>
  The message shapes. Roles, the source variant of an assistant or tool-result message and
  the single tool-result block are part of the record types; what the types leave open is
  checked here in the order of the source.
\<close>

definition assert_message_event_shape :: "event_data \<Rightarrow> seed_problem option" where
  "assert_message_event_shape d =
     (case d of
        UserMessage m \<Rightarrow>
          if um_id m = [] then Some LacksMessage
          else if source_kind (um_source m) = [] then Some BadSource
          else None
      | AssistantMessage _ _ m _ \<Rightarrow>
          if am_id m = [] then Some LacksMessage
          else if \<not> has_provider_model (am_provider m) (am_model m) then Some NotModelSource
          else None
      | ToolResult r \<Rightarrow>
          if trm_id (tr_message r) = [] then Some LacksMessage
          else if trm_call (tr_message r) = [] then Some NotToolSource
          else if trm_tool_call (tr_message r) \<noteq> trm_call (tr_message r) then Some MismatchedCallIds
          else None
      | _ \<Rightarrow> None)"

definition assert_current_llm_shape :: "event_data \<Rightarrow> seed_problem option" where
  "assert_current_llm_shape d =
     (case d of
        RequestHeader h _ \<Rightarrow>
          if \<not> has_provider_model (cc_provider (eh_config h)) (cc_model (eh_config h))
          then Some LacksProviderModel
          else if cc_reasoning_effort (eh_config h) = Some [] then Some BadReasoningEffort
          else assert_adapter_defaults (eh_adapter_defaults h) (eh_config h)
      | _ \<Rightarrow> assert_message_event_shape d)"

definition assert_session_event_envelope :: "session_event \<Rightarrow> seed_problem option" where
  "assert_session_event_envelope e =
     (if event_type (ev_data e) = ''request/header-delta'' then Some LegacyDelta
      else if \<not> safe_int (ev_seq e) \<or> ev_seq e < 0 \<or> \<not> safe_int (ev_time e) then Some BadEnvelope
      else assert_current_llm_shape (ev_data e))"

definition assert_supported_request_header :: "event_data \<Rightarrow> seed_problem option" where
  "assert_supported_request_header d =
     (if event_type d = ''request/header-delta'' then Some LegacyDelta
      else (case d of RequestHeader _ FallbackHeader \<Rightarrow> Some LegacyFallback | _ \<Rightarrow> None))"

subsection \<open>State\<close>

record session =
  ss_log :: "session_event list"
  ss_surface :: surface_manager
  ss_header :: json_fields
  ss_first_live :: nat
  ss_snapshot :: "session_event list option"
  ss_header_fold :: "epoch_header option"
  ss_header_seq :: nat
  ss_context_fold :: "request_context option"
  ss_context_seq :: nat
  ss_derived :: "message list"
  ss_derived_nodes :: nat
  ss_derived_generation :: nat

definition empty_session :: session where
  "empty_session =
     \<lparr>ss_log = [], ss_surface = new_surface_manager 0, ss_header = [], ss_first_live = 0,
      ss_snapshot = None, ss_header_fold = None, ss_header_seq = 0, ss_context_fold = None,
      ss_context_seq = 0, ss_derived = [], ss_derived_nodes = 0, ss_derived_generation = 0\<rparr>"

subsection \<open>Append\<close>

text \<open>
  \<open>ac_data\<close> is the snapshot of the payload together with its type, \<open>ac_meta\<close> the snapshot of
  \<open>{surfaceOp?, sourceEventSeqs?}\<close>. \<open>ac_appending\<close> is the \<open>appending\<close> flag of the store entry
  the session is attached to (\<open>None\<close>: detached), \<open>ac_dispatch_throws\<close> whether resolving the
  listeners of \<open>session/event\<close> throws.
\<close>

record append_call =
  ac_data :: "event_data option"
  ac_meta :: "(json option \<times> json option) option"
  ac_time :: int
  ac_appending :: "bool option"
  ac_dispatch_throws :: bool

text \<open>What an append meets: the clock, the store entry's flag, and whether a listener throws.\<close>

record append_env =
  ae_time :: int
  ae_appending :: "bool option"
  ae_throws :: bool

definition payload_call :: "append_env \<Rightarrow> event_data option \<Rightarrow> json option \<times> json option \<Rightarrow> append_call" where
  "payload_call ae d meta =
     \<lparr>ac_data = d, ac_meta = Some meta, ac_time = ae_time ae, ac_appending = ae_appending ae,
      ac_dispatch_throws = ae_throws ae\<rparr>"

definition env_call :: "append_env \<Rightarrow> event_data \<Rightarrow> json option \<times> json option \<Rightarrow> append_call" where
  "env_call ae d meta = payload_call ae (Some d) meta"

text \<open>An environment in which an event the surface accepts is appended.\<close>

definition lets_through :: "append_env \<Rightarrow> bool" where
  "lets_through ae \<longleftrightarrow> ae_appending ae \<noteq> Some True \<and> (ae_appending ae = None \<or> \<not> ae_throws ae)"

datatype append_error =
    DataNotJson
  | HeaderUnsupported seed_problem
  | MetadataNotJson
  | Reentrant
  | SurfaceRejected surface_error
  | DispatchThrew

definition next_event :: "session \<Rightarrow> int \<Rightarrow> event_data \<Rightarrow> json option \<Rightarrow> json option \<Rightarrow> session_event" where
  "next_event s now d op sources =
     \<lparr>ev_seq = int (length (ss_log s)), ev_time = now, ev_data = d, ev_surface_op = op,
      ev_sources = sources, ev_ignorable = False\<rparr>"

definition append_event :: "append_call \<Rightarrow> session \<Rightarrow> (append_error + session_event) \<times> session" where
  "append_event c s =
     (case ac_data c of
        None \<Rightarrow> (Inl DataNotJson, s)
      | Some d \<Rightarrow>
          (case assert_supported_request_header d of
             Some x \<Rightarrow> (Inl (HeaderUnsupported x), s)
           | None \<Rightarrow>
               (case ac_meta c of
                  None \<Rightarrow> (Inl MetadataNotJson, s)
                | Some (op, sources) \<Rightarrow>
                    if ac_appending c = Some True then (Inl Reentrant, s)
                    else
                      (let e = next_event s (ac_time c) d op sources in
                       case validate_next 0 (ss_log s) e (ss_surface s) of
                            (Some x, sm) \<Rightarrow> (Inl (SurfaceRejected x), s\<lparr>ss_surface := sm\<rparr>)
                          | (None, sm) \<Rightarrow>
                              if ac_appending c \<noteq> None \<and> ac_dispatch_throws c
                              then (Inl DispatchThrew, s\<lparr>ss_surface := sm\<rparr>)
                              else (Inr e, s\<lparr>ss_surface := sm, ss_log := ss_log s @ [e],
                                             ss_snapshot := None\<rparr>)))))"

subsection \<open>Construction\<close>

datatype create_error =
    SeedRejected nat seed_problem
  | HeaderRejected header_error
  | EndSeedRejected append_error

text \<open>One iteration of the constructor's loop over the seed.\<close>

definition seed_event :: "session \<Rightarrow> nat \<Rightarrow> session_event option \<Rightarrow> seed_problem + session" where
  "seed_event s i src =
     (case src of
        None \<Rightarrow> Inl NotJson
      | Some e \<Rightarrow>
          (case assert_session_event_envelope e of
             Some x \<Rightarrow> Inl x
           | None \<Rightarrow>
               (case assert_supported_request_header (ev_data e) of
                  Some x \<Rightarrow> Inl x
                | None \<Rightarrow>
                    if ev_seq e \<noteq> int i then Inl (SeqMismatch (ev_seq e))
                    else
                      (case validate_next 0 (ss_log s) e (ss_surface s) of
                         (Some x, sm) \<Rightarrow> Inl (BadSurface x)
                       | (None, sm) \<Rightarrow> Inr (s\<lparr>ss_surface := sm, ss_log := ss_log s @ [e]\<rparr>)))))"

fun seed_loop :: "session \<Rightarrow> nat \<Rightarrow> session_event option list \<Rightarrow> create_error + session" where
  "seed_loop s i [] = Inr s"
| "seed_loop s i (src # srcs) =
     (case seed_event s i src of
        Inl x \<Rightarrow> Inl (SeedRejected i x)
      | Inr s' \<Rightarrow> seed_loop s' (Suc i) srcs)"

definition end_seed_call :: "int \<Rightarrow> append_call" where
  "end_seed_call now =
     \<lparr>ac_data = Some EndSeed, ac_meta = Some (None, None), ac_time = now, ac_appending = None,
      ac_dispatch_throws = False\<rparr>"

definition last_is_end_seed :: "session_event list \<Rightarrow> bool" where
  "last_is_end_seed evs =
     (if evs = [] then False else event_type (ev_data (last evs)) = ''session/end-seed'')"

text \<open>The end of the constructor: the live boundary, the header, the marker.\<close>

definition finish_session :: "bool \<Rightarrow> json_fields \<Rightarrow> int \<Rightarrow> session \<Rightarrow> create_error + session" where
  "finish_session seeded h later s =
     (let s' = s\<lparr>ss_first_live := length (ss_log s), ss_header := h\<rparr> in
      if seeded \<and> \<not> last_is_end_seed (ss_log s') then
        (case append_event (end_seed_call later) s' of
           (Inl x, _) \<Rightarrow> Inl (EndSeedRejected x)
         | (Inr _, s'') \<Rightarrow> Inr s'')
      else Inr s')"

text \<open>
  The constructor. Seed events come as their snapshots. In restore mode the header is
  validated before the seed is read, otherwise after it; \<open>now\<close> and \<open>later\<close> are the clock at
  the synthesized header and at the marker.
\<close>

datatype create_mode = Snapshot | Restore

definition construct_session ::
  "create_mode \<Rightarrow> session_id \<Rightarrow> session_event option list option \<Rightarrow> json option option \<Rightarrow> int \<Rightarrow> int
    \<Rightarrow> create_error + session"
where
  "construct_session mode sid seed src now later =
     (let restored =
            (case mode of
               Restore \<Rightarrow>
                 Some (case src of
                         Some (Some v) \<Rightarrow> validate_session_header sid v
                       | _ \<Rightarrow> Inl HeaderNotRecord)
             | Snapshot \<Rightarrow> None)
      in case restored of
           Some (Inl x) \<Rightarrow> Inl (HeaderRejected x)
         | _ \<Rightarrow>
             (case seed_loop empty_session 0 (case seed of None \<Rightarrow> [] | Some es \<Rightarrow> es) of
                Inl x \<Rightarrow> Inl x
              | Inr s \<Rightarrow>
                  (case (case restored of Some r \<Rightarrow> r | None \<Rightarrow> snapshot_session_header sid now src) of
                     Inl x \<Rightarrow> Inl (HeaderRejected x)
                   | Inr h \<Rightarrow> finish_session (seed \<noteq> None) h later s)))"

subsection \<open>Cached views\<close>

definition events_of :: "session \<Rightarrow> session_event list \<times> session" where
  "events_of s =
     (case ss_snapshot s of
        Some es \<Rightarrow> (es, s)
      | None \<Rightarrow> (ss_log s, s\<lparr>ss_snapshot := Some (ss_log s)\<rparr>))"

definition request_header :: "session \<Rightarrow> epoch_header option \<times> session" where
  "request_header s =
     (if ss_header_seq s < length (ss_log s) then
        (let h = fold_header_from (ss_header_fold s) (drop (ss_header_seq s) (ss_log s)) in
         (h, s\<lparr>ss_header_fold := h, ss_header_seq := length (ss_log s)\<rparr>))
      else (ss_header_fold s, s))"

fun fold_context_from :: "request_context option \<Rightarrow> session_event list \<Rightarrow> request_context option" where
  "fold_context_from c [] = c"
| "fold_context_from c (e # es) =
     fold_context_from (case ev_data e of RequestContext r \<Rightarrow> Some r | _ \<Rightarrow> c) es"

definition request_context_of :: "session \<Rightarrow> request_context option \<times> session" where
  "request_context_of s =
     (if ss_context_seq s < length (ss_log s) then
        (let c = fold_context_from (ss_context_fold s) (drop (ss_context_seq s) (ss_log s)) in
         (c, s\<lparr>ss_context_fold := c, ss_context_seq := length (ss_log s)\<rparr>))
      else (ss_context_fold s, s))"

datatype derive_error = SurfaceThrew surface_error | NoSuchEvent int

text \<open>
  The loop of \<open>deriveMessages\<close> over the nodes not projected yet. A node outside the log would
  make the projection read a property of \<open>undefined\<close>.
\<close>

fun project_nodes :: "session_event list \<Rightarrow> message list \<Rightarrow> int list \<Rightarrow> derive_error option \<times> message list" where
  "project_nodes evs acc [] = (None, acc)"
| "project_nodes evs acc (n # ns) =
     (case js_at evs n of
        None \<Rightarrow> (Some (NoSuchEvent n), acc)
      | Some e \<Rightarrow>
          (case derive_event_message (ev_data e) of
             None \<Rightarrow> project_nodes evs acc ns
           | Some m \<Rightarrow> project_nodes evs (acc @ [m]) ns))"

definition derive_messages :: "session \<Rightarrow> (derive_error + message list) \<times> session" where
  "derive_messages s =
     (case manager_nodes 0 (ss_log s) (ss_surface s) of
        (Inl x, sm) \<Rightarrow> (Inl (SurfaceThrew x), s\<lparr>ss_surface := sm\<rparr>)
      | (Inr ns, sm) \<Rightarrow>
          (case manager_generation 0 (ss_log s) sm of
             (Inl x, sm') \<Rightarrow> (Inl (SurfaceThrew x), s\<lparr>ss_surface := sm'\<rparr>)
           | (Inr g, sm') \<Rightarrow>
               (let s1 = s\<lparr>ss_surface := sm'\<rparr>;
                    s2 = (if g \<noteq> ss_derived_generation s1
                          then s1\<lparr>ss_derived := [], ss_derived_nodes := 0, ss_derived_generation := g\<rparr>
                          else s1)
                in case project_nodes (ss_log s2) (ss_derived s2) (drop (ss_derived_nodes s2) ns) of
                     (Some x, ms) \<Rightarrow> (Inl x, s2\<lparr>ss_derived := ms\<rparr>)
                   | (None, ms) \<Rightarrow> (Inr ms, s2\<lparr>ss_derived := ms, ss_derived_nodes := length ns\<rparr>))))"

subsection \<open>Every session the class can build\<close>

inductive session_reach :: "session \<Rightarrow> bool" where
  made: "construct_session mode sid seed src now later = Inr s \<Longrightarrow> session_reach s"
| appended: "session_reach s \<Longrightarrow> append_event c s = (r, s') \<Longrightarrow> session_reach s'"
| read_events: "session_reach s \<Longrightarrow> events_of s = (evs, s') \<Longrightarrow> session_reach s'"
| read_header: "session_reach s \<Longrightarrow> request_header s = (h, s') \<Longrightarrow> session_reach s'"
| read_context: "session_reach s \<Longrightarrow> request_context_of s = (rc, s') \<Longrightarrow> session_reach s'"
| derived: "session_reach s \<Longrightarrow> derive_messages s = (ms, s') \<Longrightarrow> session_reach s'"

lemma surface_step_generation:
  assumes "surface_step base evs i st e = Inr st'"
  shows "replace_generation st' = replace_generation st \<and> (\<exists>ns. nodes st' = nodes st @ ns) \<or>
    replace_generation st < replace_generation st'"
proof -
  from assms obtain p where p: "plan_surface_event st e (base + int i) evs base = Inr p"
    and st': "st' = fst (apply_surface_plan st p)"
    by (fastforce simp: surface_step_def apply_surface_event_def split: sum.splits)
  from p show ?thesis
    by (cases rule: plan_surface_event_cases) (auto simp: st')
qed

lemma replay_generation:
  assumes "replay (surface_step base) create_fold_state evs = (None, n, st)"
    and "replay (surface_step base) create_fold_state (evs @ rest) = (None, m, st')"
  shows "replace_generation st' = replace_generation st \<and> (\<exists>ns. nodes st' = nodes st @ ns) \<or>
    replace_generation st < replace_generation st'"
  using assms(2)
proof (induction rest arbitrary: m st' rule: rev_induct)
  case Nil
  with assms(1) show ?case by simp
next
  case (snoc e rest)
  then obtain t where t: "replay (surface_step base) create_fold_state (evs @ rest) = (None, length (evs @ rest), t)"
    and step: "surface_step base (evs @ rest) (length (evs @ rest)) t e = Inr st'"
    using surface_log.replay_snoc_Some [of base "evs @ rest" e m st'] by (auto simp del: length_append)
  from snoc.IH [OF t] surface_step_generation [OF step] show ?case
    by (auto simp del: length_append)
qed

definition projection :: "session_event list \<Rightarrow> int list \<Rightarrow> message list" where
  "projection evs ns =
     List.map_filter
       (\<lambda>n. case js_at evs n of None \<Rightarrow> None | Some e \<Rightarrow> derive_event_message (ev_data e)) ns"

lemma projection_simps [simp]:
  "projection evs [] = []"
  "projection evs (ns @ ms) = projection evs ns @ projection evs ms"
  by (simp_all add: projection_def List.map_filter_def)

lemma project_nodes_eq:
  "\<forall>n \<in> set ns. 0 \<le> n \<and> n < int (length evs) \<Longrightarrow>
   project_nodes evs acc ns = (None, acc @ projection evs ns)"
  by (induction ns arbitrary: acc)
    (auto simp: projection_def List.map_filter_def js_at_def split: option.splits)

lemma projection_append:
  "\<forall>n \<in> set ns. n < int (length evs) \<Longrightarrow> projection (evs @ rest) ns = projection evs ns"
  by (induction ns) (auto simp: projection_def List.map_filter_def js_at_append)

definition log_ok :: "session \<Rightarrow> bool" where
  "log_ok s \<longleftrightarrow>
     (\<exists>k. manager_at 0 (ss_log s) k (ss_surface s)) \<and>
     (\<exists>st. replay (surface_step 0) create_fold_state (ss_log s) = (None, length (ss_log s), st))"

definition folds_ok :: "session \<Rightarrow> bool" where
  "folds_ok s \<longleftrightarrow>
     (ss_snapshot s = None \<or> ss_snapshot s = Some (ss_log s)) \<and>
     ss_header_seq s \<le> length (ss_log s) \<and>
     ss_header_fold s = fold_header_from None (take (ss_header_seq s) (ss_log s)) \<and>
     ss_context_seq s \<le> length (ss_log s) \<and>
     ss_context_fold s = fold_context_from None (take (ss_context_seq s) (ss_log s))"

definition derived_ok :: "session \<Rightarrow> bool" where
  "derived_ok s \<longleftrightarrow>
     (\<exists>m st. m \<le> length (ss_log s) \<and>
        replay (surface_step 0) create_fold_state (take m (ss_log s)) = (None, m, st) \<and>
        ss_derived_generation s = replace_generation st \<and>
        ss_derived_nodes s = length (nodes st) \<and>
        ss_derived s = projection (ss_log s) (nodes st))"

definition session_ok :: "session \<Rightarrow> bool" where
  "session_ok s \<longleftrightarrow> log_ok s \<and> folds_ok s \<and> derived_ok s"

lemma create_fold_state_sel [simp]:
  "nodes create_fold_state = []" "replace_generation create_fold_state = 0"
  by (simp_all add: create_fold_state_def)

lemma session_ok_empty: "session_ok empty_session"
  unfolding session_ok_def log_ok_def folds_ok_def derived_ok_def empty_session_def
  using manager_at_new [of 0 "[]"]
  by (auto intro!: exI [of _ create_fold_state])

lemma fold_context_from_append:
  "fold_context_from c (xs @ ys) = fold_context_from (fold_context_from c xs) ys"
  by (induction xs arbitrary: c) auto

text \<open>The event planned by \<open>validateNext\<close> is one the surface step accepts.\<close>

lemma validate_next_step:
  assumes "manager_at 0 evs k sm" and "validate_next 0 evs e sm = (None, sm')"
    and "replay (surface_step 0) create_fold_state evs = (None, length evs, st)"
  shows "\<exists>st'. replay (surface_step 0) create_fold_state (evs @ [e]) = (None, Suc (length evs), st')"
proof -
  obtain q sm1 where sync: "sync_surface 0 evs sm = (q, sm1)" by fastforce
  with assms(2) have q: "q = None" by (auto simp: validate_next_def split: option.splits)
  obtain j where run: "replay (surface_step 0) create_fold_state evs = (q, j, sm_state sm1)"
    using sync_surface_replay [OF assms(1) sync] .
  with assms(3) have st: "sm_state sm1 = st" by simp
  from assms(2) sync q obtain p where "plan_surface_event st e (int (length evs)) evs 0 = Inr p"
    by (auto simp: validate_next_def Let_def st split: sum.splits)
  then have "surface_step 0 evs (length evs) st e = Inr (fst (apply_surface_plan st p))"
    by (simp add: surface_step_def apply_surface_event_def split: prod.splits)
  with assms(3) show ?thesis
    by (auto simp: surface_log.replay_snoc)
qed


lemma derived_ok_cong:
  "ss_log s' = ss_log s @ rest \<Longrightarrow> ss_derived s' = ss_derived s \<Longrightarrow>
   ss_derived_nodes s' = ss_derived_nodes s \<Longrightarrow>
   ss_derived_generation s' = ss_derived_generation s \<Longrightarrow> derived_ok s \<Longrightarrow> derived_ok s'"
proof -
  assume a: "ss_log s' = ss_log s @ rest" "ss_derived s' = ss_derived s"
    "ss_derived_nodes s' = ss_derived_nodes s" "ss_derived_generation s' = ss_derived_generation s"
  assume "derived_ok s"
  then obtain m st where m: "m \<le> length (ss_log s)"
      and st: "replay (surface_step 0) create_fold_state (take m (ss_log s)) = (None, m, st)"
      and d: "ss_derived_generation s = replace_generation st" "ss_derived_nodes s = length (nodes st)"
        "ss_derived s = projection (ss_log s) (nodes st)"
    by (auto simp: derived_ok_def)
  have "\<forall>n \<in> set (nodes st). n < int (length (ss_log s))"
    using surface_log.replay_inv [OF st] m by (force simp: surface_inv_def)
  then have "ss_derived s' = projection (ss_log s') (nodes st)"
    using a d by (simp add: projection_append)
  with a d m st show "derived_ok s'" by (auto simp: derived_ok_def intro!: exI [of _ m])
qed

lemma folds_ok_push:
  assumes "folds_ok s" and "ss_log s' = ss_log s @ rest" and "ss_snapshot s' = None"
    and "ss_header_fold s' = ss_header_fold s" "ss_header_seq s' = ss_header_seq s"
    and "ss_context_fold s' = ss_context_fold s" "ss_context_seq s' = ss_context_seq s"
  shows "folds_ok s'"
  using assms by (auto simp: folds_ok_def)

lemma session_ok_push:
  assumes "session_ok s" and "validate_next 0 (ss_log s) e (ss_surface s) = (None, sm)"
  shows "session_ok (s\<lparr>ss_surface := sm, ss_log := ss_log s @ [e], ss_snapshot := None\<rparr>)" (is "session_ok ?s")
proof -
  obtain k where k: "manager_at 0 (ss_log s) k (ss_surface s)"
    using assms(1) by (auto simp: session_ok_def log_ok_def)
  obtain st where st: "replay (surface_step 0) create_fold_state (ss_log s) = (None, length (ss_log s), st)"
    using assms(1) by (auto simp: session_ok_def log_ok_def)
  obtain j where "manager_at 0 (ss_log s) j sm"
    using validate_next_at [OF k assms(2)] .
  then have "manager_at 0 (ss_log ?s) j (ss_surface ?s)" by (simp add: manager_at_append)
  moreover have "\<exists>st. replay (surface_step 0) create_fold_state (ss_log ?s) = (None, length (ss_log ?s), st)"
    using validate_next_step [OF k assms(2) st] by simp
  ultimately have "log_ok ?s" unfolding log_ok_def by blast
  moreover have "folds_ok ?s"
    using assms(1) by (intro folds_ok_push [of s ?s "[e]"]) (simp_all add: session_ok_def)
  moreover have "derived_ok ?s"
    using assms(1) by (intro derived_ok_cong [of ?s s "[e]"]) (simp_all add: session_ok_def)
  ultimately show ?thesis by (simp add: session_ok_def)
qed

lemma session_ok_manager:
  assumes "session_ok s" and "manager_at 0 (ss_log s) j sm"
  shows "session_ok (s\<lparr>ss_surface := sm\<rparr>)"
  using assms
  by (auto simp: session_ok_def log_ok_def folds_ok_def split: option.splits
      intro: derived_ok_cong [of _ s "[]"])

lemma append_event_cases [consumes 1, case_names stuck rejected logged]:
  assumes "append_event c s = (r, s')"
  obtains
    x where "r = Inl x" "s' = s"
  | x e q sm where "r = Inl x" "s' = s\<lparr>ss_surface := sm\<rparr>"
      "validate_next 0 (ss_log s) e (ss_surface s) = (q, sm)"
  | d op sources sm where "ac_data c = Some d" "assert_supported_request_header d = None"
      "ac_meta c = Some (op, sources)" "ac_appending c \<noteq> Some True"
      "validate_next 0 (ss_log s) (next_event s (ac_time c) d op sources) (ss_surface s) = (None, sm)"
      "r = Inr (next_event s (ac_time c) d op sources)"
      "s' = s\<lparr>ss_surface := sm, ss_log := ss_log s @ [next_event s (ac_time c) d op sources],
              ss_snapshot := None\<rparr>"
proof (cases "(\<exists>x. r = Inl x) \<and> s' = s")
  case True
  then show ?thesis using that(1) by blast
next
  case False
  with assms obtain d op sources where c: "ac_data c = Some d" "assert_supported_request_header d = None"
      "ac_meta c = Some (op, sources)" "ac_appending c \<noteq> Some True"
    unfolding append_event_def by (auto split: option.splits if_splits)
  obtain q sm where v: "validate_next 0 (ss_log s) (next_event s (ac_time c) d op sources) (ss_surface s) = (q, sm)"
    by fastforce
  show ?thesis
  proof (cases q)
    case (Some x)
    with assms c v have "r = Inl (SurfaceRejected x)" "s' = s\<lparr>ss_surface := sm\<rparr>"
      by (simp_all add: append_event_def)
    then show ?thesis using that(2) v by blast
  next
    case None
    show ?thesis
    proof (cases "ac_appending c \<noteq> None \<and> ac_dispatch_throws c")
      case True
      with assms c v None have "r = Inl DispatchThrew" "s' = s\<lparr>ss_surface := sm\<rparr>"
        by (simp_all add: append_event_def)
      then show ?thesis using that(2) v by blast
    next
      case False
      with assms c v None show ?thesis
        by (intro that(3)) (auto simp only: append_event_def option.case Let_def prod.case if_False
            refl simp_thms prod.inject)
    qed
  qed
qed

lemma append_event_ok:
  assumes "session_ok s" and "append_event c s = (r, s')"
  shows "session_ok s'"
  using assms(2)
proof (cases rule: append_event_cases)
  case stuck
  with assms(1) show ?thesis by simp
next
  case (rejected x e q sm)
  obtain k where "manager_at 0 (ss_log s) k (ss_surface s)"
    using assms(1) by (auto simp: session_ok_def log_ok_def)
  from validate_next_at [OF this rejected(3)] obtain j where "manager_at 0 (ss_log s) j sm" .
  with assms(1) rejected(2) show ?thesis by (auto intro: session_ok_manager)
next
  case (logged d op sources sm)
  with assms(1) show ?thesis by (auto intro: session_ok_push)
qed


lemma append_event_log:
  assumes "append_event c s = (r, s')"
  shows "(\<exists>x. r = Inl x) \<and> ss_log s' = ss_log s \<or> (\<exists>e. r = Inr e \<and> ss_log s' = ss_log s @ [e])"
  using assms by (cases rule: append_event_cases) auto

lemma seed_event_InrD:
  assumes "seed_event s i src = Inr s'"
  obtains e sm where "src = Some e" "assert_session_event_envelope e = None"
    "assert_supported_request_header (ev_data e) = None" "ev_seq e = int i"
    "validate_next 0 (ss_log s) e (ss_surface s) = (None, sm)"
    "s' = s\<lparr>ss_surface := sm, ss_log := ss_log s @ [e]\<rparr>"
  using assms unfolding seed_event_def
  by (auto split: option.splits prod.splits if_splits)

lemma seed_event_ok:
  assumes "session_ok s" and "ss_snapshot s = None" and "seed_event s i src = Inr s'"
  shows "session_ok s' \<and> ss_snapshot s' = None"
proof -
  from assms(3) obtain e sm where v: "validate_next 0 (ss_log s) e (ss_surface s) = (None, sm)"
    and s': "s' = s\<lparr>ss_surface := sm, ss_log := ss_log s @ [e]\<rparr>"
    by (rule seed_event_InrD)
  have "s' = s\<lparr>ss_surface := sm, ss_log := ss_log s @ [e], ss_snapshot := None\<rparr>"
    using assms(2) s' by (cases s) simp
  with session_ok_push [OF assms(1) v] show ?thesis by simp
qed

lemma seed_loop_ok:
  "seed_loop s i srcs = Inr s' \<Longrightarrow> session_ok s \<Longrightarrow> ss_snapshot s = None \<Longrightarrow>
   session_ok s' \<and> ss_snapshot s' = None \<and> map Some (ss_log s') = map Some (ss_log s) @ srcs"
proof (induction srcs arbitrary: s i)
  case (Cons src srcs)
  then obtain s1 where s1: "seed_event s i src = Inr s1" "seed_loop s1 (Suc i) srcs = Inr s'"
    by (auto split: sum.splits)
  from s1(1) obtain e sm where "src = Some e" "s1 = s\<lparr>ss_surface := sm, ss_log := ss_log s @ [e]\<rparr>"
    by (rule seed_event_InrD)
  with Cons.IH [OF s1(2)] seed_event_ok [OF Cons.prems(2,3) s1(1)] show ?case by simp
qed simp

lemma session_ok_construct_fields:
  "session_ok s \<Longrightarrow> session_ok (s\<lparr>ss_first_live := n, ss_header := h\<rparr>)"
  by (auto simp: session_ok_def log_ok_def folds_ok_def derived_ok_def)

lemma construct_session_InrD:
  assumes "construct_session mode sid seed src now later = Inr s"
  obtains s0 h where "seed_loop empty_session 0 (case seed of None \<Rightarrow> [] | Some es \<Rightarrow> es) = Inr s0"
    and "finish_session (seed \<noteq> None) h later s0 = Inr s"
proof -
  let ?srcs = "case seed of None \<Rightarrow> [] | Some es \<Rightarrow> es"
  from assms obtain s0 where s0: "seed_loop empty_session 0 ?srcs = Inr s0"
    by (cases "seed_loop empty_session 0 ?srcs")
      (auto simp: construct_session_def Let_def split: create_mode.splits sum.splits)
  with assms have "\<exists>h. finish_session (seed \<noteq> None) h later s0 = Inr s"
    by (auto simp: construct_session_def Let_def split: create_mode.splits sum.splits)
  with s0 that show ?thesis by blast
qed

text \<open>The marker is always accepted.\<close>

lemma append_end_seed:
  assumes "session_ok s"
  shows "\<exists>s'. append_event (end_seed_call t) s = (Inr (plain_event (int (length (ss_log s))) t EndSeed), s')
    \<and> ss_log s' = ss_log s @ [plain_event (int (length (ss_log s))) t EndSeed]"
proof -
  let ?e = "next_event s t EndSeed None None"
  obtain k where k: "manager_at 0 (ss_log s) k (ss_surface s)"
    using assms by (auto simp: session_ok_def log_ok_def)
  obtain st where st: "replay (surface_step 0) create_fold_state (ss_log s) = (None, length (ss_log s), st)"
    using assms by (auto simp: session_ok_def log_ok_def)
  obtain q sm1 where sync: "sync_surface 0 (ss_log s) (ss_surface s) = (q, sm1)" by fastforce
  obtain j where "replay (surface_step 0) create_fold_state (ss_log s) = (q, j, sm_state sm1)"
    using sync_surface_replay [OF k sync] .
  with st have q: "q = None" by simp
  have "plan_surface_event (sm_state sm1) ?e (int (length (ss_log s))) (ss_log s) 0 = Inr None"
    by (simp add: plan_surface_event_def next_event_def surface_op_of_def is_surface_eligible_type_def
        message_types_def)
  with q sync obtain sm2 where "validate_next 0 (ss_log s) ?e (ss_surface s) = (None, sm2)"
    by (simp add: validate_next_def Let_def)
  then show ?thesis
    by (simp add: append_event_def end_seed_call_def assert_supported_request_header_def
        next_event_def plain_event_def Let_def)
qed

lemma finish_session_cases [consumes 2, case_names marked plain]:
  assumes "session_ok s0" and "finish_session seeded h later s0 = Inr s"
  obtains "seeded" "\<not> last_is_end_seed (ss_log s0)" "session_ok s"
      "ss_log s = ss_log s0 @ [plain_event (int (length (ss_log s0))) later EndSeed]"
  | "\<not> seeded \<or> last_is_end_seed (ss_log s0)" "session_ok s" "ss_log s = ss_log s0"
proof -
  let ?s = "s0\<lparr>ss_first_live := length (ss_log s0), ss_header := h\<rparr>"
  have ok: "session_ok ?s" using assms(1) by (rule session_ok_construct_fields)
  show ?thesis
  proof (cases "seeded \<and> \<not> last_is_end_seed (ss_log s0)")
    case True
    obtain s' where s': "append_event (end_seed_call later) ?s
        = (Inr (plain_event (int (length (ss_log s0))) later EndSeed), s')"
      "ss_log s' = ss_log s0 @ [plain_event (int (length (ss_log s0))) later EndSeed]"
      using append_end_seed [OF ok, of later] by auto
    with True assms(2) have "s = s'" by (simp add: finish_session_def)
    with True s' append_event_ok [OF ok s'(1)] that(1) show ?thesis by simp
  next
    case False
    with assms(2) have "s = ?s" by (auto simp: finish_session_def Let_def)
    with ok False that(2) show ?thesis by simp
  qed
qed

lemma construct_session_ok:
  assumes "construct_session mode sid seed src now later = Inr s"
  shows "session_ok s"
proof -
  from assms obtain s0 h where s0: "seed_loop empty_session 0 (case seed of None \<Rightarrow> [] | Some es \<Rightarrow> es) = Inr s0"
    and fin: "finish_session (seed \<noteq> None) h later s0 = Inr s"
    by (rule construct_session_InrD)
  have "session_ok s0"
    using seed_loop_ok [OF s0 session_ok_empty] by (simp add: empty_session_def)
  from this fin show ?thesis by (cases rule: finish_session_cases)
qed


text \<open>The views.\<close>

lemma events_of_ok: "session_ok s \<Longrightarrow> events_of s = (evs, s') \<Longrightarrow> session_ok s' \<and> evs = ss_log s"
  by (auto simp: session_ok_def events_of_def log_ok_def folds_ok_def split: option.splits
      intro: derived_ok_cong [of _ s "[]"])

lemma fold_header_split:
  "fold_header_from (fold_header_from None (take n xs)) (drop n xs) = fold_header_from None xs"
  by (metis append_take_drop_id fold_header_from_append)

lemma fold_context_split:
  "fold_context_from (fold_context_from None (take n xs)) (drop n xs) = fold_context_from None xs"
  by (metis append_take_drop_id fold_context_from_append)

lemma request_header_ok:
  assumes "session_ok s" and "request_header s = (h, s')"
  shows "session_ok s' \<and> h = fold_request_header (ss_log s)"
  using assms
  by (auto simp: session_ok_def request_header_def log_ok_def folds_ok_def fold_request_header_def
      fold_header_split Let_def split: if_splits intro: derived_ok_cong [of _ s "[]"])

lemma request_context_ok:
  assumes "session_ok s" and "request_context_of s = (c, s')"
  shows "session_ok s' \<and> c = fold_context_from None (ss_log s)"
  using assms
  by (auto simp: session_ok_def request_context_of_def log_ok_def folds_ok_def
      fold_context_split Let_def split: if_splits intro: derived_ok_cong [of _ s "[]"])

lemma sync_surface_full:
  assumes "manager_at 0 evs k sm"
    and "replay (surface_step 0) create_fold_state evs = (None, length evs, st)"
  obtains sm' where "sync_surface 0 evs sm = (None, sm')" "manager_at 0 evs (length evs) sm'"
    "sm_state sm' = st"
proof -
  obtain q sm' where sync: "sync_surface 0 evs sm = (q, sm')" by fastforce
  obtain j where "manager_at 0 evs j sm'"
    "replay (surface_step 0) create_fold_state evs = (q, j, sm_state sm')"
    using sync_surface_replay [OF assms(1) sync] .
  with assms(2) sync that show ?thesis by simp
qed

lemma derive_messages_ok:
  assumes "session_ok s"
    and full: "replay (surface_step 0) create_fold_state (ss_log s) = (None, length (ss_log s), st)"
  shows "\<exists>s'. derive_messages s = (Inr (projection (ss_log s) (nodes st)), s') \<and>
    session_ok s' \<and> ss_log s' = ss_log s"
proof -
  let ?n = "length (ss_log s)" and ?g = "replace_generation st"
  obtain k where k: "manager_at 0 (ss_log s) k (ss_surface s)"
    using assms(1) by (auto simp: session_ok_def log_ok_def)
  obtain sm where sm: "sync_surface 0 (ss_log s) (ss_surface s) = (None, sm)"
      "manager_at 0 (ss_log s) ?n sm" "sm_state sm = st"
    using sync_surface_full [OF k full] .
  obtain sm' where sm': "sync_surface 0 (ss_log s) sm = (None, sm')"
      "manager_at 0 (ss_log s) ?n sm'" "sm_state sm' = st"
    using sync_surface_full [OF sm(2) full] .
  obtain m st0 where m: "m \<le> ?n"
      and st0: "replay (surface_step 0) create_fold_state (take m (ss_log s)) = (None, m, st0)"
      and d: "ss_derived_generation s = replace_generation st0" "ss_derived_nodes s = length (nodes st0)"
        "ss_derived s = projection (ss_log s) (nodes st0)"
    using assms(1) by (auto simp: session_ok_def derived_ok_def)
  have inlog: "\<forall>n \<in> set (nodes st). 0 \<le> n \<and> n < int ?n"
    using surface_log.replay_inv [OF full] by (auto simp: surface_inv_def)
  have rel: "?g = replace_generation st0 \<and> (\<exists>ns. nodes st = nodes st0 @ ns) \<or> replace_generation st0 < ?g"
    by (rule replay_generation [OF st0, of "drop m (ss_log s)"]) (simp add: full)
  define s1 where "s1 = s\<lparr>ss_surface := sm'\<rparr>"
  define s2 where "s2 = (if ?g \<noteq> ss_derived_generation s1
      then s1\<lparr>ss_derived := [], ss_derived_nodes := 0, ss_derived_generation := ?g\<rparr> else s1)"
  have s2: "ss_log s2 = ss_log s" "ss_surface s2 = sm'" "ss_derived_generation s2 = ?g"
    by (auto simp: s2_def s1_def)
  have "projection (ss_log s) (nodes st) =
      ss_derived s2 @ projection (ss_log s) (drop (ss_derived_nodes s2) (nodes st))"
  proof (cases "?g = replace_generation st0")
    case True
    with rel obtain ns where "nodes st = nodes st0 @ ns" by auto
    with True d show ?thesis by (simp add: s2_def s1_def)
  next
    case False
    with d show ?thesis by (simp add: s2_def s1_def)
  qed
  moreover have "\<forall>n \<in> set (drop (ss_derived_nodes s2) (nodes st)). 0 \<le> n \<and> n < int ?n"
    using inlog by (auto dest: in_set_dropD)
  ultimately have proj: "project_nodes (ss_log s2) (ss_derived s2) (drop (ss_derived_nodes s2) (nodes st))
      = (None, projection (ss_log s) (nodes st))"
    by (simp add: project_nodes_eq s2)
  let ?s' = "s2\<lparr>ss_derived := projection (ss_log s) (nodes st), ss_derived_nodes := length (nodes st)\<rparr>"
  have "derive_messages s = (Inr (projection (ss_log s) (nodes st)), ?s')"
    using sm sm' proj
    by (simp add: derive_messages_def manager_nodes_def manager_generation_def s2_def s1_def Let_def
        cong: if_cong)
  moreover have "session_ok ?s'"
  proof -
    have "log_ok ?s'" using sm'(2) full s2 by (auto simp: log_ok_def)
    moreover have "folds_ok ?s'"
      using assms(1) by (auto simp: session_ok_def folds_ok_def s2_def s1_def)
    moreover have "derived_ok ?s'"
      using full s2 by (auto simp: derived_ok_def intro!: exI [of _ "length (ss_log s)"])
    ultimately show ?thesis by (simp add: session_ok_def)
  qed
  moreover have "ss_log ?s' = ss_log s" using s2 by simp
  ultimately show ?thesis by blast
qed

lemma session_reach_ok: "session_reach s \<Longrightarrow> session_ok s"
proof (induction rule: session_reach.induct)
  case (derived s ms s')
  then obtain st where "replay (surface_step 0) create_fold_state (ss_log s) = (None, length (ss_log s), st)"
    by (auto simp: session_ok_def log_ok_def)
  from derive_messages_ok [OF derived.IH this] derived.hyps(2) show ?case by auto
qed (blast dest: construct_session_ok append_event_ok events_of_ok request_header_ok request_context_ok)+

subsection \<open>The session refines the fold\<close>

lemma surface_replay_fold:
  "replay (surface_step 0) create_fold_state evs = (None, n, st) \<Longrightarrow>
   \<exists>rs. fold_surface evs = Inr (nodes st, rs)"
  using fold_surface_eq_replay [of evs] by (auto split: sum.splits)

lemma fold_surface_replay:
  assumes "fold_surface evs = Inr (ns, rs)"
  obtains st where "replay (surface_step 0) create_fold_state evs = (None, length evs, st)" "nodes st = ns"
proof -
  obtain r n st where run: "replay (surface_step 0) create_fold_state evs = (r, n, st)"
    using prod_cases3 by blast
  with assms fold_surface_eq_replay [of evs] have "r = None" "nodes st = ns"
    by (auto split: option.splits)
  with run surface_log.replay_length that show ?thesis by blast
qed

lemma session_reach_fold:
  assumes "session_reach s"
  obtains st rs where
    "replay (surface_step 0) create_fold_state (ss_log s) = (None, length (ss_log s), st)"
    "fold_surface (ss_log s) = Inr (nodes st, rs)"
proof -
  obtain st where st: "replay (surface_step 0) create_fold_state (ss_log s) = (None, length (ss_log s), st)"
    using session_reach_ok [OF assms] by (auto simp: session_ok_def log_ok_def)
  with surface_replay_fold [OF st] that show ?thesis by blast
qed

lemma append_event_header:
  "append_event c s = (r, s') \<Longrightarrow> ss_header s' = ss_header s"
  by (auto simp: append_event_def Let_def split: option.splits prod.splits if_splits)

lemma fold_surface_contiguous: "fold_surface evs = Inr r \<Longrightarrow> contiguous evs"
  by (cases r) (auto simp: fold_surface_Inr_iff intro: fold_replay_contiguous)

lemma derived_messages:
  assumes "session_reach s"
  shows "\<exists>ns rs. fold_surface (ss_log s) = Inr (ns, rs) \<and>
       fst (derive_messages s) = Inr (projection (ss_log s) ns)"
proof -
  obtain st rs where st: "replay (surface_step 0) create_fold_state (ss_log s) = (None, length (ss_log s), st)"
    and fold: "fold_surface (ss_log s) = Inr (nodes st, rs)"
    using session_reach_fold [OF assms] .
  from derive_messages_ok [OF session_reach_ok [OF assms] st]
  have "fst (derive_messages s) = Inr (projection (ss_log s) (nodes st))" by auto
  with fold show ?thesis by blast
qed

text \<open>
  Claim C1. In every session that construction, appends and reads can reach, the log is
  contiguous and accepted by the full surface fold, and the incrementally cached
  deriveMessages returns exactly the projection of the nodes of that fold.
\<close>

theorem derived_messages_are_the_fold:
  assumes "session_reach s"
  shows "contiguous (ss_log s) \<and>
    (\<exists>ns rs. fold_surface (ss_log s) = Inr (ns, rs) \<and>
       fst (derive_messages s) = Inr (projection (ss_log s) ns))"
  using derived_messages [OF assms] fold_surface_contiguous by blast

definition sample_session :: session where
  "sample_session = projr (construct_session Snapshot ''s'' (Some (map Some sample_log)) None 0 0)"

lemma sample_session_reach: "session_reach sample_session"
proof -
  have "construct_session Snapshot ''s'' (Some (map Some sample_log)) None 0 0 = Inr sample_session"
    by code_simp
  then show ?thesis by (rule session_reach.made)
qed

lemma derived_messages_are_the_fold_witness:
  "contiguous (ss_log sample_session) \<and>
    (\<exists>ns rs. fold_surface (ss_log sample_session) = Inr (ns, rs) \<and>
       fst (derive_messages sample_session) = Inr (projection (ss_log sample_session) ns))"
  using sample_session_reach by (rule derived_messages_are_the_fold)

theorem cached_folds_are_the_folds:
  assumes "session_reach s"
  shows "fst (events_of s) = ss_log s \<and>
    fst (request_header s) = fold_request_header (ss_log s) \<and>
    fst (request_context_of s) = fold_context_from None (ss_log s)"
  using events_of_ok [OF session_reach_ok [OF assms]]
    request_header_ok [OF session_reach_ok [OF assms]]
    request_context_ok [OF session_reach_ok [OF assms]]
  by (metis prod.collapse)

lemma cached_folds_are_the_folds_witness:
  "fst (events_of sample_session) = ss_log sample_session \<and>
    fst (request_header sample_session) = fold_request_header (ss_log sample_session) \<and>
    fst (request_context_of sample_session) = fold_context_from None (ss_log sample_session)"
  using sample_session_reach by (rule cached_folds_are_the_folds)

text \<open>A live append decides exactly as a fold of the grown log does.\<close>

lemma fold_surface_snoc_error:
  assumes "replay (surface_step 0) create_fold_state evs = (None, length evs, st)"
    and "plan_surface_event st e (int (length evs)) evs 0 = Inl x"
  shows "fold_surface (evs @ [e]) = Inl x"
proof -
  from assms have "replay (surface_step 0) create_fold_state (evs @ [e]) = (Some x, length evs, st)"
    by (simp add: surface_log.replay_snoc surface_step_def apply_surface_event_def)
  with fold_surface_eq_replay [of "evs @ [e]"] show ?thesis by (auto split: sum.splits)
qed

text \<open>
  Claim C8. For data and metadata that are JSON, with a supported request header if the
  event is one, outside another append of the session and when the dispatch to listeners
  does not throw, append accepts an event exactly when a fold of the whole grown log accepts
  it, with the same error otherwise, and leaves the log unchanged on rejection.
\<close>

theorem append_decides_as_fold:
  assumes "session_reach s" and "ac_data c = Some d" and "ac_meta c = Some (op, sources)"
    and "assert_supported_request_header d = None"
    and "ac_appending c \<noteq> Some True" and "\<not> ac_dispatch_throws c"
  shows "case fold_surface (ss_log s @ [next_event s (ac_time c) d op sources]) of
      Inl x \<Rightarrow> fst (append_event c s) = Inl (SurfaceRejected x) \<and>
        ss_log (snd (append_event c s)) = ss_log s
    | Inr _ \<Rightarrow> fst (append_event c s) = Inr (next_event s (ac_time c) d op sources) \<and>
        ss_log (snd (append_event c s)) = ss_log s @ [next_event s (ac_time c) d op sources]"
proof -
  let ?e = "next_event s (ac_time c) d op sources"
  obtain st where st: "replay (surface_step 0) create_fold_state (ss_log s) = (None, length (ss_log s), st)"
    using session_reach_fold [OF assms(1)] by blast
  obtain k where "manager_at 0 (ss_log s) k (ss_surface s)"
    using session_reach_ok [OF assms(1)] by (auto simp: session_ok_def log_ok_def)
  from sync_surface_full [OF this st] obtain sm where
    sm: "sync_surface 0 (ss_log s) (ss_surface s) = (None, sm)" "sm_state sm = st" .
  show ?thesis
  proof (cases "plan_surface_event st ?e (int (length (ss_log s))) (ss_log s) 0")
    case (Inl x)
    with sm have "validate_next 0 (ss_log s) ?e (ss_surface s) = (Some x, sm)"
      by (simp add: validate_next_def Let_def)
    with assms(2-6) have "append_event c s = (Inl (SurfaceRejected x), s\<lparr>ss_surface := sm\<rparr>)"
      by (simp add: append_event_def Let_def)
    with fold_surface_snoc_error [OF st Inl] show ?thesis by simp
  next
    case (Inr p)
    with sm obtain sm2 where "validate_next 0 (ss_log s) ?e (ss_surface s) = (None, sm2)"
      by (simp add: validate_next_def Let_def)
    with assms(2-6) have "append_event c s =
        (Inr ?e, s\<lparr>ss_surface := sm2, ss_log := ss_log s @ [?e], ss_snapshot := None\<rparr>)"
      by (simp add: append_event_def Let_def)
    moreover have "\<exists>st'. replay (surface_step 0) create_fold_state (ss_log s @ [?e]) = (None, Suc (length (ss_log s)), st')"
      using st Inr by (simp add: surface_log.replay_snoc surface_step_def apply_surface_event_def split: prod.splits)
    ultimately show ?thesis
      using surface_replay_fold by (fastforce split: sum.splits)
  qed
qed

definition sample_call :: append_call where
  "sample_call = (end_seed_call 0)\<lparr>ac_data := Some (TurnEnd 1 Completed)\<rparr>"

lemma append_decides_as_fold_witness:
  "case fold_surface (ss_log sample_session
          @ [next_event sample_session (ac_time sample_call) (TurnEnd 1 Completed) None None]) of
     Inl x \<Rightarrow> fst (append_event sample_call sample_session) = Inl (SurfaceRejected x) \<and>
       ss_log (snd (append_event sample_call sample_session)) = ss_log sample_session
   | Inr _ \<Rightarrow> fst (append_event sample_call sample_session) =
         Inr (next_event sample_session (ac_time sample_call) (TurnEnd 1 Completed) None None) \<and>
       ss_log (snd (append_event sample_call sample_session)) = ss_log sample_session
         @ [next_event sample_session (ac_time sample_call) (TurnEnd 1 Completed) None None]"
  by (rule append_decides_as_fold [OF sample_session_reach])
    (simp_all add: sample_call_def end_seed_call_def assert_supported_request_header_def)

subsection \<open>Reopening a session\<close>

definition all_supported :: "session \<Rightarrow> bool" where
  "all_supported s \<longleftrightarrow> (\<forall>e \<in> set (ss_log s). assert_supported_request_header (ev_data e) = None)"

lemma all_supported_push:
  "all_supported s \<Longrightarrow> ss_log s' = ss_log s @ [e] \<Longrightarrow>
   assert_supported_request_header (ev_data e) = None \<Longrightarrow> all_supported s'"
  by (auto simp: all_supported_def)

lemma all_supported_same: "all_supported s \<Longrightarrow> ss_log s' = ss_log s \<Longrightarrow> all_supported s'"
  by (simp add: all_supported_def)

lemma seed_loop_supported:
  "seed_loop s i srcs = Inr s' \<Longrightarrow> all_supported s \<Longrightarrow> all_supported s'"
proof (induction srcs arbitrary: s i)
  case (Cons src srcs)
  from Cons.prems(1) obtain s1 where s1: "seed_event s i src = Inr s1" "seed_loop s1 (Suc i) srcs = Inr s'"
    by (cases "seed_event s i src") auto
  from s1(1) obtain e sm where "assert_supported_request_header (ev_data e) = None"
      "s1 = s\<lparr>ss_surface := sm, ss_log := ss_log s @ [e]\<rparr>"
    by (rule seed_event_InrD)
  with Cons.prems(2) have "all_supported s1" by (intro all_supported_push [of s s1 e]) auto
  with Cons.IH [OF s1(2)] show ?case .
qed simp

lemma end_seed_supported: "assert_supported_request_header EndSeed = None"
  by (simp add: assert_supported_request_header_def)

lemma session_reach_supported: "session_reach s \<Longrightarrow> all_supported s"
proof (induction rule: session_reach.induct)
  case (made mode sid seed src now later s)
  from made obtain s0 h where s0: "seed_loop empty_session 0 (case seed of None \<Rightarrow> [] | Some es \<Rightarrow> es) = Inr s0"
    and fin: "finish_session (seed \<noteq> None) h later s0 = Inr s"
    by (rule construct_session_InrD)
  have ok: "session_ok s0"
    using seed_loop_ok [OF s0 session_ok_empty] by (simp add: empty_session_def)
  have s0ok: "all_supported s0"
    using seed_loop_supported [OF s0] by (simp add: all_supported_def empty_session_def)
  from ok fin show ?case
  proof (cases rule: finish_session_cases)
    case marked
    with s0ok show ?thesis by (intro all_supported_push [of s0 s]) (auto simp: end_seed_supported)
  next
    case plain
    with s0ok show ?thesis by (auto intro: all_supported_same)
  qed
next
  case (appended s c r s')
  from appended.hyps(2) show ?case
  proof (cases rule: append_event_cases)
    case (logged d op sources sm)
    with appended.IH show ?thesis
      by (intro all_supported_push [of s s' "next_event s (ac_time c) d op sources"])
        (auto simp: next_event_def)
  qed (use appended.IH in \<open>auto intro: all_supported_same\<close>)
next
  case (derived s ms s')
  obtain st where "replay (surface_step 0) create_fold_state (ss_log s) = (None, length (ss_log s), st)"
    using session_reach_fold [OF derived.hyps(1)] by blast
  from derive_messages_ok [OF session_reach_ok [OF derived.hyps(1)] this] derived.hyps(2)
  have "ss_log s' = ss_log s" by simp
  with derived.IH show ?case by (rule all_supported_same)
next
  case (read_events s evs s')
  with session_reach_ok events_of_ok show ?case
    by (auto intro: all_supported_same simp: events_of_def split: option.splits)
next
  case (read_header s h s')
  then show ?case
    by (auto intro: all_supported_same simp: request_header_def Let_def split: if_splits)
next
  case (read_context s h s')
  then show ?case
    by (auto intro: all_supported_same simp: request_context_of_def Let_def split: if_splits)
qed

lemma seed_loop_accepts:
  assumes "session_ok s" and "ss_snapshot s = None"
    and "fold_surface (ss_log s @ es) = Inr r"
    and "\<forall>e \<in> set es. assert_session_event_envelope e = None \<and> assert_supported_request_header (ev_data e) = None"
  shows "\<exists>s'. seed_loop s (length (ss_log s)) (map Some es) = Inr s'"
  using assms
proof (induction es arbitrary: s)
  case (Cons e es)
  obtain st' where st': "replay (surface_step 0) create_fold_state (ss_log s @ e # es)
      = (None, length (ss_log s @ e # es), st')"
    using Cons.prems(3) by (cases r) (auto elim: fold_surface_replay)
  then obtain t where t: "replay (surface_step 0) create_fold_state (ss_log s @ [e]) = (None, Suc (length (ss_log s)), t)"
    using surface_log.replay_prefix [of 0 "ss_log s @ [e]" es] by auto
  then obtain st where st: "replay (surface_step 0) create_fold_state (ss_log s) = (None, length (ss_log s), st)"
    and step: "surface_step 0 (ss_log s) (length (ss_log s)) st e = Inr t"
    by (auto simp: surface_log.replay_snoc_Some)
  obtain k where "manager_at 0 (ss_log s) k (ss_surface s)"
    using Cons.prems(1) by (auto simp: session_ok_def log_ok_def)
  from sync_surface_full [OF this st] obtain sm where
    sm: "sync_surface 0 (ss_log s) (ss_surface s) = (None, sm)" "sm_state sm = st" .
  from step obtain p where p: "plan_surface_event st e (int (length (ss_log s))) (ss_log s) 0 = Inr p"
    by (auto simp: surface_step_def apply_surface_event_def split: sum.splits)
  with sm obtain sm2 where v: "validate_next 0 (ss_log s) e (ss_surface s) = (None, sm2)"
    by (simp add: validate_next_def Let_def)
  from p have "ev_seq e = int (length (ss_log s))" by (cases rule: plan_surface_event_cases)
  with v Cons.prems(4) have one: "seed_event s (length (ss_log s)) (Some e) =
      Inr (s\<lparr>ss_surface := sm2, ss_log := ss_log s @ [e]\<rparr>)" (is "_ = Inr ?s")
    by (simp add: seed_event_def)
  have "session_ok ?s \<and> ss_snapshot ?s = None"
    by (rule seed_event_ok [OF Cons.prems(1,2) one])
  with Cons.IH [of ?s] Cons.prems(3,4) one show ?case by simp
qed simp

text \<open>
  The log of any session, taken as the seed of a new one, is accepted when its events have
  the shapes the seed checks ask for; the reopened log is the old one with at most one
  marker more, and it derives the same messages.
\<close>

definition reopened_log :: "int \<Rightarrow> session_event list \<Rightarrow> session_event list" where
  "reopened_log t evs =
     (if last_is_end_seed evs then evs else evs @ [plain_event (int (length evs)) t EndSeed])"

lemma fold_surface_end_seed:
  assumes "fold_surface evs = Inr (ns, rs)"
  shows "\<exists>rs'. fold_surface (reopened_log t evs) = Inr (ns, rs')"
proof -
  obtain st where st: "replay (surface_step 0) create_fold_state evs = (None, length evs, st)" "nodes st = ns"
    using fold_surface_replay [OF assms] .
  then have "replay (surface_step 0) create_fold_state (evs @ [plain_event (int (length evs)) t EndSeed])
      = (None, Suc (length evs), st)"
    by (simp add: surface_log.replay_snoc surface_step_def apply_surface_event_def plan_surface_event_def
        surface_op_of_def is_surface_eligible_type_def message_types_def)
  from surface_replay_fold [OF this] st(2) assms show ?thesis by (auto simp: reopened_log_def)
qed

lemma projection_reopened:
  assumes "fold_surface evs = Inr (ns, rs)"
  shows "projection (reopened_log t evs) ns = projection evs ns"
proof -
  obtain st where st: "replay (surface_step 0) create_fold_state evs = (None, length evs, st)" "nodes st = ns"
    using fold_surface_replay [OF assms] .
  have "\<forall>n \<in> set ns. n < int (length evs)"
    using surface_log.replay_inv [OF st(1)] st(2) by (auto simp: surface_inv_def)
  then show ?thesis by (simp add: reopened_log_def projection_append)
qed

lemma reopened_log_idem: "reopened_log t' (reopened_log t evs) = reopened_log t evs"
  by (simp add: reopened_log_def last_is_end_seed_def)

lemma finish_session_total:
  assumes "session_ok s0"
  shows "\<exists>s. finish_session seeded h later s0 = Inr s"
proof (cases "seeded \<and> \<not> last_is_end_seed (ss_log s0)")
  case True
  let ?s = "s0\<lparr>ss_first_live := length (ss_log s0), ss_header := h\<rparr>"
  obtain e s' where "append_event (end_seed_call later) ?s = (Inr e, s')"
    using append_end_seed [OF session_ok_construct_fields [OF assms]] by blast
  with True show ?thesis by (simp add: finish_session_def)
next
  case False
  then show ?thesis by (auto simp: finish_session_def Let_def)
qed

lemma reopen_lemma:
  assumes "session_reach s" and "\<forall>e \<in> set (ss_log s). assert_session_event_envelope e = None"
    and "validate_session_header sid hdr = Inr h"
  shows "\<exists>s'. construct_session Restore sid (Some (map Some (ss_log s))) (Some (Some hdr)) now later = Inr s' \<and>
    ss_log s' = reopened_log later (ss_log s)"
proof -
  obtain ns rs where fold: "fold_surface (ss_log s) = Inr (ns, rs)"
    using derived_messages [OF assms(1)] by blast
  have empty: "ss_log empty_session = []" "ss_snapshot empty_session = None"
    by (simp_all add: empty_session_def)
  have shapes: "\<forall>e \<in> set (ss_log s). assert_session_event_envelope e = None \<and>
      assert_supported_request_header (ev_data e) = None"
    using assms(2) session_reach_supported [OF assms(1)] by (simp add: all_supported_def)
  have "fold_surface (ss_log empty_session @ ss_log s) = Inr (ns, rs)"
    using fold by (simp add: empty)
  from seed_loop_accepts [OF session_ok_empty empty(2) this shapes]
  obtain s0 where s0: "seed_loop empty_session 0 (map Some (ss_log s)) = Inr s0"
    by (auto simp: empty)
  from seed_loop_ok [OF this session_ok_empty empty(2)]
  have ok: "session_ok s0" and "map Some (ss_log s0) = map Some (ss_log s)"
    by (simp_all add: empty)
  from this(2) have log: "ss_log s0 = ss_log s" by (simp add: inj_map_eq_map)
  have "\<exists>s'. finish_session True h later s0 = Inr s'"
    by (rule finish_session_total [OF ok])
  then obtain s' where fin: "finish_session True h later s0 = Inr s'" ..
  from ok fin have "ss_log s' = reopened_log later (ss_log s)"
  proof (cases rule: finish_session_cases)
    case marked
    then show ?thesis by (simp add: reopened_log_def log)
  next
    case plain
    then show ?thesis by (simp add: reopened_log_def log)
  qed
  moreover have "construct_session Restore sid (Some (map Some (ss_log s))) (Some (Some hdr)) now later = Inr s'"
    unfolding construct_session_def using s0 fin assms(3) by simp
  ultimately show ?thesis by blast
qed


theorem reopening_adds_one_marker:
  assumes "session_reach s" and "\<forall>e \<in> set (ss_log s). assert_session_event_envelope e = None"
    and "validate_session_header sid hdr = Inr h"
  shows "\<exists>s'. construct_session Restore sid (Some (map Some (ss_log s))) (Some (Some hdr)) now later = Inr s' \<and>
    ss_log s' = reopened_log later (ss_log s) \<and>
    reopened_log later' (ss_log s') = ss_log s' \<and>
    fst (derive_messages s') = fst (derive_messages s)"
proof -
  obtain s' where s': "construct_session Restore sid (Some (map Some (ss_log s))) (Some (Some hdr)) now later = Inr s'"
      and log: "ss_log s' = reopened_log later (ss_log s)"
    using reopen_lemma [OF assms] by metis
  have "session_reach s'" using s' by (rule session_reach.made)
  from derived_messages [OF this] obtain ns' rs' where
    new: "fold_surface (ss_log s') = Inr (ns', rs')" "fst (derive_messages s') = Inr (projection (ss_log s') ns')"
    by blast
  from derived_messages [OF assms(1)] obtain ns rs where
    old: "fold_surface (ss_log s) = Inr (ns, rs)" "fst (derive_messages s) = Inr (projection (ss_log s) ns)"
    by blast
  from fold_surface_end_seed [OF old(1), of later] new(1) have "ns' = ns" by (simp add: log)
  with projection_reopened [OF old(1), of later] new(2) old(2)
  have "fst (derive_messages s') = fst (derive_messages s)" by (simp add: log)
  moreover have "reopened_log later' (ss_log s') = ss_log s'" by (simp add: log reopened_log_idem)
  ultimately show ?thesis using s' log by blast
qed

definition sample_header_json :: json where
  "sample_header_json = JObj [(''version'', jint 0), (''id'', JStr ''s''), (''createdAt'', jint 0)]"

lemma reopening_adds_one_marker_witness:
  "\<exists>s'. construct_session Restore ''s'' (Some (map Some (ss_log sample_session))) (Some (Some sample_header_json)) 0 0 = Inr s' \<and>
    ss_log s' = reopened_log 0 (ss_log sample_session) \<and>
    reopened_log 0 (ss_log s') = ss_log s' \<and>
    fst (derive_messages s') = fst (derive_messages sample_session)"
  by (rule reopening_adds_one_marker [OF sample_session_reach, of "''s''" sample_header_json
        "projr (validate_session_header ''s'' sample_header_json)"]) (code_simp, code_simp)


end
