(* ===== verification/Tool_Pairing.thy ===== *)
theory Tool_Pairing
  imports Session_Log
begin

section \<open>Tool pairing balance over the surface\<close>

text \<open>
  \<^verbatim>\<open>packages/compaction/compaction/src/tool-pairing.ts\<close>: which cuts of the surface no
  unanswered tool call crosses. The module keeps one cache per session and extends it when
  the surface grew within one generation of replacements; a query reads the cut before or
  after a surface sequence. The state of a query is the session with its cache.
\<close>

fun is_tool_call :: "content_block \<Rightarrow> bool" where
  "is_tool_call (ToolCallB _ _ _) = True"
| "is_tool_call _ = False"

definition event_delta :: "session_event \<Rightarrow> int" where
  "event_delta e =
     (case ev_data e of
        AssistantMessage _ _ m _ \<Rightarrow> int (length (filter is_tool_call (am_content m)))
      | ToolResult _ \<Rightarrow> - 1
      | _ \<Rightarrow> 0)"

datatype pairing_error =
    NoMatchingEvent int
  | ResultWithoutOpenCall int
  | SeqNotOnSurface int
  | PairingSurface surface_error

definition event_for_seq :: "session_event list \<Rightarrow> int \<Rightarrow> pairing_error + session_event" where
  "event_for_seq evs n =
     (case js_at evs n of
        None \<Rightarrow> Inl (NoMatchingEvent n)
      | Some e \<Rightarrow> if ev_seq e \<noteq> n then Inl (NoMatchingEvent n) else Inr e)"

record balance_cache =
  bc_generation :: nat
  bc_cuts :: "bool list"
  bc_index :: "int \<Rightarrow> nat option"
  bc_progress :: int

text \<open>The loop over the unseen tail: the cuts it adds and the count after it.\<close>

fun extend_cuts :: "session_event list \<Rightarrow> int \<Rightarrow> int list \<Rightarrow> pairing_error + (bool list \<times> int)" where
  "extend_cuts evs p [] = Inr ([], p)"
| "extend_cuts evs p (n # ns) =
     and_then (event_for_seq evs n)
       (\<lambda>e. if p + event_delta e < 0 then Inl (ResultWithoutOpenCall n)
             else and_then (extend_cuts evs (p + event_delta e) ns)
                    (\<lambda>r. Inr ((p + event_delta e = 0) # fst r, snd r)))"

fun index_tail :: "nat \<Rightarrow> int list \<Rightarrow> (int \<Rightarrow> nat option) \<Rightarrow> int \<Rightarrow> nat option" where
  "index_tail i [] m = m"
| "index_tail i (n # ns) m = index_tail (Suc i) ns (m(n \<mapsto> i))"

definition extend_cache :: "session_event list \<Rightarrow> balance_cache \<Rightarrow> int list \<Rightarrow> pairing_error + balance_cache" where
  "extend_cache evs c seqs =
     (let processed = length (bc_cuts c) - 1; tail = drop processed seqs in
      and_then (extend_cuts evs (bc_progress c) tail)
        (\<lambda>r. Inr (c\<lparr>bc_index := index_tail processed tail (bc_index c),
                       bc_cuts := bc_cuts c @ fst r, bc_progress := snd r\<rparr>)))"

definition empty_balance :: "nat \<Rightarrow> balance_cache" where
  "empty_balance g = \<lparr>bc_generation = g, bc_cuts = [True], bc_index = (\<lambda>_. None), bc_progress = 0\<rparr>"

type_synonym paired_session = "session \<times> balance_cache option"

definition balance_cache_for :: "paired_session \<Rightarrow> (pairing_error + balance_cache) \<times> paired_session" where
  "balance_cache_for ps =
     (case ps of (s, cached) \<Rightarrow>
        (case manager_nodes 0 (ss_log s) (ss_surface s) of
           (Inl x, sm) \<Rightarrow> (Inl (PairingSurface x), (s\<lparr>ss_surface := sm\<rparr>, cached))
         | (Inr seqs, sm) \<Rightarrow>
             (case manager_generation 0 (ss_log s) sm of
                (Inl x, sm') \<Rightarrow> (Inl (PairingSurface x), (s\<lparr>ss_surface := sm'\<rparr>, cached))
              | (Inr g, sm') \<Rightarrow>
                  (let s' = s\<lparr>ss_surface := sm'\<rparr>;
                       usable = (case cached of None \<Rightarrow> False
                                 | Some c \<Rightarrow> bc_generation c = g \<and> length (bc_cuts c) - 1 \<le> length seqs);
                       start = (if usable then the cached else empty_balance g)
                   in if usable \<and> \<not> length (bc_cuts start) - 1 < length seqs
                      then (Inr start, (s', cached))
                      else
                        (case events_of s' of
                           (evs, s'') \<Rightarrow>
                             (case extend_cache evs start seqs of
                                Inl x \<Rightarrow> (Inl x, (s'', cached))
                              | Inr c \<Rightarrow> (Inr c, (s'', Some c))))))))"

definition cut_balance :: "balance_cache \<Rightarrow> int \<Rightarrow> nat \<Rightarrow> pairing_error + bool" where
  "cut_balance c n offset =
     (case bc_index c n of
        None \<Rightarrow> Inl (SeqNotOnSurface n)
      | Some i \<Rightarrow>
          if i + offset < length (bc_cuts c) then Inr (bc_cuts c ! (i + offset))
          else Inl (SeqNotOnSurface n))"

definition balanced_at :: "nat \<Rightarrow> int \<Rightarrow> paired_session \<Rightarrow> (pairing_error + bool) \<times> paired_session" where
  "balanced_at offset n ps =
     (case balance_cache_for ps of
        (Inl x, ps') \<Rightarrow> (Inl x, ps')
      | (Inr c, ps') \<Rightarrow> (cut_balance c n offset, ps'))"

definition tool_pairing_balanced_before :: "int \<Rightarrow> paired_session \<Rightarrow> (pairing_error + bool) \<times> paired_session" where
  "tool_pairing_balanced_before n = balanced_at 0 n"

definition tool_pairing_balanced_after :: "int \<Rightarrow> paired_session \<Rightarrow> (pairing_error + bool) \<times> paired_session" where
  "tool_pairing_balanced_after n = balanced_at 1 n"

subsection \<open>The reference: open calls after each surface prefix\<close>

definition open_calls :: "session_event list \<Rightarrow> int list \<Rightarrow> nat \<Rightarrow> int" where
  "open_calls evs ns k = sum_list (map (\<lambda>n. event_delta (evs ! nat n)) (take k ns))"

definition first_orphan :: "session_event list \<Rightarrow> int list \<Rightarrow> int option" where
  "first_orphan evs ns =
     map_option ((!) ns) (List.find (\<lambda>k. open_calls evs ns (Suc k) < 0) [0..<length ns])"

definition balanced_cut :: "session_event list \<Rightarrow> int list \<Rightarrow> int \<Rightarrow> nat \<Rightarrow> pairing_error + bool" where
  "balanced_cut evs ns n offset =
     (case first_orphan evs ns of
        Some m \<Rightarrow> Inl (ResultWithoutOpenCall m)
      | None \<Rightarrow>
          (case index_of n ns of
             None \<Rightarrow> Inl (SeqNotOnSurface n)
           | Some i \<Rightarrow> Inr (open_calls evs ns (i + offset) = 0)))"

lemma open_calls_0 [simp]: "open_calls evs ns 0 = 0"
  by (simp add: open_calls_def)

lemma open_calls_Cons [simp]:
  "open_calls evs (n # ns) (Suc k) = event_delta (evs ! nat n) + open_calls evs ns k"
  by (simp add: open_calls_def)

lemma open_calls_append:
  "open_calls evs (xs @ ys) k = (if k \<le> length xs then open_calls evs xs k
     else open_calls evs xs (length xs) + open_calls evs ys (k - length xs))"
  by (simp add: open_calls_def)

lemma upt_Suc_map: "[0..<Suc n] = 0 # map Suc [0..<n]"
  by (simp add: map_Suc_upt upt_conv_Cons del: upt_Suc)

lemma find_map: "List.find p (map f xs) = map_option f (List.find (p \<circ> f) xs)"
  by (induction xs) auto

definition on_log :: "session_event list \<Rightarrow> int list \<Rightarrow> bool" where
  "on_log evs ns \<longleftrightarrow> contiguous evs \<and> (\<forall>n \<in> set ns. 0 \<le> n \<and> n < int (length evs))"

lemma event_for_seq_on_log: "on_log evs (n # ns) \<Longrightarrow> event_for_seq evs n = Inr (evs ! nat n)"
  by (auto simp: on_log_def event_for_seq_def js_at_def contiguous_def)

lemma extend_cuts_reference:
  "on_log evs ns \<Longrightarrow>
   extend_cuts evs p ns =
     (case List.find (\<lambda>k. p + open_calls evs ns (Suc k) < 0) [0..<length ns] of
        Some k \<Rightarrow> Inl (ResultWithoutOpenCall (ns ! k))
      | None \<Rightarrow> Inr (map (\<lambda>k. p + open_calls evs ns (Suc k) = 0) [0..<length ns],
                     p + open_calls evs ns (length ns)))"
proof (induction ns arbitrary: p)
  case (Cons n ns)
  have tl: "on_log evs ns" using Cons.prems by (simp add: on_log_def)
  let ?d = "event_delta (evs ! nat n)"
  have "[0..<length (n # ns)] = 0 # map Suc [0..<length ns]" using upt_Suc_map [of "length ns"] by simp
  then show ?case
    using Cons.IH [OF tl, of "p + ?d"] event_for_seq_on_log [OF Cons.prems]
    by (auto simp: find_map comp_def add.assoc simp del: upt_Suc split: option.splits)
qed simp

lemma index_of_append:
  "index_of x (xs @ ys) =
     (case index_of x xs of Some i \<Rightarrow> Some i | None \<Rightarrow> map_option ((+) (length xs)) (index_of x ys))"
proof (induction xs)
  case Nil
  then show ?case by (cases "index_of x ys") auto
next
  case (Cons a xs)
  then show ?case by (cases "index_of x ys") (auto split: option.splits)
qed

lemma index_tail_index_of:
  "distinct (pre @ ns) \<Longrightarrow>
   index_tail (length pre) ns (\<lambda>x. index_of x pre) = (\<lambda>x. index_of x (pre @ ns))"
proof (induction ns arbitrary: pre)
  case (Cons n ns)
  have "((\<lambda>x. index_of x pre)(n \<mapsto> length pre)) = (\<lambda>x. index_of x (pre @ [n]))"
  proof
    fix x
    have "index_of n pre = None" using Cons.prems by (simp add: index_of_None_iff)
    then show "((\<lambda>x. index_of x pre)(n \<mapsto> length pre)) x = index_of x (pre @ [n])"
      by (auto simp: index_of_append split: option.splits)
  qed
  then show ?case using Cons.IH [of "pre @ [n]"] Cons.prems by simp
qed simp

text \<open>A complete cache holds the balance of every cut of the surface \<open>ns\<close>.\<close>

definition balance_of :: "session_event list \<Rightarrow> nat \<Rightarrow> int list \<Rightarrow> balance_cache" where
  "balance_of evs g ns =
     \<lparr>bc_generation = g, bc_cuts = map (\<lambda>k. open_calls evs ns k = 0) [0..<Suc (length ns)],
      bc_index = (\<lambda>x. index_of x ns), bc_progress = open_calls evs ns (length ns)\<rparr>"

lemma empty_balance_of: "empty_balance g = balance_of evs g []"
  by (simp add: empty_balance_def balance_of_def)

lemma first_orphan_append:
  assumes "first_orphan evs xs = None"
  shows "first_orphan evs (xs @ ys) =
    map_option ((!) ys) (List.find (\<lambda>k. open_calls evs xs (length xs) + open_calls evs ys (Suc k) < 0) [0..<length ys])"
proof -
  have "\<forall>k < length xs. \<not> open_calls evs (xs @ ys) (Suc k) < 0"
    using assms by (auto simp: first_orphan_def find_None_iff open_calls_append)
  then have none: "List.find (\<lambda>k. open_calls evs (xs @ ys) (Suc k) < 0) [0..<length xs] = None"
    by (auto simp: find_None_iff)
  have split: "[0..<length (xs @ ys)] = [0..<length xs] @ map (\<lambda>k. k + length xs) [0..<length ys]"
    using upt_add_eq_append [of 0 "length xs" "length ys"] map_add_upt [of "length xs" "length ys"]
    by (simp add: add.commute)
  have app: "List.find p (as @ bs) = (case List.find p as of None \<Rightarrow> List.find p bs | Some x \<Rightarrow> Some x)"
    for p :: "nat \<Rightarrow> bool" and as bs by (induction as) auto
  show ?thesis
    unfolding first_orphan_def split app none
    by (auto simp: find_map comp_def open_calls_append option.map_comp nth_append split: option.splits)
qed

lemma extend_cache_balance:
  assumes "on_log evs (xs @ ys)" and "distinct (xs @ ys)" and "first_orphan evs xs = None"
  shows "extend_cache evs (balance_of evs g xs) (xs @ ys) =
     (case first_orphan evs (xs @ ys) of
        Some m \<Rightarrow> Inl (ResultWithoutOpenCall m)
      | None \<Rightarrow> Inr (balance_of evs g (xs @ ys)))"
proof -
  have ys: "on_log evs ys" using assms(1) by (simp add: on_log_def)
  have cuts: "[0..<Suc (length (xs @ ys))] = [0..<Suc (length xs)] @ map (\<lambda>k. Suc (length xs + k)) [0..<length ys]"
  proof -
    have "[0..<Suc (length (xs @ ys))] = [0..<Suc (length xs)] @ [Suc (length xs)..<Suc (length xs) + length ys]"
      using upt_add_eq_append [of 0 "Suc (length xs)" "length ys"] by (simp del: upt_Suc)
    also have "[Suc (length xs)..<Suc (length xs) + length ys] = map (\<lambda>k. Suc (length xs + k)) [0..<length ys]"
      using map_add_upt [of "Suc (length xs)" "length ys"] by (simp add: ac_simps del: upt_Suc)
    finally show ?thesis .
  qed
  have "map (\<lambda>k. open_calls evs (xs @ ys) k = 0) [0..<Suc (length (xs @ ys))] =
      map (\<lambda>k. open_calls evs xs k = 0) [0..<Suc (length xs)]
      @ map (\<lambda>k. open_calls evs xs (length xs) + open_calls evs ys (Suc k) = 0) [0..<length ys]"
    unfolding cuts by (simp add: open_calls_append del: upt_Suc)
  then show ?thesis
    using extend_cuts_reference [OF ys, of "open_calls evs xs (length xs)"] first_orphan_append [OF assms(3), of ys]
      index_tail_index_of [OF assms(2)]
    by (auto simp: extend_cache_def balance_of_def Let_def open_calls_append simp del: upt_Suc split: option.splits)
qed

subsection \<open>The cache of a reachable session\<close>

inductive paired_reach :: "paired_session \<Rightarrow> bool" where
  made: "construct_session mode sid seed src now later = Inr s \<Longrightarrow> paired_reach (s, None)"
| appended: "paired_reach (s, c) \<Longrightarrow> append_event call s = (r, s') \<Longrightarrow> paired_reach (s', c)"
| read_events: "paired_reach (s, c) \<Longrightarrow> events_of s = (evs, s') \<Longrightarrow> paired_reach (s', c)"
| read_header: "paired_reach (s, c) \<Longrightarrow> request_header s = (h, s') \<Longrightarrow> paired_reach (s', c)"
| read_context: "paired_reach (s, c) \<Longrightarrow> request_context_of s = (rc, s') \<Longrightarrow> paired_reach (s', c)"
| derived: "paired_reach (s, c) \<Longrightarrow> derive_messages s = (ms, s') \<Longrightarrow> paired_reach (s', c)"
| asked_before: "paired_reach ps \<Longrightarrow> tool_pairing_balanced_before n ps = (b, ps') \<Longrightarrow> paired_reach ps'"
| asked_after: "paired_reach ps \<Longrightarrow> tool_pairing_balanced_after n ps = (b, ps') \<Longrightarrow> paired_reach ps'"

definition balance_ok :: "session_event list \<Rightarrow> balance_cache option \<Rightarrow> bool" where
  "balance_ok evs cached \<longleftrightarrow>
     (case cached of
        None \<Rightarrow> True
      | Some c \<Rightarrow>
          (\<exists>m st. m \<le> length evs \<and>
             replay (surface_step 0) create_fold_state (take m evs) = (None, m, st) \<and>
             first_orphan evs (nodes st) = None \<and>
             c = balance_of evs (replace_generation st) (nodes st)))"

lemma open_calls_grow:
  assumes "\<forall>n \<in> set ns. 0 \<le> n \<and> n < int (length evs)"
  shows "open_calls (evs @ rest) ns k = open_calls evs ns k"
proof -
  have "map (\<lambda>n. event_delta ((evs @ rest) ! nat n)) (take k ns) = map (\<lambda>n. event_delta (evs ! nat n)) (take k ns)"
    using assms by (auto simp: nth_append nat_less_iff dest!: in_set_takeD)
  then show ?thesis unfolding open_calls_def by (rule arg_cong [of _ _ sum_list])
qed

lemma balance_ok_grow:
  assumes "balance_ok evs cached"
  shows "balance_ok (evs @ rest) cached"
proof (cases cached)
  case (Some c)
  with assms obtain m st where m: "m \<le> length evs"
      "replay (surface_step 0) create_fold_state (take m evs) = (None, m, st)"
      "first_orphan evs (nodes st) = None" "c = balance_of evs (replace_generation st) (nodes st)"
    by (auto simp: balance_ok_def)
  have "\<forall>n \<in> set (nodes st). 0 \<le> n \<and> n < int (length evs)"
    using surface_log.replay_inv [OF m(2)] m(1) by (fastforce simp: surface_inv_def)
  with m show ?thesis
    unfolding Some balance_ok_def option.simps
    by (intro exI [of _ m] exI [of _ st])
      (simp add: first_orphan_def balance_of_def open_calls_grow)
qed (simp add: balance_ok_def)

lemma views_keep_log:
  "events_of s = (evs, s') \<Longrightarrow> ss_log s' = ss_log s"
  "request_header s = (h, s') \<Longrightarrow> ss_log s' = ss_log s"
  "request_context_of s = (rc, s') \<Longrightarrow> ss_log s' = ss_log s"
  by (auto simp: events_of_def request_header_def request_context_of_def Let_def split: option.splits if_splits)

lemma balance_cache_for_ok:
  assumes s: "session_ok s" and c: "balance_ok (ss_log s) cached"
    and full: "replay (surface_step 0) create_fold_state (ss_log s) = (None, length (ss_log s), st)"
  obtains s' cached' where
    "balance_cache_for (s, cached) =
       (case first_orphan (ss_log s) (nodes st) of
          Some m \<Rightarrow> Inl (ResultWithoutOpenCall m)
        | None \<Rightarrow> Inr (balance_of (ss_log s) (replace_generation st) (nodes st)), s', cached')"
    "session_ok s'" "ss_log s' = ss_log s" "balance_ok (ss_log s') cached'"
proof -
  let ?evs = "ss_log s" and ?g = "replace_generation st" and ?ns = "nodes st"
  obtain k where k: "manager_at 0 ?evs k (ss_surface s)"
    using s by (auto simp: session_ok_def log_ok_def)
  obtain sm where sm: "sync_surface 0 ?evs (ss_surface s) = (None, sm)"
      "manager_at 0 ?evs (length ?evs) sm" "sm_state sm = st"
    using sync_surface_full [OF k full] .
  obtain sm' where sm': "sync_surface 0 ?evs sm = (None, sm')"
      "manager_at 0 ?evs (length ?evs) sm'" "sm_state sm' = st"
    using sync_surface_full [OF sm(2) full] .
  let ?s' = "s\<lparr>ss_surface := sm'\<rparr>"
  have ok: "session_ok ?s'" using session_ok_manager [OF s sm'(2)] .
  obtain s'' where ev: "events_of ?s' = (?evs, s'')" "session_ok s''" "ss_log s'' = ?evs"
  proof -
    obtain evs s'' where run: "events_of ?s' = (evs, s'')" by fastforce
    with events_of_ok [OF ok run] views_keep_log(1) [OF run] that [of s''] show ?thesis by simp
  qed
  have inv: "distinct ?ns" "on_log ?evs ?ns"
    using surface_log.replay_inv [OF full] fold_surface_contiguous surface_replay_fold [OF full]
    by (auto simp: surface_inv_def on_log_def)
  have full_ok: "balance_ok ?evs (Some (balance_of ?evs ?g ?ns))" if "first_orphan ?evs ?ns = None"
    unfolding balance_ok_def option.simps using full that
    by (intro exI [of _ "length ?evs"] exI [of _ st]) simp
  have extend: "extend_cache ?evs (balance_of ?evs ?g xs) ?ns =
      (case first_orphan ?evs ?ns of
          Some m \<Rightarrow> Inl (ResultWithoutOpenCall m) | None \<Rightarrow> Inr (balance_of ?evs ?g ?ns))"
    if "?ns = xs @ ys" "first_orphan ?evs xs = None" for xs ys
    using extend_cache_balance [of ?evs xs ys ?g] inv that by (simp cong: option.case_cong)
  consider (rebuild) "\<not> (case cached of None \<Rightarrow> False
        | Some c \<Rightarrow> bc_generation c = ?g \<and> length (bc_cuts c) - 1 \<le> length ?ns)"
    | (usable) xs ys where "cached = Some (balance_of ?evs ?g xs)" "?ns = xs @ ys" "first_orphan ?evs xs = None"
  proof (cases cached)
    case (Some b)
    with c obtain m st0 where m: "m \<le> length ?evs"
        "replay (surface_step 0) create_fold_state (take m ?evs) = (None, m, st0)"
        "first_orphan ?evs (nodes st0) = None" "b = balance_of ?evs (replace_generation st0) (nodes st0)"
      by (auto simp: balance_ok_def)
    have rel: "?g = replace_generation st0 \<and> (\<exists>ns. ?ns = nodes st0 @ ns) \<or> replace_generation st0 < ?g"
      by (rule replay_generation [OF m(2), of "drop m ?evs"]) (simp add: full)
    show ?thesis
    proof (cases "?g = replace_generation st0")
      case True
      with rel m Some that(2) show ?thesis by auto
    next
      case False
      with m Some that(1) show ?thesis by (auto simp: balance_of_def)
    qed
  qed (use that(1) in simp)
  then show ?thesis
  proof cases
    case rebuild
    have "balance_cache_for (s, cached) =
        (case extend_cache ?evs (empty_balance ?g) ?ns of
           Inl x \<Rightarrow> (Inl x, s'', cached) | Inr c \<Rightarrow> (Inr c, s'', Some c))"
      using rebuild sm sm' ev by (simp add: balance_cache_for_def manager_nodes_def manager_generation_def Let_def)
    moreover have "first_orphan ?evs [] = None" by (simp add: first_orphan_def)
    ultimately show ?thesis
      using extend [of "[]" ?ns] that [of s''] ev(2,3) c full_ok empty_balance_of [where evs = ?evs and g = ?g]
      by (auto split: option.splits)
  next
    case (usable xs ys)
    have len: "length (bc_cuts (balance_of ?evs ?g xs)) - 1 = length xs" "bc_generation (balance_of ?evs ?g xs) = ?g"
      by (simp_all add: balance_of_def)
    show ?thesis
    proof (cases "ys = []")
      case True
      then have "balance_cache_for (s, cached) = (Inr (balance_of ?evs ?g ?ns), ?s', cached)"
        using usable sm sm' len
        by (simp add: balance_cache_for_def manager_nodes_def manager_generation_def Let_def)
      with True usable that [of ?s' cached] ok c show ?thesis by simp
    next
      case False
      then have "balance_cache_for (s, cached) =
        (case extend_cache ?evs (balance_of ?evs ?g xs) ?ns of
           Inl x \<Rightarrow> (Inl x, s'', cached) | Inr c \<Rightarrow> (Inr c, s'', Some c))"
        using usable sm sm' len ev
        by (simp add: balance_cache_for_def manager_nodes_def manager_generation_def Let_def cong: sum.case_cong)
      with extend [OF usable(2,3)] that [of s''] ev(2,3) c full_ok show ?thesis
        by (auto split: option.splits)
    qed
  qed
qed


lemma balanced_at_ok:
  assumes s: "session_ok s" and c: "balance_ok (ss_log s) cached" and "k \<le> 1"
    and full: "replay (surface_step 0) create_fold_state (ss_log s) = (None, length (ss_log s), st)"
  obtains s' cached' where
    "balanced_at k n (s, cached) = (balanced_cut (ss_log s) (nodes st) n k, s', cached')"
    "session_ok s'" "ss_log s' = ss_log s" "balance_ok (ss_log s') cached'"
proof -
  obtain s' cached' where run: "balance_cache_for (s, cached) =
       (case first_orphan (ss_log s) (nodes st) of
          Some m \<Rightarrow> Inl (ResultWithoutOpenCall m)
        | None \<Rightarrow> Inr (balance_of (ss_log s) (replace_generation st) (nodes st)), s', cached')"
    and ok: "session_ok s'" "ss_log s' = ss_log s" "balance_ok (ss_log s') cached'"
    using balance_cache_for_ok [OF s c full] .
  have "balanced_at k n (s, cached) = (balanced_cut (ss_log s) (nodes st) n k, s', cached')"
  proof (cases "first_orphan (ss_log s) (nodes st)")
    case None
    have "cut_balance (balance_of (ss_log s) g (nodes st)) n k = balanced_cut (ss_log s) (nodes st) n k" for g
      using None assms(3) index_of_SomeD [of n "nodes st"]
      by (force simp: cut_balance_def balanced_cut_def balance_of_def simp del: upt_Suc split: option.splits)
    with run None show ?thesis by (simp add: balanced_at_def)
  qed (use run in \<open>simp add: balanced_at_def balanced_cut_def\<close>)
  with ok that show ?thesis by blast
qed

lemma session_ok_fold:
  assumes "session_ok s"
  obtains st where "replay (surface_step 0) create_fold_state (ss_log s) = (None, length (ss_log s), st)"
  using assms by (auto simp: session_ok_def log_ok_def)

lemma paired_reach_ok: "paired_reach ps \<Longrightarrow> session_ok (fst ps) \<and> balance_ok (ss_log (fst ps)) (snd ps)"
proof (induction rule: paired_reach.induct)
  case (made mode sid seed src now later s)
  then show ?case by (auto simp: balance_ok_def dest: construct_session_ok)
next
  case (appended s c call r s')
  obtain rest where "ss_log s' = ss_log s @ rest"
    using append_event_log [OF appended.hyps(2)] by (metis append_Nil2)
  with appended show ?case by (auto dest: append_event_ok intro: balance_ok_grow)
next
  case (derived s c ms s')
  obtain st where "replay (surface_step 0) create_fold_state (ss_log s) = (None, length (ss_log s), st)"
    using session_ok_fold derived.IH by auto
  from derive_messages_ok [OF _ this] derived show ?case by auto
next
  case (asked_before ps n b ps')
  obtain s c where ps: "ps = (s, c)" by fastforce
  with asked_before have ok: "session_ok s" "balance_ok (ss_log s) c" by auto
  obtain st where st: "replay (surface_step 0) create_fold_state (ss_log s) = (None, length (ss_log s), st)"
    using session_ok_fold [OF ok(1)] .
  obtain s' c' where "balanced_at 0 n (s, c) = (balanced_cut (ss_log s) (nodes st) n 0, s', c')"
    "session_ok s'" "ss_log s' = ss_log s" "balance_ok (ss_log s') c'"
    using balanced_at_ok [OF ok _ st, of 0 n] by blast
  with asked_before ps show ?case by (auto simp: tool_pairing_balanced_before_def)
next
  case (asked_after ps n b ps')
  obtain s c where ps: "ps = (s, c)" by fastforce
  with asked_after have ok: "session_ok s" "balance_ok (ss_log s) c" by auto
  obtain st where st: "replay (surface_step 0) create_fold_state (ss_log s) = (None, length (ss_log s), st)"
    using session_ok_fold [OF ok(1)] .
  obtain s' c' where "balanced_at 1 n (s, c) = (balanced_cut (ss_log s) (nodes st) n 1, s', c')"
    "session_ok s'" "ss_log s' = ss_log s" "balance_ok (ss_log s') c'"
    using balanced_at_ok [OF ok _ st, of 1 n] by blast
  with asked_after ps show ?case by (auto simp: tool_pairing_balanced_after_def)
qed (auto dest: events_of_ok request_header_ok request_context_ok simp: views_keep_log)


lemma tool_pairing_reference:
  assumes "paired_reach (s, c)" and "fold_surface (ss_log s) = Inr (ns, rs)"
  shows "fst (tool_pairing_balanced_before n (s, c)) = balanced_cut (ss_log s) ns n 0"
    and "fst (tool_pairing_balanced_after n (s, c)) = balanced_cut (ss_log s) ns n 1"
proof -
  from paired_reach_ok [OF assms(1)] have ok: "session_ok s" "balance_ok (ss_log s) c" by simp_all
  obtain st where st: "replay (surface_step 0) create_fold_state (ss_log s) = (None, length (ss_log s), st)"
      "nodes st = ns"
    using fold_surface_replay [OF assms(2)] .
  show "fst (tool_pairing_balanced_before n (s, c)) = balanced_cut (ss_log s) ns n 0"
    using balanced_at_ok [OF ok _ st(1), of 0 n] st(2)
    by (metis fst_conv less_eq_nat.simps(1) tool_pairing_balanced_before_def)
  show "fst (tool_pairing_balanced_after n (s, c)) = balanced_cut (ss_log s) ns n 1"
    using balanced_at_ok [OF ok _ st(1), of 1 n] st(2)
    by (metis fst_conv order_refl tool_pairing_balanced_after_def)
qed

text \<open>
  Claim C14. Whatever a session was asked before, the cut queries answer from the fold of
  its log: the first tool result without an open call, else a sequence that is not on the
  surface, else whether every call opened before the cut is answered there.
\<close>

theorem tool_pairing_is_the_balance:
  assumes "paired_reach (s, c)"
  shows "\<exists>ns rs. fold_surface (ss_log s) = Inr (ns, rs) \<and>
    (\<forall>n. fst (tool_pairing_balanced_before n (s, c)) = balanced_cut (ss_log s) ns n 0 \<and>
         fst (tool_pairing_balanced_after n (s, c)) = balanced_cut (ss_log s) ns n 1)"
proof -
  from paired_reach_ok [OF assms] have "session_ok s" by simp
  then obtain st where st: "replay (surface_step 0) create_fold_state (ss_log s) = (None, length (ss_log s), st)"
    by (rule session_ok_fold)
  obtain rs where "fold_surface (ss_log s) = Inr (nodes st, rs)"
    using surface_replay_fold [OF st] by blast
  with tool_pairing_reference [OF assms this] show ?thesis by blast
qed

lemma paired_sample_reach: "paired_reach (sample_session, None)"
proof -
  have "construct_session Snapshot ''s'' (Some (map Some sample_log)) None 0 0 = Inr sample_session"
    by code_simp
  then show ?thesis by (rule paired_reach.made)
qed

lemma tool_pairing_is_the_balance_witness:
  "\<exists>ns rs. fold_surface (ss_log sample_session) = Inr (ns, rs) \<and>
    (\<forall>n. fst (tool_pairing_balanced_before n (sample_session, None)) = balanced_cut (ss_log sample_session) ns n 0 \<and>
         fst (tool_pairing_balanced_after n (sample_session, None)) = balanced_cut (ss_log sample_session) ns n 1)"
  by (rule tool_pairing_is_the_balance [OF paired_sample_reach])

subsection \<open>Replacing a span between balanced cuts\<close>

lemma open_calls_take: "k \<le> i \<Longrightarrow> open_calls evs (take i ns) k = open_calls evs ns k"
  by (simp add: open_calls_def min_absorb1)

lemma open_calls_drop: "open_calls evs (drop i ns) k = open_calls evs ns (i + k) - open_calls evs ns i"
  by (simp add: open_calls_def take_add)

lemma open_calls_splice:
  assumes "i \<le> j" and "j < length ns"
    and "open_calls evs ns i = 0" and "open_calls evs ns (Suc j) = 0" and "event_delta (evs ! nat m) = 0"
  shows "open_calls evs (js_splice ns i (j - i + 1) [m]) k =
    (if k \<le> i then open_calls evs ns k else open_calls evs ns (k + (j - i)))"
proof (cases "k \<le> i")
  case True
  with assms show ?thesis by (simp add: js_splice_def open_calls_append open_calls_take)
next
  case False
  then obtain t where t: "k = Suc (i + t)" by (metis less_imp_Suc_add not_le)
  have "js_splice ns i (j - i + 1) [m] = take i ns @ m # drop (Suc j) ns"
    using assms(1) by (simp add: js_splice_def)
  moreover have "Suc j + t = k + (j - i)" using assms(1) t by simp
  ultimately show ?thesis
    using assms t by (simp add: open_calls_append open_calls_take open_calls_drop add.commute [of t j])
qed

lemma nth_splice:
  assumes "i \<le> j" and "j < length ns" and "k < length ns - (j - i)"
  shows "js_splice ns i (j - i + 1) [m] ! k = (if k < i then ns ! k else if k = i then m else ns ! (k + (j - i)))"
  using assms by (auto simp: js_splice_def nth_append nth_Cons' min_def intro!: arg_cong [of _ _ "(!) ns"])

lemma length_splice:
  "i \<le> j \<Longrightarrow> j < length ns \<Longrightarrow> length (js_splice ns i (j - i + 1) [m]) = length ns - (j - i)"
  by (simp add: js_splice_def)


lemma balanced_cut_True:
  assumes "balanced_cut evs ns n k = Inr True"
  obtains i where "first_orphan evs ns = None" "index_of n ns = Some i" "open_calls evs ns (i + k) = 0"
  using assms by (auto simp: balanced_cut_def split: option.splits)

lemma first_orphan_None_iff:
  "first_orphan evs ns = None \<longleftrightarrow> (\<forall>k < length ns. 0 \<le> open_calls evs ns (Suc k))"
proof -
  have "first_orphan evs ns = None \<longleftrightarrow> (\<forall>k \<in> set [0..<length ns]. 0 \<le> open_calls evs ns (Suc k))"
    unfolding first_orphan_def option.map_disc_iff find_None_iff not_less [symmetric] by blast
  then show ?thesis by (simp add: Ball_def)
qed

lemma balanced_cut_nth:
  "distinct ns \<Longrightarrow> i < length ns \<Longrightarrow> first_orphan evs ns = None \<Longrightarrow>
   balanced_cut evs ns (ns ! i) k = Inr (open_calls evs ns (i + k) = 0)"
  by (simp add: balanced_cut_def index_of_nth)

text \<open>The surface with the span \<open>i\<close> to \<open>j\<close> replaced by one node that opens and answers nothing.\<close>

lemma splice_keeps_cuts:
  assumes ij: "i \<le> j" "j < length ns" and bal: "open_calls evs ns i = 0" "open_calls evs ns (Suc j) = 0"
    and m: "event_delta (evs ! nat m) = 0" and none: "first_orphan evs ns = None"
    and ns': "ns' = js_splice ns i (j - i + 1) [m]" and dist: "distinct ns" "distinct ns'"
  shows "balanced_cut evs ns' m 0 = Inr True" and "balanced_cut evs ns' m 1 = Inr True"
    and "n \<in> set ns' \<Longrightarrow> n \<noteq> m \<Longrightarrow> k \<le> 1 \<Longrightarrow> balanced_cut evs ns' n k = balanced_cut evs ns n k"
proof -
  have len: "length ns' = length ns - (j - i)" unfolding ns' by (rule length_splice [OF ij])
  have open': "open_calls evs ns' k = (if k \<le> i then open_calls evs ns k else open_calls evs ns (k + (j - i)))" for k
    using open_calls_splice [OF ij bal m] ns' by simp
  have nth: "ns' ! k = (if k < i then ns ! k else if k = i then m else ns ! (k + (j - i)))"
    if "k < length ns'" for k using nth_splice [OF ij] that len ns' by simp
  have none': "first_orphan evs ns' = None"
    unfolding first_orphan_None_iff
  proof (intro allI impI)
    fix k assume "k < length ns'"
    then have "k + (j - i) < length ns" "k < length ns" using len by auto
    then show "0 \<le> open_calls evs ns' (Suc k)"
      using none [unfolded first_orphan_None_iff] by (simp add: open')
  qed
  have i: "i < length ns'" "ns' ! i = m" using len nth [of i] ij by auto
  have "Suc i + (j - i) = Suc j" using ij by simp
  then have "open_calls evs ns' (Suc i) = 0" using open' [of "Suc i"] bal by simp
  then show "balanced_cut evs ns' m 0 = Inr True" "balanced_cut evs ns' m 1 = Inr True"
    using balanced_cut_nth [OF dist(2) i(1) none'] i(2) open' [of i] bal by simp_all
  assume n: "n \<in> set ns'" "n \<noteq> m" and k: "k \<le> 1"
  then obtain p where p: "p < length ns'" "ns' ! p = n" by (auto simp: in_set_conv_nth)
  show "balanced_cut evs ns' n k = balanced_cut evs ns n k"
  proof (cases "p < i")
    case True
    then have "n = ns ! p" "p < length ns" "p + k \<le> i" using p nth [of p] len k by auto
    then show ?thesis
      using balanced_cut_nth [OF dist(2) p(1) none'] balanced_cut_nth [OF dist(1) _ none, of p] p(2) open' [of "p + k"]
      by simp
  next
    case False
    with n p nth [OF p(1)] i have "i < p" "n = ns ! (p + (j - i))" by (auto simp: not_less le_less)
    moreover have "p + (j - i) < length ns" using p(1) len by simp
    ultimately show ?thesis
      using balanced_cut_nth [OF dist(2) p(1) none'] balanced_cut_nth [OF dist(1) _ none, of "p + (j - i)"] p(2)
        open' [of "p + k"] by (simp add: ac_simps)
  qed
qed

lemma balanced_cut_grow:
  assumes "\<forall>n \<in> set ns. 0 \<le> n \<and> n < int (length evs)"
  shows "balanced_cut (evs @ rest) ns n k = balanced_cut evs ns n k"
proof -
  have "open_calls (evs @ rest) ns = open_calls evs ns" using open_calls_grow [OF assms] by blast
  then show ?thesis unfolding balanced_cut_def first_orphan_def by (rule ssubst) (rule refl)
qed

lemma plan_replace_op:
  assumes "plan_surface_event st e n evs base = Inr p" and "surface_op_of e = Inr (Some (OpReplace a b))"
  obtains i j sh where "ev_seq e = n" "replacement_range st a b = Inr (i, j, sh)"
    "p = Some (PlanReplace \<lparr>rp_seq = n, rp_start = a, rp_end = b, rp_start_idx = i,
             rp_end_idx = j, rp_shadowed = sh\<rparr>)"
  using assms by (auto simp: plan_surface_event_def split: sum.splits if_splits)

text \<open>
  Claim C25. A replacement whose range starts and ends at balanced cuts, by a message that
  opens and answers no call, leaves both cuts of the new node balanced and every other cut
  as it was: no tool call is separated from its result.
\<close>

theorem replacement_at_balanced_cuts:
  assumes reach: "paired_reach (s, c)"
    and cuts: "fst (tool_pairing_balanced_before a (s, c)) = Inr True"
      "fst (tool_pairing_balanced_after b (s, c)) = Inr True"
    and run: "append_event call s = (Inr e, s')"
    and op: "surface_op_of e = Inr (Some (OpReplace a b))" and delta: "event_delta e = 0"
  shows "\<exists>ns' rs'. fold_surface (ss_log s') = Inr (ns', rs') \<and>
    fst (tool_pairing_balanced_before (ev_seq e) (s', c)) = Inr True \<and>
    fst (tool_pairing_balanced_after (ev_seq e) (s', c)) = Inr True \<and>
    (\<forall>n \<in> set ns' - {ev_seq e}.
       fst (tool_pairing_balanced_before n (s', c)) = fst (tool_pairing_balanced_before n (s, c)) \<and>
       fst (tool_pairing_balanced_after n (s', c)) = fst (tool_pairing_balanced_after n (s, c)))"
proof -
  let ?evs = "ss_log s" and ?q = "int (length (ss_log s))"
  from paired_reach_ok [OF reach] have "session_ok s" by simp
  then obtain st where st: "replay (surface_step 0) create_fold_state ?evs = (None, length ?evs, st)"
    by (rule session_ok_fold)
  obtain rs where fold: "fold_surface ?evs = Inr (nodes st, rs)" using surface_replay_fold [OF st] by blast
  note ref = tool_pairing_reference [OF reach fold]
  obtain i where i: "first_orphan ?evs (nodes st) = None" "index_of a (nodes st) = Some i"
      "open_calls ?evs (nodes st) i = 0"
    using balanced_cut_True [OF cuts(1) [unfolded ref(1)]] by (metis add_0_right)
  obtain j where j: "index_of b (nodes st) = Some j" "open_calls ?evs (nodes st) (Suc j) = 0"
    using balanced_cut_True [OF cuts(2) [unfolded ref(2)]] by (metis add.commute plus_1_eq_Suc)
  have log: "ss_log s' = ?evs @ [e]" using run by (cases rule: append_event_cases) auto
  have reach': "paired_reach (s', c)" using reach run by (rule paired_reach.appended)
  from paired_reach_ok [OF reach'] have "session_ok s'" by simp
  then obtain st' where st': "replay (surface_step 0) create_fold_state (?evs @ [e]) = (None, length (?evs @ [e]), st')"
    using session_ok_fold log by metis
  obtain rs' where fold': "fold_surface (ss_log s') = Inr (nodes st', rs')"
    using surface_replay_fold [OF st'] log by auto
  note ref' = tool_pairing_reference [OF reach' fold', unfolded log]
  have "surface_step 0 ?evs (length ?evs) st e = Inr st'"
    using st st' by (auto simp: surface_log.replay_snoc_Some simp del: length_append)
  then obtain p where p: "plan_surface_event st e ?q ?evs 0 = Inr p" "st' = fst (apply_surface_plan st p)"
    by (fastforce simp: surface_step_def apply_surface_event_def split: sum.splits)
  have seq: "ev_seq e = ?q" and nodes': "nodes st' = js_splice (nodes st) i (j - i + 1) [?q]" and le: "i \<le> j"
  proof -
    obtain i' j' sh where r: "ev_seq e = ?q" "replacement_range st a b = Inr (i', j', sh)"
      "p = Some (PlanReplace \<lparr>rp_seq = ?q, rp_start = a, rp_end = b, rp_start_idx = i',
             rp_end_idx = j', rp_shadowed = sh\<rparr>)"
      using plan_replace_op [OF p(1) op] .
    have "i' = i" "j' = j" "i \<le> j" using r(2) i(2) j(1) by (simp_all add: replacement_range_def split: if_splits)
    with r p(2) show "ev_seq e = ?q" "nodes st' = js_splice (nodes st) i (j - i + 1) [?q]" "i \<le> j" by simp_all
  qed
  have inv: "distinct (nodes st)" "\<forall>n \<in> set (nodes st). 0 \<le> n \<and> n < ?q" "distinct (nodes st')"
    using surface_log.replay_inv [OF st] surface_log.replay_inv [OF st'] by (auto simp: surface_inv_def)
  have "j < length (nodes st)" using index_of_SomeD [OF j(1)] by simp
  have grow: "open_calls (?evs @ [e]) (nodes st) = open_calls ?evs (nodes st)"
    using open_calls_grow [OF inv(2)] by blast
  then have orphan: "first_orphan (?evs @ [e]) (nodes st) = None" using i(1) by (simp add: first_orphan_def)
  have new: "event_delta ((?evs @ [e]) ! nat ?q) = 0" using delta by simp
  have bal: "open_calls (?evs @ [e]) (nodes st) i = 0" "open_calls (?evs @ [e]) (nodes st) (Suc j) = 0"
    using i(3) j(2) by (simp_all add: grow)
  note keep = splice_keeps_cuts [OF le \<open>j < length (nodes st)\<close> bal new orphan nodes' inv(1,3)]
  have others: "balanced_cut (?evs @ [e]) (nodes st') n k = balanced_cut ?evs (nodes st) n k"
    if "n \<in> set (nodes st') - {?q}" "k \<le> 1" for n k
    using keep(3) [of n k] that balanced_cut_grow [OF inv(2)] by simp
  have "fst (tool_pairing_balanced_before ?q (s', c)) = Inr True \<and>
      fst (tool_pairing_balanced_after ?q (s', c)) = Inr True"
    using ref' keep(1,2) by simp
  moreover have "\<forall>n \<in> set (nodes st') - {?q}.
      fst (tool_pairing_balanced_before n (s', c)) = fst (tool_pairing_balanced_before n (s, c)) \<and>
      fst (tool_pairing_balanced_after n (s', c)) = fst (tool_pairing_balanced_after n (s, c))"
    using ref ref' others by simp
  ultimately show ?thesis unfolding seq using fold' by blast
qed


text \<open>A session whose surface is one prompt, then a prompt replacing it.\<close>

definition replace_meta :: "int \<Rightarrow> int \<Rightarrow> int list \<Rightarrow> json option \<times> json option" where
  "replace_meta a b sources =
     (Some (JObj [(''op'', JStr ''replace''), (''start'', jint a), (''end'', jint b)]),
      Some (JArr (map jint sources)))"

definition sample_replacement :: append_call where
  "sample_replacement = (end_seed_call 0)\<lparr>ac_data := Some (UserMessage sample_user), ac_meta := Some (replace_meta 1 1 [1])\<rparr>"

definition replaced_session :: session where
  "replaced_session = snd (append_event sample_replacement sample_session)"

definition replaced_event :: session_event where
  "replaced_event = projr (fst (append_event sample_replacement sample_session))"

lemma replacement_at_balanced_cuts_witness:
  "fst (tool_pairing_balanced_before (ev_seq replaced_event) (replaced_session, None)) = Inr True \<and>
   fst (tool_pairing_balanced_after (ev_seq replaced_event) (replaced_session, None)) = Inr True"
proof -
  have "fst (tool_pairing_balanced_before 1 (sample_session, None)) = Inr True"
    "fst (tool_pairing_balanced_after 1 (sample_session, None)) = Inr True"
    "append_event sample_replacement sample_session = (Inr replaced_event, replaced_session)"
    "surface_op_of replaced_event = Inr (Some (OpReplace 1 1))" "event_delta replaced_event = 0"
    by code_simp+
  from replacement_at_balanced_cuts [OF paired_sample_reach this] show ?thesis by blast
qed

end
