(* ===== verification/Compaction_Trace.thy ===== *)
theory Compaction_Trace
  imports Session_Surface
begin

section \<open>The invariants of compaction brackets\<close>

text \<open>
  \<^verbatim>\<open>packages/compaction/compaction/src/invariant.ts\<close> with \<^verbatim>\<open>checkpoint.ts\<close>: the trace the
  companion keeps per session, the validation of a candidate event against it, the staged
  transition, and the seeding from a stored log, which forgives brackets that a later
  constructor seed made stale. Compaction events are plugin events: their data is the JSON
  the log holds, read property by property. \<open>InvariantFailure\<close> never returns.
\<close>

subsection \<open>Event data\<close>

definition compaction_start :: string where "compaction_start = ''compaction/start''"
definition compaction_summary :: string where "compaction_summary = ''compaction/summary''"
definition compaction_end :: string where "compaction_end = ''compaction/end''"

lemmas compaction_types = compaction_start_def compaction_summary_def compaction_end_def

text \<open>The provenance of a checkpoint message: a plugin source, without its \<open>kind\<close> tag.\<close>

definition optional_field :: "string \<Rightarrow> string option \<Rightarrow> json_fields" where
  "optional_field k v = (case v of None \<Rightarrow> [] | Some x \<Rightarrow> [(k, JStr x)])"

definition compact_checkpoint_source :: "string \<Rightarrow> string option \<Rightarrow> message_source" where
  "compact_checkpoint_source cid cmd =
     PluginSrc (JObj ([(''plugin'', JStr ''compact''), (''compactionId'', JStr cid)]
       @ optional_field ''sourceCommandId'' cmd))"

fun is_compact_checkpoint_source :: "message_source \<Rightarrow> bool" where
  "is_compact_checkpoint_source (PluginSrc j) \<longleftrightarrow> data_field j ''plugin'' = Some (JStr ''compact'')"
| "is_compact_checkpoint_source _ \<longleftrightarrow> False"

subsection \<open>The trace\<close>

record compaction_trace =
  ct_id :: string
  ct_command :: "string option"
  ct_start :: int
  ct_turn :: "int option"
  ct_summarized :: bool

record bracket_trace =
  bt_turn :: "int option"
  bt_open :: "compaction_trace option"

datatype compaction_fault =
    IdNotString string
  | CommandMismatch string
  | NoOpenStart string
  | IdMismatch string
  | BoundaryCrosses string
  | StandaloneInTurn string
  | OutsideAnyTurn string
  | WrongOwner string
  | StartWhileOpen
  | SummaryRepeated
  | ShadowedEmpty
  | RangeMismatch
  | TokenCountInvalid
  | OwnerChanged
  | EndWithoutSummary
  | NotStaged

definition validate_id :: "json option \<Rightarrow> string \<Rightarrow> compaction_fault + string" where
  "validate_id v label =
     (case v of Some (JStr x) \<Rightarrow> if x = [] then Inl (IdNotString label) else Inr x
      | _ \<Rightarrow> Inl (IdNotString label))"

text \<open>An optional identity: checked when it is there.\<close>

definition validate_optional_id :: "json option \<Rightarrow> string \<Rightarrow> compaction_fault + string option" where
  "validate_optional_id v label =
     (case v of None \<Rightarrow> Inr None | Some _ \<Rightarrow> and_then (validate_id v label) (\<lambda>x. Inr (Some x)))"

definition validate_source_command_id ::
  "string \<Rightarrow> json option \<Rightarrow> string option \<Rightarrow> compaction_fault + unit" where
  "validate_source_command_id kind v expected =
     and_then (validate_optional_id v kind)
       (\<lambda>x. if x \<noteq> expected then Inl (CommandMismatch kind) else Inr ())"

definition validate_checkpoint :: "bracket_trace \<Rightarrow> json \<Rightarrow> compaction_fault + unit" where
  "validate_checkpoint tr src =
     (let kind = ''compaction checkpoint'' in
      and_then (validate_id (data_field src ''compactionId'') kind)
        (\<lambda>cid. and_then (validate_optional_id (data_field src ''sourceCommandId'') kind)
          (\<lambda>_. case bt_open tr of
             None \<Rightarrow> Inl (NoOpenStart kind)
           | Some c \<Rightarrow>
               if cid \<noteq> ct_id c then Inl (IdMismatch kind)
               else validate_source_command_id kind (data_field src ''sourceCommandId'') (ct_command c))))"

text \<open>The loop over a stored log that collects the brackets a later seed made stale.\<close>

fun inherited_orphan_start_seqs :: "int option \<Rightarrow> session_event list \<Rightarrow> int set" where
  "inherited_orphan_start_seqs open_start [] = {}"
| "inherited_orphan_start_seqs open_start (e # es) =
     (if event_type (ev_data e) = compaction_start then inherited_orphan_start_seqs (Some (ev_seq e)) es
      else if event_type (ev_data e) = compaction_end then inherited_orphan_start_seqs None es
      else if event_type (ev_data e) = ''session/end-seed''
      then set_option open_start \<union> inherited_orphan_start_seqs None es
      else inherited_orphan_start_seqs open_start es)"

definition is_turn_boundary :: "event_data \<Rightarrow> bool" where
  "is_turn_boundary d \<longleftrightarrow> event_type d = ''turn/start'' \<or> event_type d = ''turn/end''"

definition validate_turn_boundary :: "bracket_trace \<Rightarrow> session_event \<Rightarrow> compaction_fault + unit" where
  "validate_turn_boundary tr e =
     (if \<not> is_turn_boundary (ev_data e) \<or> bt_open tr = None then Inr ()
      else Inl (BoundaryCrosses (event_type (ev_data e))))"

text \<open>Returns whether the event was a boundary, with the trace after it.\<close>

fun apply_turn_boundary :: "bracket_trace \<Rightarrow> event_data \<Rightarrow> bool \<times> bracket_trace" where
  "apply_turn_boundary tr (TurnStart t) = (True, tr\<lparr>bt_turn := Some t\<rparr>)"
| "apply_turn_boundary tr (TurnEnd t r) = (True, tr\<lparr>bt_turn := None\<rparr>)"
| "apply_turn_boundary tr _ = (False, tr)"

text \<open>The owner as the log holds it: \<open>null\<close>, or the number of the open turn.\<close>

definition owner_json :: "int option \<Rightarrow> json" where
  "owner_json owner = (case owner of None \<Rightarrow> JNull | Some t \<Rightarrow> jint t)"

definition validate_owner :: "json option \<Rightarrow> int option \<Rightarrow> string \<Rightarrow> compaction_fault + unit" where
  "validate_owner owner turn kind =
     (if owner = Some JNull
      then (if turn \<noteq> None then Inl (StandaloneInTurn kind) else Inr ())
      else
        (case turn of
           None \<Rightarrow> Inl (OutsideAnyTurn kind)
         | Some t \<Rightarrow> if owner \<noteq> Some (jint t) then Inl (WrongOwner kind) else Inr ()))"

datatype compaction_transition =
    StartT string "string option" int "int option"
  | SummaryT string "string option" int "int option"
  | EndT
  | EndSeedT

definition validate_start :: "bracket_trace \<Rightarrow> int \<Rightarrow> json \<Rightarrow> compaction_fault + compaction_transition" where
  "validate_start tr n d =
     and_then (validate_id (data_field d ''compactionId'') compaction_start)
       (\<lambda>cid. and_then (validate_optional_id (data_field d ''sourceCommandId'') compaction_start)
         (\<lambda>cmd. if bt_open tr \<noteq> None then Inl StartWhileOpen
           else and_then (validate_owner (data_field d ''turn'') (bt_turn tr) compaction_start)
             (\<lambda>_. Inr (StartT cid cmd n (if data_field d ''turn'' = Some JNull then None else bt_turn tr)))))"

text \<open>The common checks of a later event of the bracket against the open start.\<close>

definition open_bracket :: "bracket_trace \<Rightarrow> string \<Rightarrow> json \<Rightarrow> compaction_fault + compaction_trace" where
  "open_bracket tr kind d =
     and_then (validate_id (data_field d ''compactionId'') kind)
       (\<lambda>cid. and_then (validate_optional_id (data_field d ''sourceCommandId'') kind)
         (\<lambda>_. case bt_open tr of
            None \<Rightarrow> Inl (NoOpenStart kind)
          | Some c \<Rightarrow>
              if cid \<noteq> ct_id c then Inl (IdMismatch kind)
              else and_then (validate_source_command_id kind (data_field d ''sourceCommandId'') (ct_command c))
                     (\<lambda>_. Inr c)))"

fun json_elements :: "json option \<Rightarrow> json list" where
  "json_elements (Some (JArr xs)) = xs"
| "json_elements _ = []"

definition nested_field :: "json \<Rightarrow> string \<Rightarrow> string \<Rightarrow> json option" where
  "nested_field d k k' = (case data_field d k of None \<Rightarrow> None | Some v \<Rightarrow> data_field v k')"

definition validate_summary :: "bracket_trace \<Rightarrow> json \<Rightarrow> compaction_fault + compaction_transition" where
  "validate_summary tr d =
     and_then (open_bracket tr compaction_summary d)
       (\<lambda>c. and_then (validate_owner (Some (owner_json (ct_turn c))) (bt_turn tr) compaction_summary)
         (\<lambda>_. if ct_summarized c then Inl SummaryRepeated
           else
             (let seqs = json_elements (data_field d ''shadowedSeqs'') in
              if seqs = [] then Inl ShadowedEmpty
              else if Some (hd seqs) \<noteq> nested_field d ''shadowedRange'' ''start''
                \<or> Some (last seqs) \<noteq> nested_field d ''shadowedRange'' ''end''
              then Inl RangeMismatch
              else
                (case data_field d ''shadowedTokenCount'' of
                   None \<Rightarrow> Inl TokenCountInvalid
                 | Some v \<Rightarrow>
                     (case json_safe_int v of
                        None \<Rightarrow> Inl TokenCountInvalid
                      | Some k \<Rightarrow>
                          if k < 0 then Inl TokenCountInvalid
                          else Inr (SummaryT (ct_id c) (ct_command c) (ct_start c) (ct_turn c)))))))"

definition validate_end :: "bracket_trace \<Rightarrow> json \<Rightarrow> compaction_fault + compaction_transition" where
  "validate_end tr d =
     and_then (open_bracket tr compaction_end d)
       (\<lambda>c. if data_field d ''turn'' \<noteq> Some (owner_json (ct_turn c)) then Inl OwnerChanged
         else and_then (validate_owner (Some (owner_json (ct_turn c))) (bt_turn tr) compaction_end)
           (\<lambda>_. if data_field d ''error'' = None \<and> \<not> ct_summarized c then Inl EndWithoutSummary
             else Inr EndT))"

definition validate_compaction_event ::
  "bracket_trace \<Rightarrow> session_event \<Rightarrow> compaction_fault + compaction_transition option"
where
  "validate_compaction_event tr e =
     (case ev_data e of
        EndSeed \<Rightarrow> Inr (Some EndSeedT)
      | UserMessage m \<Rightarrow>
          (if is_replacement_surface_event e \<and> is_compact_checkpoint_source (um_source m)
           then (case um_source m of
                   PluginSrc src \<Rightarrow> and_then (validate_checkpoint tr src) (\<lambda>_. Inr None)
                 | _ \<Rightarrow> Inr None)
           else Inr None)
      | OtherEvent t d \<Rightarrow>
          (if t = compaction_start then and_then (validate_start tr (ev_seq e) d) (\<lambda>x. Inr (Some x))
           else if t = compaction_summary then and_then (validate_summary tr d) (\<lambda>x. Inr (Some x))
           else if t = compaction_end then and_then (validate_end tr d) (\<lambda>x. Inr (Some x))
           else Inr None)
      | _ \<Rightarrow> Inr None)"

fun apply_compaction_transition :: "compaction_transition \<Rightarrow> compaction_trace option" where
  "apply_compaction_transition (StartT cid cmd n t) =
     Some \<lparr>ct_id = cid, ct_command = cmd, ct_start = n, ct_turn = t, ct_summarized = False\<rparr>"
| "apply_compaction_transition (SummaryT cid cmd n t) =
     Some \<lparr>ct_id = cid, ct_command = cmd, ct_start = n, ct_turn = t, ct_summarized = True\<rparr>"
| "apply_compaction_transition EndT = None"
| "apply_compaction_transition EndSeedT = None"

definition fresh_bracket_trace :: bracket_trace where
  "fresh_bracket_trace = \<lparr>bt_turn = None, bt_open = None\<rparr>"

definition apply_staged :: "compaction_transition option \<Rightarrow> bracket_trace \<Rightarrow> bracket_trace" where
  "apply_staged x tr =
     (case x of None \<Rightarrow> tr | Some t \<Rightarrow> tr\<lparr>bt_open := apply_compaction_transition t\<rparr>)"

subsection \<open>Seeding and publication\<close>

text \<open>The body of the seeding loop, given the stale brackets of the whole log.\<close>

definition seed_bracket_step ::
  "int set \<Rightarrow> bracket_trace \<Rightarrow> session_event \<Rightarrow> compaction_fault + bracket_trace"
where
  "seed_bracket_step stale tr e =
     and_then (case bt_open tr of
                 None \<Rightarrow> validate_turn_boundary tr e
               | Some c \<Rightarrow> if ct_start c \<in> stale then Inr () else validate_turn_boundary tr e)
       (\<lambda>_. and_then (validate_compaction_event tr e)
         (\<lambda>x. Inr (snd (apply_turn_boundary (apply_staged x tr) (ev_data e)))))"

fun seed_bracket_loop ::
  "int set \<Rightarrow> bracket_trace \<Rightarrow> session_event list \<Rightarrow> compaction_fault + bracket_trace"
where
  "seed_bracket_loop stale tr [] = Inr tr"
| "seed_bracket_loop stale tr (e # es) =
     and_then (seed_bracket_step stale tr e) (\<lambda>tr'. seed_bracket_loop stale tr' es)"

definition seed_brackets :: "session_event list \<Rightarrow> compaction_fault + bracket_trace" where
  "seed_brackets evs =
     seed_bracket_loop (inherited_orphan_start_seqs None evs) fresh_bracket_trace evs"

text \<open>The dispatch of a candidate stages its transition; its publication commits it.\<close>

definition dispatch_event ::
  "bracket_trace \<Rightarrow> session_event \<Rightarrow> compaction_fault + compaction_transition option"
where
  "dispatch_event tr e =
     and_then (validate_turn_boundary tr e) (\<lambda>_. validate_compaction_event tr e)"

definition is_bracket_type :: "string \<Rightarrow> bool" where
  "is_bracket_type t \<longleftrightarrow>
     t = ''session/end-seed'' \<or> t = compaction_start \<or> t = compaction_summary \<or> t = compaction_end"

definition publish_event ::
  "compaction_transition option \<Rightarrow> bracket_trace \<Rightarrow> session_event \<Rightarrow> compaction_fault + bracket_trace"
where
  "publish_event staged tr e =
     and_then (validate_turn_boundary tr e)
       (\<lambda>_. case apply_turn_boundary tr (ev_data e) of
          (True, tr') \<Rightarrow> Inr tr'
        | (False, _) \<Rightarrow>
            if \<not> is_bracket_type (event_type (ev_data e)) then Inr tr
            else
              (case staged of
                 None \<Rightarrow> Inl NotStaged
               | Some t \<Rightarrow> Inr (tr\<lparr>bt_open := apply_compaction_transition t\<rparr>)))"

definition live_bracket_step :: "bracket_trace \<Rightarrow> session_event \<Rightarrow> compaction_fault + bracket_trace" where
  "live_bracket_step tr e = and_then (dispatch_event tr e) (\<lambda>staged. publish_event staged tr e)"

fun live_brackets :: "bracket_trace \<Rightarrow> session_event list \<Rightarrow> compaction_fault + bracket_trace" where
  "live_brackets tr [] = Inr tr"
| "live_brackets tr (e # es) =
     and_then (live_bracket_step tr e) (\<lambda>tr'. live_brackets tr' es)"


subsection \<open>Publication and seeding agree\<close>

lemma bracket_types_distinct [simp]:
  "compaction_start \<noteq> compaction_summary" "compaction_start \<noteq> compaction_end"
  "compaction_summary \<noteq> compaction_start" "compaction_summary \<noteq> compaction_end"
  "compaction_end \<noteq> compaction_start" "compaction_end \<noteq> compaction_summary"
  "compaction_start \<noteq> ''session/end-seed''" "compaction_summary \<noteq> ''session/end-seed''"
  "compaction_end \<noteq> ''session/end-seed''"
  by (simp_all add: compaction_types)

text \<open>Plugin events carry a type of their own, none of the session's.\<close>

definition own_type :: "session_event \<Rightarrow> bool" where
  "own_type e \<longleftrightarrow>
     (case ev_data e of
        OtherEvent t _ \<Rightarrow> t \<notin> set [''turn/start'', ''turn/end'', ''session/end-seed'']
      | _ \<Rightarrow> True)"

lemma validated_user_message:
  "ev_data e = UserMessage m \<Longrightarrow> validate_compaction_event tr e = Inr x \<Longrightarrow> x = None"
  by (cases "um_source m")
    (auto simp: validate_compaction_event_def and_then_Inr_iff split: if_splits)

lemma validated_plugin_event:
  "ev_data e = OtherEvent t d \<Longrightarrow> validate_compaction_event tr e = Inr x \<Longrightarrow>
   x \<noteq> None \<longleftrightarrow> t = compaction_start \<or> t = compaction_summary \<or> t = compaction_end"
  by (auto simp: validate_compaction_event_def and_then_Inr_iff split: if_splits)

lemma validated_staged:
  assumes "own_type e" and "validate_compaction_event tr e = Inr x"
  shows "x \<noteq> None \<longleftrightarrow> is_bracket_type (event_type (ev_data e))"
proof (cases "ev_data e")
  case (UserMessage m)
  with validated_user_message [OF this assms(2)] show ?thesis
    by (simp add: is_bracket_type_def compaction_types)
next
  case (OtherEvent t d)
  with validated_plugin_event [OF this assms(2)] assms(1) show ?thesis
    by (auto simp: is_bracket_type_def own_type_def)
qed (use assms(2) in \<open>auto simp: validate_compaction_event_def is_bracket_type_def compaction_types\<close>)

lemma apply_turn_boundary_fst: "fst (apply_turn_boundary tr d) \<Longrightarrow> \<not> is_bracket_type (event_type d)"
  by (cases d) (auto simp: is_bracket_type_def compaction_types)

lemma apply_turn_boundary_False: "\<not> fst (apply_turn_boundary tr d) \<Longrightarrow> apply_turn_boundary tr' d = (False, tr')"
  by (cases d) auto

lemma seed_step_nil:
  "seed_bracket_step {} tr e = and_then (validate_turn_boundary tr e)
     (\<lambda>_. and_then (validate_compaction_event tr e)
       (\<lambda>x. Inr (snd (apply_turn_boundary (apply_staged x tr) (ev_data e)))))"
  by (simp add: seed_bracket_step_def split: option.splits)

lemma live_step_is_seed_step:
  assumes "own_type e"
  shows "live_bracket_step tr e = seed_bracket_step {} tr e"
proof (cases "validate_turn_boundary tr e")
  case (Inr u)
  show ?thesis
  proof (cases "validate_compaction_event tr e")
    case v: (Inr x)
    from validated_staged [OF assms v] have staged: "x \<noteq> None \<longleftrightarrow> is_bracket_type (event_type (ev_data e))" .
    have "publish_event x tr e = Inr (snd (apply_turn_boundary (apply_staged x tr) (ev_data e)))"
    proof (cases "fst (apply_turn_boundary tr (ev_data e))")
      case True
      with staged apply_turn_boundary_fst have "x = None" by blast
      with True Inr show ?thesis
        by (cases "apply_turn_boundary tr (ev_data e)") (simp add: publish_event_def apply_staged_def)
    next
      case False
      from apply_turn_boundary_False [OF this] staged Inr show ?thesis
        by (cases x) (simp_all add: publish_event_def apply_staged_def)
    qed
    with Inr v show ?thesis by (simp add: live_bracket_step_def dispatch_event_def seed_step_nil)
  qed (simp add: live_bracket_step_def dispatch_event_def seed_step_nil Inr)
qed (simp add: live_bracket_step_def dispatch_event_def seed_step_nil)

lemma live_brackets_seed:
  "\<forall>e \<in> set evs. own_type e \<Longrightarrow> live_brackets tr evs = seed_bracket_loop {} tr evs"
proof (induction evs arbitrary: tr)
  case (Cons e evs)
  then show ?case by (cases "seed_bracket_step {} tr e") (simp_all add: live_step_is_seed_step)
qed simp

lemma seed_step_mono:
  assumes "seed_bracket_step {} tr e = Inr tr'"
  shows "seed_bracket_step stale tr e = Inr tr'"
  using assms by (auto simp: seed_bracket_step_def and_then_Inr_iff split: option.splits)

lemma seed_loop_mono: "seed_bracket_loop {} tr evs = Inr tr' \<Longrightarrow> seed_bracket_loop stale tr evs = Inr tr'"
  by (induction evs arbitrary: tr) (auto simp: and_then_Inr_iff dest: seed_step_mono)

theorem seeding_replays_publication:
  assumes "\<forall>e \<in> set evs. own_type e" and "live_brackets fresh_bracket_trace evs = Inr tr"
  shows "seed_brackets evs = Inr tr"
  using assms unfolding seed_brackets_def by (metis seed_loop_mono live_brackets_seed)

subsection \<open>What an accepted log is\<close>

lemma live_brackets_append:
  "live_brackets tr (evs @ rest) = and_then (live_brackets tr evs) (\<lambda>t. live_brackets t rest)"
proof (induction evs arbitrary: tr)
  case (Cons x evs)
  then show ?case by (cases "live_bracket_step tr x") simp_all
qed simp

lemma live_brackets_snoc:
  "live_brackets tr (evs @ [e]) = and_then (live_brackets tr evs) (\<lambda>t. live_bracket_step t e)"
proof -
  have "and_then r Inr = r" for r :: "compaction_fault + bracket_trace" by (cases r) simp_all
  then show ?thesis by (simp add: live_brackets_append)
qed

definition cuts_bracket :: "session_event \<Rightarrow> bool" where
  "cuts_bracket e \<longleftrightarrow> event_type (ev_data e) \<in>
     {compaction_start, compaction_end, ''session/end-seed'', ''turn/start'', ''turn/end''}"

definition is_summary_event :: "session_event \<Rightarrow> bool" where
  "is_summary_event e \<longleftrightarrow> event_type (ev_data e) = compaction_summary"

text \<open>The events after position \<open>i\<close> belong to the bracket that starts there.\<close>

definition opened_at :: "session_event list \<Rightarrow> nat \<Rightarrow> compaction_trace \<Rightarrow> bool" where
  "opened_at evs i c \<longleftrightarrow>
     i < length evs \<and> ev_seq (evs ! i) = ct_start c \<and>
     (\<exists>d. ev_data (evs ! i) = OtherEvent compaction_start d \<and>
        data_field d ''compactionId'' = Some (JStr (ct_id c)) \<and>
        data_field d ''turn'' = Some (owner_json (ct_turn c))) \<and>
     filter cuts_bracket (drop (Suc i) evs) = [] \<and>
     length (filter is_summary_event (drop (Suc i) evs)) = (if ct_summarized c then 1 else 0)"

fun last_turn :: "session_event list \<Rightarrow> int option \<Rightarrow> int option" where
  "last_turn [] t = t"
| "last_turn (e # es) t =
     last_turn es (case ev_data e of TurnStart n \<Rightarrow> Some n | TurnEnd _ _ \<Rightarrow> None | _ \<Rightarrow> t)"

lemma last_turn_snoc:
  "last_turn (evs @ [e]) t =
     (case ev_data e of TurnStart n \<Rightarrow> Some n | TurnEnd _ _ \<Rightarrow> None | _ \<Rightarrow> last_turn evs t)"
  by (induction evs arbitrary: t) (auto split: event_data.splits)

definition bracket_ok :: "session_event list \<Rightarrow> bracket_trace \<Rightarrow> bool" where
  "bracket_ok evs tr \<longleftrightarrow>
     bt_turn tr = last_turn evs None \<and>
     (case bt_open tr of
        None \<Rightarrow> True
      | Some c \<Rightarrow> ct_turn c = bt_turn tr \<and> (\<exists>i. opened_at evs i c))"


lemma validate_id_Inr_iff: "validate_id v k = Inr x \<longleftrightarrow> v = Some (JStr x) \<and> x \<noteq> []"
  by (auto simp: validate_id_def split: option.splits json.splits)

lemma validate_owner_Inr_iff:
  "validate_owner owner turn k = Inr u \<longleftrightarrow> owner = Some (owner_json turn)"
  by (auto simp: validate_owner_def owner_json_def split: option.splits)

lemma owner_json_inj [simp]: "owner_json a = owner_json b \<longleftrightarrow> a = b"
  by (auto simp: owner_json_def split: option.splits)

lemma owner_json_null [simp]: "owner_json a = JNull \<longleftrightarrow> a = None" "JNull = owner_json a \<longleftrightarrow> a = None"
  by (auto simp: owner_json_def split: option.splits)

lemma open_bracket_Inr:
  assumes "open_bracket tr kind d = Inr c"
  shows "bt_open tr = Some c" and "data_field d ''compactionId'' = Some (JStr (ct_id c))"
  using assms
  by (auto simp: open_bracket_def and_then_Inr_iff validate_id_Inr_iff split: option.splits if_splits)

lemma validate_start_Inr:
  assumes "validate_start tr n d = Inr x"
  obtains cid cmd where "bt_open tr = None" "data_field d ''compactionId'' = Some (JStr cid)"
    "data_field d ''turn'' = Some (owner_json (bt_turn tr))" "x = StartT cid cmd n (bt_turn tr)"
  using assms
  by (auto simp: validate_start_def and_then_Inr_iff validate_id_Inr_iff validate_owner_Inr_iff
      split: if_splits)

lemma validate_summary_Inr:
  assumes "validate_summary tr d = Inr x"
  obtains c where "bt_open tr = Some c" "ct_turn c = bt_turn tr" "\<not> ct_summarized c"
    "x = SummaryT (ct_id c) (ct_command c) (ct_start c) (ct_turn c)"
proof -
  from assms obtain c where c: "open_bracket tr compaction_summary d = Inr c"
    and own: "validate_owner (Some (owner_json (ct_turn c))) (bt_turn tr) compaction_summary = Inr ()"
    and r: "\<not> ct_summarized c" "x = SummaryT (ct_id c) (ct_command c) (ct_start c) (ct_turn c)"
    by (auto simp: validate_summary_def and_then_Inr_iff Let_def split: if_splits option.splits)
  from own have "ct_turn c = bt_turn tr" by (simp add: validate_owner_Inr_iff)
  with open_bracket_Inr(1) [OF c] r that show ?thesis by blast
qed

lemma validate_end_Inr:
  assumes "validate_end tr d = Inr x"
  obtains c where "bt_open tr = Some c" "data_field d ''compactionId'' = Some (JStr (ct_id c))"
    "data_field d ''turn'' = Some (owner_json (ct_turn c))"
    "data_field d ''error'' = None \<Longrightarrow> ct_summarized c" "x = EndT"
proof -
  from assms obtain c where c: "open_bracket tr compaction_end d = Inr c"
    and r: "data_field d ''turn'' = Some (owner_json (ct_turn c))"
      "data_field d ''error'' = None \<longrightarrow> ct_summarized c" "x = EndT"
    by (auto simp: validate_end_def and_then_Inr_iff split: if_splits)
  show ?thesis by (rule that [OF open_bracket_Inr [OF c] r(1) _ r(3)]) (simp add: r(2))
qed

lemma live_step_cases [consumes 2, case_names boundary opened summarized ended seeded other]:
  assumes own: "own_type e" and run: "live_bracket_step tr e = Inr tr'"
  obtains
    "is_turn_boundary (ev_data e)" "bt_open tr = None" "tr' = snd (apply_turn_boundary tr (ev_data e))"
  | d cid cmd where "ev_data e = OtherEvent compaction_start d" "bt_open tr = None"
      "data_field d ''compactionId'' = Some (JStr cid)" "data_field d ''turn'' = Some (owner_json (bt_turn tr))"
      "tr' = tr\<lparr>bt_open := Some \<lparr>ct_id = cid, ct_command = cmd, ct_start = ev_seq e,
                 ct_turn = bt_turn tr, ct_summarized = False\<rparr>\<rparr>"
  | d c where "ev_data e = OtherEvent compaction_summary d" "bt_open tr = Some c" "\<not> ct_summarized c"
      "tr' = tr\<lparr>bt_open := Some (c\<lparr>ct_summarized := True\<rparr>)\<rparr>"
  | d c where "ev_data e = OtherEvent compaction_end d" "bt_open tr = Some c"
      "data_field d ''compactionId'' = Some (JStr (ct_id c))"
      "data_field d ''turn'' = Some (owner_json (ct_turn c))"
      "data_field d ''error'' = None \<longrightarrow> ct_summarized c" "tr' = tr\<lparr>bt_open := None\<rparr>"
  | "ev_data e = EndSeed" "tr' = tr\<lparr>bt_open := None\<rparr>"
  | "\<not> is_turn_boundary (ev_data e)" "\<not> is_bracket_type (event_type (ev_data e))" "tr' = tr"
proof -
  from run [unfolded live_step_is_seed_step [OF own] seed_step_nil] obtain u x
    where u: "validate_turn_boundary tr e = Inr u" and x: "validate_compaction_event tr e = Inr x"
      and tr': "tr' = snd (apply_turn_boundary (apply_staged x tr) (ev_data e))"
    by (auto simp: and_then_Inr_iff)
  note staged = validated_staged [OF own x]
  show ?thesis
  proof (cases "is_turn_boundary (ev_data e)")
    case True
    with u have "bt_open tr = None" by (auto simp: validate_turn_boundary_def split: if_splits)
    moreover from True staged have "x = None"
      by (auto simp: is_turn_boundary_def is_bracket_type_def compaction_types)
    ultimately show ?thesis using True tr' that(1) by (simp add: apply_staged_def)
  next
    case no_turn: False
    then have tr': "tr' = apply_staged x tr"
      using tr' by (cases "ev_data e") (simp_all add: is_turn_boundary_def)
    show ?thesis
    proof (cases "is_bracket_type (event_type (ev_data e))")
      case False
      with staged tr' no_turn that(6) show ?thesis by (simp add: apply_staged_def)
    next
      case True
      with no_turn own consider (p) t d where "ev_data e = OtherEvent t d"
          "t = compaction_start \<or> t = compaction_summary \<or> t = compaction_end" | (q) "ev_data e = EndSeed"
        by (cases "ev_data e") (auto simp: is_bracket_type_def own_type_def compaction_types)
      then show ?thesis
      proof cases
        case q
        with x have "x = Some EndSeedT" by (simp add: validate_compaction_event_def)
        with q tr' that(5) show ?thesis by (simp add: apply_staged_def)
      next
        case p
        from p(2) show ?thesis
        proof (elim disjE)
          assume t: "t = compaction_start"
          with p x obtain y where "validate_start tr (ev_seq e) d = Inr y" "x = Some y"
            by (auto simp: validate_compaction_event_def and_then_Inr_iff)
          with p t tr' show ?thesis by (elim validate_start_Inr) (rule that(2), auto simp: apply_staged_def)
        next
          assume t: "t = compaction_summary"
          with p x obtain y where "validate_summary tr d = Inr y" "x = Some y"
            by (auto simp: validate_compaction_event_def and_then_Inr_iff)
          with p t tr' show ?thesis by (elim validate_summary_Inr) (rule that(3), auto simp: apply_staged_def)
        next
          assume t: "t = compaction_end"
          with p x obtain y where "validate_end tr d = Inr y" "x = Some y"
            by (auto simp: validate_compaction_event_def and_then_Inr_iff)
          with p t tr' show ?thesis by (elim validate_end_Inr) (rule that(4), auto simp: apply_staged_def)
        qed
      qed
    qed
  qed
qed

lemma opened_at_other:
  "opened_at evs i c \<Longrightarrow> \<not> cuts_bracket e \<Longrightarrow> \<not> is_summary_event e \<Longrightarrow> opened_at (evs @ [e]) i c"
  by (auto simp: opened_at_def nth_append)

lemma opened_at_summary:
  "opened_at evs i c \<Longrightarrow> \<not> cuts_bracket e \<Longrightarrow> is_summary_event e \<Longrightarrow> \<not> ct_summarized c \<Longrightarrow>
   opened_at (evs @ [e]) i (c\<lparr>ct_summarized := True\<rparr>)"
  by (auto simp: opened_at_def nth_append)

lemma bracket_ok_step:
  assumes ok: "bracket_ok evs tr" and own: "own_type e" and run: "live_bracket_step tr e = Inr tr'"
  shows "bracket_ok (evs @ [e]) tr'"
  using own run
proof (cases rule: live_step_cases)
  case boundary
  with ok show ?thesis
    by (cases "ev_data e") (auto simp: bracket_ok_def last_turn_snoc is_turn_boundary_def)
next
  case (opened d cid cmd)
  with ok have "opened_at (evs @ [e]) (length evs) \<lparr>ct_id = cid, ct_command = cmd, ct_start = ev_seq e,
                 ct_turn = bt_turn tr, ct_summarized = False\<rparr>"
    by (auto simp: opened_at_def)
  with opened ok show ?thesis by (auto simp: bracket_ok_def last_turn_snoc)
next
  case (summarized d c)
  with ok opened_at_summary [of evs _ c e] show ?thesis
    by (auto simp: bracket_ok_def last_turn_snoc cuts_bracket_def is_summary_event_def compaction_types)
next
  case (ended d c)
  with ok show ?thesis by (auto simp: bracket_ok_def last_turn_snoc)
next
  case seeded
  with ok show ?thesis by (auto simp: bracket_ok_def last_turn_snoc)
next
  case other
  then have "\<not> cuts_bracket e" "\<not> is_summary_event e"
    by (auto simp: cuts_bracket_def is_summary_event_def is_bracket_type_def is_turn_boundary_def)
  moreover have "last_turn (evs @ [e]) None = last_turn evs None"
    using other(1) by (cases "ev_data e") (auto simp: last_turn_snoc is_turn_boundary_def)
  ultimately show ?thesis using ok other opened_at_other [of evs _ _ e]
    by (auto simp: bracket_ok_def split: option.splits)
qed

lemma live_brackets_ok:
  "\<forall>e \<in> set evs. own_type e \<Longrightarrow> live_brackets fresh_bracket_trace evs = Inr tr \<Longrightarrow> bracket_ok evs tr"
proof (induction evs arbitrary: tr rule: rev_induct)
  case Nil
  then show ?case by (auto simp: bracket_ok_def fresh_bracket_trace_def)
next
  case (snoc e evs)
  then show ?case by (auto simp: live_brackets_snoc and_then_Inr_iff intro: bracket_ok_step)
qed

theorem ends_close_their_start:
  assumes own: "\<forall>e \<in> set evs. own_type e" and run: "live_brackets fresh_bracket_trace evs = Inr tr"
    and k: "k < length evs" "ev_data (evs ! k) = OtherEvent compaction_end d"
  shows "\<exists>i < k. \<exists>d'. ev_data (evs ! i) = OtherEvent compaction_start d' \<and>
    data_field d' ''compactionId'' = data_field d ''compactionId'' \<and>
    data_field d' ''turn'' = data_field d ''turn'' \<and>
    filter cuts_bracket (drop (Suc i) (take k evs)) = [] \<and>
    length (filter is_summary_event (drop (Suc i) (take k evs))) \<le> 1 \<and>
    (data_field d ''error'' = None \<longrightarrow> filter is_summary_event (drop (Suc i) (take k evs)) \<noteq> [])"
proof -
  from run id_take_nth_drop [OF k(1)]
  have "live_brackets fresh_bracket_trace (take k evs @ evs ! k # drop (Suc k) evs) = Inr tr" by simp
  then obtain t where t: "live_brackets fresh_bracket_trace (take k evs) = Inr t"
    and rest: "live_brackets t (evs ! k # drop (Suc k) evs) = Inr tr"
    unfolding live_brackets_append and_then_Inr_iff by blast
  from rest obtain t' where step: "live_bracket_step t (evs ! k) = Inr t'" by (auto simp: and_then_Inr_iff)
  from own t have ok: "bracket_ok (take k evs) t" by (intro live_brackets_ok) (auto dest: in_set_takeD)
  from own k(1) have "own_type (evs ! k)" by simp
  from this step obtain c where c: "bt_open t = Some c" "data_field d ''compactionId'' = Some (JStr (ct_id c))"
      "data_field d ''turn'' = Some (owner_json (ct_turn c))" "data_field d ''error'' = None \<longrightarrow> ct_summarized c"
    using k(2) by (cases rule: live_step_cases) (auto simp: is_turn_boundary_def is_bracket_type_def compaction_types)
  from ok c(1) obtain i where i: "opened_at (take k evs) i c" by (auto simp: bracket_ok_def)
  with k(1) have "i < k" by (auto simp: opened_at_def)
  with i c show ?thesis
    by (intro exI [of _ i]) (auto simp: opened_at_def split: if_splits)
qed


text \<open>A compaction inside a turn.\<close>

definition sample_bracket_log :: "session_event list" where
  "sample_bracket_log =
     [plain_event 0 0 (TurnStart 1),
      plain_event 1 0 (OtherEvent compaction_start
        (JObj [(''compactionId'', JStr ''k''), (''turn'', jint 1)])),
      plain_event 2 0 (OtherEvent compaction_summary
        (JObj [(''compactionId'', JStr ''k''), (''shadowedRange'', JObj [(''start'', jint 4), (''end'', jint 7)]),
               (''shadowedSeqs'', JArr [jint 4, jint 7]), (''shadowedTokenCount'', jint 9)])),
      plain_event 3 0 (OtherEvent compaction_end
        (JObj [(''compactionId'', JStr ''k''), (''turn'', jint 1)])),
      plain_event 4 0 (TurnEnd 1 Completed)]"

lemma sample_bracket_log_own: "\<forall>e \<in> set sample_bracket_log. own_type e"
  by (simp add: sample_bracket_log_def own_type_def compaction_types)

lemma sample_bracket_log_live: "live_brackets fresh_bracket_trace sample_bracket_log = Inr fresh_bracket_trace"
  by code_simp

lemma seeding_replays_publication_witness: "seed_brackets sample_bracket_log = Inr fresh_bracket_trace"
  using seeding_replays_publication [OF sample_bracket_log_own sample_bracket_log_live] .

lemma ends_close_their_start_witness:
  "\<exists>i < 3. \<exists>d'. ev_data (sample_bracket_log ! i) = OtherEvent compaction_start d' \<and>
     filter is_summary_event (drop (Suc i) (take 3 sample_bracket_log)) \<noteq> []"
  using ends_close_their_start [OF sample_bracket_log_own sample_bracket_log_live, of 3
      "JObj [(''compactionId'', JStr ''k''), (''turn'', jint 1)]"]
  by (auto simp: sample_bracket_log_def)

end
