(* ===== verification/Block_Assembler.thy ===== *)
theory Block_Assembler
  imports Session_Types
begin

section \<open>Assembling a message from a chunk stream\<close>

text \<open>
  \<^verbatim>\<open>packages/llm/llm/src/assembler.ts\<close>: \<open>push\<close> feeds one chunk, \<open>blocks\<close> reads the content
  assembled so far. The partial blocks are kept in a map by stream index, with the order in
  which the indices were first seen. The second half models the grammar check of
  \<^verbatim>\<open>packages/llm/llm/src/invariant.ts\<close>, which the companion wraps around every provider
  stream.
\<close>

subsection \<open>The assembler\<close>

record partial_block =
  pb_type :: string
  pb_text :: string
  pb_call_id :: "call_id option"
  pb_call_name :: "string option"
  pb_arguments :: string
  pb_block :: "content_block option"

record block_assembler =
  ba_partials :: "int \<rightharpoonup> partial_block"
  ba_order :: "int list"
  ba_usage :: "json option"
  ba_finish :: "finish_reason option"
  ba_replay :: "json option"

definition new_assembler :: block_assembler where
  "new_assembler = \<lparr>ba_partials = Map.empty, ba_order = [], ba_usage = None, ba_finish = None,
     ba_replay = None\<rparr>"

definition fresh_partial :: "string \<Rightarrow> partial_block" where
  "fresh_partial t = \<lparr>pb_type = t, pb_text = [], pb_call_id = None, pb_call_name = None,
     pb_arguments = [], pb_block = None\<rparr>"

definition ensure_partial :: "int \<Rightarrow> string \<Rightarrow> block_assembler \<Rightarrow> partial_block \<times> block_assembler" where
  "ensure_partial i t ba =
     (case ba_partials ba i of
        Some p \<Rightarrow> (p, ba)
      | None \<Rightarrow>
          (fresh_partial t,
           ba\<lparr>ba_partials := (ba_partials ba)(i \<mapsto> fresh_partial t), ba_order := ba_order ba @ [i]\<rparr>))"

text \<open>A change of the partial at an index, ignored once the partial is closed.\<close>

definition update_open ::
  "int \<Rightarrow> string \<Rightarrow> (partial_block \<Rightarrow> partial_block) \<Rightarrow> block_assembler \<Rightarrow> block_assembler"
where
  "update_open i t f ba =
     (case ensure_partial i t ba of
        (p, ba') \<Rightarrow>
          if pb_block p \<noteq> None then ba'
          else ba'\<lparr>ba_partials := (ba_partials ba')(i \<mapsto> f p)\<rparr>)"

fun push_chunk :: "block_assembler \<Rightarrow> stream_chunk \<Rightarrow> block_assembler" where
  "push_chunk ba (BlockStart i t) = snd (ensure_partial i t ba)"
| "push_chunk ba (TextDelta i s) = update_open i ''text'' (\<lambda>p. p\<lparr>pb_text := pb_text p @ s\<rparr>) ba"
| "push_chunk ba (ReasoningDelta i s) =
     update_open i ''reasoning'' (\<lambda>p. p\<lparr>pb_text := pb_text p @ s\<rparr>) ba"
| "push_chunk ba (ToolCallDelta i c n a) =
     update_open i ''tool-call''
       (\<lambda>p. p\<lparr>pb_call_id := Some c,
             pb_call_name := (case n of Some (x # xs) \<Rightarrow> Some (x # xs) | _ \<Rightarrow> pb_call_name p),
             pb_arguments := pb_arguments p @ a\<rparr>) ba"
| "push_chunk ba (BlockEnd i b) = update_open i (block_type b) (\<lambda>p. p\<lparr>pb_block := Some b\<rparr>) ba"
| "push_chunk ba (UsageC u) = ba\<lparr>ba_usage := Some u\<rparr>"
| "push_chunk ba (FinishC r rep) = ba\<lparr>ba_finish := Some r, ba_replay := rep\<rparr>"

definition push_chunks :: "block_assembler \<Rightarrow> stream_chunk list \<Rightarrow> block_assembler" where
  "push_chunks ba cs = foldl push_chunk ba cs"

datatype assembly_error = IncompleteBlock string | NoPartial int

definition assemble_partial :: "partial_block \<Rightarrow> int \<Rightarrow> assembly_error + content_block" where
  "assemble_partial p i =
     (case pb_block p of
        Some b \<Rightarrow> Inr b
      | None \<Rightarrow>
          if pb_type p = ''text'' then Inr (TextB (pb_text p))
          else if pb_type p = ''reasoning'' then Inr (ReasoningB (pb_text p))
          else if pb_type p = ''tool-call'' then
            Inr (ToolCallB (case pb_call_id p of Some c \<Rightarrow> c | None \<Rightarrow> ''call-'' @ string_of_int i)
                   (case pb_call_name p of Some n \<Rightarrow> n | None \<Rightarrow> []) (pb_arguments p))
          else Inl (IncompleteBlock (pb_type p)))"

fun assemble_order :: "(int \<rightharpoonup> partial_block) \<Rightarrow> int list \<Rightarrow> assembly_error + content_block list" where
  "assemble_order ps [] = Inr []"
| "assemble_order ps (i # is) =
     (case ps i of
        None \<Rightarrow> Inl (NoPartial i)
      | Some p \<Rightarrow> and_then (assemble_partial p i) (\<lambda>b. map_sum id ((#) b) (assemble_order ps is)))"

definition finish_of :: "block_assembler \<Rightarrow> finish_reason" where
  "finish_of ba = (case ba_finish ba of Some r \<Rightarrow> r | None \<Rightarrow> FStop)"

definition assembled_blocks :: "block_assembler \<Rightarrow> assembly_error + content_block list" where
  "assembled_blocks ba =
     map_sum id (\<lambda>bs. if finish_of ba = FMaxTokens then filter (\<lambda>b. block_type b \<noteq> ''tool-call'') bs else bs)
       (assemble_order (ba_partials ba) (ba_order ba))"

subsection \<open>What a stream says, block by block\<close>

text \<open>
  The reference: the chunks of one index, the part of them before the block is closed, and
  the block they spell.
\<close>

fun chunk_index :: "stream_chunk \<Rightarrow> int option" where
  "chunk_index (BlockStart i _) = Some i"
| "chunk_index (TextDelta i _) = Some i"
| "chunk_index (ReasoningDelta i _) = Some i"
| "chunk_index (ToolCallDelta i _ _ _) = Some i"
| "chunk_index (BlockEnd i _) = Some i"
| "chunk_index _ = None"

fun closes :: "stream_chunk \<Rightarrow> content_block option" where
  "closes (BlockEnd _ b) = Some b"
| "closes _ = None"

fun chunk_type :: "stream_chunk \<Rightarrow> string" where
  "chunk_type (BlockStart _ t) = t"
| "chunk_type (TextDelta _ _) = ''text''"
| "chunk_type (ReasoningDelta _ _) = ''reasoning''"
| "chunk_type (ToolCallDelta _ _ _ _) = ''tool-call''"
| "chunk_type (BlockEnd _ b) = block_type b"
| "chunk_type _ = []"

fun chunk_text :: "stream_chunk \<Rightarrow> string" where
  "chunk_text (TextDelta _ s) = s"
| "chunk_text (ReasoningDelta _ s) = s"
| "chunk_text _ = []"

fun chunk_arguments :: "stream_chunk \<Rightarrow> string" where
  "chunk_arguments (ToolCallDelta _ _ _ a) = a"
| "chunk_arguments _ = []"

fun chunk_call :: "stream_chunk \<Rightarrow> call_id option" where
  "chunk_call (ToolCallDelta _ c _ _) = Some c"
| "chunk_call _ = None"

fun chunk_name :: "stream_chunk \<Rightarrow> string option" where
  "chunk_name (ToolCallDelta _ _ (Some n) _) = (if n = [] then None else Some n)"
| "chunk_name _ = None"

definition chunks_at :: "int \<Rightarrow> stream_chunk list \<Rightarrow> stream_chunk list" where
  "chunks_at i cs = filter (\<lambda>c. chunk_index c = Some i) cs"

definition last_option :: "'a option list \<Rightarrow> 'a option" where
  "last_option xs = foldl (\<lambda>a x. case x of None \<Rightarrow> a | Some y \<Rightarrow> Some y) None xs"

text \<open>The block of an index from its own chunks: the first \<open>block-end\<close> decides, and otherwise
the deltas, all of which come before it.\<close>

definition spelled_block :: "int \<Rightarrow> stream_chunk list \<Rightarrow> assembly_error + content_block" where
  "spelled_block i cs =
     (case List.map_filter closes cs of
        b # _ \<Rightarrow> Inr b
      | [] \<Rightarrow>
          (let t = chunk_type (hd cs) in
           if t = ''text'' then Inr (TextB (concat (map chunk_text cs)))
           else if t = ''reasoning'' then Inr (ReasoningB (concat (map chunk_text cs)))
           else if t = ''tool-call'' then
             Inr (ToolCallB
                    (case last_option (map chunk_call cs) of Some c \<Rightarrow> c | None \<Rightarrow> ''call-'' @ string_of_int i)
                    (case last_option (map chunk_name cs) of Some n \<Rightarrow> n | None \<Rightarrow> [])
                    (concat (map chunk_arguments cs)))
           else Inl (IncompleteBlock t)))"

text \<open>Indices in the order of their first chunk.\<close>

fun first_seen :: "int list \<Rightarrow> int list" where
  "first_seen [] = []"
| "first_seen (i # is) = i # filter (\<lambda>j. j \<noteq> i) (first_seen is)"

fun in_order :: "('a \<Rightarrow> 'e + 'b) \<Rightarrow> 'a list \<Rightarrow> 'e + 'b list" where
  "in_order f [] = Inr []"
| "in_order f (x # xs) = and_then (f x) (\<lambda>y. map_sum id ((#) y) (in_order f xs))"

fun chunk_finish :: "stream_chunk \<Rightarrow> finish_reason option" where
  "chunk_finish (FinishC r _) = Some r"
| "chunk_finish _ = None"

definition spelled_blocks :: "stream_chunk list \<Rightarrow> assembly_error + content_block list" where
  "spelled_blocks cs =
     map_sum id
       (\<lambda>bs. if last_option (map chunk_finish cs) = Some FMaxTokens
             then filter (\<lambda>b. block_type b \<noteq> ''tool-call'') bs else bs)
       (in_order (\<lambda>i. spelled_block i (chunks_at i cs))
          (first_seen (List.map_filter chunk_index cs)))"


subsection \<open>The assembler computes the reference\<close>

lemma last_option_snoc [simp]:
  "last_option (xs @ [x]) = (case x of None \<Rightarrow> last_option xs | Some y \<Rightarrow> Some y)"
  by (cases x) (simp_all add: last_option_def)

lemma last_option_Nil [simp]: "last_option [] = None"
  by (simp add: last_option_def)

lemma set_first_seen [simp]: "set (first_seen xs) = set xs"
  by (induction xs) auto

lemma distinct_first_seen: "distinct (first_seen xs)"
  by (induction xs) auto

lemma first_seen_snoc:
  "first_seen (xs @ [i]) = (if i \<in> set xs then first_seen xs else first_seen xs @ [i])"
  by (induction xs) auto

lemma chunks_at_snoc:
  "chunks_at i (cs @ [c]) = (if chunk_index c = Some i then chunks_at i cs @ [c] else chunks_at i cs)"
  by (simp add: chunks_at_def)

lemma chunks_at_Nil_iff: "chunks_at i cs = [] \<longleftrightarrow> i \<notin> set (List.map_filter chunk_index cs)"
  by (induction cs) (auto simp: chunks_at_def List.map_filter_simps split: option.splits)

lemma map_filter_snoc:
  "List.map_filter f (xs @ [x]) = List.map_filter f xs @ (case f x of None \<Rightarrow> [] | Some y \<Rightarrow> [y])"
  by (induction xs) (auto simp: List.map_filter_simps split: option.splits)

definition head_option :: "'a list \<Rightarrow> 'a option" where
  "head_option xs = (case xs of [] \<Rightarrow> None | x # _ \<Rightarrow> Some x)"

text \<open>What a partial holds after the chunks of its index.\<close>

definition partial_spells :: "partial_block \<Rightarrow> stream_chunk list \<Rightarrow> bool" where
  "partial_spells p cs \<longleftrightarrow>
     cs \<noteq> [] \<and> pb_type p = chunk_type (hd cs) \<and> pb_block p = head_option (List.map_filter closes cs) \<and>
     (pb_block p = None \<longrightarrow>
        pb_text p = concat (map chunk_text cs) \<and> pb_arguments p = concat (map chunk_arguments cs) \<and>
        pb_call_id p = last_option (map chunk_call cs) \<and> pb_call_name p = last_option (map chunk_name cs))"

fun slot_spells :: "partial_block option \<Rightarrow> stream_chunk list \<Rightarrow> bool" where
  "slot_spells None cs \<longleftrightarrow> cs = []"
| "slot_spells (Some p) cs \<longleftrightarrow> partial_spells p cs"

definition spells :: "block_assembler \<Rightarrow> stream_chunk list \<Rightarrow> bool" where
  "spells ba cs \<longleftrightarrow>
     (\<forall>i. slot_spells (ba_partials ba i) (chunks_at i cs)) \<and>
     ba_order ba = first_seen (List.map_filter chunk_index cs) \<and>
     ba_finish ba = last_option (map chunk_finish cs)"

text \<open>One chunk with an index changes the partial of this index only.\<close>

fun chunk_change :: "stream_chunk \<Rightarrow> partial_block \<Rightarrow> partial_block" where
  "chunk_change (TextDelta i s) = (\<lambda>p. p\<lparr>pb_text := pb_text p @ s\<rparr>)"
| "chunk_change (ReasoningDelta i s) = (\<lambda>p. p\<lparr>pb_text := pb_text p @ s\<rparr>)"
| "chunk_change (ToolCallDelta i c n a) =
       (\<lambda>p. p\<lparr>pb_call_id := Some c,
             pb_call_name := (case n of Some (x # xs) \<Rightarrow> Some (x # xs) | _ \<Rightarrow> pb_call_name p),
             pb_arguments := pb_arguments p @ a\<rparr>)"
| "chunk_change (BlockEnd i b) = (\<lambda>p. p\<lparr>pb_block := Some b\<rparr>)"
| "chunk_change _ = id"

lemma push_chunk_update:
  "chunk_index c = Some i \<Longrightarrow> push_chunk ba c = update_open i (chunk_type c) (chunk_change c) ba"
  by (cases c) (auto simp: update_open_def ensure_partial_def map_upd_triv split: option.splits prod.splits)

lemma chunk_change_spells:
  assumes "partial_spells p cs"
  shows "partial_spells (if pb_block p = None then chunk_change c p else p) (cs @ [c])"
  using assms
  by (cases c)
    (auto simp: partial_spells_def head_option_def map_filter_snoc split: list.splits option.splits)

lemma fresh_spells: "chunk_index c = Some i \<Longrightarrow> partial_spells (chunk_change c (fresh_partial (chunk_type c))) [c]"
  by (cases c)
    (auto simp: partial_spells_def head_option_def fresh_partial_def List.map_filter_simps last_option_def
      split: list.splits option.splits)

lemma update_open_partials:
  "ba_partials (update_open i t f ba) j =
     (if j = i then
        Some (case ba_partials ba i of
                None \<Rightarrow> f (fresh_partial t)
              | Some p \<Rightarrow> if pb_block p = None then f p else p)
      else ba_partials ba j)"
  by (auto simp: update_open_def ensure_partial_def fresh_partial_def split: option.splits)

lemma update_open_rest:
  "ba_order (update_open i t f ba) = (if ba_partials ba i = None then ba_order ba @ [i] else ba_order ba)"
  "ba_finish (update_open i t f ba) = ba_finish ba"
  by (auto simp: update_open_def ensure_partial_def split: option.splits)

lemma push_chunk_spells:
  assumes "spells ba cs"
  shows "spells (push_chunk ba c) (cs @ [c])"
proof (cases "chunk_index c")
  case None
  then show ?thesis using assms
    by (cases c) (auto simp: spells_def chunks_at_snoc map_filter_snoc split: option.splits)
next
  case (Some i)
  then have "chunk_finish c = None" by (cases c) auto
  have seen: "i \<in> set (List.map_filter chunk_index cs) \<longleftrightarrow> ba_partials ba i \<noteq> None"
    using assms chunks_at_Nil_iff [of i cs]
    by (cases "ba_partials ba i") (auto simp: spells_def partial_spells_def dest: spec [of _ i])
  have "slot_spells (ba_partials (push_chunk ba c) j) (chunks_at j (cs @ [c]))" for j
  proof (cases "j = i")
    case True
    show ?thesis
    proof (cases "ba_partials ba i")
      case None
      then have "chunks_at i cs = []"
        using assms by (auto simp: spells_def dest: spec [of _ i])
      with None True Some fresh_spells [OF Some] show ?thesis
        by (simp add: push_chunk_update update_open_partials chunks_at_snoc)
    next
      case (Some p)
      then have "partial_spells p (chunks_at i cs)"
        using assms by (auto simp: spells_def dest: spec [of _ i])
      with Some True \<open>chunk_index c = Some i\<close> chunk_change_spells [of p "chunks_at i cs" c] show ?thesis
        by (simp add: push_chunk_update update_open_partials chunks_at_snoc)
    qed
  next
    case False
    with Some assms show ?thesis
      by (auto simp: push_chunk_update update_open_partials chunks_at_snoc spells_def)
  qed
  with Some assms seen \<open>chunk_finish c = None\<close> show ?thesis
    by (auto simp: spells_def push_chunk_update update_open_rest map_filter_snoc first_seen_snoc)
qed

lemma push_chunks_spells: "spells (push_chunks new_assembler cs) cs"
proof (induction cs rule: rev_induct)
  case Nil
  show ?case by (simp add: push_chunks_def spells_def new_assembler_def chunks_at_def List.map_filter_simps)
next
  case (snoc c cs)
  then show ?case by (simp add: push_chunks_def push_chunk_spells)
qed

lemma assemble_spelled: "partial_spells p cs \<Longrightarrow> assemble_partial p i = spelled_block i cs"
  by (auto simp: partial_spells_def assemble_partial_def spelled_block_def head_option_def Let_def
      split: list.splits)

lemma assemble_order_in_order:
  "(\<forall>i \<in> set is. \<exists>p. ps i = Some p \<and> assemble_partial p i = f i) \<Longrightarrow> assemble_order ps is = in_order f is"
  by (induction "is") auto

lemma assembler_spelled: "assembled_blocks (push_chunks new_assembler cs) = spelled_blocks cs"
proof -
  let ?ba = "push_chunks new_assembler cs"
  note sp = push_chunks_spells [of cs]
  have "\<exists>p. ba_partials ?ba i = Some p \<and> assemble_partial p i = spelled_block i (chunks_at i cs)"
    if "i \<in> set (first_seen (List.map_filter chunk_index cs))" for i
    using sp that chunks_at_Nil_iff [of i cs]
    by (cases "ba_partials ?ba i") (auto simp: spells_def assemble_spelled dest: spec [of _ i])
  then have "assemble_order (ba_partials ?ba) (ba_order ?ba) =
      in_order (\<lambda>i. spelled_block i (chunks_at i cs)) (first_seen (List.map_filter chunk_index cs))"
    using sp by (simp add: spells_def assemble_order_in_order)
  moreover have "finish_of ?ba = FMaxTokens \<longleftrightarrow> last_option (map chunk_finish cs) = Some FMaxTokens"
    using sp by (auto simp: finish_of_def spells_def split: option.splits)
  ultimately show ?thesis by (simp add: assembled_blocks_def spelled_blocks_def)
qed

theorem assembler_reads_block_by_block:
  "assembled_blocks (push_chunks new_assembler cs) = spelled_blocks cs"
  by (rule assembler_spelled)


subsection \<open>The grammar of a provider stream\<close>

text \<open>The locals of \<open>validateStream\<close>; the map of open blocks in insertion order.\<close>

record stream_grammar =
  sg_open :: "(int \<times> string) list"
  sg_usage_seen :: bool
  sg_finished :: bool

datatype stream_fault =
    AfterFinish
  | BadIndex int
  | RepeatedStart int
  | DeltaNotOpen string int "string option"
  | EndNotOpen int
  | EndOfOther int string string
  | UsageTwice
  | FinishWithOpen nat
  | NoFinish

definition new_grammar :: stream_grammar where
  "new_grammar = \<lparr>sg_open = [], sg_usage_seen = False, sg_finished = False\<rparr>"

definition validate_index :: "int \<Rightarrow> stream_fault + unit" where
  "validate_index i = (if \<not> safe_int i \<or> i < 0 then Inl (BadIndex i) else Inr ())"

definition validate_delta :: "(int \<times> string) list \<Rightarrow> int \<Rightarrow> string \<Rightarrow> stream_fault + unit" where
  "validate_delta opn i expected =
     and_then (validate_index i)
       (\<lambda>_. if map_of opn i \<noteq> Some expected then Inl (DeltaNotOpen expected i (map_of opn i)) else Inr ())"

fun is_failed_finish :: "finish_reason \<Rightarrow> bool" where
  "is_failed_finish (FError _) = True"
| "is_failed_finish (FAborted _) = True"
| "is_failed_finish _ = False"

fun grammar_switch :: "stream_grammar \<Rightarrow> stream_chunk \<Rightarrow> stream_fault + stream_grammar" where
  "grammar_switch g (BlockStart i t) =
     and_then (validate_index i)
       (\<lambda>_. if map_of (sg_open g) i \<noteq> None then Inl (RepeatedStart i)
            else Inr (g\<lparr>sg_open := sg_open g @ [(i, t)]\<rparr>))"
| "grammar_switch g (TextDelta i _) = and_then (validate_delta (sg_open g) i ''text'') (\<lambda>_. Inr g)"
| "grammar_switch g (ReasoningDelta i _) =
     and_then (validate_delta (sg_open g) i ''reasoning'') (\<lambda>_. Inr g)"
| "grammar_switch g (ToolCallDelta i _ _ _) =
     and_then (validate_delta (sg_open g) i ''tool-call'') (\<lambda>_. Inr g)"
| "grammar_switch g (BlockEnd i b) =
     and_then (validate_index i)
       (\<lambda>_. case map_of (sg_open g) i of
               None \<Rightarrow> Inl (EndNotOpen i)
             | Some t \<Rightarrow>
                 if block_type b \<noteq> t then Inl (EndOfOther i (block_type b) t)
                 else Inr (g\<lparr>sg_open := filter (\<lambda>(j, _). j \<noteq> i) (sg_open g)\<rparr>))"
| "grammar_switch g (UsageC _) =
     (if sg_usage_seen g then Inl UsageTwice else Inr (g\<lparr>sg_usage_seen := True\<rparr>))"
| "grammar_switch g (FinishC r _) =
     (if sg_open g \<noteq> [] \<and> \<not> is_failed_finish r then Inl (FinishWithOpen (length (sg_open g)))
      else Inr (g\<lparr>sg_finished := True\<rparr>))"

definition grammar_step :: "stream_grammar \<Rightarrow> stream_chunk \<Rightarrow> stream_fault + stream_grammar" where
  "grammar_step g c = (if sg_finished g then Inl AfterFinish else grammar_switch g c)"

text \<open>The chunks the wrapper yields and the fault that ends it, if any.\<close>

fun validate_stream_from ::
  "stream_grammar \<Rightarrow> stream_chunk list \<Rightarrow> stream_chunk list \<times> stream_fault option"
where
  "validate_stream_from g [] = ([], if sg_finished g then None else Some NoFinish)"
| "validate_stream_from g (c # cs) =
     (case grammar_step g c of
        Inl x \<Rightarrow> ([], Some x)
      | Inr g' \<Rightarrow> (case validate_stream_from g' cs of (ys, r) \<Rightarrow> (c # ys, r)))"

definition validate_stream :: "stream_chunk list \<Rightarrow> stream_chunk list \<times> stream_fault option" where
  "validate_stream cs = validate_stream_from new_grammar cs"

text \<open>The state after a list of accepted chunks.\<close>

fun grammar_run :: "stream_grammar \<Rightarrow> stream_chunk list \<Rightarrow> stream_grammar option" where
  "grammar_run g [] = Some g"
| "grammar_run g (c # cs) = (case grammar_step g c of Inl _ \<Rightarrow> None | Inr g' \<Rightarrow> grammar_run g' cs)"

lemma validate_stream_from_None_iff:
  "validate_stream_from g cs = (ys, None) \<longleftrightarrow>
     ys = cs \<and> (\<exists>g'. grammar_run g cs = Some g' \<and> sg_finished g')"
proof (induction cs arbitrary: g ys)
  case (Cons c cs)
  have "validate_stream_from g (c # cs) = (ys, None) \<longleftrightarrow>
      (\<exists>g' zs. grammar_step g c = Inr g' \<and> validate_stream_from g' cs = (zs, None) \<and> ys = c # zs)"
    by (auto split: sum.splits prod.splits)
  then show ?case by (auto simp: Cons.IH split: sum.splits)
qed auto

lemma grammar_run_snoc:
  "grammar_run g (cs @ [c]) = Some g' \<longleftrightarrow>
     (\<exists>h. grammar_run g cs = Some h \<and> grammar_step h c = Inr g')"
  by (induction cs arbitrary: g) (auto split: sum.splits)

text \<open>Every index seen is open or has been closed; after the last chunk none is open.\<close>

definition accounted :: "stream_chunk list \<Rightarrow> stream_grammar \<Rightarrow> bool" where
  "accounted cs g \<longleftrightarrow>
     (\<forall>i. chunks_at i cs \<noteq> [] \<longrightarrow>
        i \<in> fst ` set (sg_open g) \<or> List.map_filter closes (chunks_at i cs) \<noteq> []) \<and>
     (sg_finished g \<longrightarrow>
        (\<exists>r. last_option (map chunk_finish cs) = Some r \<and> (is_failed_finish r \<or> sg_open g = [])))"

lemma accounted_step:
  assumes "accounted cs g" and "grammar_step g c = Inr g'"
  shows "accounted (cs @ [c]) g'"
proof -
  have live: "\<not> sg_finished g" and switch: "grammar_switch g c = Inr g'"
    using assms(2) by (auto simp: grammar_step_def split: if_splits)
  have seen: "i \<in> fst ` set (sg_open g') \<or> List.map_filter closes (chunks_at i (cs @ [c])) \<noteq> []"
    if "chunks_at i (cs @ [c]) \<noteq> []" for i
  proof -
    have "i \<in> fst ` set (sg_open g) \<or> List.map_filter closes (chunks_at i cs) \<noteq> []
        \<or> chunk_index c = Some i"
      using that assms(1) by (auto simp: accounted_def chunks_at_snoc split: if_splits)
    with switch show ?thesis
      by (cases c)
        (force simp: chunks_at_snoc map_filter_snoc and_then_Inr_iff validate_delta_def
          dest: map_of_SomeD split: if_splits option.splits)+
  qed
  moreover have "\<exists>r. last_option (map chunk_finish (cs @ [c])) = Some r \<and> (is_failed_finish r \<or> sg_open g' = [])"
    if "sg_finished g'"
    using switch live that
    by (cases c) (auto simp: and_then_Inr_iff split: if_splits option.splits)
  ultimately show ?thesis by (simp add: accounted_def)
qed

lemma grammar_run_accounted: "grammar_run new_grammar cs = Some g \<Longrightarrow> accounted cs g"
proof (induction cs arbitrary: g rule: rev_induct)
  case Nil
  then show ?case by (auto simp: accounted_def new_grammar_def chunks_at_def)
next
  case (snoc c cs)
  then show ?case by (auto simp: grammar_run_snoc intro: accounted_step)
qed

lemma in_order_Inr: "(\<forall>x \<in> set xs. f x = Inr (g x)) \<Longrightarrow> in_order f xs = Inr (map g xs)"
  by (induction xs) auto

text \<open>
  Claim C35. A provider stream that the grammar check passes to its end, with a finish that
  is no failure, assembles without a throw: every block is the one its first closing chunk
  carried, in the order in which the blocks were started, and tool calls are dropped when
  the finish is the token limit.
\<close>

theorem accepted_stream_assembles:
  assumes "validate_stream cs = (ys, None)"
    and "last_option (map chunk_finish cs) = Some r" and "\<not> is_failed_finish r"
  shows "assembled_blocks (push_chunks new_assembler ys) =
    Inr (filter (\<lambda>b. r = FMaxTokens \<longrightarrow> block_type b \<noteq> ''tool-call'')
           (map (\<lambda>i. hd (List.map_filter closes (chunks_at i cs)))
              (first_seen (List.map_filter chunk_index cs))))"
proof -
  obtain g where ys: "ys = cs" and run: "grammar_run new_grammar cs = Some g" "sg_finished g"
    using assms(1) by (auto simp: validate_stream_def validate_stream_from_None_iff)
  from grammar_run_accounted [OF run(1)] run(2) assms(2,3) have "sg_open g = []"
    by (auto simp: accounted_def)
  with grammar_run_accounted [OF run(1)]
  have closed: "List.map_filter closes (chunks_at i cs) \<noteq> []" if "chunks_at i cs \<noteq> []" for i
    using that by (auto simp: accounted_def)
  have "in_order (\<lambda>i. spelled_block i (chunks_at i cs)) (first_seen (List.map_filter chunk_index cs)) =
      Inr (map (\<lambda>i. hd (List.map_filter closes (chunks_at i cs)))
             (first_seen (List.map_filter chunk_index cs)))"
  proof (rule in_order_Inr, rule ballI)
    fix i assume "i \<in> set (first_seen (List.map_filter chunk_index cs))"
    then have "chunks_at i cs \<noteq> []" by (simp add: chunks_at_Nil_iff)
    from closed [OF this] show
      "spelled_block i (chunks_at i cs) = Inr (hd (List.map_filter closes (chunks_at i cs)))"
      by (auto simp: spelled_block_def split: list.splits)
  qed
  then show ?thesis
    using assms(2) by (cases "r = FMaxTokens") (simp_all add: ys assembler_spelled spelled_blocks_def)
qed

text \<open>A stream of a text block and an interleaved tool call.\<close>

definition sample_stream :: "stream_chunk list" where
  "sample_stream =
     [BlockStart 0 ''text'', TextDelta 0 ''o'', BlockStart 1 ''tool-call'', TextDelta 0 ''k'',
      ToolCallDelta 1 ''c1'' (Some ''run'') ''{}'', BlockEnd 1 (ToolCallB ''c1'' ''run'' ''{}''),
      BlockEnd 0 (TextB ''ok''), FinishC FStop None]"

lemma accepted_stream_assembles_witness:
  "assembled_blocks (push_chunks new_assembler sample_stream) =
     Inr [TextB ''ok'', ToolCallB ''c1'' ''run'' ''{}'']"
proof -
  have "validate_stream sample_stream = (sample_stream, None)"
    by (simp add: sample_stream_def validate_stream_def new_grammar_def grammar_step_def
        validate_index_def validate_delta_def safe_int_def max_safe_def)
  moreover have "last_option (map chunk_finish sample_stream) = Some FStop"
    by (simp add: sample_stream_def last_option_def)
  moreover note accepted_stream_assembles [of sample_stream sample_stream FStop]
  ultimately show ?thesis
    by (simp add: sample_stream_def chunks_at_def List.map_filter_simps)
qed

end
