(* ===== verification/Token_Meter.thy ===== *)
theory Token_Meter
  imports Session_Surface Request_Header Block_Assembler
begin

section \<open>The token meter\<close>

text \<open>
  \<^verbatim>\<open>packages/llm/token-meter/src\<close>: the fixed-density estimator (\<open>estimate.ts\<close>), the priced
  surface (\<open>surface-fold.ts\<close>) and the replay-aware meter (\<open>index.ts\<close>), which keeps one
  state per session and catches up with the log at every reading. Prices are numbers of
  tokens far below \<open>2 ^ 53\<close>, where doubles are exact, so they are rationals. JavaScript's
  text of a number is an argument, \<open>num\<close>.
\<close>

subsection \<open>JSON text\<close>

definition hex_digit :: "nat \<Rightarrow> char" where
  "hex_digit k = (if k < 10 then char_of (48 + k) else char_of (87 + k))"

text \<open>\<open>JSON.stringify\<close> of one code unit below 256.\<close>

definition json_char :: "char \<Rightarrow> string" where
  "json_char c =
     (let k = of_char c :: nat in
      if k = 34 then [char_of (92 :: nat), char_of (34 :: nat)]
      else if k = 92 then [char_of (92 :: nat), char_of (92 :: nat)]
      else if k = 8 then char_of (92 :: nat) # ''b''
      else if k = 9 then char_of (92 :: nat) # ''t''
      else if k = 10 then char_of (92 :: nat) # ''n''
      else if k = 12 then char_of (92 :: nat) # ''f''
      else if k = 13 then char_of (92 :: nat) # ''r''
      else if k < 32 then char_of (92 :: nat) # ''u00'' @ [hex_digit (k div 16), hex_digit (k mod 16)]
      else [c])"

definition json_quote :: "string \<Rightarrow> string" where
  "json_quote s = [char_of (34 :: nat)] @ concat (map json_char s) @ [char_of (34 :: nat)]"

fun comma_join :: "string list \<Rightarrow> string" where
  "comma_join [] = []"
| "comma_join [s] = s"
| "comma_join (s # t # ts) = s @ '','' @ comma_join (t # ts)"

fun json_text :: "(rat \<Rightarrow> string) \<Rightarrow> json \<Rightarrow> string" where
  "json_text num JNull = ''null''"
| "json_text num (JBool b) = (if b then ''true'' else ''false'')"
| "json_text num (JNum q) = num q"
| "json_text num (JStr s) = json_quote s"
| "json_text num (JArr xs) = ''['' @ comma_join (map (json_text num) xs) @ '']''"
| "json_text num (JObj kvs) =
     ''{'' @ comma_join (map (\<lambda>kv. json_quote (fst kv) @ '':'' @ json_text num (snd kv)) kvs) @ ''}''"

fun block_json :: "content_block \<Rightarrow> json" where
  "block_json (TextB x) = JObj [(''type'', JStr ''text''), (''text'', JStr x)]"
| "block_json (ReasoningB x) = JObj [(''type'', JStr ''reasoning''), (''text'', JStr x)]"
| "block_json (ImageB a) = JObj [(''type'', JStr ''image''), (''attachment'', a)]"
| "block_json (ToolCallB c n x) =
     JObj [(''type'', JStr ''tool-call''), (''id'', JStr c), (''name'', JStr n), (''arguments'', JStr x)]"
| "block_json (ToolResultB c bs err) =
     JObj ([(''type'', JStr ''tool-result''), (''toolCallId'', JStr c), (''content'', JArr (map block_json bs))]
       @ (case err of None \<Rightarrow> [] | Some b \<Rightarrow> [(''isError'', JBool b)]))"
| "block_json (OtherB t j) = (case j of JObj kvs \<Rightarrow> JObj ((''type'', JStr t) # kvs) | _ \<Rightarrow> j)"

definition blocks_json :: "content_block list \<Rightarrow> json" where
  "blocks_json bs = JArr (map block_json bs)"

subsection \<open>Prices\<close>

text \<open>\<open>Math.ceil(length / CHARS_PER_TOKEN)\<close>; the block and role overheads are 4.\<close>

definition density :: "string \<Rightarrow> nat" where
  "density s = (length s + 3) div 4"

definition block_overhead :: nat where
  "block_overhead = 4"

definition role_overhead :: nat where
  "role_overhead = 4"

fun estimate_block :: "(rat \<Rightarrow> string) \<Rightarrow> content_block \<Rightarrow> nat" where
  "estimate_block num (TextB s) = density s + block_overhead"
| "estimate_block num (ReasoningB s) = density s + block_overhead"
| "estimate_block num (ToolCallB c n a) = density n + density a + block_overhead"
| "estimate_block num (ToolResultB c bs e) = sum_list (map (estimate_block num) bs) + block_overhead"
| "estimate_block num (ImageB a) = block_overhead + density (json_text num (block_json (ImageB a)))"
| "estimate_block num (OtherB t j) = block_overhead + density (json_text num (block_json (OtherB t j)))"

definition estimate_content :: "(rat \<Rightarrow> string) \<Rightarrow> content_block list \<Rightarrow> nat" where
  "estimate_content num bs = sum_list (map (estimate_block num) bs)"

text \<open>The content of a message; a tool result message carries one tool-result block.\<close>

fun message_content :: "message \<Rightarrow> content_block list" where
  "message_content (UserM m) = um_content m"
| "message_content (AssistantM m) = am_content m"
| "message_content (ToolResultM m) = [ToolResultB (trm_tool_call m) (trm_content m) (trm_is_error m)]"

definition estimate_message :: "(rat \<Rightarrow> string) \<Rightarrow> message \<Rightarrow> nat" where
  "estimate_message num m = estimate_content num (message_content m) + role_overhead"

definition estimate_system_tokens :: "epoch_header option \<Rightarrow> nat" where
  "estimate_system_tokens h =
     (case Option.bind h eh_system of None \<Rightarrow> 0 | Some s \<Rightarrow> density s + role_overhead)"

definition estimate_tools_tokens :: "(rat \<Rightarrow> string) \<Rightarrow> epoch_header option \<Rightarrow> nat" where
  "estimate_tools_tokens num h =
     (case Option.bind h eh_tools of
        None \<Rightarrow> 0
      | Some ts \<Rightarrow> if ts = [] then 0 else density (json_text num (JArr ts)) + block_overhead)"

definition estimate_header :: "(rat \<Rightarrow> string) \<Rightarrow> epoch_header option \<Rightarrow> nat" where
  "estimate_header num h = estimate_system_tokens h + estimate_tools_tokens num h"

subsection \<open>The priced surface\<close>

record priced_node =
  pn_seq :: int
  pn_tokens :: rat

record surface_token_fold =
  sf_tokens :: rat
  sf_nodes :: "priced_node list"
  sf_delta :: rat

datatype meter_error =
    MeterBadRange int
  | MeterStepOpen int int int
  | MeterStepEnd int
  | MeterNoStep int
  | MeterSourcesShape int
  | MeterSourceLate int rat
  | MeterSourceRepeats int rat
  | MeterSourceMissing int rat
  | MeterSourceNotChunk int rat
  | MeterSourceOtherStep int rat
  | MeterAssembly assembly_error

fun find_index :: "('a \<Rightarrow> bool) \<Rightarrow> 'a list \<Rightarrow> nat option" where
  "find_index P [] = None"
| "find_index P (x # xs) = (if P x then Some 0 else map_option Suc (find_index P xs))"

definition event_price :: "(rat \<Rightarrow> string) \<Rightarrow> session_event \<Rightarrow> rat" where
  "event_price num e =
     (case derive_event_message (ev_data e) of None \<Rightarrow> 0 | Some m \<Rightarrow> of_nat (estimate_message num m))"

text \<open>The ends \<open>op.start\<close> and \<open>op.end\<close> of a replacement, as logged.\<close>

fun op_end :: "string \<Rightarrow> json option \<Rightarrow> json option" where
  "op_end k (Some (JObj kvs)) = map_of kvs k"
| "op_end k _ = None"

definition node_at :: "priced_node list \<Rightarrow> json option \<Rightarrow> nat option" where
  "node_at ns v = find_index (\<lambda>n. v = Some (jint (pn_seq n))) ns"

definition tokens_of :: "priced_node list \<Rightarrow> rat" where
  "tokens_of ns = sum_list (map pn_tokens ns)"

definition fold_surface_tokens ::
  "(rat \<Rightarrow> string) \<Rightarrow> priced_node list \<Rightarrow> session_event \<Rightarrow> meter_error + surface_token_fold"
where
  "fold_surface_tokens num ns e =
     (let tokens = event_price num e; node = \<lparr>pn_seq = ev_seq e, pn_tokens = tokens\<rparr> in
      if ev_surface_op e = Some (JStr ''append'')
      then Inr \<lparr>sf_tokens = tokens, sf_nodes = ns @ [node], sf_delta = tokens\<rparr>
      else
        (case (node_at ns (op_end ''start'' (ev_surface_op e)), node_at ns (op_end ''end'' (ev_surface_op e))) of
           (Some i, Some j) \<Rightarrow>
             if j < i then Inl (MeterBadRange (ev_seq e))
             else Inr \<lparr>sf_tokens = tokens, sf_nodes = js_splice ns i (j - i + 1) [node],
                       sf_delta = tokens - tokens_of (js_slice ns i (j + 1))\<rparr>
         | _ \<Rightarrow> Inl (MeterBadRange (ev_seq e))))"

subsection \<open>The state of a session and one event\<close>

datatype baseline = NoBaseline | EstimatedBaseline rat | UsageBaseline rat json

fun baseline_tokens :: "baseline \<Rightarrow> rat" where
  "baseline_tokens NoBaseline = 0"
| "baseline_tokens (EstimatedBaseline k) = k"
| "baseline_tokens (UsageBaseline k _) = k"

record measurement_anchor =
  an_header :: "epoch_header option"
  an_surface_tokens :: rat
  an_baseline :: baseline

record meter_state =
  mt_consumed :: nat
  mt_header :: "epoch_header option"
  mt_surface :: "priced_node list"
  mt_surface_tokens :: rat
  mt_step_start :: "(int \<times> int \<times> rat) option"
  mt_anchor :: "measurement_anchor option"

definition fresh_meter :: meter_state where
  "fresh_meter = \<lparr>mt_consumed = 0, mt_header = None, mt_surface = [], mt_surface_tokens = 0,
     mt_step_start = None, mt_anchor = None\<rparr>"

text \<open>The counts of a usage record, typed numbers by its interface; an absent cache count is 0.\<close>

definition usage_count :: "json \<Rightarrow> string \<Rightarrow> rat" where
  "usage_count u k =
     (case u of
        JObj kvs \<Rightarrow> (case map_of kvs k of Some (JNum q) \<Rightarrow> q | _ \<Rightarrow> 0)
      | _ \<Rightarrow> 0)"

definition usage_tokens :: "json \<Rightarrow> rat" where
  "usage_tokens u = usage_count u ''inputTokens'' + usage_count u ''cacheReadTokens''
     + usage_count u ''cacheWriteTokens'' + usage_count u ''outputTokens''"

text \<open>The loop over the cited sources of an assistant message.\<close>

fun source_chunks ::
  "session_event list \<Rightarrow> int \<Rightarrow> int \<Rightarrow> int \<Rightarrow> rat list \<Rightarrow> json list \<Rightarrow> block_assembler \<Rightarrow>
   meter_error + block_assembler"
where
  "source_chunks evs n turn step seen [] ba = Inr ba"
| "source_chunks evs n turn step seen (JNum q # vs) ba =
     (if of_int n \<le> q then Inl (MeterSourceLate n q)
      else if q \<in> set seen then Inl (MeterSourceRepeats n q)
      else
        (case (if q = of_int \<lfloor>q\<rfloor> then js_at evs \<lfloor>q\<rfloor> else None) of
           None \<Rightarrow> Inl (MeterSourceMissing n q)
         | Some src \<Rightarrow>
             (case ev_data src of
                AssistantChunk t s c \<Rightarrow>
                  if t \<noteq> turn \<or> s \<noteq> step then Inl (MeterSourceOtherStep n q)
                  else source_chunks evs n turn step (q # seen) vs (push_chunk ba c)
              | _ \<Rightarrow> Inl (MeterSourceNotChunk n q))))"
| "source_chunks evs n turn step seen (v # vs) ba = Inl (MeterSourcesShape n)"

definition estimate_provider_assistant ::
  "(rat \<Rightarrow> string) \<Rightarrow> session_event list \<Rightarrow> session_event \<Rightarrow> int \<Rightarrow> int \<Rightarrow> rat \<Rightarrow> meter_error + rat"
where
  "estimate_provider_assistant num evs e turn step durable =
     (case ev_sources e of
        None \<Rightarrow> Inr durable
      | Some (JArr vs) \<Rightarrow>
          and_then (source_chunks evs (ev_seq e) turn step [] vs new_assembler)
            (\<lambda>ba. case assembled_blocks ba of
                     Inl x \<Rightarrow> Inl (MeterAssembly x)
                   | Inr bs \<Rightarrow>
                       Inr (if bs = [] then 0 else of_nat (estimate_content num bs + role_overhead)))
      | Some _ \<Rightarrow> Inl (MeterSourcesShape (ev_seq e)))"

text \<open>The header and the open step after the event: the \<open>switch\<close> of \<open>_foldEvent\<close>.\<close>

definition next_boundary ::
  "meter_state \<Rightarrow> session_event \<Rightarrow> meter_error + epoch_header option \<times> (int \<times> int \<times> rat) option"
where
  "next_boundary st e =
     (case ev_data e of
        RequestHeader h _ \<Rightarrow> Inr (Some (canonical_header h), mt_step_start st)
      | StepStart t s \<Rightarrow>
          (case mt_step_start st of
             Some (t', s', _) \<Rightarrow> Inl (MeterStepOpen (ev_seq e) t' s')
           | None \<Rightarrow> Inr (mt_header st, Some (t, s, mt_surface_tokens st)))
      | StepEnd t s \<Rightarrow>
          (case mt_step_start st of
             Some (t', s', _) \<Rightarrow>
               if t' \<noteq> t \<or> s' \<noteq> s then Inl (MeterStepEnd (ev_seq e)) else Inr (mt_header st, None)
           | None \<Rightarrow> Inl (MeterStepEnd (ev_seq e)))
      | _ \<Rightarrow> Inr (mt_header st, mt_step_start st))"

text \<open>The surface fold of a surface event; \<open>undefined\<close> otherwise.\<close>

definition next_surface ::
  "(rat \<Rightarrow> string) \<Rightarrow> meter_state \<Rightarrow> session_event \<Rightarrow> meter_error + surface_token_fold option"
where
  "next_surface num st e =
     (if is_surface_event e then map_sum id Some (fold_surface_tokens num (mt_surface st) e) else Inr None)"

definition usage_anchor ::
  "(rat \<Rightarrow> string) \<Rightarrow> epoch_header \<Rightarrow> json \<Rightarrow> rat \<Rightarrow> measurement_anchor"
where
  "usage_anchor num h u surface =
     (let provider = usage_tokens u; estimated = of_nat (estimate_header num (Some h)) + surface in
      \<lparr>an_header = Some h, an_surface_tokens = surface,
       an_baseline = (if estimated \<le> provider then UsageBaseline provider u else EstimatedBaseline estimated)\<rparr>)"

definition estimated_anchor :: "(rat \<Rightarrow> string) \<Rightarrow> epoch_header option \<Rightarrow> rat \<Rightarrow> measurement_anchor" where
  "estimated_anchor num h surface =
     \<lparr>an_header = h, an_surface_tokens = surface,
      an_baseline = EstimatedBaseline (of_nat (estimate_header num h) + surface)\<rparr>"

text \<open>The anchor after the event. An assistant message carries surface metadata at every append.\<close>

definition next_anchor ::
  "(rat \<Rightarrow> string) \<Rightarrow> session_event list \<Rightarrow> meter_state \<Rightarrow> epoch_header option \<Rightarrow> surface_token_fold option \<Rightarrow>
   session_event \<Rightarrow> meter_error + measurement_anchor option"
where
  "next_anchor num evs st h sf e =
     (case ev_data e of
        AssistantMessage turn step _ usage \<Rightarrow>
          (case mt_step_start st of
             None \<Rightarrow> Inl (MeterNoStep (ev_seq e))
           | Some (t, s, start) \<Rightarrow>
               if t \<noteq> turn \<or> s \<noteq> step then Inl (MeterNoStep (ev_seq e))
               else
                 (let tokens = (case sf of Some f \<Rightarrow> sf_tokens f | None \<Rightarrow> 0) in
                  case (usage, h) of
                    (Some u, Some hdr) \<Rightarrow>
                      map_sum id (\<lambda>k. Some (usage_anchor num hdr u (start + k)))
                        (estimate_provider_assistant num evs e turn step tokens)
                  | _ \<Rightarrow> Inr (Some (estimated_anchor num h (start + tokens)))))
      | _ \<Rightarrow> Inr (mt_anchor st))"

definition fold_meter_event ::
  "(rat \<Rightarrow> string) \<Rightarrow> session_event list \<Rightarrow> meter_state \<Rightarrow> session_event \<Rightarrow> meter_error + meter_state"
where
  "fold_meter_event num evs st e =
     and_then (next_boundary st e)
       (\<lambda>(h, start). and_then (next_surface num st e)
       (\<lambda>sf. and_then (next_anchor num evs st h sf e)
       (\<lambda>anchor. Inr
          (st\<lparr>mt_header := h, mt_step_start := start,
              mt_surface := (case sf of None \<Rightarrow> mt_surface st | Some f \<Rightarrow> sf_nodes f),
              mt_surface_tokens := (case sf of None \<Rightarrow> mt_surface_tokens st
                                            | Some f \<Rightarrow> mt_surface_tokens st + sf_delta f),
              mt_anchor := anchor\<rparr>))))"

subsection \<open>Catching up and measuring\<close>

definition meter_step ::
  "(rat \<Rightarrow> string) \<Rightarrow> session_event list \<Rightarrow> nat \<Rightarrow> meter_state \<Rightarrow> session_event \<Rightarrow> meter_error + meter_state"
where
  "meter_step num evs i st e =
     map_sum id (\<lambda>st'. st'\<lparr>mt_consumed := mt_consumed st' + 1\<rparr>) (fold_meter_event num evs st e)"

text \<open>\<open>_sync\<close>: the state of a session no one has read yet is made fresh; a throw keeps what was
folded before the malformed event.\<close>

definition sync_meter ::
  "(rat \<Rightarrow> string) \<Rightarrow> session_event list \<Rightarrow> meter_state option \<Rightarrow> meter_error option \<times> meter_state"
where
  "sync_meter num evs slot =
     (let st = (case slot of None \<Rightarrow> fresh_meter | Some st \<Rightarrow> st) in
      case run_log (meter_step num) evs (mt_consumed st) st (drop (mt_consumed st) evs) of
        (r, _, st') \<Rightarrow> (r, st'))"

definition optional_header_equals :: "epoch_header option \<Rightarrow> epoch_header option \<Rightarrow> bool" where
  "optional_header_equals a b =
     (case (a, b) of (Some x, Some y) \<Rightarrow> header_equals x y | (None, None) \<Rightarrow> True | _ \<Rightarrow> False)"

record measurement =
  ms_revision :: nat
  ms_baseline :: baseline
  ms_delta :: rat
  ms_total :: rat
  ms_surface_tokens :: rat
  ms_nodes :: "priced_node list"

definition read_meter :: "(rat \<Rightarrow> string) \<Rightarrow> meter_state \<Rightarrow> epoch_header option \<Rightarrow> measurement" where
  "read_meter num st request =
     (let header = (case request of None \<Rightarrow> mt_header st | Some h \<Rightarrow> Some (canonical_header h));
          (base, delta) =
            (case mt_anchor st of
               Some a \<Rightarrow>
                 if optional_header_equals (an_header a) header
                 then (an_baseline a, mt_surface_tokens st - an_surface_tokens a)
                 else if header = None \<and> mt_surface_tokens st = 0 then (NoBaseline, 0)
                 else (EstimatedBaseline (of_nat (estimate_header num header) + mt_surface_tokens st), 0)
             | None \<Rightarrow>
                 if header = None \<and> mt_surface_tokens st = 0 then (NoBaseline, 0)
                 else (EstimatedBaseline (of_nat (estimate_header num header) + mt_surface_tokens st), 0))
      in \<lparr>ms_revision = mt_consumed st, ms_baseline = base, ms_delta = delta,
          ms_total = max 0 (baseline_tokens base + delta), ms_surface_tokens = mt_surface_tokens st,
          ms_nodes = mt_surface st\<rparr>)"

definition meter_measure ::
  "(rat \<Rightarrow> string) \<Rightarrow> session_event list \<Rightarrow> epoch_header option \<Rightarrow> meter_state option \<Rightarrow>
   (meter_error + measurement) \<times> meter_state option"
where
  "meter_measure num evs request slot =
     (case sync_meter num evs slot of
        (Some x, st) \<Rightarrow> (Inl x, Some st)
      | (None, st) \<Rightarrow> (Inr (read_meter num st request), Some st))"

text \<open>The observer of \<open>session/event\<close>: it catches up only for a session someone has read.\<close>

definition meter_observe ::
  "(rat \<Rightarrow> string) \<Rightarrow> session_event list \<Rightarrow> meter_state option \<Rightarrow> meter_error option \<times> meter_state option"
where
  "meter_observe num evs slot =
     (case slot of
        None \<Rightarrow> (None, None)
      | Some st \<Rightarrow> (case sync_meter num evs (Some st) of (r, st') \<Rightarrow> (r, Some st')))"

subsection \<open>The meter is the replay of the log\<close>

text \<open>
  Cited sources are earlier events, so an event of a contiguous log is folded from the log
  before it.
\<close>

lemma js_at_take: "i < int k \<Longrightarrow> js_at (take k xs) i = js_at xs i"
  by (auto simp: js_at_def)

lemma source_chunks_take:
  "n \<le> int k \<Longrightarrow> source_chunks (take k evs) n turn step seen vs ba = source_chunks evs n turn step seen vs ba"
proof (induction vs arbitrary: seen ba)
  case (Cons v vs)
  show ?case
  proof (cases v)
    case (JNum q)
    have "js_at (take k evs) \<lfloor>q\<rfloor> = js_at evs \<lfloor>q\<rfloor>" if "q < of_int n"
      using that Cons.prems by (intro js_at_take) (meson floor_less_iff less_le_trans of_int_le_iff)
    with JNum Cons show ?thesis
      by (auto simp: not_le split: option.splits event_data.splits)
  qed simp_all
qed simp

lemma estimate_provider_take:
  "ev_seq e \<le> int k \<Longrightarrow>
   estimate_provider_assistant num (take k evs) e t s d = estimate_provider_assistant num evs e t s d"
  by (simp add: estimate_provider_assistant_def source_chunks_take split: option.splits json.splits)

lemma next_anchor_take:
  "ev_seq e \<le> int k \<Longrightarrow> next_anchor num (take k evs) st h sf e = next_anchor num evs st h sf e"
  by (cases "ev_data e") (auto simp: next_anchor_def estimate_provider_take Let_def split: option.split)

lemma fold_meter_event_take:
  "ev_seq e \<le> int k \<Longrightarrow> fold_meter_event num (take k evs) st e = fold_meter_event num evs st e"
  unfolding fold_meter_event_def
  by (intro and_then_cong refl) (auto simp: next_anchor_take split: prod.split)

text \<open>The step that reads only the log before its event.\<close>

definition earlier_step ::
  "(rat \<Rightarrow> string) \<Rightarrow> session_event list \<Rightarrow> nat \<Rightarrow> meter_state \<Rightarrow> session_event \<Rightarrow> meter_error + meter_state"
where
  "earlier_step num evs i st e = meter_step num (take i evs) i st e"

lemma earlier_step_eq: "ev_seq e = int i \<Longrightarrow> earlier_step num evs i st e = meter_step num evs i st e"
  by (simp add: earlier_step_def meter_step_def fold_meter_event_take)

lemma run_earlier:
  "(\<forall>k < length es. ev_seq (es ! k) = int (i + k)) \<Longrightarrow>
   run_log (meter_step num) evs i st es = run_log (earlier_step num) evs i st es"
proof (induction es arbitrary: i st)
  case (Cons e es)
  then have "ev_seq e = int i" and "\<forall>k < length es. ev_seq (es ! k) = int (Suc i + k)" by fastforce+
  with Cons.IH show ?case by (auto simp: earlier_step_eq split: sum.splits)
qed simp

lemma run_earlier_drop:
  "contiguous evs \<Longrightarrow>
   run_log (meter_step num) evs i st (drop i evs) = run_log (earlier_step num) evs i st (drop i evs)"
  by (rule run_earlier) (auto simp: contiguous_def)

text \<open>What every state keeps: totals are sums, headers are canonical, and an anchor is never
below the full heuristic price of its own request.\<close>

definition header_canonical :: "epoch_header option \<Rightarrow> bool" where
  "header_canonical h \<longleftrightarrow> map_option canonical_header h = h"

definition anchor_ok :: "(rat \<Rightarrow> string) \<Rightarrow> measurement_anchor \<Rightarrow> bool" where
  "anchor_ok num a \<longleftrightarrow>
     header_canonical (an_header a) \<and>
     of_nat (estimate_header num (an_header a)) + an_surface_tokens a \<le> baseline_tokens (an_baseline a)"

definition meter_ok :: "(rat \<Rightarrow> string) \<Rightarrow> nat \<Rightarrow> meter_state \<Rightarrow> bool" where
  "meter_ok num i st \<longleftrightarrow>
     mt_consumed st = i \<and> mt_surface_tokens st = tokens_of (mt_surface st) \<and>
     header_canonical (mt_header st) \<and> pred_option (anchor_ok num) (mt_anchor st)"

lemma tokens_of_append [simp]: "tokens_of (xs @ ys) = tokens_of xs + tokens_of ys"
  by (simp add: tokens_of_def)

lemma tokens_of_Cons [simp]: "tokens_of (n # ns) = pn_tokens n + tokens_of ns"
  by (simp add: tokens_of_def)

lemma tokens_of_Nil [simp]: "tokens_of [] = 0"
  by (simp add: tokens_of_def)

lemma find_index_SomeD: "find_index P xs = Some i \<Longrightarrow> i < length xs \<and> P (xs ! i)"
  by (induction xs arbitrary: i) (auto split: if_splits)

lemma tokens_of_splice:
  assumes "i + d \<le> length ns"
  shows "tokens_of (js_splice ns i d ins) = tokens_of ns + tokens_of ins - tokens_of (js_slice ns i (i + d))"
proof -
  have "tokens_of ns = tokens_of (take i ns) + tokens_of (js_slice ns i (i + d)) + tokens_of (drop (i + d) ns)"
    using js_splice_slice [OF assms] by (metis add.assoc tokens_of_append)
  then show ?thesis by (simp add: js_splice_def)
qed

lemma fold_surface_tokens_delta:
  assumes "fold_surface_tokens num ns e = Inr f"
  shows "tokens_of (sf_nodes f) = tokens_of ns + sf_delta f" and "sf_tokens f = event_price num e"
  using assms
  by (auto simp: fold_surface_tokens_def Let_def node_at_def tokens_of_splice
      dest!: find_index_SomeD split: if_splits option.splits)

lemma next_boundary_canonical:
  "next_boundary st e = Inr (h, start) \<Longrightarrow> header_canonical (mt_header st) \<Longrightarrow> header_canonical h"
  by (auto simp: next_boundary_def header_canonical_def canonical_header_idem
      split: event_data.splits option.splits if_splits)

lemma next_anchor_ok:
  "next_anchor num evs st h sf e = Inr a \<Longrightarrow> header_canonical h \<Longrightarrow> pred_option (anchor_ok num) (mt_anchor st) \<Longrightarrow>
   pred_option (anchor_ok num) a"
  by (auto simp: next_anchor_def map_sum_Inr_iff usage_anchor_def estimated_anchor_def anchor_ok_def Let_def
      split: event_data.splits option.splits if_splits prod.splits)

lemma fold_meter_event_Inr:
  assumes "fold_meter_event num evs st e = Inr st'"
  obtains h start sf anchor where "next_boundary st e = Inr (h, start)" "next_surface num st e = Inr sf"
    "next_anchor num evs st h sf e = Inr anchor" "mt_header st' = h" "mt_step_start st' = start"
    "mt_consumed st' = mt_consumed st" "mt_anchor st' = anchor"
    "mt_surface st' = (case sf of None \<Rightarrow> mt_surface st | Some f \<Rightarrow> sf_nodes f)"
    "mt_surface_tokens st' = (case sf of None \<Rightarrow> mt_surface_tokens st | Some f \<Rightarrow> mt_surface_tokens st + sf_delta f)"
  using assms by (auto simp: fold_meter_event_def and_then_Inr_iff)

lemma meter_ok_step:
  assumes "meter_ok num i st" and "meter_step num evs i st e = Inr st''"
  shows "meter_ok num (Suc i) st''"
proof -
  obtain st' where st': "fold_meter_event num evs st e = Inr st'" "st'' = st'\<lparr>mt_consumed := mt_consumed st' + 1\<rparr>"
    using assms(2) by (auto simp: meter_step_def map_sum_Inr_iff)
  from st'(1) show ?thesis
  proof (cases rule: fold_meter_event_Inr)
    case (1 h start sf anchor)
    have "mt_surface_tokens st' = tokens_of (mt_surface st')"
      using assms(1) 1 fold_surface_tokens_delta
      by (auto simp: meter_ok_def next_surface_def map_sum_Inr_iff split: if_splits)
    with assms(1) 1 st'(2) next_boundary_canonical [of st e h start] next_anchor_ok [of num evs st h sf e anchor]
    show ?thesis by (simp add: meter_ok_def)
  qed
qed

interpretation meter_log: log_replay "earlier_step num" fresh_meter "meter_ok num" for num
proof unfold_locales
  show "meter_ok num 0 fresh_meter"
    by (simp add: meter_ok_def fresh_meter_def header_canonical_def)
next
  fix i st evs e st'
  assume "meter_ok num i st" and "earlier_step num evs i st e = Inr st'"
  then show "meter_ok num (Suc i) st'" by (auto simp: earlier_step_def intro: meter_ok_step)
next
  fix i st and evs rest :: "session_event list" and e
  assume "i \<le> length evs"
  then show "earlier_step num (evs @ rest) i st e = earlier_step num evs i st e"
    by (simp add: earlier_step_def)
qed

subsection \<open>Every reading is a fold of the whole log\<close>

definition measure_log ::
  "(rat \<Rightarrow> string) \<Rightarrow> session_event list \<Rightarrow> epoch_header option \<Rightarrow> meter_error + measurement"
where
  "measure_log num evs request =
     (case replay (meter_step num) fresh_meter evs of
        (Some x, _, _) \<Rightarrow> Inl x
      | (None, _, st) \<Rightarrow> Inr (read_meter num st request))"

lemma replay_earlier:
  "contiguous evs \<Longrightarrow> replay (meter_step num) fresh_meter evs = replay (earlier_step num) fresh_meter evs"
  using run_earlier_drop [of evs num 0] by (simp add: replay_def)

definition meter_at :: "(rat \<Rightarrow> string) \<Rightarrow> session_event list \<Rightarrow> meter_state \<Rightarrow> bool" where
  "meter_at num evs st \<longleftrightarrow>
     (\<exists>k \<le> length evs. replay (earlier_step num) fresh_meter (take k evs) = (None, k, st))"

lemma meter_at_fresh: "meter_at num evs fresh_meter"
  unfolding meter_at_def by (rule exI [of _ 0]) simp

lemma meter_at_append: "meter_at num evs st \<Longrightarrow> meter_at num (evs @ rest) st"
  unfolding meter_at_def by (elim exE conjE, rule_tac x = k in exI) simp

lemma sync_meter_at:
  assumes at: "pred_option (meter_at num evs) slot" and "contiguous evs"
  obtains r j st where "sync_meter num evs slot = (r, st)" "meter_at num evs st"
    "replay (earlier_step num) fresh_meter evs = (r, j, st)"
proof -
  define st0 where "st0 = (case slot of None \<Rightarrow> fresh_meter | Some st \<Rightarrow> st)"
  have "meter_at num evs st0"
    using at meter_at_fresh by (cases slot) (auto simp: st0_def)
  then obtain k where k: "k \<le> length evs" "replay (earlier_step num) fresh_meter (take k evs) = (None, k, st0)"
    by (auto simp: meter_at_def)
  then have "mt_consumed st0 = k"
    using meter_log.replay_inv by (fastforce simp: meter_ok_def)
  moreover have "run_log (meter_step num) evs k st0 (drop k evs) = replay (earlier_step num) fresh_meter evs"
    using meter_log.catch_up [OF k(2), of "drop k evs"] run_earlier_drop [OF assms(2)] by simp
  moreover obtain r j st where run: "replay (earlier_step num) fresh_meter evs = (r, j, st)"
    using prod_cases3 by blast
  ultimately have "sync_meter num evs slot = (r, st)"
    by (simp add: sync_meter_def st0_def)
  moreover have "meter_at num evs st"
  proof (cases r)
    case None
    with run meter_log.replay_length have "j = length evs" by blast
    with run None show ?thesis by (auto simp: meter_at_def intro!: exI [of _ j])
  next
    case (Some x)
    with meter_log.replay_stuck [of num evs x j st] run show ?thesis
      by (auto simp: meter_at_def intro!: exI [of _ j])
  qed
  ultimately show ?thesis using run that by blast
qed

lemma sync_meter_keeps:
  "pred_option (meter_at num evs) slot \<Longrightarrow> contiguous evs \<Longrightarrow> sync_meter num evs slot = (r, st) \<Longrightarrow>
   meter_at num evs st"
  by (erule sync_meter_at) auto

lemma sync_meter_keeps_at:
  "meter_at num evs st0 \<Longrightarrow> contiguous evs \<Longrightarrow> sync_meter num evs (Some st0) = (r, st) \<Longrightarrow>
   meter_at num evs st"
  by (rule sync_meter_keeps) auto

text \<open>Readings, observations and appends in any order.\<close>

inductive meter_reach :: "(rat \<Rightarrow> string) \<Rightarrow> session_event list \<Rightarrow> meter_state option \<Rightarrow> bool" for num where
  unread: "meter_reach num evs None"
| measured: "meter_reach num evs slot \<Longrightarrow> meter_measure num evs request slot = (r, slot') \<Longrightarrow>
    meter_reach num evs slot'"
| observed: "meter_reach num evs slot \<Longrightarrow> meter_observe num evs slot = (r, slot') \<Longrightarrow>
    meter_reach num evs slot'"
| appended: "meter_reach num evs slot \<Longrightarrow> meter_reach num (evs @ [e]) slot"

lemma contiguous_butlast: "contiguous (evs @ [e]) \<Longrightarrow> contiguous evs"
  by (simp add: contiguous_snoc)

lemma meter_reach_at: "meter_reach num evs slot \<Longrightarrow> contiguous evs \<Longrightarrow> pred_option (meter_at num evs) slot"
proof (induction rule: meter_reach.induct)
  case (measured evs slot request r slot')
  then show ?case
    by (auto simp: meter_measure_def dest: sync_meter_keeps split: prod.splits option.splits)
next
  case (observed evs slot r slot')
  then show ?case
    by (auto simp: meter_observe_def dest: sync_meter_keeps_at split: prod.splits option.splits)
next
  case (appended evs slot e)
  then show ?case by (cases slot) (auto dest: contiguous_butlast intro: meter_at_append)
qed simp

lemma measure_reachable:
  assumes "meter_reach num evs slot" and "contiguous evs"
  shows "fst (meter_measure num evs request slot) = measure_log num evs request"
proof -
  obtain r j st where "sync_meter num evs slot = (r, st)"
      "replay (earlier_step num) fresh_meter evs = (r, j, st)"
    using sync_meter_at [OF meter_reach_at [OF assms] assms(2)] by metis
  then show ?thesis
    by (cases r) (auto simp: meter_measure_def measure_log_def replay_earlier [OF assms(2)])
qed

text \<open>
  Claim C17. Whatever was read, observed or appended before, a measurement answers what a
  fold of the complete log from the empty state answers; a malformed event fails every later
  reading with the same error.
\<close>

theorem measurement_is_a_fold_of_the_log:
  assumes "meter_reach num evs slot" and "contiguous evs"
  shows "fst (meter_measure num evs request slot) = measure_log num evs request"
  using assms by (rule measure_reachable)

lemma measure_log_Inr:
  assumes "measure_log num evs request = Inr m" and "contiguous evs"
  obtains st where "replay (earlier_step num) fresh_meter evs = (None, length evs, st)"
    "meter_ok num (length evs) st" "m = read_meter num st request"
proof -
  obtain j st where run: "replay (earlier_step num) fresh_meter evs = (None, j, st)" "m = read_meter num st request"
    using assms by (auto simp: measure_log_def replay_earlier split: prod.splits option.splits)
  moreover from run have "j = length evs" using meter_log.replay_length by blast
  ultimately show ?thesis using meter_log.replay_inv that by blast
qed

text \<open>The latest logged header.\<close>

lemma next_boundary_header:
  "next_boundary st e = Inr (h, start) \<Longrightarrow> h = fold_header_from (mt_header st) [e]"
  by (auto simp: next_boundary_def split: event_data.splits option.splits if_splits prod.splits)

lemma earlier_step_Inr:
  assumes "earlier_step num evs i st e = Inr st'"
  obtains st1 where "fold_meter_event num (take i evs) st e = Inr st1"
    "st' = st1\<lparr>mt_consumed := mt_consumed st1 + 1\<rparr>"
  using assms by (auto simp: earlier_step_def meter_step_def map_sum_Inr_iff)

lemma meter_header:
  "replay (earlier_step num) fresh_meter evs = (None, n, st) \<Longrightarrow> mt_header st = fold_request_header evs"
proof (induction rule: meter_log.replay_induct)
  case Nil
  show ?case by (simp add: fresh_meter_def fold_request_header_def)
next
  case (snoc evs e st st')
  from snoc.hyps(3) obtain st1 where st1: "fold_meter_event num (take (length evs) evs) st e = Inr st1"
      "st' = st1\<lparr>mt_consumed := mt_consumed st1 + 1\<rparr>"
    by (rule earlier_step_Inr)
  from st1(1) show ?case
    by (cases rule: fold_meter_event_Inr)
      (use snoc.IH st1(2) in \<open>auto dest!: next_boundary_header simp: fold_request_header_def fold_header_from_append\<close>)
qed

text \<open>The header a measurement is for.\<close>

definition effective_header :: "session_event list \<Rightarrow> epoch_header option \<Rightarrow> epoch_header option" where
  "effective_header evs request =
     (case request of None \<Rightarrow> fold_request_header evs | Some h \<Rightarrow> Some (canonical_header h))"

lemma optional_header_equals_iff:
  "header_canonical a \<Longrightarrow> header_canonical b \<Longrightarrow> optional_header_equals a b \<longleftrightarrow> a = b"
  by (auto simp: header_canonical_def optional_header_equals_def header_equals_iff split: option.splits)

lemma read_meter_bound:
  assumes "meter_ok num k st"
    and "header = (case request of None \<Rightarrow> mt_header st | Some h \<Rightarrow> Some (canonical_header h))"
  shows "of_nat (estimate_header num header) + mt_surface_tokens st \<le> ms_total (read_meter num st request)"
proof -
  have canon: "header_canonical header"
    using assms by (auto simp: meter_ok_def header_canonical_def canonical_header_idem split: option.splits)
  show ?thesis
  proof (cases "mt_anchor st")
    case None
    then show ?thesis
      by (auto simp: read_meter_def Let_def assms(2) [symmetric] estimate_header_def estimate_system_tokens_def
          estimate_tools_tokens_def)
  next
    case (Some a)
    with assms(1) have "anchor_ok num a" by (simp add: meter_ok_def)
    with Some canon show ?thesis
      by (auto simp: read_meter_def Let_def assms(2) [symmetric] anchor_ok_def optional_header_equals_iff
          estimate_header_def estimate_system_tokens_def estimate_tools_tokens_def max_def)
  qed
qed

theorem measurement_is_conservative:
  assumes "meter_reach num evs slot" and "contiguous evs"
    and "fst (meter_measure num evs request slot) = Inr m"
  shows "of_nat (estimate_header num (effective_header evs request)) + tokens_of (ms_nodes m) \<le> ms_total m"
proof -
  from assms(3) have "measure_log num evs request = Inr m"
    by (simp add: measure_reachable [OF assms(1,2)])
  then obtain st where st: "replay (earlier_step num) fresh_meter evs = (None, length evs, st)"
      "meter_ok num (length evs) st" "m = read_meter num st request"
    using assms(2) by (rule measure_log_Inr)
  have "ms_nodes m = mt_surface st"
    by (simp add: st(3) read_meter_def Let_def split: prod.split)
  moreover have "mt_surface_tokens st = tokens_of (mt_surface st)"
    using st(2) by (simp add: meter_ok_def)
  ultimately show ?thesis
    using read_meter_bound [OF st(2) refl, of request] meter_header [OF st(1)]
    by (cases request) (simp_all add: st(3) effective_header_def)
qed

end
