(* ===== verification/Compaction_Region.thy ===== *)
theory Compaction_Region
  imports Tool_Pairing Compaction_Trace Token_Meter
begin

section \<open>The compaction transaction\<close>

text \<open>
  \<^verbatim>\<open>packages/compaction/compaction-basic/src/region.ts\<close>: the choice of a range that keeps a
  recent tail, the checks of a requested range, the durable lock and the transaction that
  replaces the range by one checkpoint message. The code takes the token meter and the
  summarizer as dependencies: they are arguments here. While the summarizer runs, the
  session may change: the transaction is composed of the part before the await, an arbitrary
  operation in between, and the part after it.
\<close>

subsection \<open>Dependencies, requests and outcomes\<close>

record summary_result =
  sr_summary :: "content_block list"
  sr_provider :: string
  sr_model :: string
  sr_max_tokens :: "rat option"
  sr_usage :: "json option"
  sr_raw_output :: "content_block list option"
  sr_stream_call :: bool

record region_dependencies =
  rd_measure :: "session \<Rightarrow> string + measurement"
  rd_estimate :: "user_message \<Rightarrow> rat"

datatype manual_code = ManualBusy | ManualCancelled | ManualChanged | ManualSummary | ManualCommit | ManualPersistence

datatype region_error =
    MeterMismatch
  | MeterThrew string
  | SurfaceThrewR surface_error
  | PairingThrew pairing_error
  | StartMissing int
  | EndMissing int
  | StartAfterEndR int int
  | StartUnbalanced int
  | EndUnbalanced int
  | NoOpenTurn
  | SurfaceChanged
  | NotSmaller rat rat
  | SummarizerThrew string
  | AppendThrew append_error
  | NoEventFor int
  | SignalAborted
  | Manual manual_code "region_error option"
  | FlushThrew
  | NoResult

type_synonym 'a region_op = "(paired_session, region_error, 'a) op"

text \<open>Reading the session through its public views.\<close>

definition surface_nodes :: "int list region_op" where
  "surface_nodes ps =
     (case manager_nodes 0 (ss_log (fst ps)) (ss_surface (fst ps)) of
        (r, sm) \<Rightarrow> (map_sum SurfaceThrewR id r, ((fst ps)\<lparr>ss_surface := sm\<rparr>, snd ps)))"

definition balanced_before :: "int \<Rightarrow> bool region_op" where
  "balanced_before n ps =
     (case tool_pairing_balanced_before n ps of (r, ps') \<Rightarrow> (map_sum PairingThrew id r, ps'))"

definition balanced_after :: "int \<Rightarrow> bool region_op" where
  "balanced_after n ps =
     (case tool_pairing_balanced_after n ps of (r, ps') \<Rightarrow> (map_sum PairingThrew id r, ps'))"

definition session_events :: "session_event list region_op" where
  "session_events ps = (case events_of (fst ps) of (evs, s') \<Rightarrow> (Inr evs, (s', snd ps)))"

definition session_header :: "epoch_header option region_op" where
  "session_header ps = (case request_header (fst ps) of (h, s') \<Rightarrow> (Inr h, (s', snd ps)))"

definition measure_session :: "region_dependencies \<Rightarrow> measurement region_op" where
  "measure_session deps ps = (map_sum MeterThrew id (rd_measure deps (fst ps)), ps)"

definition append_paired :: "append_call \<Rightarrow> session_event region_op" where
  "append_paired call ps =
     (case append_event call (fst ps) of (r, s') \<Rightarrow> (map_sum AppendThrew id r, (s', snd ps)))"

subsection \<open>Choosing a range\<close>

text \<open>
  The loop from the tail: the position of the node at which the tail holds enough tokens,
  or the head. \<open>tail_start nodes k acc retain\<close> has added the nodes from position \<open>k\<close> on.
\<close>

fun tail_start :: "priced_node list \<Rightarrow> nat \<Rightarrow> rat \<Rightarrow> rat \<Rightarrow> nat" where
  "tail_start ns 0 acc retain = 0"
| "tail_start ns (Suc k) acc retain =
     (let acc' = acc + pn_tokens (ns ! k) in
      if acc' \<ge> retain then k else tail_start ns k acc' retain)"

text \<open>The loop back to a balanced cut.\<close>

fun balanced_start :: "int list \<Rightarrow> nat \<Rightarrow> nat region_op" where
  "balanced_start ns 0 = op_lift (Inr 0)"
| "balanced_start ns (Suc k) =
     op_bind (balanced_before (ns ! Suc k))
       (\<lambda>b. if b then op_lift (Inr (Suc k)) else balanced_start ns k)"

definition select_compactable_range :: "measurement \<Rightarrow> rat \<Rightarrow> (int \<times> int) option region_op" where
  "select_compactable_range m retain =
     (let priced = ms_nodes m in
      if priced = [] then op_lift (Inr None)
      else
        op_bind surface_nodes
          (\<lambda>ns. if ns \<noteq> map pn_seq priced then op_lift (Inl MeterMismatch)
            else
              (let k = tail_start priced (length priced) 0 retain in
               if k = 0 then op_lift (Inr None)
               else
                 op_bind (balanced_start ns k)
                   (\<lambda>k'. if k' = 0 then op_lift (Inr None)
                     else op_lift (Inr (Some (ns ! 0, ns ! (k' - 1))))))))"

subsection \<open>The requested range\<close>

record surface_selection =
  sl_start :: int
  sl_end :: int
  sl_start_idx :: nat
  sl_end_idx :: nat
  sl_shadowed :: "int list"

definition validate_surface_region :: "int \<Rightarrow> int \<Rightarrow> surface_selection region_op" where
  "validate_surface_region a b =
     op_bind surface_nodes
       (\<lambda>ns. case index_of a ns of
          None \<Rightarrow> op_lift (Inl (StartMissing a))
        | Some i \<Rightarrow>
            (case index_of b ns of
               None \<Rightarrow> op_lift (Inl (EndMissing b))
             | Some j \<Rightarrow>
                 if j < i then op_lift (Inl (StartAfterEndR a b))
                 else
                   op_bind (balanced_before (ns ! i))
                     (\<lambda>before. if \<not> before then op_lift (Inl (StartUnbalanced a))
                       else
                         op_bind (balanced_after (ns ! j))
                           (\<lambda>after. if \<not> after then op_lift (Inl (EndUnbalanced b))
                             else
                               op_lift (Inr \<lparr>sl_start = a, sl_end = b, sl_start_idx = i, sl_end_idx = j,
                                             sl_shadowed = js_slice ns i (j + 1)\<rparr>)))))"

subsection \<open>The durable lock\<close>

record entry_scan =
  es_turn :: "int option"
  es_turn_known :: bool
  es_start :: "session_event option"
  es_start_known :: bool
  es_seed :: "int option"

definition empty_scan :: entry_scan where
  "empty_scan = \<lparr>es_turn = None, es_turn_known = False, es_start = None, es_start_known = False,
     es_seed = None\<rparr>"

definition scan_seed :: "session_event \<Rightarrow> entry_scan \<Rightarrow> entry_scan" where
  "scan_seed e sc =
     (if es_seed sc = None \<and> ev_data e = EndSeed then sc\<lparr>es_seed := Some (ev_seq e)\<rparr> else sc)"

definition scan_bracket :: "session_event \<Rightarrow> entry_scan \<Rightarrow> entry_scan" where
  "scan_bracket e sc =
     (if es_start_known sc then sc
      else if event_type (ev_data e) = compaction_start then sc\<lparr>es_start := Some e, es_start_known := True\<rparr>
      else if event_type (ev_data e) = compaction_end then sc\<lparr>es_start_known := True\<rparr>
      else sc)"

definition scan_turn :: "session_event \<Rightarrow> entry_scan \<Rightarrow> entry_scan" where
  "scan_turn e sc =
     (if es_turn_known sc then sc
      else
        (case ev_data e of
           TurnStart t \<Rightarrow> sc\<lparr>es_turn := Some t, es_turn_known := True\<rparr>
         | TurnEnd _ _ \<Rightarrow> sc\<lparr>es_turn_known := True\<rparr>
         | _ \<Rightarrow> sc))"

text \<open>The loop over the log from its end, stopped when everything is known.\<close>

fun scan_entries :: "session_event list \<Rightarrow> entry_scan \<Rightarrow> entry_scan" where
  "scan_entries [] sc = sc"
| "scan_entries (e # es) sc =
     (let sc' = scan_turn e (scan_bracket e (scan_seed e sc)) in
      if es_turn_known sc' \<and> es_start_known sc' \<and> es_seed sc' \<noteq> None then sc'
      else scan_entries es sc')"

definition inspect_compaction_entry_state :: "session_event list \<Rightarrow> entry_scan" where
  "inspect_compaction_entry_state evs = scan_entries (rev evs) empty_scan"

definition compaction_inactive :: "entry_scan \<Rightarrow> bool" where
  "compaction_inactive sc \<longleftrightarrow>
     (case es_start sc of
        None \<Rightarrow> True
      | Some e \<Rightarrow> (case es_seed sc of None \<Rightarrow> False | Some n \<Rightarrow> n > ev_seq e))"

definition assert_no_active_compaction :: "unit region_op" where
  "assert_no_active_compaction =
     op_bind session_events
       (\<lambda>evs. op_lift (if compaction_inactive (inspect_compaction_entry_state evs) then Inr ()
                       else Inl (Manual ManualBusy None)))"


subsection \<open>The transaction before the summary\<close>

record transaction_options =
  to_manual :: bool
  to_whole_surface :: bool
  to_command :: "string option"

record transaction_env =
  te_id :: string
  te_message_id :: string
  te_aborted_entry :: bool
  te_aborted_summary :: bool
  te_aborted_exit :: bool
  te_start :: append_env
  te_summary :: append_env
  te_checkpoint :: append_env
  te_end :: append_env
  te_flush :: "bool option"

text \<open>The data of the start and of a successful end.\<close>

definition lifecycle :: "string \<Rightarrow> string option \<Rightarrow> int option \<Rightarrow> json_fields" where
  "lifecycle cid cmd owner =
     [(''compactionId'', JStr cid)] @ optional_field ''sourceCommandId'' cmd
     @ [(''turn'', owner_json owner)]"

definition throw_if :: "bool \<Rightarrow> region_error \<Rightarrow> unit region_op" where
  "throw_if b x = op_lift (if b then Inl x else Inr ())"

definition transaction_owner :: "bool \<Rightarrow> entry_scan \<Rightarrow> region_error + int option" where
  "transaction_owner manual sc =
     (if manual
      then (if es_turn sc \<noteq> None then Inl (Manual ManualBusy None) else Inr None)
      else
        (case es_turn sc of
           None \<Rightarrow> Inl NoOpenTurn
         | Some t \<Rightarrow> Inr (Some t)))"

definition open_transaction ::
  "transaction_options \<Rightarrow> transaction_env \<Rightarrow> int \<Rightarrow> int
    \<Rightarrow> (surface_selection \<times> int option \<times> session_event) region_op"
where
  "open_transaction opts env a b =
     op_bind (throw_if (to_manual opts \<and> te_aborted_entry env) SignalAborted)
     (\<lambda>_. op_bind (validate_surface_region a b)
     (\<lambda>sl. op_bind session_events
     (\<lambda>evs. let sc = inspect_compaction_entry_state evs in
        op_bind (throw_if (\<not> compaction_inactive sc) (Manual ManualBusy None))
     (\<lambda>_. op_bind (op_lift (transaction_owner (to_manual opts) sc))
     (\<lambda>owner. op_bind
        (append_paired (env_call (te_start env)
           (OtherEvent compaction_start (JObj (lifecycle (te_id env) (to_command opts) owner)))
           (None, None)))
     (\<lambda>e. op_lift (Inr (sl, owner, e))))))))"

record summarization_input =
  si_system :: "string option"
  si_tools :: "json list option"
  si_messages :: "message list"

text \<open>\<open>deriveEventMessage(events[seq]!)\<close> over the shadowed sequences, nulls dropped.\<close>

fun region_messages :: "session_event list \<Rightarrow> int list \<Rightarrow> region_error + message list" where
  "region_messages evs [] = Inr []"
| "region_messages evs (n # ns) =
     (case js_at evs n of
        None \<Rightarrow> Inl (NoEventFor n)
      | Some e \<Rightarrow>
          and_then (region_messages evs ns)
            (\<lambda>ms. Inr (case derive_event_message (ev_data e) of None \<Rightarrow> ms | Some m \<Rightarrow> m # ms)))"

definition build_summarization_input :: "int list \<Rightarrow> summarization_input region_op" where
  "build_summarization_input shadowed =
     op_bind session_header
     (\<lambda>h. op_bind session_events
     (\<lambda>evs. op_bind (op_lift (region_messages evs shadowed))
     (\<lambda>ms. op_lift (Inr
        \<lparr>si_system = (case h of None \<Rightarrow> None | Some x \<Rightarrow> eh_system x),
         si_tools = (case h of None \<Rightarrow> None | Some x \<Rightarrow> eh_tools x),
         si_messages = ms\<rparr>))))"

record prepared_compaction =
  pc_selection :: surface_selection
  pc_nodes :: "priced_node list"
  pc_selected :: "priced_node list"
  pc_tokens :: rat
  pc_input :: summarization_input

definition prepare_compaction ::
  "region_dependencies \<Rightarrow> surface_selection \<Rightarrow> prepared_compaction region_op" where
  "prepare_compaction deps sl =
     op_bind (measure_session deps)
     (\<lambda>m. let sel = js_slice (ms_nodes m) (sl_start_idx sl) (sl_end_idx sl + 1) in
        op_bind (throw_if (map pn_seq sel \<noteq> sl_shadowed sl) SurfaceChanged)
     (\<lambda>_. op_bind (build_summarization_input (sl_shadowed sl))
     (\<lambda>inp. op_lift (Inr
        \<lparr>pc_selection = sl, pc_nodes = ms_nodes m, pc_selected = sel,
         pc_tokens = sum_list (map pn_tokens sel), pc_input = inp\<rparr>))))"

subsection \<open>The transaction after the summary\<close>

definition checkpoint_preamble :: string where
  "checkpoint_preamble =
     ''This is an automatically generated checkpoint condensing an earlier span of the conversation to free up context. Treat the captured context as established background and build on it without restating it. Continue the task directly from the messages that follow, without acknowledging this checkpoint.''"

definition frame_summary :: "content_block list \<Rightarrow> content_block list" where
  "frame_summary summary =
     [TextB (checkpoint_preamble @ [CHR 0x0A, CHR 0x0A] @ ''<compacted-summary>'')]
     @ summary @ [TextB ''</compacted-summary>'']"

definition checkpoint_message ::
  "transaction_options \<Rightarrow> transaction_env \<Rightarrow> summary_result \<Rightarrow> user_message" where
  "checkpoint_message opts env sr =
     \<lparr>um_id = te_message_id env, um_content = frame_summary (sr_summary sr),
      um_source = compact_checkpoint_source (te_id env) (to_command opts)\<rparr>"

definition summarize_compaction ::
  "region_dependencies \<Rightarrow> transaction_options \<Rightarrow> transaction_env \<Rightarrow> prepared_compaction
    \<Rightarrow> string + summary_result \<Rightarrow> region_error + summary_result \<times> user_message"
where
  "summarize_compaction deps opts env pc outcome =
     and_then (map_sum SummarizerThrew id outcome)
       (\<lambda>sr. let m = checkpoint_message opts env sr; framed = rd_estimate deps m in
          if framed \<ge> pc_tokens pc then Inl (NotSmaller framed (pc_tokens pc))
          else Inr (sr, m))"

definition assert_whole_surface_unchanged ::
  "region_dependencies \<Rightarrow> prepared_compaction \<Rightarrow> unit region_op" where
  "assert_whole_surface_unchanged deps pc =
     op_bind (measure_session deps)
       (\<lambda>m. throw_if (ms_nodes m \<noteq> pc_nodes pc) SurfaceChanged)"

definition assert_selected_span_stable ::
  "region_dependencies \<Rightarrow> prepared_compaction \<Rightarrow> unit region_op" where
  "assert_selected_span_stable deps pc ps =
     (case validate_surface_region (sl_start (pc_selection pc)) (sl_end (pc_selection pc)) ps of
        (Inl _, ps') \<Rightarrow> (Inl SurfaceChanged, ps')
      | (Inr cur, ps') \<Rightarrow>
          op_bind (throw_if (sl_shadowed cur \<noteq> sl_shadowed (pc_selection pc)) SurfaceChanged)
          (\<lambda>_. op_bind (measure_session deps)
          (\<lambda>m. throw_if (js_slice (ms_nodes m) (sl_start_idx cur) (sl_end_idx cur + 1) \<noteq> pc_selected pc)
                 SurfaceChanged)) ps')"

definition call_provenance :: "summary_result \<Rightarrow> json_fields" where
  "call_provenance sr =
     (case sr_raw_output sr of None \<Rightarrow> [] | Some bs \<Rightarrow> [(''rawOutput'', blocks_json bs)])
     @ (if sr_stream_call sr then [(''llmStreamCall'', JBool True)] else [])"

definition summary_data ::
  "transaction_options \<Rightarrow> transaction_env \<Rightarrow> prepared_compaction \<Rightarrow> summary_result \<Rightarrow> json_fields" where
  "summary_data opts env pc sr =
     [(''compactionId'', JStr (te_id env))] @ optional_field ''sourceCommandId'' (to_command opts)
     @ [(''summary'', blocks_json (sr_summary sr))] @ call_provenance sr
     @ [(''shadowedRange'', JObj [(''start'', jint (sl_start (pc_selection pc))), (''end'', jint (sl_end (pc_selection pc)))]),
        (''shadowedSeqs'', JArr (map jint (sl_shadowed (pc_selection pc)))),
        (''shadowedTokenCount'', JNum (pc_tokens pc)),
        (''provider'', JStr (sr_provider sr)), (''model'', JStr (sr_model sr))]
     @ (case sr_max_tokens sr of None \<Rightarrow> [] | Some k \<Rightarrow> [(''maxTokens'', JNum k)])
     @ (case sr_usage sr of None \<Rightarrow> [] | Some u \<Rightarrow> [(''usage'', u)])"

record pending_compaction =
  cr_id :: string
  cr_command :: "string option"
  cr_start_seq :: int
  cr_summary_seq :: int
  cr_summary :: "content_block list"
  cr_range :: "int \<times> int"
  cr_shadowed :: "int list"
  cr_tokens :: rat

record compaction_result = pending_compaction +
  cr_end_seq :: int

definition commit_compaction_body ::
  "transaction_options \<Rightarrow> transaction_env \<Rightarrow> session_event \<Rightarrow> prepared_compaction \<Rightarrow> summary_result
    \<Rightarrow> user_message \<Rightarrow> pending_compaction region_op"
where
  "commit_compaction_body opts env start_event pc sr m =
     (let sl = pc_selection pc in
      op_bind
        (append_paired (env_call (te_summary env)
           (OtherEvent compaction_summary (JObj (summary_data opts env pc sr))) (None, None)))
      (\<lambda>se. op_bind
        (append_paired (env_call (te_checkpoint env) (UserMessage m)
           (replace_meta (sl_start sl) (sl_end sl) ([ev_seq start_event, ev_seq se] @ sl_shadowed sl))))
      (\<lambda>_. op_lift (Inr
         \<lparr>cr_id = te_id env, cr_command = to_command opts, cr_start_seq = ev_seq start_event,
          cr_summary_seq = ev_seq se, cr_summary = sr_summary sr,
          cr_range = (sl_start sl, sl_end sl), cr_shadowed = sl_shadowed sl, cr_tokens = pc_tokens pc\<rparr>))))"

definition complete_compaction :: "pending_compaction \<Rightarrow> session_event \<Rightarrow> compaction_result" where
  "complete_compaction pc e = pending_compaction.extend pc (compaction_result.fields (ev_seq e))"

subsection \<open>The bracket around the attempt\<close>

datatype tx_stage = SummaryStage | CommitStage

text \<open>A failure inside the bracket: the error, the stage, and whether the end was attempted.\<close>

record tx_failure =
  tf_error :: region_error
  tf_stage :: tx_stage
  tf_closing :: bool

definition at_stage ::
  "tx_stage \<Rightarrow> bool \<Rightarrow> 'a region_op \<Rightarrow> (paired_session, tx_failure, 'a) op" where
  "at_stage st closing m ps =
     (case m ps of (r, ps') \<Rightarrow>
        (map_sum (\<lambda>x. \<lparr>tf_error = x, tf_stage = st, tf_closing = closing\<rparr>) id r, ps'))"

definition await_summary :: "(paired_session \<Rightarrow> paired_session) \<Rightarrow> unit region_op" where
  "await_summary between ps = (Inr (), between ps)"

definition assert_stable ::
  "region_dependencies \<Rightarrow> transaction_options \<Rightarrow> prepared_compaction \<Rightarrow> unit region_op" where
  "assert_stable deps opts pc =
     (if to_whole_surface opts then assert_whole_surface_unchanged deps pc
      else assert_selected_span_stable deps pc)"

definition append_end ::
  "transaction_options \<Rightarrow> transaction_env \<Rightarrow> int option \<Rightarrow> json_fields \<Rightarrow> session_event region_op" where
  "append_end opts env owner extra =
     append_paired (env_call (te_end env)
       (OtherEvent compaction_end (JObj (lifecycle (te_id env) (to_command opts) owner @ extra))) (None, None))"

definition attempt_transaction ::
  "region_dependencies \<Rightarrow> transaction_options \<Rightarrow> transaction_env
    \<Rightarrow> (paired_session \<Rightarrow> paired_session) \<Rightarrow> string + summary_result
    \<Rightarrow> surface_selection \<Rightarrow> int option \<Rightarrow> session_event
    \<Rightarrow> (paired_session, tx_failure, compaction_result) op"
where
  "attempt_transaction deps opts env between outcome sl owner start_event =
     op_bind (at_stage SummaryStage False
        (op_bind (prepare_compaction deps sl)
        (\<lambda>pc. op_bind (await_summary between)
        (\<lambda>_. op_bind (op_lift (summarize_compaction deps opts env pc outcome))
        (\<lambda>r. op_bind (throw_if (to_manual opts \<and> te_aborted_summary env) SignalAborted)
        (\<lambda>_. op_bind (assert_stable deps opts pc)
        (\<lambda>_. op_lift (Inr (pc, r)))))))))
     (\<lambda>(pc, sr, m). op_bind (at_stage CommitStage False (commit_compaction_body opts env start_event pc sr m))
     (\<lambda>pending. op_bind (at_stage CommitStage True (append_end opts env owner []))
     (\<lambda>e. op_lift (Inr (complete_compaction pending e)))))"

text \<open>
  The catch: one attempt to write the end with the error, unless the end itself failed.
  The result is the failure that counts, with whether the bracket was closed.
\<close>

definition close_failed ::
  "transaction_options \<Rightarrow> transaction_env \<Rightarrow> (region_error \<Rightarrow> string) \<Rightarrow> int option \<Rightarrow> tx_failure
    \<Rightarrow> paired_session \<Rightarrow> (tx_failure \<times> bool) \<times> paired_session"
where
  "close_failed opts env render owner f ps =
     (if tf_closing f then ((f, False), ps)
      else
        (case append_end opts env owner [(''error'', JStr (render (tf_error f)))] ps of
           (Inr _, ps') \<Rightarrow> ((f, True), ps')
         | (Inl x, ps') \<Rightarrow> ((\<lparr>tf_error = x, tf_stage = CommitStage, tf_closing = True\<rparr>, False), ps')))"

definition manual_failure :: "tx_failure \<Rightarrow> region_error" where
  "manual_failure f =
     (if tf_stage f = CommitStage then Manual ManualCommit (Some (tf_error f))
      else if tf_error f = SurfaceChanged then Manual ManualChanged (Some (tf_error f))
      else Manual ManualSummary (Some (tf_error f)))"

text \<open>What the caller sees, given the outcome and whether the bracket was closed.\<close>

definition transaction_reply ::
  "transaction_options \<Rightarrow> transaction_env \<Rightarrow> bool \<Rightarrow> tx_failure + compaction_result
    \<Rightarrow> region_error + compaction_result"
where
  "transaction_reply opts env was_closed r =
     (if to_manual opts \<and> te_aborted_exit env then Inl SignalAborted
      else
        (case r of
           Inl f \<Rightarrow> Inl (if to_manual opts then manual_failure f else tf_error f)
         | Inr res \<Rightarrow>
             if was_closed \<and> te_flush env = Some False then Inl (Manual ManualPersistence (Some FlushThrew))
             else Inr res))"

definition run_bracket ::
  "region_dependencies \<Rightarrow> transaction_options \<Rightarrow> transaction_env \<Rightarrow> (region_error \<Rightarrow> string)
    \<Rightarrow> (paired_session \<Rightarrow> paired_session) \<Rightarrow> string + summary_result
    \<Rightarrow> surface_selection \<times> int option \<times> session_event \<Rightarrow> compaction_result region_op"
where
  "run_bracket deps opts env render between outcome opened ps =
     (case opened of (sl, owner, e) \<Rightarrow>
        (case attempt_transaction deps opts env between outcome sl owner e ps of
           (Inr res, ps') \<Rightarrow> (transaction_reply opts env True (Inr res), ps')
         | (Inl f, ps') \<Rightarrow>
             (case close_failed opts env render owner f ps' of
                ((f', was_closed), ps'') \<Rightarrow> (transaction_reply opts env was_closed (Inl f'), ps''))))"

definition compact_surface_region ::
  "region_dependencies \<Rightarrow> transaction_options \<Rightarrow> transaction_env \<Rightarrow> (region_error \<Rightarrow> string)
    \<Rightarrow> (paired_session \<Rightarrow> paired_session) \<Rightarrow> string + summary_result \<Rightarrow> int \<Rightarrow> int
    \<Rightarrow> compaction_result region_op"
where
  "compact_surface_region deps opts env render between outcome a b =
     op_bind (open_transaction opts env a b) (run_bracket deps opts env render between outcome)"

subsection \<open>Facts about the entry scan\<close>

fun last_seed :: "session_event list \<Rightarrow> int option \<Rightarrow> int option" where
  "last_seed [] n = n"
| "last_seed (e # es) n = last_seed es (if ev_data e = EndSeed then Some (ev_seq e) else n)"

fun open_start :: "session_event list \<Rightarrow> session_event option \<Rightarrow> session_event option" where
  "open_start [] x = x"
| "open_start (e # es) x =
     open_start es (if event_type (ev_data e) = compaction_start then Some e
                    else if event_type (ev_data e) = compaction_end then None else x)"

lemma last_seed_snoc:
  "last_seed (es @ [e]) n = (if ev_data e = EndSeed then Some (ev_seq e) else last_seed es n)"
  by (induction es arbitrary: n) auto

lemma open_start_snoc:
  "open_start (es @ [e]) x =
     (if event_type (ev_data e) = compaction_start then Some e
      else if event_type (ev_data e) = compaction_end then None else open_start es x)"
  by (induction es arbitrary: x) auto

text \<open>One step of the scan touches the three parts of its state separately.\<close>

lemma scan_parts [simp]:
  "es_turn (scan_bracket e sc) = es_turn sc" "es_turn_known (scan_bracket e sc) = es_turn_known sc"
  "es_turn (scan_seed e sc) = es_turn sc" "es_turn_known (scan_seed e sc) = es_turn_known sc"
  "es_start (scan_turn e sc) = es_start sc" "es_start_known (scan_turn e sc) = es_start_known sc"
  "es_start (scan_seed e sc) = es_start sc" "es_start_known (scan_seed e sc) = es_start_known sc"
  "es_seed (scan_turn e sc) = es_seed sc" "es_seed (scan_bracket e sc) = es_seed sc"
  by (simp_all add: scan_bracket_def scan_seed_def scan_turn_def split: event_data.splits)

definition scan_step :: "session_event \<Rightarrow> entry_scan \<Rightarrow> entry_scan" where
  "scan_step e sc = scan_turn e (scan_bracket e (scan_seed e sc))"

lemma scan_step_known:
  assumes "es_turn_known sc" and "es_start_known sc" and "es_seed sc \<noteq> None"
  shows "scan_step e sc = sc"
  using assms by (simp add: scan_step_def scan_turn_def scan_bracket_def scan_seed_def)

lemma scan_entries_fold: "scan_entries es sc = fold scan_step es sc"
proof (induction es arbitrary: sc)
  case (Cons e es)
  have "fold scan_step es t = t" if "es_turn_known t" "es_start_known t" "es_seed t \<noteq> None" for t
    using that by (induction es) (simp_all add: scan_step_known)
  with Cons show ?case by (simp add: Let_def flip: scan_step_def)
qed simp

text \<open>The backward scan computes the forward folds.\<close>

lemma scan_turn_fold:
  "(\<not> es_turn_known sc \<Longrightarrow> es_turn sc = None) \<Longrightarrow>
   es_turn (fold scan_step (rev evs) sc) = (if es_turn_known sc then es_turn sc else last_turn evs None)"
proof (induction evs arbitrary: sc rule: rev_induct)
  case (snoc e evs)
  have "es_turn_known (scan_step e sc) \<longleftrightarrow>
      es_turn_known sc \<or> (case ev_data e of TurnStart _ \<Rightarrow> True | TurnEnd _ _ \<Rightarrow> True | _ \<Rightarrow> False)"
    and "es_turn (scan_step e sc) = (if es_turn_known sc then es_turn sc
        else (case ev_data e of TurnStart t \<Rightarrow> Some t | _ \<Rightarrow> es_turn sc))"
    by (simp_all add: scan_step_def scan_turn_def split: event_data.splits)
  with snoc.prems snoc.IH [of "scan_step e sc"] show ?case
    by (auto simp: last_turn_snoc split: event_data.splits)
qed auto

lemma scan_start_fold:
  "(\<not> es_start_known sc \<Longrightarrow> es_start sc = None) \<Longrightarrow>
   es_start (fold scan_step (rev evs) sc) = (if es_start_known sc then es_start sc else open_start evs None)"
proof (induction evs arbitrary: sc rule: rev_induct)
  case (snoc e evs)
  have "es_start_known (scan_step e sc) \<longleftrightarrow> es_start_known sc \<or>
      event_type (ev_data e) = compaction_start \<or> event_type (ev_data e) = compaction_end"
    and "es_start (scan_step e sc) = (if \<not> es_start_known sc \<and> event_type (ev_data e) = compaction_start
        then Some e else es_start sc)"
    by (simp_all add: scan_step_def scan_bracket_def)
  with snoc.prems snoc.IH [of "scan_step e sc"] show ?case by (auto simp: open_start_snoc)
qed auto

lemma scan_seed_fold:
  "es_seed (fold scan_step (rev evs) sc) = (case es_seed sc of Some n \<Rightarrow> Some n | None \<Rightarrow> last_seed evs None)"
proof (induction evs arbitrary: sc rule: rev_induct)
  case (snoc e evs)
  have "es_seed (scan_step e sc) = (if es_seed sc = None \<and> ev_data e = EndSeed then Some (ev_seq e) else es_seed sc)"
    by (simp add: scan_step_def scan_seed_def)
  with snoc.IH [of "scan_step e sc"] show ?case by (auto simp: last_seed_snoc split: option.splits)
qed (auto split: option.splits)

lemma inspect_entry_state:
  "es_turn (inspect_compaction_entry_state evs) = last_turn evs None"
  "es_start (inspect_compaction_entry_state evs) = open_start evs None"
  "es_seed (inspect_compaction_entry_state evs) = last_seed evs None"
  using scan_turn_fold [of empty_scan evs] scan_start_fold [of empty_scan evs] scan_seed_fold [of evs empty_scan]
  by (simp_all add: inspect_compaction_entry_state_def scan_entries_fold empty_scan_def)

lemma scan_bounds:
  assumes "contiguous evs"
  shows "open_start evs None = Some e \<Longrightarrow> ev_seq e < int (length evs)"
    and "last_seed evs None = Some n \<Longrightarrow> n < int (length evs)"
proof -
  have "(\<forall>e. open_start evs None = Some e \<longrightarrow> ev_seq e < int (length evs)) \<and>
      (\<forall>n. last_seed evs None = Some n \<longrightarrow> n < int (length evs))"
    using assms
  proof (induction evs rule: rev_induct)
    case (snoc e evs)
    then have "\<forall>x. open_start evs None = Some x \<longrightarrow> ev_seq x < 1 + int (length evs)"
      "\<forall>n. last_seed evs None = Some n \<longrightarrow> n < 1 + int (length evs)"
      by (auto simp: contiguous_snoc intro: less_trans [OF _ zless_add1_eq [THEN iffD2]])
    with snoc.prems show ?case by (auto simp: contiguous_snoc open_start_snoc last_seed_snoc)
  qed simp
  then show "open_start evs None = Some e \<Longrightarrow> ev_seq e < int (length evs)"
    and "last_seed evs None = Some n \<Longrightarrow> n < int (length evs)" by blast+
qed

definition lock_free :: "session_event list \<Rightarrow> bool" where
  "lock_free evs \<longleftrightarrow> compaction_inactive (inspect_compaction_entry_state evs)"

lemma lock_free_iff:
  "lock_free evs \<longleftrightarrow>
     (case open_start evs None of
        None \<Rightarrow> True
      | Some e \<Rightarrow> (case last_seed evs None of None \<Rightarrow> False | Some n \<Rightarrow> ev_seq e < n))"
  unfolding lock_free_def compaction_inactive_def inspect_entry_state by (rule refl)

lemma lock_free_snoc:
  assumes "contiguous (evs @ [e])"
  shows "lock_free (evs @ [e]) \<longleftrightarrow>
    (if event_type (ev_data e) = compaction_start then False
     else if event_type (ev_data e) = compaction_end \<or> ev_data e = EndSeed then True
     else lock_free evs)"
proof -
  have c: "contiguous evs" "ev_seq e = int (length evs)" using assms by (simp_all add: contiguous_snoc)
  show ?thesis
    using scan_bounds [OF c(1)] c(2)
    by (auto simp: lock_free_iff open_start_snoc last_seed_snoc compaction_types split: option.splits)
qed

text \<open>On a log the companion accepted, the durable lock is the companion's open bracket.\<close>

lemma lock_agrees_with_trace:
  assumes "\<forall>e \<in> set evs. own_type e" and "contiguous evs" and "live_brackets fresh_bracket_trace evs = Inr tr"
  shows "lock_free evs \<longleftrightarrow> bt_open tr = None"
  using assms
proof (induction evs arbitrary: tr rule: rev_induct)
  case Nil
  then show ?case by (auto simp: fresh_bracket_trace_def lock_free_iff)
next
  case (snoc e evs)
  then obtain t where t: "live_brackets fresh_bracket_trace evs = Inr t" "live_bracket_step t e = Inr tr"
    by (auto simp: live_brackets_snoc and_then_Inr_iff)
  have IH: "lock_free evs \<longleftrightarrow> bt_open t = None" using snoc t(1) by (simp add: contiguous_snoc)
  have own: "own_type e" using snoc.prems by simp
  note step = lock_free_snoc [OF snoc.prems(2)]
  from own t(2) show ?case
  proof (cases rule: live_step_cases)
    case boundary
    with step IH show ?thesis
      by (cases "ev_data e") (auto simp: is_turn_boundary_def compaction_types own_type_def)
  next
    case other
    with step IH show ?thesis by (auto simp: is_bracket_type_def)
  qed (use step IH in \<open>auto simp: compaction_types\<close>)
qed


theorem durable_lock_is_the_open_bracket:
  assumes "\<forall>e \<in> set evs. own_type e" and "contiguous evs" and "live_brackets fresh_bracket_trace evs = Inr tr"
  shows "es_turn (inspect_compaction_entry_state evs) = bt_turn tr \<and>
    (compaction_inactive (inspect_compaction_entry_state evs) \<longleftrightarrow> bt_open tr = None)"
  using lock_agrees_with_trace [OF assms] live_brackets_ok [OF assms(1,3)]
  by (simp add: lock_free_def bracket_ok_def inspect_entry_state)

lemma durable_lock_is_the_open_bracket_witness:
  "es_turn (inspect_compaction_entry_state sample_bracket_log) = bt_turn fresh_bracket_trace \<and>
    (compaction_inactive (inspect_compaction_entry_state sample_bracket_log)
       \<longleftrightarrow> bt_open fresh_bracket_trace = None)"
  by (rule durable_lock_is_the_open_bracket [OF sample_bracket_log_own _ sample_bracket_log_live]) code_simp

subsection \<open>The views of a session\<close>

text \<open>A session in order, holding the log \<open>evs\<close>.\<close>

definition at_log :: "session_event list \<Rightarrow> paired_session \<Rightarrow> bool" where
  "at_log evs ps \<longleftrightarrow> ss_log (fst ps) = evs \<and> session_ok (fst ps) \<and> balance_ok evs (snd ps)"

lemma paired_reach_at_log: "paired_reach ps \<Longrightarrow> at_log (ss_log (fst ps)) ps"
  using paired_reach_ok by (simp add: at_log_def)

lemma at_log_surface:
  assumes "at_log evs ps"
  obtains st rs where "replay (surface_step 0) create_fold_state evs = (None, length evs, st)"
    "fold_surface evs = Inr (nodes st, rs)"
proof -
  from assms have "session_ok (fst ps)" "ss_log (fst ps) = evs" by (simp_all add: at_log_def)
  with session_ok_fold obtain st where
    "replay (surface_step 0) create_fold_state evs = (None, length evs, st)" by metis
  with surface_replay_fold [OF this] that show ?thesis by blast
qed

lemma at_log_contiguous: "at_log evs ps \<Longrightarrow> contiguous evs"
  by (elim at_log_surface) (rule fold_surface_contiguous)

lemma surface_nodes_at:
  assumes "at_log evs ps" and "fold_surface evs = Inr (ns, rs)"
  obtains ps' where "surface_nodes ps = (Inr ns, ps')" "at_log evs ps'"
proof -
  obtain s c where ps: "ps = (s, c)" by fastforce
  with assms(1) have s: "ss_log s = evs" "session_ok s" "balance_ok evs c" by (simp_all add: at_log_def)
  obtain st where st: "replay (surface_step 0) create_fold_state evs = (None, length evs, st)" "nodes st = ns"
    using fold_surface_replay [OF assms(2)] .
  obtain k where k: "manager_at 0 evs k (ss_surface s)"
    using s by (auto simp: session_ok_def log_ok_def)
  obtain sm where sm: "sync_surface 0 evs (ss_surface s) = (None, sm)"
      "manager_at 0 evs (length evs) sm" "sm_state sm = st"
    using sync_surface_full [OF k st(1)] .
  have "session_ok (s\<lparr>ss_surface := sm\<rparr>)" using session_ok_manager s sm(2) by blast
  then have "at_log evs (s\<lparr>ss_surface := sm\<rparr>, c)" using s by (simp add: at_log_def)
  moreover have "surface_nodes ps = (Inr ns, (s\<lparr>ss_surface := sm\<rparr>, c))"
    using sm s st(2) by (simp add: surface_nodes_def manager_nodes_def ps)
  ultimately show ?thesis using that by blast
qed

lemma balanced_at_log:
  assumes "at_log evs ps" and "fold_surface evs = Inr (ns, rs)" and "k \<le> 1"
  obtains ps' where "balanced_at k n ps = (balanced_cut evs ns n k, ps')" "at_log evs ps'"
proof -
  obtain s c where ps: "ps = (s, c)" by fastforce
  with assms(1) have s: "ss_log s = evs" "session_ok s" "balance_ok (ss_log s) c" by (simp_all add: at_log_def)
  obtain st where st: "replay (surface_step 0) create_fold_state (ss_log s) = (None, length (ss_log s), st)"
      "nodes st = ns"
    using fold_surface_replay [OF assms(2)] s(1) by metis
  obtain s' c' where "balanced_at k n (s, c) = (balanced_cut (ss_log s) (nodes st) n k, s', c')"
    "session_ok s'" "ss_log s' = ss_log s" "balance_ok (ss_log s') c'"
    using balanced_at_ok [OF s(2,3) assms(3) st(1)] .
  with that [of "(s', c')"] s(1) st(2) ps show ?thesis by (simp add: at_log_def)
qed

lemma balanced_before_at:
  assumes "at_log evs ps" and "fold_surface evs = Inr (ns, rs)"
  obtains ps' where "balanced_before n ps = (map_sum PairingThrew id (balanced_cut evs ns n 0), ps')" "at_log evs ps'"
  using balanced_at_log [OF assms, of 0 n] that
  by (metis balanced_before_def case_prod_conv less_eq_nat.simps(1) tool_pairing_balanced_before_def)

lemma balanced_after_at:
  assumes "at_log evs ps" and "fold_surface evs = Inr (ns, rs)"
  obtains ps' where "balanced_after n ps = (map_sum PairingThrew id (balanced_cut evs ns n 1), ps')" "at_log evs ps'"
  using balanced_at_log [OF assms, of 1 n] that
  by (metis balanced_after_def case_prod_conv order_refl tool_pairing_balanced_after_def)

lemma session_events_at:
  assumes "at_log evs ps"
  obtains ps' where "session_events ps = (Inr evs, ps')" "at_log evs ps'"
proof -
  obtain evs' s' where run: "events_of (fst ps) = (evs', s')" by fastforce
  with events_of_ok [OF _ run] views_keep_log(1) [OF run] assms that [of "(s', snd ps)"] show ?thesis
    by (auto simp: session_events_def at_log_def)
qed

lemma session_header_at:
  assumes "at_log evs ps"
  obtains ps' where "session_header ps = (Inr (fold_request_header evs), ps')" "at_log evs ps'"
proof -
  obtain h s' where run: "request_header (fst ps) = (h, s')" by fastforce
  with request_header_ok [OF _ run] views_keep_log(2) [OF run] assms that [of "(s', snd ps)"] show ?thesis
    by (auto simp: session_header_def at_log_def)
qed

lemma append_paired_at:
  assumes "at_log evs ps" and "append_paired (env_call ae d meta) ps = (r, ps')"
  shows "(\<exists>x. r = Inl x) \<and> at_log evs ps' \<or>
    (\<exists>e. r = Inr e \<and> at_log (evs @ [e]) ps' \<and> ev_seq e = int (length evs) \<and> ev_data e = d \<and>
       ev_surface_op e = fst meta \<and> ev_sources e = snd meta)"
proof -
  obtain q s' where run: "append_event (env_call ae d meta) (fst ps) = (q, s')" by fastforce
  with assms have s: "r = map_sum AppendThrew id q" "ps' = (s', snd ps)" "ss_log (fst ps) = evs"
      "session_ok (fst ps)" "balance_ok evs (snd ps)"
    by (auto simp: append_paired_def at_log_def)
  note ok = append_event_ok [OF s(4) run]
  from run show ?thesis
  proof (cases rule: append_event_cases)
    case (logged d' op sources sm)
    with s ok balance_ok_grow [OF s(5)] show ?thesis
      by (auto simp: at_log_def env_call_def payload_call_def next_event_def)
  qed (use s ok in \<open>auto simp: at_log_def\<close>)
qed

text \<open>The log grew and the session is in order.\<close>

definition grown_log :: "session_event list \<Rightarrow> paired_session \<Rightarrow> bool" where
  "grown_log evs ps \<longleftrightarrow> (\<exists>rest. at_log (evs @ rest) ps)"

subsection \<open>The choice of a range\<close>

definition region_check ::
  "session_event list \<Rightarrow> int list \<Rightarrow> int \<Rightarrow> int \<Rightarrow> region_error + surface_selection" where
  "region_check evs ns a b =
     (case index_of a ns of
        None \<Rightarrow> Inl (StartMissing a)
      | Some i \<Rightarrow>
          (case index_of b ns of
             None \<Rightarrow> Inl (EndMissing b)
           | Some j \<Rightarrow>
               if j < i then Inl (StartAfterEndR a b)
               else
                 and_then (map_sum PairingThrew id (balanced_cut evs ns a 0))
                   (\<lambda>before. if \<not> before then Inl (StartUnbalanced a)
                     else
                       and_then (map_sum PairingThrew id (balanced_cut evs ns b 1))
                         (\<lambda>after. if \<not> after then Inl (EndUnbalanced b)
                           else Inr \<lparr>sl_start = a, sl_end = b, sl_start_idx = i, sl_end_idx = j,
                                     sl_shadowed = js_slice ns i (j + 1)\<rparr>))))"

lemma validate_surface_region_at:
  assumes "at_log evs ps" and fold: "fold_surface evs = Inr (ns, rs)"
  obtains ps' where "validate_surface_region a b ps = (region_check evs ns a b, ps')" "at_log evs ps'"
proof -
  obtain p1 where p1: "surface_nodes ps = (Inr ns, p1)" "at_log evs p1"
    using surface_nodes_at [OF assms] .
  show ?thesis
  proof (cases "index_of a ns")
    case None
    with p1 that show ?thesis by (simp add: validate_surface_region_def op_bind_def region_check_def op_lift_def)
  next
    case i: (Some i)
    show ?thesis
    proof (cases "index_of b ns")
      case None
      with i p1 that show ?thesis by (simp add: validate_surface_region_def op_bind_def region_check_def op_lift_def)
    next
      case j: (Some j)
      have ab: "ns ! i = a" "ns ! j = b" using index_of_SomeD i j by metis+
      obtain p2 where p2: "balanced_before a p1 = (map_sum PairingThrew id (balanced_cut evs ns a 0), p2)" "at_log evs p2"
        using balanced_before_at [OF p1(2) fold] .
      obtain p3 where p3: "balanced_after b p2 = (map_sum PairingThrew id (balanced_cut evs ns b 1), p3)" "at_log evs p3"
        using balanced_after_at [OF p2(2) fold] .
      have "\<exists>ps'. validate_surface_region a b ps = (region_check evs ns a b, ps') \<and> at_log evs ps'"
        using i j ab p1 p2 p3
        by (cases "balanced_cut evs ns a 0"; cases "balanced_cut evs ns b 1")
          (auto simp: validate_surface_region_def op_bind_def region_check_def op_lift_def
            simp del: split_paired_Ex)
      with that show ?thesis by blast
    qed
  qed
qed

text \<open>The tokens of the nodes from position \<open>k\<close> on.\<close>

definition tail_tokens :: "priced_node list \<Rightarrow> nat \<Rightarrow> rat" where
  "tail_tokens ns k = sum_list (map pn_tokens (drop k ns))"

lemma tail_tokens_Suc: "k < length ns \<Longrightarrow> tail_tokens ns k = pn_tokens (ns ! k) + tail_tokens ns (Suc k)"
  by (simp add: tail_tokens_def flip: Cons_nth_drop_Suc)

lemma tail_start_spec:
  "k \<le> length ns \<Longrightarrow>
   (let t = tail_start ns k (tail_tokens ns k) retain in
      t \<le> k \<and> (0 < k \<longrightarrow> t < k) \<and> (0 < t \<longrightarrow> retain \<le> tail_tokens ns t) \<and>
      (\<forall>j. t < j \<and> j < k \<longrightarrow> tail_tokens ns j < retain))"
proof (induction k)
  case (Suc k)
  then have "tail_tokens ns (Suc k) + pn_tokens (ns ! k) = tail_tokens ns k"
    by (simp add: tail_tokens_Suc)
  with Suc show ?case by (auto simp: Let_def less_Suc_eq not_le)
qed simp

lemma tail_tokens_mono:
  assumes "\<forall>n \<in> set ns. 0 \<le> pn_tokens n" and "i \<le> j"
  shows "tail_tokens ns j \<le> tail_tokens ns i"
proof -
  have "drop i ns = take (j - i) (drop i ns) @ drop j ns"
    using assms(2) by (metis append_take_drop_id drop_drop le_add_diff_inverse2)
  moreover have "0 \<le> sum_list (map pn_tokens (take (j - i) (drop i ns)))"
    using assms(1) by (intro sum_list_nonneg) (auto dest!: in_set_takeD in_set_dropD)
  ultimately show ?thesis unfolding tail_tokens_def by (metis le_add_same_cancel2 map_append sum_list_append)
qed

lemma tail_start_iff:
  assumes "\<forall>n \<in> set ns. 0 \<le> pn_tokens n" and "0 < k" "k < length ns"
  shows "retain \<le> tail_tokens ns k \<longleftrightarrow> k \<le> tail_start ns (length ns) 0 retain"
proof -
  let ?t = "tail_start ns (length ns) 0 retain"
  have spec: "0 < ?t \<longrightarrow> retain \<le> tail_tokens ns ?t" "\<forall>j. ?t < j \<and> j < length ns \<longrightarrow> tail_tokens ns j < retain"
    using tail_start_spec [of "length ns" ns retain] by (simp_all add: tail_tokens_def Let_def)
  show ?thesis
  proof
    assume "k \<le> ?t"
    with spec(1) assms(2) tail_tokens_mono [OF assms(1), of k ?t] show "retain \<le> tail_tokens ns k" by linarith
  next
    assume "retain \<le> tail_tokens ns k"
    with spec(2) assms(3) show "k \<le> ?t" by (meson not_le)
  qed
qed

fun last_balanced :: "session_event list \<Rightarrow> int list \<Rightarrow> nat \<Rightarrow> nat" where
  "last_balanced evs ns 0 = 0"
| "last_balanced evs ns (Suc k) = (if open_calls evs ns (Suc k) = 0 then Suc k else last_balanced evs ns k)"

lemma balanced_start_at:
  assumes "at_log evs ps" and "fold_surface evs = Inr (ns, rs)" and "distinct ns"
    and "first_orphan evs ns = None" and "k < length ns"
  shows "\<exists>ps'. balanced_start ns k ps = (Inr (last_balanced evs ns k), ps') \<and> at_log evs ps'"
  using assms(1,5)
proof (induction k arbitrary: ps)
  case 0
  then show ?case by (auto simp: op_lift_def)
next
  case (Suc k)
  obtain p1 where p1: "balanced_before (ns ! Suc k) ps = (map_sum PairingThrew id (balanced_cut evs ns (ns ! Suc k) 0), p1)"
      "at_log evs p1"
    using balanced_before_at [OF Suc.prems(1) assms(2)] .
  with Suc.IH [OF p1(2)] Suc.prems balanced_cut_nth [OF assms(3) Suc.prems(2) assms(4), of 0] show ?case
    by (auto simp: op_bind_def op_lift_def simp del: split_paired_Ex)
qed

text \<open>The latest balanced cut after which at least \<open>retain\<close> tokens remain.\<close>

definition best_cut :: "session_event list \<Rightarrow> priced_node list \<Rightarrow> rat \<Rightarrow> nat option" where
  "best_cut evs priced retain =
     List.find (\<lambda>k. open_calls evs (map pn_seq priced) k = 0 \<and> retain \<le> tail_tokens priced k)
       (rev [1..<length priced])"

lemma find_last_balanced:
  "t < n \<Longrightarrow> List.find (\<lambda>k. open_calls evs ns k = 0 \<and> k \<le> t) (rev [1..<n]) =
     (if last_balanced evs ns t = 0 then None else Some (last_balanced evs ns t))"
proof (induction n)
  case (Suc n)
  show ?case
  proof (cases "t < n")
    case True
    with Suc.IH show ?thesis by (cases n) auto
  next
    case False
    with Suc.prems have t: "t = n" by simp
    have "List.find (\<lambda>k. open_calls evs ns k = 0 \<and> k \<le> n) (rev [1..<Suc n]) =
        (if last_balanced evs ns n = 0 then None else Some (last_balanced evs ns n))"
    proof (induction n)
      case (Suc m)
      have "List.find (\<lambda>k. open_calls evs ns k = 0 \<and> k \<le> Suc m) (rev [1..<Suc m])
          = List.find (\<lambda>k. open_calls evs ns k = 0 \<and> k \<le> m) (rev [1..<Suc m])"
        by (rule find_cong) auto
      with Suc show ?case by (cases m) auto
    qed simp
    with t show ?thesis by simp
  qed
qed simp

lemma select_range_at:
  assumes at: "at_log evs ps" and fold: "fold_surface evs = Inr (ns, rs)" and dist: "distinct ns"
    and none: "first_orphan evs ns = None"
    and priced: "map pn_seq (ms_nodes m) = ns" "\<forall>n \<in> set (ms_nodes m). 0 \<le> pn_tokens n"
  shows "fst (select_compactable_range m retain ps) =
    Inr (map_option (\<lambda>k. (ns ! 0, ns ! (k - 1))) (best_cut evs (ms_nodes m) retain))"
proof (cases "ms_nodes m = []")
  case True
  then show ?thesis by (simp add: select_compactable_range_def op_lift_def best_cut_def)
next
  case False
  let ?p = "ms_nodes m" and ?t = "tail_start (ms_nodes m) (length (ms_nodes m)) 0 retain"
  have len: "length ns = length ?p" using priced(1) by auto
  have t: "?t < length ?p"
    using tail_start_spec [of "length ?p" ?p retain] False by (simp add: tail_tokens_def Let_def)
  have "best_cut evs ?p retain = List.find (\<lambda>k. open_calls evs ns k = 0 \<and> k \<le> ?t) (rev [1..<length ?p])"
    unfolding best_cut_def priced(1) by (rule find_cong) (auto simp: tail_start_iff [OF priced(2)])
  then have best: "best_cut evs ?p retain =
      (if last_balanced evs ns ?t = 0 then None else Some (last_balanced evs ns ?t))"
    using find_last_balanced [OF t] by simp
  obtain p1 where p1: "surface_nodes ps = (Inr ns, p1)" "at_log evs p1"
    using surface_nodes_at [OF at fold] .
  obtain p2 where "balanced_start ns ?t p1 = (Inr (last_balanced evs ns ?t), p2)"
    using balanced_start_at [OF p1(2) fold dist none, of ?t] t len by auto
  with p1 best False priced(1) show ?thesis
    by (auto simp: select_compactable_range_def op_bind_def op_lift_def Let_def)
qed


text \<open>
  Claim C34. Given the measured surface, with prices that are not negative and no tool
  result whose call is not on it (the code throws there), automatic compaction selects the
  span from the head up to the latest balanced cut after which the tokens to retain still
  stand, and nothing when there is no such cut.
\<close>

theorem selected_range_is_the_best_cut:
  assumes "paired_reach (s, c)" and "fold_surface (ss_log s) = Inr (ns, rs)"
    and "first_orphan (ss_log s) ns = None"
    and "map pn_seq (ms_nodes m) = ns" and "\<forall>n \<in> set (ms_nodes m). 0 \<le> pn_tokens n"
  shows "fst (select_compactable_range m retain (s, c)) =
    Inr (map_option (\<lambda>k. (ns ! 0, ns ! (k - 1))) (best_cut (ss_log s) (ms_nodes m) retain))"
proof -
  have at: "at_log (ss_log s) (s, c)" using paired_reach_at_log [OF assms(1)] by simp
  obtain st where st: "replay (surface_step 0) create_fold_state (ss_log s) = (None, length (ss_log s), st)" "nodes st = ns"
    using fold_surface_replay [OF assms(2)] .
  then have "distinct ns" using surface_log.replay_inv [OF st(1)] by (auto simp: surface_inv_def)
  from select_range_at [OF at assms(2) this assms(3-5)] show ?thesis .
qed

lemma best_cut_Some:
  assumes "best_cut evs priced retain = Some k"
  shows "0 < k" "k < length priced" "open_calls evs (map pn_seq priced) k = 0" "retain \<le> tail_tokens priced k"
proof -
  from assms have "k \<in> set (rev [1..<length priced])"
    "open_calls evs (map pn_seq priced) k = 0 \<and> retain \<le> tail_tokens priced k"
    unfolding best_cut_def find_Some_iff by (auto simp del: upt_Suc simp: rev_nth)
  then show "0 < k" "k < length priced" "open_calls evs (map pn_seq priced) k = 0" "retain \<le> tail_tokens priced k"
    by auto
qed

theorem selected_range_is_valid:
  assumes reach: "paired_reach (s, c)" and fold: "fold_surface (ss_log s) = Inr (ns, rs)"
    and none: "first_orphan (ss_log s) ns = None"
    and priced: "map pn_seq (ms_nodes m) = ns" "\<forall>n \<in> set (ms_nodes m). 0 \<le> pn_tokens n"
    and sel: "fst (select_compactable_range m retain (s, c)) = Inr (Some (a, b))"
  shows "\<exists>k. 0 < k \<and> k < length ns \<and> fst (validate_surface_region a b (s, c)) =
    Inr \<lparr>sl_start = a, sl_end = b, sl_start_idx = 0, sl_end_idx = k - 1, sl_shadowed = take k ns\<rparr>"
proof -
  have at: "at_log (ss_log s) (s, c)" using paired_reach_at_log [OF reach] by simp
  obtain st where st: "replay (surface_step 0) create_fold_state (ss_log s) = (None, length (ss_log s), st)" "nodes st = ns"
    using fold_surface_replay [OF fold] .
  then have dist: "distinct ns" using surface_log.replay_inv [OF st(1)] by (auto simp: surface_inv_def)
  obtain k where k: "best_cut (ss_log s) (ms_nodes m) retain = Some k" "a = ns ! 0" "b = ns ! (k - 1)"
    using select_range_at [OF at fold dist none priced, of retain] sel
    by (cases "best_cut (ss_log s) (ms_nodes m) retain") auto
  note best = best_cut_Some [OF k(1)]
  have len: "length (ms_nodes m) = length ns" using priced(1) by auto
  have ne: "ns \<noteq> []" using best(2) len by auto
  have idx: "index_of a ns = Some 0" "index_of b ns = Some (k - 1)"
    using ne k(2,3) best(1,2) len index_of_nth [OF dist, of 0] index_of_nth [OF dist, of "k - 1"] by auto
  have bal: "balanced_cut (ss_log s) ns a 0 = Inr True" "balanced_cut (ss_log s) ns b 1 = Inr True"
    using balanced_cut_nth [OF dist _ none, of 0 0] balanced_cut_nth [OF dist _ none, of "k - 1" 1]
      ne k(2,3) best(1-3) len priced(1) by auto
  have "region_check (ss_log s) ns a b =
    Inr \<lparr>sl_start = a, sl_end = b, sl_start_idx = 0, sl_end_idx = k - 1, sl_shadowed = take k ns\<rparr>"
    using idx bal best(1) by (simp add: region_check_def js_slice_def)
  with validate_surface_region_at [OF at fold, of a b] best len show ?thesis by (metis fst_conv)
qed


definition sample_measurement :: measurement where
  "sample_measurement =
     \<lparr>ms_revision = 5, ms_baseline = EstimatedBaseline 10, ms_delta = 0, ms_total = 10, ms_surface_tokens = 10,
      ms_nodes = [\<lparr>pn_seq = 1, pn_tokens = 5\<rparr>, \<lparr>pn_seq = 3, pn_tokens = 5\<rparr>]\<rparr>"

lemma sample_session_surface:
  "fold_surface (ss_log sample_session) = Inr ([1, 3], [])"
  "first_orphan (ss_log sample_session) [1, 3] = None"
  by code_simp+

lemma sample_measurement_ok:
  "map pn_seq (ms_nodes sample_measurement) = [1, 3]"
  "\<forall>n \<in> set (ms_nodes sample_measurement). 0 \<le> pn_tokens n"
  by (simp_all add: sample_measurement_def)

lemma selected_range_is_the_best_cut_witness:
  "fst (select_compactable_range sample_measurement 3 (sample_session, None)) =
    Inr (map_option (\<lambda>k. ([1, 3] ! 0, [1, 3] ! (k - 1)))
      (best_cut (ss_log sample_session) (ms_nodes sample_measurement) 3))"
  by (rule selected_range_is_the_best_cut [OF paired_sample_reach sample_session_surface sample_measurement_ok])

lemma selected_range_is_valid_witness:
  "\<exists>k. 0 < k \<and> k < length [1, 3 :: int] \<and> fst (validate_surface_region 1 1 (sample_session, None)) =
    Inr \<lparr>sl_start = 1, sl_end = 1, sl_start_idx = 0, sl_end_idx = k - 1, sl_shadowed = take k [1, 3]\<rparr>"
proof (rule selected_range_is_valid [OF paired_sample_reach sample_session_surface sample_measurement_ok])
  show "fst (select_compactable_range sample_measurement 3 (sample_session, None)) = Inr (Some (1, 1))"
    by code_simp
qed

subsection \<open>The steps of a transaction\<close>

abbreviation surface_of :: "session_event list \<Rightarrow> int list \<Rightarrow> bool" where
  "surface_of evs ns \<equiv> \<exists>rs. fold_surface evs = Inr (ns, rs)"

lemma triple_at:
  assumes "\<And>ps. at_log evs ps \<Longrightarrow> \<exists>ps'. m ps = (r, ps') \<and> at_log evs ps'"
  shows "op_triple (at_log evs) m (\<lambda>a ps. at_log evs ps \<and> r = Inr a) (\<lambda>x ps. at_log evs ps \<and> r = Inl x)"
  by (rule op_tripleI) (use assms in fastforce)+

lemma validate_region_triple:
  assumes "surface_of evs ns"
  shows "op_triple (at_log evs) (validate_surface_region a b)
    (\<lambda>sl ps. at_log evs ps \<and> region_check evs ns a b = Inr sl) (\<lambda>_. at_log evs)"
  using assms validate_surface_region_at
  by (intro op_triple_weaken [OF triple_at [of evs _ "region_check evs ns a b"]]) blast+

lemma session_events_triple:
  "op_triple (at_log evs) session_events (\<lambda>es ps. at_log evs ps \<and> es = evs) (\<lambda>_. at_log evs)"
  by (rule op_triple_weaken [OF triple_at [of evs _ "Inr evs"]]) (blast elim: session_events_at | simp)+

lemma session_header_triple:
  "op_triple (at_log evs) session_header (\<lambda>_. at_log evs) (\<lambda>_. at_log evs)"
  by (rule op_triple_weaken [OF triple_at [of evs _ "Inr (fold_request_header evs)"]])
    (blast elim: session_header_at | simp)+

lemma measure_triple:
  "op_triple (at_log evs) (measure_session deps)
    (\<lambda>m ps. at_log evs ps \<and> (\<exists>s. ss_log s = evs \<and> rd_measure deps s = Inr m)) (\<lambda>_. at_log evs)"
  by (rule op_tripleI) (auto simp: measure_session_def at_log_def map_sum_def split: sum.splits)

lemma throw_if_triple:
  "op_triple P (throw_if b x) (\<lambda>_ ps. P ps \<and> \<not> b) (\<lambda>_. P)"
  by (auto simp: throw_if_def intro: op_triple_lift split: if_splits)

lemma append_paired_triple:
  "op_triple (at_log evs) (append_paired (env_call ae d meta))
    (\<lambda>e ps. at_log (evs @ [e]) ps \<and> ev_seq e = int (length evs) \<and> ev_data e = d \<and>
       ev_surface_op e = fst meta \<and> ev_sources e = snd meta) (\<lambda>_. at_log evs)"
  by (rule op_tripleI) (auto dest: append_paired_at)


lemma lift_triple: "op_triple P (op_lift r) (\<lambda>a ps. P ps \<and> r = Inr a) (\<lambda>_. P)"
  by (rule op_triple_lift) simp_all

definition opened_by ::
  "transaction_options \<Rightarrow> transaction_env \<Rightarrow> int option \<Rightarrow> session_event \<Rightarrow> bool" where
  "opened_by opts env owner e \<longleftrightarrow>
     ev_data e = OtherEvent compaction_start (JObj (lifecycle (te_id env) (to_command opts) owner))"

lemma open_transaction_triple:
  assumes "surface_of evs ns"
  shows "op_triple (at_log evs) (open_transaction opts env a b)
    (\<lambda>(sl, owner, e) ps. at_log (evs @ [e]) ps \<and> region_check evs ns a b = Inr sl \<and> lock_free evs \<and>
       transaction_owner (to_manual opts) (inspect_compaction_entry_state evs) = Inr owner \<and>
       opened_by opts env owner e)
    (\<lambda>_. at_log evs)"
  unfolding open_transaction_def Let_def
  apply (rule op_triple_bind [OF throw_if_triple], rule op_triple_pure)
  apply (rule op_triple_bind [OF validate_region_triple [OF assms]], rule op_triple_pure)
  apply (rule op_triple_bind [OF session_events_triple], rule op_triple_pure)
  apply (rule op_triple_bind [OF throw_if_triple], rule op_triple_pure)
  apply (rule op_triple_bind [OF lift_triple], rule op_triple_pure)
  apply (rule op_triple_bind [OF append_paired_triple])
  apply (rule op_triple_lift)
   apply (auto simp: lock_free_def opened_by_def)
  done

lemma build_input_triple:
  "op_triple (at_log evs) (build_summarization_input ns) (\<lambda>_. at_log evs) (\<lambda>_. at_log evs)"
  unfolding build_summarization_input_def
  by (intro op_triple_bind [OF session_header_triple] op_triple_bind [OF session_events_triple]
      op_triple_bind [OF op_triple_weaken [OF lift_triple]] op_triple_pure op_triple_lift) simp_all

lemma prepare_triple:
  "op_triple (at_log evs) (prepare_compaction deps sl)
    (\<lambda>pc ps. at_log evs ps \<and> pc_selection pc = sl \<and>
       (\<exists>s m. ss_log s = evs \<and> rd_measure deps s = Inr m \<and> pc_nodes pc = ms_nodes m) \<and>
       pc_selected pc = js_slice (pc_nodes pc) (sl_start_idx sl) (sl_end_idx sl + 1) \<and>
       map pn_seq (pc_selected pc) = sl_shadowed sl \<and>
       pc_tokens pc = sum_list (map pn_tokens (pc_selected pc)))
    (\<lambda>_. at_log evs)"
  unfolding prepare_compaction_def Let_def
  apply (rule op_triple_bind [OF measure_triple], rule op_triple_pure)
  apply (rule op_triple_bind [OF throw_if_triple], rule op_triple_pure)
  apply (rule op_triple_bind [OF build_input_triple])
  apply (rule op_triple_lift)
   apply auto
  done

lemma assert_stable_triple:
  assumes "surface_of evs ns"
  shows "op_triple (at_log evs) (assert_stable deps opts pc)
    (\<lambda>_ ps. at_log evs ps \<and>
       (if to_whole_surface opts
        then (\<exists>s m. ss_log s = evs \<and> rd_measure deps s = Inr m \<and> ms_nodes m = pc_nodes pc)
        else (\<exists>cur. region_check evs ns (sl_start (pc_selection pc)) (sl_end (pc_selection pc)) = Inr cur \<and>
                sl_shadowed cur = sl_shadowed (pc_selection pc))))
    (\<lambda>_. at_log evs)"
proof (cases "to_whole_surface opts")
  case True
  have "op_triple (at_log evs) (assert_whole_surface_unchanged deps pc)
    (\<lambda>_ ps. at_log evs ps \<and> (\<exists>s m. ss_log s = evs \<and> rd_measure deps s = Inr m \<and> ms_nodes m = pc_nodes pc))
    (\<lambda>_. at_log evs)"
    unfolding assert_whole_surface_unchanged_def
    apply (rule op_triple_bind [OF measure_triple], rule op_triple_pure)
    apply (rule op_triple_weaken [OF throw_if_triple])
      apply auto
    done
  with True show ?thesis by (simp add: assert_stable_def)
next
  case False
  let ?sl = "pc_selection pc"
  let ?k = "\<lambda>cur. op_bind (throw_if (sl_shadowed cur \<noteq> sl_shadowed ?sl) SurfaceChanged)
          (\<lambda>_. op_bind (measure_session deps)
          (\<lambda>m. throw_if (js_slice (ms_nodes m) (sl_start_idx cur) (sl_end_idx cur + 1) \<noteq> pc_selected pc)
                 SurfaceChanged))"
  have rest: "op_triple (at_log evs)
      (?k cur)
      (\<lambda>_ ps. at_log evs ps \<and> sl_shadowed cur = sl_shadowed ?sl) (\<lambda>_. at_log evs)" for cur
    apply (rule op_triple_bind [OF throw_if_triple], rule op_triple_pure)
    apply (rule op_triple_bind [OF measure_triple], rule op_triple_pure)
    apply (rule op_triple_weaken [OF throw_if_triple])
      apply auto
    done
  have "op_triple (at_log evs) (assert_selected_span_stable deps pc)
    (\<lambda>_ ps. at_log evs ps \<and> (\<exists>cur. region_check evs ns (sl_start ?sl) (sl_end ?sl) = Inr cur \<and>
                sl_shadowed cur = sl_shadowed ?sl)) (\<lambda>_. at_log evs)"
  proof (rule op_tripleI)
    fix ps x ps' assume at: "at_log evs ps" and run: "assert_selected_span_stable deps pc ps = (Inl x, ps')"
    obtain r p1 where v: "validate_surface_region (sl_start ?sl) (sl_end ?sl) ps = (r, p1)"
      using prod.exhaust by blast
    have "at_log evs p1"
      using op_triple_returnD [OF validate_region_triple [OF assms] at]
        op_triple_throwD [OF validate_region_triple [OF assms] at] v by (cases r) blast+
    show "at_log evs ps'"
    proof (cases r)
      case (Inr cur)
      with run v have "?k cur p1 = (Inl x, ps')" by (simp add: assert_selected_span_stable_def)
      from op_triple_throwD [OF rest \<open>at_log evs p1\<close> this] show ?thesis .
    qed (use run v \<open>at_log evs p1\<close> in \<open>simp add: assert_selected_span_stable_def\<close>)
  next
    fix ps a ps' assume at: "at_log evs ps" and run: "assert_selected_span_stable deps pc ps = (Inr a, ps')"
    then obtain cur p1 where v: "validate_surface_region (sl_start ?sl) (sl_end ?sl) ps = (Inr cur, p1)"
      by (auto simp: assert_selected_span_stable_def split: prod.splits sum.splits)
    note p1 = op_triple_returnD [OF validate_region_triple [OF assms] at v]
    from run v have "?k cur p1 = (Inr a, ps')" by (simp add: assert_selected_span_stable_def)
    from op_triple_returnD [OF rest _ this] p1
    show "at_log evs ps' \<and> (\<exists>cur. region_check evs ns (sl_start ?sl) (sl_end ?sl) = Inr cur \<and>
                sl_shadowed cur = sl_shadowed ?sl)" by blast
  qed
  with False show ?thesis by (simp add: assert_stable_def)
qed


definition event_kinds :: "session_event list \<Rightarrow> string list" where
  "event_kinds evs = map (\<lambda>e. event_type (ev_data e)) evs"

definition pending_of_commit ::
  "transaction_options \<Rightarrow> transaction_env \<Rightarrow> session_event \<Rightarrow> session_event \<Rightarrow> prepared_compaction
    \<Rightarrow> summary_result \<Rightarrow> pending_compaction" where
  "pending_of_commit opts env start_event sm pc sr =
     \<lparr>cr_id = te_id env, cr_command = to_command opts, cr_start_seq = ev_seq start_event,
      cr_summary_seq = ev_seq sm, cr_summary = sr_summary sr,
      cr_range = (sl_start (pc_selection pc), sl_end (pc_selection pc)),
      cr_shadowed = sl_shadowed (pc_selection pc), cr_tokens = pc_tokens pc\<rparr>"

text \<open>The summary record and the checkpoint that follows it.\<close>

definition body_events ::
  "transaction_options \<Rightarrow> transaction_env \<Rightarrow> prepared_compaction \<Rightarrow> summary_result \<Rightarrow> user_message
    \<Rightarrow> session_event \<Rightarrow> session_event \<Rightarrow> session_event \<Rightarrow> bool" where
  "body_events opts env pc sr m start_event sm ck \<longleftrightarrow>
     ev_data sm = OtherEvent compaction_summary (JObj (summary_data opts env pc sr)) \<and>
     ev_surface_op sm = None \<and> ev_sources sm = None \<and>
     ev_data ck = UserMessage m \<and>
     (ev_surface_op ck, ev_sources ck) =
        replace_meta (sl_start (pc_selection pc)) (sl_end (pc_selection pc))
          ([ev_seq start_event, ev_seq sm] @ sl_shadowed (pc_selection pc))"

lemma commit_triple:
  "op_triple (at_log evs) (commit_compaction_body opts env start_event pc sr m)
    (\<lambda>pending ps. \<exists>sm ck. at_log (evs @ [sm, ck]) ps \<and> body_events opts env pc sr m start_event sm ck \<and>
        pending = pending_of_commit opts env start_event sm pc sr)
    (\<lambda>_ ps. \<exists>tail. at_log (evs @ tail) ps \<and> event_kinds tail \<in> {[], [compaction_summary]})"
  unfolding commit_compaction_body_def Let_def
  apply (rule op_triple_seq [OF append_paired_triple])
   apply (rule exI [of _ "[]"], simp add: event_kinds_def)
  apply (rule op_triple_pure)
  apply (rule op_triple_seq [OF append_paired_triple])
   apply (rule exI, rule conjI, assumption, simp add: event_kinds_def)
  apply (rule op_triple_lift)
   apply simp
  apply (fastforce simp: body_events_def pending_of_commit_def prod_eq_iff simp del: split_paired_Ex)
  done

lemma at_stage_triple:
  "op_triple P m Q E \<Longrightarrow>
   op_triple P (at_stage st closing m) Q
     (\<lambda>f ps. tf_stage f = st \<and> tf_closing f = closing \<and> E (tf_error f) ps)"
  by (rule op_tripleI)
    (auto simp: at_stage_def map_sum_def split: prod.splits sum.splits
      dest: op_triple_throwD op_triple_returnD)

lemma await_triple:
  assumes "\<And>ps. at_log evs ps \<Longrightarrow> \<exists>M. at_log (evs @ M) (between ps) \<and> Q M"
  shows "op_triple (at_log evs) (await_summary between) (\<lambda>_ ps. \<exists>M. at_log (evs @ M) ps \<and> Q M) (\<lambda>_ _. False)"
  using assms by (auto simp: op_triple_def await_summary_def)

text \<open>The append of the end event is neither reentrant nor vetoed.\<close>

definition end_goes_through :: "transaction_env \<Rightarrow> bool" where
  "end_goes_through env \<longleftrightarrow> ae_appending (te_end env) \<noteq> Some True \<and>
     (ae_appending (te_end env) = None \<or> \<not> ae_throws (te_end env))"

lemma plain_append_succeeds:
  assumes at: "at_log evs ps" and ok: "ae_appending ae \<noteq> Some True" "ae_appending ae = None \<or> \<not> ae_throws ae"
    and d: "\<not> is_surface_eligible_type t" "t \<noteq> ''request/header-delta''"
  shows "\<exists>e ps'. append_paired (env_call ae (OtherEvent t j) (None, None)) ps = (Inr e, ps')"
proof -
  obtain s c where ps: "ps = (s, c)" by fastforce
  with at have s: "ss_log s = evs" "session_ok s" by (simp_all add: at_log_def)
  obtain st rs where st: "replay (surface_step 0) create_fold_state evs = (None, length evs, st)"
    using at_log_surface [OF at] by metis
  obtain k where k: "manager_at 0 evs k (ss_surface s)"
    using s by (auto simp: session_ok_def log_ok_def)
  obtain sm where sm: "sync_surface 0 evs (ss_surface s) = (None, sm)"
    using sync_surface_full [OF k st] by metis
  let ?e = "next_event s (ae_time ae) (OtherEvent t j) None None"
  have "plan_surface_event (sm_state sm) ?e (int (length evs)) evs 0 = Inr None"
    using d(1) s(1) by (simp add: plan_surface_event_def next_event_def surface_op_of_def)
  then have "validate_next 0 evs ?e (ss_surface s) = (None, sm\<lparr>sm_pending := Some (?e, int (length evs), None)\<rparr>)"
    using sm by (simp add: validate_next_def Let_def)
  then have "\<exists>s'. append_event (env_call ae (OtherEvent t j) (None, None)) s = (Inr ?e, s')"
    using ok s(1) d(2) by (auto simp: append_event_def env_call_def payload_call_def Let_def assert_supported_request_header_def)
  then show ?thesis by (auto simp: append_paired_def ps)
qed

lemma append_end_succeeds:
  assumes "at_log evs ps" and "end_goes_through env"
  shows "\<exists>e ps'. append_end opts env owner extra ps = (Inr e, ps')"
  unfolding append_end_def
  by (rule plain_append_succeeds [OF assms(1)])
    (use assms(2) in \<open>auto simp: end_goes_through_def is_surface_eligible_type_def message_types_def compaction_types\<close>)

lemma append_end_at:
  assumes "at_log evs ps" and "append_end opts env owner extra ps = (Inr e, ps')"
  shows "at_log (evs @ [e]) ps' \<and>
    ev_data e = OtherEvent compaction_end (JObj (lifecycle (te_id env) (to_command opts) owner @ extra))"
  using op_triple_returnD [OF append_paired_triple assms(1)] assms(2) unfolding append_end_def by blast

lemma append_end_refused:
  assumes "at_log evs ps" and "append_end opts env owner extra ps = (Inl x, ps')"
  shows "at_log evs ps'"
  using op_triple_throwD [OF append_paired_triple assms(1)] assms(2) unfolding append_end_def by blast

text \<open>The state of a transaction inside its bracket.\<close>

definition failed_attempt ::
  "transaction_env \<Rightarrow> session_event list \<Rightarrow> tx_failure \<Rightarrow> paired_session \<Rightarrow> bool" where
  "failed_attempt env evs f ps \<longleftrightarrow> (tf_closing f \<longrightarrow> \<not> end_goes_through env) \<and>
     (\<exists>M tail. at_log (evs @ M @ tail) ps \<and>
        event_kinds tail \<in>
          (if tf_closing f then {[compaction_summary, ''user/message'']}
           else if tf_stage f = CommitStage then {[], [compaction_summary]} else {[]}))"

definition span_stable ::
  "region_dependencies \<Rightarrow> transaction_options \<Rightarrow> prepared_compaction \<Rightarrow> session_event list \<Rightarrow> bool" where
  "span_stable deps opts pc evs \<longleftrightarrow>
     (if to_whole_surface opts
      then (\<exists>s m. ss_log s = evs \<and> rd_measure deps s = Inr m \<and> ms_nodes m = pc_nodes pc)
      else (\<exists>ns rs cur. fold_surface evs = Inr (ns, rs) \<and>
              region_check evs ns (sl_start (pc_selection pc)) (sl_end (pc_selection pc)) = Inr cur \<and>
              sl_shadowed cur = sl_shadowed (pc_selection pc)))"

lemma assert_stable_at:
  "op_triple (at_log evs) (assert_stable deps opts pc) (\<lambda>_ ps. at_log evs ps \<and> span_stable deps opts pc evs)
    (\<lambda>_. at_log evs)"
proof (rule op_tripleI)
  fix ps x ps' assume at: "at_log evs ps" and run: "assert_stable deps opts pc ps = (Inl x, ps')"
  obtain ns rs where "fold_surface evs = Inr (ns, rs)" using at_log_surface [OF at] by metis
  then show "at_log evs ps'" using op_triple_throwD [OF assert_stable_triple at run] by blast
next
  fix ps a ps' assume at: "at_log evs ps" and run: "assert_stable deps opts pc ps = (Inr a, ps')"
  obtain ns rs where ns: "fold_surface evs = Inr (ns, rs)" using at_log_surface [OF at] by metis
  then have "surface_of evs ns" by blast
  from op_triple_returnD [OF assert_stable_triple [OF this] at run] ns
  show "at_log evs ps' \<and> span_stable deps opts pc evs"
    by (cases "to_whole_surface opts") (auto simp: span_stable_def)
qed

definition prepared_at ::
  "region_dependencies \<Rightarrow> surface_selection \<Rightarrow> session_event list \<Rightarrow> prepared_compaction \<Rightarrow> bool" where
  "prepared_at deps sl evs pc \<longleftrightarrow>
     pc_selection pc = sl \<and>
     (\<exists>s m. ss_log s = evs \<and> rd_measure deps s = Inr m \<and> pc_nodes pc = ms_nodes m) \<and>
     pc_selected pc = js_slice (pc_nodes pc) (sl_start_idx sl) (sl_end_idx sl + 1) \<and>
     map pn_seq (pc_selected pc) = sl_shadowed sl \<and>
     pc_tokens pc = sum_list (map pn_tokens (pc_selected pc))"

lemma attempt_triple:
  assumes between: "\<And>ps. at_log evs ps \<Longrightarrow> \<exists>M. at_log (evs @ M) (between ps) \<and> Q M"
  shows "op_triple (at_log evs) (attempt_transaction deps opts env between outcome sl owner start_event)
    (\<lambda>res ps. \<exists>M pc sr m sm ck e. at_log (evs @ M @ [sm, ck, e]) ps \<and> Q M \<and> prepared_at deps sl evs pc \<and>
        summarize_compaction deps opts env pc outcome = Inr (sr, m) \<and> span_stable deps opts pc (evs @ M) \<and>
        body_events opts env pc sr m start_event sm ck \<and>
        ev_data e = OtherEvent compaction_end (JObj (lifecycle (te_id env) (to_command opts) owner)) \<and>
        res = complete_compaction (pending_of_commit opts env start_event sm pc sr) e)
    (failed_attempt env evs)"
proof -
  have first: "op_triple (at_log evs)
      (op_bind (prepare_compaction deps sl)
        (\<lambda>pc. op_bind (await_summary between)
        (\<lambda>_. op_bind (op_lift (summarize_compaction deps opts env pc outcome))
        (\<lambda>r. op_bind (throw_if (to_manual opts \<and> te_aborted_summary env) SignalAborted)
        (\<lambda>_. op_bind (assert_stable deps opts pc)
        (\<lambda>_. op_lift (Inr (pc, r))))))))
      (\<lambda>(pc, sr, m) ps. \<exists>M. at_log (evs @ M) ps \<and> Q M \<and> prepared_at deps sl evs pc \<and>
         summarize_compaction deps opts env pc outcome = Inr (sr, m) \<and> span_stable deps opts pc (evs @ M))
      (\<lambda>_ ps. \<exists>M. at_log (evs @ M) ps)"
    apply (rule op_triple_seq [OF prepare_triple])
     apply (rule exI [of _ "[]"], simp)
    apply (simp only: flip: prepared_at_def)
    apply (rule op_triple_pure)
    apply (rule op_triple_seq [OF await_triple [OF between]])
      apply assumption
     apply simp
    apply (rule op_triple_ex)
    apply (rule op_triple_pure)
    apply (rule op_triple_seq [OF lift_triple])
     apply blast
    apply (rule op_triple_pure)
    apply (rule op_triple_seq [OF throw_if_triple])
     apply blast
    apply (rule op_triple_pure)
    apply (rule op_triple_seq [OF assert_stable_at])
     apply blast
    apply (rule op_triple_lift)
     apply auto
    done
  have end_triple: "op_triple (at_log es) (at_stage CommitStage True (append_end opts env owner []))
      (\<lambda>e ps. at_log (es @ [e]) ps \<and>
         ev_data e = OtherEvent compaction_end (JObj (lifecycle (te_id env) (to_command opts) owner)))
      (\<lambda>f ps. tf_stage f = CommitStage \<and> tf_closing f \<and> at_log es ps \<and> \<not> end_goes_through env)" for es
  proof -
    have "op_triple (at_log es) (append_end opts env owner [])
      (\<lambda>e ps. at_log (es @ [e]) ps \<and>
         ev_data e = OtherEvent compaction_end (JObj (lifecycle (te_id env) (to_command opts) owner)))
      (\<lambda>_ ps. at_log es ps \<and> \<not> end_goes_through env)"
      using append_end_at [of es _ opts env owner "[]"] append_end_refused [of es _ opts env owner "[]"]
        append_end_succeeds [of es _ env opts owner "[]"]
      by (intro op_tripleI) fastforce+
    from at_stage_triple [OF this] show ?thesis by (rule op_triple_weaken) auto
  qed
  show ?thesis
    unfolding attempt_transaction_def
    apply (rule op_triple_seq [OF at_stage_triple [OF first]])
     apply (auto simp: failed_attempt_def event_kinds_def)[1]
    apply (simp only: case_prod_unfold)
    apply (rule op_triple_ex)
    apply (rule op_triple_pure)
    apply (rule op_triple_seq [OF at_stage_triple [OF commit_triple]])
     apply (auto simp: failed_attempt_def)[1]
    apply (rule op_triple_ex)
    apply (rule op_triple_ex)
    apply (rule op_triple_pure)
    apply (rule op_triple_seq [OF end_triple])
     apply (fastforce simp: failed_attempt_def event_kinds_def body_events_def)
    apply (rule op_triple_lift)
     apply simp
    subgoal for a M aa sm ck ab s ac
      by (intro exI [of _ M] exI [of _ "fst a"] exI [of _ "fst (snd a)"] exI [of _ "snd (snd a)"]
          exI [of _ sm] exI [of _ ck] exI [of _ ab]) simp
    done
qed

subsection \<open>The outcome of a transaction\<close>

text \<open>
  Whatever happens while the summarizer runs, it only appends to the log, events with \<open>Q\<close>, and
  leaves the session in order.
\<close>

definition only_appends ::
  "(session_event list \<Rightarrow> bool) \<Rightarrow> (paired_session \<Rightarrow> paired_session) \<Rightarrow> bool" where
  "only_appends Q between \<longleftrightarrow>
     (\<forall>evs ps. at_log evs ps \<longrightarrow> (\<exists>M. at_log (evs @ M) (between ps) \<and> Q M))"

text \<open>What the transaction left after its start and what came in between.\<close>

definition committed ::
  "region_dependencies \<Rightarrow> transaction_options \<Rightarrow> transaction_env \<Rightarrow> string + summary_result
    \<Rightarrow> session_event list \<Rightarrow> surface_selection \<Rightarrow> int option \<Rightarrow> session_event
    \<Rightarrow> session_event list \<Rightarrow> session_event list \<Rightarrow> compaction_result \<Rightarrow> bool"
where
  "committed deps opts env outcome evs sl owner start_event M tail res \<longleftrightarrow>
     (\<exists>pc sr m sm ck e. tail = [sm, ck, e] \<and> prepared_at deps sl (evs @ [start_event]) pc \<and>
        summarize_compaction deps opts env pc outcome = Inr (sr, m) \<and>
        span_stable deps opts pc (evs @ [start_event] @ M) \<and>
        body_events opts env pc sr m start_event sm ck \<and>
        ev_data e = OtherEvent compaction_end (JObj (lifecycle (te_id env) (to_command opts) owner)) \<and>
        res = complete_compaction (pending_of_commit opts env start_event sm pc sr) e)"

definition given_up :: "bool \<Rightarrow> session_event list \<Rightarrow> bool" where
  "given_up was_closed tail \<longleftrightarrow> event_kinds tail \<in>
     (if was_closed then {[compaction_end], [compaction_summary, compaction_end]}
      else {[], [compaction_summary], [compaction_summary, ''user/message'']})"

lemma close_failed_at:
  assumes f: "failed_attempt env evs f ps" and run: "close_failed opts env render owner f ps = ((f', closed'), ps')"
  shows "\<exists>M tail. at_log (evs @ M @ tail) ps' \<and> given_up closed' tail \<and>
    (end_goes_through env \<longrightarrow> closed')"
proof -
  from f obtain M tail where M: "at_log (evs @ M @ tail) ps"
    and closing: "tf_closing f \<longrightarrow> \<not> end_goes_through env"
    and kinds: "event_kinds tail \<in> (if tf_closing f then {[compaction_summary, ''user/message'']}
           else if tf_stage f = CommitStage then {[], [compaction_summary]} else {[]})"
    by (auto simp: failed_attempt_def)
  show ?thesis
  proof (cases "tf_closing f")
    case True
    with run M kinds closing show ?thesis by (auto simp: close_failed_def given_up_def simp del: split_paired_Ex)
  next
    case False
    let ?x = "[(''error'', JStr (render (tf_error f)))]"
    show ?thesis
    proof (cases "append_end opts env owner ?x ps" rule: prod.exhaust)
      case (Pair r p1)
      show ?thesis
      proof (cases r)
        case (Inl x)
        with Pair append_end_refused [OF M] have "at_log (evs @ M @ tail) p1" by blast
        moreover have "\<not> end_goes_through env" using append_end_succeeds [OF M, of env opts owner ?x] Pair Inl by auto
        ultimately show ?thesis using run False Pair Inl kinds
          by (fastforce simp: close_failed_def given_up_def split: if_splits)
      next
        case (Inr e)
        with Pair append_end_at [OF M] have e: "at_log (evs @ M @ (tail @ [e])) p1"
          "event_type (ev_data e) = compaction_end" by fastforce+
        with run False Pair Inr kinds show ?thesis
          by (intro exI [of _ M] exI [of _ "tail @ [e]"])
            (auto simp: close_failed_def given_up_def event_kinds_def split: if_splits)
      qed
    qed
  qed
qed

lemma transaction_outcome:
  assumes at: "at_log evs ps" and between: "only_appends Q between"
    and run: "compact_surface_region deps opts env render between outcome a b ps = (r, ps')"
  obtains (refused) x where "r = Inl x" "at_log evs ps'"
  | (committed) ns rs sl owner e M tail res where "fold_surface evs = Inr (ns, rs)" "region_check evs ns a b = Inr sl"
      "lock_free evs" "transaction_owner (to_manual opts) (inspect_compaction_entry_state evs) = Inr owner"
      "opened_by opts env owner e" "at_log (evs @ [e] @ M @ tail) ps'" "Q M"
      "committed deps opts env outcome evs sl owner e M tail res"
      "r = transaction_reply opts env True (Inr res)"
  | (given_up) owner e M tail f was_closed where "lock_free evs" "opened_by opts env owner e"
      "transaction_owner (to_manual opts) (inspect_compaction_entry_state evs) = Inr owner"
      "at_log (evs @ [e] @ M @ tail) ps'" "given_up was_closed tail"
      "r = transaction_reply opts env was_closed (Inl f)" "end_goes_through env \<Longrightarrow> was_closed"
proof -
  obtain ns rs where fold: "fold_surface evs = Inr (ns, rs)" using at_log_surface [OF at] by metis
  then have ns: "surface_of evs ns" by blast
  obtain q p1 where q: "open_transaction opts env a b ps = (q, p1)" using prod.exhaust by blast
  show ?thesis
  proof (cases q)
    case (Inl x)
    with run q have "r = Inl x" "ps' = p1" by (simp_all add: compact_surface_region_def op_bind_def)
    with op_triple_throwD [OF open_transaction_triple [OF ns] at] q Inl refused show ?thesis by blast
  next
    case (Inr v)
    obtain sl owner e where v: "v = (sl, owner, e)" using prod_cases3 by blast
    from op_triple_returnD [OF open_transaction_triple [OF ns] at q [unfolded Inr v]]
    have o: "at_log (evs @ [e]) p1" "region_check evs ns a b = Inr sl" "lock_free evs"
      "transaction_owner (to_manual opts) (inspect_compaction_entry_state evs) = Inr owner"
      "opened_by opts env owner e" by simp_all
    have grows: "\<And>ps. at_log (evs @ [e]) ps \<Longrightarrow> \<exists>M. at_log ((evs @ [e]) @ M) (between ps) \<and> Q M"
      using between unfolding only_appends_def by blast
    note attempt = attempt_triple [where deps = deps and opts = opts and env = env and outcome = outcome
        and sl = sl and owner = owner and start_event = e, OF grows]
    obtain t p2 where t: "attempt_transaction deps opts env between outcome sl owner e p1 = (t, p2)"
      using prod.exhaust by blast
    show ?thesis
    proof (cases t)
      case res: (Inr res)
      from op_triple_returnD [OF attempt o(1) t [unfolded res]] obtain M tail where
        "at_log (evs @ [e] @ M @ tail) p2" "Q M" "committed deps opts env outcome evs sl owner e M tail res"
        unfolding committed_def by fastforce
      moreover have "r = transaction_reply opts env True (Inr res)" "ps' = p2"
        using run q Inr v t res by (simp_all add: compact_surface_region_def op_bind_def run_bracket_def)
      ultimately show ?thesis using committed fold o(2-5) by blast
    next
      case f: (Inl f)
      have failed: "failed_attempt env (evs @ [e]) f p2"
        using op_triple_throwD [OF attempt o(1) t [unfolded f]] .
      obtain f' was_closed p3 where c: "close_failed opts env render owner f p2 = ((f', was_closed), p3)"
        using prod.exhaust by (metis (no_types))
      have r: "r = transaction_reply opts env was_closed (Inl f')" "ps' = p3"
        using run q Inr v t f c by (simp_all add: compact_surface_region_def op_bind_def run_bracket_def)
      from close_failed_at [OF failed c] obtain M tail where "at_log ((evs @ [e]) @ M @ tail) p3"
        "given_up was_closed tail" "end_goes_through env \<longrightarrow> was_closed" by blast
      with given_up o(3-5) r show ?thesis by simp
    qed
  qed
qed

subsection \<open>The lock\<close>

theorem busy_session_refuses_compaction:
  assumes "paired_reach ps" and "\<not> compaction_inactive (inspect_compaction_entry_state (ss_log (fst ps)))"
  shows "(\<exists>x. fst (compact_surface_region deps opts env render between outcome a b ps) = Inl x) \<and>
    ss_log (fst (snd (compact_surface_region deps opts env render between outcome a b ps))) = ss_log (fst ps)"
proof -
  let ?L = "ss_log (fst ps)"
  have at: "at_log ?L ps" using assms(1) by (rule paired_reach_at_log)
  obtain ns rs where "fold_surface ?L = Inr (ns, rs)" using at_log_surface [OF at] by metis
  then have ns: "surface_of ?L ns" by blast
  obtain q p1 where q: "open_transaction opts env a b ps = (q, p1)" using prod.exhaust by blast
  show ?thesis
  proof (cases q)
    case (Inl x)
    with q op_triple_throwD [OF open_transaction_triple [OF ns] at] show ?thesis
      by (simp add: compact_surface_region_def op_bind_def at_log_def)
  next
    case (Inr v)
    with q op_triple_returnD [OF open_transaction_triple [OF ns] at] assms(2) show ?thesis
      by (fastforce simp: lock_free_def)
  qed
qed

lemma lock_free_closed:
  assumes "contiguous (evs @ tail)" and "given_up True tail"
  shows "lock_free (evs @ tail)"
proof -
  from assms(2) have "tail \<noteq> []" "event_type (ev_data (last tail)) = compaction_end"
    by (auto simp: given_up_def event_kinds_def)
  then obtain xs e where "tail = xs @ [e]" "event_type (ev_data e) = compaction_end"
    by (metis append_butlast_last_id)
  with assms(1) lock_free_snoc [of "evs @ xs" e] show ?thesis by simp
qed

text \<open>
  Claim C24. However a transaction ends, when its end event can be written it leaves no
  lock: it either never opened its bracket or closed it.
\<close>

theorem transaction_releases_lock:
  assumes "paired_reach ps" and "only_appends Q between" and "end_goes_through env"
    and "compact_surface_region deps opts env render between outcome a b ps = (r, ps')"
  shows "ss_log (fst ps') = ss_log (fst ps) \<or>
    compaction_inactive (inspect_compaction_entry_state (ss_log (fst ps')))"
  using paired_reach_at_log [OF assms(1)] assms(2,4)
proof (cases rule: transaction_outcome)
  case (committed ns rs sl owner e M tail res)
  then obtain sm ck fin where "tail = [sm, ck, fin]" "event_type (ev_data fin) = compaction_end"
    by (auto simp: committed_def)
  with committed(6) at_log_contiguous [OF committed(6)]
    lock_free_snoc [of "ss_log (fst ps) @ [e] @ M @ [sm, ck]" fin]
  show ?thesis by (simp add: at_log_def lock_free_def)
next
  case (given_up owner e M tail f was_closed)
  with assms(3) at_log_contiguous [OF given_up(4)] lock_free_closed [of "ss_log (fst ps) @ [e] @ M" tail]
  show ?thesis by (simp add: at_log_def lock_free_def)
qed (simp add: at_log_def)

subsection \<open>The replaced span\<close>

lemma surface_prefix:
  assumes "fold_surface (evs @ rest) = Inr r"
  obtains ns rs where "fold_surface evs = Inr (ns, rs)"
proof -
  obtain st where "replay (surface_step 0) create_fold_state (evs @ rest) = (None, length (evs @ rest), st)"
    using fold_surface_replay [of "evs @ rest" "fst r" "snd r"] assms by auto
  then obtain t where "replay (surface_step 0) create_fold_state evs = (None, length evs, t)"
    using surface_log.replay_prefix by blast
  with surface_replay_fold that show ?thesis by blast
qed

lemma surface_facts:
  assumes "fold_surface evs = Inr (ns, rs)"
  shows "distinct ns" and "\<forall>n \<in> set ns. 0 \<le> n \<and> n < int (length evs)"
proof -
  obtain st where st: "replay (surface_step 0) create_fold_state evs = (None, length evs, st)" "nodes st = ns"
    using fold_surface_replay [OF assms] .
  show "distinct ns" "\<forall>n \<in> set ns. 0 \<le> n \<and> n < int (length evs)"
    using surface_log.replay_inv [OF st(1)] st(2) by (auto simp: surface_inv_def)
qed

lemma surface_snoc:
  assumes "fold_surface evs = Inr (ns, rs)" and "fold_surface (evs @ [e]) = Inr (ns', rs')"
  obtains st p where "nodes st = ns"
    "plan_surface_event st e (int (length evs)) evs 0 = Inr p" "ns' = nodes (fst (apply_surface_plan st p))"
proof -
  obtain st where st: "replay (surface_step 0) create_fold_state evs = (None, length evs, st)" "nodes st = ns"
    using fold_surface_replay [OF assms(1)] .
  obtain st' where st': "replay (surface_step 0) create_fold_state (evs @ [e]) = (None, length (evs @ [e]), st')"
      "nodes st' = ns'"
    using fold_surface_replay [OF assms(2)] .
  have "surface_step 0 evs (length evs) st e = Inr st'"
    using st(1) st'(1) by (auto simp: surface_log.replay_snoc_Some simp del: length_append)
  then obtain p where "plan_surface_event st e (int (length evs)) evs 0 = Inr p" "st' = fst (apply_surface_plan st p)"
    by (fastforce simp: surface_step_def apply_surface_event_def split: sum.splits)
  then show ?thesis using that st(2) st'(2) by auto
qed

lemma surface_log_only:
  assumes "fold_surface evs = Inr (ns, rs)" and "fold_surface (evs @ [e]) = Inr (ns', rs')"
    and "\<not> is_surface_eligible_type (event_type (ev_data e))"
  shows "ns' = ns"
proof -
  obtain st p where st: "nodes st = ns" "plan_surface_event st e (int (length evs)) evs 0 = Inr p"
      "ns' = nodes (fst (apply_surface_plan st p))"
    using surface_snoc [OF assms(1,2)] .
  from st(2) have "p = None"
    using assms(3) by (cases rule: plan_surface_event_cases)
      (auto simp: is_append_surface_event_def is_replacement_surface_event_def is_surface_event_def)
  with st show ?thesis by simp
qed

lemma surface_replaced:
  assumes "fold_surface evs = Inr (ns, rs)" and "fold_surface (evs @ [e]) = Inr (ns', rs')"
    and "surface_op_of e = Inr (Some (OpReplace a b))" and "index_of a ns = Some i" and "index_of b ns = Some j"
  shows "i \<le> j" and "ev_seq e = int (length evs)" and "ns' = js_splice ns i (j - i + 1) [ev_seq e]"
proof -
  obtain st p where st: "nodes st = ns" "plan_surface_event st e (int (length evs)) evs 0 = Inr p"
      "ns' = nodes (fst (apply_surface_plan st p))"
    using surface_snoc [OF assms(1,2)] .
  obtain i' j' sh where r: "ev_seq e = int (length evs)" "replacement_range st a b = Inr (i', j', sh)"
      "p = Some (PlanReplace \<lparr>rp_seq = int (length evs), rp_start = a, rp_end = b, rp_start_idx = i',
             rp_end_idx = j', rp_shadowed = sh\<rparr>)"
    using plan_replace_op [OF st(2) assms(3)] .
  have "i' = i" "j' = j" "i \<le> j"
    using r(2) assms(4,5) st(1) by (simp_all add: replacement_range_def split: if_splits)
  with r st show "i \<le> j" "ev_seq e = int (length evs)" "ns' = js_splice ns i (j - i + 1) [ev_seq e]"
    by simp_all
qed

lemma region_check_Inr:
  assumes "region_check evs ns a b = Inr sl"
  obtains i j where "index_of a ns = Some i" "index_of b ns = Some j" "i \<le> j" "j < length ns"
    "balanced_cut evs ns a 0 = Inr True" "balanced_cut evs ns b 1 = Inr True"
    "sl = \<lparr>sl_start = a, sl_end = b, sl_start_idx = i, sl_end_idx = j, sl_shadowed = js_slice ns i (j + 1)\<rparr>"
  using assms
  by (auto simp: region_check_def and_then_Inr_iff not_less split: option.splits if_splits sum.splits
      dest: index_of_SomeD simp: map_sum_Inr_iff)

lemma region_check_grow:
  assumes "\<forall>n \<in> set ns. 0 \<le> n \<and> n < int (length evs)"
  shows "region_check (evs @ rest) ns a b = region_check evs ns a b"
  unfolding region_check_def balanced_cut_grow [OF assms] by (rule refl)


text \<open>The meter prices the current surface nodes, in order.\<close>

definition meter_reports_surface :: "region_dependencies \<Rightarrow> bool" where
  "meter_reports_surface deps \<longleftrightarrow>
     (\<forall>s m ns rs. rd_measure deps s = Inr m \<longrightarrow> fold_surface (ss_log s) = Inr (ns, rs) \<longrightarrow>
        map pn_seq (ms_nodes m) = ns)"

lemma at_log_fold_prefix:
  assumes "at_log (evs @ rest) ps"
  obtains ns rs where "fold_surface evs = Inr (ns, rs)"
  using at_log_surface [OF assms] surface_prefix by metis

text \<open>The span is still a valid range of the surface when the summary is committed.\<close>

lemma committed_span:
  assumes fold: "fold_surface evs = Inr (ns0, rs0)" and check: "region_check evs ns0 a b = Inr sl"
    and start: "opened_by opts env owner e" and at: "at_log (evs @ [e] @ M @ tail) ps"
    and prepared: "prepared_at deps sl (evs @ [e]) pc" and stable: "span_stable deps opts pc (evs @ [e] @ M)"
    and meter: "meter_reports_surface deps" and ns: "fold_surface (evs @ [e] @ M) = Inr (ns, rs)"
  shows "\<exists>cur. region_check (evs @ [e] @ M) ns a b = Inr cur \<and> sl_shadowed cur = sl_shadowed sl"
proof -
  have sl: "pc_selection pc = sl" "sl_start sl = a" "sl_end sl = b"
    using prepared check by (auto simp: prepared_at_def elim: region_check_Inr)
  obtain ns1 rs1 where ns1: "fold_surface (evs @ [e]) = Inr (ns1, rs1)"
    using at_log_fold_prefix [of "evs @ [e]" "M @ tail" ps] at by auto
  have "ns1 = ns0"
    using surface_log_only [OF fold ns1] start
    by (simp add: opened_by_def is_surface_eligible_type_def message_types_def compaction_types)
  show ?thesis
  proof (cases "to_whole_surface opts")
    case True
    with stable prepared obtain s m s' m' where m: "ss_log s = evs @ [e] @ M" "rd_measure deps s = Inr m"
        "ss_log s' = evs @ [e]" "rd_measure deps s' = Inr m'" "ms_nodes m = ms_nodes m'"
      unfolding span_stable_def prepared_at_def by auto
    have "map pn_seq (ms_nodes m) = ns" "map pn_seq (ms_nodes m') = ns1"
      using meter m ns ns1 unfolding meter_reports_surface_def by metis+
    with m(5) \<open>ns1 = ns0\<close> have "ns = ns0" by simp
    note surface_facts(2) [OF fold]
    with \<open>ns = ns0\<close> check region_check_grow [of ns0 evs "[e] @ M"] show ?thesis by auto
  next
    case False
    with stable sl ns show ?thesis by (auto simp: span_stable_def)
  qed
qed

lemma surface_op_replace:
  assumes "ev_data x = UserMessage m" and "(ev_surface_op x, ev_sources x) = replace_meta a b sources"
    and "surface_op_of x = Inr op"
  shows "op = Some (OpReplace a b)"
  using assms
  by (auto simp: surface_op_of_def replace_meta_def is_replace_op_def has_own_def is_event_seq_Some_iff
      is_surface_eligible_type_def message_types_def Let_def split: option.splits if_splits)

lemma surface_accepts:
  assumes "fold_surface (evs @ [e]) = Inr r"
  obtains op where "surface_op_of e = Inr op"
proof -
  obtain ns rs where ns: "fold_surface evs = Inr (ns, rs)" using surface_prefix [OF assms] .
  obtain ns' rs' where "fold_surface (evs @ [e]) = Inr (ns', rs')" using assms by (cases r) auto
  from surface_snoc [OF ns this] obtain st p where
    "plan_surface_event st e (int (length evs)) evs 0 = Inr p" by metis
  then show ?thesis using that by (auto simp: plan_surface_event_def split: sum.splits if_splits)
qed

text \<open>What a committed transaction appended, and the surface at each of its events.\<close>

lemma committed_replacement:
  assumes fold: "fold_surface L = Inr (ns0, rs0)" and check: "region_check L ns0 a b = Inr sl"
    and start: "opened_by opts env owner e" and at: "at_log (L @ [e] @ M @ tail) ps'"
    and committed: "committed deps opts env outcome L sl owner e M tail res"
    and meter: "meter_reports_surface deps"
  obtains pc sr m sm ck fin ns rs r1 n2 r2 r3 cur where "tail = [sm, ck, fin]" "prepared_at deps sl (L @ [e]) pc"
    "body_events opts env pc sr m e sm ck"
    "ev_data fin = OtherEvent compaction_end (JObj (lifecycle (te_id env) (to_command opts) owner))"
    "res = complete_compaction (pending_of_commit opts env e sm pc sr) fin"
    "fold_surface (L @ [e] @ M) = Inr (ns, rs)" "fold_surface ((L @ [e] @ M) @ [sm]) = Inr (ns, r1)"
    "fold_surface (((L @ [e] @ M) @ [sm]) @ [ck]) = Inr (n2, r2)"
    "fold_surface ((((L @ [e] @ M) @ [sm]) @ [ck]) @ [fin]) = Inr (n2, r3)"
    "region_check (L @ [e] @ M) ns a b = Inr cur" "sl_shadowed cur = sl_shadowed sl"
    "pc_selection pc = sl" "sl_start sl = a" "sl_end sl = b" "surface_op_of ck = Inr (Some (OpReplace a b))"
proof -
  let ?B = "L @ [e] @ M"
  from committed obtain pc sr m sm ck fin where tail: "tail = [sm, ck, fin]"
    and prepared: "prepared_at deps sl (L @ [e]) pc" and stable: "span_stable deps opts pc ?B"
    and body: "body_events opts env pc sr m e sm ck"
    and fin: "ev_data fin = OtherEvent compaction_end (JObj (lifecycle (te_id env) (to_command opts) owner))"
    and res: "res = complete_compaction (pending_of_commit opts env e sm pc sr) fin"
    unfolding committed_def by blast
  obtain n3 r3 where "fold_surface (L @ [e] @ M @ tail) = Inr (n3, r3)"
    using at_log_surface [OF at] by metis
  then have n3: "fold_surface (((?B @ [sm]) @ [ck]) @ [fin]) = Inr (n3, r3)" by (simp add: tail)
  then obtain n2 r2 where n2: "fold_surface ((?B @ [sm]) @ [ck]) = Inr (n2, r2)" by (rule surface_prefix)
  obtain n1 r1 where n1: "fold_surface (?B @ [sm]) = Inr (n1, r1)" using surface_prefix [OF n2] .
  obtain ns rs where ns: "fold_surface ?B = Inr (ns, rs)" using surface_prefix [OF n1] .
  have plain: "\<not> is_surface_eligible_type (event_type (ev_data sm))" "\<not> is_surface_eligible_type (event_type (ev_data fin))"
    using body fin by (simp_all add: body_events_def is_surface_eligible_type_def message_types_def compaction_types)
  have "n1 = ns" using surface_log_only [OF ns n1 plain(1)] .
  have "n3 = n2" using surface_log_only [OF n2 n3 plain(2)] .
  obtain cur where cur: "region_check ?B ns a b = Inr cur" "sl_shadowed cur = sl_shadowed sl"
    using committed_span [OF fold check start at prepared stable meter ns] by blast
  have sel: "pc_selection pc = sl" "sl_start sl = a" "sl_end sl = b"
    using prepared check by (auto simp: prepared_at_def elim: region_check_Inr)
  have "surface_op_of ck = Inr (Some (OpReplace a b))"
    using surface_accepts [OF n2] surface_op_replace [of ck m a b] body sel by (metis body_events_def)
  with that tail prepared body fin res ns n1 n2 n3 cur sel \<open>n1 = ns\<close> \<open>n3 = n2\<close> show ?thesis by blast
qed

text \<open>
  Claim C15. A successful compaction appends its start, then, after whatever was appended
  meanwhile, the summary, the checkpoint and the end, with the sequence numbers it reports;
  the surface it leaves is the one before the checkpoint with exactly the reported span
  replaced by the checkpoint, and no tool result on it lacks its call.
\<close>

theorem compaction_replaces_the_span:
  assumes reach: "paired_reach ps" and between: "only_appends Q between" and meter: "meter_reports_surface deps"
    and run: "compact_surface_region deps opts env render between outcome a b ps = (Inr res, ps')"
  shows "\<exists>e M sm ck fin ns rs ns' rs' i.
    ss_log (fst ps') = ss_log (fst ps) @ [e] @ M @ [sm, ck, fin] \<and> Q M \<and>
    cr_start_seq res = ev_seq e \<and> cr_summary_seq res = ev_seq sm \<and> cr_end_seq res = ev_seq fin \<and>
    fold_surface (ss_log (fst ps) @ [e] @ M) = Inr (ns, rs) \<and>
    fold_surface (ss_log (fst ps')) = Inr (ns', rs') \<and>
    cr_shadowed res \<noteq> [] \<and> js_slice ns i (i + length (cr_shadowed res)) = cr_shadowed res \<and>
    ns' = js_splice ns i (length (cr_shadowed res)) [ev_seq ck] \<and>
    first_orphan (ss_log (fst ps')) ns' = None"
  using paired_reach_at_log [OF reach] between run
proof (cases rule: transaction_outcome)
  case (refused x)
  then show ?thesis by simp
next
  case (given_up owner e M tail f was_closed)
  then show ?thesis by (simp add: transaction_reply_def split: if_splits)
next
  case (committed ns0 rs0 sl owner e M tail res')
  let ?L = "ss_log (fst ps)" let ?B = "?L @ [e] @ M"
  from committed(9) have res': "res' = res" by (auto simp: transaction_reply_def split: if_splits)
  from committed(8) res' have "committed deps opts env outcome ?L sl owner e M tail res" by simp
  from committed(1,2,5,6) this meter obtain pc sr m sm ck fin ns rs r1 n2 r2 r3 cur where tail: "tail = [sm, ck, fin]"
    and body: "body_events opts env pc sr m e sm ck"
    and res: "res = complete_compaction (pending_of_commit opts env e sm pc sr) fin"
    and ns: "fold_surface ?B = Inr (ns, rs)" and n1: "fold_surface (?B @ [sm]) = Inr (ns, r1)"
    and n2: "fold_surface ((?B @ [sm]) @ [ck]) = Inr (n2, r2)"
    and n3: "fold_surface (((?B @ [sm]) @ [ck]) @ [fin]) = Inr (n2, r3)"
    and cur: "region_check ?B ns a b = Inr cur" "sl_shadowed cur = sl_shadowed sl"
    and sel: "pc_selection pc = sl" "sl_start sl = a" "sl_end sl = b"
    and op: "surface_op_of ck = Inr (Some (OpReplace a b))"
    by (rule committed_replacement)
  have at: "at_log (?B @ [sm, ck, fin]) ps'" using committed(6) tail by simp
  obtain i j where ij: "index_of a ns = Some i" "index_of b ns = Some j" "i \<le> j" "j < length ns"
    "balanced_cut ?B ns a 0 = Inr True" "balanced_cut ?B ns b 1 = Inr True"
    "cur = \<lparr>sl_start = a, sl_end = b, sl_start_idx = i, sl_end_idx = j, sl_shadowed = js_slice ns i (j + 1)\<rparr>"
    using region_check_Inr [OF cur(1)] .
  from surface_replaced [OF n1 n2 op] ij
  have n2_splice: "n2 = js_splice ns i (j - i + 1) [ev_seq ck]" and "ev_seq ck = int (length (?B @ [sm]))" by blast+
  have shadowed: "cr_shadowed res = js_slice ns i (j + 1)"
    using res sel cur(2) ij(7) by (simp add: complete_compaction_def pending_of_commit_def pending_compaction.defs compaction_result.defs)
  have len: "length (cr_shadowed res) = j - i + 1" using ij(3,4) shadowed by (simp add: js_slice_def)
  note st = surface_facts [OF ns]
  note dist = surface_facts(1) [OF n2]
  let ?F = "?B @ [sm, ck, fin]"
  have "first_orphan ?F n2 = None"
  proof -
    obtain i' where i': "first_orphan ?B ns = None" "index_of a ns = Some i'" "open_calls ?B ns (i' + 0) = 0"
      using balanced_cut_True [OF ij(5)] .
    obtain j' where j': "index_of b ns = Some j'" "open_calls ?B ns (j' + 1) = 0"
      using balanced_cut_True [OF ij(6)] by metis
    have grow: "open_calls ?F ns = open_calls ?B ns" using open_calls_grow [OF st(2), of "[sm, ck, fin]"] by blast
    have bal: "open_calls ?F ns i = 0" "open_calls ?F ns (Suc j) = 0"
      using i' j' ij(1,2) by (simp_all only: grow) simp_all
    have orphan: "first_orphan ?F ns = None" using i'(1) by (simp only: first_orphan_def grow)
    have "?F ! nat (ev_seq ck) = ck"
      using \<open>ev_seq ck = int (length (?B @ [sm]))\<close> by (simp add: nth_append)
    moreover have "event_delta ck = 0" using body by (simp add: event_delta_def body_events_def)
    ultimately have new: "event_delta (?F ! nat (ev_seq ck)) = 0" by simp
    from splice_keeps_cuts(1) [OF ij(3,4) bal new orphan n2_splice st(1) dist]
    show ?thesis by (rule balanced_cut_True)
  qed
  moreover have "cr_shadowed res \<noteq> []" using len by auto
  moreover have "js_slice ns i (i + length (cr_shadowed res)) = cr_shadowed res"
    using len ij(3) shadowed by simp
  moreover have "n2 = js_splice ns i (length (cr_shadowed res)) [ev_seq ck]"
    using n2_splice len by simp
  moreover have "cr_start_seq res = ev_seq e \<and> cr_summary_seq res = ev_seq sm \<and> cr_end_seq res = ev_seq fin"
    using res by (simp add: complete_compaction_def pending_of_commit_def pending_compaction.defs compaction_result.defs)
  moreover have "ss_log (fst ps') = ?L @ [e] @ M @ [sm, ck, fin]" using at by (simp add: at_log_def)
  ultimately show ?thesis using ns n3 committed(7)
    by (intro exI [of _ e] exI [of _ M] exI [of _ sm] exI [of _ ck] exI [of _ fin] exI [of _ ns] exI [of _ rs]
        exI [of _ n2] exI [of _ r3] exI [of _ i]) simp
qed


subsection \<open>A sample transaction\<close>

definition sample_deps :: region_dependencies where
  "sample_deps =
     \<lparr>rd_measure = (\<lambda>s. case fold_surface (ss_log s) of
         Inl _ \<Rightarrow> Inl ''surface''
       | Inr (ns, _) \<Rightarrow>
           if length ns \<le> 1000
           then Inr (let total = 1000 * of_nat (length ns) in
                     \<lparr>ms_revision = length (ss_log s), ms_baseline = EstimatedBaseline total, ms_delta = 0,
                      ms_total = total, ms_surface_tokens = total,
                      ms_nodes = map (\<lambda>n. \<lparr>pn_seq = n, pn_tokens = 1000\<rparr>) ns\<rparr>)
           else Inl ''large''),
      rd_estimate = (\<lambda>_. 10)\<rparr>"

lemma sample_deps_meter: "meter_reports_surface sample_deps"
  by (auto simp: meter_reports_surface_def sample_deps_def comp_def Let_def split: if_splits)

definition sample_options :: transaction_options where
  "sample_options = \<lparr>to_manual = False, to_whole_surface = True, to_command = None\<rparr>"

definition plain_append :: append_env where
  "plain_append = \<lparr>ae_time = 0, ae_appending = Some False, ae_throws = False\<rparr>"

definition sample_tx_env :: transaction_env where
  "sample_tx_env =
     \<lparr>te_id = ''k'', te_message_id = ''m9'', te_aborted_entry = False, te_aborted_summary = False,
      te_aborted_exit = False, te_start = plain_append, te_summary = plain_append,
      te_checkpoint = plain_append, te_end = plain_append, te_flush = None\<rparr>"

definition sample_summary :: summary_result where
  "sample_summary =
     \<lparr>sr_summary = [TextB ''s''], sr_provider = ''p'', sr_model = ''m'', sr_max_tokens = None,
      sr_usage = None, sr_raw_output = None, sr_stream_call = False\<rparr>"

definition sample_compaction :: "(region_error + compaction_result) \<times> paired_session" where
  "sample_compaction =
     compact_surface_region sample_deps sample_options sample_tx_env (\<lambda>_. ''e'') id (Inr sample_summary)
       1 1 (sample_session, None)"

lemma only_appends_id: "Q [] \<Longrightarrow> only_appends Q id"
  by (auto simp: only_appends_def intro: exI [of _ "[]"])

lemma sample_end_goes_through: "end_goes_through sample_tx_env"
  by (simp add: end_goes_through_def sample_tx_env_def plain_append_def)

lemma sample_compaction_Inr: "\<not> isl (fst sample_compaction)"
  by code_simp

lemma sample_compaction_run:
  "compact_surface_region sample_deps sample_options sample_tx_env (\<lambda>_. ''e'') id (Inr sample_summary)
     1 1 (sample_session, None) = (Inr (projr (fst sample_compaction)), snd sample_compaction)"
  using sample_compaction_Inr unfolding sample_compaction_def [symmetric] by (simp add: prod_eq_iff)

lemma compaction_replaces_the_span_witness:
  "\<exists>e M sm ck fin. ss_log (fst (snd sample_compaction)) = ss_log sample_session @ [e] @ M @ [sm, ck, fin] \<and>
     cr_shadowed (projr (fst sample_compaction)) \<noteq> []"
  using compaction_replaces_the_span [OF paired_sample_reach only_appends_id [of "\<lambda>_. True", OF TrueI] sample_deps_meter sample_compaction_run]
  by auto

lemma transaction_releases_lock_witness:
  "ss_log (fst (snd sample_compaction)) = ss_log (fst (sample_session, None :: balance_cache option)) \<or>
   compaction_inactive (inspect_compaction_entry_state (ss_log (fst (snd sample_compaction))))"
  by (rule transaction_releases_lock [OF paired_sample_reach only_appends_id [of "\<lambda>_. True", OF TrueI] sample_end_goes_through sample_compaction_run])

text \<open>A session whose compaction never ended.\<close>

definition locked_call :: append_call where
  "locked_call = env_call plain_append (OtherEvent compaction_start
     (JObj (lifecycle ''k'' None (Some 1)))) (None, None)"

definition locked_session :: session where
  "locked_session = snd (append_event locked_call sample_session)"

lemma locked_session_reach: "paired_reach (locked_session, None)"
proof -
  obtain r where "append_event locked_call sample_session = (r, locked_session)"
    unfolding locked_session_def by (metis prod.collapse)
  with paired_sample_reach show ?thesis by (rule paired_reach.appended)
qed

lemma busy_session_refuses_compaction_witness:
  "(\<exists>x. fst (compact_surface_region sample_deps sample_options sample_tx_env (\<lambda>_. ''e'') id (Inr sample_summary)
       1 1 (locked_session, None)) = Inl x) \<and>
   ss_log (fst (snd (compact_surface_region sample_deps sample_options sample_tx_env (\<lambda>_. ''e'') id
       (Inr sample_summary) 1 1 (locked_session, None)))) = ss_log locked_session"
proof -
  have "\<not> compaction_inactive (inspect_compaction_entry_state (ss_log (fst (locked_session, None :: balance_cache option))))"
    by code_simp
  from busy_session_refuses_compaction [OF locked_session_reach this] show ?thesis by simp
qed

end
