(* ===== verification/Compaction_Accepted.thy ===== *)
theory Compaction_Accepted
  imports Compaction_Region
begin

section \<open>The transaction passes the companion\<close>

text \<open>
  The transaction of \<^verbatim>\<open>compaction-basic/src/region.ts\<close> and the companion of
  \<^verbatim>\<open>compaction/src/invariant.ts\<close> are separate packages that meet in the log only. Here they are
  composed: what the transaction writes is what the companion accepts.
\<close>

lemma quiet_step:
  assumes "own_type e" and "\<not> is_turn_boundary (ev_data e)" and "validate_compaction_event tr e = Inr x"
  shows "live_bracket_step tr e = Inr (apply_staged x tr)"
proof -
  have "apply_turn_boundary (apply_staged x tr) (ev_data e) = (False, apply_staged x tr)"
    using assms(2) by (cases "ev_data e") (simp_all add: is_turn_boundary_def)
  with assms show ?thesis by (simp add: live_step_is_seed_step seed_step_nil validate_turn_boundary_def)
qed

text \<open>Events that neither bound a turn nor belong to a bracket, and are no checkpoint.\<close>

definition quiet_event :: "session_event \<Rightarrow> bool" where
  "quiet_event e \<longleftrightarrow> own_type e \<and> \<not> is_turn_boundary (ev_data e) \<and>
     \<not> is_bracket_type (event_type (ev_data e)) \<and>
     (case ev_data e of UserMessage m \<Rightarrow> \<not> is_compact_checkpoint_source (um_source m) | _ \<Rightarrow> True)"

lemma quiet_event_step:
  assumes "quiet_event e"
  shows "live_bracket_step tr e = Inr tr"
proof -
  have "validate_compaction_event tr e = Inr None"
    using assms by (cases "ev_data e")
      (auto simp: quiet_event_def validate_compaction_event_def is_bracket_type_def compaction_types)
  with quiet_step [of e tr None] assms show ?thesis by (simp add: quiet_event_def apply_staged_def)
qed

lemma quiet_events: "\<forall>e \<in> set M. quiet_event e \<Longrightarrow> live_brackets tr M = Inr tr"
  by (induction M) (simp_all add: quiet_event_step)

lemma plugin_event_step:
  assumes "ev_data e = OtherEvent k d" and "k \<in> {compaction_start, compaction_summary, compaction_end}"
    and "validate_compaction_event tr e = Inr (Some t)"
  shows "live_bracket_step tr e = Inr (tr\<lparr>bt_open := apply_compaction_transition t\<rparr>)"
  using assms(1,2) quiet_step [OF _ _ assms(3)]
  by (auto simp: own_type_def is_turn_boundary_def apply_staged_def compaction_types)

lemma data_field_optional:
  "k' \<noteq> k \<Longrightarrow> map_of (optional_field k v @ kvs) k' = map_of kvs k'"
  "map_of (optional_field k v @ kvs) k = (case v of None \<Rightarrow> map_of kvs k | Some x \<Rightarrow> Some (JStr x))"
  by (auto simp: optional_field_def split: option.splits)

definition good_ids :: "transaction_options \<Rightarrow> transaction_env \<Rightarrow> bool" where
  "good_ids opts env \<longleftrightarrow> te_id env \<noteq> [] \<and> to_command opts \<noteq> Some []"

lemma validate_optional_id_command:
  "cmd \<noteq> Some [] \<Longrightarrow> validate_optional_id (map_option JStr cmd) k = Inr cmd"
  by (cases cmd) (simp_all add: validate_optional_id_def validate_id_def)

lemma lifecycle_fields:
  "data_field (JObj (lifecycle cid cmd owner @ extra)) ''compactionId'' = Some (JStr cid)"
  "data_field (JObj (lifecycle cid cmd owner @ extra)) ''sourceCommandId'' =
     (case cmd of None \<Rightarrow> map_of extra ''sourceCommandId'' | Some x \<Rightarrow> Some (JStr x))"
  "data_field (JObj (lifecycle cid cmd owner @ extra)) ''turn'' = Some (owner_json owner)"
  by (auto simp: lifecycle_def data_field_optional simp del: map_of_append split: option.splits)

lemma start_step:
  assumes "opened_by opts env owner e" and "good_ids opts env" and "bt_open tr = None" and "owner = bt_turn tr"
  shows "live_bracket_step tr e = Inr (tr\<lparr>bt_open := Some \<lparr>ct_id = te_id env, ct_command = to_command opts,
    ct_start = ev_seq e, ct_turn = owner, ct_summarized = False\<rparr>\<rparr>)"
proof -
  let ?d = "JObj (lifecycle (te_id env) (to_command opts) owner)"
  have f: "data_field ?d ''compactionId'' = Some (JStr (te_id env))"
    "data_field ?d ''sourceCommandId'' = map_option JStr (to_command opts)"
    "data_field ?d ''turn'' = Some (owner_json owner)"
    using lifecycle_fields [of "te_id env" "to_command opts" owner "[]"] by (auto split: option.splits)
  have "validate_start tr (ev_seq e) ?d = Inr (StartT (te_id env) (to_command opts) (ev_seq e) owner)"
    using assms(2-4) f
    by (auto simp: validate_start_def good_ids_def validate_id_def validate_optional_id_command
        validate_owner_def owner_json_def split: option.splits)
  then have "validate_compaction_event tr e = Inr (Some (StartT (te_id env) (to_command opts) (ev_seq e) owner))"
    using assms(1) by (simp add: validate_compaction_event_def opened_by_def)
  from plugin_event_step [OF _ _ this] assms(1) show ?thesis by (simp add: opened_by_def)
qed

text \<open>The prices are counts, and all of them together are a safe integer.\<close>

definition meter_prices_counts :: "region_dependencies \<Rightarrow> bool" where
  "meter_prices_counts deps \<longleftrightarrow>
     (\<forall>s m. rd_measure deps s = Inr m \<longrightarrow>
        (\<exists>ks :: nat list. map pn_tokens (ms_nodes m) = map of_nat ks \<and> int (sum_list ks) \<le> max_safe))"

lemma of_nat_sum_list: "sum_list (map of_nat ks) = (of_nat (sum_list ks) :: rat)"
  by (induction ks) simp_all

lemma price_safe:
  assumes "meter_prices_counts deps" and "prepared_at deps sl evs pc"
  obtains k where "json_safe_int (JNum (pc_tokens pc)) = Some k" "0 \<le> k"
proof -
  obtain s m where m: "rd_measure deps s = Inr m" "pc_nodes pc = ms_nodes m"
      "pc_selected pc = js_slice (pc_nodes pc) (sl_start_idx sl) (sl_end_idx sl + 1)"
      "pc_tokens pc = sum_list (map pn_tokens (pc_selected pc))"
    using assms(2) by (auto simp: prepared_at_def)
  obtain ks :: "nat list" where ks: "map pn_tokens (ms_nodes m) = map of_nat ks" "int (sum_list ks) \<le> max_safe"
    using assms(1) m(1) unfolding meter_prices_counts_def by blast
  define i n where "i = sl_start_idx sl" and "n = sl_end_idx sl + 1 - sl_start_idx sl"
  have "map pn_tokens (pc_selected pc) = take n (drop i (map pn_tokens (ms_nodes m)))"
    using m(2,3) by (simp add: js_slice_def i_def n_def take_map drop_map)
  then have tokens: "pc_tokens pc = of_nat (sum_list (take n (drop i ks)))"
    using m(4) ks(1) by (simp add: take_map drop_map of_nat_sum_list)
  have "sum_list ks = sum_list (take i ks) + (sum_list (take n (drop i ks)) + sum_list (drop n (drop i ks)))"
    by (metis append_take_drop_id sum_list_append)
  with ks(2) have "safe_int (int (sum_list (take n (drop i ks))))"
    by (simp add: safe_int_def max_safe_def)
  with tokens that show ?thesis by simp
qed


lemma summary_fields:
  fixes opts env pc sr
  defines "d \<equiv> JObj (summary_data opts env pc sr)"
  shows "data_field d ''compactionId'' = Some (JStr (te_id env))"
    and "data_field d ''sourceCommandId'' = map_option JStr (to_command opts)"
    and "data_field d ''shadowedSeqs'' = Some (JArr (map jint (sl_shadowed (pc_selection pc))))"
    and "nested_field d ''shadowedRange'' ''start'' = Some (jint (sl_start (pc_selection pc)))"
    and "nested_field d ''shadowedRange'' ''end'' = Some (jint (sl_end (pc_selection pc)))"
    and "data_field d ''shadowedTokenCount'' = Some (JNum (pc_tokens pc))"
proof -
  let ?tail = "[(''shadowedRange'', JObj [(''start'', jint (sl_start (pc_selection pc))), (''end'', jint (sl_end (pc_selection pc)))]),
        (''shadowedSeqs'', JArr (map jint (sl_shadowed (pc_selection pc)))),
        (''shadowedTokenCount'', JNum (pc_tokens pc)),
        (''provider'', JStr (sr_provider sr)), (''model'', JStr (sr_model sr))]
     @ (case sr_max_tokens sr of None \<Rightarrow> [] | Some k \<Rightarrow> [(''maxTokens'', JNum k)])
     @ (case sr_usage sr of None \<Rightarrow> [] | Some u \<Rightarrow> [(''usage'', u)])"
  have prov: "map_of (call_provenance sr @ kvs) k = map_of kvs k"
    if "k \<noteq> ''rawOutput''" "k \<noteq> ''llmStreamCall''" for k kvs
    using that by (auto simp: call_provenance_def split: option.splits)
  have other: "map_of (optional_field ''sourceCommandId'' (to_command opts) @ kvs) k = map_of kvs k"
    if "k \<noteq> ''sourceCommandId''" for k kvs using that by (rule data_field_optional(1))
  have rest: "map_of (summary_data opts env pc sr) k = map_of ?tail k"
    if "k \<in> {''shadowedRange'', ''shadowedSeqs'', ''shadowedTokenCount''}" for k
    using that by (auto simp: summary_data_def other prov simp del: map_of_append)
  show "data_field d ''compactionId'' = Some (JStr (te_id env))" by (simp add: d_def summary_data_def)
  show "data_field d ''sourceCommandId'' = map_option JStr (to_command opts)"
    by (cases "to_command opts")
      (auto simp: d_def summary_data_def optional_field_def prov simp del: map_of_append split: option.splits)
  show "data_field d ''shadowedSeqs'' = Some (JArr (map jint (sl_shadowed (pc_selection pc))))"
    "nested_field d ''shadowedRange'' ''start'' = Some (jint (sl_start (pc_selection pc)))"
    "nested_field d ''shadowedRange'' ''end'' = Some (jint (sl_end (pc_selection pc)))"
    "data_field d ''shadowedTokenCount'' = Some (JNum (pc_tokens pc))"
    by (simp_all add: d_def nested_field_def rest)
qed

text \<open>The open bracket of a transaction.\<close>

definition bracket_of ::
  "transaction_options \<Rightarrow> transaction_env \<Rightarrow> int option \<Rightarrow> session_event \<Rightarrow> bool \<Rightarrow> compaction_trace" where
  "bracket_of opts env owner e summarized =
     \<lparr>ct_id = te_id env, ct_command = to_command opts, ct_start = ev_seq e, ct_turn = owner,
      ct_summarized = summarized\<rparr>"

lemma open_bracket_of:
  assumes "good_ids opts env" and "bt_open tr = Some (bracket_of opts env owner e b)"
    and "data_field d ''compactionId'' = Some (JStr (te_id env))"
    and "data_field d ''sourceCommandId'' = map_option JStr (to_command opts)"
  shows "open_bracket tr kind d = Inr (bracket_of opts env owner e b)"
  using assms
  by (simp add: open_bracket_def good_ids_def validate_id_def validate_optional_id_command
      validate_source_command_id_def bracket_of_def)

lemma validate_owner_same: "validate_owner (Some (owner_json t)) t k = Inr ()"
  by (auto simp: validate_owner_def owner_json_def split: option.splits)

lemma summary_step:
  assumes ids: "good_ids opts env" and open': "bt_open tr = Some (bracket_of opts env owner e False)"
    and turn: "bt_turn tr = owner"
    and sm: "ev_data sm = OtherEvent compaction_summary (JObj (summary_data opts env pc sr))"
    and sel: "sl_shadowed (pc_selection pc) \<noteq> []" "hd (sl_shadowed (pc_selection pc)) = sl_start (pc_selection pc)"
      "last (sl_shadowed (pc_selection pc)) = sl_end (pc_selection pc)"
    and price: "json_safe_int (JNum (pc_tokens pc)) = Some k" "0 \<le> k"
  shows "live_bracket_step tr sm = Inr (tr\<lparr>bt_open := Some (bracket_of opts env owner e True)\<rparr>)"
proof -
  let ?d = "JObj (summary_data opts env pc sr)"
  note f = summary_fields [of opts env pc sr]
  have "validate_summary tr ?d = Inr (SummaryT (te_id env) (to_command opts) (ev_seq e) owner)"
    using open_bracket_of [OF ids open' f(1,2)] turn sel price f(3-6)
    by (simp add: validate_summary_def validate_owner_same hd_map last_map bracket_of_def)
  then have "validate_compaction_event tr sm =
      Inr (Some (SummaryT (te_id env) (to_command opts) (ev_seq e) owner))"
    using sm by (simp add: validate_compaction_event_def)
  from plugin_event_step [OF sm _ this] show ?thesis by (simp add: bracket_of_def)
qed

lemma checkpoint_step:
  assumes ids: "good_ids opts env" and open': "bt_open tr = Some (bracket_of opts env owner e b)"
    and ck: "ev_data ck = UserMessage (checkpoint_message opts env sr)"
  shows "live_bracket_step tr ck = Inr tr"
proof -
  let ?src = "JObj ([(''plugin'', JStr ''compact''), (''compactionId'', JStr (te_id env))]
       @ optional_field ''sourceCommandId'' (to_command opts))"
  have f: "data_field ?src ''compactionId'' = Some (JStr (te_id env))"
    "data_field ?src ''sourceCommandId'' = map_option JStr (to_command opts)"
    by (simp_all add: optional_field_def split: option.splits)
  have "validate_checkpoint tr ?src = Inr ()"
    using ids open' f by (simp add: validate_checkpoint_def validate_id_def good_ids_def
        validate_optional_id_command validate_source_command_id_def bracket_of_def)
  then have "validate_compaction_event tr ck = Inr None"
    using ck by (simp add: validate_compaction_event_def checkpoint_message_def compact_checkpoint_source_def)
  with quiet_step [of ck tr None] ck show ?thesis
    by (simp add: own_type_def is_turn_boundary_def apply_staged_def)
qed

lemma end_step:
  assumes ids: "good_ids opts env" and open': "bt_open tr = Some (bracket_of opts env owner e True)"
    and turn: "bt_turn tr = owner"
    and fin: "ev_data fin = OtherEvent compaction_end (JObj (lifecycle (te_id env) (to_command opts) owner))"
  shows "live_bracket_step tr fin = Inr (tr\<lparr>bt_open := None\<rparr>)"
proof -
  let ?d = "JObj (lifecycle (te_id env) (to_command opts) owner)"
  have f: "data_field ?d ''compactionId'' = Some (JStr (te_id env))"
    "data_field ?d ''sourceCommandId'' = map_option JStr (to_command opts)"
    "data_field ?d ''turn'' = Some (owner_json owner)"
    using lifecycle_fields [of "te_id env" "to_command opts" owner "[]"] by (auto split: option.splits)
  have "validate_end tr ?d = Inr EndT"
    using open_bracket_of [OF ids open' f(1,2)] turn f(3)
    by (simp add: validate_end_def validate_owner_same bracket_of_def)
  then have "validate_compaction_event tr fin = Inr (Some EndT)"
    using fin by (simp add: validate_compaction_event_def)
  from plugin_event_step [OF fin _ this] show ?thesis by simp
qed

lemma owner_is_open_turn:
  assumes "transaction_owner manual (inspect_compaction_entry_state evs) = Inr owner"
    and "last_turn evs None = t"
  shows "owner = t"
  using assms by (auto simp: transaction_owner_def inspect_entry_state split: if_splits option.splits)

lemma slice_ends:
  assumes "i \<le> j" and "j < length ns"
  shows "js_slice ns i (j + 1) \<noteq> []" "hd (js_slice ns i (j + 1)) = ns ! i" "last (js_slice ns i (j + 1)) = ns ! j"
  using assms by (auto simp: js_slice_def hd_take hd_drop_conv_nth last_conv_nth)

text \<open>
  Claim C16. A successful transaction on a session whose log the compaction companion
  accepted writes only events the companion accepts, whatever quiet events came in between,
  and leaves no bracket open.
\<close>

theorem transaction_passes_companion:
  assumes reach: "paired_reach ps" and own: "\<forall>e \<in> set (ss_log (fst ps)). own_type e"
    and live: "live_brackets fresh_bracket_trace (ss_log (fst ps)) = Inr tr"
    and between: "only_appends (list_all quiet_event) between"
    and ids: "good_ids opts env" and meter: "meter_prices_counts deps"
    and run: "compact_surface_region deps opts env render between outcome a b ps = (Inr res, ps')"
  shows "live_brackets fresh_bracket_trace (ss_log (fst ps')) = Inr (tr\<lparr>bt_open := None\<rparr>)"
  using paired_reach_at_log [OF reach] between run
proof (cases rule: transaction_outcome)
  case (refused x)
  then show ?thesis by simp
next
  case (given_up owner e M tail f was_closed)
  then show ?thesis by (simp add: transaction_reply_def split: if_splits)
next
  case (committed ns rs sl owner e M tail res')
  let ?L = "ss_log (fst ps)"
  from committed(8) obtain pc sr m sm ck fin where tail: "tail = [sm, ck, fin]"
    and prepared: "prepared_at deps sl (?L @ [e]) pc"
    and sum: "summarize_compaction deps opts env pc outcome = Inr (sr, m)"
    and body: "body_events opts env pc sr m e sm ck"
    and fin: "ev_data fin = OtherEvent compaction_end (JObj (lifecycle (te_id env) (to_command opts) owner))"
    unfolding committed_def by blast
  have at: "at_log ?L ps" using paired_reach_at_log [OF reach] .
  have "lock_free ?L \<longleftrightarrow> bt_open tr = None"
    using lock_agrees_with_trace [OF own at_log_contiguous [OF at] live] .
  with committed(3) have free: "bt_open tr = None" by simp
  have "last_turn ?L None = bt_turn tr" using live_brackets_ok [OF own live] by (simp add: bracket_ok_def)
  with committed(4) have owner: "owner = bt_turn tr" by (rule owner_is_open_turn)
  define t1 where "t1 = tr\<lparr>bt_open := Some (bracket_of opts env owner e False)\<rparr>"
  define t2 where "t2 = tr\<lparr>bt_open := Some (bracket_of opts env owner e True)\<rparr>"
  have s1: "live_bracket_step tr e = Inr t1"
    using start_step [OF committed(5) ids free owner] by (simp add: t1_def bracket_of_def)
  have s2: "live_brackets t1 M = Inr t1" using committed(7) by (intro quiet_events) (simp add: list_all_iff)
  have sl: "pc_selection pc = sl" using prepared by (simp add: prepared_at_def)
  obtain i j where ij: "i \<le> j" "j < length ns" "ns ! i = a" "ns ! j = b"
    "sl = \<lparr>sl_start = a, sl_end = b, sl_start_idx = i, sl_end_idx = j, sl_shadowed = js_slice ns i (j + 1)\<rparr>"
    using region_check_Inr [OF committed(2)] index_of_SomeD by metis
  obtain k where k: "json_safe_int (JNum (pc_tokens pc)) = Some k" "0 \<le> k"
    using price_safe [OF meter prepared] .
  have s3: "live_bracket_step t1 sm = Inr t2"
    using summary_step [OF ids, of t1 owner e sm pc sr k] body slice_ends [OF ij(1,2)] ij(3-5) k sl owner
    by (simp add: t1_def t2_def body_events_def)
  have "m = checkpoint_message opts env sr"
    using sum by (auto simp: summarize_compaction_def and_then_Inr_iff Let_def split: if_splits)
  then have s4: "live_bracket_step t2 ck = Inr t2"
    using checkpoint_step [OF ids, of t2 owner e True ck sr] body by (simp add: t2_def body_events_def)
  have s5: "live_bracket_step t2 fin = Inr (tr\<lparr>bt_open := None\<rparr>)"
    using end_step [OF ids, of t2 owner e fin] fin owner by (simp add: t2_def)
  have "ss_log (fst ps') = ?L @ [e] @ M @ [sm, ck, fin]" using committed(6) tail by (simp add: at_log_def)
  with live s1 s2 s3 s4 s5 show ?thesis by (simp add: live_brackets_append)
qed


lemma sample_deps_prices: "meter_prices_counts sample_deps"
  unfolding meter_prices_counts_def
proof (intro allI impI)
  fix s m assume "rd_measure sample_deps s = Inr m"
  then obtain ns where ns: "length ns \<le> 1000" "ms_nodes m = map (\<lambda>n. \<lparr>pn_seq = n, pn_tokens = 1000\<rparr>) ns"
    by (auto simp: sample_deps_def Let_def split: sum.splits prod.splits if_splits)
  have "map pn_tokens (ms_nodes m) = map of_nat (replicate (length ns) 1000)"
    using ns(2) by (simp add: map_replicate_const comp_def)
  moreover have "int (sum_list (replicate (length ns) 1000)) \<le> max_safe"
    using ns(1) by (simp add: sum_list_replicate max_safe_def)
  ultimately show "\<exists>ks :: nat list. map pn_tokens (ms_nodes m) = map of_nat ks \<and> int (sum_list ks) \<le> max_safe"
    by blast
qed

definition sample_trace :: bracket_trace where
  "sample_trace = projr (live_brackets fresh_bracket_trace (ss_log sample_session))"

lemma transaction_passes_companion_witness:
  "live_brackets fresh_bracket_trace (ss_log (fst (snd sample_compaction))) = Inr (sample_trace\<lparr>bt_open := None\<rparr>)"
proof (rule transaction_passes_companion [OF paired_sample_reach _ _ only_appends_id _ sample_deps_prices
      sample_compaction_run])
  show "\<forall>e \<in> set (ss_log (fst (sample_session, None :: balance_cache option))). own_type e" by code_simp
  show "live_brackets fresh_bracket_trace (ss_log (fst (sample_session, None :: balance_cache option))) = Inr sample_trace"
    by code_simp
  show "list_all quiet_event []" by simp
  show "good_ids sample_options sample_tx_env" by (simp add: good_ids_def sample_options_def sample_tx_env_def)
qed

end
