(* ===== verification/Session_Trace.thy ===== *)
theory Session_Trace
  imports Session_Types
begin

section \<open>The relational invariants of a session log\<close>

text \<open>
  Model of \<^verbatim>\<open>packages/core/session/src/invariant.ts\<close>: the trace the companion keeps per
  session, the validation of a candidate event against it and the deferred transition it
  returns, and the seeding of a trace from a stored log. A failed check throws
  (\<open>InvariantFailure\<close> never returns).
\<close>

definition tool_not_started :: string where
  "tool_not_started = ''TOOL_NOT_STARTED''"

definition tool_outcome_unknown :: string where
  "tool_outcome_unknown = ''TOOL_OUTCOME_UNKNOWN''"

record session_trace =
  last_seq :: int
  open_turn :: "int option"
  open_step :: "int option"
  next_turn :: int
  next_step :: int
  pending_calls :: "call_id set"

datatype call_change = NoCall | AddCall call_id | DeleteCall call_id | ClearCalls

record trace_scalars =
  ts_last_seq :: int
  ts_open_turn :: "int option"
  ts_open_step :: "int option"
  ts_next_turn :: int
  ts_next_step :: int

type_synonym trace_transition = "trace_scalars \<times> call_change"

datatype trace_error =
    SeqNotIncreasing int int
  | TurnStillOpen int int
  | WrongTurn int int
  | TurnMismatch int "int option"
  | StepStillOpenAtTurnEnd int int
  | StepOutsideTurn int "int option"
  | StepStillOpen int int
  | WrongStep int int
  | NotOpenStep string int int
  | RewriteOutsideTurn
  | ResultWithoutCall call_id
  | OutsideTurn string

definition fresh_trace :: session_trace where
  "fresh_trace = \<lparr>last_seq = - 1, open_turn = None, open_step = None, next_turn = 1,
     next_step = 1, pending_calls = {}\<rparr>"

definition require_open_step :: "session_trace \<Rightarrow> string \<Rightarrow> int \<Rightarrow> int \<Rightarrow> trace_error option" where
  "require_open_step tr kind turn step =
     (if open_turn tr \<noteq> Some turn \<or> open_step tr \<noteq> Some step
      then Some (NotOpenStep kind turn step) else None)"

definition scalars_of :: "session_trace \<Rightarrow> int \<Rightarrow> trace_scalars" where
  "scalars_of tr n = \<lparr>ts_last_seq = n, ts_open_turn = open_turn tr, ts_open_step = open_step tr,
     ts_next_turn = next_turn tr, ts_next_step = next_step tr\<rparr>"

text \<open>The relation of one event to the trace, after the sequence check.\<close>

fun validate_data ::
  "session_trace \<Rightarrow> int \<Rightarrow> json option \<Rightarrow> event_data \<Rightarrow> trace_error + trace_transition"
where
  "validate_data tr n op (TurnStart t) =
     (case open_turn tr of
        Some o' \<Rightarrow> Inl (TurnStillOpen t o')
      | None \<Rightarrow>
          if t \<noteq> next_turn tr then Inl (WrongTurn (next_turn tr) t)
          else Inr ((scalars_of tr n)\<lparr>ts_open_turn := Some t, ts_next_step := 1\<rparr>, NoCall))"
| "validate_data tr n op (TurnEnd t _) =
     (if open_turn tr \<noteq> Some t then Inl (TurnMismatch t (open_turn tr))
      else
        (case open_step tr of
           Some s \<Rightarrow> Inl (StepStillOpenAtTurnEnd t s)
         | None \<Rightarrow>
             Inr ((scalars_of tr n)\<lparr>ts_open_turn := None, ts_next_turn := next_turn tr + 1\<rparr>,
               NoCall)))"
| "validate_data tr n op (StepStart t s) =
     (if open_turn tr \<noteq> Some t then Inl (StepOutsideTurn t (open_turn tr))
      else
        (case open_step tr of
           Some s' \<Rightarrow> Inl (StepStillOpen s s')
         | None \<Rightarrow>
             if s \<noteq> next_step tr then Inl (WrongStep (next_step tr) s)
             else Inr ((scalars_of tr n)\<lparr>ts_open_step := Some s\<rparr>, NoCall)))"
| "validate_data tr n op (StepEnd t s) =
     (case require_open_step tr ''step/end'' t s of
        Some x \<Rightarrow> Inl x
      | None \<Rightarrow>
          Inr ((scalars_of tr n)\<lparr>ts_open_step := None, ts_next_step := next_step tr + 1\<rparr>,
            ClearCalls))"
| "validate_data tr n op (AssistantChunk t s _) =
     (case require_open_step tr ''assistant/chunk'' t s of
        Some x \<Rightarrow> Inl x | None \<Rightarrow> Inr (scalars_of tr n, NoCall))"
| "validate_data tr n op (AssistantMessage t s _ _) =
     (case require_open_step tr ''assistant/message'' t s of
        Some x \<Rightarrow> Inl x | None \<Rightarrow> Inr (scalars_of tr n, NoCall))"
| "validate_data tr n op (ToolCall t s c _ _) =
     (case require_open_step tr ''tool/call'' t s of
        Some x \<Rightarrow> Inl x | None \<Rightarrow> Inr (scalars_of tr n, AddCall c))"
| "validate_data tr n op (ToolResult d) =
     (if op \<noteq> Some (JStr ''append'') then
        (if open_turn tr = None then Inl RewriteOutsideTurn else Inr (scalars_of tr n, NoCall))
      else
        (case require_open_step tr ''tool/result'' (tr_turn d) (tr_step d) of
           Some x \<Rightarrow> Inl x
         | None \<Rightarrow>
             (let c = trm_call (tr_message d);
                  synthetic = trm_is_error (tr_message d) = Some True
                    \<and> map_option snd (tr_error d) = Some tool_not_started
              in if c \<notin> pending_calls tr \<and> \<not> synthetic then Inl (ResultWithoutCall c)
                 else Inr (scalars_of tr n, DeleteCall c))))"
| "validate_data tr n op (TodoWrite _) =
     (if open_turn tr = None then Inl (OutsideTurn ''todo/write'') else Inr (scalars_of tr n, NoCall))"
| "validate_data tr n op (RequestHeader _ _) =
     (if open_turn tr = None then Inl (OutsideTurn ''request/header'') else Inr (scalars_of tr n, NoCall))"
| "validate_data tr n op (RequestContext _) =
     (if open_turn tr = None then Inl (OutsideTurn ''request/context'') else Inr (scalars_of tr n, NoCall))"
| "validate_data tr n op _ = Inr (scalars_of tr n, NoCall)"

definition validate_event :: "session_trace \<Rightarrow> session_event \<Rightarrow> trace_error + trace_transition" where
  "validate_event tr e =
     (if ev_seq e \<le> last_seq tr then Inl (SeqNotIncreasing (ev_seq e) (last_seq tr))
      else validate_data tr (ev_seq e) (ev_surface_op e) (ev_data e))"

fun change_calls :: "call_change \<Rightarrow> call_id set \<Rightarrow> call_id set" where
  "change_calls NoCall cs = cs"
| "change_calls (AddCall c) cs = insert c cs"
| "change_calls (DeleteCall c) cs = cs - {c}"
| "change_calls ClearCalls cs = {}"

definition apply_transition :: "session_trace \<Rightarrow> trace_transition \<Rightarrow> session_trace" where
  "apply_transition tr t =
     \<lparr>last_seq = ts_last_seq (fst t), open_turn = ts_open_turn (fst t),
      open_step = ts_open_step (fst t), next_turn = ts_next_turn (fst t),
      next_step = ts_next_step (fst t), pending_calls = change_calls (snd t) (pending_calls tr)\<rparr>"

text \<open>Seeding a trace from a stored log validates and applies every event in order.\<close>

definition trace_step ::
  "session_event list \<Rightarrow> nat \<Rightarrow> session_trace \<Rightarrow> session_event \<Rightarrow> trace_error + session_trace"
where
  "trace_step evs i tr e =
     (case validate_event tr e of Inl x \<Rightarrow> Inl x | Inr t \<Rightarrow> Inr (apply_transition tr t))"

definition seed_trace :: "session_event list \<Rightarrow> trace_error + session_trace" where
  "seed_trace evs =
     (case replay trace_step fresh_trace evs of
        (Some x, _, _) \<Rightarrow> Inl x | (None, _, tr) \<Rightarrow> Inr tr)"

subsection \<open>Lemmas\<close>

text \<open>
  What an accepted log keeps true: no step is open outside a turn, and every call that
  awaits its result was made in the open step.
\<close>

definition trace_wf :: "session_trace \<Rightarrow> bool" where
  "trace_wf tr \<longleftrightarrow>
     (open_turn tr = None \<longrightarrow> open_step tr = None) \<and>
     (open_step tr = None \<longrightarrow> pending_calls tr = {}) \<and>
     (case open_turn tr of None \<Rightarrow> True | Some t \<Rightarrow> t = next_turn tr) \<and>
     (case open_step tr of None \<Rightarrow> True | Some s \<Rightarrow> s = next_step tr)"

lemmas trace_defs = trace_step_def validate_event_def apply_transition_def scalars_of_def
  require_open_step_def Let_def

lemma trace_step_wf:
  assumes "trace_wf tr" and "trace_step evs i tr e = Inr tr'"
  shows "trace_wf tr'"
  using assms
  by (cases "ev_data e") (auto simp: trace_defs trace_wf_def split: if_splits option.splits)

interpretation trace_log: log_replay trace_step fresh_trace "\<lambda>_. trace_wf"
proof unfold_locales
  show "trace_wf fresh_trace" by (simp add: trace_wf_def fresh_trace_def)
qed (auto intro: trace_step_wf simp: trace_step_def)

lemma seed_trace_Inr_iff:
  "seed_trace evs = Inr tr \<longleftrightarrow> replay trace_step fresh_trace evs = (None, length evs, tr)"
proof -
  obtain r n t where run: "replay trace_step fresh_trace evs = (r, n, t)"
    using prod_cases3 by blast
  show ?thesis
  proof (cases r)
    case None
    with run trace_log.replay_length have "n = length evs" by blast
    with run None show ?thesis by (auto simp: seed_trace_def)
  qed (use run in \<open>auto simp: seed_trace_def\<close>)
qed

lemma seed_trace_snoc:
  "seed_trace (evs @ [e]) = Inr tr' \<longleftrightarrow>
     (\<exists>tr. seed_trace evs = Inr tr \<and> trace_step evs (length evs) tr e = Inr tr')"
  by (auto simp: seed_trace_Inr_iff trace_log.replay_snoc_Some)

lemma seed_trace_Nil [simp]: "seed_trace [] = Inr fresh_trace"
  by (simp add: seed_trace_def)

lemma seed_trace_induct [consumes 1, case_names Nil snoc]:
  assumes "seed_trace evs = Inr tr"
    and "P [] fresh_trace"
    and "\<And>evs e tr tr'. seed_trace evs = Inr tr \<Longrightarrow> trace_wf tr \<Longrightarrow> P evs tr \<Longrightarrow>
           trace_step evs (length evs) tr e = Inr tr' \<Longrightarrow> P (evs @ [e]) tr'"
  shows "P evs tr"
  using assms(1) [unfolded seed_trace_Inr_iff]
proof (induction rule: trace_log.replay_induct)
  case Nil
  show ?case by (rule assms(2))
next
  case (snoc evs e s s')
  then show ?case by (intro assms(3)) (auto simp: seed_trace_Inr_iff)
qed

lemma seed_trace_wf: "seed_trace evs = Inr tr \<Longrightarrow> trace_wf tr"
  by (auto simp: seed_trace_Inr_iff dest: trace_log.replay_inv)

lemma trace_step_last_seq: "trace_step evs i tr e = Inr tr' \<Longrightarrow> last_seq tr < ev_seq e \<and> last_seq tr' = ev_seq e"
  by (cases "ev_data e") (auto simp: trace_defs split: if_splits option.splits)

lemma seed_trace_last_seq:
  "seed_trace evs = Inr tr \<Longrightarrow> evs \<noteq> [] \<Longrightarrow> last_seq tr = ev_seq (last evs)"
  by (induction rule: seed_trace_induct) (auto dest: trace_step_last_seq)

subsection \<open>Numbering of turns\<close>

fun turn_starts :: "session_event list \<Rightarrow> int list" where
  "turn_starts [] = []"
| "turn_starts (e # es) = (case ev_data e of TurnStart t \<Rightarrow> [t] | _ \<Rightarrow> []) @ turn_starts es"

fun turn_ends :: "session_event list \<Rightarrow> int list" where
  "turn_ends [] = []"
| "turn_ends (e # es) = (case ev_data e of TurnEnd t _ \<Rightarrow> [t] | _ \<Rightarrow> []) @ turn_ends es"

lemma turn_starts_append [simp]: "turn_starts (xs @ ys) = turn_starts xs @ turn_starts ys"
  by (induction xs) auto

lemma turn_ends_append [simp]: "turn_ends (xs @ ys) = turn_ends xs @ turn_ends ys"
  by (induction xs) auto

text \<open>The completed turns are \<open>1 \<dots> next_turn - 1\<close>; an open turn is the next one.\<close>

definition turns_counted :: "session_event list \<Rightarrow> session_trace \<Rightarrow> bool" where
  "turns_counted evs tr \<longleftrightarrow>
     0 < next_turn tr \<and> turn_ends evs = [1..next_turn tr - 1] \<and>
     turn_starts evs = turn_ends evs @ (case open_turn tr of None \<Rightarrow> [] | Some t \<Rightarrow> [t])"

lemma seed_trace_turns_counted: "seed_trace evs = Inr tr \<Longrightarrow> turns_counted evs tr"
proof (induction rule: seed_trace_induct)
  case Nil
  show ?case by (simp add: turns_counted_def fresh_trace_def)
next
  case (snoc evs e tr tr')
  have step: "trace_step evs (length evs) tr e = Inr tr'" and wf: "trace_wf tr" by fact+
  have upto: "[1..next_turn tr] = [1..next_turn tr - 1] @ [next_turn tr]"
    using snoc.IH by (intro upto_rec2) (simp add: turns_counted_def)
  show ?case
  proof (cases "ev_data e")
    case (TurnStart t)
    with step snoc.IH show ?thesis
      by (auto simp: trace_defs turns_counted_def split: option.splits if_splits)
  next
    case (TurnEnd t r)
    with step snoc.IH wf upto show ?thesis
      by (auto simp: trace_defs turns_counted_def trace_wf_def split: option.splits if_splits)
  qed (use step snoc.IH in \<open>auto simp: trace_defs turns_counted_def split: option.splits if_splits\<close>)
qed

text \<open>
  Claim C29. The turns of an accepted log start as 1, 2, 3 and so on, end in the same order,
  and at most the last one is open.
\<close>

theorem turns_numbered_from_one:
  assumes "seed_trace evs = Inr tr"
  shows "turn_starts evs = [1..int (length (turn_starts evs))] \<and>
    turn_ends evs = [1..int (length (turn_ends evs))] \<and>
    length (turn_starts evs) = length (turn_ends evs) + (if open_turn tr = None then 0 else 1)"
proof -
  have tc: "turns_counted evs tr" using assms by (rule seed_trace_turns_counted)
  then have ends: "turn_ends evs = [1..next_turn tr - 1]"
    and starts: "turn_starts evs = turn_ends evs @ (case open_turn tr of None \<Rightarrow> [] | Some t \<Rightarrow> [t])"
    and pos: "0 < next_turn tr"
    by (simp_all add: turns_counted_def)
  have upto: "[1..next_turn tr] = [1..next_turn tr - 1] @ [next_turn tr]"
    using pos by (intro upto_rec2) simp
  have open_next: "open_turn tr = None \<or> open_turn tr = Some (next_turn tr)"
    using seed_trace_wf [OF assms] by (auto simp: trace_wf_def split: option.splits)
  then show ?thesis
  proof
    assume "open_turn tr = None"
    with ends starts pos show ?thesis by simp
  next
    assume "open_turn tr = Some (next_turn tr)"
    with ends starts pos upto show ?thesis by simp
  qed
qed

lemma turns_numbered_from_one_witness:
  "turn_starts sample_log = [1..int (length (turn_starts sample_log))] \<and>
   turn_ends sample_log = [1..int (length (turn_ends sample_log))] \<and>
   length (turn_starts sample_log) = length (turn_ends sample_log) + (if open_turn (projr (seed_trace sample_log)) = None then 0 else 1)"
  by (rule turns_numbered_from_one) code_simp

subsection \<open>Results answer calls\<close>

definition is_result_for :: "call_id \<Rightarrow> session_event \<Rightarrow> bool" where
  "is_result_for c e \<longleftrightarrow>
     (case ev_data e of
        ToolResult d \<Rightarrow> ev_surface_op e = Some (JStr ''append'') \<and> trm_call (tr_message d) = c
      | _ \<Rightarrow> False)"

text \<open>The call \<open>c\<close> was recorded at position \<open>j\<close> in this step and has no result yet.\<close>

definition awaits :: "session_event list \<Rightarrow> int \<Rightarrow> int \<Rightarrow> call_id \<Rightarrow> nat \<Rightarrow> bool" where
  "awaits evs turn step c j \<longleftrightarrow>
     j < length evs \<and> (\<exists>n a. ev_data (evs ! j) = ToolCall turn step c n a) \<and>
     (\<forall>k. j < k \<and> k < length evs \<longrightarrow> \<not> is_result_for c (evs ! k))"

lemma awaits_snoc:
  "awaits evs t s c j \<Longrightarrow> \<not> is_result_for c e \<Longrightarrow> awaits (evs @ [e]) t s c j"
  by (auto simp: awaits_def nth_append less_Suc_eq)

lemma awaits_new: "ev_data e = ToolCall t s c n a \<Longrightarrow> awaits (evs @ [e]) t s c (length evs)"
  by (auto simp: awaits_def nth_append)

definition pending_recorded :: "session_event list \<Rightarrow> session_trace \<Rightarrow> bool" where
  "pending_recorded evs tr \<longleftrightarrow>
     (\<forall>c \<in> pending_calls tr. \<exists>t s j. open_turn tr = Some t \<and> open_step tr = Some s \<and> awaits evs t s c j)"

lemma pending_recorded_step:
  assumes "pending_recorded evs tr" and "pending_calls tr' \<subseteq> pending_calls tr"
    and "pending_calls tr' = {} \<or> open_turn tr' = open_turn tr \<and> open_step tr' = open_step tr"
    and "\<forall>c \<in> pending_calls tr'. \<not> is_result_for c e"
  shows "pending_recorded (evs @ [e]) tr'"
  unfolding pending_recorded_def
proof
  fix c assume c: "c \<in> pending_calls tr'"
  with assms(1,2) obtain t s j where "open_turn tr = Some t" "open_step tr = Some s" "awaits evs t s c j"
    unfolding pending_recorded_def by blast
  with c assms(3,4) show "\<exists>t s j. open_turn tr' = Some t \<and> open_step tr' = Some s \<and> awaits (evs @ [e]) t s c j"
    by (metis awaits_snoc empty_iff)
qed

lemma seed_trace_pending_recorded: "seed_trace evs = Inr tr \<Longrightarrow> pending_recorded evs tr"
proof (induction rule: seed_trace_induct)
  case Nil
  show ?case by (simp add: pending_recorded_def fresh_trace_def)
next
  case (snoc evs e tr tr')
  have step: "trace_step evs (length evs) tr e = Inr tr'" and wf: "trace_wf tr" by fact+
  show ?case
  proof (cases "ev_data e")
    case (ToolCall t s c n a)
    with step have tr': "open_turn tr' = Some t" "open_step tr' = Some s"
        "pending_calls tr' = insert c (pending_calls tr)" "open_turn tr = Some t" "open_step tr = Some s"
      by (auto simp: trace_defs split: if_splits)
    show ?thesis
      unfolding pending_recorded_def
    proof
      fix c' assume c': "c' \<in> pending_calls tr'"
      show "\<exists>t s j. open_turn tr' = Some t \<and> open_step tr' = Some s \<and> awaits (evs @ [e]) t s c' j"
      proof (cases "c' = c")
        case True
        with ToolCall tr' awaits_new show ?thesis by blast
      next
        case False
        with c' tr' have "c' \<in> pending_calls tr" by simp
        with snoc.IH tr' obtain j where "awaits evs t s c' j"
          unfolding pending_recorded_def by fastforce
        moreover have "\<not> is_result_for c' e" using ToolCall by (simp add: is_result_for_def)
        ultimately show ?thesis using tr' awaits_snoc by blast
      qed
    qed
  qed (rule pending_recorded_step [OF snoc.IH];
      use step wf in \<open>auto simp: trace_defs trace_wf_def is_result_for_def split: if_splits option.splits\<close>)+
qed

text \<open>An appended result that is not the synthetic \<open>TOOL_NOT_STARTED\<close> answer.\<close>

definition is_real_result :: "call_id \<Rightarrow> session_event \<Rightarrow> bool" where
  "is_real_result c e \<longleftrightarrow>
     is_result_for c e \<and>
     (case ev_data e of
        ToolResult d \<Rightarrow>
          \<not> (trm_is_error (tr_message d) = Some True \<and> map_option snd (tr_error d) = Some tool_not_started)
      | _ \<Rightarrow> False)"

theorem results_answer_recorded_calls:
  assumes "seed_trace (evs @ e # rest) = Inr tr" and "is_real_result c e"
  shows "\<exists>t s j. awaits evs t s c j \<and>
    (\<exists>d. ev_data e = ToolResult d \<and> tr_turn d = t \<and> tr_step d = s)"
proof -
  have "replay trace_step fresh_trace ((evs @ [e]) @ rest) = (None, length (evs @ e # rest), tr)"
    using assms(1) by (simp add: seed_trace_Inr_iff)
  then obtain t1 where "replay trace_step fresh_trace (evs @ [e]) = (None, length (evs @ [e]), t1)"
    by (rule trace_log.replay_prefix)
  then have "seed_trace (evs @ [e]) = Inr t1" by (simp add: seed_trace_Inr_iff)
  then obtain t0 where t0: "seed_trace evs = Inr t0" "trace_step evs (length evs) t0 e = Inr t1"
    by (auto simp: seed_trace_snoc)
  from assms(2) obtain d where d: "ev_data e = ToolResult d" "trm_call (tr_message d) = c"
      "ev_surface_op e = Some (JStr ''append'')"
    by (auto simp: is_real_result_def is_result_for_def split: event_data.splits)
  with t0(2) assms(2) have "c \<in> pending_calls t0" "open_turn t0 = Some (tr_turn d)" "open_step t0 = Some (tr_step d)"
    by (auto simp: trace_defs is_real_result_def split: if_splits)
  with seed_trace_pending_recorded [OF t0(1)] d(1) show ?thesis
    unfolding pending_recorded_def by fastforce
qed

definition sample_result :: session_event where
  "sample_result =
     on_surface 5 (ToolResult \<lparr>tr_turn = 1, tr_step = 1,
       tr_message = \<lparr>trm_id = ''m3'', trm_call = ''c1'', trm_tool_call = ''c1'',
         trm_content = [TextB ''ok''], trm_is_error = None\<rparr>,
       tr_error = None, tr_meta = None\<rparr>)"

lemma results_answer_recorded_calls_witness:
  "\<exists>t s j. awaits sample_log t s ''c1'' j \<and>
    (\<exists>d. ev_data sample_result = ToolResult d \<and> tr_turn d = t \<and> tr_step d = s)"
  by (rule results_answer_recorded_calls [of sample_log sample_result "[]"
        "projr (seed_trace (sample_log @ [sample_result]))"])
    (code_simp, code_simp)

end
