(* ===== verification/Token_Surface.thy ===== *)
theory Token_Surface
  imports Token_Meter Session_Trace
begin

section \<open>What the meter measures on an accepted log\<close>

text \<open>
  The priced surface of the token meter against the surface fold of the session, and the
  faults a reading can report on a log that the session and its companion accepted.
\<close>

subsection \<open>The priced surface is the surface\<close>

definition priced :: "(rat \<Rightarrow> string) \<Rightarrow> session_event list \<Rightarrow> int \<Rightarrow> priced_node" where
  "priced num evs n = \<lparr>pn_seq = n, pn_tokens = event_price num (evs ! nat n)\<rparr>"

lemma priced_seq [simp]: "pn_seq (priced num evs n) = n"
  by (simp add: priced_def)

lemma priced_append: "0 \<le> n \<Longrightarrow> n < int (length evs) \<Longrightarrow> priced num (evs @ rest) n = priced num evs n"
  by (simp add: priced_def nth_append nat_less_iff)

lemma priced_last: "priced num (evs @ [e]) (int (length evs)) = \<lparr>pn_seq = int (length evs), pn_tokens = event_price num e\<rparr>"
  by (simp add: priced_def)

lemma node_at_index: "node_at ns (Some (jint a)) = index_of a (map pn_seq ns)"
  by (induction ns) (auto simp: node_at_def)

lemma op_end_replace:
  assumes "surface_op_of e = Inr (Some (OpReplace a b))"
  shows "op_end ''start'' (ev_surface_op e) = Some (jint a)" "op_end ''end'' (ev_surface_op e) = Some (jint b)"
    "ev_surface_op e \<noteq> Some (JStr ''append'')"
  using assms
  by (auto simp: surface_op_of_def is_replace_op_def is_event_seq_Some_iff Let_def
      split: option.splits json.splits if_splits prod.splits)

lemma js_splice_map: "js_splice (map f xs) i d (map f ys) = map f (js_splice xs i d ys)"
  by (simp add: js_splice_def take_map drop_map)

lemma js_slice_map: "js_slice (map f xs) i j = map f (js_slice xs i j)"
  by (simp add: js_slice_def take_map drop_map)

text \<open>One accepted event, on a surface priced so far.\<close>

lemma fold_surface_tokens_accepted:
  assumes step: "fold_step evs (length evs) (st, rs) e = Inr (st', rs')"
    and nodes: "\<forall>n \<in> set (nodes st). 0 \<le> n \<and> n < int (length evs)" and "is_surface_event e"
  obtains f where "fold_surface_tokens num (map (priced num evs) (nodes st)) e = Inr f"
    "sf_nodes f = map (priced num (evs @ [e])) (nodes st')"
proof -
  let ?ns = "map (priced num (evs @ [e])) (nodes st)"
  have old: "map (priced num evs) (nodes st) = ?ns"
    using nodes by (intro map_cong) (simp_all add: priced_append)
  from step show ?thesis
  proof (cases rule: fold_step_cases)
    case log_only
    with assms(3) show ?thesis by simp
  next
    case append
    then show ?thesis
      by (intro that) (auto simp: old fold_surface_tokens_def Let_def is_append_surface_event_def priced_last)
  next
    case (replace a b k j sh)
    note ends = op_end_replace [OF replace(9)]
    have "map pn_seq ?ns = nodes st" by (simp add: comp_def)
    then have idx: "node_at ?ns (Some (jint a)) = Some k" "node_at ?ns (Some (jint b)) = Some j" "k \<le> j"
      using replace(3) by (auto simp: node_at_index replacement_range_def split: option.splits if_splits)
    show ?thesis
      by (rule that [of "\<lparr>sf_tokens = event_price num e,
              sf_nodes = js_splice ?ns k (j - k + 1) [priced num (evs @ [e]) (int (length evs))],
              sf_delta = event_price num e - tokens_of (js_slice ?ns k (j + 1))\<rparr>"])
        (use replace(1,6) ends idx in \<open>auto simp: old fold_surface_tokens_def Let_def priced_last
            js_splice_map [of _ _ _ _ "[int (length evs)]", simplified, symmetric]\<close>)
  qed
qed

lemma surface_nodes_bounded:
  "replay fold_step (create_fold_state, []) evs = (None, length evs, (st, rs)) \<Longrightarrow>
   \<forall>n \<in> set (nodes st). 0 \<le> n \<and> n < int (length evs)"
  using fold_log.replay_inv by (fastforce simp: surface_inv_def)

lemma meter_surface:
  assumes "replay (earlier_step num) fresh_meter evs = (None, length evs, mt)"
    and "replay fold_step (create_fold_state, []) evs = (None, length evs, (st, rs))"
  shows "mt_surface mt = map (priced num evs) (nodes st)"
  using assms
proof (induction evs arbitrary: mt st rs rule: rev_induct)
  case Nil
  then have "mt = fresh_meter" and "st = create_fold_state" by simp_all
  then show ?case by (simp add: fresh_meter_def create_fold_state_def)
next
  case (snoc e evs)
  from snoc.prems(1) obtain mt0 where mt0: "replay (earlier_step num) fresh_meter evs = (None, length evs, mt0)"
      "earlier_step num evs (length evs) mt0 e = Inr mt"
    by (auto simp: meter_log.replay_snoc_Some)
  from snoc.prems(2) obtain st0 rs0 where st0:
      "replay fold_step (create_fold_state, []) evs = (None, length evs, (st0, rs0))"
      "fold_step evs (length evs) (st0, rs0) e = Inr (st, rs)"
    by (auto simp: fold_log.replay_snoc_Some)
  note ih = snoc.IH [OF mt0(1) st0(1)] and bounded = surface_nodes_bounded [OF st0(1)]
  from mt0(2) obtain mt1 where mt1: "fold_meter_event num (take (length evs) evs) mt0 e = Inr mt1"
      "mt = mt1\<lparr>mt_consumed := mt_consumed mt1 + 1\<rparr>"
    by (rule earlier_step_Inr)
  from mt1(1) show ?case
  proof (cases rule: fold_meter_event_Inr)
    case (1 h start sf anchor)
    show ?thesis
    proof (cases "is_surface_event e")
      case True
      obtain f where "fold_surface_tokens num (map (priced num evs) (nodes st0)) e = Inr f"
          "sf_nodes f = map (priced num (evs @ [e])) (nodes st)"
        using st0(2) bounded True by (rule fold_surface_tokens_accepted)
      with 1 True ih mt1(2) show ?thesis by (auto simp: next_surface_def)
    next
      case False
      from st0(2) False have "nodes st = nodes st0"
        by (cases rule: fold_step_cases)
          (auto simp: is_append_surface_event_def is_replacement_surface_event_def)
      with 1 False ih mt1(2) bounded show ?thesis
        by (auto simp: next_surface_def priced_append intro!: map_cong)
    qed
  qed
qed

lemma measure_log_nodes:
  assumes "measure_log num evs request = Inr m" and "fold_surface evs = Inr (ns, rs)"
  shows "ms_nodes m = map (priced num evs) ns"
proof -
  obtain st where st: "replay fold_step (create_fold_state, []) evs = (None, length evs, (st, rs))" "nodes st = ns"
    using assms(2) by (auto simp: fold_surface_Inr_iff)
  then have "contiguous evs" by (auto dest: fold_replay_contiguous)
  with assms(1) obtain mt where "replay (earlier_step num) fresh_meter evs = (None, length evs, mt)"
      "m = read_meter num mt request"
    by (rule measure_log_Inr)
  with meter_surface [OF _ st(1)] st(2) show ?thesis
    by (simp add: read_meter_def Let_def split: prod.split)
qed

theorem measurement_prices_the_surface:
  assumes "meter_reach num evs slot" and "fold_surface evs = Inr (ns, rs)"
    and "fst (meter_measure num evs request slot) = Inr m"
  shows "ms_nodes m = map (priced num evs) ns"
proof -
  have "contiguous evs" using assms(2) by (auto simp: fold_surface_Inr_iff dest: fold_replay_contiguous)
  then show ?thesis
    using assms measure_log_nodes by (simp add: measure_reachable)
qed

subsection \<open>Faults on an accepted log\<close>

text \<open>The citations of a surface event: earlier, distinct sequence numbers.\<close>

definition cites_earlier :: "int \<Rightarrow> json list \<Rightarrow> bool" where
  "cites_earlier n vs \<longleftrightarrow> distinct vs \<and> (\<forall>v \<in> set vs. \<exists>s. v = jint s \<and> 0 \<le> s \<and> s < n)"

text \<open>A fault of what an assistant message cites: another event, another step, a stream that
leaves a block of an unknown type open.\<close>

fun citation_fault :: "meter_error \<Rightarrow> bool" where
  "citation_fault (MeterSourceNotChunk _ _) = True"
| "citation_fault (MeterSourceOtherStep _ _) = True"
| "citation_fault (MeterAssembly _) = True"
| "citation_fault _ = False"

lemma source_chunks_fault:
  assumes "cites_earlier n vs" and "n \<le> int (length evs)" and "\<forall>q \<in> set seen. JNum q \<notin> set vs"
    and "source_chunks evs n turn step seen vs ba = Inl x"
  shows "citation_fault x"
  using assms
proof (induction vs arbitrary: seen ba)
  case (Cons v vs)
  then obtain s where v: "v = jint s" "0 \<le> s" "s < n" by (auto simp: cites_earlier_def)
  have rest: "cites_earlier n vs" and new: "v \<notin> set vs" using Cons.prems(1) by (auto simp: cites_earlier_def)
  have unseen: "\<forall>q \<in> set (of_int s # seen). JNum q \<notin> set vs"
    using new v(1) Cons.prems(3) by auto
  note ih = Cons.IH [OF rest Cons.prems(2) unseen]
  have "of_int s \<notin> set seen" using Cons.prems(3) v(1) by auto
  moreover have "js_at evs s = Some (evs ! nat s)" using v Cons.prems(2) by (simp add: js_at_def)
  ultimately show ?case
    using Cons.prems(4) v ih by (auto split: event_data.splits if_splits)
qed simp

lemma scan_sources_earlier:
  "scan_sources n vs acc None = Some (sources, None) \<Longrightarrow>
   (\<forall>v \<in> set vs. \<exists>s. v = jint s \<and> 0 \<le> s \<and> s < n) \<and>
   sources = rev (map (\<lambda>v. case v of JNum q \<Rightarrow> \<lfloor>q\<rfloor> | _ \<Rightarrow> 0) vs) @ acc"
proof (induction vs arbitrary: acc)
  case (Cons v vs)
  then obtain s where v: "is_event_seq v = Some s" by (auto split: option.splits)
  with Cons.prems have "\<not> n \<le> s"
    using scan_sources_keeps_late [of n vs "s # acc" "Some s"] by (auto split: if_splits)
  with Cons v show ?case by (auto simp: is_event_seq_Some_iff)
qed simp

lemma provenance_citations:
  assumes "assert_provenance e sh = Inr ()" and "ev_sources e = Some v"
  obtains vs where "v = JArr vs" "cites_earlier (ev_seq e) vs"
proof -
  obtain sources where chk: "check_sources e = Inr sources"
    using assms(1) by (auto simp: assert_provenance_def split: sum.splits)
  with assms(2) obtain vs where vs: "v = JArr vs" "scan_sources (ev_seq e) vs [] None = Some (sources, None)"
      "length (remdups sources) = length vs"
    by (auto simp: check_sources_def split: json.splits if_splits option.splits prod.splits)
  from scan_sources_earlier [OF vs(2)] have ok: "\<forall>v \<in> set vs. \<exists>s. v = jint s \<and> 0 \<le> s \<and> s < ev_seq e"
    and src: "sources = rev (map (\<lambda>v. case v of JNum q \<Rightarrow> \<lfloor>q\<rfloor> | _ \<Rightarrow> 0) vs)"
    by auto
  have "length (remdups sources) = length sources" using src vs(3) by simp
  then have "distinct sources" by (metis distinct_remdups length_remdups_eq)
  then have "distinct vs" using src by (simp add: distinct_map)
  with ok vs(1) that show ?thesis by (simp add: cites_earlier_def)
qed

definition traced_step :: "session_trace \<Rightarrow> (int \<times> int) option" where
  "traced_step tr = (case open_step tr of None \<Rightarrow> None | Some s \<Rightarrow> map_option (\<lambda>t. (t, s)) (open_turn tr))"

definition metered_step :: "meter_state \<Rightarrow> (int \<times> int) option" where
  "metered_step st = map_option (\<lambda>(t, s, _). (t, s)) (mt_step_start st)"

lemma boundary_accepted:
  assumes "trace_step evs i tr e = Inr tr'" and "trace_wf tr" and "metered_step st = traced_step tr"
  obtains h start where "next_boundary st e = Inr (h, start)"
    "map_option (\<lambda>(t, s, _). (t, s)) start = traced_step tr'"
  using assms
  by (cases "ev_data e"; cases "mt_step_start st")
    (auto simp: trace_defs trace_wf_def metered_step_def traced_step_def next_boundary_def
      split: if_splits option.splits)

lemma message_in_step:
  assumes "trace_step evs i tr e = Inr tr'" and "trace_wf tr" and "metered_step st = traced_step tr"
    and "ev_data e = AssistantMessage t s m u"
  obtains k where "mt_step_start st = Some (t, s, k)"
  using assms
  by (cases "mt_step_start st")
    (auto simp: trace_defs trace_wf_def metered_step_def traced_step_def split: if_splits option.splits)

lemma provider_fault:
  assumes "assert_provenance e sh = Inr ()" and "ev_seq e \<le> int (length evs)"
    and "estimate_provider_assistant num evs e t s d = Inl x"
  shows "citation_fault x"
proof (cases "ev_sources e")
  case None
  with assms(3) show ?thesis by (simp add: estimate_provider_assistant_def)
next
  case (Some v)
  with assms(1) obtain vs where vs: "v = JArr vs" "cites_earlier (ev_seq e) vs"
    by (rule provenance_citations)
  show ?thesis
  proof (cases "source_chunks evs (ev_seq e) t s [] vs new_assembler")
    case (Inl y)
    with source_chunks_fault [OF vs(2) assms(2), of "[]"] assms(3) Some vs(1) show ?thesis
      by (simp add: estimate_provider_assistant_def)
  next
    case (Inr ba)
    with assms(3) Some vs(1) show ?thesis
      by (auto simp: estimate_provider_assistant_def split: sum.splits)
  qed
qed

text \<open>An accepted event folds, or fails with a citation fault.\<close>

lemma fold_meter_accepted:
  assumes trace: "trace_step evs (length evs) tr e = Inr tr'" "trace_wf tr" "metered_step mt = traced_step tr"
    and step: "fold_step evs (length evs) (st, rs) e = Inr (st', rs')"
    and nodes: "\<forall>n \<in> set (nodes st). 0 \<le> n \<and> n < int (length evs)"
    and priced: "mt_surface mt = map (priced num evs) (nodes st)"
  shows "case fold_meter_event num evs mt e of
      Inl x \<Rightarrow> citation_fault x
    | Inr mt' \<Rightarrow> metered_step mt' = traced_step tr'"
proof -
  obtain h start where b: "next_boundary mt e = Inr (h, start)"
      "map_option (\<lambda>(t, s, _). (t, s)) start = traced_step tr'"
    using trace by (rule boundary_accepted)
  obtain sf where sf: "next_surface num mt e = Inr sf"
  proof (cases "is_surface_event e")
    case True
    with fold_surface_tokens_accepted [OF step nodes] priced that show ?thesis
      by (metis (no_types, lifting) map_sum.simps(2) next_surface_def)
  qed (use that in \<open>simp add: next_surface_def\<close>)
  have seq: "ev_seq e = int (length evs)" using step by (cases rule: fold_step_cases) auto
  have "case next_anchor num evs mt h sf e of Inl x \<Rightarrow> citation_fault x | Inr a \<Rightarrow> True"
  proof (cases "\<exists>t s m u. ev_data e = AssistantMessage t s m u")
    case True
    then obtain t s m u where e: "ev_data e = AssistantMessage t s m u" by blast
    then obtain k where k: "mt_step_start mt = Some (t, s, k)" using message_in_step [OF trace] by metis
    obtain sh where "assert_provenance e sh = Inr ()"
      using step
      by (cases rule: fold_step_cases)
        (use e in \<open>auto simp: is_surface_eligible_type_def message_types_def\<close>)
    then have "citation_fault x" if "estimate_provider_assistant num evs e t s d = Inl x" for d x
      using provider_fault seq that by (metis order_refl)
    with e k show ?thesis
      by (auto simp: next_anchor_def Let_def map_sum_def split: option.splits sum.splits)
  qed (auto simp: next_anchor_def split: event_data.splits)
  with b sf show ?thesis
    by (auto simp: fold_meter_event_def metered_step_def split: sum.splits)
qed

lemma meter_replay_accepted:
  assumes "seed_trace evs = Inr tr" and "fold_surface evs = Inr (ns, rs)"
  shows "case replay (earlier_step num) fresh_meter evs of
      (None, _, mt) \<Rightarrow> metered_step mt = traced_step tr
    | (Some x, _, _) \<Rightarrow> citation_fault x"
  using assms
proof (induction evs arbitrary: tr ns rs rule: rev_induct)
  case Nil
  then have "tr = fresh_trace" by simp
  moreover have "metered_step fresh_meter = traced_step fresh_trace"
    by (simp add: fresh_meter_def fresh_trace_def metered_step_def traced_step_def)
  ultimately show ?case by simp
next
  case (snoc e evs)
  from snoc.prems(1) obtain tr0 where tr0: "seed_trace evs = Inr tr0" "trace_step evs (length evs) tr0 e = Inr tr"
    by (auto simp: seed_trace_snoc)
  from snoc.prems(2) obtain st0 rs0 st where st0:
      "replay fold_step (create_fold_state, []) evs = (None, length evs, (st0, rs0))"
      "fold_step evs (length evs) (st0, rs0) e = Inr (st, rs)"
    by (auto simp: fold_surface_Inr_iff fold_log.replay_snoc_Some)
  then have "fold_surface evs = Inr (nodes st0, rs0)" by (auto simp: fold_surface_Inr_iff)
  note ih = snoc.IH [OF tr0(1) this]
  obtain r j mt where run: "replay (earlier_step num) fresh_meter evs = (r, j, mt)"
    using prod_cases3 by blast
  show ?case
  proof (cases r)
    case (Some x)
    with run ih show ?thesis by (simp add: meter_log.replay_snoc)
  next
    case None
    with run meter_log.replay_length have j: "j = length evs" by blast
    with run None have replay: "replay (earlier_step num) fresh_meter evs = (None, length evs, mt)" by simp
    from ih run None have "metered_step mt = traced_step tr0" by simp
    from fold_meter_accepted [OF tr0(2) seed_trace_wf [OF tr0(1)] this st0(2) surface_nodes_bounded [OF st0(1)]
        meter_surface [OF replay st0(1)]]
    moreover have "earlier_step num evs (length evs) mt e =
        map_sum id (\<lambda>st'. st'\<lparr>mt_consumed := mt_consumed st' + 1\<rparr>) (fold_meter_event num evs mt e)"
      by (simp add: earlier_step_def meter_step_def)
    ultimately show ?thesis
      using replay by (auto simp: meter_log.replay_snoc metered_step_def split: sum.splits)
  qed
qed

theorem accepted_log_is_measured:
  assumes "meter_reach num evs slot" and "seed_trace evs = Inr tr" and "fold_surface evs = Inr (ns, rs)"
    and "fst (meter_measure num evs request slot) = Inl x"
  shows "citation_fault x"
proof -
  have cont: "contiguous evs" using assms(3) by (auto simp: fold_surface_Inr_iff dest: fold_replay_contiguous)
  with assms(1,4) have "measure_log num evs request = Inl x"
    by (simp add: measure_reachable)
  with meter_replay_accepted [OF assms(2,3), of num] show ?thesis
    by (auto simp: measure_log_def replay_earlier [OF cont] split: prod.splits option.splits)
qed

subsection \<open>A sample log\<close>

definition decimal :: "rat \<Rightarrow> string" where
  "decimal q = string_of_int \<lfloor>q\<rfloor>"

text \<open>A meter that was read after two events of the sample log and not since.\<close>

definition stale_slot :: "meter_state option" where
  "stale_slot = snd (meter_measure decimal (take 2 sample_log) None None)"

lemma meter_reach_append: "meter_reach num evs slot \<Longrightarrow> meter_reach num (evs @ rest) slot"
  by (induction rest rule: rev_induct) (auto simp: append_assoc [symmetric] simp del: append_assoc intro: meter_reach.appended)

lemma stale_slot_reach: "meter_reach decimal sample_log stale_slot"
proof -
  have "meter_reach decimal (take 2 sample_log) stale_slot"
    unfolding stale_slot_def by (rule meter_reach.measured [OF meter_reach.unread prod.collapse [symmetric]])
  from meter_reach_append [OF this, of "drop 2 sample_log"] show ?thesis by simp
qed

lemma sample_log_contiguous: "contiguous sample_log"
  by (simp add: contiguous_def sample_defs less_Suc_eq all_conj_distrib nth_Cons')

lemma sample_log_surface: "fold_surface sample_log = Inr ([1, 3], [])"
  by code_simp

lemma measurement_is_a_fold_of_the_log_witness:
  "fst (meter_measure decimal sample_log None stale_slot) = measure_log decimal sample_log None"
  by (rule measurement_is_a_fold_of_the_log [OF stale_slot_reach sample_log_contiguous])

lemma sample_measured: "\<exists>m. fst (meter_measure decimal sample_log None stale_slot) = Inr m"
proof -
  have "\<not> isl (measure_log decimal sample_log None)" by code_simp
  then show ?thesis
    by (cases "measure_log decimal sample_log None")
      (simp_all add: measure_reachable [OF stale_slot_reach sample_log_contiguous])
qed

lemma measurement_is_conservative_witness:
  "\<exists>m. fst (meter_measure decimal sample_log None stale_slot) = Inr m \<and>
     of_nat (estimate_header decimal (effective_header sample_log None)) + tokens_of (ms_nodes m) \<le> ms_total m"
  using sample_measured measurement_is_conservative [OF stale_slot_reach sample_log_contiguous, of None] by blast

lemma measurement_prices_the_surface_witness:
  "\<exists>m. fst (meter_measure decimal sample_log None stale_slot) = Inr m \<and>
     ms_nodes m = map (priced decimal sample_log) [1, 3]"
  using sample_measured measurement_prices_the_surface [OF stale_slot_reach sample_log_surface, of None] by blast

text \<open>A log whose assistant message cites the prompt instead of a chunk.\<close>

definition miscited_log :: "session_event list" where
  "miscited_log =
     [plain_event 0 0 (TurnStart 1), on_surface 1 (UserMessage sample_user),
      plain_event 2 0 (RequestHeader \<lparr>eh_config = \<lparr>cc_provider = ''p'', cc_model = ''m'', cc_reasoning_effort = None,
         cc_temperature = None, cc_max_tokens = None, cc_stop = None\<rparr>, eh_adapter_defaults = None,
         eh_system = None, eh_tools = None\<rparr> InitialHeader),
      plain_event 3 0 (StepStart 1 1),
      (on_surface 4 (AssistantMessage 1 1 sample_assistant (Some (JObj []))))\<lparr>ev_sources := Some (JArr [jint 1])\<rparr>]"

lemma miscited_log_facts:
  "\<not> isl (seed_trace miscited_log)" "fold_surface miscited_log = Inr ([1, 4], [])"
  "fst (meter_measure decimal miscited_log None None) = Inl (MeterSourceNotChunk 4 1)"
  by code_simp+

lemma accepted_log_is_measured_witness: "citation_fault (MeterSourceNotChunk 4 1)"
proof -
  obtain tr where "seed_trace miscited_log = Inr tr"
    using miscited_log_facts(1) by (cases "seed_trace miscited_log") auto
  from accepted_log_is_measured [OF meter_reach.unread this miscited_log_facts(2,3)] show ?thesis .
qed

end
