(* ===== verification/Token_Projections.thy ===== *)
theory Token_Projections
  imports Token_Surface "HOL-Library.Log_Nat"
begin

section \<open>Token projections\<close>

text \<open>
  The bounded folds of \<^verbatim>\<open>packages/llm/token-meter/src\<close>: the surface total that rides the
  shadow-price protocol (\<open>surface-projection.ts\<close>), the composition of the context
  (\<open>breakdown-projection.ts\<close>), occupancy and cumulative usage (\<open>usage-projection.ts\<close>).
  Token counts are exact; billed costs are doubles, rounded at every sum.
\<close>

subsection \<open>Doubles\<close>

definition scale2 :: "int \<Rightarrow> rat" where
  "scale2 k = (if 0 \<le> k then 2 ^ nat k else 1 / 2 ^ nat (- k))"

definition binary_exponent :: "rat \<Rightarrow> int" where
  "binary_exponent q =
     (case quotient_of \<bar>q\<bar> of
        (n, d) \<Rightarrow> (let k = bitlen n - bitlen d in if scale2 k \<le> \<bar>q\<bar> then k else k - 1))"

definition half_even :: "rat \<Rightarrow> int" where
  "half_even q =
     (let f = \<lfloor>q\<rfloor>; r = q - of_int f in
      if r < 1 / 2 then f else if 1 / 2 < r then f + 1 else if even f then f else f + 1)"

text \<open>The double nearest to a rational, ties to even, below the largest double.\<close>

definition double_round :: "rat \<Rightarrow> rat" where
  "double_round q =
     (if q = 0 then 0
      else (let u = scale2 (max (binary_exponent q - 52) (- 1074)) in of_int (half_even (q / u)) * u))"

subsection \<open>The surface total\<close>

record shadow_claim =
  sc_start :: "json option"
  sc_end :: "json option"
  sc_tokens :: rat

record surface_tokens_fold =
  stf_delta :: rat
  stf_claim :: "shadow_claim option"

datatype projection_error = NoAdjacentPrice int

definition is_metering :: "event_data \<Rightarrow> bool" where
  "is_metering d \<longleftrightarrow> event_type d = ''compaction/summary'' \<or> event_type d = ''compaction/prune''"

text \<open>The payload of a plugin event and its fields, typed by the event map.\<close>

fun plugin_data :: "event_data \<Rightarrow> json option" where
  "plugin_data (OtherEvent t j) = Some j"
| "plugin_data _ = None"

fun field_of :: "string \<Rightarrow> json option \<Rightarrow> json option" where
  "field_of k (Some (JObj kvs)) = map_of kvs k"
| "field_of k _ = None"

definition number_of :: "json option \<Rightarrow> rat" where
  "number_of v = (case v of Some (JNum q) \<Rightarrow> q | _ \<Rightarrow> 0)"

definition claim_of :: "event_data \<Rightarrow> shadow_claim" where
  "claim_of d =
     (let range = field_of ''shadowedRange'' (plugin_data d) in
      \<lparr>sc_start = field_of ''start'' range, sc_end = field_of ''end'' range,
       sc_tokens = number_of (field_of ''shadowedTokenCount'' (plugin_data d))\<rparr>)"

definition fold_surface_projection ::
  "(rat \<Rightarrow> string) \<Rightarrow> shadow_claim option \<Rightarrow> session_event \<Rightarrow> projection_error + surface_tokens_fold"
where
  "fold_surface_projection num claim e =
     (if is_metering (ev_data e) then Inr \<lparr>stf_delta = 0, stf_claim = Some (claim_of (ev_data e))\<rparr>
      else if \<not> is_surface_event e then Inr \<lparr>stf_delta = 0, stf_claim = None\<rparr>
      else
        (let tokens = event_price num e; op = ev_surface_op e in
         if op = Some (JStr ''append'') then Inr \<lparr>stf_delta = tokens, stf_claim = None\<rparr>
         else
           (case claim of
              None \<Rightarrow> Inr \<lparr>stf_delta = 0, stf_claim = None\<rparr>
            | Some c \<Rightarrow>
                if sc_start c \<noteq> op_end ''start'' op \<or> sc_end c \<noteq> op_end ''end'' op
                then Inl (NoAdjacentPrice (ev_seq e))
                else Inr \<lparr>stf_delta = tokens - sc_tokens c, stf_claim = None\<rparr>)))"

subsection \<open>The composition of the context\<close>

record breakdown_state =
  bd_system :: nat
  bd_tools :: nat
  bd_message :: rat
  bd_claim :: "shadow_claim option"

definition breakdown_init :: breakdown_state where
  "breakdown_init = \<lparr>bd_system = 0, bd_tools = 0, bd_message = 0, bd_claim = None\<rparr>"

definition breakdown_apply ::
  "(rat \<Rightarrow> string) \<Rightarrow> breakdown_state \<Rightarrow> session_event \<Rightarrow> projection_error + breakdown_state"
where
  "breakdown_apply num st e =
     and_then (fold_surface_projection num (bd_claim st) e)
       (\<lambda>f.
          let (sys, tools) =
                (case ev_data e of
                   RequestHeader h _ \<Rightarrow>
                     (estimate_system_tokens (Some (canonical_header h)),
                      estimate_tools_tokens num (Some (canonical_header h)))
                 | _ \<Rightarrow> (bd_system st, bd_tools st))
          in if sys = bd_system st \<and> tools = bd_tools st \<and> stf_delta f = 0 \<and> stf_claim f = None
                \<and> bd_claim st = None
             then Inr st
             else Inr \<lparr>bd_system = sys, bd_tools = tools, bd_message = bd_message st + stf_delta f,
                       bd_claim = stf_claim f\<rparr>)"

subsection \<open>Context occupancy\<close>

definition usage_of :: "session_event \<Rightarrow> json option" where
  "usage_of e =
     (case ev_data e of
        AssistantChunk _ _ (UsageC u) \<Rightarrow> Some u
      | AssistantMessage _ _ _ u \<Rightarrow> u
      | _ \<Rightarrow> None)"

definition pressure_from :: "json \<Rightarrow> rat" where
  "pressure_from u = usage_count u ''inputTokens'' + usage_count u ''cacheReadTokens''
     + usage_count u ''cacheWriteTokens''"

record pressure_state =
  cp_window :: "rat option"
  cp_pressure :: "rat option"
  cp_surface :: rat
  cp_sampled :: "rat option"
  cp_claim :: "shadow_claim option"

definition pressure_init :: pressure_state where
  "pressure_init = \<lparr>cp_window = None, cp_pressure = None, cp_surface = 0, cp_sampled = None, cp_claim = None\<rparr>"

definition window_slot :: "session_event \<Rightarrow> pressure_state \<Rightarrow> pressure_state" where
  "window_slot e st =
     (case ev_data e of
        RequestContext rc \<Rightarrow>
          if rc_context_window rc \<noteq> cp_window st then st\<lparr>cp_window := rc_context_window rc\<rparr> else st
      | _ \<Rightarrow> st)"

definition sample_slot :: "session_event \<Rightarrow> pressure_state \<Rightarrow> pressure_state" where
  "sample_slot e st =
     (case usage_of e of
        None \<Rightarrow> st
      | Some u \<Rightarrow>
          if Some (pressure_from u) \<noteq> cp_pressure st \<or> cp_sampled st \<noteq> Some (cp_surface st)
          then st\<lparr>cp_pressure := Some (pressure_from u), cp_sampled := Some (cp_surface st)\<rparr> else st)"

definition pressure_apply ::
  "(rat \<Rightarrow> string) \<Rightarrow> pressure_state \<Rightarrow> session_event \<Rightarrow> projection_error + pressure_state"
where
  "pressure_apply num st e =
     and_then (fold_surface_projection num (cp_claim st) e)
       (\<lambda>f.
          let sampled = sample_slot e (window_slot e st);
              moved = (if stf_delta f \<noteq> 0 then sampled\<lparr>cp_surface := cp_surface sampled + stf_delta f\<rparr>
                       else sampled)
          in if cp_claim st = None \<and> stf_claim f = None then Inr moved
             else Inr (moved\<lparr>cp_claim := stf_claim f\<rparr>))"

text \<open>\<open>view\<close>: the projected prompt of the next request.\<close>

definition projected_tokens :: "pressure_state \<Rightarrow> rat option" where
  "projected_tokens st =
     (case (cp_pressure st, cp_sampled st) of
        (Some p, Some s) \<Rightarrow> Some (max 0 (p + cp_surface st - s))
      | _ \<Rightarrow> None)"

subsection \<open>Cumulative usage\<close>

record token_buckets =
  tb_input :: rat
  tb_output :: rat
  tb_cache_read :: rat
  tb_cache_write :: rat

definition zero_buckets :: token_buckets where
  "zero_buckets = \<lparr>tb_input = 0, tb_output = 0, tb_cache_read = 0, tb_cache_write = 0\<rparr>"

definition buckets_from :: "json \<Rightarrow> token_buckets" where
  "buckets_from u = \<lparr>tb_input = usage_count u ''inputTokens'', tb_output = usage_count u ''outputTokens'',
     tb_cache_read = usage_count u ''cacheReadTokens'', tb_cache_write = usage_count u ''cacheWriteTokens''\<rparr>"

definition add_replacing :: "token_buckets \<Rightarrow> token_buckets option \<Rightarrow> token_buckets \<Rightarrow> token_buckets" where
  "add_replacing totals prev nxt =
     (let p = (\<lambda>f. case prev of None \<Rightarrow> 0 | Some b \<Rightarrow> f b) in
      \<lparr>tb_input = tb_input totals - p tb_input + tb_input nxt,
       tb_output = tb_output totals - p tb_output + tb_output nxt,
       tb_cache_read = tb_cache_read totals - p tb_cache_read + tb_cache_read nxt,
       tb_cache_write = tb_cache_write totals - p tb_cache_write + tb_cache_write nxt\<rparr>)"

record usage_sample =
  us_turn :: int
  us_step :: int
  us_buckets :: token_buckets
  us_unrated :: token_buckets
  us_cost :: rat

record usage_state =
  tu_totals :: token_buckets
  tu_unrated :: token_buckets
  tu_cost :: rat
  tu_costed :: bool
  tu_last :: "usage_sample option"

definition usage_init :: usage_state where
  "usage_init = \<lparr>tu_totals = zero_buckets, tu_unrated = zero_buckets, tu_cost = 0, tu_costed = False,
     tu_last = None\<rparr>"

text \<open>\<open>usage.costUsd\<close> as a number; an explicit null is given but worth nothing; \<open>isTokenUsage\<close>; the usage a memory-formation call reports.\<close>

definition cost_of :: "json \<Rightarrow> rat option" where
  "cost_of u = (case field_of ''costUsd'' (Some u) of Some (JNum q) \<Rightarrow> Some q | _ \<Rightarrow> None)"

definition is_token_usage :: "json option \<Rightarrow> bool" where
  "is_token_usage v \<longleftrightarrow>
     (case (field_of ''inputTokens'' v, field_of ''outputTokens'' v) of
        (Some (JNum _), Some (JNum _)) \<Rightarrow> True
      | _ \<Rightarrow> False)"

definition memory_usage_of :: "session_event \<Rightarrow> json option" where
  "memory_usage_of e =
     (if event_type (ev_data e) \<noteq> ''autobio/memory-progress'' then None
      else
        (let d = plugin_data (ev_data e); u = field_of ''usage'' d in
         if field_of ''done'' d \<noteq> Some (JBool True) \<or> \<not> is_token_usage u then None else u))"

definition unrated_of :: "json \<Rightarrow> token_buckets" where
  "unrated_of u = (if field_of ''costUsd'' (Some u) = None then buckets_from u else zero_buckets)"

definition cost_or_zero :: "json \<Rightarrow> rat" where
  "cost_or_zero u = (case cost_of u of None \<Rightarrow> 0 | Some q \<Rightarrow> q)"

definition usage_report :: "session_event \<Rightarrow> (int \<times> int \<times> json) option" where
  "usage_report e =
     (case ev_data e of
        AssistantChunk t s (UsageC u) \<Rightarrow> Some (t, s, u)
      | AssistantMessage t s _ (Some u) \<Rightarrow> Some (t, s, u)
      | _ \<Rightarrow> None)"

definition usage_apply :: "usage_state \<Rightarrow> session_event \<Rightarrow> usage_state" where
  "usage_apply st e =
     (case memory_usage_of e of
        Some u \<Rightarrow>
          st\<lparr>tu_totals := add_replacing (tu_totals st) None (buckets_from u),
             tu_unrated := add_replacing (tu_unrated st) None (unrated_of u),
             tu_cost := double_round (tu_cost st + cost_or_zero u),
             tu_costed := tu_costed st \<or> field_of ''costUsd'' (Some u) \<noteq> None\<rparr>
      | None \<Rightarrow>
          (case usage_report e of
             None \<Rightarrow> st
           | Some (turn, step, u) \<Rightarrow>
               (let prev = (case tu_last st of
                              Some l \<Rightarrow> if us_turn l = turn \<and> us_step l = step then Some l else None
                            | None \<Rightarrow> None)
                in if (case prev of
                         Some l \<Rightarrow> us_buckets l = buckets_from u \<and> us_unrated l = unrated_of u
                                   \<and> us_cost l = cost_or_zero u
                       | None \<Rightarrow> False)
                   then st
                   else
                     \<lparr>tu_totals = add_replacing (tu_totals st) (map_option us_buckets prev) (buckets_from u),
                      tu_unrated = add_replacing (tu_unrated st) (map_option us_unrated prev) (unrated_of u),
                      tu_cost = double_round (double_round (tu_cost st - (case prev of None \<Rightarrow> 0 | Some l \<Rightarrow> us_cost l))
                                              + cost_or_zero u),
                      tu_costed = tu_costed st \<or> field_of ''costUsd'' (Some u) \<noteq> None,
                      tu_last = Some \<lparr>us_turn = turn, us_step = step, us_buckets = buckets_from u,
                                      us_unrated = unrated_of u, us_cost = cost_or_zero u\<rparr>\<rparr>)))"

subsection \<open>The totals count each step once\<close>

text \<open>The reports of the log in order, each with its turn and step, and the memory calls.\<close>

definition step_reports :: "session_event list \<Rightarrow> ((int \<times> int) \<times> json) list" where
  "step_reports evs = map (\<lambda>(t, s, u). ((t, s), u)) (List.map_filter usage_report evs)"

definition memory_reports :: "session_event list \<Rightarrow> json list" where
  "memory_reports evs = List.map_filter memory_usage_of evs"

text \<open>The last report of a step.\<close>

definition final_report :: "((int \<times> int) \<times> json) list \<Rightarrow> int \<times> int \<Rightarrow> json" where
  "final_report rs k = the (map_of (rev rs) k)"

definition final_sum :: "(token_buckets \<Rightarrow> rat) \<Rightarrow> ((int \<times> int) \<times> json) list \<Rightarrow> rat" where
  "final_sum f rs = (\<Sum>k \<in> fst ` set rs. f (buckets_from (final_report rs k)))"

definition reported_total :: "(token_buckets \<Rightarrow> rat) \<Rightarrow> session_event list \<Rightarrow> rat" where
  "reported_total f evs =
     final_sum f (step_reports evs) + sum_list (map (\<lambda>u. f (buckets_from u)) (memory_reports evs))"

lemma final_report_snoc: "final_report (rs @ [(k, u)]) = (final_report rs)(k := u)"
  by (auto simp: final_report_def fun_eq_iff)

lemma final_report_last: "rs \<noteq> [] \<Longrightarrow> final_report rs (fst (last rs)) = snd (last rs)"
  by (cases rs rule: rev_cases) (auto simp: final_report_snoc)

lemma final_sum_new: "k \<notin> fst ` set rs \<Longrightarrow> final_sum f (rs @ [(k, u)]) = final_sum f rs + f (buckets_from u)"
proof -
  assume new: "k \<notin> fst ` set rs"
  then have "(\<Sum>j \<in> fst ` set rs. f (buckets_from (((final_report rs)(k := u)) j))) = final_sum f rs"
    unfolding final_sum_def by (intro sum.cong) auto
  with new show ?thesis
    by (simp add: final_sum_def final_report_snoc insert_absorb sum.insert add.commute)
qed

lemma final_sum_again:
  assumes "k \<in> fst ` set rs"
  shows "final_sum f (rs @ [(k, u)]) = final_sum f rs - f (buckets_from (final_report rs k)) + f (buckets_from u)"
proof -
  let ?A = "fst ` set rs" and ?g = "(final_report rs)(k := u)"
  have "(\<Sum>j \<in> ?A. f (buckets_from (?g j))) = f (buckets_from u) + (\<Sum>j \<in> ?A - {k}. f (buckets_from (?g j)))"
    using assms by (subst sum.remove [of _ k]) auto
  also have "(\<Sum>j \<in> ?A - {k}. f (buckets_from (?g j))) = (\<Sum>j \<in> ?A - {k}. f (buckets_from (final_report rs j)))"
    by (intro sum.cong) auto
  also have "\<dots> = final_sum f rs - f (buckets_from (final_report rs k))"
    using assms by (simp add: final_sum_def sum_diff1)
  finally show ?thesis
    using assms by (simp add: final_sum_def final_report_snoc insert_absorb)
qed

text \<open>
  The reports of an accepted log belong to steps that are over or to the open step, and those
  of the open step come last.
\<close>

definition reports_ok :: "((int \<times> int) \<times> json) list \<Rightarrow> session_trace \<Rightarrow> bool" where
  "reports_ok rs tr \<longleftrightarrow>
     (\<forall>k \<in> fst ` set rs. fst k < next_turn tr \<or>
        open_turn tr \<noteq> None \<and> fst k = next_turn tr \<and>
        (snd k < next_step tr \<or> snd k = next_step tr \<and> open_step tr \<noteq> None)) \<and>
     (open_step tr \<noteq> None \<longrightarrow> (next_turn tr, next_step tr) \<in> fst ` set rs \<longrightarrow>
        fst (last rs) = (next_turn tr, next_step tr))"

lemma step_reports_snoc:
  "step_reports (evs @ [e]) =
     step_reports evs @ (case usage_report e of None \<Rightarrow> [] | Some (t, s, u) \<Rightarrow> [((t, s), u)])"
  by (auto simp: step_reports_def map_filter_snoc split: option.splits)

text \<open>How an accepted event moves the counters of the trace.\<close>

lemma trace_step_counters [consumes 2, case_names same turn_start turn_end step_start step_end]:
  assumes "trace_step evs i tr e = Inr tr'" and "trace_wf tr"
  obtains
    "next_turn tr' = next_turn tr" "next_step tr' = next_step tr" "open_turn tr' = open_turn tr"
      "open_step tr' = open_step tr"
  | "next_turn tr' = next_turn tr" "open_turn tr = None" "open_step tr' = None" "open_turn tr' = Some (next_turn tr)"
  | "next_turn tr' = next_turn tr + 1" "open_step tr' = None" "open_turn tr' = None"
  | "next_turn tr' = next_turn tr" "next_step tr' = next_step tr" "open_turn tr' = open_turn tr"
      "open_step tr = None" "open_turn tr \<noteq> None" "open_step tr' = Some (next_step tr)"
  | "next_turn tr' = next_turn tr" "next_step tr' = next_step tr + 1" "open_turn tr' = open_turn tr"
      "open_step tr' = None"
proof (cases "ev_data e")
  case (TurnStart t)
  with assms show ?thesis
    by (intro that(2)) (auto simp: trace_defs trace_wf_def split: option.splits if_splits)
next
  case (TurnEnd t r)
  with assms show ?thesis
    by (intro that(3)) (auto simp: trace_defs trace_wf_def split: option.splits if_splits)
next
  case (StepStart t s)
  with assms show ?thesis
    by (intro that(4)) (auto simp: trace_defs trace_wf_def split: option.splits if_splits)
next
  case (StepEnd t s)
  with assms show ?thesis
    by (intro that(5)) (auto simp: trace_defs trace_wf_def split: option.splits if_splits)
qed (use assms in \<open>intro that(1); auto simp: trace_defs split: option.splits if_splits\<close>)+

lemma reports_ok_no_report:
  assumes "reports_ok rs tr" and "trace_wf tr" and "trace_step evs i tr e = Inr tr'"
  shows "reports_ok rs tr'"
proof -
  have past: "fst k < next_turn tr \<or> open_turn tr \<noteq> None \<and> fst k = next_turn tr \<and>
      (snd k < next_step tr \<or> snd k = next_step tr \<and> open_step tr \<noteq> None)" if "k \<in> fst ` set rs" for k
    using assms(1) that unfolding reports_ok_def by blast
  from assms(3,2) show ?thesis
  proof (cases rule: trace_step_counters)
    case same
    with assms(1) show ?thesis by (simp add: reports_ok_def)
  next
    case turn_start
    then have "\<forall>k \<in> fst ` set rs. fst k < next_turn tr" using past by blast
    with turn_start show ?thesis by (simp add: reports_ok_def)
  next
    case turn_end
    have "\<forall>k \<in> fst ` set rs. fst k < next_turn tr + 1" using past by fastforce
    with turn_end show ?thesis by (simp add: reports_ok_def)
  next
    case step_start
    then have "\<forall>k \<in> fst ` set rs. fst k < next_turn tr \<or> fst k = next_turn tr \<and> snd k < next_step tr"
      using past by blast
    with step_start show ?thesis by (fastforce simp: reports_ok_def)
  next
    case step_end
    then have "\<forall>k \<in> fst ` set rs. fst k < next_turn tr \<or>
        open_turn tr \<noteq> None \<and> fst k = next_turn tr \<and> snd k < next_step tr + 1"
      using past by fastforce
    with step_end show ?thesis by (simp add: reports_ok_def)
  qed
qed

lemma report_in_open_step:
  assumes "usage_report e = Some (t, s, u)" and "trace_wf tr" and "trace_step evs i tr e = Inr tr'"
  shows "t = next_turn tr" "s = next_step tr" "open_turn tr \<noteq> None" "open_step tr \<noteq> None"
    "next_turn tr' = next_turn tr" "next_step tr' = next_step tr" "open_turn tr' = open_turn tr"
    "open_step tr' = open_step tr"
  using assms
  by (auto simp: usage_report_def trace_defs trace_wf_def split: event_data.splits stream_chunk.splits
      option.splits if_splits)

lemma reports_ok_step:
  assumes "reports_ok (step_reports evs) tr" and "trace_wf tr" and "trace_step evs i tr e = Inr tr'"
  shows "reports_ok (step_reports (evs @ [e])) tr'"
proof (cases "usage_report e")
  case None
  with assms reports_ok_no_report show ?thesis by (simp add: step_reports_snoc)
next
  case (Some r)
  then obtain t s u where r: "usage_report e = Some (t, s, u)" by (cases r) auto
  from report_in_open_step [OF r assms(2,3)] assms(1) r show ?thesis
    by (auto simp: reports_ok_def step_reports_snoc)
qed

text \<open>The fold state after a log: the last report and the running totals.\<close>

definition usage_ok :: "session_event list \<Rightarrow> usage_state \<Rightarrow> bool" where
  "usage_ok evs st \<longleftrightarrow>
     map_option (\<lambda>l. ((us_turn l, us_step l), us_buckets l)) (tu_last st) =
       (if step_reports evs = [] then None
        else Some (map_prod id buckets_from (last (step_reports evs)))) \<and>
     tu_totals st = \<lparr>tb_input = reported_total tb_input evs, tb_output = reported_total tb_output evs,
       tb_cache_read = reported_total tb_cache_read evs, tb_cache_write = reported_total tb_cache_write evs\<rparr>"

lemma memory_usage_no_report: "memory_usage_of e = Some u \<Longrightarrow> usage_report e = None"
  by (cases "ev_data e") (auto simp: memory_usage_of_def usage_report_def)

lemma reported_total_memory:
  "memory_usage_of e = Some u \<Longrightarrow>
   reported_total f (evs @ [e]) = reported_total f evs + f (buckets_from u)"
  by (simp add: reported_total_def step_reports_snoc memory_usage_no_report memory_reports_def map_filter_snoc)

lemma reported_total_report:
  assumes "memory_usage_of e = None" and "usage_report e = Some (t, s, u)"
    and "(t, s) \<in> fst ` set (step_reports evs) \<Longrightarrow> fst (last (step_reports evs)) = (t, s)"
  shows "reported_total f (evs @ [e]) =
    reported_total f evs
      - (if (t, s) \<in> fst ` set (step_reports evs) then f (buckets_from (snd (last (step_reports evs)))) else 0)
      + f (buckets_from u)"
proof (cases "(t, s) \<in> fst ` set (step_reports evs)")
  case True
  then have "step_reports evs \<noteq> []" by auto
  from final_report_last [OF this] assms(3) [OF True]
  have "final_report (step_reports evs) (t, s) = snd (last (step_reports evs))" by simp
  with True assms(1,2) show ?thesis
    by (simp add: reported_total_def step_reports_snoc memory_reports_def map_filter_snoc final_sum_again)
next
  case False
  with assms(1,2) show ?thesis
    by (simp add: reported_total_def step_reports_snoc memory_reports_def map_filter_snoc final_sum_new)
qed

lemma usage_apply_ok:
  assumes ok: "usage_ok evs st" and reports: "reports_ok (step_reports evs) tr" "trace_wf tr"
    and step: "trace_step evs i tr e = Inr tr'"
  shows "usage_ok (evs @ [e]) (usage_apply st e)"
proof (cases "memory_usage_of e")
  case (Some u)
  with ok show ?thesis
    by (simp add: usage_ok_def usage_apply_def reported_total_memory step_reports_snoc memory_usage_no_report
        add_replacing_def Let_def)
next
  case mem: None
  show ?thesis
  proof (cases "usage_report e")
    case None
    with mem ok show ?thesis
      by (simp add: usage_ok_def usage_apply_def reported_total_def step_reports_snoc memory_reports_def
          map_filter_snoc)
  next
    case (Some r)
    then obtain t s u where r: "usage_report e = Some (t, s, u)" by (cases r) auto
    let ?rs = "step_reports evs"
    have adj: "fst (last ?rs) = (t, s)" if "(t, s) \<in> fst ` set ?rs"
      using that reports(1) report_in_open_step [OF r reports(2) step] by (simp add: reports_ok_def)
    have seen: "(t, s) \<in> fst ` set ?rs \<longleftrightarrow> (\<exists>l. tu_last st = Some l \<and> us_turn l = t \<and> us_step l = s)"
    proof
      assume k: "(t, s) \<in> fst ` set ?rs"
      then have "?rs \<noteq> []" by auto
      with ok adj [OF k] show "\<exists>l. tu_last st = Some l \<and> us_turn l = t \<and> us_step l = s"
        by (cases "last ?rs") (auto simp: usage_ok_def)
    next
      assume "\<exists>l. tu_last st = Some l \<and> us_turn l = t \<and> us_step l = s"
      with ok have "?rs \<noteq> []" and "fst (last ?rs) = (t, s)"
        by (auto simp: usage_ok_def split: if_splits) (metis fst_conv fst_map_prod id_apply)
      then show "(t, s) \<in> fst ` set ?rs" by (metis image_eqI last_in_set)
    qed
    note total = reported_total_report [OF mem r adj]
    show ?thesis
    proof (cases "(t, s) \<in> fst ` set ?rs")
      case True
      with seen obtain l where l: "tu_last st = Some l" "us_turn l = t" "us_step l = s" by blast
      from True have "?rs \<noteq> []" by auto
      with ok l have "us_buckets l = buckets_from (snd (last ?rs))"
        by (cases "last ?rs") (auto simp: usage_ok_def)
      with True total l ok show ?thesis
        by (auto simp: usage_ok_def usage_apply_def mem r Let_def step_reports_snoc add_replacing_def)
    next
      case False
      with seen have "(case tu_last st of
          Some l \<Rightarrow> if us_turn l = t \<and> us_step l = s then Some l else None | None \<Rightarrow> None) = None"
        by (auto split: option.splits)
      with False total ok show ?thesis
        by (simp add: usage_ok_def usage_apply_def mem r Let_def step_reports_snoc add_replacing_def)
    qed
  qed
qed

lemma usage_fold_ok:
  "seed_trace evs = Inr tr \<Longrightarrow>
   usage_ok evs (foldl usage_apply usage_init evs) \<and> reports_ok (step_reports evs) tr"
proof (induction rule: seed_trace_induct)
  case Nil
  show ?case
    by (simp add: usage_ok_def usage_init_def zero_buckets_def reports_ok_def step_reports_def memory_reports_def
        reported_total_def final_sum_def List.map_filter_simps)
next
  case (snoc evs e tr tr')
  then show ?case by (auto intro: usage_apply_ok reports_ok_step)
qed

text \<open>
  Claim C23. On a log whose turns and steps the companion accepted, the usage totals are the
  sum over all steps of the step's last report, early samples never counted again, plus
  every memory-formation call.
\<close>

theorem usage_counts_each_step_once:
  assumes "seed_trace evs = Inr tr"
  shows "tu_totals (foldl usage_apply usage_init evs) =
    \<lparr>tb_input = reported_total tb_input evs, tb_output = reported_total tb_output evs,
     tb_cache_read = reported_total tb_cache_read evs, tb_cache_write = reported_total tb_cache_write evs\<rparr>"
  using usage_fold_ok [OF assms] by (simp add: usage_ok_def)

text \<open>A step whose final usage replaces its early sample, and a second step.\<close>

definition usage_json :: "rat \<Rightarrow> rat \<Rightarrow> json" where
  "usage_json i k = JObj [(''inputTokens'', JNum i), (''outputTokens'', JNum k)]"

definition usage_log :: "session_event list" where
  "usage_log =
     [plain_event 0 0 (TurnStart 1), plain_event 1 0 (StepStart 1 1),
      plain_event 2 0 (AssistantChunk 1 1 (UsageC (usage_json 10 1))),
      on_surface 3 (AssistantMessage 1 1 sample_assistant (Some (usage_json 10 5))),
      plain_event 4 0 (StepEnd 1 1), plain_event 5 0 (StepStart 1 2),
      plain_event 6 0 (AssistantChunk 1 2 (UsageC (usage_json 7 2)))]"

lemma usage_counts_each_step_once_witness:
  "tu_totals (foldl usage_apply usage_init usage_log) =
     \<lparr>tb_input = 17, tb_output = 7, tb_cache_read = 0, tb_cache_write = 0\<rparr>"
proof -
  have "\<not> isl (seed_trace usage_log)" by code_simp
  then obtain tr where "seed_trace usage_log = Inr tr" by (cases "seed_trace usage_log") auto
  from usage_counts_each_step_once [OF this]
  have eq: "tu_totals (foldl usage_apply usage_init usage_log) =
    \<lparr>tb_input = reported_total tb_input usage_log, tb_output = reported_total tb_output usage_log,
     tb_cache_read = reported_total tb_cache_read usage_log, tb_cache_write = reported_total tb_cache_write usage_log\<rparr>" .
  have "map (\<lambda>f. reported_total f usage_log) [tb_input, tb_output, tb_cache_read, tb_cache_write] = [17, 7, 0, 0]"
    by code_simp
  with eq show ?thesis by simp
qed

text \<open>
  A bill of zero that repeats a sample without tokens: the state is returned as it was, so no
  billed cost is reported.
\<close>

lemma zero_bill_is_not_reported:
  "\<not> tu_costed (foldl usage_apply usage_init
      [plain_event 0 0 (AssistantChunk 1 1 (UsageC (usage_json 0 0))),
       plain_event 1 0 (AssistantChunk 1 1 (UsageC (JObj
         [(''inputTokens'', JNum 0), (''outputTokens'', JNum 0), (''costUsd'', JNum 0)])))])"
  by code_simp

subsection \<open>The bounded surface total on a fully metered log\<close>

text \<open>Every replacement directly follows a metering event that prices exactly its range.\<close>

definition metered_replacement :: "(rat \<Rightarrow> string) \<Rightarrow> session_event list \<Rightarrow> replacement \<Rightarrow> bool" where
  "metered_replacement num evs r \<longleftrightarrow>
     0 < re_seq r \<and> is_metering (ev_data (evs ! nat (re_seq r - 1))) \<and>
     claim_of (ev_data (evs ! nat (re_seq r - 1))) =
       \<lparr>sc_start = Some (jint (re_start r)), sc_end = Some (jint (re_end r)),
        sc_tokens = tokens_of (map (priced num evs) (re_shadowed r))\<rparr>"

definition fully_metered :: "(rat \<Rightarrow> string) \<Rightarrow> session_event list \<Rightarrow> replacement list \<Rightarrow> bool" where
  "fully_metered num evs rs \<longleftrightarrow> (\<forall>r \<in> set rs. metered_replacement num evs r)"

definition armed_claim :: "session_event list \<Rightarrow> shadow_claim option" where
  "armed_claim evs =
     (if evs \<noteq> [] \<and> is_metering (ev_data (last evs)) then Some (claim_of (ev_data (last evs))) else None)"

fun run_projection :: "('s \<Rightarrow> 'e \<Rightarrow> 'err + 's) \<Rightarrow> 's \<Rightarrow> 'e list \<Rightarrow> 'err + 's" where
  "run_projection f s [] = Inr s"
| "run_projection f s (e # es) = and_then (f s e) (\<lambda>s'. run_projection f s' es)"

lemma run_projection_snoc:
  "run_projection f s (es @ [e]) = and_then (run_projection f s es) (\<lambda>s'. f s' e)"
proof (induction es arbitrary: s)
  case Nil
  show ?case by (cases "f s e") auto
next
  case (Cons x es)
  then show ?case by (cases "f s x") auto
qed

lemma surface_event_not_metering: "is_surface_event e \<Longrightarrow> \<not> is_metering (ev_data e)"
  by (auto simp: is_surface_event_def is_surface_eligible_type_def message_types_def is_metering_def)

lemma priced_on_prefix:
  "\<forall>n \<in> set ns. 0 \<le> n \<and> n < int (length evs) \<Longrightarrow> map (priced num (evs @ rest)) ns = map (priced num evs) ns"
  by (intro map_cong) (simp_all add: priced_append)

lemma projection_step:
  assumes step: "fold_step evs (length evs) (st, rs) e = Inr (st', rs')"
    and bounded: "\<forall>n \<in> set (nodes st). 0 \<le> n \<and> n < int (length evs)"
    and metered: "\<forall>r \<in> set rs' - set rs. metered_replacement num (evs @ [e]) r"
    and fresh: "\<forall>r \<in> set rs. re_seq r < int (length evs)"
  obtains f where "fold_surface_projection num (armed_claim evs) e = Inr f"
    "stf_claim f = armed_claim (evs @ [e])"
    "tokens_of (map (priced num (evs @ [e])) (nodes st')) =
       tokens_of (map (priced num evs) (nodes st)) + stf_delta f"
  using step
proof (cases rule: fold_step_cases)
  case log_only
  with bounded show ?thesis
    by (intro that [of "\<lparr>stf_delta = 0, stf_claim = armed_claim (evs @ [e])\<rparr>"])
      (simp_all add: fold_surface_projection_def armed_claim_def priced_on_prefix)
next
  case append
  then have "is_surface_event e" and "\<not> is_metering (ev_data e)"
    using surface_event_not_metering by (auto simp: is_append_surface_event_def)
  with append bounded show ?thesis
    by (intro that [of "\<lparr>stf_delta = event_price num e, stf_claim = None\<rparr>"])
      (simp_all add: fold_surface_projection_def armed_claim_def priced_on_prefix priced_last
        is_append_surface_event_def)
next
  case (replace a b k j sh)
  note ends = op_end_replace [OF replace(9)] and rg = replacement_range_InrD [OF replace(3)]
  let ?r = "\<lparr>re_seq = int (length evs), re_start = a, re_end = b, re_shadowed = sh\<rparr>"
  have surf: "is_surface_event e" "\<not> is_metering (ev_data e)"
    using replace(2) surface_event_not_metering by (auto simp: is_replacement_surface_event_def)
  have "?r \<in> set rs' - set rs" using replace(8) fresh by auto
  with metered have m: "metered_replacement num (evs @ [e]) ?r" by blast
  then have "evs \<noteq> []" by (auto simp: metered_replacement_def)
  note nonempty = this
  moreover from this have "nat (int (length evs) - 1) = length evs - 1" "length evs - 1 < length evs"
    by (cases evs; simp)+
  ultimately have "(evs @ [e]) ! nat (int (length evs) - 1) = last evs"
    by (simp add: nth_append last_conv_nth)
  moreover have "set sh \<subseteq> set (nodes st)"
    using rg(5) by (auto simp: js_slice_def dest!: in_set_takeD in_set_dropD)
  then have "map (priced num (evs @ [e])) sh = map (priced num evs) sh"
    using bounded by (intro priced_on_prefix) auto
  ultimately have claim: "armed_claim evs =
      Some \<lparr>sc_start = Some (jint a), sc_end = Some (jint b), sc_tokens = tokens_of (map (priced num evs) sh)\<rparr>"
    using m nonempty by (simp add: metered_replacement_def armed_claim_def del: map_eq_conv)
  have "map (priced num (evs @ [e])) (nodes st') =
      js_splice (map (priced num evs) (nodes st)) k (j - k + 1) [priced num (evs @ [e]) (int (length evs))]"
    using replace(6) priced_on_prefix [OF bounded, of num "[e]"]
    by (simp add: js_splice_map [of _ _ _ _ "[int (length evs)]", simplified, symmetric] del: map_eq_conv)
  moreover have "k + (j - k + 1) \<le> length (map (priced num evs) (nodes st))" using rg(1,2) by simp
  ultimately have "tokens_of (map (priced num (evs @ [e])) (nodes st')) =
      tokens_of (map (priced num evs) (nodes st)) + (event_price num e - tokens_of (map (priced num evs) sh))"
    using rg(1,5) by (simp add: tokens_of_splice js_slice_map priced_last)
  with ends surf claim replace(1,2) show ?thesis
    by (intro that [of "\<lparr>stf_delta = event_price num e - tokens_of (map (priced num evs) sh), stf_claim = None\<rparr>"])
      (auto simp: fold_surface_projection_def armed_claim_def)
qed

text \<open>Induction over an accepted, fully metered log.\<close>

lemma replacements_before: 
  "replay fold_step (create_fold_state, []) evs = (None, length evs, (st, rs)) \<Longrightarrow>
   \<forall>r \<in> set rs. re_seq r < int (length evs) \<and> (\<forall>n \<in> set (re_shadowed r). 0 \<le> n \<and> n < int (length evs))"
proof (induction evs arbitrary: st rs rule: rev_induct)
  case (snoc e evs)
  then obtain st0 rs0 where st0: "replay fold_step (create_fold_state, []) evs = (None, length evs, (st0, rs0))"
      "fold_step evs (length evs) (st0, rs0) e = Inr (st, rs)"
    by (auto simp: fold_log.replay_snoc_Some)
  note ih = snoc.IH [OF st0(1)] and bounded = surface_nodes_bounded [OF st0(1)]
  from st0(2) show ?case
  proof (cases rule: fold_step_cases)
    case (replace a b k j sh)
    have "set sh \<subseteq> set (nodes st0)"
      using replacement_range_InrD(5) [OF replace(3)]
      by (auto simp: js_slice_def dest!: in_set_takeD in_set_dropD)
    with ih bounded replace(8) show ?thesis by fastforce
  qed (use ih in fastforce)+
qed simp

lemma metered_replacement_prefix:
  assumes "re_seq r < int (length evs)" and "\<forall>n \<in> set (re_shadowed r). 0 \<le> n \<and> n < int (length evs)"
    and "metered_replacement num (evs @ rest) r"
  shows "metered_replacement num evs r"
proof -
  have "nat (re_seq r - 1) < length evs" using assms(1,3) by (auto simp: metered_replacement_def)
  with assms(2,3) show ?thesis by (simp add: metered_replacement_def nth_append priced_on_prefix)
qed

lemma metered_induct [consumes 2, case_names Nil snoc]:
  assumes "fold_surface evs = Inr (ns, rs)" and "fully_metered num evs rs" and "P [] []"
    and "\<And>evs e ns rs ns' f. P evs ns \<Longrightarrow> fold_surface evs = Inr (ns, rs) \<Longrightarrow>
      fold_surface_projection num (armed_claim evs) e = Inr f \<Longrightarrow> stf_claim f = armed_claim (evs @ [e]) \<Longrightarrow>
      tokens_of (map (priced num (evs @ [e])) ns') = tokens_of (map (priced num evs) ns) + stf_delta f \<Longrightarrow>
      P (evs @ [e]) ns'"
  shows "P evs ns"
proof -
  have "P evs (nodes st)"
    if "replay fold_step (create_fold_state, []) evs = (None, length evs, (st, rs))" "fully_metered num evs rs"
    for evs st rs
    using that
  proof (induction evs arbitrary: st rs rule: rev_induct)
    case Nil
    then have "st = create_fold_state" by simp
    with assms(3) show ?case by (simp add: create_fold_state_def)
  next
    case (snoc e evs)
    from snoc.prems(1) obtain st0 rs0 where st0:
        "replay fold_step (create_fold_state, []) evs = (None, length evs, (st0, rs0))"
        "fold_step evs (length evs) (st0, rs0) e = Inr (st, rs)"
      by (auto simp: fold_log.replay_snoc_Some)
    note before = replacements_before [OF st0(1)]
    have "set rs0 \<subseteq> set rs" using st0(2) by (cases rule: fold_step_cases) auto
    then have "fully_metered num evs rs0"
      using snoc.prems(2) before metered_replacement_prefix unfolding fully_metered_def by blast
    then have ih: "P evs (nodes st0)" using snoc.IH st0(1) by blast
    obtain f where "fold_surface_projection num (armed_claim evs) e = Inr f"
        "stf_claim f = armed_claim (evs @ [e])"
        "tokens_of (map (priced num (evs @ [e])) (nodes st)) = tokens_of (map (priced num evs) (nodes st0)) + stf_delta f"
      using projection_step [OF st0(2) surface_nodes_bounded [OF st0(1)], of num] snoc.prems(2) before
      unfolding fully_metered_def by blast
    moreover have "fold_surface evs = Inr (nodes st0, rs0)" using st0(1) by (auto simp: fold_surface_Inr_iff)
    ultimately show ?case using ih by (intro assms(4)) auto
  qed
  with assms(1,2) show ?thesis by (auto simp: fold_surface_Inr_iff)
qed

lemma breakdown_apply_Inr:
  assumes "fold_surface_projection num (bd_claim st) e = Inr f"
  obtains st' where "breakdown_apply num st e = Inr st'" "bd_message st' = bd_message st + stf_delta f"
    "bd_claim st' = stf_claim f"
    "bd_system st' = (case ev_data e of RequestHeader h _ \<Rightarrow> estimate_system_tokens (Some (canonical_header h))
                      | _ \<Rightarrow> bd_system st)"
    "bd_tools st' = (case ev_data e of RequestHeader h _ \<Rightarrow> estimate_tools_tokens num (Some (canonical_header h))
                      | _ \<Rightarrow> bd_tools st)"
proof (rule that)
  define st' where "st' = projr (breakdown_apply num st e)"
  show "breakdown_apply num st e = Inr st'"
    using assms by (auto simp: st'_def breakdown_apply_def Let_def split: prod.splits)
  show "bd_message st' = bd_message st + stf_delta f" "bd_claim st' = stf_claim f"
    using assms by (auto simp: st'_def breakdown_apply_def Let_def split: prod.splits)
  show "bd_system st' = (case ev_data e of RequestHeader h _ \<Rightarrow> estimate_system_tokens (Some (canonical_header h))
                      | _ \<Rightarrow> bd_system st)"
    "bd_tools st' = (case ev_data e of RequestHeader h _ \<Rightarrow> estimate_tools_tokens num (Some (canonical_header h))
                      | _ \<Rightarrow> bd_tools st)"
    using assms by (auto simp: st'_def breakdown_apply_def Let_def split: prod.splits event_data.splits)
qed

text \<open>
  Claim C22. On a fully metered log the context composition carries the same figures as the
  meter: the message tokens are the surface tokens of a measurement, the system and tool
  tokens those of the latest request header.
\<close>

theorem composition_is_the_measurement:
  assumes "fold_surface evs = Inr (ns, rs)" and "fully_metered num evs rs"
    and "meter_reach num evs slot" and "fst (meter_measure num evs request slot) = Inr m"
  shows "\<exists>st. run_projection (breakdown_apply num) breakdown_init evs = Inr st \<and>
    bd_message st = ms_surface_tokens m \<and>
    bd_system st = estimate_system_tokens (fold_request_header evs) \<and>
    bd_tools st = estimate_tools_tokens num (fold_request_header evs)"
proof -
  have "\<exists>st. run_projection (breakdown_apply num) breakdown_init evs = Inr st \<and>
      bd_message st = tokens_of (map (priced num evs) ns) \<and> bd_claim st = armed_claim evs \<and>
      bd_system st = estimate_system_tokens (fold_request_header evs) \<and>
      bd_tools st = estimate_tools_tokens num (fold_request_header evs)"
    using assms(1,2)
  proof (induction rule: metered_induct)
    case Nil
    show ?case
      by (simp add: breakdown_init_def armed_claim_def fold_request_header_def estimate_system_tokens_def
          estimate_tools_tokens_def)
  next
    case (snoc evs e ns rs0 ns' f)
    then obtain st where st: "run_projection (breakdown_apply num) breakdown_init evs = Inr st"
        "bd_message st = tokens_of (map (priced num evs) ns)" "bd_claim st = armed_claim evs"
        "bd_system st = estimate_system_tokens (fold_request_header evs)"
        "bd_tools st = estimate_tools_tokens num (fold_request_header evs)"
      by blast
    from snoc(3) st(3) have "fold_surface_projection num (bd_claim st) e = Inr f" by simp
    then obtain st' where "breakdown_apply num st e = Inr st'" "bd_message st' = bd_message st + stf_delta f"
        "bd_claim st' = stf_claim f"
        "bd_system st' = (case ev_data e of RequestHeader h _ \<Rightarrow> estimate_system_tokens (Some (canonical_header h))
                      | _ \<Rightarrow> bd_system st)"
        "bd_tools st' = (case ev_data e of RequestHeader h _ \<Rightarrow> estimate_tools_tokens num (Some (canonical_header h))
                      | _ \<Rightarrow> bd_tools st)"
      by (rule breakdown_apply_Inr)
    with st snoc(4,5) show ?case
      by (auto simp: run_projection_snoc fold_request_header_def fold_header_from_append split: event_data.splits)
  qed
  moreover have cont: "contiguous evs"
    using assms(1) by (auto simp: fold_surface_Inr_iff dest: fold_replay_contiguous)
  moreover have m: "measure_log num evs request = Inr m"
    using assms(3,4) cont by (simp add: measure_reachable)
  moreover have "ms_surface_tokens m = tokens_of (ms_nodes m)"
    using m cont by (rule measure_log_Inr) (simp add: meter_ok_def read_meter_def Let_def split: prod.split)
  ultimately show ?thesis
    using measure_log_nodes [OF m assms(1)] by auto
qed

lemma pressure_apply_Inr:
  assumes "fold_surface_projection num (cp_claim st) e = Inr f"
  obtains st' where "pressure_apply num st e = Inr st'" "cp_surface st' = cp_surface st + stf_delta f"
    "cp_claim st' = stf_claim f"
    "cp_pressure st' = (case usage_of e of None \<Rightarrow> cp_pressure st | Some u \<Rightarrow> Some (pressure_from u))"
    "cp_sampled st' = (case usage_of e of None \<Rightarrow> cp_sampled st | Some u \<Rightarrow> Some (cp_surface st))"
proof (rule that)
  define st' where "st' = projr (pressure_apply num st e)"
  show "pressure_apply num st e = Inr st'"
    using assms by (auto simp: st'_def pressure_apply_def Let_def)
  show "cp_surface st' = cp_surface st + stf_delta f" "cp_claim st' = stf_claim f"
    "cp_pressure st' = (case usage_of e of None \<Rightarrow> cp_pressure st | Some u \<Rightarrow> Some (pressure_from u))"
    "cp_sampled st' = (case usage_of e of None \<Rightarrow> cp_sampled st | Some u \<Rightarrow> Some (cp_surface st))"
    using assms
    by (auto simp: st'_def pressure_apply_def Let_def sample_slot_def window_slot_def
        split: option.splits event_data.splits)
qed

text \<open>The newest usage report and the surface its request saw.\<close>

definition sample_taken :: "(rat \<Rightarrow> string) \<Rightarrow> session_event list \<Rightarrow> pressure_state \<Rightarrow> bool" where
  "sample_taken num evs st \<longleftrightarrow>
     (\<forall>pre e post u. evs = pre @ e # post \<longrightarrow> usage_of e = Some u \<longrightarrow> (\<forall>x \<in> set post. usage_of x = None) \<longrightarrow>
        (\<exists>ns rs. fold_surface pre = Inr (ns, rs) \<and> cp_pressure st = Some (pressure_from u) \<and>
           cp_sampled st = Some (tokens_of (map (priced num pre) ns))))"

lemma sample_taken_snoc:
  assumes "sample_taken num evs st" and "fold_surface evs = Inr (ns, rs)"
    and "cp_surface st = tokens_of (map (priced num evs) ns)"
    and "cp_pressure st' = (case usage_of e of None \<Rightarrow> cp_pressure st | Some u \<Rightarrow> Some (pressure_from u))"
    and "cp_sampled st' = (case usage_of e of None \<Rightarrow> cp_sampled st | Some u \<Rightarrow> Some (cp_surface st))"
  shows "sample_taken num (evs @ [e]) st'"
  unfolding sample_taken_def
proof (intro allI impI)
  fix pre x post u
  assume split: "evs @ [e] = pre @ x # post" and u: "usage_of x = Some u" and none: "\<forall>y \<in> set post. usage_of y = None"
  show "\<exists>ns rs. fold_surface pre = Inr (ns, rs) \<and> cp_pressure st' = Some (pressure_from u) \<and>
      cp_sampled st' = Some (tokens_of (map (priced num pre) ns))"
  proof (cases post rule: rev_cases)
    case Nil
    with split u assms show ?thesis by auto
  next
    case (snoc post' y)
    with split none have "evs = pre @ x # post'" "usage_of e = None" "\<forall>y \<in> set post'. usage_of y = None" by auto
    with assms(1,4,5) u show ?thesis unfolding sample_taken_def by auto
  qed
qed

theorem occupancy_follows_the_surface:
  assumes "fold_surface evs = Inr (ns, rs)" and "fully_metered num evs rs"
    and "evs = pre @ e # post" and "usage_of e = Some u" and "list_all (\<lambda>x. usage_of x = None) post"
    and "fold_surface pre = Inr (ns0, rs0)"
  shows "\<exists>st. run_projection (pressure_apply num) pressure_init evs = Inr st \<and>
    projected_tokens st = Some (max 0 (pressure_from u + tokens_of (map (priced num evs) ns)
      - tokens_of (map (priced num pre) ns0)))"
proof -
  have "\<exists>st. run_projection (pressure_apply num) pressure_init evs = Inr st \<and>
      cp_surface st = tokens_of (map (priced num evs) ns) \<and> cp_claim st = armed_claim evs \<and>
      sample_taken num evs st"
    using assms(1,2)
  proof (induction rule: metered_induct)
    case Nil
    show ?case by (simp add: pressure_init_def armed_claim_def sample_taken_def)
  next
    case (snoc evs e ns rs0 ns' f)
    then obtain st where st: "run_projection (pressure_apply num) pressure_init evs = Inr st"
        "cp_surface st = tokens_of (map (priced num evs) ns)" "cp_claim st = armed_claim evs"
        "sample_taken num evs st"
      by blast
    from snoc(3) st(3) have "fold_surface_projection num (cp_claim st) e = Inr f" by simp
    then obtain st' where st': "pressure_apply num st e = Inr st'" "cp_surface st' = cp_surface st + stf_delta f"
        "cp_claim st' = stf_claim f"
        "cp_pressure st' = (case usage_of e of None \<Rightarrow> cp_pressure st | Some u \<Rightarrow> Some (pressure_from u))"
        "cp_sampled st' = (case usage_of e of None \<Rightarrow> cp_sampled st | Some u \<Rightarrow> Some (cp_surface st))"
      by (rule pressure_apply_Inr)
    from sample_taken_snoc [OF st(4) snoc(2) st(2) st'(4,5)] st st'(1,2,3) snoc(4,5) show ?case
      by (simp add: run_projection_snoc)
  qed
  then obtain st where st: "run_projection (pressure_apply num) pressure_init evs = Inr st"
      "cp_surface st = tokens_of (map (priced num evs) ns)" "sample_taken num evs st"
    by blast
  from st(3) assms(3-6) have "cp_pressure st = Some (pressure_from u)"
      "cp_sampled st = Some (tokens_of (map (priced num pre) ns0))"
    unfolding sample_taken_def list_all_iff by (metis Pair_inject sum.inject(2))+
  with st(1,2) show ?thesis by (simp add: projected_tokens_def)
qed

text \<open>A prompt, a usage report, and a pruned replacement of the prompt.\<close>

definition prune_event :: "int \<Rightarrow> int \<Rightarrow> rat \<Rightarrow> event_data" where
  "prune_event a b k = OtherEvent ''compaction/prune''
     (JObj [(''shadowedRange'', JObj [(''start'', jint a), (''end'', jint b)]),
            (''shadowedSeqs'', JArr [jint a]), (''shadowedTokenCount'', JNum k)])"

definition metered_log :: "session_event list" where
  "metered_log =
     [plain_event 0 0 (TurnStart 1), on_surface 1 (UserMessage (sample_user\<lparr>um_content := [TextB ''a longer text''] \<rparr>)),
      plain_event 2 0 (AssistantChunk 1 1 (UsageC (usage_json 100 1))),
      plain_event 3 0 (prune_event 1 1 12),
      (on_surface 4 (UserMessage sample_user))
        \<lparr>ev_surface_op := Some (JObj [(''op'', JStr ''replace''), (''start'', jint 1), (''end'', jint 1)]),
         ev_sources := Some (JArr [jint 1])\<rparr>]"

definition metered_replacements :: "replacement list" where
  "metered_replacements = [\<lparr>re_seq = 4, re_start = 1, re_end = 1, re_shadowed = [1]\<rparr>]"

lemma metered_log_surface:
  "fold_surface metered_log = Inr ([4], metered_replacements)"
  "fold_surface (take 2 metered_log) = Inr ([1], [])"
  by code_simp+

lemma metered_log_metered: "fully_metered decimal metered_log metered_replacements"
  unfolding fully_metered_def metered_replacements_def metered_replacement_def by code_simp

lemma metered_log_measured: "\<exists>m. fst (meter_measure decimal metered_log None None) = Inr m"
proof -
  have "\<not> isl (fst (meter_measure decimal metered_log None None))" by code_simp
  then show ?thesis by (cases "fst (meter_measure decimal metered_log None None)") auto
qed

lemma composition_is_the_measurement_witness:
  "\<exists>m st. fst (meter_measure decimal metered_log None None) = Inr m \<and>
     run_projection (breakdown_apply decimal) breakdown_init metered_log = Inr st \<and>
     bd_message st = ms_surface_tokens m"
  using metered_log_measured
    composition_is_the_measurement [OF metered_log_surface(1) metered_log_metered meter_reach.unread, of None]
  by blast

lemma occupancy_follows_the_surface_witness:
  "\<exists>st. run_projection (pressure_apply decimal) pressure_init metered_log = Inr st \<and>
     projected_tokens st = Some 97"
proof -
  have "metered_log = take 2 metered_log @ metered_log ! 2 # drop 3 metered_log"
    by (simp add: metered_log_def)
  moreover have "usage_of (metered_log ! 2) = Some (usage_json 100 1)"
    "list_all (\<lambda>x. usage_of x = None) (drop 3 metered_log)"
    by (simp_all add: metered_log_def usage_of_def on_surface_def prune_event_def)
  moreover have "max 0 (pressure_from (usage_json 100 1) + tokens_of (map (priced decimal metered_log) [4])
      - tokens_of (map (priced decimal (take 2 metered_log)) [1])) = 97"
    by code_simp
  ultimately show ?thesis
    using occupancy_follows_the_surface [OF metered_log_surface(1) metered_log_metered, of "take 2 metered_log"]
      metered_log_surface(2) by metis
qed

end
