(* ===== verification/Compaction_Metered.thy ===== *)
theory Compaction_Metered
  imports Compaction_Accepted Token_Projections
begin

section \<open>Compaction under the token meter\<close>

text \<open>
  The contract between the compaction transaction and the meter it takes as a dependency, as a
  locale, and its interpretation on the model of the token meter. With it the transaction
  keeps the shadow-price protocol that the bounded token projections rely on.
\<close>

subsection \<open>The contract\<close>

text \<open>The dependencies of a transaction built on a measurement of the log.\<close>

definition deps_of ::
  "(session_event list \<Rightarrow> 'err + measurement) \<Rightarrow> ('err \<Rightarrow> string) \<Rightarrow> (user_message \<Rightarrow> rat) \<Rightarrow> region_dependencies"
where
  "deps_of meas render estimate =
     \<lparr>rd_measure = (\<lambda>s. map_sum render id (meas (ss_log s))), rd_estimate = estimate\<rparr>"

locale surface_meter =
  fixes meas :: "session_event list \<Rightarrow> 'err + measurement"
    and price :: "session_event list \<Rightarrow> int \<Rightarrow> rat"
  assumes nodes_are_the_surface:
      "meas evs = Inr m \<Longrightarrow> fold_surface evs = Inr (ns, rs) \<Longrightarrow> map pn_seq (ms_nodes m) = ns"
    and tokens_are_prices:
      "meas evs = Inr m \<Longrightarrow> fold_surface evs = Inr (ns, rs) \<Longrightarrow> map pn_tokens (ms_nodes m) = map (price evs) ns"
begin

lemma reports_surface: "meter_reports_surface (deps_of meas render estimate)"
  by (auto simp: meter_reports_surface_def deps_of_def map_sum_Inr_iff dest: nodes_are_the_surface)

lemma node_price:
  assumes "meas evs = Inr m" and "fold_surface evs = Inr (ns, rs)" and "n \<in> set (ms_nodes m)"
  shows "pn_tokens n = price evs (pn_seq n)"
proof -
  obtain i where i: "i < length (ms_nodes m)" "n = ms_nodes m ! i" using assms(3) by (auto simp: in_set_conv_nth)
  have seqs: "map pn_seq (ms_nodes m) = ns" and tokens: "map pn_tokens (ms_nodes m) = map (price evs) ns"
    using assms(1,2) nodes_are_the_surface tokens_are_prices by auto
  have "pn_tokens n = map pn_tokens (ms_nodes m) ! i" using i by simp
  also have "\<dots> = map (price evs) (map pn_seq (ms_nodes m)) ! i" by (simp only: seqs tokens)
  finally show ?thesis using i by simp
qed

text \<open>What a prepared transaction takes for the price of its span is the price of the span.\<close>

lemma prepared_price:
  assumes prepared: "prepared_at (deps_of meas render estimate) sl evs pc"
    and fold: "fold_surface evs = Inr (ns, rs)"
  shows "pc_tokens pc = sum_list (map (price evs) (sl_shadowed sl))"
proof -
  obtain m where m: "meas evs = Inr m" "pc_nodes pc = ms_nodes m"
    using prepared by (auto simp: prepared_at_def deps_of_def map_sum_Inr_iff)
  have sel: "pc_selected pc = js_slice (pc_nodes pc) (sl_start_idx sl) (sl_end_idx sl + 1)"
    "map pn_seq (pc_selected pc) = sl_shadowed sl" "pc_tokens pc = sum_list (map pn_tokens (pc_selected pc))"
    using prepared by (auto simp: prepared_at_def)
  have "set (pc_selected pc) \<subseteq> set (ms_nodes m)"
    using sel(1) m(2) by (auto simp: js_slice_def dest!: in_set_takeD in_set_dropD)
  then have "map pn_tokens (pc_selected pc) = map (\<lambda>n. price evs (pn_seq n)) (pc_selected pc)"
    using node_price [OF m(1) fold] by (intro map_cong) auto
  also have "\<dots> = map (price evs) (sl_shadowed sl)" by (simp add: sel(2) [symmetric] comp_def)
  finally show ?thesis by (simp add: sel(3))
qed

end

lemma event_price_priced: "pn_tokens (priced num evs n) = event_price num (evs ! nat n)"
  by (simp add: priced_def)

interpretation token_meter: surface_meter "\<lambda>evs. measure_log num evs None" "\<lambda>evs n. event_price num (evs ! nat n)"
  for num
proof unfold_locales
  fix evs m ns rs
  assume m: "measure_log num evs None = Inr m" and fold: "fold_surface evs = Inr (ns, rs)"
  from measure_log_nodes [OF m fold] show "map pn_seq (ms_nodes m) = ns"
    and "map pn_tokens (ms_nodes m) = map (\<lambda>n. event_price num (evs ! nat n)) ns"
    by (simp_all add: comp_def event_price_priced)
qed

text \<open>The transaction's dependencies on the token meter.\<close>

definition meter_deps :: "(rat \<Rightarrow> string) \<Rightarrow> (meter_error \<Rightarrow> string) \<Rightarrow> region_dependencies" where
  "meter_deps num render =
     deps_of (\<lambda>evs. measure_log num evs None) render (\<lambda>m. of_nat (estimate_message num (UserM m)))"

subsection \<open>Replacements of a growing log\<close>

lemma surface_step_of:
  assumes "fold_surface evs = Inr (ns, rs)" and "fold_surface (evs @ [e]) = Inr (ns', rs')"
  obtains st st' where "fold_step evs (length evs) (st, rs) e = Inr (st', rs')" "nodes st = ns" "nodes st' = ns'"
    "replay fold_step (create_fold_state, []) evs = (None, length evs, (st, rs))"
  using assms by (auto simp: fold_surface_Inr_iff fold_log.replay_snoc_Some)

lemma metered_replacement_grow:
  assumes "re_seq r < int (length evs)" and "\<forall>n \<in> set (re_shadowed r). 0 \<le> n \<and> n < int (length evs)"
    and "metered_replacement num evs r"
  shows "metered_replacement num (evs @ rest) r"
proof -
  have "nat (re_seq r - 1) < length evs" using assms(1,3) by (auto simp: metered_replacement_def)
  with assms(2,3) show ?thesis
    by (simp add: metered_replacement_def nth_append priced_on_prefix del: map_eq_conv)
qed

lemma fully_metered_snoc:
  assumes "fold_surface evs = Inr (ns, rs)" and "fold_surface (evs @ [e]) = Inr (ns', rs')"
    and "fully_metered num evs rs"
    and "is_replacement_surface_event e \<Longrightarrow> metered_replacement num (evs @ [e]) (last rs')"
  shows "fully_metered num (evs @ [e]) rs'"
proof -
  obtain st st' where step: "fold_step evs (length evs) (st, rs) e = Inr (st', rs')"
    and run: "replay fold_step (create_fold_state, []) evs = (None, length evs, (st, rs))"
    using surface_step_of [OF assms(1,2)] .
  have old: "\<forall>r \<in> set rs. metered_replacement num (evs @ [e]) r"
    using replacements_before [OF run] assms(3) metered_replacement_grow unfolding fully_metered_def by blast
  from step show ?thesis
    by (cases rule: fold_step_cases) (use old assms(4) in \<open>auto simp: fully_metered_def\<close>)
qed

lemma fully_metered_append:
  assumes "fold_surface evs = Inr (ns, rs)" and "fully_metered num evs rs"
    and "list_all (\<lambda>e. \<not> is_replacement_surface_event e) M" and "fold_surface (evs @ M) = Inr (ns', rs')"
  shows "fully_metered num (evs @ M) rs'"
  using assms(3,4)
proof (induction M arbitrary: ns' rs' rule: rev_induct)
  case Nil
  with assms(1,2) show ?case by simp
next
  case (snoc e M)
  obtain n1 r1 where n1: "fold_surface (evs @ M) = Inr (n1, r1)"
    using snoc.prems(2) surface_prefix [of "evs @ M" "[e]" "(ns', rs')"] by auto
  from snoc.IH [OF _ n1] snoc.prems(1) have "fully_metered num (evs @ M) r1" by simp
  with fully_metered_snoc [OF n1 _ this, of e ns' rs'] snoc.prems show ?case by simp
qed

lemma ineligible_not_replacement:
  "\<not> is_surface_eligible_type (event_type (ev_data e)) \<Longrightarrow> \<not> is_replacement_surface_event e"
  by (simp add: is_replacement_surface_event_def is_surface_event_def)

lemma summary_claim:
  assumes "ev_data sm = OtherEvent compaction_summary (JObj (summary_data opts env pc sr))"
  shows "claim_of (ev_data sm) =
    \<lparr>sc_start = Some (jint (sl_start (pc_selection pc))), sc_end = Some (jint (sl_end (pc_selection pc))),
     sc_tokens = pc_tokens pc\<rparr>" "is_metering (ev_data sm)"
proof -
  have field: "field_of k v = Option.bind v (\<lambda>j. data_field j k)" for k v
  proof (cases v)
    case (Some j)
    then show ?thesis by (cases j) simp_all
  qed simp
  show "claim_of (ev_data sm) =
    \<lparr>sc_start = Some (jint (sl_start (pc_selection pc))), sc_end = Some (jint (sl_end (pc_selection pc))),
     sc_tokens = pc_tokens pc\<rparr>"
    using summary_fields(4-6) [where opts = opts and env = env and pc = pc and sr = sr]
    by (auto simp: assms claim_of_def Let_def field number_of_def nested_field_def split: option.splits)
  show "is_metering (ev_data sm)" by (simp add: assms is_metering_def compaction_types)
qed

lemma meter_deps_reports: "meter_reports_surface (meter_deps num render)"
  unfolding meter_deps_def by (rule token_meter.reports_surface)

text \<open>The checkpoint of a committed transaction is metered by the summary event before it.\<close>

lemma span_on_surface:
  assumes prepared: "prepared_at (meter_deps num render) sl evs pc" and fold: "fold_surface evs = Inr (ns, rs)"
  shows "set (sl_shadowed sl) \<subseteq> set ns"
    and "pc_tokens pc = tokens_of (map (priced num evs) (sl_shadowed sl))"
proof -
  obtain mm where "measure_log num evs None = Inr mm" "pc_nodes pc = ms_nodes mm"
    using prepared by (auto simp: prepared_at_def meter_deps_def deps_of_def map_sum_Inr_iff)
  with token_meter.nodes_are_the_surface [OF _ fold] have "map pn_seq (pc_nodes pc) = ns" by simp
  moreover have "sl_shadowed sl = map pn_seq (js_slice (pc_nodes pc) (sl_start_idx sl) (sl_end_idx sl + 1))"
    using prepared unfolding prepared_at_def by metis
  ultimately show "set (sl_shadowed sl) \<subseteq> set ns"
    by (auto simp: js_slice_def dest!: in_set_takeD in_set_dropD)
  show "pc_tokens pc = tokens_of (map (priced num evs) (sl_shadowed sl))"
    using token_meter.prepared_price [OF prepared [unfolded meter_deps_def] fold]
    by (simp add: tokens_of_def comp_def event_price_priced)
qed

lemma last_replacement:
  assumes "fold_surface evs = Inr (ns, rs)" and "fold_surface (evs @ [e]) = Inr (ns', rs')"
    and "surface_op_of e = Inr (Some (OpReplace a b))" and "index_of a ns = Some i" and "index_of b ns = Some j"
  shows "last rs' = \<lparr>re_seq = int (length evs), re_start = a, re_end = b, re_shadowed = js_slice ns i (j + 1)\<rparr>"
proof -
  obtain st st' where step: "fold_step evs (length evs) (st, rs) e = Inr (st', rs')" "nodes st = ns"
    using surface_step_of [OF assms(1,2)] by metis
  from step(1) show ?thesis
  proof (cases rule: fold_step_cases)
    case (replace a' b' k l sh)
    have "a' = a" "b' = b" using replace(9) assms(3) by simp_all
    with replace(3) step(2) assms(4,5) have "sh = js_slice ns i (j + 1)"
      by (auto simp: replacement_range_def split: if_splits)
    with replace(8) \<open>a' = a\<close> \<open>b' = b\<close> show ?thesis by simp
  qed (use assms(3) in \<open>auto simp: surface_op_of_def is_append_surface_event_def Let_def
        split: option.splits json.splits if_splits\<close>)
qed

lemma committed_checkpoint:
  fixes L M e
  defines "B \<equiv> L @ [e] @ M"
  assumes prepared: "prepared_at (meter_deps num render) sl (L @ [e]) pc"
    and body: "body_events opts env pc sr m e sm ck"
    and sel: "pc_selection pc = sl" "sl_start sl = a" "sl_end sl = b"
    and n1: "fold_surface (B @ [sm]) = Inr (ns, r1)" and n2: "fold_surface ((B @ [sm]) @ [ck]) = Inr (n2, r2)"
    and op: "surface_op_of ck = Inr (Some (OpReplace a b))" and nE: "fold_surface (L @ [e]) = Inr (nE, rE)"
    and cur: "sl_shadowed cur = sl_shadowed sl" and ij: "index_of a ns = Some i" "index_of b ns = Some j"
      "cur = \<lparr>sl_start = a, sl_end = b, sl_start_idx = i, sl_end_idx = j, sl_shadowed = js_slice ns i (j + 1)\<rparr>"
  shows "metered_replacement num ((B @ [sm]) @ [ck]) (last r2)"
proof -
  have span: "\<forall>n \<in> set (sl_shadowed sl). 0 \<le> n \<and> n < int (length (L @ [e]))"
    using span_on_surface(1) [OF prepared nE] surface_facts(2) [OF nE] by blast
  have "map (priced num ((B @ [sm]) @ [ck])) (sl_shadowed sl) = map (priced num (L @ [e])) (sl_shadowed sl)"
    using priced_on_prefix [OF span, of num "M @ [sm, ck]"] by (simp add: B_def)
  moreover have "((B @ [sm]) @ [ck]) ! nat (int (length (B @ [sm])) - 1) = sm"
    by (simp add: nth_append)
  moreover have "ev_data sm = OtherEvent compaction_summary (JObj (summary_data opts env pc sr))"
    using body by (simp add: body_events_def)
  note summary_claim [OF this]
  moreover have "last r2 = \<lparr>re_seq = int (length (B @ [sm])), re_start = a, re_end = b, re_shadowed = sl_shadowed sl\<rparr>"
    using last_replacement [OF n1 n2 op ij(1,2)] cur ij(3) by simp
  ultimately show ?thesis
    using span_on_surface(2) [OF prepared nE] sel by (simp add: metered_replacement_def del: map_eq_conv)
qed

text \<open>
  Claim C21. A compaction driven by the token meter, during which nothing else on the
  surface is replaced, keeps a fully metered log fully metered: its summary event prices
  exactly the span that the checkpoint right after it replaces, so the bounded token
  projections stay exact.
\<close>

theorem compaction_keeps_the_log_metered:
  assumes reach: "paired_reach ps"
    and between: "only_appends (list_all (\<lambda>e. \<not> is_replacement_surface_event e)) between"
    and run: "compact_surface_region (meter_deps num render) opts env show_failure between outcome a b ps = (Inr res, ps')"
    and fold: "fold_surface (ss_log (fst ps)) = Inr (ns, rs)" and metered: "fully_metered num (ss_log (fst ps)) rs"
    and fold': "fold_surface (ss_log (fst ps')) = Inr (ns', rs')"
  shows "fully_metered num (ss_log (fst ps')) rs'"
  using paired_reach_at_log [OF reach] between run
proof (cases rule: transaction_outcome)
  case (refused x)
  then show ?thesis by simp
next
  case (given_up owner e M tail f was_closed)
  then show ?thesis by (simp add: transaction_reply_def split: if_splits)
next
  case (committed ns0 rs0 sl owner e M tail res')
  let ?L = "ss_log (fst ps)" let ?B = "?L @ [e] @ M" let ?deps = "meter_deps num render"
  from committed(8) have "committed ?deps opts env outcome ?L sl owner e M tail res'" .
  from committed(1,2,5,6) this meter_deps_reports obtain pc sr m sm ck fin nB rB r1 n2 r2 r3 cur where
    tail: "tail = [sm, ck, fin]" and prepared: "prepared_at ?deps sl (?L @ [e]) pc"
    and body: "body_events opts env pc sr m e sm ck"
    and fin: "ev_data fin = OtherEvent compaction_end (JObj (lifecycle (te_id env) (to_command opts) owner))"
    and nB: "fold_surface ?B = Inr (nB, rB)" and n1: "fold_surface (?B @ [sm]) = Inr (nB, r1)"
    and n2: "fold_surface ((?B @ [sm]) @ [ck]) = Inr (n2, r2)"
    and n3: "fold_surface (((?B @ [sm]) @ [ck]) @ [fin]) = Inr (n2, r3)"
    and cur: "region_check ?B nB a b = Inr cur" "sl_shadowed cur = sl_shadowed sl"
    and sel: "pc_selection pc = sl" "sl_start sl = a" "sl_end sl = b"
    and op: "surface_op_of ck = Inr (Some (OpReplace a b))"
    by (rule committed_replacement)
  have at: "at_log (?B @ [sm, ck, fin]) ps'" using committed(6) tail by simp
  then have log: "ss_log (fst ps') = ((?B @ [sm]) @ [ck]) @ [fin]" by (simp add: at_log_def)
  from nB have "fold_surface ((?L @ [e]) @ M) = Inr (nB, rB)" by simp
  then obtain nE rE where nE: "fold_surface (?L @ [e]) = Inr (nE, rE)" by (rule surface_prefix)
  have plain: "\<not> is_surface_eligible_type (event_type (ev_data sm))" "\<not> is_surface_eligible_type (event_type (ev_data fin))"
    "\<not> is_surface_eligible_type (event_type (ev_data e))"
    using body fin committed(5)
    by (simp_all add: body_events_def opened_by_def is_surface_eligible_type_def message_types_def compaction_types)
  have quiet: "list_all (\<lambda>e. \<not> is_replacement_surface_event e) (([e] @ M) @ [sm])"
    using committed(7) plain ineligible_not_replacement by simp
  have m1: "fully_metered num (?B @ [sm]) r1"
    using fully_metered_append [OF fold metered quiet, of nB r1] n1 by simp
  obtain i j where ij: "index_of a nB = Some i" "index_of b nB = Some j"
      "cur = \<lparr>sl_start = a, sl_end = b, sl_start_idx = i, sl_end_idx = j, sl_shadowed = js_slice nB i (j + 1)\<rparr>"
    using region_check_Inr [OF cur(1)] by metis
  have ck: "metered_replacement num ((?B @ [sm]) @ [ck]) (last r2)"
    by (rule committed_checkpoint [OF prepared body sel n1 n2 op nE cur(2) ij])
  show ?thesis
    using fully_metered_snoc [OF n2 _ fully_metered_snoc [OF n1 n2 m1 ck], of fin ns' rs'] fold' log
      ineligible_not_replacement [OF plain(2)] by simp
qed

subsection \<open>A sample compaction under the meter\<close>

text \<open>The sample session with a prompt long enough for its checkpoint to be smaller.\<close>

definition long_log :: "session_event list" where
  "long_log =
     [plain_event 0 0 (TurnStart 1),
      on_surface 1 (UserMessage (sample_user\<lparr>um_content := replicate 60 (TextB ''x'')\<rparr>))]
     @ drop 2 sample_log"

definition long_session :: session where
  "long_session = projr (construct_session Snapshot ''s'' (Some (map Some long_log)) None 0 0)"

lemma long_session_reach: "paired_reach (long_session, None)"
proof -
  have "construct_session Snapshot ''s'' (Some (map Some long_log)) None 0 0 = Inr long_session"
    by code_simp
  then show ?thesis by (rule paired_reach.made)
qed

definition metered_compaction :: "(region_error + compaction_result) \<times> paired_session" where
  "metered_compaction =
     compact_surface_region (meter_deps decimal (\<lambda>_. ''meter'')) sample_options sample_tx_env (\<lambda>_. ''e'') id
       (Inr sample_summary) 1 1 (long_session, None)"

lemma metered_compaction_facts:
  "\<not> isl (fst metered_compaction)"
  "fold_surface (ss_log long_session) = Inr ([1, 3], [])"
  "fold_surface (ss_log (fst (snd metered_compaction))) =
     Inr ([8, 3], [\<lparr>re_seq = 8, re_start = 1, re_end = 1, re_shadowed = [1]\<rparr>])"
  by code_simp+

lemma compaction_keeps_the_log_metered_witness:
  "fully_metered decimal (ss_log (fst (snd metered_compaction)))
     [\<lparr>re_seq = 8, re_start = 1, re_end = 1, re_shadowed = [1]\<rparr>]"
proof (rule compaction_keeps_the_log_metered [OF long_session_reach only_appends_id])
  show "compact_surface_region (meter_deps decimal (\<lambda>_. ''meter'')) sample_options sample_tx_env (\<lambda>_. ''e'') id
       (Inr sample_summary) 1 1 (long_session, None) = (Inr (projr (fst metered_compaction)), snd metered_compaction)"
    using metered_compaction_facts(1) unfolding metered_compaction_def [symmetric] by (simp add: prod_eq_iff)
  show "fold_surface (ss_log (fst (long_session, None :: balance_cache option))) = Inr ([1, 3], [])"
    using metered_compaction_facts(2) by simp
qed (simp_all add: fully_metered_def metered_compaction_facts(3))

end
