(* ===== verification/Session_Repair.thy ===== *)
theory Session_Repair
  imports Session_Trace Session_Surface "HOL-Library.AList"
begin

section \<open>Crash-recovery repair of an interrupted log\<close>

text \<open>
  Model of \<^verbatim>\<open>packages/core/session/src/repair.ts\<close>: \<open>interruptedTurnClosers\<close> scans a
  loaded log and returns the synthetic events that close its open tail turn. A JavaScript
  \<open>Map\<close> is an association list in insertion order (\<open>AList.update\<close> keeps the position of an
  existing key, as \<open>Map.set\<close> does).
\<close>

record pending_call =
  pc_step :: int
  pc_call_seq :: "int option"

record repair_scan =
  rs_turn :: "int option"
  rs_step :: "int option"
  rs_calls :: "(call_id \<times> pending_call) list"

definition scan_start :: repair_scan where
  "scan_start = \<lparr>rs_turn = None, rs_step = None, rs_calls = []\<rparr>"

text \<open>The blocks of an assistant message register their calls.\<close>

fun register_calls ::
  "int \<Rightarrow> content_block list \<Rightarrow> (call_id \<times> pending_call) list \<Rightarrow> (call_id \<times> pending_call) list"
where
  "register_calls s [] calls = calls"
| "register_calls s (ToolCallB c n a # bs) calls =
     register_calls s bs (AList.update c \<lparr>pc_step = s, pc_call_seq = None\<rparr> calls)"
| "register_calls s (_ # bs) calls = register_calls s bs calls"

fun scan_data :: "int \<Rightarrow> event_data \<Rightarrow> repair_scan \<Rightarrow> repair_scan" where
  "scan_data n (TurnStart t) r = \<lparr>rs_turn = Some t, rs_step = None, rs_calls = []\<rparr>"
| "scan_data n (TurnEnd _ _) r = \<lparr>rs_turn = None, rs_step = None, rs_calls = []\<rparr>"
| "scan_data n (StepStart _ s) r = r\<lparr>rs_step := Some s\<rparr>"
| "scan_data n (StepEnd _ _) r = r\<lparr>rs_step := None, rs_calls := []\<rparr>"
| "scan_data n (AssistantMessage _ s m _) r =
     r\<lparr>rs_calls := register_calls s (am_content m) (rs_calls r)\<rparr>"
| "scan_data n (ToolCall _ _ c _ _) r =
     (case map_of (rs_calls r) c of
        None \<Rightarrow> r
      | Some pc \<Rightarrow> r\<lparr>rs_calls := AList.update c (pc\<lparr>pc_call_seq := Some n\<rparr>) (rs_calls r)\<rparr>)"
| "scan_data n (ToolResult d) r =
     r\<lparr>rs_calls := AList.delete (trm_call (tr_message d)) (rs_calls r)\<rparr>"
| "scan_data n _ r = r"

definition scan_event :: "session_event \<Rightarrow> repair_scan \<Rightarrow> repair_scan" where
  "scan_event e r = scan_data (ev_seq e) (ev_data e) r"

definition repair_scan_of :: "session_event list \<Rightarrow> repair_scan" where
  "repair_scan_of evs = foldl (\<lambda>r e. scan_event e r) scan_start evs"

definition outcome_unknown_text :: string where
  "outcome_unknown_text = ''The tool call was interrupted after it was recorded, but no result was durably recorded. Its outcome is unknown. Decide whether to retry from the tool semantics: retry only if the operation is read-only or idempotent; if it may have side effects, first verify external state or ask the user. Do not retry blindly.''"

definition not_started_text :: string where
  "not_started_text = ''The tool call was interrupted before the Harness recorded it as started. Retry it if it is still needed.''"

text \<open>The synthetic error result of one unanswered call, at sequence number \<open>n\<close>.\<close>

definition call_closer :: "int \<Rightarrow> int \<Rightarrow> int \<Rightarrow> call_id \<Rightarrow> pending_call \<Rightarrow> session_event" where
  "call_closer turn time n c pc =
     (let started = pc_call_seq pc \<noteq> None in
      \<lparr>ev_seq = n, ev_time = time,
       ev_data = ToolResult
         \<lparr>tr_turn = turn, tr_step = pc_step pc,
          tr_message = \<lparr>trm_id = ''interrupted-tool-result-'' @ c @ ''-'' @ string_of_int n,
            trm_call = c, trm_tool_call = c,
            trm_content = [TextB (if started then outcome_unknown_text else not_started_text)],
            trm_is_error = Some True\<rparr>,
          tr_error = Some (if started then (''ToolOutcomeUnknownError'', tool_outcome_unknown)
                           else (''ToolNotStartedError'', tool_not_started)),
          tr_meta = None\<rparr>,
       ev_surface_op = Some (JStr ''append''),
       ev_sources = (case pc_call_seq pc of None \<Rightarrow> None | Some s \<Rightarrow> Some (JArr [jint s])),
       ev_ignorable = False\<rparr>)"

fun call_closers :: "int \<Rightarrow> int \<Rightarrow> int \<Rightarrow> (call_id \<times> pending_call) list \<Rightarrow> session_event list" where
  "call_closers turn time n [] = []"
| "call_closers turn time n ((c, pc) # rest) =
     call_closer turn time n c pc # call_closers turn time (n + 1) rest"

definition boundary_closers :: "int \<Rightarrow> int \<Rightarrow> int \<Rightarrow> int option \<Rightarrow> session_event list" where
  "boundary_closers turn time n step =
     (case step of
        None \<Rightarrow> [plain_event n time (TurnEnd turn Interrupted)]
      | Some s \<Rightarrow> [plain_event n time (StepEnd turn s),
                   plain_event (n + 1) time (TurnEnd turn Interrupted)])"

definition interrupted_turn_closers :: "session_event list \<Rightarrow> session_event list" where
  "interrupted_turn_closers evs =
     (let r = repair_scan_of evs in
      case rs_turn r of
        None \<Rightarrow> []
      | Some turn \<Rightarrow>
          if evs = [] then []
          else
            (let n = ev_seq (last evs) + 1; time = ev_time (last evs) in
             call_closers turn time n (rs_calls r)
             @ boundary_closers turn time (n + int (length (rs_calls r))) (rs_step r)))"

subsection \<open>The scan follows the trace\<close>

text \<open>
  On a log the invariants accept, the scan has the trace's open turn and step; every
  pending call stands in the open step, and one that was recorded as started is a pending
  call of the trace.
\<close>

definition scan_follows :: "repair_scan \<Rightarrow> session_trace \<Rightarrow> bool" where
  "scan_follows r tr \<longleftrightarrow>
     rs_turn r = open_turn tr \<and> rs_step r = open_step tr \<and> distinct (map fst (rs_calls r)) \<and>
     (\<forall>(c, pc) \<in> set (rs_calls r).
        open_step tr = Some (pc_step pc) \<and> (pc_call_seq pc \<noteq> None \<longrightarrow> c \<in> pending_calls tr))"

lemma set_AList_update:
  "distinct (map fst al) \<Longrightarrow>
   set (AList.update k v al) = insert (k, v) {p \<in> set al. fst p \<noteq> k}"
  by (induction al) (auto, force+)

lemma set_AList_delete: "set (AList.delete k al) = {p \<in> set al. fst p \<noteq> k}"
  by (induction al) auto

lemma register_calls_distinct:
  "distinct (map fst calls) \<Longrightarrow> distinct (map fst (register_calls s bs calls))"
  by (induction s bs calls rule: register_calls.induct) (auto simp: AList.distinct_update)

lemma register_calls_set:
  "distinct (map fst calls) \<Longrightarrow> (c, pc) \<in> set (register_calls s bs calls) \<Longrightarrow>
   (c, pc) \<in> set calls \<or> pc = \<lparr>pc_step = s, pc_call_seq = None\<rparr>"
  by (induction s bs calls rule: register_calls.induct)
    (auto simp: AList.distinct_update set_AList_update)

lemma scan_event_follows:
  assumes "scan_follows r tr" and "trace_wf tr" and "trace_step evs i tr e = Inr tr'"
  shows "scan_follows (scan_event e r) tr'"
proof (cases "ev_data e")
  case (AssistantMessage t s m u)
  with assms show ?thesis
    by (fastforce simp: scan_follows_def scan_event_def trace_defs register_calls_distinct
        split: if_splits dest: register_calls_set)
next
  case (ToolCall t s c n a)
  show ?thesis
  proof (cases "map_of (rs_calls r) c")
    case None
    then have "c \<notin> fst ` set (rs_calls r)" by (simp add: map_of_eq_None_iff)
    with None ToolCall assms show ?thesis
      by (auto simp: scan_follows_def scan_event_def trace_defs split: if_splits)
  next
    case (Some pc)
    then have "(c, pc) \<in> set (rs_calls r)" by (rule map_of_SomeD)
    with Some ToolCall assms show ?thesis
      by (fastforce simp: scan_follows_def scan_event_def trace_defs AList.distinct_update
          set_AList_update split: if_splits)
  qed
next
  case (ToolResult d)
  with assms show ?thesis
    by (auto simp: scan_follows_def scan_event_def trace_defs AList.distinct_delete
        set_AList_delete split: if_splits)
next
  case (StepStart t s)
  with assms show ?thesis
    by (fastforce simp: scan_follows_def scan_event_def trace_defs
        split: if_splits option.splits)
qed (use assms in \<open>auto simp: scan_follows_def scan_event_def trace_defs trace_wf_def
        split: if_splits option.splits\<close>)

lemma repair_scan_of_snoc [simp]:
  "repair_scan_of (evs @ [e]) = scan_event e (repair_scan_of evs)"
  by (simp add: repair_scan_of_def)

lemma repair_scan_of_Nil [simp]: "repair_scan_of [] = scan_start"
  by (simp add: repair_scan_of_def)

lemma repair_scan_follows: "seed_trace evs = Inr tr \<Longrightarrow> scan_follows (repair_scan_of evs) tr"
proof (induction rule: seed_trace_induct)
  case Nil
  show ?case by (simp add: scan_follows_def scan_start_def fresh_trace_def)
next
  case (snoc evs e tr tr')
  then show ?case by (auto intro: scan_event_follows)
qed

subsection \<open>The closers complete the log\<close>

lemma call_closer_accepted:
  assumes "open_turn tr = Some turn" and "open_step tr = Some (pc_step pc)"
    and "pc_call_seq pc \<noteq> None \<longrightarrow> c \<in> pending_calls tr" and "last_seq tr < n"
  shows "trace_step evs i tr (call_closer turn time n c pc) =
           Inr (tr\<lparr>last_seq := n, pending_calls := pending_calls tr - {c}\<rparr>)"
  using assms
  by (cases "pc_call_seq pc")
    (auto simp: trace_defs call_closer_def)

lemma call_closers_accepted:
  assumes "open_turn tr = Some turn" and "distinct (map fst calls)"
    and "\<forall>(c, pc) \<in> set calls.
           open_step tr = Some (pc_step pc) \<and> (pc_call_seq pc \<noteq> None \<longrightarrow> c \<in> pending_calls tr)"
    and "last_seq tr < n"
  shows "\<exists>tr'. run_log trace_step evs i tr (call_closers turn time n calls)
            = (None, i + length calls, tr') \<and>
           open_turn tr' = open_turn tr \<and> open_step tr' = open_step tr \<and>
           last_seq tr' < n + int (length calls)"
  using assms
proof (induction calls arbitrary: n tr i)
  case Nil
  then show ?case by simp
next
  case (Cons p calls)
  obtain c pc where p: "p = (c, pc)" by fastforce
  let ?tr = "tr\<lparr>last_seq := n, pending_calls := pending_calls tr - {c}\<rparr>"
  have step: "trace_step evs i tr (call_closer turn time n c pc) = Inr ?tr"
    using Cons.prems p by (intro call_closer_accepted) auto
  have "\<exists>tr'. run_log trace_step evs (Suc i) ?tr (call_closers turn time (n + 1) calls)
            = (None, Suc i + length calls, tr') \<and>
           open_turn tr' = open_turn ?tr \<and> open_step tr' = open_step ?tr \<and>
           last_seq tr' < n + 1 + int (length calls)"
    using Cons.prems p by (intro Cons.IH) (auto simp: image_iff)
  with step p show ?case by (simp add: algebra_simps)
qed

lemma boundary_closers_accepted:
  assumes "open_turn tr = Some turn" and "last_seq tr < n" and "trace_wf tr \<or> open_step tr \<noteq> None"
  shows "\<exists>j tr'. run_log trace_step evs i tr (boundary_closers turn time n (open_step tr)) = (None, j, tr') \<and>
           open_turn tr' = None \<and> open_step tr' = None"
  using assms
  by (cases "open_step tr") (auto simp: boundary_closers_def trace_defs)

lemma run_log_trace_any:
  "run_log trace_step evs i tr es = run_log trace_step evs' i tr es"
  by (induction es arbitrary: i tr) (auto simp: trace_step_def split: sum.splits)

lemma call_closers_Nil_iff [simp]: "call_closers turn time n calls = [] \<longleftrightarrow> calls = []"
  by (cases calls) auto

lemma closers_open:
  assumes "rs_turn (repair_scan_of evs) = Some turn"
  shows "interrupted_turn_closers evs =
     (let r = repair_scan_of evs; n = ev_seq (last evs) + 1; time = ev_time (last evs) in
      call_closers turn time n (rs_calls r)
      @ boundary_closers turn time (n + int (length (rs_calls r))) (rs_step r))"
    and "evs \<noteq> []"
  using assms by (auto simp: interrupted_turn_closers_def scan_start_def Let_def)

lemma repaired_trace_closed:
  assumes "seed_trace evs = Inr tr"
  shows "\<exists>tr'. seed_trace (evs @ interrupted_turn_closers evs) = Inr tr' \<and>
           open_turn tr' = None \<and> open_step tr' = None \<and> pending_calls tr' = {}"
proof (cases "rs_turn (repair_scan_of evs)")
  case None
  with repair_scan_follows [OF assms] seed_trace_wf [OF assms] assms show ?thesis
    by (auto simp: interrupted_turn_closers_def scan_follows_def trace_wf_def Let_def)
next
  case (Some turn)
  let ?r = "repair_scan_of evs"
  let ?n = "ev_seq (last evs) + 1" and ?time = "ev_time (last evs)"
  let ?cs = "call_closers turn ?time ?n (rs_calls ?r)"
  let ?bs = "boundary_closers turn ?time (?n + int (length (rs_calls ?r))) (rs_step ?r)"
  let ?log = "evs @ ?cs @ ?bs"
  note follows = repair_scan_follows [OF assms]
  have closers: "interrupted_turn_closers evs = ?cs @ ?bs" and ne: "evs \<noteq> []"
    using closers_open [OF Some] by (simp_all add: Let_def)
  have tr: "open_turn tr = Some turn" "open_step tr = rs_step ?r" "last_seq tr < ?n"
    using follows Some seed_trace_last_seq [OF assms ne] by (simp_all add: scan_follows_def)
  obtain tr1 where run1: "run_log trace_step ?log (length evs) tr ?cs
        = (None, length evs + length (rs_calls ?r), tr1)"
    and tr1: "open_turn tr1 = Some turn" "open_step tr1 = rs_step ?r"
      "last_seq tr1 < ?n + int (length (rs_calls ?r))"
    using call_closers_accepted [of tr turn "rs_calls ?r" ?n ?log "length evs" ?time] follows tr
    by (auto simp: scan_follows_def)
  have wf1: "trace_wf tr1"
    using trace_log.run_inv [OF seed_trace_wf [OF assms] run1] .
  obtain j tr2 where run2: "run_log trace_step ?log (length evs + length (rs_calls ?r)) tr1 ?bs
        = (None, j, tr2)" and tr2: "open_turn tr2 = None" "open_step tr2 = None"
    using boundary_closers_accepted [OF tr1(1,3)] wf1 tr1(2) by metis
  have wf2: "trace_wf tr2" using trace_log.run_inv [OF wf1 run2] .
  have "replay trace_step fresh_trace ?log = (None, j, tr2)"
    using trace_log.catch_up [of evs "length evs" tr "?cs @ ?bs"] assms run1 run2
    by (simp add: seed_trace_Inr_iff run_log_append)
  moreover from this have "j = length ?log" by (rule trace_log.replay_length)
  ultimately have "seed_trace ?log = Inr tr2" by (simp add: seed_trace_Inr_iff)
  with tr2 wf2 closers show ?thesis by (auto simp: trace_wf_def)
qed

text \<open>
  Claim C4. Appending the closers of the crash repair to a log the invariants accept gives a
  log they accept, with no open turn, step or pending call.
\<close>

theorem repaired_log_accepted:
  assumes "seed_trace evs = Inr tr"
  shows "\<exists>tr'. seed_trace (evs @ interrupted_turn_closers evs) = Inr tr' \<and>
           open_turn tr' = None \<and> open_step tr' = None \<and> pending_calls tr' = {}"
  using assms by (rule repaired_trace_closed)

lemma repaired_log_accepted_witness:
  "\<exists>tr'. seed_trace (sample_log @ interrupted_turn_closers sample_log) = Inr tr' \<and>
     open_turn tr' = None \<and> open_step tr' = None \<and> pending_calls tr' = {}"
  by (rule repaired_log_accepted [of sample_log "projr (seed_trace sample_log)"]) code_simp

theorem repair_idempotent:
  "interrupted_turn_closers (evs @ interrupted_turn_closers evs) = []"
proof (cases "interrupted_turn_closers evs = []")
  case True
  then show ?thesis by simp
next
  case False
  then obtain turn where turn: "rs_turn (repair_scan_of evs) = Some turn"
    by (auto simp: interrupted_turn_closers_def Let_def split: option.splits)
  have last: "\<exists>pre n time. boundary_closers t' time' n' st = pre @ [plain_event n time (TurnEnd t' Interrupted)]"
    for t' time' n' st
    by (cases st) (auto simp: boundary_closers_def)
  obtain pre n time t' where "interrupted_turn_closers evs = pre @ [plain_event n time (TurnEnd t' Interrupted)]"
    using closers_open(1) [OF turn] last by (metis append.assoc)
  then have "evs @ interrupted_turn_closers evs = (evs @ pre) @ [plain_event n time (TurnEnd t' Interrupted)]"
    by simp
  then have "rs_turn (repair_scan_of (evs @ interrupted_turn_closers evs)) = None"
    by (simp add: scan_event_def del: append_assoc)
  then show ?thesis by (simp add: interrupted_turn_closers_def Let_def)
qed









definition result_calls :: "session_event list \<Rightarrow> call_id list" where
  "result_calls evs =
     concat (map (\<lambda>e. case ev_data e of ToolResult d \<Rightarrow> [trm_call (tr_message d)] | _ \<Rightarrow> []) evs)"

lemma result_calls_call_closers [simp]:
  "result_calls (call_closers turn time n calls) = map fst calls"
  by (induction turn time n calls rule: call_closers.induct)
    (auto simp: result_calls_def call_closer_def Let_def)

lemma result_calls_boundary [simp]: "result_calls (boundary_closers turn time n st) = []"
  by (cases st) (simp_all add: result_calls_def boundary_closers_def)

lemma result_calls_append [simp]: "result_calls (xs @ ys) = result_calls xs @ result_calls ys"
  by (simp add: result_calls_def)



subsection \<open>The closers join the surface\<close>

lemma scan_call_seqs:
  assumes "contiguous evs"
  shows "(c, pc) \<in> set (rs_calls (repair_scan_of evs)) \<Longrightarrow> pc_call_seq pc = Some n \<Longrightarrow>
         0 \<le> n \<and> n < int (length evs)"
  using assms
proof (induction evs arbitrary: c pc n rule: rev_induct)
  case Nil
  then show ?case by (simp add: scan_start_def)
next
  case (snoc e evs)
  have IH: "(c, pc) \<in> set (rs_calls (repair_scan_of evs)) \<Longrightarrow> pc_call_seq pc = Some n \<Longrightarrow>
      0 \<le> n \<and> n < int (length evs)" for c pc n
    using snoc.IH snoc.prems(3) by (simp add: contiguous_snoc)
  have upd: "(c', p') \<in> set (AList.update k v al) \<Longrightarrow> (c', p') \<in> set al \<or> p' = v"
    for c' p' k v and al :: "(call_id \<times> pending_call) list"
    by (induction al) (auto split: if_splits)
  have reg: "(c', p') \<in> set (register_calls s bs al) \<Longrightarrow> (c', p') \<in> set al \<or> pc_call_seq p' = None"
    for c' p' s bs al
    by (induction s bs al rule: register_calls.induct) (auto dest: upd)
  show ?case
  proof (cases "ev_data e")
    case (ToolCall t s k nm a)
    with snoc.prems show ?thesis
      by (auto simp: scan_event_def contiguous_snoc split: option.splits dest!: upd IH)
  next
    case (AssistantMessage t s m u)
    with snoc.prems show ?thesis
      by (auto simp: scan_event_def dest!: reg IH)
  qed (use snoc.prems in \<open>auto simp: scan_event_def set_AList_delete dest!: IH\<close>)
qed

lemma call_closer_fold:
  assumes "n = int i" and "\<forall>s. pc_call_seq pc = Some s \<longrightarrow> 0 \<le> s \<and> s < n \<and> safe_int s"
  shows "fold_step evs i (st, rs) (call_closer turn time n c pc) = Inr (st\<lparr>nodes := nodes st @ [n]\<rparr>, rs)"
proof -
  have "is_append_surface_event (call_closer turn time n c pc)"
    by (simp add: is_append_surface_event_def is_surface_event_def is_surface_eligible_type_def
        message_types_def call_closer_def Let_def)
  then have op: "surface_op_of (call_closer turn time n c pc) = Inr (Some OpAppend)"
    by (simp only: surface_op_of_append)
  have "assert_provenance (call_closer turn time n c pc) [] = Inr ()"
    using assms(2)
    by (cases "pc_call_seq pc")
      (auto simp: assert_provenance_def check_sources_def call_closer_def Let_def is_event_seq.simps)
  with op assms(1) show ?thesis
    by (simp add: fold_step_def apply_surface_event_def plan_surface_event_def)
      (simp add: call_closer_def Let_def)
qed

lemma call_closers_fold:
  assumes "n = int i"
    and "\<forall>(c, pc) \<in> set calls. \<forall>s. pc_call_seq pc = Some s \<longrightarrow> 0 \<le> s \<and> s < n \<and> safe_int s"
  shows "run_log fold_step evs i (st, rs) (call_closers turn time n calls) =
     (None, i + length calls, (st\<lparr>nodes := nodes st @ map ev_seq (call_closers turn time n calls)\<rparr>, rs))"
  using assms
proof (induction calls arbitrary: n i st)
  case Nil
  then show ?case by simp
next
  case (Cons p calls)
  obtain c pc where p: "p = (c, pc)" by fastforce
  have "fold_step evs i (st, rs) (call_closer turn time n c pc) = Inr (st\<lparr>nodes := nodes st @ [n]\<rparr>, rs)"
    using Cons.prems p by (intro call_closer_fold) auto
  moreover have "run_log fold_step evs (Suc i) (st\<lparr>nodes := nodes st @ [n]\<rparr>, rs) (call_closers turn time (n + 1) calls) =
     (None, Suc i + length calls,
      (st\<lparr>nodes := (nodes st @ [n]) @ map ev_seq (call_closers turn time (n + 1) calls)\<rparr>, rs))"
    using Cons.prems Cons.IH [of "n + 1" "Suc i" "st\<lparr>nodes := nodes st @ [n]\<rparr>"] by fastforce
  ultimately show ?case
    using p by (simp add: call_closer_def Let_def)
qed

lemma boundary_closers_fold:
  assumes "n = int i"
  shows "\<exists>j. run_log fold_step evs i (st, rs) (boundary_closers turn time n step) = (None, j, (st, rs))"
  using assms
  by (cases step)
    (simp_all add: boundary_closers_def fold_step_def apply_surface_event_def plan_surface_event_def
      surface_op_of_def is_surface_eligible_type_def message_types_def)

lemma boundary_closers_not_surface:
  "filter is_surface_event (boundary_closers turn time n step) = []"
  by (cases step) (simp_all add: boundary_closers_def is_surface_event_def)

lemma call_closers_surface:
  "filter is_surface_event (call_closers turn time n calls) = call_closers turn time n calls"
  by (induction turn time n calls rule: call_closers.induct)
    (simp_all add: is_surface_event_def is_surface_eligible_type_def message_types_def
      call_closer_def Let_def)

lemma repaired_surface_fold:
  assumes fold: "fold_surface evs = Inr (ns, rs)" and size: "int (length evs) \<le> max_safe"
  shows "fold_surface (evs @ interrupted_turn_closers evs) =
           Inr (ns @ surface_seqs (interrupted_turn_closers evs), rs)"
proof (cases "rs_turn (repair_scan_of evs)")
  case None
  with fold show ?thesis by (simp add: interrupted_turn_closers_def Let_def surface_seqs_def)
next
  case (Some turn)
  let ?r = "repair_scan_of evs" and ?time = "ev_time (last evs)"
  let ?cs = "call_closers turn ?time (int (length evs)) (rs_calls ?r)"
  let ?bs = "boundary_closers turn ?time (int (length evs) + int (length (rs_calls ?r))) (rs_step ?r)"
  let ?log = "evs @ ?cs @ ?bs"
  obtain st where run: "replay fold_step (create_fold_state, []) evs = (None, length evs, (st, rs))"
    and ns: "nodes st = ns"
    using fold by (auto simp: fold_surface_Inr_iff)
  have cont: "contiguous evs" using fold_replay_contiguous [OF run] .
  have ne: "evs \<noteq> []" using closers_open(2) [OF Some] .
  then have "ev_seq (last evs) = int (length evs) - 1"
    using cont by (simp add: contiguous_def last_conv_nth of_nat_diff Suc_leI)
  then have closers: "interrupted_turn_closers evs = ?cs @ ?bs"
    using closers_open(1) [OF Some] by (simp add: Let_def)
  have seqs: "\<forall>(c, pc) \<in> set (rs_calls ?r). \<forall>s. pc_call_seq pc = Some s \<longrightarrow>
      0 \<le> s \<and> s < int (length evs) \<and> safe_int s"
  proof clarify
    fix c pc s
    assume "(c, pc) \<in> set (rs_calls ?r)" and "pc_call_seq pc = Some s"
    then have "0 \<le> s \<and> s < int (length evs)" by (rule scan_call_seqs [OF cont])
    with size show "0 \<le> s \<and> s < int (length evs) \<and> safe_int s"
      by (simp add: safe_int_def max_safe_def)
  qed
  let ?st = "st\<lparr>nodes := nodes st @ map ev_seq ?cs\<rparr>"
  obtain j where run2: "run_log fold_step ?log (length evs + length (rs_calls ?r)) (?st, rs) ?bs = (None, j, (?st, rs))"
    using boundary_closers_fold [of "int (length evs) + int (length (rs_calls ?r))"
        "length evs + length (rs_calls ?r)" ?log ?st rs turn ?time "rs_step ?r"]
    by (auto simp del: run_log.simps)
  have "replay fold_step (create_fold_state, []) ?log = (None, j, (?st, rs))"
    using fold_log.catch_up [OF run, of "?cs @ ?bs"] call_closers_fold [OF refl seqs] run2
    by (simp add: run_log_append)
  with closers ns show ?thesis
    by (simp add: fold_surface_def surface_seqs_def call_closers_surface boundary_closers_not_surface)
qed

theorem repaired_surface:
  assumes "fold_surface evs = Inr (ns, rs)" and "int (length evs) \<le> max_safe"
  shows "fold_surface (evs @ interrupted_turn_closers evs) =
           Inr (ns @ surface_seqs (interrupted_turn_closers evs), rs)"
  using assms by (rule repaired_surface_fold)

lemma repaired_surface_witness:
  "fold_surface (sample_log @ interrupted_turn_closers sample_log) =
     Inr ([1, 3] @ surface_seqs (interrupted_turn_closers sample_log), [])"
  by (rule repaired_surface) (code_simp, code_simp)

end
