(* ===== verification/Session_Store.thy ===== *)
theory Session_Store
  imports Session_Log Session_Repair "HOL-Library.AList"
begin

section \<open>The session store\<close>

text \<open>
  Model of the class \<open>SessionStore\<close> of \<^verbatim>\<open>packages/core/session/src/index.ts\<close>: minting and
  preparing sessions, entering them, the creation announcement and its paired disposal, the
  detach capability that waits for an open publication, and forking. Session objects are
  positions in \<open>sr_sessions\<close>, store entries positions in \<open>sr_entries\<close>, so that object
  identity is equality of positions. Listeners run between the opening and the closing half
  of a publication (\<open>announce\<close>, \<open>append\<close>); each half is an operation, and the step relation
  lets every other operation happen in between.
\<close>

subsection \<open>State\<close>

record entry =
  en_id :: session_id
  en_session :: nat
  en_announced :: bool
  en_announcing :: bool
  en_appending :: bool
  en_detach_requested :: bool
  en_entered :: bool

datatype lifecycle = Created nat | Disposed nat

record session_store =
  sr_live :: "(session_id \<times> nat) list"
  sr_entries :: "entry list"
  sr_attached :: "nat \<Rightarrow> nat option"
  sr_sessions :: "session list"
  sr_counter :: nat
  sr_emitted :: "lifecycle list"

definition empty_store :: session_store where
  "empty_store =
     \<lparr>sr_live = [], sr_entries = [], sr_attached = (\<lambda>_. None), sr_sessions = [], sr_counter = 0,
      sr_emitted = []\<rparr>"

datatype store_error =
    AlreadyExists session_id
  | AlreadyAttached session_id
  | NotLive
  | AlreadyAnnounced session_id
  | CreateFailed create_error

definition store_has :: "session_store \<Rightarrow> session_id \<Rightarrow> bool" where
  "store_has st sid \<longleftrightarrow> map_of (sr_live st) sid \<noteq> None"

definition get_session :: "session_store \<Rightarrow> session_id \<Rightarrow> nat option" where
  "get_session st sid = map_option (\<lambda>u. en_session (sr_entries st ! u)) (map_of (sr_live st) sid)"

definition list_sessions :: "session_store \<Rightarrow> nat list" where
  "list_sessions st = map (\<lambda>p. en_session (sr_entries st ! snd p)) (sr_live st)"

definition live_entry_for :: "session_store \<Rightarrow> nat \<Rightarrow> nat option" where
  "live_entry_for st r =
     (case sr_attached st r of
        None \<Rightarrow> None
      | Some u \<Rightarrow> if map_of (sr_live st) (en_id (sr_entries st ! u)) = Some u then Some u else None)"

abbreviation update_entry :: "nat \<Rightarrow> (entry \<Rightarrow> entry) \<Rightarrow> session_store \<Rightarrow> session_store" where
  "update_entry u f st \<equiv> st\<lparr>sr_entries := (sr_entries st)[u := f (sr_entries st ! u)]\<rparr>"

subsection \<open>Prepare\<close>

text \<open>\<open>do sessionId = `session-${++counter}` while (store.has(sessionId))\<close>\<close>

partial_function (option) mint_id :: "session_id list \<Rightarrow> nat \<Rightarrow> (session_id \<times> nat) option" where
  "mint_id ids n =
     (let sid = ''session-'' @ string_of_nat (n + 1) in
      if sid \<in> set ids then mint_id ids (n + 1) else Some (sid, n + 1))"

declare mint_id.simps [code]

definition meta_keys :: "string list" where
  "meta_keys =
     [''cwd'', ''parentSession'', ''seedLength'', ''origin'', ''delegationDepth'', ''agentPreset'']"

definition prepare_header :: "session_id \<Rightarrow> json_fields \<Rightarrow> int \<Rightarrow> json_fields" where
  "prepare_header sid meta now =
     [(''version'', jint session_format_version), (''id'', JStr sid),
      (''createdAt'',
         case map_of meta ''createdAt'' of
           None \<Rightarrow> jint now | Some v \<Rightarrow> if v = JNull then jint now else v)]
     @ List.map_filter (\<lambda>k. map_option (\<lambda>v. (k, v)) (map_of meta k)) meta_keys"

datatype prepare_options =
    FreshSession "session_event option list option" json_fields
  | FromPersistence "session_event list" json

definition build_session :: "session_id \<Rightarrow> prepare_options \<Rightarrow> int \<Rightarrow> int \<Rightarrow> create_error + session" where
  "build_session i opts now later =
     (case opts of
        FromPersistence seed meta \<Rightarrow>
          construct_session Restore i (Some (map Some seed)) (Some (Some meta)) now later
      | FreshSession seed meta \<Rightarrow>
          construct_session Snapshot i seed (Some (Some (JObj (prepare_header i meta now)))) now later)"

definition prepare ::
  "session_id option \<Rightarrow> prepare_options \<Rightarrow> int \<Rightarrow> int \<Rightarrow> session_store
    \<Rightarrow> (store_error + nat) option \<times> session_store"
where
  "prepare sid opts now later st =
     (case (case sid of
              None \<Rightarrow> mint_id (map fst (sr_live st)) (sr_counter st)
            | Some i \<Rightarrow> Some (i, sr_counter st)) of
        None \<Rightarrow> (None, st)
      | Some (i, n) \<Rightarrow>
          (let st1 = st\<lparr>sr_counter := n\<rparr> in
           if store_has st1 i then (Some (Inl (AlreadyExists i)), st1)
           else
             (case build_session i opts now later of
                Inl x \<Rightarrow> (Some (Inl (CreateFailed x)), st1)
              | Inr s \<Rightarrow>
                  (Some (Inr (length (sr_sessions st1))), st1\<lparr>sr_sessions := sr_sessions st1 @ [s]\<rparr>))))"

subsection \<open>Enter, detach, announce\<close>

definition session_id_of :: "session_store \<Rightarrow> nat \<Rightarrow> session_id" where
  "session_id_of st r =
     (case map_of (ss_header (sr_sessions st ! r)) ''id'' of Some (JStr i) \<Rightarrow> i | _ \<Rightarrow> [])"

definition enter :: "nat \<Rightarrow> session_store \<Rightarrow> (store_error + nat) \<times> session_store" where
  "enter r st =
     (let i = session_id_of st r in
      if store_has st i then (Inl (AlreadyExists i), st)
      else if sr_attached st r \<noteq> None then (Inl (AlreadyAttached i), st)
      else
        (let u = length (sr_entries st);
             en = \<lparr>en_id = i, en_session = r, en_announced = False, en_announcing = False,
                   en_appending = False, en_detach_requested = False, en_entered = True\<rparr>
         in (Inr u, st\<lparr>sr_entries := sr_entries st @ [en], sr_live := sr_live st @ [(i, u)],
                       sr_attached := (sr_attached st)(r := Some u)\<rparr>)))"

definition detach_entered :: "nat \<Rightarrow> session_store \<Rightarrow> session_store" where
  "detach_entered u st =
     (let st1 = update_entry u (\<lambda>en. en\<lparr>en_detach_requested := False\<rparr>) st;
          en = sr_entries st1 ! u
      in if map_of (sr_live st1) (en_id en) \<noteq> Some u then st1
         else
           (let st2 = st1\<lparr>sr_live := AList.delete (en_id en) (sr_live st1),
                          sr_attached := (sr_attached st1)(en_session en := None)\<rparr>
            in if en_announced en then st2\<lparr>sr_emitted := sr_emitted st2 @ [Disposed u]\<rparr> else st2))"

text \<open>The detach capability returned by \<open>enter\<close>.\<close>

definition detach :: "nat \<Rightarrow> session_store \<Rightarrow> session_store" where
  "detach u st =
     (if \<not> en_entered (sr_entries st ! u) then st
      else
        (let st1 = update_entry u (\<lambda>en. en\<lparr>en_entered := False\<rparr>) st; en = sr_entries st1 ! u in
         if en_announcing en \<or> en_appending en
         then update_entry u (\<lambda>en. en\<lparr>en_detach_requested := True\<rparr>) st1
         else detach_entered u st1))"

definition announce_begin :: "nat \<Rightarrow> session_store \<Rightarrow> (store_error + nat) \<times> session_store" where
  "announce_begin r st =
     (case live_entry_for st r of
        None \<Rightarrow> (Inl NotLive, st)
      | Some u \<Rightarrow>
          (let en = sr_entries st ! u in
           if en_announced en \<or> en_announcing en then (Inl (AlreadyAnnounced (en_id en)), st)
           else
             (Inr u,
              update_entry u (\<lambda>en. en\<lparr>en_announced := True, en_announcing := True\<rparr>)
                (st\<lparr>sr_emitted := sr_emitted st @ [Created u]\<rparr>))))"

definition announce_end :: "nat \<Rightarrow> session_store \<Rightarrow> session_store" where
  "announce_end u st =
     (let st1 = update_entry u (\<lambda>en. en\<lparr>en_announcing := False\<rparr>) st; en = sr_entries st1 ! u in
      if en_detach_requested en \<and> \<not> en_appending en then detach_entered u st1 else st1)"

text \<open>
  \<open>append\<close> on a session object: up to the push, and the closing \<open>finally\<close>. The second half
  runs for an attached session only, also when the dispatch threw.
\<close>

definition append_begin ::
  "nat \<Rightarrow> append_call \<Rightarrow> session_store \<Rightarrow> (append_error + session_event) \<times> session_store"
where
  "append_begin r c st =
     (let c' = c\<lparr>ac_appending := map_option (\<lambda>u. en_appending (sr_entries st ! u)) (sr_attached st r)\<rparr>
      in case append_event c' (sr_sessions st ! r) of
           (q, s') \<Rightarrow>
             (let st1 = st\<lparr>sr_sessions := (sr_sessions st)[r := s']\<rparr> in
              (q, case sr_attached st r of
                    None \<Rightarrow> st1
                  | Some u \<Rightarrow>
                      if (case q of Inl x \<Rightarrow> x = DispatchThrew | Inr _ \<Rightarrow> True)
                      then update_entry u (\<lambda>en. en\<lparr>en_appending := True\<rparr>) st1
                      else st1)))"

definition append_end :: "nat \<Rightarrow> session_store \<Rightarrow> session_store" where
  "append_end u st =
     (let st1 = update_entry u (\<lambda>en. en\<lparr>en_appending := False\<rparr>) st; en = sr_entries st1 ! u in
      if en_detach_requested en \<and> \<not> en_announcing en then detach_entered u st1 else st1)"

text \<open>
  \<open>create\<close>: prepare, enter, announce. The caller's effect holds the detach capability of the
  returned entry, whose listeners are still to run.
\<close>

definition create ::
  "session_id option \<Rightarrow> prepare_options \<Rightarrow> int \<Rightarrow> int \<Rightarrow> session_store
    \<Rightarrow> (store_error + nat) option \<times> session_store"
where
  "create sid opts now later st =
     (case prepare sid opts now later st of
        (None, st1) \<Rightarrow> (None, st1)
      | (Some (Inl x), st1) \<Rightarrow> (Some (Inl x), st1)
      | (Some (Inr r), st1) \<Rightarrow>
          (case enter r st1 of
             (Inl x, st2) \<Rightarrow> (Some (Inl x), st2)
           | (Inr u, st2) \<Rightarrow>
               (case announce_begin r st2 of
                  (Inl x, st3) \<Rightarrow> (Some (Inl x), detach u st3)
                | (Inr _, st3) \<Rightarrow> (Some (Inr r), st3))))"

text \<open>
  \<open>flush\<close>: every listener of the checkpoint settles, the first rejection in registration
  order is the outcome, otherwise whether any listener took part.
\<close>

fun first_rejection :: "('x + unit) list \<Rightarrow> 'x option" where
  "first_rejection [] = None"
| "first_rejection (Inl x # rs) = Some x"
| "first_rejection (Inr _ # rs) = first_rejection rs"

definition flush :: "nat \<Rightarrow> ('x + unit) list \<Rightarrow> session_store \<Rightarrow> (store_error + ('x + bool))" where
  "flush r settled st =
     (case live_entry_for st r of
        None \<Rightarrow> Inl NotLive
      | Some u \<Rightarrow>
          (case first_rejection settled of
             Some x \<Rightarrow> Inr (Inl x)
           | None \<Rightarrow> Inr (Inr (0 < length settled))))"

subsection \<open>Forking\<close>

datatype fork_source = ForkSession nat | ForkId session_id

datatype fork_error =
    ForkNotFound | ForkNotLive | ForkAlreadyExists | InvalidBoundary | OpenTurn

definition is_turn_boundary :: "session_event \<Rightarrow> bool" where
  "is_turn_boundary e \<longleftrightarrow>
     (case ev_data e of TurnStart _ \<Rightarrow> True | TurnEnd _ _ \<Rightarrow> True | _ \<Rightarrow> False)"

fun find_last :: "('a \<Rightarrow> bool) \<Rightarrow> 'a list \<Rightarrow> 'a option" where
  "find_last p [] = None"
| "find_last p (x # xs) =
     (case find_last p xs of Some y \<Rightarrow> Some y | None \<Rightarrow> if p x then Some x else None)"

text \<open>The checks on a chosen boundary; it is a JavaScript number.\<close>

definition fork_seed_at :: "session_event list \<Rightarrow> rat \<Rightarrow> fork_error + session_event list" where
  "fork_seed_at evs boundary =
     (case safe_int_of boundary of
        None \<Rightarrow> Inl InvalidBoundary
      | Some b \<Rightarrow>
          if b < 0 then Inl InvalidBoundary
          else if int (length evs) \<le> b then Inl InvalidBoundary
          else if ev_seq (evs ! nat b) \<noteq> b then Inl InvalidBoundary
          else
            (case find_last is_turn_boundary (js_slice evs 0 (nat b + 1)) of
               Some e \<Rightarrow>
                 (case ev_data e of
                    TurnStart _ \<Rightarrow> Inl OpenTurn
                  | _ \<Rightarrow> Inr (js_slice evs 0 (nat b + 1)))
             | None \<Rightarrow> Inr (js_slice evs 0 (nat b + 1))))"

definition fork_seed :: "session_event list \<Rightarrow> rat option \<Rightarrow> fork_error + session_event list" where
  "fork_seed evs requested =
     (case requested of
        None \<Rightarrow> if evs = [] then Inr [] else fork_seed_at evs (of_int (ev_seq (last evs)))
      | Some b \<Rightarrow> fork_seed_at evs b)"

definition resolve_fork_source :: "session_store \<Rightarrow> fork_source \<Rightarrow> fork_error + nat" where
  "resolve_fork_source st source =
     (case source of
        ForkId i \<Rightarrow>
          (case get_session st i of None \<Rightarrow> Inl ForkNotFound | Some r \<Rightarrow> Inr r)
      | ForkSession r \<Rightarrow>
          (case get_session st (session_id_of st r) of
             None \<Rightarrow> Inl ForkNotFound
           | Some live \<Rightarrow> if live \<noteq> r then Inl ForkNotLive else Inr r))"

definition fork_meta :: "session_store \<Rightarrow> nat \<Rightarrow> nat \<Rightarrow> json_fields" where
  "fork_meta st r n =
     (case map_of (ss_header (sr_sessions st ! r)) ''cwd'' of
        None \<Rightarrow> [] | Some v \<Rightarrow> [(''cwd'', v)])
     @ [(''parentSession'', JStr (session_id_of st r)), (''seedLength'', jint (int n))]"

definition fork ::
  "fork_source \<Rightarrow> rat option \<Rightarrow> session_id option \<Rightarrow> int \<Rightarrow> int \<Rightarrow> session_store
    \<Rightarrow> (fork_error + (store_error + nat) option) \<times> session_store"
where
  "fork source boundary child now later st =
     (if (case child of None \<Rightarrow> False | Some i \<Rightarrow> get_session st i \<noteq> None)
      then (Inl ForkAlreadyExists, st)
      else
        (case resolve_fork_source st source of
           Inl x \<Rightarrow> (Inl x, st)
         | Inr r \<Rightarrow>
             (let (evs, s') = events_of (sr_sessions st ! r);
                  st1 = st\<lparr>sr_sessions := (sr_sessions st)[r := s']\<rparr>
              in case fork_seed evs boundary of
                   Inl x \<Rightarrow> (Inl x, st1)
                 | Inr seed \<Rightarrow>
                     (case create child
                             (FreshSession (Some (map Some seed)) (fork_meta st1 r (length seed)))
                             now later st1 of
                        (q, st2) \<Rightarrow> (Inr q, st2)))))"

subsection \<open>The lifecycle of an entry\<close>

definition is_live :: "session_store \<Rightarrow> nat \<Rightarrow> bool" where
  "is_live st u \<longleftrightarrow> map_of (sr_live st) (en_id (sr_entries st ! u)) = Some u"

definition view_step :: "session \<Rightarrow> session \<Rightarrow> bool" where
  "view_step s s' \<longleftrightarrow>
     s' = snd (events_of s) \<or> s' = snd (derive_messages s) \<or> s' = snd (request_header s)
     \<or> s' = snd (request_context_of s)"

inductive store_reach :: "session_store \<Rightarrow> bool" where
  start: "store_reach empty_store"
| prepared: "store_reach st \<Longrightarrow> prepare sid opts now later st = (q, st') \<Longrightarrow> store_reach st'"
| entered: "store_reach st \<Longrightarrow> r < length (sr_sessions st) \<Longrightarrow> enter r st = (p, st') \<Longrightarrow> store_reach st'"
| detached: "store_reach st \<Longrightarrow> u < length (sr_entries st) \<Longrightarrow> store_reach (detach u st)"
| announcing: "store_reach st \<Longrightarrow> r < length (sr_sessions st) \<Longrightarrow> announce_begin r st = (p, st') \<Longrightarrow>
    store_reach st'"
| announced: "store_reach st \<Longrightarrow> u < length (sr_entries st) \<Longrightarrow> en_announcing (sr_entries st ! u) \<Longrightarrow>
    store_reach (announce_end u st)"
| appending: "store_reach st \<Longrightarrow> r < length (sr_sessions st) \<Longrightarrow> append_begin r c st = (a, st') \<Longrightarrow>
    store_reach st'"
| appended: "store_reach st \<Longrightarrow> u < length (sr_entries st) \<Longrightarrow> en_appending (sr_entries st ! u) \<Longrightarrow>
    store_reach (append_end u st)"
| viewed: "store_reach st \<Longrightarrow> r < length (sr_sessions st) \<Longrightarrow> view_step (sr_sessions st ! r) s' \<Longrightarrow>
    store_reach (st\<lparr>sr_sessions := (sr_sessions st)[r := s']\<rparr>)"

text \<open>
  What holds of an entry: it is live exactly while its capability is unused or its use is
  deferred, a deferred use has an open publication to wait for, and the emitted edges match
  its flags.
\<close>

definition entry_ok :: "session_store \<Rightarrow> nat \<Rightarrow> bool" where
  "entry_ok st u \<longleftrightarrow>
     (let en = sr_entries st ! u in
      (en_announcing en \<longrightarrow> en_announced en) \<and>
      (is_live st u \<longleftrightarrow> en_entered en \<or> en_detach_requested en) \<and>
      (en_detach_requested en \<longrightarrow> \<not> en_entered en \<and> (en_announcing en \<or> en_appending en)) \<and>
      (en_announcing en \<or> en_appending en \<longrightarrow> is_live st u) \<and>
      count_list (sr_emitted st) (Created u) = of_bool (en_announced en) \<and>
      count_list (sr_emitted st) (Disposed u) = of_bool (en_announced en \<and> \<not> is_live st u))"

definition emitted_ok :: "nat \<Rightarrow> lifecycle list \<Rightarrow> bool" where
  "emitted_ok n em \<longleftrightarrow>
     (\<forall>u. n \<le> u \<longrightarrow> Created u \<notin> set em \<and> Disposed u \<notin> set em) \<and>
     (\<forall>i < length em. \<forall>u. em ! i = Disposed u \<longrightarrow> Created u \<in> set (take i em))"

definition store_base :: "session_store \<Rightarrow> bool" where
  "store_base st \<longleftrightarrow>
     distinct (map fst (sr_live st)) \<and>
     (\<forall>i u. map_of (sr_live st) i = Some u \<longrightarrow> u < length (sr_entries st) \<and> en_id (sr_entries st ! u) = i) \<and>
     (\<forall>r u. sr_attached st r = Some u \<longleftrightarrow>
        u < length (sr_entries st) \<and> is_live st u \<and> en_session (sr_entries st ! u) = r) \<and>
     (\<forall>u < length (sr_entries st). en_session (sr_entries st ! u) < length (sr_sessions st)) \<and>
     emitted_ok (length (sr_entries st)) (sr_emitted st) \<and>
     (\<forall>s \<in> set (sr_sessions st). session_reach s)"

definition store_inv :: "session_store \<Rightarrow> bool" where
  "store_inv st \<longleftrightarrow> store_base st \<and> (\<forall>u < length (sr_entries st). entry_ok st u)"

lemma emitted_ok_snoc:
  assumes "emitted_ok n em" and "u < n" and "x = Created u \<or> x = Disposed u \<and> Created u \<in> set em"
  shows "emitted_ok n (em @ [x])"
  using assms unfolding emitted_ok_def
  by (fastforce simp: nth_append less_Suc_eq)

lemma emitted_ok_mono: "emitted_ok n em \<Longrightarrow> n \<le> m \<Longrightarrow> emitted_ok m em"
  by (auto simp: emitted_ok_def)

text \<open>Changing the flags of one entry touches nothing else.\<close>

lemma update_entry_sel:
  assumes "\<And>en. en_id (f en) = en_id en" and "\<And>en. en_session (f en) = en_session en"
    and "u < length (sr_entries st)"
  shows "store_base (update_entry u f st) \<longleftrightarrow> store_base st"
    and "is_live (update_entry u f st) v = is_live st v"
    and "v \<noteq> u \<Longrightarrow> entry_ok (update_entry u f st) v = entry_ok st v"
proof -
  have id: "en_id ((sr_entries st)[u := f (sr_entries st ! u)] ! v) = en_id (sr_entries st ! v)" for v
    using assms by (cases "v = u") auto
  have se: "en_session ((sr_entries st)[u := f (sr_entries st ! u)] ! v) = en_session (sr_entries st ! v)" for v
    using assms by (cases "v = u") auto
  show lv: "is_live (update_entry u f st) v = is_live st v" for v
    by (simp add: is_live_def id)
  show "store_base (update_entry u f st) \<longleftrightarrow> store_base st"
    using lv by (simp add: store_base_def id se)
  show "v \<noteq> u \<Longrightarrow> entry_ok (update_entry u f st) v = entry_ok st v"
    by (simp add: entry_ok_def lv)
qed

lemma update_entry_inv:
  assumes "store_inv st" and "u < length (sr_entries st)"
    and "\<And>en. en_id (f en) = en_id en" and "\<And>en. en_session (f en) = en_session en"
    and "entry_ok (update_entry u f st) u"
  shows "store_inv (update_entry u f st)"
  unfolding store_inv_def
proof (intro conjI allI impI)
  show "store_base (update_entry u f st)"
    using assms(1) unfolding update_entry_sel(1) [OF assms(3,4,2)] by (simp add: store_inv_def)
  fix v assume "v < length (sr_entries (update_entry u f st))"
  then have "v < length (sr_entries st)" by simp
  then show "entry_ok (update_entry u f st) v"
    using assms(1,5) update_entry_sel(3) [OF assms(3,4,2), of v]
    by (cases "v = u") (auto simp: store_inv_def)
qed

text \<open>Removing a live entry whose publications are closed.\<close>

lemma is_live_removed:
  assumes "is_live st u"
    and "sr_live st' = AList.delete (en_id (sr_entries st ! u)) (sr_live st)"
    and "\<And>v. en_id (sr_entries st' ! v) = en_id (sr_entries st ! v)"
  shows "is_live st' v \<longleftrightarrow> is_live st v \<and> v \<noteq> u"
  using assms by (auto simp: is_live_def AList.delete_conv')

lemma detach_entered_ok:
  assumes base: "store_base st" and u: "u < length (sr_entries st)" and live: "is_live st u"
    and others: "\<And>v. v < length (sr_entries st) \<Longrightarrow> v \<noteq> u \<Longrightarrow> entry_ok st v"
    and flags: "\<not> en_entered (sr_entries st ! u)" "\<not> en_announcing (sr_entries st ! u)"
      "\<not> en_appending (sr_entries st ! u)"
    and counts: "count_list (sr_emitted st) (Created u) = of_bool (en_announced (sr_entries st ! u))"
      "count_list (sr_emitted st) (Disposed u) = 0"
  shows "store_inv (detach_entered u st)"
proof -
  let ?en = "(sr_entries st ! u)\<lparr>en_detach_requested := False\<rparr>"
  define em where "em = sr_emitted st @ (if en_announced ?en then [Disposed u] else [])"
  define st' where "st' = st\<lparr>sr_entries := (sr_entries st)[u := ?en],
      sr_live := AList.delete (en_id ?en) (sr_live st),
      sr_attached := (sr_attached st)(en_session ?en := None), sr_emitted := em\<rparr>"
  have eq: "detach_entered u st = st'"
    using u live by (simp add: detach_entered_def is_live_def Let_def st'_def em_def)
  have id: "en_id (sr_entries st' ! v) = en_id (sr_entries st ! v)"
    and se: "en_session (sr_entries st' ! v) = en_session (sr_entries st ! v)" for v
    using u by (cases "v = u"; simp add: st'_def)+
  have lv: "is_live st' v \<longleftrightarrow> is_live st v \<and> v \<noteq> u" for v
    by (rule is_live_removed [OF live]) (simp add: st'_def, rule id)
  have att: "sr_attached st r = Some v \<longleftrightarrow>
      v < length (sr_entries st) \<and> is_live st v \<and> en_session (sr_entries st ! v) = r" for r v
    using base by (simp add: store_base_def)
  have em_ok: "emitted_ok (length (sr_entries st)) em"
  proof (cases "en_announced ?en")
    case True
    with counts(1) have "count_list (sr_emitted st) (Created u) \<noteq> 0" by simp
    then have "Created u \<in> set (sr_emitted st)" by (simp add: count_list_0_iff)
    then show ?thesis
      using base u True unfolding em_def store_base_def by (simp add: emitted_ok_snoc)
  next
    case False
    then show ?thesis using base by (simp add: em_def store_base_def)
  qed
  have "store_base st'"
    unfolding store_base_def
  proof (intro conjI allI impI ballI)
    show "distinct (map fst (sr_live st'))"
      using base by (simp add: st'_def store_base_def AList.distinct_delete)
    fix i v assume "map_of (sr_live st') i = Some v"
    then have "map_of (sr_live st) i = Some v"
      by (simp add: st'_def AList.delete_conv' split: if_splits)
    then have v: "v < length (sr_entries st)" "en_id (sr_entries st ! v) = i"
      using base by (simp_all add: store_base_def)
    from v(1) show "v < length (sr_entries st')" by (simp add: st'_def)
    from v(2) show "en_id (sr_entries st' ! v) = i" by (simp add: id)
  next
    show "sr_attached st' r = Some v \<longleftrightarrow>
        v < length (sr_entries st') \<and> is_live st' v \<and> en_session (sr_entries st' ! v) = r" for r v
    proof -
      have "sr_attached st' r = Some v \<longleftrightarrow> sr_attached st r = Some v \<and> r \<noteq> en_session (sr_entries st ! u)"
        by (simp add: st'_def)
      also have "\<dots> \<longleftrightarrow> sr_attached st r = Some v \<and> v \<noteq> u"
        using att [of "en_session (sr_entries st ! u)" u] att [of r v] u live by auto
      finally show ?thesis using att lv se by (auto simp: st'_def)
    qed
    show "en_session (sr_entries st' ! v) < length (sr_sessions st')" if "v < length (sr_entries st')" for v
    proof -
      from that have "v < length (sr_entries st)" by (simp add: st'_def)
      then have "en_session (sr_entries st ! v) < length (sr_sessions st)"
        using base by (simp add: store_base_def)
      then show ?thesis unfolding se by (simp add: st'_def)
    qed
    show "emitted_ok (length (sr_entries st')) (sr_emitted st')"
      using em_ok by (simp add: st'_def)
    show "session_reach s" if "s \<in> set (sr_sessions st')" for s
      using base that by (simp add: st'_def store_base_def)
  qed
  moreover have "entry_ok st' v" if "v < length (sr_entries st')" for v
  proof (cases "v = u")
    case True
    with flags counts u lv show ?thesis
      by (simp add: entry_ok_def st'_def em_def)
  next
    case False
    with others [of v] that lv show ?thesis
      by (simp add: entry_ok_def st'_def em_def)
  qed
  ultimately show ?thesis by (simp add: eq store_inv_def)
qed


lemma detach_ok:
  assumes "store_inv st" and u: "u < length (sr_entries st)"
  shows "store_inv (detach u st)"
proof (cases "en_entered (sr_entries st ! u)")
  case False
  with assms(1) show ?thesis by (simp add: detach_def)
next
  case entered: True
  have base: "store_base st" and ok: "\<And>v. v < length (sr_entries st) \<Longrightarrow> entry_ok st v"
    using assms(1) by (auto simp: store_inv_def)
  let ?f = "\<lambda>en. en\<lparr>en_entered := False\<rparr>" and ?g = "\<lambda>en. en\<lparr>en_entered := False, en_detach_requested := True\<rparr>"
  show ?thesis
  proof (cases "en_announcing (sr_entries st ! u) \<or> en_appending (sr_entries st ! u)")
    case True
    then have eq: "detach u st = update_entry u ?g st"
      using entered u by (auto simp: detach_def Let_def)
    have "entry_ok (update_entry u ?g st) u"
      using ok [OF u] entered True update_entry_sel(2) [of ?g u st u] u
      by (simp add: entry_ok_def Let_def)
    then show ?thesis
      unfolding eq by (intro update_entry_inv [OF assms]) simp_all
  next
    case False
    then have eq: "detach u st = detach_entered u (update_entry u ?f st)"
      using entered u by (auto simp: detach_def Let_def)
    show ?thesis
      unfolding eq
    proof (rule detach_entered_ok)
      show "store_base (update_entry u ?f st)" using base u by (subst update_entry_sel(1)) auto
      show "is_live (update_entry u ?f st) u"
        using ok [OF u] entered u by (subst update_entry_sel(2)) (auto simp: entry_ok_def Let_def)
      show "entry_ok (update_entry u ?f st) v" if "v < length (sr_entries (update_entry u ?f st))" "v \<noteq> u" for v
        using that ok u by (subst update_entry_sel(3)) auto
    qed (use ok [OF u] entered False u in \<open>auto simp: entry_ok_def Let_def\<close>)
  qed
qed

text \<open>Closing a publication: the flag goes down and a deferred detach is carried out.\<close>

lemma close_publication:
  assumes inv: "store_inv st" and u: "u < length (sr_entries st)"
    and f: "\<And>en. en_id (f en) = en_id en" "\<And>en. en_session (f en) = en_session en"
      "\<And>en. en_entered (f en) = en_entered en" "\<And>en. en_announced (f en) = en_announced en"
      "\<And>en. en_detach_requested (f en) = en_detach_requested en"
      "\<And>en. en_announcing (f en) \<Longrightarrow> en_announcing en" "\<And>en. en_appending (f en) \<Longrightarrow> en_appending en"
  shows "store_inv (let st1 = update_entry u f st; en = sr_entries st1 ! u in
    if en_detach_requested en \<and> \<not> en_announcing en \<and> \<not> en_appending en then detach_entered u st1 else st1)"
proof -
  let ?st = "update_entry u f st" and ?en = "f (sr_entries st ! u)"
  have ok: "entry_ok st u" and base: "store_base st" using inv u by (auto simp: store_inv_def)
  have lv: "is_live ?st u = is_live st u" using f u by (subst update_entry_sel(2)) auto
  have nth: "sr_entries ?st ! u = ?en" using u by simp
  show ?thesis
  proof (cases "en_detach_requested ?en \<and> \<not> en_announcing ?en \<and> \<not> en_appending ?en")
    case True
    have "store_inv (detach_entered u ?st)"
    proof (rule detach_entered_ok)
      show "store_base ?st" using base f u by (subst update_entry_sel(1)) auto
      show "is_live ?st u" using ok True f(5) unfolding lv by (simp add: entry_ok_def Let_def)
      show "entry_ok ?st v" if "v < length (sr_entries ?st)" "v \<noteq> u" for v
        using that inv f u by (subst update_entry_sel(3)) (auto simp: store_inv_def)
    qed (use ok True f u in \<open>simp_all add: entry_ok_def Let_def\<close>)
    with True nth show ?thesis by (simp add: Let_def)
  next
    case False
    have "entry_ok ?st u"
      using ok False f lv u unfolding entry_ok_def Let_def nth by auto
    with update_entry_inv [OF inv u f(1,2)] have "store_inv ?st" by blast
    with False nth show ?thesis by (auto simp: Let_def)
  qed
qed

lemma announce_end_ok:
  assumes "store_inv st" and "u < length (sr_entries st)"
  shows "store_inv (announce_end u st)"
  using close_publication [OF assms, of "\<lambda>en. en\<lparr>en_announcing := False\<rparr>"] assms(2)
  by (simp add: announce_end_def Let_def)

lemma append_end_ok:
  assumes "store_inv st" and "u < length (sr_entries st)"
  shows "store_inv (append_end u st)"
  using close_publication [OF assms, of "\<lambda>en. en\<lparr>en_appending := False\<rparr>"] assms(2)
  by (simp add: append_end_def Let_def)

lemma live_entry_for_SomeD:
  assumes "store_inv st" and "live_entry_for st r = Some u"
  shows "u < length (sr_entries st) \<and> is_live st u \<and> en_session (sr_entries st ! u) = r"
  using assms by (auto simp: live_entry_for_def store_inv_def store_base_def split: option.splits if_splits)

lemma announce_begin_ok:
  assumes inv: "store_inv st" and "announce_begin r st = (p, st')"
  shows "store_inv st'"
proof (cases "\<exists>u. live_entry_for st r = Some u \<and> \<not> en_announced (sr_entries st ! u) \<and> \<not> en_announcing (sr_entries st ! u)")
  case False
  with assms show ?thesis
    by (auto simp: announce_begin_def Let_def split: option.splits if_splits)
next
  case True
  then obtain u where u: "live_entry_for st r = Some u" "\<not> en_announced (sr_entries st ! u)"
      "\<not> en_announcing (sr_entries st ! u)"
    by blast
  let ?st = "st\<lparr>sr_emitted := sr_emitted st @ [Created u]\<rparr>"
  let ?f = "\<lambda>en. en\<lparr>en_announced := True, en_announcing := True\<rparr>"
  have st': "st' = update_entry u ?f ?st" using assms(2) u by (simp add: announce_begin_def Let_def)
  have lv: "u < length (sr_entries st)" "is_live st u" using live_entry_for_SomeD [OF inv u(1)] by auto
  have ok: "entry_ok st u" using inv lv by (simp add: store_inv_def)
  have base: "store_base ?st"
    using inv lv(1) unfolding store_inv_def store_base_def is_live_def by (simp add: emitted_ok_snoc)
  have others: "entry_ok ?st v" if "v \<noteq> u" "entry_ok st v" for v
    using that by (simp add: entry_ok_def is_live_def)
  show ?thesis
    unfolding store_inv_def st'
  proof (intro conjI allI impI)
    show "store_base (update_entry u ?f ?st)" using base lv(1) by (subst update_entry_sel(1)) auto
    fix v assume v: "v < length (sr_entries (update_entry u ?f ?st))"
    show "entry_ok (update_entry u ?f ?st) v"
    proof (cases "v = u")
      case True
      have "is_live (update_entry u ?f ?st) u" using lv by (subst update_entry_sel(2)) (auto simp: is_live_def)
      with True ok u lv show ?thesis by (simp add: entry_ok_def Let_def)
    next
      case False
      with v others inv lv(1) show ?thesis
        by (subst update_entry_sel(3)) (auto simp: store_inv_def)
    qed
  qed
qed

lemma sessions_update_inv:
  assumes "store_inv st" and "r < length (sr_sessions st)" and "session_reach s'"
  shows "store_inv (st\<lparr>sr_sessions := (sr_sessions st)[r := s']\<rparr>)"
proof -
  let ?st = "st\<lparr>sr_sessions := (sr_sessions st)[r := s']\<rparr>"
  have lv: "is_live ?st = is_live st" by (rule ext) (simp add: is_live_def)
  have "entry_ok ?st = entry_ok st" by (rule ext) (simp add: entry_ok_def lv)
  moreover have "\<forall>s \<in> set (sr_sessions ?st). session_reach s"
    using assms by (auto simp: store_inv_def store_base_def dest!: set_update_subset_insert [THEN subsetD])
  then have "store_base ?st"
    using assms(1) by (simp add: store_inv_def store_base_def lv)
  ultimately show ?thesis using assms(1) by (simp add: store_inv_def)
qed

lemma store_inv_session: "store_inv st \<Longrightarrow> r < length (sr_sessions st) \<Longrightarrow> session_reach (sr_sessions st ! r)"
  by (auto simp: store_inv_def store_base_def)

lemma view_step_reach: "session_reach s \<Longrightarrow> view_step s s' \<Longrightarrow> session_reach s'"
  by (auto simp: view_step_def) (metis prod.collapse session_reach.read_events session_reach.derived
      session_reach.read_header session_reach.read_context)+

lemma append_begin_ok:
  assumes inv: "store_inv st" and r: "r < length (sr_sessions st)" and "append_begin r c st = (q, st')"
  shows "store_inv st'"
proof -
  let ?c = "c\<lparr>ac_appending := map_option (\<lambda>u. en_appending (sr_entries st ! u)) (sr_attached st r)\<rparr>"
  obtain a s' where a: "append_event ?c (sr_sessions st ! r) = (a, s')" by fastforce
  let ?st = "st\<lparr>sr_sessions := (sr_sessions st)[r := s']\<rparr>" and ?f = "\<lambda>en. en\<lparr>en_appending := True\<rparr>"
  have "session_reach s'"
    using store_inv_session [OF inv r] a by (rule session_reach.appended)
  then have st1: "store_inv ?st" by (rule sessions_update_inv [OF inv r])
  show ?thesis
  proof (cases "\<exists>u. sr_attached st r = Some u \<and> st' = update_entry u ?f ?st")
    case False
    then have "st' = ?st"
      using assms(3) a by (auto simp: append_begin_def Let_def split: option.splits sum.splits if_splits)
    with st1 show ?thesis by simp
  next
    case True
    then obtain u where u: "sr_attached st r = Some u" and st': "st' = update_entry u ?f ?st" by blast
    have lv: "u < length (sr_entries ?st)" "is_live ?st u"
      using inv u by (auto simp: store_inv_def store_base_def is_live_def)
    have "is_live (update_entry u ?f ?st) u" using lv by (subst update_entry_sel(2)) auto
    moreover have "entry_ok ?st u" using st1 lv(1) by (simp add: store_inv_def)
    ultimately have "entry_ok (update_entry u ?f ?st) u"
      using lv by (simp add: entry_ok_def Let_def)
    then show ?thesis unfolding st' by (intro update_entry_inv [OF st1 lv(1)]) simp_all
  qed
qed


lemma enter_ok:
  assumes inv: "store_inv st" and r: "r < length (sr_sessions st)" and "enter r st = (p, st')"
  shows "store_inv st'"
proof (cases "store_has st (session_id_of st r) \<or> sr_attached st r \<noteq> None")
  case True
  with assms show ?thesis by (auto simp: enter_def Let_def split: if_splits)
next
  case False
  let ?i = "session_id_of st r" and ?u = "length (sr_entries st)"
  let ?en = "\<lparr>en_id = ?i, en_session = r, en_announced = False, en_announcing = False,
      en_appending = False, en_detach_requested = False, en_entered = True\<rparr>"
  have fresh: "map_of (sr_live st) ?i = None" and att: "sr_attached st r = None"
    using False by (auto simp: store_has_def)
  have st': "st' = st\<lparr>sr_entries := sr_entries st @ [?en], sr_live := sr_live st @ [(?i, ?u)],
      sr_attached := (sr_attached st)(r := Some ?u)\<rparr>"
    using assms(3) False by (simp add: enter_def Let_def)
  have base: "store_base st" and ok: "\<And>v. v < ?u \<Longrightarrow> entry_ok st v" using inv by (auto simp: store_inv_def)
  have look: "map_of (sr_live st') i = (if i = ?i then Some ?u else map_of (sr_live st) i)" for i
    using fresh by (auto simp: st' map_add_def split: option.splits)
  have lv_old: "is_live st' v = is_live st v" if "v < ?u" for v
    using that look fresh by (auto simp: is_live_def st' nth_append)
  have lv_new: "is_live st' ?u" using look by (simp add: is_live_def st')
  have "store_base st'"
    unfolding store_base_def
  proof (intro conjI allI impI ballI)
    show "distinct (map fst (sr_live st'))"
      using base fresh by (auto simp: st' store_base_def map_of_eq_None_iff)
  next
    fix i v assume "map_of (sr_live st') i = Some v"
    then have "i = ?i \<and> v = ?u \<or> map_of (sr_live st) i = Some v" by (auto simp: look split: if_splits)
    then have "v < Suc ?u \<and> en_id ((sr_entries st @ [?en]) ! v) = i"
      using base by (auto simp: store_base_def nth_append)
    then show "v < length (sr_entries st')" and "en_id (sr_entries st' ! v) = i" by (auto simp: st')
  next
    fix q v
    show "sr_attached st' q = Some v \<longleftrightarrow>
        v < length (sr_entries st') \<and> is_live st' v \<and> en_session (sr_entries st' ! v) = q"
    proof (cases "v < ?u")
      case True
      have "sr_attached st' q = Some v \<longleftrightarrow> sr_attached st q = Some v"
        using True att by (auto simp: st')
      then show ?thesis
        using True base lv_old [OF True] by (simp add: store_base_def st' nth_append)
    next
      case False
      have "sr_attached st q \<noteq> Some v" using base False by (auto simp: store_base_def)
      then have "sr_attached st' q = Some v \<longleftrightarrow> q = r \<and> v = ?u" by (auto simp: st')
      moreover have "v < length (sr_entries st') \<longleftrightarrow> v = ?u" using False by (auto simp: st')
      ultimately show ?thesis using lv_new by (auto simp: st')
    qed
  next
    fix v assume "v < length (sr_entries st')"
    then show "en_session (sr_entries st' ! v) < length (sr_sessions st')"
      using base r by (auto simp: st' store_base_def nth_append less_Suc_eq)
  next
    show "emitted_ok (length (sr_entries st')) (sr_emitted st')"
      using base by (auto simp: st' store_base_def intro: emitted_ok_mono)
  next
    fix s assume "s \<in> set (sr_sessions st')"
    then show "session_reach s" using base by (simp add: st' store_base_def)
  qed
  moreover have "entry_ok st' v" if "v < length (sr_entries st')" for v
  proof (cases "v < ?u")
    case True
    with ok [OF True] lv_old [OF True] show ?thesis
      by (simp add: entry_ok_def st' nth_append)
  next
    case False
    then have v: "v = ?u" using that by (simp add: st')
    have "Created ?u \<notin> set (sr_emitted st)" "Disposed ?u \<notin> set (sr_emitted st)"
      using base by (auto simp: store_base_def emitted_ok_def)
    with lv_new show ?thesis
      unfolding v by (simp add: entry_ok_def st' count_list_0_iff)
  qed
  ultimately show ?thesis by (simp add: store_inv_def)
qed

lemma prepare_fields:
  assumes "prepare sid opts now later st = (q, st')"
  shows "sr_live st' = sr_live st \<and> sr_entries st' = sr_entries st \<and> sr_attached st' = sr_attached st \<and>
      sr_emitted st' = sr_emitted st"
    and "sr_sessions st' = sr_sessions st \<and> (\<forall>r. q \<noteq> Some (Inr r)) \<or>
      (\<exists>s i. sr_sessions st' = sr_sessions st @ [s] \<and> build_session i opts now later = Inr s \<and>
         q = Some (Inr (length (sr_sessions st))) \<and> \<not> store_has st i \<and> (\<forall>j. sid = Some j \<longrightarrow> i = j))"
  using assms unfolding prepare_def Let_def
  by (auto simp: store_has_def split: option.splits sum.splits if_splits) (fastforce+)

lemma build_session_reach: "build_session i opts now later = Inr s \<Longrightarrow> session_reach s"
  by (cases opts) (auto simp: build_session_def intro: session_reach.made)

lemma store_inv_fields:
  assumes "store_inv st"
    and f: "sr_live st' = sr_live st" "sr_entries st' = sr_entries st" "sr_attached st' = sr_attached st"
      "sr_emitted st' = sr_emitted st" "sr_sessions st' = sr_sessions st @ ss"
    and "\<forall>s \<in> set ss. session_reach s"
  shows "store_inv st'"
proof -
  have lv: "is_live st' = is_live st" by (rule ext) (simp add: is_live_def f)
  have "entry_ok st' = entry_ok st" by (rule ext) (simp add: entry_ok_def lv f)
  moreover have "\<forall>v < length (sr_entries st). en_session (sr_entries st ! v) < length (sr_sessions st @ ss)"
    using assms(1) by (auto simp: store_inv_def store_base_def)
  then have "store_base st'"
    using assms(1,7) unfolding store_inv_def store_base_def f lv by (simp add: ball_Un)
  ultimately show ?thesis using assms(1) by (simp add: store_inv_def f)
qed

lemma prepare_ok:
  assumes inv: "store_inv st" and q: "prepare sid opts now later st = (q, st')"
  shows "store_inv st'"
  using prepare_fields(2) [OF q]
proof
  assume "sr_sessions st' = sr_sessions st \<and> (\<forall>r. q \<noteq> Some (Inr r))"
  with prepare_fields(1) [OF q] show ?thesis by (intro store_inv_fields [OF inv, of st' "[]"]) auto
next
  assume "\<exists>s i. sr_sessions st' = sr_sessions st @ [s] \<and> build_session i opts now later = Inr s \<and>
         q = Some (Inr (length (sr_sessions st))) \<and> \<not> store_has st i \<and> (\<forall>j. sid = Some j \<longrightarrow> i = j)"
  then obtain s where "sr_sessions st' = sr_sessions st @ [s]" "session_reach s"
    by (blast intro: build_session_reach)
  with prepare_fields(1) [OF q] show ?thesis by (intro store_inv_fields [OF inv, of st' "[s]"]) auto
qed

lemma store_reach_inv: "store_reach st \<Longrightarrow> store_inv st"
proof (induction rule: store_reach.induct)
  case start
  show ?case by (simp add: store_inv_def store_base_def empty_store_def emitted_ok_def is_live_def)
next
  case (viewed st r s')
  then show ?case
    by (intro sessions_update_inv) (auto intro: view_step_reach store_inv_session)
qed (blast intro: prepare_ok enter_ok detach_ok announce_begin_ok announce_end_ok append_begin_ok append_end_ok)+

lemma detach_sessions [simp]: "sr_sessions (detach u st) = sr_sessions st"
  by (simp add: detach_def detach_entered_def Let_def)

lemma enter_sessions: "enter r st = (p, st') \<Longrightarrow> sr_sessions st' = sr_sessions st"
  by (auto simp: enter_def Let_def split: if_splits)

lemma announce_begin_sessions: "announce_begin r st = (p, st') \<Longrightarrow> sr_sessions st' = sr_sessions st"
  by (auto simp: announce_begin_def Let_def split: option.splits if_splits)

text \<open>Creating and forking are sequences of the elementary steps.\<close>

lemma create_reach:
  assumes "store_reach st" and "create sid opts now later st = (q, st')"
  shows "store_reach st'"
proof -
  obtain q1 st1 where p: "prepare sid opts now later st = (q1, st1)" by fastforce
  then have r1: "store_reach st1" using assms(1) by (blast intro: store_reach.prepared)
  show ?thesis
  proof (cases "\<exists>r. q1 = Some (Inr r)")
    case False
    with assms(2) p r1 show ?thesis by (auto simp: create_def split: option.splits sum.splits)
  next
    case True
    then obtain r where q1: "q1 = Some (Inr r)" by blast
    have r: "r < length (sr_sessions st1)" using prepare_fields(2) [OF p] q1 by auto
    obtain q2 st2 where e: "enter r st1 = (q2, st2)" by fastforce
    have r2: "store_reach st2" using r1 r e by (rule store_reach.entered)
    obtain q3 st3 where a: "announce_begin r st2 = (q3, st3)" by fastforce
    have "r < length (sr_sessions st2)" using enter_sessions [OF e] r by simp
    with r2 a have r3: "store_reach st3" by (blast intro: store_reach.announcing)
    have entries: "length (sr_entries st3) = length (sr_entries st2)"
      using a by (auto simp: announce_begin_def Let_def split: option.splits if_splits)
    show ?thesis
    proof (cases q2)
      case (Inl x)
      with assms(2) p q1 e r2 show ?thesis by (simp add: create_def)
    next
      case (Inr u)
      then have "u < length (sr_entries st3)"
        using e entries by (auto simp: enter_def Let_def split: if_splits)
      then have "store_reach (detach u st3)" using r3 by (blast intro: store_reach.detached)
      with assms(2) p q1 e a Inr r3 show ?thesis by (auto simp: create_def split: sum.splits)
    qed
  qed
qed

lemma fork_reach:
  assumes "store_reach st" and "fork source boundary child now later st = (q, st')"
    and "\<And>r. source = ForkSession r \<Longrightarrow> r < length (sr_sessions st)"
  shows "store_reach st'"
proof (cases "(case child of None \<Rightarrow> False | Some i \<Rightarrow> get_session st i \<noteq> None) \<or> (\<exists>x. resolve_fork_source st source = Inl x)")
  case True
  with assms show ?thesis by (auto simp: fork_def split: sum.splits if_splits)
next
  case False
  then obtain r where r: "resolve_fork_source st source = Inr r" by (cases "resolve_fork_source st source") auto
  have inv: "store_inv st" using assms(1) by (rule store_reach_inv)
  have len: "r < length (sr_sessions st)"
    using r assms(3) inv
    by (auto simp: resolve_fork_source_def get_session_def store_inv_def store_base_def
        split: fork_source.splits option.splits if_splits)
  obtain evs s1 where ev: "events_of (sr_sessions st ! r) = (evs, s1)" by fastforce
  let ?st1 = "st\<lparr>sr_sessions := (sr_sessions st)[r := s1]\<rparr>"
  have r1: "store_reach ?st1"
    using assms(1) len ev by (intro store_reach.viewed) (simp_all add: view_step_def)
  show ?thesis
  proof (cases "fork_seed evs boundary")
    case (Inl x)
    with assms(2) False r ev r1 show ?thesis by (auto simp: fork_def Let_def)
  next
    case (Inr seed)
    obtain q2 st2 where c: "create child (FreshSession (Some (map Some seed)) (fork_meta ?st1 r (length seed))) now later ?st1 = (q2, st2)"
      by fastforce
    with assms(2) False r ev Inr have "st' = st2" by (auto simp: fork_def Let_def)
    with create_reach [OF r1 c] show ?thesis by simp
  qed
qed

subsection \<open>What the store guarantees\<close>

text \<open>
  Claim C3. In every reachable store, a session is announced as created at most once and as
  disposed exactly when it was announced and left the store, never before its creation; a
  used detach capability is deferred only while a publication is open.
\<close>

theorem store_lifecycle:
  assumes "store_reach st" and "u < length (sr_entries st)"
  shows "count_list (sr_emitted st) (Created u) = of_bool (en_announced (sr_entries st ! u)) \<and>
    count_list (sr_emitted st) (Disposed u) =
      of_bool (en_announced (sr_entries st ! u) \<and> \<not> is_live st u) \<and>
    (\<forall>i < length (sr_emitted st). sr_emitted st ! i = Disposed u \<longrightarrow> Created u \<in> set (take i (sr_emitted st))) \<and>
    (is_live st u \<longleftrightarrow>
       en_entered (sr_entries st ! u) \<or> en_detach_requested (sr_entries st ! u)) \<and>
    (en_detach_requested (sr_entries st ! u) \<longrightarrow>
       en_announcing (sr_entries st ! u) \<or> en_appending (sr_entries st ! u))"
  using store_reach_inv [OF assms(1)] assms(2)
  by (simp add: store_inv_def store_base_def emitted_ok_def entry_ok_def Let_def)

definition sample_store :: session_store where
  "sample_store =
     snd (create (Some ''s'')
       (FreshSession (Some (map Some (sample_log @ interrupted_turn_closers sample_log))) []) 0 0 empty_store)"

lemma sample_store_reach: "store_reach sample_store"
  unfolding sample_store_def using store_reach.start prod.collapse by (rule create_reach [OF _ sym])

lemma store_lifecycle_witness:
  "count_list (sr_emitted sample_store) (Created 0) = of_bool (en_announced (sr_entries sample_store ! 0)) \<and>
    count_list (sr_emitted sample_store) (Disposed 0) =
      of_bool (en_announced (sr_entries sample_store ! 0) \<and> \<not> is_live sample_store 0) \<and>
    (is_live sample_store 0 \<longleftrightarrow>
       en_entered (sr_entries sample_store ! 0) \<or> en_detach_requested (sr_entries sample_store ! 0))"
proof -
  have "0 < length (sr_entries sample_store)" by code_simp
  from store_lifecycle [OF sample_store_reach this] show ?thesis by blast
qed

lemma live_sessions_inj:
  assumes "store_inv st" and "(i, u) \<in> set (sr_live st)" and "(j, v) \<in> set (sr_live st)"
    and "en_session (sr_entries st ! u) = en_session (sr_entries st ! v)"
  shows "(i, u) = (j, v)"
proof -
  have base: "store_base st" using assms(1) by (simp add: store_inv_def)
  have "map_of (sr_live st) i = Some u" "map_of (sr_live st) j = Some v"
    using assms(2,3) base by (simp_all add: store_base_def)
  then have u: "u < length (sr_entries st)" "en_id (sr_entries st ! u) = i" "is_live st u"
    and v: "v < length (sr_entries st)" "en_id (sr_entries st ! v) = j" "is_live st v"
    using base by (auto simp: store_base_def is_live_def)
  with base assms(4) have "sr_attached st (en_session (sr_entries st ! u)) = Some u"
    "sr_attached st (en_session (sr_entries st ! u)) = Some v"
    unfolding store_base_def by metis+
  with u v show ?thesis by simp
qed

theorem live_sessions_distinct:
  assumes "store_reach st"
  shows "distinct (map fst (sr_live st)) \<and> distinct (list_sessions st) \<and>
    (\<forall>r \<in> set (list_sessions st). live_entry_for st r \<noteq> None)"
proof -
  have inv: "store_inv st" using store_reach_inv [OF assms] .
  then have base: "store_base st" by (simp add: store_inv_def)
  have keys: "distinct (map fst (sr_live st))" using base by (simp add: store_base_def)
  have "distinct (list_sessions st)"
    unfolding list_sessions_def
  proof (rule distinct_map [THEN iffD2, OF conjI])
    show "distinct (sr_live st)" using keys by (simp add: distinct_map)
    show "inj_on (\<lambda>p. en_session (sr_entries st ! snd p)) (set (sr_live st))"
      using live_sessions_inj [OF inv] by (intro inj_onI) (metis prod.collapse)
  qed
  moreover have "live_entry_for st r \<noteq> None" if "r \<in> set (list_sessions st)" for r
  proof -
    from that obtain i u where iu: "(i, u) \<in> set (sr_live st)" "r = en_session (sr_entries st ! u)"
      by (auto simp: list_sessions_def)
    then have m: "map_of (sr_live st) i = Some u" using keys by simp
    then have u: "u < length (sr_entries st)" "en_id (sr_entries st ! u) = i"
      using base by (auto simp: store_base_def)
    with m have live: "is_live st u" by (simp add: is_live_def)
    with base u iu(2) have "sr_attached st r = Some u" by (simp add: store_base_def)
    with live show ?thesis by (simp add: live_entry_for_def is_live_def)
  qed
  ultimately show ?thesis using keys by simp
qed

lemma live_sessions_distinct_witness:
  "distinct (map fst (sr_live sample_store)) \<and> distinct (list_sessions sample_store)
    \<and> live_entry_for sample_store (hd (list_sessions sample_store)) \<noteq> None"
proof -
  have "list_sessions sample_store \<noteq> []" by code_simp
  with live_sessions_distinct [OF sample_store_reach] show ?thesis by (simp add: hd_in_set)
qed

theorem minted_id_fresh:
  "\<exists>i m. mint_id ids n = Some (i, m) \<and> n < m \<and> i = ''session-'' @ string_of_nat m \<and> i \<notin> set ids \<and>
    (\<forall>k. n < k \<and> k < m \<longrightarrow> ''session-'' @ string_of_nat k \<in> set ids)"
proof (induction "card {k. n < k \<and> ''session-'' @ string_of_nat k \<in> set ids}" arbitrary: n rule: less_induct)
  case less
  let ?S = "\<lambda>n. {k. n < k \<and> ''session-'' @ string_of_nat k \<in> set ids}"
  have fin: "finite (?S m)" for m
  proof (rule finite_imageD)
    show "finite ((\<lambda>k. ''session-'' @ string_of_nat k) ` ?S m)"
      by (rule finite_subset [of _ "set ids"]) auto
    show "inj_on (\<lambda>k. ''session-'' @ string_of_nat k) (?S m)" by (rule inj_onI) simp
  qed
  show ?case
  proof (cases "''session-'' @ string_of_nat (n + 1) \<in> set ids")
    case False
    then show ?thesis by (subst mint_id.simps) (auto simp: Let_def)
  next
    case True
    then have "?S (n + 1) \<subset> ?S n" by force
    then have "card (?S (n + 1)) < card (?S n)" using fin by (rule psubset_card_mono [rotated])
    from less [OF this] obtain i m where im: "mint_id ids (n + 1) = Some (i, m)" "n + 1 < m"
        "i = ''session-'' @ string_of_nat m" "i \<notin> set ids"
        "\<forall>k. n + 1 < k \<and> k < m \<longrightarrow> ''session-'' @ string_of_nat k \<in> set ids"
      by blast
    have "mint_id ids n = Some (i, m)"
      using True im(1) by (subst mint_id.simps) (simp add: Let_def)
    moreover have "''session-'' @ string_of_nat k \<in> set ids" if "n < k" "k < m" for k
      using that True im(5) by (cases "k = n + 1") auto
    ultimately show ?thesis using im by auto
  qed
qed

lemma minted_id_fresh_witness:
  "\<exists>i m. mint_id [''session-1''] 0 = Some (i, m) \<and> 0 < m \<and> i = ''session-'' @ string_of_nat m
    \<and> i \<notin> {''session-1''}"
  using minted_id_fresh [of "[''session-1'']" 0] by auto

subsection \<open>Fork boundaries\<close>

lemma find_last_append:
  "find_last p (xs @ ys) = (case find_last p ys of Some y \<Rightarrow> Some y | None \<Rightarrow> find_last p xs)"
  by (induction xs) (auto split: option.splits)

text \<open>The last turn boundary of an accepted log tells whether its turn is open.\<close>

lemma open_turn_last_boundary:
  "seed_trace evs = Inr tr \<Longrightarrow>
   open_turn tr = (case find_last is_turn_boundary evs of
                     Some e \<Rightarrow> (case ev_data e of TurnStart t \<Rightarrow> Some t | _ \<Rightarrow> None)
                   | None \<Rightarrow> None)"
proof (induction rule: seed_trace_induct)
  case Nil
  show ?case by (simp add: fresh_trace_def)
next
  case (snoc evs e tr tr')
  have step: "trace_step evs (length evs) tr e = Inr tr'" by fact
  show ?case
    using step snoc.IH
    by (cases "ev_data e")
      (auto simp: find_last_append is_turn_boundary_def trace_defs split: if_splits option.splits)
qed

lemma find_last_boundary: "find_last is_turn_boundary evs = Some e \<Longrightarrow> is_turn_boundary e"
  by (induction evs) (auto split: option.splits if_splits)

lemma fork_seed_at_trace:
  assumes "contiguous evs" and "k < length evs" and "int k \<le> max_safe"
    and "seed_trace (take (Suc k) evs) = Inr tr"
  shows "fork_seed_at evs (of_int (int k)) =
    (if open_turn tr = None then Inr (take (Suc k) evs) else Inl OpenTurn)"
proof -
  have k: "safe_int (int k)" "ev_seq (evs ! k) = int k"
    using assms by (auto simp: safe_int_def contiguous_def max_safe_def)
  have seed: "fork_seed_at evs (of_int (int k)) =
      (case find_last is_turn_boundary (take (Suc k) evs) of
         Some e \<Rightarrow> (case ev_data e of TurnStart _ \<Rightarrow> Inl OpenTurn | _ \<Rightarrow> Inr (take (Suc k) evs))
       | None \<Rightarrow> Inr (take (Suc k) evs))"
    using k assms(2)
    by (auto simp: fork_seed_at_def js_slice_def split: option.split event_data.split)
  show ?thesis
  proof (cases "find_last is_turn_boundary (take (Suc k) evs)")
    case None
    with open_turn_last_boundary [OF assms(4)] show ?thesis by (simp add: seed [simplified])
  next
    case (Some e)
    from find_last_boundary [OF this] obtain t r where "ev_data e = TurnStart t \<or> ev_data e = TurnEnd t r"
      by (auto simp: is_turn_boundary_def split: event_data.splits)
    with Some open_turn_last_boundary [OF assms(4)] show ?thesis by (auto simp: seed [simplified])
  qed
qed

theorem fork_boundary_exact:
  assumes "seed_trace evs = Inr tr" and "contiguous evs" and "k < length evs" and "int k \<le> max_safe"
  shows "\<exists>tr'. seed_trace (take (Suc k) evs) = Inr tr' \<and>
    fork_seed evs (Some (of_int (int k))) =
      (if open_turn tr' = None then Inr (take (Suc k) evs) else Inl OpenTurn)"
proof -
  have "replay trace_step fresh_trace (take (Suc k) evs @ drop (Suc k) evs) = (None, length evs, tr)"
    using assms(1) by (simp add: seed_trace_Inr_iff)
  then obtain tr' where "replay trace_step fresh_trace (take (Suc k) evs) = (None, length (take (Suc k) evs), tr')"
    by (rule trace_log.replay_prefix)
  then have "seed_trace (take (Suc k) evs) = Inr tr'" by (simp only: seed_trace_Inr_iff)
  with fork_seed_at_trace [OF assms(2-4)] show ?thesis by (simp add: fork_seed_def)
qed


lemma fork_boundary_exact_witness:
  "\<exists>tr'. seed_trace (take (Suc 4) sample_log) = Inr tr' \<and>
    fork_seed sample_log (Some (of_int (int 4))) =
      (if open_turn tr' = None then Inr (take (Suc 4) sample_log) else Inl OpenTurn)"
  by (rule fork_boundary_exact [of _ "projr (seed_trace sample_log)"])
    (code_simp, simp add: contiguous_def sample_defs plain_event_def less_Suc_eq nth_Cons', code_simp, code_simp)

text \<open>After crash repair the whole log is always a fork boundary.\<close>

theorem repaired_log_forks:
  assumes "seed_trace evs = Inr tr" and "fold_surface evs = Inr r"
    and "evs \<noteq> []" and "int (length (evs @ interrupted_turn_closers evs)) \<le> max_safe"
  shows "fork_seed (evs @ interrupted_turn_closers evs) None = Inr (evs @ interrupted_turn_closers evs)"
proof -
  let ?log = "evs @ interrupted_turn_closers evs"
  obtain ns rs where r: "r = (ns, rs)" by fastforce
  have "int (length evs) \<le> max_safe" using assms(4) by simp
  then have "\<exists>x. fold_surface ?log = Inr x"
    using repaired_surface_fold assms(2) r by blast
  then have cont: "contiguous ?log" using fold_surface_contiguous by blast
  obtain tr' where tr': "seed_trace ?log = Inr tr'" "open_turn tr' = None"
    using repaired_trace_closed [OF assms(1)] by blast
  define k where "k = length ?log - 1"
  have k: "k < length ?log" "Suc k = length ?log" using assms(3) by (simp_all add: k_def)
  have "ev_seq (last ?log) = int k"
    using cont k assms(3) by (auto simp: contiguous_def last_conv_nth k_def)
  then have "fork_seed ?log None = fork_seed_at ?log (of_int (int k))"
    using assms(3) by (simp add: fork_seed_def)
  also have "\<dots> = Inr ?log"
    using fork_seed_at_trace [OF cont k(1), of tr'] k(2) tr' assms(4) by simp
  finally show ?thesis .
qed

lemma repaired_log_forks_witness:
  "fork_seed (sample_log @ interrupted_turn_closers sample_log) None =
     Inr (sample_log @ interrupted_turn_closers sample_log)"
  by (rule repaired_log_forks [of _ "projr (seed_trace sample_log)" "projr (fold_surface sample_log)"])
    (code_simp, code_simp, code_simp, code_simp)

subsection \<open>What a fork creates\<close>

lemma create_InrD:
  assumes "create sid opts now later st = (Some (Inr r), st')"
  shows "\<exists>s i. build_session i opts now later = Inr s \<and> sr_sessions st' = sr_sessions st @ [s] \<and>
    r = length (sr_sessions st) \<and> \<not> store_has st i \<and> (\<forall>j. sid = Some j \<longrightarrow> i = j)"
proof -
  obtain q st1 where p: "prepare sid opts now later st = (q, st1)" by fastforce
  with assms obtain r1 where q: "q = Some (Inr r1)"
    by (auto simp: create_def split: option.splits sum.splits prod.splits)
  obtain q2 st2 where e: "enter r1 st1 = (q2, st2)" by fastforce
  obtain q3 st3 where a: "announce_begin r1 st2 = (q3, st3)" by fastforce
  have "r = r1 \<and> st' = st3"
    using assms p q e a by (auto simp: create_def split: sum.splits)
  moreover have "sr_sessions st3 = sr_sessions st1"
    using enter_sessions [OF e] announce_begin_sessions [OF a] by simp
  ultimately show ?thesis
    using prepare_fields(2) [OF p] q by auto
qed

text \<open>
  What the boundary selects, said without the fork: the number of events up to and including
  it, and that no turn begun among them is still open.
\<close>

definition turns_closed :: "session_event list \<Rightarrow> bool" where
  "turns_closed evs \<longleftrightarrow>
     (\<forall>i < length evs. (\<exists>t. ev_data (evs ! i) = TurnStart t) \<longrightarrow>
        (\<exists>j < length evs. i < j \<and> (\<exists>t x. ev_data (evs ! j) = TurnEnd t x)))"

definition fork_length :: "session_event list \<Rightarrow> rat option \<Rightarrow> nat \<Rightarrow> bool" where
  "fork_length evs boundary n \<longleftrightarrow>
     n \<le> length evs \<and>
     (case boundary of None \<Rightarrow> n = length evs | Some b \<Rightarrow> 0 < n \<and> of_nat n = b + 1)"

lemma answered_Suc:
  fixes n :: nat
  shows "(\<forall>i < Suc n. p i \<longrightarrow> (\<exists>j < Suc n. i < j \<and> q j)) \<longleftrightarrow>
    \<not> p n \<and> (q n \<or> (\<forall>i < n. p i \<longrightarrow> (\<exists>j < n. i < j \<and> q j)))"
  by (fastforce simp: less_Suc_eq)

lemma turns_closed_snoc:
  "turns_closed (evs @ [e]) \<longleftrightarrow>
     (\<nexists>t. ev_data e = TurnStart t) \<and> ((\<exists>t x. ev_data e = TurnEnd t x) \<or> turns_closed evs)"
proof -
  let ?p = "\<lambda>xs i. \<exists>t. ev_data (xs ! i) = TurnStart t" and ?q = "\<lambda>xs j. \<exists>t x. ev_data (xs ! j) = TurnEnd t x"
  have "turns_closed (evs @ [e]) \<longleftrightarrow>
      \<not> ?p (evs @ [e]) (length evs) \<and> (?q (evs @ [e]) (length evs) \<or>
        (\<forall>i < length evs. ?p (evs @ [e]) i \<longrightarrow> (\<exists>j < length evs. i < j \<and> ?q (evs @ [e]) j)))"
    unfolding turns_closed_def length_append_singleton by (rule answered_Suc)
  also have "\<dots> \<longleftrightarrow> \<not> ?p (evs @ [e]) (length evs) \<and> (?q (evs @ [e]) (length evs) \<or> turns_closed evs)"
    by (simp add: turns_closed_def nth_append cong: conj_cong)
  finally show ?thesis by simp
qed

lemma turns_closed_iff:
  "turns_closed evs \<longleftrightarrow>
     (case find_last is_turn_boundary evs of
        Some e \<Rightarrow> (case ev_data e of TurnStart _ \<Rightarrow> False | _ \<Rightarrow> True)
      | None \<Rightarrow> True)"
proof (induction evs rule: rev_induct)
  case Nil
  show ?case by (simp add: turns_closed_def)
next
  case (snoc e evs)
  then show ?case
    by (cases "ev_data e") (auto simp: turns_closed_snoc find_last_append is_turn_boundary_def)
qed

lemma fork_seed_at_Inr_iff:
  assumes "contiguous evs"
  shows "fork_seed_at evs x = Inr seed \<longleftrightarrow>
    (\<exists>k < length evs. x = of_nat k \<and> int k \<le> max_safe \<and> seed = take (Suc k) evs \<and> turns_closed seed)"
proof
  assume ok: "fork_seed_at evs x = Inr seed"
  then obtain i where i: "safe_int_of x = Some i" by (auto simp: fork_seed_at_def split: option.splits)
  then have x: "x = of_int i" "safe_int i" by (simp_all add: safe_int_of_Some_iff)
  from ok i have r: "0 \<le> i" "i < int (length evs)"
    by (auto simp: fork_seed_at_def split: if_splits)
  then obtain k where k: "i = int k" "k < length evs" by (metis nonneg_int_cases of_nat_less_iff)
  from ok i k have "seed = take (Suc k) evs \<and> turns_closed seed"
    by (auto simp: fork_seed_at_def js_slice_def turns_closed_iff split: if_splits option.splits event_data.splits)
  with x k show "\<exists>k < length evs. x = of_nat k \<and> int k \<le> max_safe \<and> seed = take (Suc k) evs \<and> turns_closed seed"
    by (auto simp: safe_int_def)
next
  assume "\<exists>k < length evs. x = of_nat k \<and> int k \<le> max_safe \<and> seed = take (Suc k) evs \<and> turns_closed seed"
  then obtain k where k: "k < length evs" "x = of_nat k" "int k \<le> max_safe" "seed = take (Suc k) evs"
    "turns_closed seed" by blast
  have "safe_int (int k)" "ev_seq (evs ! k) = int k"
    using assms k by (auto simp: safe_int_def contiguous_def max_safe_def)
  with k show "fork_seed_at evs x = Inr seed"
    by (auto simp: fork_seed_at_def js_slice_def turns_closed_iff split: option.splits event_data.splits)
qed

lemma fork_seed_InrD:
  assumes "contiguous evs" and "fork_seed evs b = Inr seed"
  shows "\<exists>n. fork_length evs b n \<and> seed = take n evs \<and> turns_closed seed"
proof (cases b)
  case None
  show ?thesis
  proof (cases "evs = []")
    case True
    with None assms(2) show ?thesis by (auto simp: fork_seed_def fork_length_def turns_closed_def)
  next
    case False
    then have "ev_seq (last evs) = int (length evs - 1)"
      using assms(1) by (simp add: contiguous_def last_conv_nth)
    then have "(of_int (ev_seq (last evs)) :: rat) = of_nat (length evs - 1)" by simp
    with None False assms fork_seed_at_Inr_iff [OF assms(1)] show ?thesis
      by (auto simp: fork_seed_def fork_length_def)
  qed
next
  case (Some x)
  with assms(2) have "fork_seed_at evs x = Inr seed" by (simp add: fork_seed_def)
  then obtain k where "k < length evs" "x = of_nat k" "seed = take (Suc k) evs" "turns_closed seed"
    using fork_seed_at_Inr_iff [OF assms(1)] by blast
  with Some show ?thesis
    by (intro exI [of _ "Suc k"]) (auto simp: fork_length_def)
qed

lemma finish_session_header:
  assumes "finish_session seeded h later s0 = Inr s"
  shows "ss_header s = h"
  using assms
  by (auto simp: finish_session_def Let_def dest!: append_event_header split: if_splits sum.splits prod.splits)

lemma validate_session_header_id: "validate_session_header i (JObj h) = Inr h' \<Longrightarrow> h' = h"
  by (simp add: validate_session_header_def split: if_splits)

lemma construct_snapshot_header:
  assumes "construct_session Snapshot i seed (Some (Some (JObj h))) now later = Inr s"
  shows "ss_header s = h"
proof -
  from assms obtain s0 h' where "validate_session_header i (JObj h) = Inr h'"
    and "finish_session (seed \<noteq> None) h' later s0 = Inr s"
    by (simp add: construct_session_def snapshot_session_header_def split: sum.splits)
  then show ?thesis by (simp add: validate_session_header_id finish_session_header)
qed

lemma map_of_selected:
  "map_of (List.map_filter (\<lambda>k. map_option (\<lambda>v. (k, v)) (m k)) ks) k = (if k \<in> set ks then m k else None)"
  by (induction ks) (auto simp: List.map_filter_simps split: option.split)

lemma prepare_header_meta:
  "k \<in> set meta_keys \<Longrightarrow> k \<noteq> ''version'' \<Longrightarrow> k \<noteq> ''id'' \<Longrightarrow> k \<noteq> ''createdAt'' \<Longrightarrow>
   map_of (prepare_header i meta now) k = map_of meta k"
  by (simp add: prepare_header_def map_add_def map_of_selected split: option.split)

lemma fork_meta_lineage:
  "map_of (prepare_header i (fork_meta st r n) now) ''parentSession'' = Some (JStr (session_id_of st r))"
  "map_of (prepare_header i (fork_meta st r n) now) ''seedLength'' = Some (jint (int n))"
  by (subst prepare_header_meta; simp add: meta_keys_def fork_meta_def split: option.split)+

lemma seeded_session_log:
  assumes "construct_session mode i (Some (map Some seed)) src now later = Inr s"
  shows "ss_log s = reopened_log later seed"
proof -
  from assms obtain s0 h where s0: "seed_loop empty_session 0 (map Some seed) = Inr s0"
    and fin: "finish_session True h later s0 = Inr s"
    by (auto elim: construct_session_InrD)
  have empty: "ss_log empty_session = []" "ss_snapshot empty_session = None"
    by (simp_all add: empty_session_def)
  from seed_loop_ok [OF s0 session_ok_empty empty(2)]
  have ok: "session_ok s0" and "map Some (ss_log s0) = map Some seed" by (simp_all add: empty)
  then have log: "ss_log s0 = seed" by (simp add: inj_map_eq_map)
  from ok fin show ?thesis
    by (cases rule: finish_session_cases) (simp_all add: reopened_log_def log)
qed

text \<open>
  Claim C28. A successful fork, whether its source was given as an id or as a live session
  object, takes the whole log of the source or, given a boundary, exactly the events up to
  and including it, with no turn left open among them; the child logs that prefix, followed
  by an end-of-seed marker unless it ends with one, and records its parent and the length of
  the prefix, and the log of the source stays as it was.
\<close>

theorem fork_child_and_source:
  assumes "store_reach st"
    and "fork source boundary child now later st = (Inr (Some (Inr r')), st')"
  shows "\<exists>r n. let evs = ss_log (sr_sessions st ! r); s = sr_sessions st' ! r' in
      (case source of
         ForkId i \<Rightarrow> get_session st i = Some r
       | ForkSession x \<Rightarrow> r = x \<and> get_session st (session_id_of st x) = Some x) \<and>
      fork_length evs boundary n \<and> turns_closed (take n evs) \<and>
      ss_log s = reopened_log later (take n evs) \<and>
      map_of (ss_header s) ''parentSession'' = Some (JStr (session_id_of st r)) \<and>
      map_of (ss_header s) ''seedLength'' = Some (jint (int n)) \<and>
      ss_log (sr_sessions st' ! r) = evs \<and> r' \<noteq> r"
proof -
  from assms(2) obtain r where src: "resolve_fork_source st source = Inr r"
    by (auto simp: fork_def split: if_splits sum.splits)
  let ?s = "sr_sessions st ! r"
  let ?evs = "ss_log ?s"
  obtain evs s1 where ev: "events_of ?s = (evs, s1)" by fastforce
  have inv: "store_inv st" using assms(1) by (rule store_reach_inv)
  have r: "r < length (sr_sessions st)"
    using inv src
    by (auto simp: resolve_fork_source_def get_session_def store_inv_def store_base_def
        split: fork_source.splits option.splits if_splits)
  have ok: "session_ok ?s" using store_inv_session [OF inv r] by (rule session_reach_ok)
  have evs: "evs = ?evs" and s1: "ss_log s1 = ?evs" "ss_header s1 = ss_header ?s"
    using events_of_ok [OF ok ev] ev by (auto simp: events_of_def split: option.splits)
  let ?st1 = "st\<lparr>sr_sessions := (sr_sessions st)[r := s1]\<rparr>"
  from assms(2) src ev evs obtain seed where seed: "fork_seed ?evs boundary = Inr seed"
    and create: "create child (FreshSession (Some (map Some seed)) (fork_meta ?st1 r (length seed))) now later ?st1
      = (Some (Inr r'), st')"
    by (auto simp: fork_def Let_def split: if_splits sum.splits prod.splits)
  have "contiguous ?evs"
    using derived_messages [OF store_inv_session [OF inv r]] by (blast intro: fold_surface_contiguous)
  from fork_seed_InrD [OF this seed] obtain n where
    n: "fork_length ?evs boundary n" "seed = take n ?evs" "turns_closed seed" by blast
  then have len: "length seed = n" by (simp add: fork_length_def)
  from create_InrD [OF create] obtain s j where
    s: "build_session j (FreshSession (Some (map Some seed)) (fork_meta ?st1 r (length seed))) now later = Inr s"
      "sr_sessions st' = sr_sessions ?st1 @ [s]" "r' = length (sr_sessions ?st1)"
    by blast
  from s(1) have build: "construct_session Snapshot j (Some (map Some seed))
      (Some (Some (JObj (prepare_header j (fork_meta ?st1 r n) now)))) now later = Inr s"
    by (simp add: build_session_def len)
  have same: "session_id_of ?st1 r = session_id_of st r" using r s1 by (simp add: session_id_of_def)
  have "ss_log s = reopened_log later seed" using build by (rule seeded_session_log)
  moreover note construct_snapshot_header [OF build] fork_meta_lineage [of j ?st1 r n now]
  moreover have "sr_sessions st' ! r' = s" "ss_log (sr_sessions st' ! r) = ?evs" "r' \<noteq> r"
    using s r s1 by (simp_all add: nth_append)
  moreover have "case source of ForkId i \<Rightarrow> get_session st i = Some r
       | ForkSession x \<Rightarrow> r = x \<and> get_session st (session_id_of st x) = Some x"
    using src by (auto simp: resolve_fork_source_def split: fork_source.splits option.splits if_splits)
  ultimately show ?thesis using n same by (intro exI [of _ r] exI [of _ n]) (simp add: Let_def)
qed

definition sample_fork :: "(fork_error + (store_error + nat) option) \<times> session_store" where
  "sample_fork = fork (ForkSession 0) (Some 7) None 0 0 sample_store"

lemma fork_child_and_source_witness:
  "\<exists>r n. let evs = ss_log (sr_sessions sample_store ! r); s = sr_sessions (snd sample_fork) ! 1 in
      (case ForkSession 0 of
         ForkId i \<Rightarrow> get_session sample_store i = Some r
       | ForkSession x \<Rightarrow> r = x \<and> get_session sample_store (session_id_of sample_store x) = Some x) \<and>
      fork_length evs (Some 7) n \<and> turns_closed (take n evs) \<and>
      ss_log s = reopened_log 0 (take n evs) \<and>
      map_of (ss_header s) ''parentSession'' = Some (JStr (session_id_of sample_store r)) \<and>
      map_of (ss_header s) ''seedLength'' = Some (jint (int n)) \<and>
      ss_log (sr_sessions (snd sample_fork) ! r) = evs \<and> 1 \<noteq> r"
proof (rule fork_child_and_source [OF sample_store_reach])
  have "fst sample_fork = Inr (Some (Inr 1))" by code_simp
  then show "fork (ForkSession 0) (Some 7) None 0 0 sample_store = (Inr (Some (Inr 1)), snd sample_fork)"
    unfolding sample_fork_def by (metis prod.collapse)
qed

end
