(* ===== verification/Chunk_Rows.thy ===== *)
theory Chunk_Rows
  imports Session_Surface
begin

section \<open>Storage packing of assistant delta runs\<close>

text \<open>
  Model of \<^verbatim>\<open>packages/core/session/src/chunk-rows.ts\<close> on JSON values: the events of a batch
  and the storage rows are what \<open>JSON.parse\<close> returns. The selectors below read properties
  of a value the encoder has already recognized. Sums and differences of safe integers are
  rounded as doubles are (\<open>double_of_int\<close>), because the decoder relies on it.
\<close>

text \<open>
  The double nearest to an integer of magnitude at most \<open>2 ^ 54\<close>: beyond \<open>2 ^ 53\<close> only even
  integers are doubles, and a tie goes to the multiple of four.
\<close>

definition double_of_int :: "int \<Rightarrow> int" where
  "double_of_int x =
     (if \<bar>x\<bar> \<le> 9007199254740992 \<or> even x then x
      else if \<bar>x\<bar> mod 4 = 1 then sgn x * (\<bar>x\<bar> - 1) else sgn x * (\<bar>x\<bar> + 1))"

lemma double_of_int_exact: "\<bar>x\<bar> \<le> 9007199254740992 \<Longrightarrow> double_of_int x = x"
  by (simp add: double_of_int_def)

lemma safe_double_of_int: "safe_int (double_of_int x) \<longleftrightarrow> safe_int x"
proof (cases "\<bar>x\<bar> \<le> 9007199254740992 \<or> even x")
  case True
  then show ?thesis by (simp add: double_of_int_def)
next
  case False
  then have "9007199254740992 < \<bar>x\<bar>" by simp
  then show ?thesis
    by (auto simp: double_of_int_def safe_int_def max_safe_def sgn_if abs_if split: if_splits)
qed

subsection \<open>Encoding\<close>

datatype delta_kind = TextDeltaKind | ReasoningDeltaKind | ToolCallDeltaKind

definition min_run :: nat where
  "min_run = 3"

text \<open>\<open>isRecord\<close>; an array is a record that has none of the keys asked for.\<close>

fun is_record :: "json \<Rightarrow> json_fields option" where
  "is_record (JObj kvs) = Some kvs"
| "is_record (JArr _) = Some []"
| "is_record _ = None"

fun is_number :: "json option \<Rightarrow> bool" where
  "is_number (Some (JNum _)) = True"
| "is_number _ = False"

fun is_string :: "json option \<Rightarrow> bool" where
  "is_string (Some (JStr _)) = True"
| "is_string _ = False"

definition safe_at :: "json_fields \<Rightarrow> string \<Rightarrow> int option" where
  "safe_at kvs k = (case map_of kvs k of None \<Rightarrow> None | Some v \<Rightarrow> json_safe_int v)"

definition classify_chunk :: "json_fields \<Rightarrow> delta_kind option" where
  "classify_chunk c =
     (if map_of c ''type'' = Some (JStr ''text-delta'') then
        (if has_exact_keys c [''type'', ''index'', ''text''] \<and> is_string (map_of c ''text'')
         then Some TextDeltaKind else None)
      else if map_of c ''type'' = Some (JStr ''reasoning-delta'') then
        (if has_exact_keys c [''type'', ''index'', ''text''] \<and> is_string (map_of c ''text'')
         then Some ReasoningDeltaKind else None)
      else if map_of c ''type'' = Some (JStr ''tool-call-delta'') then
        (let shape_ok =
               has_exact_keys c [''type'', ''index'', ''id'', ''argumentsDelta'']
               \<or> (has_exact_keys c [''type'', ''index'', ''id'', ''name'', ''argumentsDelta'']
                   \<and> is_string (map_of c ''name''))
         in if shape_ok \<and> is_string (map_of c ''id'') \<and> is_string (map_of c ''argumentsDelta'')
            then Some ToolCallDeltaKind else None)
      else None)"

definition classify :: "json \<Rightarrow> delta_kind option" where
  "classify event =
     (case event of
        JObj ev \<Rightarrow>
          if map_of ev ''type'' \<noteq> Some (JStr ''assistant/chunk'') then None
          else if \<not> has_exact_keys ev [''type'', ''seq'', ''time'', ''data''] then None
          else
            (case (safe_at ev ''seq'', safe_at ev ''time'', map_of ev ''data'') of
               (Some n, Some _, Some data) \<Rightarrow>
                 if n < 0 then None
                 else
                   (case is_record data of
                      None \<Rightarrow> None
                    | Some d \<Rightarrow>
                        if \<not> has_exact_keys d [''turn'', ''step'', ''chunk''] then None
                        else if \<not> is_number (map_of d ''turn'') \<or> \<not> is_number (map_of d ''step'') then None
                        else
                          (case Option.bind (map_of d ''chunk'') is_record of
                             None \<Rightarrow> None
                           | Some c \<Rightarrow>
                               if \<not> is_number (map_of c ''index'') then None else classify_chunk c))
             | _ \<Rightarrow> None)
      | _ \<Rightarrow> None)"

text \<open>Selectors on classified events.\<close>

fun props_of :: "json \<Rightarrow> json_fields" where
  "props_of (JObj kvs) = kvs"
| "props_of _ = []"

definition property :: "json \<Rightarrow> string \<Rightarrow> json" where
  "property v k = (case map_of (props_of v) k of Some w \<Rightarrow> w | None \<Rightarrow> JNull)"

definition int_prop :: "json \<Rightarrow> string \<Rightarrow> int" where
  "int_prop v k = (case json_safe_int (property v k) of Some i \<Rightarrow> i | None \<Rightarrow> 0)"

abbreviation event_chunk :: "json \<Rightarrow> json" where
  "event_chunk e \<equiv> property (property e ''data'') ''chunk''"

definition continues :: "json \<Rightarrow> json \<Rightarrow> delta_kind \<Rightarrow> bool" where
  "continues prev nxt kind \<longleftrightarrow>
     (if int_prop nxt ''seq'' \<noteq> int_prop prev ''seq'' + 1 then False
      else if \<not> safe_int (double_of_int (int_prop nxt ''time'' - int_prop prev ''time'')) then False
      else if property (property nxt ''data'') ''turn'' \<noteq> property (property prev ''data'') ''turn''
              \<or> property (property nxt ''data'') ''step'' \<noteq> property (property prev ''data'') ''step'' then False
      else if property (event_chunk nxt) ''index'' \<noteq> property (event_chunk prev) ''index'' then False
      else if kind \<noteq> ToolCallDeltaKind then True
      else
        (let a = props_of (event_chunk prev); b = props_of (event_chunk nxt) in
         map_of a ''id'' = map_of b ''id'' \<and> has_own a ''name'' = has_own b ''name''
         \<and> map_of a ''name'' = map_of b ''name''))"

text \<open>\<open>run.slice(1).map((event, i) => event.time - run[i].time)\<close>\<close>

definition time_gaps :: "json list \<Rightarrow> json list" where
  "time_gaps run =
     map (\<lambda>(prev, nxt). jint (double_of_int (int_prop nxt ''time'' - int_prop prev ''time'')))
       (zip run (tl run))"

definition build_row :: "delta_kind \<Rightarrow> json list \<Rightarrow> json" where
  "build_row kind run =
     (let first = hd run;
          base = [(''turn'', property (property first ''data'') ''turn''), (''step'', property (property first ''data'') ''step''),
                  (''index'', property (event_chunk first) ''index''), (''dt'', JArr (time_gaps run))];
          envelope = (\<lambda>tag data. JObj [(''type'', JStr tag), (''seq0'', property first ''seq''),
                                      (''time0'', property first ''time''), (''data'', JObj data)])
      in case kind of
           ToolCallDeltaKind \<Rightarrow>
             (let call = props_of (event_chunk first) in
              envelope ''tool-call-chunks''
                (base @ [(''id'', property (event_chunk first) ''id'')]
                 @ (case map_of call ''name'' of Some n \<Rightarrow> [(''name'', n)] | None \<Rightarrow> [])
                 @ [(''args'', JArr (map (\<lambda>e. property (event_chunk e) ''argumentsDelta'') run))]))
         | TextDeltaKind \<Rightarrow>
             envelope ''text-chunks'' (base @ [(''texts'', JArr (map (\<lambda>e. property (event_chunk e) ''text'') run))])
         | ReasoningDeltaKind \<Rightarrow>
             envelope ''reasoning-chunks''
               (base @ [(''texts'', JArr (map (\<lambda>e. property (event_chunk e) ''text'') run))]))"

text \<open>\<open>out\<close> after \<open>flush\<close>; the caller resets \<open>kind\<close> and \<open>run\<close>.\<close>

definition flush_run :: "json list \<Rightarrow> delta_kind option \<Rightarrow> json list \<Rightarrow> json list" where
  "flush_run out kind run =
     (case kind of
        Some k \<Rightarrow> if min_run \<le> length run then out @ [build_row k run] else out @ run
      | None \<Rightarrow> out @ run)"

fun pack_loop :: "json list \<Rightarrow> delta_kind option \<Rightarrow> json list \<Rightarrow> json list \<Rightarrow> json list" where
  "pack_loop out kind run [] = flush_run out kind run"
| "pack_loop out kind run (e # es) =
     (case classify e of
        None \<Rightarrow> pack_loop (flush_run out kind run @ [e]) None [] es
      | Some k \<Rightarrow>
          if Some k = kind \<and> run \<noteq> [] \<and> continues (last run) e k
          then pack_loop out kind (run @ [e]) es
          else pack_loop (flush_run out kind run) (Some k) [e] es)"

definition pack_chunk_runs :: "json list \<Rightarrow> json list" where
  "pack_chunk_runs events = pack_loop [] None [] events"

subsection \<open>Decoding\<close>

datatype row_error =
    BadRowEnvelope | BadSeq0 | BadTime0 | BadRowData | BadDataKeys | BadCallIdentity
  | BadRunNumbers | BadPayload | BadGaps | GapsMismatch | SeqsLeaveSafeRange | TimesLeaveSafeRange

fun all_strings :: "json list \<Rightarrow> string list option" where
  "all_strings [] = Some []"
| "all_strings (JStr s # vs) = map_option ((#) s) (all_strings vs)"
| "all_strings (_ # vs) = None"

fun all_safe :: "json list \<Rightarrow> int list option" where
  "all_safe [] = Some []"
| "all_safe (v # vs) =
     (case json_safe_int v of None \<Rightarrow> None | Some i \<Rightarrow> map_option ((#) i) (all_safe vs))"

definition validate_run_data :: "json_fields \<Rightarrow> string \<Rightarrow> row_error + (string list \<times> int list)" where
  "validate_run_data data payload_key =
     (if \<not> is_number (map_of data ''turn'') \<or> \<not> is_number (map_of data ''step'')
         \<or> \<not> is_number (map_of data ''index'')
      then Inl BadRunNumbers
      else
        (case map_of data payload_key of
           Some (JArr (p # ps)) \<Rightarrow>
             (case all_strings (p # ps) of
                None \<Rightarrow> Inl BadPayload
              | Some payload \<Rightarrow>
                  (case map_of data ''dt'' of
                     Some (JArr ds) \<Rightarrow>
                       (case all_safe ds of
                          None \<Rightarrow> Inl BadGaps
                        | Some dt \<Rightarrow>
                            if length dt \<noteq> length payload - 1 then Inl GapsMismatch
                            else Inr (payload, dt))
                   | _ \<Rightarrow> Inl BadGaps))
         | _ \<Rightarrow> Inl BadPayload))"

fun times_stay_safe :: "int \<Rightarrow> int list \<Rightarrow> bool" where
  "times_stay_safe time [] = True"
| "times_stay_safe time (gap # gaps) =
     (let time' = double_of_int (time + gap) in
      if \<not> safe_int time' then False else times_stay_safe time' gaps)"

text \<open>
  What the validated row is read as: its anchors, its data and the member payload and gaps.
\<close>

record chunk_row =
  cr_seq0 :: int
  cr_time0 :: int
  cr_data :: json_fields
  cr_members :: "string list"
  cr_gaps :: "int list"

text \<open>The keys of the run data and the call identity, by row tag.\<close>

definition validate_row_data :: "string \<Rightarrow> json_fields \<Rightarrow> row_error + (string list \<times> int list)" where
  "validate_row_data tag data =
     (if tag = ''tool-call-chunks'' then
        (let with_name = has_exact_keys data
               [''turn'', ''step'', ''index'', ''id'', ''name'', ''dt'', ''args'']
         in if \<not> with_name
               \<and> \<not> has_exact_keys data [''turn'', ''step'', ''index'', ''id'', ''dt'', ''args'']
            then Inl BadDataKeys
            else if \<not> is_string (map_of data ''id'')
                 \<or> (with_name \<and> \<not> is_string (map_of data ''name''))
            then Inl BadCallIdentity
            else validate_run_data data ''args'')
      else if \<not> has_exact_keys data [''turn'', ''step'', ''index'', ''dt'', ''texts'']
      then Inl BadDataKeys
      else validate_run_data data ''texts'')"

definition validate_row :: "json_fields \<Rightarrow> string \<Rightarrow> row_error + chunk_row" where
  "validate_row value tag =
     (if \<not> has_exact_keys value [''type'', ''seq0'', ''time0'', ''data''] then Inl BadRowEnvelope
      else
        (case safe_at value ''seq0'' of
           None \<Rightarrow> Inl BadSeq0
         | Some seq0 \<Rightarrow>
             if seq0 < 0 then Inl BadSeq0
             else
               (case safe_at value ''time0'' of
                  None \<Rightarrow> Inl BadTime0
                | Some time0 \<Rightarrow>
                    (case Option.bind (map_of value ''data'') is_record of
                       None \<Rightarrow> Inl BadRowData
                     | Some data \<Rightarrow>
                         (case validate_row_data tag data of
                            Inl x \<Rightarrow> Inl x
                          | Inr (payload, dt) \<Rightarrow>
                              if \<not> safe_int (double_of_int (seq0 + int (length payload)) - 1)
                              then Inl SeqsLeaveSafeRange
                              else if \<not> times_stay_safe time0 dt then Inl TimesLeaveSafeRange
                              else Inr \<lparr>cr_seq0 = seq0, cr_time0 = time0, cr_data = data,
                                        cr_members = payload, cr_gaps = dt\<rparr>)))))"

definition member_chunk :: "string \<Rightarrow> json_fields \<Rightarrow> string \<Rightarrow> json" where
  "member_chunk tag data m =
     (let at_key = (\<lambda>k. case map_of data k of Some v \<Rightarrow> v | None \<Rightarrow> JNull) in
      if tag = ''text-chunks'' then
        JObj [(''type'', JStr ''text-delta''), (''index'', at_key ''index''), (''text'', JStr m)]
      else if tag = ''reasoning-chunks'' then
        JObj [(''type'', JStr ''reasoning-delta''), (''index'', at_key ''index''), (''text'', JStr m)]
      else
        JObj ([(''type'', JStr ''tool-call-delta''), (''index'', at_key ''index''), (''id'', at_key ''id'')]
              @ (case map_of data ''name'' of Some n \<Rightarrow> [(''name'', n)] | None \<Rightarrow> [])
              @ [(''argumentsDelta'', JStr m)]))"

text \<open>The members from position \<open>k\<close> on; \<open>time\<close> is the time of member \<open>k\<close>.\<close>

fun expand_members ::
  "string \<Rightarrow> json_fields \<Rightarrow> int \<Rightarrow> nat \<Rightarrow> int \<Rightarrow> int list \<Rightarrow> string list \<Rightarrow> json list"
where
  "expand_members tag data seq0 k time gaps [] = []"
| "expand_members tag data seq0 k time gaps (m # ms) =
     JObj [(''type'', JStr ''assistant/chunk''), (''seq'', jint (double_of_int (seq0 + int k))),
           (''time'', jint time),
           (''data'', JObj [(''turn'', property (JObj data) ''turn''), (''step'', property (JObj data) ''step''),
                          (''chunk'', member_chunk tag data m)])]
     # expand_members tag data seq0 (Suc k)
         (case gaps of [] \<Rightarrow> time | g # _ \<Rightarrow> double_of_int (time + g)) (tl gaps) ms"

definition expand_row :: "string \<Rightarrow> chunk_row \<Rightarrow> json list" where
  "expand_row tag row =
     expand_members tag (cr_data row) (cr_seq0 row) 0 (cr_time0 row) (cr_gaps row) (cr_members row)"

definition row_tags :: "string list" where
  "row_tags = [''text-chunks'', ''reasoning-chunks'', ''tool-call-chunks'']"

definition decode_storage_record :: "json \<Rightarrow> row_error + json list" where
  "decode_storage_record value =
     (case is_record value of
        None \<Rightarrow> Inr [value]
      | Some kvs \<Rightarrow>
          (case map_of kvs ''type'' of
             Some (JStr tag) \<Rightarrow>
               if tag \<notin> set row_tags then Inr [value]
               else
                 (case validate_row kvs tag of
                    Inl x \<Rightarrow> Inl x
                  | Inr row \<Rightarrow> Inr (expand_row tag row))
           | _ \<Rightarrow> Inr [value]))"

fun decode_all :: "json list \<Rightarrow> row_error + json list" where
  "decode_all [] = Inr []"
| "decode_all (r # rs) =
     (case decode_storage_record r of
        Inl x \<Rightarrow> Inl x
      | Inr es \<Rightarrow> (case decode_all rs of Inl x \<Rightarrow> Inl x | Inr fs \<Rightarrow> Inr (es @ fs)))"

subsection \<open>The typed view of a delta event\<close>

record delta =
  dl_seq :: int
  dl_time :: int
  dl_turn :: rat
  dl_step :: rat
  dl_index :: rat
  dl_kind :: delta_kind
  dl_id :: string
  dl_name :: "string option"
  dl_text :: string

definition delta_chunk :: "delta \<Rightarrow> json" where
  "delta_chunk d =
     (case dl_kind d of
        TextDeltaKind \<Rightarrow>
          JObj [(''type'', JStr ''text-delta''), (''index'', JNum (dl_index d)), (''text'', JStr (dl_text d))]
      | ReasoningDeltaKind \<Rightarrow>
          JObj [(''type'', JStr ''reasoning-delta''), (''index'', JNum (dl_index d)), (''text'', JStr (dl_text d))]
      | ToolCallDeltaKind \<Rightarrow>
          JObj ([(''type'', JStr ''tool-call-delta''), (''index'', JNum (dl_index d)), (''id'', JStr (dl_id d))]
                @ (case dl_name d of Some n \<Rightarrow> [(''name'', JStr n)] | None \<Rightarrow> [])
                @ [(''argumentsDelta'', JStr (dl_text d))]))"

definition delta_json :: "delta \<Rightarrow> json" where
  "delta_json d =
     JObj [(''type'', JStr ''assistant/chunk''), (''seq'', jint (dl_seq d)), (''time'', jint (dl_time d)),
           (''data'', JObj [(''turn'', JNum (dl_turn d)), (''step'', JNum (dl_step d)),
                          (''chunk'', delta_chunk d)])]"

fun json_num :: "json \<Rightarrow> rat" where
  "json_num (JNum q) = q"
| "json_num _ = 0"

fun json_str :: "json \<Rightarrow> string" where
  "json_str (JStr s) = s"
| "json_str _ = []"

definition view :: "delta_kind \<Rightarrow> json \<Rightarrow> delta" where
  "view k e =
     \<lparr>dl_seq = int_prop e ''seq'', dl_time = int_prop e ''time'',
      dl_turn = json_num (property (property e ''data'') ''turn''),
      dl_step = json_num (property (property e ''data'') ''step''),
      dl_index = json_num (property (event_chunk e) ''index''), dl_kind = k,
      dl_id = json_str (property (event_chunk e) ''id''),
      dl_name = map_option json_str (map_of (props_of (event_chunk e)) ''name''),
      dl_text = json_str (property (event_chunk e)
        (if k = ToolCallDeltaKind then ''argumentsDelta'' else ''text''))\<rparr>"

text \<open>Reading the properties of an event agrees with its view.\<close>

definition viewed :: "delta_kind \<Rightarrow> json \<Rightarrow> bool" where
  "viewed k e \<longleftrightarrow>
     (let d = view k e; c = event_chunk e in
      property e ''seq'' = jint (dl_seq d) \<and> property e ''time'' = jint (dl_time d) \<and>
      property (property e ''data'') ''turn'' = JNum (dl_turn d) \<and>
      property (property e ''data'') ''step'' = JNum (dl_step d) \<and>
      property c ''index'' = JNum (dl_index d) \<and>
      0 \<le> dl_seq d \<and> safe_int (dl_seq d) \<and> safe_int (dl_time d) \<and>
      (if k = ToolCallDeltaKind
       then map_of (props_of c) ''id'' = Some (JStr (dl_id d)) \<and>
         map_of (props_of c) ''name'' = map_option JStr (dl_name d) \<and>
         property c ''argumentsDelta'' = JStr (dl_text d)
       else property c ''text'' = JStr (dl_text d)) \<and>
      is_deep_equal_json e (delta_json d) \<and> map_of (props_of e) ''type'' = Some (JStr ''assistant/chunk''))"

lemma is_number_iff: "is_number v \<longleftrightarrow> (\<exists>q. v = Some (JNum q))"
  by (cases v rule: is_number.cases) auto

lemma is_string_iff: "is_string v \<longleftrightarrow> (\<exists>s. v = Some (JStr s))"
  by (cases v rule: is_string.cases) auto

text \<open>An object with exactly the keys of another one compares key by key.\<close>

lemma deep_equal_exact_keys:
  assumes "has_exact_keys kvs (map fst ws)" and "distinct (map fst ws)"
    and "\<forall>(k, w) \<in> set ws. \<exists>v. map_of kvs k = Some v \<and> is_deep_equal_json v w"
  shows "is_deep_equal_json (JObj kvs) (JObj ws)"
proof -
  have d: "distinct (map fst kvs)" and keys: "fst ` set kvs = set (map fst ws)"
    using has_exact_keys_set [OF assms(2,1)] by auto
  have "\<exists>w. map_of ws k = Some w \<and> is_deep_equal_json v w" if "(k, v) \<in> set kvs" for k v
  proof -
    from that keys have "k \<in> set (map fst ws)" by force
    then obtain w where w: "(k, w) \<in> set ws" by auto
    then have "map_of ws k = Some w" using assms(2) by simp
    moreover from w assms(3) obtain v' where "map_of kvs k = Some v'" "is_deep_equal_json v' w" by blast
    moreover from that d have "map_of kvs k = Some v" by simp
    ultimately show ?thesis by simp
  qed
  moreover have "length kvs = length ws" using assms(1) by (simp add: has_exact_keys_def)
  ultimately show ?thesis by (fastforce simp: list_all_iff)
qed

lemma classify_chunk_view:
  assumes "classify_chunk c = Some k" and "map_of c ''index'' = Some (JNum q)"
    and d: "dl_kind d = k" "dl_index d = q"
      "dl_id d = json_str (property (JObj c) ''id'')"
      "dl_name d = map_option json_str (map_of c ''name'')"
      "dl_text d = json_str (property (JObj c) (if k = ToolCallDeltaKind then ''argumentsDelta'' else ''text''))"
  shows "is_deep_equal_json (JObj c) (delta_chunk d) \<and>
    (if k = ToolCallDeltaKind
     then map_of c ''id'' = Some (JStr (dl_id d)) \<and> map_of c ''name'' = map_option JStr (dl_name d) \<and>
       property (JObj c) ''argumentsDelta'' = JStr (dl_text d)
     else property (JObj c) ''text'' = JStr (dl_text d))"
proof -
  consider (textual) s where "k \<noteq> ToolCallDeltaKind" "has_exact_keys c [''type'', ''index'', ''text'']"
      "map_of c ''text'' = Some (JStr s)"
      "map_of c ''type'' = Some (JStr (if k = TextDeltaKind then ''text-delta'' else ''reasoning-delta''))"
    | (call) i a where "k = ToolCallDeltaKind" "map_of c ''type'' = Some (JStr ''tool-call-delta'')"
      "has_exact_keys c [''type'', ''index'', ''id'', ''argumentsDelta'']"
      "map_of c ''id'' = Some (JStr i)" "map_of c ''argumentsDelta'' = Some (JStr a)"
    | (named) i a n where "k = ToolCallDeltaKind" "map_of c ''type'' = Some (JStr ''tool-call-delta'')"
      "has_exact_keys c [''type'', ''index'', ''id'', ''name'', ''argumentsDelta'']"
      "map_of c ''id'' = Some (JStr i)" "map_of c ''argumentsDelta'' = Some (JStr a)"
      "map_of c ''name'' = Some (JStr n)"
    using assms(1) unfolding classify_chunk_def
    by (auto simp: is_string_iff Let_def split: if_splits)
  then show ?thesis
  proof cases
    case textual
    have "delta_chunk d = JObj [(''type'', JStr (if k = TextDeltaKind then ''text-delta'' else ''reasoning-delta'')),
        (''index'', JNum q), (''text'', JStr s)]"
      using textual d by (cases k) (auto simp: delta_chunk_def property_def)
    moreover have "is_deep_equal_json (JObj c) \<dots>"
      using textual assms(2) by (intro deep_equal_exact_keys) auto
    ultimately show ?thesis using textual d by (simp add: property_def)
  next
    case call
    have name: "map_of c ''name'' = None"
    proof (rule ccontr)
      assume "map_of c ''name'' \<noteq> None"
      then have "''name'' \<in> fst ` set c" by (simp add: map_of_eq_None_iff)
      with has_exact_keys_set(2) [OF _ call(3)] show False by simp
    qed
    have "delta_chunk d = JObj [(''type'', JStr ''tool-call-delta''), (''index'', JNum q),
        (''id'', JStr i), (''argumentsDelta'', JStr a)]"
      using call d name by (simp add: delta_chunk_def property_def)
    moreover have "is_deep_equal_json (JObj c) \<dots>"
      using call assms(2) by (intro deep_equal_exact_keys) auto
    ultimately show ?thesis using call d name by (simp add: property_def)
  next
    case named
    have "delta_chunk d = JObj [(''type'', JStr ''tool-call-delta''), (''index'', JNum q),
        (''id'', JStr i), (''name'', JStr n), (''argumentsDelta'', JStr a)]"
      using named d by (simp add: delta_chunk_def property_def)
    moreover have "is_deep_equal_json (JObj c) \<dots>"
      using named assms(2) by (intro deep_equal_exact_keys) auto
    ultimately show ?thesis using named d by (simp add: property_def)
  qed
qed

lemma classify_viewed:
  assumes "classify e = Some k"
  shows "viewed k e"
proof -
  from assms obtain ev where e: "e = JObj ev" by (cases e) (simp_all add: classify_def)
  from assms obtain n t data d c q r s where
    ev: "map_of ev ''type'' = Some (JStr ''assistant/chunk'')"
      "has_exact_keys ev [''type'', ''seq'', ''time'', ''data'']"
      "safe_at ev ''seq'' = Some n" "safe_at ev ''time'' = Some t" "map_of ev ''data'' = Some data" "0 \<le> n"
    and d: "is_record data = Some d" "has_exact_keys d [''turn'', ''step'', ''chunk'']"
      "map_of d ''turn'' = Some (JNum q)" "map_of d ''step'' = Some (JNum r)"
    and c: "Option.bind (map_of d ''chunk'') is_record = Some c" "map_of c ''index'' = Some (JNum s)"
      "classify_chunk c = Some k"
    unfolding e classify_def
    by (auto simp: is_number_iff split: if_splits option.splits)
  from d have data: "data = JObj d" by (cases data) auto
  obtain ch where ch: "map_of d ''chunk'' = Some ch" "is_record ch = Some c"
    using c(1) by (cases "map_of d ''chunk''") auto
  with c(2) have chunk: "ch = JObj c" by (cases ch) auto
  have nums: "map_of ev ''seq'' = Some (jint n)" "safe_int n" "map_of ev ''time'' = Some (jint t)" "safe_int t"
    using ev(3,4) by (auto simp: safe_at_def json_safe_int_Some_iff split: option.splits)
  have pr: "property e ''data'' = JObj d" "event_chunk e = JObj c"
    by (simp_all add: e property_def ev data ch chunk)
  have pc: "property (JObj d) ''chunk'' = JObj c" by (simp add: property_def ch chunk)
  have top: "property e ''seq'' = jint n" "property e ''time'' = jint t"
      "property (JObj d) ''turn'' = JNum q" "property (JObj d) ''step'' = JNum r"
      "property (JObj c) ''index'' = JNum s"
    using nums d c(2) by (simp_all add: property_def e)
  have v: "dl_seq (view k e) = n" "dl_time (view k e) = t" "dl_turn (view k e) = q" "dl_step (view k e) = r"
      "dl_index (view k e) = s" "dl_kind (view k e) = k"
    using nums by (simp_all add: view_def int_prop_def pr(1) pc top)
  note cv = classify_chunk_view [OF c(3,2), of "view k e"]
  have "is_deep_equal_json (JObj c) (delta_chunk (view k e)) \<and>
    (if k = ToolCallDeltaKind
     then map_of c ''id'' = Some (JStr (dl_id (view k e))) \<and> map_of c ''name'' = map_option JStr (dl_name (view k e)) \<and>
       property (JObj c) ''argumentsDelta'' = JStr (dl_text (view k e))
     else property (JObj c) ''text'' = JStr (dl_text (view k e)))"
    by (rule cv) (simp_all add: v, simp_all add: view_def pr(1) pc)
  moreover from this have eq: "is_deep_equal_json (JObj c) (delta_chunk (view k e))" by blast
  have "is_deep_equal_json e (delta_json (view k e))"
  proof -
    have "is_deep_equal_json (JObj d) (JObj [(''turn'', JNum q), (''step'', JNum r), (''chunk'', delta_chunk (view k e))])"
      using d ch chunk eq by (intro deep_equal_exact_keys) auto
    then show ?thesis
      unfolding e delta_json_def v [unfolded e]
      using ev nums data by (intro deep_equal_exact_keys) (auto simp: e)
  qed
  ultimately show ?thesis
    using nums ev(1,6) unfolding viewed_def Let_def pr(1) pc v top by (simp add: e)
qed

subsection \<open>A packed run expands to its members\<close>

definition same_block :: "delta \<Rightarrow> delta \<Rightarrow> bool" where
  "same_block a b \<longleftrightarrow>
     dl_turn b = dl_turn a \<and> dl_step b = dl_step a \<and> dl_index b = dl_index a \<and> dl_kind b = dl_kind a
     \<and> (dl_kind a = ToolCallDeltaKind \<longrightarrow> dl_id b = dl_id a \<and> dl_name b = dl_name a)"

definition follows :: "delta \<Rightarrow> delta \<Rightarrow> bool" where
  "follows a b \<longleftrightarrow> dl_seq b = dl_seq a + 1 \<and> safe_int (dl_time b - dl_time a) \<and> same_block a b"

lemma inj_JStr_option [simp]: "map_option JStr x = map_option JStr y \<longleftrightarrow> x = y"
  by (cases x; cases y) auto

lemma continues_follows:
  assumes "viewed k a" and "viewed k b" and "continues a b k"
  shows "follows (view k a) (view k b)"
proof -
  have sel: "int_prop x ''seq'' = dl_seq (view k x)" "int_prop x ''time'' = dl_time (view k x)" for x
    by (simp_all add: view_def)
  have k: "dl_kind (view k x) = k" for x by (simp add: view_def)
  from assms(3) have c: "dl_seq (view k b) = dl_seq (view k a) + 1"
      "safe_int (dl_time (view k b) - dl_time (view k a))"
      "property (property b ''data'') ''turn'' = property (property a ''data'') ''turn''"
      "property (property b ''data'') ''step'' = property (property a ''data'') ''step''"
      "property (event_chunk b) ''index'' = property (event_chunk a) ''index''"
    and call: "k = ToolCallDeltaKind \<Longrightarrow>
      map_of (props_of (event_chunk a)) ''id'' = map_of (props_of (event_chunk b)) ''id'' \<and>
      map_of (props_of (event_chunk a)) ''name'' = map_of (props_of (event_chunk b)) ''name''"
    unfolding continues_def sel Let_def by (simp_all add: safe_double_of_int split: if_splits)
  show ?thesis
    using c call assms(1,2)
    unfolding follows_def same_block_def viewed_def Let_def k
    by auto
qed

text \<open>The data of the row that a run with first member \<open>d\<close> packs into.\<close>

definition row_tag :: "delta_kind \<Rightarrow> string" where
  "row_tag k = (case k of TextDeltaKind \<Rightarrow> ''text-chunks'' | ReasoningDeltaKind \<Rightarrow> ''reasoning-chunks''
                  | ToolCallDeltaKind \<Rightarrow> ''tool-call-chunks'')"

definition gaps_of :: "delta list \<Rightarrow> int list" where
  "gaps_of ds = map (\<lambda>(a, b). dl_time b - dl_time a) (zip ds (tl ds))"

definition row_data :: "delta list \<Rightarrow> json_fields" where
  "row_data ds =
     (let d = hd ds in
      [(''turn'', JNum (dl_turn d)), (''step'', JNum (dl_step d)), (''index'', JNum (dl_index d)),
       (''dt'', JArr (map jint (gaps_of ds)))]
      @ (if dl_kind d = ToolCallDeltaKind
         then [(''id'', JStr (dl_id d))]
              @ (case dl_name d of Some n \<Rightarrow> [(''name'', JStr n)] | None \<Rightarrow> [])
              @ [(''args'', JArr (map (\<lambda>d. JStr (dl_text d)) ds))]
         else [(''texts'', JArr (map (\<lambda>d. JStr (dl_text d)) ds))]))"

lemma member_chunk_delta:
  assumes "same_block (hd ds) d"
  shows "member_chunk (row_tag (dl_kind (hd ds))) (row_data ds) (dl_text d) = delta_chunk d"
  using assms
  by (cases "dl_kind (hd ds)"; cases "dl_name (hd ds)")
    (auto simp: member_chunk_def row_tag_def row_data_def delta_chunk_def same_block_def Let_def)

lemma row_data_place:
  "property (JObj (row_data ds)) ''turn'' = JNum (dl_turn (hd ds))"
  "property (JObj (row_data ds)) ''step'' = JNum (dl_step (hd ds))"
  by (simp_all add: property_def row_data_def Let_def)

lemma gaps_of_simps [simp]:
  "gaps_of [] = []" "gaps_of [d] = []"
  "gaps_of (a # b # ds) = (dl_time b - dl_time a) # gaps_of (b # ds)"
  by (simp_all add: gaps_of_def)

text \<open>Members and times within the safe range, so that no sum rounds.\<close>

definition safe_member :: "delta \<Rightarrow> bool" where
  "safe_member d \<longleftrightarrow> safe_int (dl_seq d) \<and> safe_int (dl_time d) \<and> 0 \<le> dl_seq d"

lemma safe_member_double:
  "safe_member d \<Longrightarrow> double_of_int (dl_seq d) = dl_seq d \<and> double_of_int (dl_time d) = dl_time d"
  by (auto simp: safe_member_def safe_int_def max_safe_def intro!: double_of_int_exact)

lemma delta_json_member:
  assumes "safe_member d" and "same_block (hd ds) d" and "dl_seq d = seq0 + int k"
  shows "delta_json d = JObj [(''type'', JStr ''assistant/chunk''), (''seq'', jint (double_of_int (seq0 + int k))),
      (''time'', jint (dl_time d)),
      (''data'', JObj [(''turn'', property (JObj (row_data ds)) ''turn''), (''step'', property (JObj (row_data ds)) ''step''),
        (''chunk'', member_chunk (row_tag (dl_kind (hd ds))) (row_data ds) (dl_text d))])]"
proof -
  have "double_of_int (seq0 + int k) = dl_seq d"
    using safe_member_double [OF assms(1)] by (simp add: assms(3))
  moreover have "dl_turn (hd ds) = dl_turn d" "dl_step (hd ds) = dl_step d"
    using assms(2) by (simp_all add: same_block_def)
  ultimately show ?thesis
    by (simp add: delta_json_def member_chunk_delta [OF assms(2)] row_data_place)
qed

lemma expand_members_deltas:
  assumes "successively follows (d # ds)" and "\<forall>x \<in> set (d # ds). safe_member x"
    and "\<forall>x \<in> set (d # ds). same_block (hd all) x" and "dl_seq d = seq0 + int k"
  shows "expand_members (row_tag (dl_kind (hd all))) (row_data all) seq0 k (dl_time d) (gaps_of (d # ds))
      (map dl_text (d # ds)) = map delta_json (d # ds)"
  using assms
proof (induction ds arbitrary: d k)
  case Nil
  have "safe_member d" "same_block (hd all) d" using Nil.prems(2,3) by simp_all
  note one = delta_json_member [OF this Nil.prems(4)]
  show ?case
    unfolding list.map expand_members.simps gaps_of_simps one ..
next
  case (Cons b ds)
  have blk: "same_block (hd all) d" and safe: "safe_member d" "safe_member b" using Cons.prems(2,3) by simp_all
  have fb: "follows d b" and rest: "successively follows (b # ds)" using Cons.prems(1) by simp_all
  have t: "double_of_int (dl_time d + (dl_time b - dl_time d)) = dl_time b"
    using safe_member_double [OF safe(2)] by simp
  have n: "dl_seq b = seq0 + int (Suc k)" using fb Cons.prems(4) by (simp add: follows_def)
  have tail: "expand_members (row_tag (dl_kind (hd all))) (row_data all) seq0 (Suc k) (dl_time b)
      (gaps_of (b # ds)) (map dl_text (b # ds)) = map delta_json (b # ds)"
    using rest n Cons.prems(2,3) by (intro Cons.IH) auto
  note one = delta_json_member [OF safe(1) blk Cons.prems(4)]
  show ?case
    unfolding gaps_of_simps list.map(2) [of dl_text d] expand_members.simps(2) list.case list.sel t tail
    unfolding list.map(2) [of delta_json d] one ..
qed

lemma time_gaps_view:
  "successively follows (map (view k) run) \<Longrightarrow> time_gaps run = map jint (gaps_of (map (view k) run))"
proof (induction run rule: induct_list012)
  case (3 a b run)
  have "\<bar>dl_time (view k b) - dl_time (view k a)\<bar> \<le> 9007199254740992"
    using 3(3) by (auto simp: follows_def safe_int_def max_safe_def)
  then have "double_of_int (int_prop b ''time'' - int_prop a ''time'') = dl_time (view k b) - dl_time (view k a)"
    by (subst double_of_int_exact) (simp_all add: view_def)
  moreover have "time_gaps (b # run) = map jint (gaps_of (map (view k) (b # run)))"
    using 3 by simp
  ultimately show ?case by (simp add: time_gaps_def del: of_int_diff)
qed (simp_all add: time_gaps_def)

lemma viewed_texts:
  "\<forall>e \<in> set run. viewed k e \<Longrightarrow>
   map (\<lambda>e. property (event_chunk e) (if k = ToolCallDeltaKind then ''argumentsDelta'' else ''text'')) run
     = map (\<lambda>d. JStr (dl_text d)) (map (view k) run)"
  by (induction run) (auto simp: viewed_def Let_def)

lemma build_row_view:
  assumes "run \<noteq> []" and "\<forall>e \<in> set run. viewed k e" and "successively follows (map (view k) run)"
  shows "build_row k run =
    JObj [(''type'', JStr (row_tag k)), (''seq0'', jint (dl_seq (view k (hd run)))),
          (''time0'', jint (dl_time (view k (hd run)))), (''data'', JObj (row_data (map (view k) run)))]"
proof -
  have kind: "dl_kind (view k e) = k" for e by (simp add: view_def)
  have hd: "hd (map (view k) run) = view k (hd run)" using assms(1) by (simp add: hd_map)
  have v: "viewed k (hd run)" using assms(1,2) by simp
  have id: "k = ToolCallDeltaKind \<Longrightarrow> property (event_chunk (hd run)) ''id'' = JStr (dl_id (view k (hd run)))"
    using v by (simp add: viewed_def Let_def property_def [of _ "''id''"])
  note texts = viewed_texts [OF assms(2)] and gaps = time_gaps_view [OF assms(3)]
  have tops: "property (hd run) ''seq'' = jint (dl_seq (view k (hd run)))"
      "property (hd run) ''time'' = jint (dl_time (view k (hd run)))"
      "property (property (hd run) ''data'') ''turn'' = JNum (dl_turn (view k (hd run)))"
      "property (property (hd run) ''data'') ''step'' = JNum (dl_step (view k (hd run)))"
      "property (event_chunk (hd run)) ''index'' = JNum (dl_index (view k (hd run)))"
      "k = ToolCallDeltaKind \<Longrightarrow>
        map_of (props_of (event_chunk (hd run))) ''name'' = map_option JStr (dl_name (view k (hd run)))"
    using v by (simp_all add: viewed_def Let_def)
  show ?thesis
  proof (cases "k = ToolCallDeltaKind")
    case True
    show ?thesis
      unfolding build_row_def Let_def tops(1-5) gaps row_data_def hd kind
      using True tops(6) id texts by (cases "dl_name (view k (hd run))") (simp_all add: row_tag_def)
  next
    case False
    show ?thesis
      unfolding build_row_def Let_def tops(1-5) gaps row_data_def hd kind
      using False texts by (cases k) (simp_all add: row_tag_def)
  qed
qed

lemma all_strings_map [simp]: "all_strings (map (\<lambda>d. JStr (f d)) ds) = Some (map f ds)"
  by (induction ds) simp_all

lemma all_safe_map [simp]: "\<forall>i \<in> set is. safe_int i \<Longrightarrow> all_safe (map jint is) = Some is"
  by (induction "is") simp_all

lemma length_gaps_of [simp]: "length (gaps_of ds) = length ds - 1"
  by (simp add: gaps_of_def)

lemma gaps_safe: "successively follows ds \<Longrightarrow> \<forall>i \<in> set (gaps_of ds). safe_int i"
proof (induction ds rule: induct_list012)
  case (3 a b ds)
  have "follows a b" and rest: "successively follows (b # ds)" using "3.prems" by simp_all
  then have "safe_int (dl_time b - dl_time a)" by (simp add: follows_def)
  with "3.IH"(2) [OF rest] show ?case by simp
qed simp_all

lemma times_stay_safe_gaps:
  "successively follows (d # ds) \<Longrightarrow> \<forall>x \<in> set (d # ds). safe_member x \<Longrightarrow>
   times_stay_safe (dl_time d) (gaps_of (d # ds))"
proof (induction ds arbitrary: d)
  case (Cons b ds)
  have "double_of_int (dl_time d + (dl_time b - dl_time d)) = dl_time b"
    using safe_member_double [of b] Cons.prems(2) by simp
  moreover have "safe_int (dl_time b)" using Cons.prems(2) by (simp add: safe_member_def)
  moreover have "times_stay_safe (dl_time b) (gaps_of (b # ds))"
    using Cons.prems by (intro Cons.IH) simp_all
  ultimately show ?case by simp
qed simp

lemma follows_seq: "successively follows ds \<Longrightarrow> i < length ds \<Longrightarrow> dl_seq (ds ! i) = dl_seq (hd ds) + int i"
proof (induction ds arbitrary: i rule: induct_list012)
  case (3 a b ds)
  then show ?case by (cases i) (auto simp: follows_def)
qed simp_all

lemma follows_block: "successively follows ds \<Longrightarrow> \<forall>d \<in> set ds. same_block (hd ds) d"
proof (induction ds rule: induct_list012)
  case (3 a b ds)
  then have "same_block a b" and "\<forall>d \<in> set (b # ds). same_block b d" by (simp_all add: follows_def)
  then show ?case by (auto simp: same_block_def)
qed (simp_all add: same_block_def)

lemma validate_run_data_row:
  assumes "ds \<noteq> []" and "successively follows ds"
  shows "validate_run_data (row_data ds) (if dl_kind (hd ds) = ToolCallDeltaKind then ''args'' else ''texts'')
    = Inr (map dl_text ds, gaps_of ds)"
proof -
  obtain d ds' where ds: "ds = d # ds'" using assms(1) by (cases ds) auto
  have strs: "all_strings (map (\<lambda>d. JStr (dl_text d)) ds) = Some (map dl_text ds)" by simp
  have "all_safe (map jint (gaps_of ds)) = Some (gaps_of ds)" using gaps_safe [OF assms(2)] by simp
  with strs show ?thesis
    unfolding ds validate_run_data_def
    by (cases "dl_name d") (simp_all add: row_data_def Let_def)
qed

lemma decode_built_row:
  assumes "ds \<noteq> []" and "successively follows ds" and "\<forall>d \<in> set ds. safe_member d"
  shows "decode_storage_record
      (JObj [(''type'', JStr (row_tag (dl_kind (hd ds)))), (''seq0'', jint (dl_seq (hd ds))),
             (''time0'', jint (dl_time (hd ds))), (''data'', JObj (row_data ds))])
    = Inr (map delta_json ds)"
proof -
  let ?k = "dl_kind (hd ds)" and ?d = "hd ds"
  let ?row = "[(''type'', JStr (row_tag ?k)), (''seq0'', jint (dl_seq ?d)),
             (''time0'', jint (dl_time ?d)), (''data'', JObj (row_data ds))]"
  have d: "ds = ?d # tl ds" "safe_member ?d" using assms(1,3) by auto
  have last: "safe_member (ds ! (length ds - 1))" using assms(1,3) by simp
  have "dl_seq ?d + int (length ds) \<le> max_safe + 1"
    using last follows_seq [OF assms(2), of "length ds - 1"] assms(1)
    by (auto simp: safe_member_def safe_int_def of_nat_diff Suc_le_eq)
  then have seqs: "safe_int (double_of_int (dl_seq ?d + int (length ds)) - 1)"
    using d(2) by (subst double_of_int_exact) (simp_all add: safe_member_def safe_int_def max_safe_def)
  have times: "times_stay_safe (dl_time ?d) (gaps_of ds)"
    using times_stay_safe_gaps [of ?d "tl ds"] assms d(1) by simp
  have data: "validate_row_data (row_tag ?k) (row_data ds) = Inr (map dl_text ds, gaps_of ds)"
  proof (cases "?k = ToolCallDeltaKind")
    case True
    have run: "validate_run_data (row_data ds) ''args'' = Inr (map dl_text ds, gaps_of ds)"
      using validate_run_data_row [OF assms(1,2)] True by simp
    have "row_tag ?k = ''tool-call-chunks''" by (simp add: row_tag_def True)
    then show ?thesis
      unfolding validate_row_data_def run using True
      by (cases "dl_name ?d") (simp_all add: row_data_def Let_def has_exact_keys_def has_own_def)
  next
    case False
    have run: "validate_run_data (row_data ds) ''texts'' = Inr (map dl_text ds, gaps_of ds)"
      using validate_run_data_row [OF assms(1,2)] False by simp
    have "row_tag ?k \<noteq> ''tool-call-chunks''" using False by (cases ?k) (simp_all add: row_tag_def)
    then show ?thesis
      unfolding validate_row_data_def run using False
      by (simp add: row_data_def Let_def has_exact_keys_def has_own_def)
  qed
  have anchors: "safe_at ?row ''seq0'' = Some (dl_seq ?d)" "safe_at ?row ''time0'' = Some (dl_time ?d)"
      "\<not> dl_seq ?d < 0" "Option.bind (map_of ?row ''data'') is_record = Some (row_data ds)"
      "has_exact_keys ?row [''type'', ''seq0'', ''time0'', ''data'']"
    using d(2) by (simp_all add: safe_at_def safe_member_def has_exact_keys_def has_own_def)
  have "validate_row ?row (row_tag ?k) = Inr \<lparr>cr_seq0 = dl_seq ?d, cr_time0 = dl_time ?d,
      cr_data = row_data ds, cr_members = map dl_text ds, cr_gaps = gaps_of ds\<rparr>"
    unfolding validate_row_def anchors using anchors(3,5) seqs times data by simp
  moreover have "row_tag ?k \<in> set row_tags" by (cases ?k) (simp_all add: row_tag_def row_tags_def)
  moreover have "map_of ?row ''type'' = Some (JStr (row_tag ?k))" by simp
  ultimately have "decode_storage_record (JObj ?row) =
      Inr (expand_members (row_tag ?k) (row_data ds) (dl_seq ?d) 0 (dl_time ?d) (gaps_of ds) (map dl_text ds))"
    unfolding decode_storage_record_def is_record.simps option.case json.case expand_row_def
    by (simp del: map_of.simps)
  also have "\<dots> = Inr (map delta_json ds)"
  proof -
    have "expand_members (row_tag ?k) (row_data ds) (dl_seq ?d) 0 (dl_time ?d) (gaps_of (?d # tl ds))
        (map dl_text (?d # tl ds)) = map delta_json (?d # tl ds)"
      using assms follows_block [OF assms(2)] d(1) by (intro expand_members_deltas) simp_all
    then show ?thesis by (simp flip: d(1))
  qed
  finally show ?thesis .
qed

subsection \<open>The round trip\<close>

definition is_row_tagged :: "json \<Rightarrow> bool" where
  "is_row_tagged v \<longleftrightarrow> list_ex (\<lambda>tag. map_of (props_of v) ''type'' = Some (JStr tag)) row_tags"

definition plain_json_event :: "json \<Rightarrow> bool" where
  "plain_json_event e \<longleftrightarrow> wf_json e \<and> \<not> is_row_tagged e"

lemma decode_plain: "\<not> is_row_tagged e \<Longrightarrow> decode_storage_record e = Inr [e]"
  by (cases e) (auto simp: decode_storage_record_def is_row_tagged_def list_ex_iff split: option.splits json.splits)

lemma decode_all_append:
  "decode_all (xs @ ys) =
     (case decode_all xs of
        Inl x \<Rightarrow> Inl x
      | Inr es \<Rightarrow> (case decode_all ys of Inl x \<Rightarrow> Inl x | Inr fs \<Rightarrow> Inr (es @ fs)))"
  by (induction xs) (auto split: sum.splits)

text \<open>The records \<open>out\<close> store the events \<open>evs\<close>, up to the order of object keys.\<close>

definition stores :: "json list \<Rightarrow> json list \<Rightarrow> bool" where
  "stores out evs \<longleftrightarrow> (\<exists>zs. decode_all out = Inr zs \<and> list_all2 is_deep_equal_json evs zs)"

lemma stores_Nil: "stores [] []"
  by (simp add: stores_def)

lemma stores_append: "stores xs es \<Longrightarrow> stores ys fs \<Longrightarrow> stores (xs @ ys) (es @ fs)"
  by (auto simp: stores_def decode_all_append intro: list_all2_appendI)

lemma stores_plain: "\<forall>e \<in> set es. plain_json_event e \<Longrightarrow> stores es es"
proof (induction es)
  case (Cons e es)
  then have "stores [e] [e]"
    by (simp add: stores_def decode_plain plain_json_event_def is_deep_equal_json_refl)
  with stores_append [of "[e]" "[e]" es es] Cons show ?case by simp
qed (rule stores_Nil)

definition run_ok :: "delta_kind option \<Rightarrow> json list \<Rightarrow> bool" where
  "run_ok kind run \<longleftrightarrow>
     (case kind of
        None \<Rightarrow> run = []
      | Some k \<Rightarrow> run \<noteq> [] \<and> (\<forall>e \<in> set run. classify e = Some k) \<and>
          successively (\<lambda>a b. continues a b k) run)"

lemma run_follows:
  assumes "run_ok (Some k) run"
  shows "successively follows (map (view k) run)" and "\<forall>e \<in> set run. viewed k e"
proof -
  show v: "\<forall>e \<in> set run. viewed k e" using assms classify_viewed by (auto simp: run_ok_def)
  have "successively (\<lambda>a b. continues a b k) run" using assms by (simp add: run_ok_def)
  then have "successively (\<lambda>a b. follows (view k a) (view k b)) run"
    by (rule successively_mono) (use v continues_follows in blast)
  then show "successively follows (map (view k) run)" by (simp only: successively_map)
qed

lemma stores_built_row:
  assumes "run_ok (Some k) run"
  shows "stores [build_row k run] run"
proof -
  note v = run_follows(2) [OF assms] and chain = run_follows(1) [OF assms]
  let ?ds = "map (view k) run"
  have ne: "?ds \<noteq> []" "run \<noteq> []" using assms by (auto simp: run_ok_def)
  have kind: "hd ?ds = view k (hd run)" "dl_kind (view k (hd run)) = k"
    using ne by (simp_all add: hd_map view_def)
  have safe: "\<forall>d \<in> set ?ds. safe_member d"
    using v by (auto simp: viewed_def Let_def safe_member_def)
  have "decode_storage_record (build_row k run) = Inr (map delta_json ?ds)"
    using decode_built_row [OF ne(1) chain safe] build_row_view [OF ne(2) v chain]
    unfolding kind by simp
  moreover have "list_all2 is_deep_equal_json run (map delta_json ?ds)"
    using v by (simp add: list_all2_conv_all_nth viewed_def Let_def)
  ultimately show ?thesis by (simp add: stores_def)
qed

lemma stores_flush:
  assumes "stores out evs" and "run_ok kind run" and "\<forall>e \<in> set run. plain_json_event e"
  shows "stores (flush_run out kind run) (evs @ run)"
  using assms stores_append [OF assms(1)] stores_plain stores_built_row
  by (auto simp: flush_run_def run_ok_def split: option.splits)

lemma pack_loop_stores:
  "stores out evs \<Longrightarrow> run_ok kind run \<Longrightarrow> \<forall>e \<in> set (run @ es). plain_json_event e \<Longrightarrow>
   stores (pack_loop out kind run es) (evs @ run @ es)"
proof (induction es arbitrary: out evs kind run)
  case Nil
  then show ?case using stores_flush by simp
next
  case (Cons e es)
  have flushed: "stores (flush_run out kind run) (evs @ run)"
    using Cons.prems by (intro stores_flush) auto
  show ?case
  proof (cases "classify e")
    case None
    have "stores [e] [e]" using Cons.prems(3) by (intro stores_plain) simp
    from stores_append [OF flushed this]
    have "stores (pack_loop (flush_run out kind run @ [e]) None [] es) (((evs @ run) @ [e]) @ [] @ es)"
      using Cons.prems(3) by (intro Cons.IH) (auto simp: run_ok_def)
    with None show ?thesis by simp
  next
    case (Some k)
    show ?thesis
    proof (cases "Some k = kind \<and> run \<noteq> [] \<and> continues (last run) e k")
      case True
      then have k: "kind = Some k" "continues (last run) e k" by auto
      then have "run_ok kind (run @ [e])"
        using Cons.prems(2) Some by (simp add: run_ok_def successively_append_iff)
      then have "stores (pack_loop out kind (run @ [e]) es) (evs @ (run @ [e]) @ es)"
        using Cons.prems by (intro Cons.IH) auto
      moreover have "run \<noteq> []" using True by simp
      ultimately show ?thesis using Some k by simp
    next
      case False
      have "stores (pack_loop (flush_run out kind run) (Some k) [e] es) ((evs @ run) @ [e] @ es)"
        using Cons.prems(3) Some flushed by (intro Cons.IH) (auto simp: run_ok_def)
      with False Some show ?thesis by (simp only: pack_loop.simps option.case) (auto)
    qed
  qed
qed

text \<open>
  Claim C6. Decoding the storage records of a packed batch of events gives the batch back,
  up to the order of object keys.
\<close>

theorem chunk_rows_round_trip:
  assumes "\<forall>e \<in> set events. plain_json_event e"
  shows "\<exists>out. decode_all (pack_chunk_runs events) = Inr out \<and> list_all2 is_deep_equal_json events out"
  using pack_loop_stores [OF stores_Nil, of None "[]" events] assms
  by (simp add: run_ok_def pack_chunk_runs_def stores_def)

definition sample_delta :: "int \<Rightarrow> json" where
  "sample_delta n =
     JObj [(''seq'', jint n), (''type'', JStr ''assistant/chunk''), (''time'', jint (10 + n)),
       (''data'', JObj [(''turn'', jint 1), (''step'', jint 1),
          (''chunk'', JObj [(''type'', JStr ''text-delta''), (''index'', jint 0), (''text'', JStr ''a'')])])]"

lemma chunk_rows_round_trip_witness:
  "length (pack_chunk_runs (map sample_delta [4, 5, 6])) = 1 \<and>
   (\<exists>out. decode_all (pack_chunk_runs (map sample_delta [4, 5, 6])) = Inr out \<and>
      list_all2 is_deep_equal_json (map sample_delta [4, 5, 6]) out)"
proof
  show "length (pack_chunk_runs (map sample_delta [4, 5, 6])) = 1" by code_simp
  show "\<exists>out. decode_all (pack_chunk_runs (map sample_delta [4, 5, 6])) = Inr out \<and>
      list_all2 is_deep_equal_json (map sample_delta [4, 5, 6]) out"
    by (rule chunk_rows_round_trip) code_simp
qed

text \<open>
  The sum of the sequence bound is rounded before one is subtracted, so the check passes
  for a run whose last member stands one past the safe range.
\<close>

definition unsafe_row :: json where
  "unsafe_row =
     JObj [(''type'', JStr ''text-chunks''), (''seq0'', jint 9007199254740990), (''time0'', jint 0),
       (''data'', JObj [(''turn'', jint 1), (''step'', jint 1), (''index'', jint 0),
          (''dt'', JArr [jint 0, jint 0]), (''texts'', JArr [JStr [], JStr [], JStr []])])]"

theorem row_bound_admits_unsafe_seq:
  "\<exists>a b c. decode_storage_record unsafe_row = Inr [a, b, c] \<and>
     property c ''seq'' = jint 9007199254740992 \<and> json_safe_int (property c ''seq'') = None"
proof -
  have "safe_int_of 9007199254740990 = Some 9007199254740990" "safe_int_of 0 = Some 0"
    using safe_int_of_of_int [of 9007199254740990] safe_int_of_of_int [of 0]
    by (simp_all add: safe_int_def max_safe_def)
  moreover have "safe_int_of 9007199254740992 = None"
    using safe_int_of_of_int [of 9007199254740992] by (simp add: safe_int_def max_safe_def)
  ultimately show ?thesis
    by (simp add: decode_storage_record_def unsafe_row_def row_tags_def validate_row_def
        validate_row_data_def validate_run_data_def has_exact_keys_def has_own_def safe_at_def
        double_of_int_def safe_int_def max_safe_def expand_row_def property_def)
qed

end
