(* ===== verification/Goal_Fold.thy ===== *)
theory Goal_Fold
  imports Session_Types "HOL-Library.List_Lexorder" "HOL-Library.Char_ord"
begin

section \<open>The durable goal: strict decoder and replay fold\<close>

text \<open>
  \<^verbatim>\<open>packages/goal/goal/src/fold.ts\<close> with its vocabulary (\<^verbatim>\<open>types.ts\<close>, \<^verbatim>\<open>domain.ts\<close>,
  \<^verbatim>\<open>runtime.ts\<close>): a goal is a sequence of \<open>goal/change\<close> events, each carrying the whole
  state after a mutation, and of user messages that admit one continuation round. The
  decoder turns the JSON payload into a change or throws; the fold checks every change and
  every round against the state so far. A throw is an \<open>Inl\<close> of the error; JSON values that
  may be absent are options. Goal messages carry integer revisions and rounds.
\<close>

subsection \<open>Strings\<close>

text \<open>\<open>String.prototype.trim\<close> on code units below 256, and the code of a blocker:
  \<open>/^[a-z][a-z0-9]*(?:-[a-z0-9]+)*$/\<close> as the automaton of that expression; its flag says
  that the previous character was not a dash.\<close>

definition js_space :: "char \<Rightarrow> bool" where
  "js_space c \<longleftrightarrow> of_char c \<in> {9, 10, 11, 12, 13, 32, 160 :: nat}"

definition js_trim :: "string \<Rightarrow> string" where
  "js_trim s = rev (dropWhile js_space (rev (dropWhile js_space s)))"

definition lower_letter :: "char \<Rightarrow> bool" where
  "lower_letter c \<longleftrightarrow> 97 \<le> (of_char c :: nat) \<and> (of_char c :: nat) \<le> 122"

definition digit_char :: "char \<Rightarrow> bool" where
  "digit_char c \<longleftrightarrow> 48 \<le> (of_char c :: nat) \<and> (of_char c :: nat) \<le> 57"

fun kebab_rest :: "bool \<Rightarrow> string \<Rightarrow> bool" where
  "kebab_rest dashable [] = dashable"
| "kebab_rest dashable (c # cs) =
     (if lower_letter c \<or> digit_char c then kebab_rest True cs
      else if c = CHR ''-'' \<and> dashable then kebab_rest False cs
      else False)"

fun lower_kebab :: "string \<Rightarrow> bool" where
  "lower_kebab [] = False"
| "lower_kebab (c # cs) = (lower_letter c \<and> kebab_rest True cs)"

text \<open>\<open>Object.keys(value).sort().join(',')\<close>.\<close>

fun join_commas :: "string list \<Rightarrow> string" where
  "join_commas [] = []"
| "join_commas [k] = k"
| "join_commas (k # ks) = k @ '','' @ join_commas ks"

definition joined_keys :: "json_fields \<Rightarrow> string" where
  "joined_keys kvs = join_commas (sort (map fst kvs))"

subsection \<open>Goals and their changes\<close>

record goal_ref =
  gr_id :: string
  gr_revision :: int

datatype goal_phase = Goal_Active | Goal_Paused | Goal_Blocked | Goal_Complete

record block_reason =
  br_code :: string
  br_message :: string

record goal_snapshot =
  gs_id :: string
  gs_revision :: int
  gs_objective :: string
  gs_phase :: goal_phase
  gs_blocked :: "block_reason option"
  gs_max_rounds :: int

text \<open>The operations that write a snapshot; \<open>clear\<close> writes a tombstone.\<close>

datatype snapshot_op = Op_Create | Op_Edit | Op_Pause | Op_Resume | Op_Complete | Op_Block

record snapshot_change =
  sc_op :: snapshot_op
  sc_goal :: goal_snapshot
  sc_rounds :: int
  sc_created :: int
  sc_updated :: int

datatype goal_change =
    Snapshot_Change snapshot_change
  | Clear_Change goal_ref int

datatype goal_fold_error =
    NotPositive string
  | NotNonNegative string
  | ReasonKeys
  | ReasonCode
  | ReasonMessage
  | GoalNotRecord
  | GoalIdEmpty
  | ObjectiveInvalid
  | PhaseInvalid
  | GoalKeys goal_phase
  | RefKeys
  | RefIdEmpty
  | UnsupportedVersion
  | ClearKeys
  | OperationInvalid
  | ChangeKeys
  | UpdatedBeforeCreated
  | SourceInvalid
  | DefinitionChanged snapshot_op
  | NotNextRevision "snapshot_op option"
  | LacksUpdatedAt
  | CountersChanged snapshot_op
  | EditChangedPhase
  | PauseInvalid
  | ResumeInvalid
  | CompleteInvalid
  | BlockInvalid
  | CreateAsTransition
  | ClearWithoutGoal
  | ClearTooEarly
  | CreateNotFresh
  | OpWithoutGoal snapshot_op
  | KindInvalid int
  | RoundNotNext int

definition phase_name :: "goal_phase \<Rightarrow> string" where
  "phase_name p =
     (case p of
        Goal_Active \<Rightarrow> ''active'' | Goal_Paused \<Rightarrow> ''paused''
      | Goal_Blocked \<Rightarrow> ''blocked'' | Goal_Complete \<Rightarrow> ''complete'')"

definition phases :: "(string \<times> goal_phase) list" where
  "phases =
     [(''active'', Goal_Active), (''paused'', Goal_Paused), (''blocked'', Goal_Blocked),
      (''complete'', Goal_Complete)]"

definition op_name :: "snapshot_op \<Rightarrow> string" where
  "op_name p =
     (case p of
        Op_Create \<Rightarrow> ''create'' | Op_Edit \<Rightarrow> ''edit'' | Op_Pause \<Rightarrow> ''pause''
      | Op_Resume \<Rightarrow> ''resume'' | Op_Complete \<Rightarrow> ''complete'' | Op_Block \<Rightarrow> ''block'')"

definition snapshot_operations :: "(string \<times> snapshot_op) list" where
  "snapshot_operations =
     [(''create'', Op_Create), (''edit'', Op_Edit), (''pause'', Op_Pause),
      (''resume'', Op_Resume), (''complete'', Op_Complete), (''block'', Op_Block)]"

definition goal_change_version :: rat where
  "goal_change_version = 1"

subsection \<open>Decoding\<close>

fun as_record :: "json option \<Rightarrow> json_fields option" where
  "as_record (Some (JObj kvs)) = Some kvs"
| "as_record _ = None"

fun as_string :: "json option \<Rightarrow> string option" where
  "as_string (Some (JStr s)) = Some s"
| "as_string _ = None"

definition positive_integer :: "json option \<Rightarrow> string \<Rightarrow> goal_fold_error + int" where
  "positive_integer v field =
     (case Option.bind v json_safe_int of
        None \<Rightarrow> Inl (NotPositive field)
      | Some i \<Rightarrow> if i < 1 then Inl (NotPositive field) else Inr i)"

definition non_negative_integer :: "json option \<Rightarrow> string \<Rightarrow> goal_fold_error + int" where
  "non_negative_integer v field =
     (case Option.bind v json_safe_int of
        None \<Rightarrow> Inl (NotNonNegative field)
      | Some i \<Rightarrow> if i < 0 then Inl (NotNonNegative field) else Inr i)"

definition decode_block_reason :: "json option \<Rightarrow> goal_fold_error + block_reason" where
  "decode_block_reason v =
     (case as_record v of
        None \<Rightarrow> Inl ReasonKeys
      | Some kvs \<Rightarrow>
          if joined_keys kvs \<noteq> ''code,message'' then Inl ReasonKeys
          else
            (case as_string (map_of kvs ''code'') of
               None \<Rightarrow> Inl ReasonCode
             | Some c \<Rightarrow>
                 if \<not> lower_kebab c then Inl ReasonCode
                 else
                   (case as_string (map_of kvs ''message'') of
                      None \<Rightarrow> Inl ReasonMessage
                    | Some m \<Rightarrow>
                        if js_trim m = [] \<or> m \<noteq> js_trim m then Inl ReasonMessage
                        else Inr \<lparr>br_code = c, br_message = m\<rparr>)))"

definition goal_keys :: "goal_phase \<Rightarrow> string" where
  "goal_keys p =
     (if p = Goal_Blocked then ''blockedReason,id,maxGoalRounds,objective,phase,revision''
      else ''id,maxGoalRounds,objective,phase,revision'')"

definition decode_snapshot :: "json option \<Rightarrow> goal_fold_error + goal_snapshot" where
  "decode_snapshot v =
     (case as_record v of
        None \<Rightarrow> Inl GoalNotRecord
      | Some kvs \<Rightarrow>
          (case as_string (map_of kvs ''id'') of
             None \<Rightarrow> Inl GoalIdEmpty
           | Some i \<Rightarrow>
               if i = [] then Inl GoalIdEmpty
               else
                 (case as_string (map_of kvs ''objective'') of
                    None \<Rightarrow> Inl ObjectiveInvalid
                  | Some obj \<Rightarrow>
                      if js_trim obj = [] \<or> obj \<noteq> js_trim obj then Inl ObjectiveInvalid
                      else
                        (case Option.bind (as_string (map_of kvs ''phase'')) (map_of phases) of
                           None \<Rightarrow> Inl PhaseInvalid
                         | Some p \<Rightarrow>
                             if joined_keys kvs \<noteq> goal_keys p then Inl (GoalKeys p)
                             else
                               and_then (positive_integer (map_of kvs ''revision'') ''goal.revision'')
                                 (\<lambda>r. and_then (positive_integer (map_of kvs ''maxGoalRounds'') ''goal.maxGoalRounds'')
                                 (\<lambda>m. and_then
                                        (if p = Goal_Blocked
                                         then map_sum id Some (decode_block_reason (map_of kvs ''blockedReason''))
                                         else Inr None)
                                 (\<lambda>b. Inr \<lparr>gs_id = i, gs_revision = r, gs_objective = obj, gs_phase = p,
                                           gs_blocked = b, gs_max_rounds = m\<rparr>)))))))"

definition decode_ref :: "json option \<Rightarrow> goal_fold_error + goal_ref" where
  "decode_ref v =
     (case as_record v of
        None \<Rightarrow> Inl RefKeys
      | Some kvs \<Rightarrow>
          if joined_keys kvs \<noteq> ''id,revision'' then Inl RefKeys
          else
            (case as_string (map_of kvs ''id'') of
               None \<Rightarrow> Inl RefIdEmpty
             | Some i \<Rightarrow>
                 if i = [] then Inl RefIdEmpty
                 else and_then (positive_integer (map_of kvs ''revision'') ''cleared.revision'')
                        (\<lambda>r. Inr \<lparr>gr_id = i, gr_revision = r\<rparr>)))"

definition decode_clear :: "json_fields \<Rightarrow> goal_fold_error + goal_change option" where
  "decode_clear kvs =
     (if joined_keys kvs \<noteq> ''cleared,clearedAt,kind,operation,version'' then Inl ClearKeys
      else and_then (decode_ref (map_of kvs ''cleared''))
             (\<lambda>r. and_then (non_negative_integer (map_of kvs ''clearedAt'') ''clearedAt'')
             (\<lambda>t. Inr (Some (Clear_Change r t)))))"

definition decode_snapshot_change :: "json_fields \<Rightarrow> snapshot_op \<Rightarrow> goal_fold_error + goal_change option" where
  "decode_snapshot_change kvs p =
     (if joined_keys kvs \<noteq> ''createdAt,goal,kind,operation,roundsStarted,updatedAt,version''
      then Inl ChangeKeys
      else and_then (non_negative_integer (map_of kvs ''createdAt'') ''createdAt'')
             (\<lambda>c. and_then (non_negative_integer (map_of kvs ''updatedAt'') ''updatedAt'')
             (\<lambda>u. if u < c then Inl UpdatedBeforeCreated
                   else and_then (decode_snapshot (map_of kvs ''goal''))
                          (\<lambda>g. and_then (non_negative_integer (map_of kvs ''roundsStarted'') ''roundsStarted'')
                          (\<lambda>n. Inr (Some (Snapshot_Change
                                \<lparr>sc_op = p, sc_goal = g, sc_rounds = n, sc_created = c, sc_updated = u\<rparr>)))))))"

definition decode_goal_change :: "json option \<Rightarrow> goal_fold_error + goal_change option" where
  "decode_goal_change v =
     (case as_record v of
        None \<Rightarrow> Inr None
      | Some kvs \<Rightarrow>
          if as_string (map_of kvs ''kind'') \<noteq> Some ''goal/change'' then Inr None
          else if map_of kvs ''version'' \<noteq> Some (JNum goal_change_version) then Inl UnsupportedVersion
          else if as_string (map_of kvs ''operation'') = Some ''clear'' then decode_clear kvs
          else
            (case Option.bind (as_string (map_of kvs ''operation'')) (map_of snapshot_operations) of
               None \<Rightarrow> Inl OperationInvalid
             | Some p \<Rightarrow> decode_snapshot_change kvs p))"

subsection \<open>The fold\<close>

record goal_fold_state =
  gf_goal :: "goal_snapshot option"
  gf_rounds :: int
  gf_created :: "int option"
  gf_updated :: "int option"
  gf_last_ref :: "goal_ref option"
  gf_seen :: "string set"

definition empty_goal_fold_state :: goal_fold_state where
  "empty_goal_fold_state =
     \<lparr>gf_goal = None, gf_rounds = 0, gf_created = None, gf_updated = None, gf_last_ref = None,
      gf_seen = {}\<rparr>"

text \<open>The fields of a goal source, \<open>None\<close> for any other source.\<close>

definition goal_source :: "message_source \<Rightarrow> goal_fold_error + (string \<times> int \<times> int) option" where
  "goal_source src =
     (case src of
        GoalSrc i r n \<Rightarrow>
          if i = [] \<or> \<not> safe_int r \<or> r < 1 \<or> \<not> safe_int n \<or> n < 1 then Inl SourceInvalid
          else Inr (Some (i, r, n))
      | _ \<Rightarrow> Inr None)"

definition same_definition :: "goal_snapshot \<Rightarrow> goal_snapshot \<Rightarrow> bool" where
  "same_definition current new \<longleftrightarrow>
     gs_objective new = gs_objective current \<and> gs_max_rounds new = gs_max_rounds current"

definition is_next_revision :: "goal_snapshot \<Rightarrow> goal_ref \<Rightarrow> bool" where
  "is_next_revision current r \<longleftrightarrow> gr_id r = gs_id current \<and> gr_revision r = gs_revision current + 1"

definition snapshot_ref :: "goal_snapshot \<Rightarrow> goal_ref" where
  "snapshot_ref g = \<lparr>gr_id = gs_id g, gr_revision = gs_revision g\<rparr>"

definition goal_change_ref :: "goal_change \<Rightarrow> goal_ref" where
  "goal_change_ref c =
     (case c of Clear_Change r _ \<Rightarrow> r | Snapshot_Change sc \<Rightarrow> snapshot_ref (sc_goal sc))"

definition validate_phase_step ::
  "goal_fold_state \<Rightarrow> snapshot_op \<Rightarrow> goal_snapshot \<Rightarrow> goal_snapshot \<Rightarrow> goal_fold_error option"
where
  "validate_phase_step st p new current =
     (case p of
        Op_Edit \<Rightarrow>
          if gs_phase new \<noteq> gs_phase current \<or> gs_blocked new \<noteq> gs_blocked current
          then Some EditChangedPhase else None
      | Op_Pause \<Rightarrow>
          if \<not> same_definition current new then Some (DefinitionChanged p)
          else if gs_phase current \<noteq> Goal_Active \<or> gs_phase new \<noteq> Goal_Paused then Some PauseInvalid
          else None
      | Op_Resume \<Rightarrow>
          if \<not> same_definition current new then Some (DefinitionChanged p)
          else if gs_phase current \<notin> {Goal_Active, Goal_Paused, Goal_Blocked}
                  \<or> gs_phase new \<noteq> Goal_Active \<or> gf_rounds st \<ge> gs_max_rounds new
          then Some ResumeInvalid else None
      | Op_Complete \<Rightarrow>
          if \<not> same_definition current new then Some (DefinitionChanged p)
          else if gs_phase current = Goal_Complete \<or> gs_phase new \<noteq> Goal_Complete then Some CompleteInvalid
          else None
      | Op_Block \<Rightarrow>
          if \<not> same_definition current new then Some (DefinitionChanged p)
          else if gs_phase current \<noteq> Goal_Active \<or> gs_phase new \<noteq> Goal_Blocked then Some BlockInvalid
          else None
      | Op_Create \<Rightarrow> Some CreateAsTransition)"

definition validate_snapshot_transition ::
  "goal_fold_state \<Rightarrow> snapshot_change \<Rightarrow> goal_snapshot \<Rightarrow> goal_fold_error option"
where
  "validate_snapshot_transition st c current =
     (if \<not> is_next_revision current (snapshot_ref (sc_goal c)) then Some (NotNextRevision (Some (sc_op c)))
      else
        (case gf_updated st of
           None \<Rightarrow> Some LacksUpdatedAt
         | Some u \<Rightarrow>
             if Some (sc_created c) \<noteq> gf_created st \<or> sc_updated c < u \<or> sc_rounds c \<noteq> gf_rounds st
             then Some (CountersChanged (sc_op c))
             else validate_phase_step st (sc_op c) (sc_goal c) current))"

definition install_snapshot :: "goal_fold_state \<Rightarrow> snapshot_change \<Rightarrow> goal_fold_state" where
  "install_snapshot st c =
     st\<lparr>gf_goal := Some (sc_goal c), gf_rounds := sc_rounds c, gf_created := Some (sc_created c),
        gf_updated := Some (sc_updated c), gf_last_ref := Some (snapshot_ref (sc_goal c))\<rparr>"

definition apply_clear :: "goal_fold_state \<Rightarrow> goal_ref \<Rightarrow> int \<Rightarrow> goal_fold_error + goal_fold_state" where
  "apply_clear st r t =
     (case gf_goal st of
        None \<Rightarrow> Inl ClearWithoutGoal
      | Some current \<Rightarrow>
          if \<not> is_next_revision current r then Inl (NotNextRevision None)
          else
            (case gf_updated st of
               None \<Rightarrow> Inl LacksUpdatedAt
             | Some u \<Rightarrow>
                 if t < u then Inl ClearTooEarly
                 else Inr (st\<lparr>gf_goal := None, gf_rounds := 0, gf_created := None,
                              gf_updated := None, gf_last_ref := Some r\<rparr>)))"

definition apply_create :: "goal_fold_state \<Rightarrow> snapshot_change \<Rightarrow> goal_fold_error + goal_fold_state" where
  "apply_create st c =
     (if gs_revision (sc_goal c) \<noteq> 1 \<or> gs_phase (sc_goal c) \<noteq> Goal_Active \<or> sc_rounds c \<noteq> 0
         \<or> (case gf_goal st of None \<Rightarrow> False | Some g \<Rightarrow> gs_phase g \<noteq> Goal_Complete)
         \<or> gs_id (sc_goal c) \<in> gf_seen st
      then Inl CreateNotFresh
      else Inr (install_snapshot (st\<lparr>gf_seen := insert (gs_id (sc_goal c)) (gf_seen st)\<rparr>) c))"

definition apply_goal_change :: "goal_fold_state \<Rightarrow> goal_change \<Rightarrow> goal_fold_error + goal_fold_state" where
  "apply_goal_change st c =
     (case c of
        Clear_Change r t \<Rightarrow> apply_clear st r t
      | Snapshot_Change sc \<Rightarrow>
          if sc_op sc = Op_Create then apply_create st sc
          else
            (case gf_goal st of
               None \<Rightarrow> Inl (OpWithoutGoal (sc_op sc))
             | Some current \<Rightarrow>
                 (case validate_snapshot_transition st sc current of
                    Some x \<Rightarrow> Inl x
                  | None \<Rightarrow> Inr (install_snapshot st sc))))"

definition admit_round ::
  "goal_fold_state \<Rightarrow> int \<Rightarrow> (string \<times> int \<times> int) option \<Rightarrow> goal_fold_error + goal_fold_state"
where
  "admit_round st q src =
     (case src of
        None \<Rightarrow> Inr st
      | Some (i, r, n) \<Rightarrow>
          (case gf_goal st of
             None \<Rightarrow> Inl (RoundNotNext q)
           | Some g \<Rightarrow>
               if gs_phase g \<noteq> Goal_Active \<or> i \<noteq> gs_id g \<or> r \<noteq> gs_revision g
                  \<or> n \<noteq> gf_rounds st + 1 \<or> n > gs_max_rounds g
               then Inl (RoundNotNext q)
               else Inr (st\<lparr>gf_rounds := n\<rparr>)))"

definition apply_goal_event :: "goal_fold_state \<Rightarrow> session_event \<Rightarrow> goal_fold_error + goal_fold_state" where
  "apply_goal_event st e =
     (case ev_data e of
        GoalChange v \<Rightarrow>
          and_then (decode_goal_change (Some v))
            (\<lambda>c. case c of None \<Rightarrow> Inl (KindInvalid (ev_seq e)) | Some c \<Rightarrow> apply_goal_change st c)
      | UserMessage m \<Rightarrow> and_then (goal_source (um_source m)) (admit_round st (ev_seq e))
      | _ \<Rightarrow> Inr st)"

text \<open>\<open>foldGoal\<close>: the projection of the state after the whole log.\<close>

record folded_goal =
  fg_goal :: "goal_snapshot option"
  fg_rounds :: int
  fg_created :: "int option"
  fg_updated :: "int option"
  fg_last_ref :: "goal_ref option"

definition goal_step ::
  "session_event list \<Rightarrow> nat \<Rightarrow> goal_fold_state \<Rightarrow> session_event \<Rightarrow> goal_fold_error + goal_fold_state"
where
  "goal_step evs i st e = apply_goal_event st e"

definition fold_goal :: "session_event list \<Rightarrow> goal_fold_error + folded_goal" where
  "fold_goal evs =
     (case replay goal_step empty_goal_fold_state evs of
        (Some x, _, _) \<Rightarrow> Inl x
      | (None, _, st) \<Rightarrow>
          Inr \<lparr>fg_goal = gf_goal st, fg_rounds = gf_rounds st, fg_created = gf_created st,
               fg_updated = gf_updated st, fg_last_ref = gf_last_ref st\<rparr>)"

text \<open>\<open>applyGoalProjection\<close> of \<^verbatim>\<open>goal/src/index.ts\<close>: the light last-wins fold of the
  projection unit, which keeps its state on anything it cannot decode.\<close>

record goal_projection =
  gp_goal :: goal_snapshot
  gp_rounds :: int
  gp_created :: int
  gp_updated :: int

definition apply_goal_projection :: "goal_projection option \<Rightarrow> session_event \<Rightarrow> goal_projection option" where
  "apply_goal_projection st e =
     (case ev_data e of
        GoalChange v \<Rightarrow>
          (case decode_goal_change (Some v) of
             Inl _ \<Rightarrow> st
           | Inr None \<Rightarrow> st
           | Inr (Some (Clear_Change _ _)) \<Rightarrow> None
           | Inr (Some (Snapshot_Change c)) \<Rightarrow>
               Some \<lparr>gp_goal = sc_goal c, gp_rounds = sc_rounds c, gp_created = sc_created c,
                     gp_updated = sc_updated c\<rparr>)
      | _ \<Rightarrow> st)"

subsection \<open>The JSON of a change\<close>

text \<open>The object literals that \<open>GoalService\<close> appends, in their order of construction.\<close>

definition encode_ref :: "goal_ref \<Rightarrow> json" where
  "encode_ref r = JObj [(''id'', JStr (gr_id r)), (''revision'', jint (gr_revision r))]"

definition encode_reason :: "block_reason \<Rightarrow> json" where
  "encode_reason b = JObj [(''code'', JStr (br_code b)), (''message'', JStr (br_message b))]"

definition encode_snapshot :: "goal_snapshot \<Rightarrow> json" where
  "encode_snapshot g =
     JObj ([(''id'', JStr (gs_id g)), (''revision'', jint (gs_revision g)),
            (''objective'', JStr (gs_objective g)), (''phase'', JStr (phase_name (gs_phase g))),
            (''maxGoalRounds'', jint (gs_max_rounds g))]
           @ (case gs_blocked g of None \<Rightarrow> [] | Some b \<Rightarrow> [(''blockedReason'', encode_reason b)]))"

definition encode_goal_change :: "goal_change \<Rightarrow> json" where
  "encode_goal_change c =
     (case c of
        Clear_Change r t \<Rightarrow>
          JObj [(''kind'', JStr ''goal/change''), (''version'', JNum goal_change_version),
                (''operation'', JStr ''clear''), (''cleared'', encode_ref r), (''clearedAt'', jint t)]
      | Snapshot_Change sc \<Rightarrow>
          JObj [(''kind'', JStr ''goal/change''), (''version'', JNum goal_change_version),
                (''operation'', JStr (op_name (sc_op sc))), (''goal'', encode_snapshot (sc_goal sc)),
                (''roundsStarted'', jint (sc_rounds sc)), (''createdAt'', jint (sc_created sc)),
                (''updatedAt'', jint (sc_updated sc))])"

subsection \<open>Well-formed changes\<close>

definition wf_normalized :: "string \<Rightarrow> bool" where
  "wf_normalized s \<longleftrightarrow> js_trim s \<noteq> [] \<and> s = js_trim s"

definition wf_positive :: "int \<Rightarrow> bool" where
  "wf_positive i \<longleftrightarrow> safe_int i \<and> 1 \<le> i"

definition wf_count :: "int \<Rightarrow> bool" where
  "wf_count i \<longleftrightarrow> safe_int i \<and> 0 \<le> i"

definition wf_ref :: "goal_ref \<Rightarrow> bool" where
  "wf_ref r \<longleftrightarrow> gr_id r \<noteq> [] \<and> wf_positive (gr_revision r)"

definition wf_reason :: "block_reason \<Rightarrow> bool" where
  "wf_reason b \<longleftrightarrow> lower_kebab (br_code b) \<and> wf_normalized (br_message b)"

definition wf_snapshot :: "goal_snapshot \<Rightarrow> bool" where
  "wf_snapshot g \<longleftrightarrow>
     gs_id g \<noteq> [] \<and> wf_positive (gs_revision g) \<and> wf_normalized (gs_objective g)
     \<and> wf_positive (gs_max_rounds g)
     \<and> (gs_phase g = Goal_Blocked \<longleftrightarrow> gs_blocked g \<noteq> None)
     \<and> (case gs_blocked g of None \<Rightarrow> True | Some b \<Rightarrow> wf_reason b)"

definition wf_change :: "goal_change \<Rightarrow> bool" where
  "wf_change c =
     (case c of
        Clear_Change r t \<Rightarrow> wf_ref r \<and> wf_count t
      | Snapshot_Change sc \<Rightarrow>
          wf_snapshot (sc_goal sc) \<and> wf_count (sc_rounds sc) \<and> wf_count (sc_created sc)
          \<and> wf_count (sc_updated sc) \<and> sc_created sc \<le> sc_updated sc)"

subsection \<open>Decoding inverts encoding\<close>

lemma as_record_Some_iff: "as_record v = Some kvs \<longleftrightarrow> v = Some (JObj kvs)"
  by (cases v rule: as_record.cases) auto

lemma as_string_Some_iff: "as_string v = Some s \<longleftrightarrow> v = Some (JStr s)"
  by (cases v rule: as_string.cases) auto

lemma bind_json_safe_int: "Option.bind v json_safe_int = Some i \<longleftrightarrow> v = Some (jint i) \<and> safe_int i"
  by (cases v) (simp_all add: json_safe_int_Some_iff)

lemma positive_integer_Inr_iff: "positive_integer v f = Inr i \<longleftrightarrow> v = Some (jint i) \<and> wf_positive i"
  using bind_json_safe_int [of v]
  by (auto simp: positive_integer_def wf_positive_def split: option.splits)

lemma non_negative_integer_Inr_iff:
  "non_negative_integer v f = Inr i \<longleftrightarrow> v = Some (jint i) \<and> wf_count i"
  using bind_json_safe_int [of v]
  by (auto simp: non_negative_integer_def wf_count_def split: option.splits)

lemmas integer_iffs = positive_integer_Inr_iff non_negative_integer_Inr_iff

lemma positive_integer_jint [simp]: "wf_positive i \<Longrightarrow> positive_integer (Some (jint i)) f = Inr i"
  by (simp add: positive_integer_Inr_iff)

lemma non_negative_integer_jint [simp]: "wf_count i \<Longrightarrow> non_negative_integer (Some (jint i)) f = Inr i"
  by (simp add: non_negative_integer_Inr_iff)

lemma phases_phase_name [simp]: "map_of phases (phase_name p) = Some p"
  by (cases p) (simp_all add: phases_def phase_name_def)

lemma operations_op_name [simp]: "map_of snapshot_operations (op_name p) = Some p"
  by (cases p) (simp_all add: snapshot_operations_def op_name_def)

lemma op_name_not_clear [simp]: "op_name p \<noteq> ''clear''"
  by (cases p) (simp_all add: op_name_def)

text \<open>The sorted key lists of the encoded objects.\<close>

lemma sorted_keys:
  "join_commas (sort [''code'', ''message'']) = ''code,message''"
  "join_commas (sort [''id'', ''revision'']) = ''id,revision''"
  "join_commas (sort [''id'', ''revision'', ''objective'', ''phase'', ''maxGoalRounds'']) =
     goal_keys Goal_Active"
  "join_commas (sort [''id'', ''revision'', ''objective'', ''phase'', ''maxGoalRounds'', ''blockedReason'']) =
     goal_keys Goal_Blocked"
  "join_commas (sort [''kind'', ''version'', ''operation'', ''cleared'', ''clearedAt'']) =
     ''cleared,clearedAt,kind,operation,version''"
  "join_commas (sort [''kind'', ''version'', ''operation'', ''goal'', ''roundsStarted'', ''createdAt'',
     ''updatedAt'']) = ''createdAt,goal,kind,operation,roundsStarted,updatedAt,version''"
  by code_simp+

lemma wf_normalizedD: "wf_normalized s \<Longrightarrow> js_trim s = s \<and> s \<noteq> []"
  by (auto simp: wf_normalized_def)

lemma decode_encode_reason:
  "wf_reason b \<Longrightarrow> decode_block_reason (Some (encode_reason b)) = Inr b"
  by (simp add: decode_block_reason_def encode_reason_def joined_keys_def sorted_keys
      wf_reason_def wf_normalizedD)

lemma decode_encode_ref: "wf_ref r \<Longrightarrow> decode_ref (Some (encode_ref r)) = Inr r"
  by (simp add: decode_ref_def encode_ref_def joined_keys_def sorted_keys wf_ref_def)

lemma joined_keys_encode_snapshot:
  assumes "encode_snapshot g = JObj kvs" and "wf_snapshot g"
  shows "joined_keys kvs = goal_keys (gs_phase g)"
proof (cases "gs_blocked g")
  case None
  with assms(2) have "gs_phase g \<noteq> Goal_Blocked" by (simp add: wf_snapshot_def)
  with assms(1) None show ?thesis
    by (auto simp: encode_snapshot_def joined_keys_def sorted_keys goal_keys_def)
next
  case (Some b)
  with assms(2) have "gs_phase g = Goal_Blocked" by (simp add: wf_snapshot_def)
  with assms(1) Some show ?thesis
    by (auto simp: encode_snapshot_def joined_keys_def sorted_keys goal_keys_def)
qed

lemma decode_encode_snapshot:
  assumes "wf_snapshot g"
  shows "decode_snapshot (Some (encode_snapshot g)) = Inr g"
proof -
  obtain kvs where kvs: "encode_snapshot g = JObj kvs"
    by (simp add: encode_snapshot_def)
  then have fields: "map_of kvs ''id'' = Some (JStr (gs_id g))"
    "map_of kvs ''revision'' = Some (jint (gs_revision g))"
    "map_of kvs ''objective'' = Some (JStr (gs_objective g))"
    "map_of kvs ''phase'' = Some (JStr (phase_name (gs_phase g)))"
    "map_of kvs ''maxGoalRounds'' = Some (jint (gs_max_rounds g))"
    and blocked: "map_of kvs ''blockedReason'' = map_option encode_reason (gs_blocked g)"
    by (auto simp: encode_snapshot_def split: option.splits)
  have "(if gs_phase g = Goal_Blocked
         then map_sum id Some (decode_block_reason (map_of kvs ''blockedReason'')) else Inr None)
        = Inr (gs_blocked g)"
    using assms blocked by (cases "gs_blocked g") (simp_all add: wf_snapshot_def decode_encode_reason)
  then show ?thesis
    using assms fields joined_keys_encode_snapshot [OF kvs assms]
    by (simp add: kvs decode_snapshot_def wf_snapshot_def wf_normalizedD)
qed

text \<open>
  Claim C32. Decoding the JSON of a well-formed goal change gives the change back.
\<close>

theorem goal_change_round_trip:
  assumes "wf_change c"
  shows "decode_goal_change (Some (encode_goal_change c)) = Inr (Some c)"
proof (cases c)
  case (Clear_Change r t)
  with assms show ?thesis
    by (simp add: encode_goal_change_def decode_goal_change_def decode_clear_def joined_keys_def
        sorted_keys wf_change_def decode_encode_ref)
next
  case (Snapshot_Change sc)
  with assms show ?thesis
    by (simp add: encode_goal_change_def decode_goal_change_def decode_snapshot_change_def
        joined_keys_def sorted_keys wf_change_def decode_encode_snapshot)
qed

definition demo_goal :: "goal_phase \<Rightarrow> int \<Rightarrow> goal_snapshot" where
  "demo_goal p r = \<lparr>gs_id = ''g1'', gs_revision = r, gs_objective = ''ship'', gs_phase = p,
     gs_blocked = None, gs_max_rounds = 3\<rparr>"

definition demo_change :: "snapshot_op \<Rightarrow> goal_phase \<Rightarrow> int \<Rightarrow> int \<Rightarrow> goal_change" where
  "demo_change p ph r n =
     Snapshot_Change \<lparr>sc_op = p, sc_goal = demo_goal ph r, sc_rounds = n, sc_created = 1, sc_updated = 2\<rparr>"

text \<open>A goal created, run for two rounds, then paused.\<close>

definition demo_log :: "session_event list" where
  "demo_log =
     [plain_event 0 0 (GoalChange (encode_goal_change (demo_change Op_Create Goal_Active 1 0))),
      plain_event 1 0 (UserMessage \<lparr>um_id = ''m1'', um_content = [], um_source = GoalSrc ''g1'' 1 1\<rparr>),
      plain_event 2 0 (UserMessage \<lparr>um_id = ''m2'', um_content = [], um_source = GoalSrc ''g1'' 1 2\<rparr>),
      plain_event 3 0 (GoalChange (encode_goal_change (demo_change Op_Pause Goal_Paused 2 2)))]"

definition demo_folded :: folded_goal where
  "demo_folded = \<lparr>fg_goal = Some (demo_goal Goal_Paused 2), fg_rounds = 2, fg_created = Some 1,
     fg_updated = Some 2, fg_last_ref = Some \<lparr>gr_id = ''g1'', gr_revision = 2\<rparr>\<rparr>"

lemma demo_fold: "fold_goal demo_log = Inr demo_folded"
  by code_simp

lemma goal_change_round_trip_witness:
  "decode_goal_change (Some (encode_goal_change (demo_change Op_Pause Goal_Paused 2 2))) =
     Inr (Some (demo_change Op_Pause Goal_Paused 2 2))"
  by (rule goal_change_round_trip) code_simp

lemma decode_block_reason_wf: "decode_block_reason v = Inr b \<Longrightarrow> wf_reason b"
  by (auto simp: decode_block_reason_def wf_reason_def wf_normalized_def
      split: option.splits if_splits)

lemma decode_ref_wf: "decode_ref v = Inr r \<Longrightarrow> wf_ref r"
  by (auto simp: decode_ref_def wf_ref_def and_then_Inr_iff integer_iffs split: option.splits if_splits)

lemma map_sum_Some_Inr_iff: "map_sum id Some r = Inr b \<longleftrightarrow> (\<exists>x. r = Inr x \<and> b = Some x)"
  by (cases r) auto

lemma decode_snapshot_wf:
  assumes "decode_snapshot v = Inr g"
  shows "wf_snapshot g"
proof -
  from assms obtain kvs i obj p r m b where
    vals: "i \<noteq> []" "js_trim obj \<noteq> []" "obj = js_trim obj" "wf_positive r" "wf_positive m"
    and b: "(if p = Goal_Blocked then map_sum id Some (decode_block_reason (map_of kvs ''blockedReason''))
             else Inr None) = Inr b"
    and g: "g = \<lparr>gs_id = i, gs_revision = r, gs_objective = obj, gs_phase = p, gs_blocked = b,
                 gs_max_rounds = m\<rparr>"
    unfolding decode_snapshot_def option_case_Inr_iff if_Inl_Inr_iff and_then_Inr_iff integer_iffs
    by blast
  have "(p = Goal_Blocked \<longleftrightarrow> b \<noteq> None) \<and> (case b of None \<Rightarrow> True | Some x \<Rightarrow> wf_reason x)"
    using b by (auto simp: map_sum_Some_Inr_iff dest: decode_block_reason_wf split: if_splits)
  with vals g show ?thesis by (simp add: wf_snapshot_def wf_normalized_def)
qed

lemma decode_goal_change_wf:
  assumes "decode_goal_change v = Inr (Some c)"
  shows "wf_change c"
proof -
  from assms obtain kvs where "decode_clear kvs = Inr (Some c) \<or> (\<exists>p. decode_snapshot_change kvs p = Inr (Some c))"
    by (auto simp: decode_goal_change_def split: option.splits if_splits)
  then show ?thesis
    by (auto simp: decode_clear_def decode_snapshot_change_def and_then_Inr_iff integer_iffs
        wf_change_def dest: decode_ref_wf decode_snapshot_wf)
qed

subsection \<open>The state invariant\<close>

definition goal_ok :: "goal_fold_state \<Rightarrow> bool" where
  "goal_ok st \<longleftrightarrow>
     (case gf_goal st of
        None \<Rightarrow> gf_rounds st = 0 \<and> gf_created st = None \<and> gf_updated st = None
      | Some g \<Rightarrow>
          wf_snapshot g \<and> wf_count (gf_rounds st) \<and> gs_id g \<in> gf_seen st
          \<and> gf_last_ref st = Some (snapshot_ref g)
          \<and> (\<exists>c u. gf_created st = Some c \<and> gf_updated st = Some u \<and> wf_count c \<and> wf_count u \<and> c \<le> u))"

lemma goal_ok_empty: "goal_ok empty_goal_fold_state"
  by (simp add: goal_ok_def empty_goal_fold_state_def)

lemma goal_ok_install:
  assumes "wf_change (Snapshot_Change c)" and "gs_id (sc_goal c) \<in> gf_seen st"
  shows "goal_ok (install_snapshot st c)"
  using assms by (auto simp: goal_ok_def install_snapshot_def wf_change_def)

lemma validate_snapshot_transition_id:
  "validate_snapshot_transition st c current = None \<Longrightarrow> gs_id (sc_goal c) = gs_id current"
  by (auto simp: validate_snapshot_transition_def is_next_revision_def snapshot_ref_def
      split: if_splits)

lemma apply_goal_change_ok:
  assumes "goal_ok st" and "wf_change c" and "apply_goal_change st c = Inr st'"
  shows "goal_ok st'"
proof (cases c)
  case (Clear_Change r t)
  with assms(3) show ?thesis
    by (auto simp: apply_goal_change_def apply_clear_def goal_ok_def option_case_Inr_iff)
next
  case (Snapshot_Change sc)
  show ?thesis
  proof (cases "sc_op sc = Op_Create")
    case True
    with assms Snapshot_Change show ?thesis
      by (auto simp: apply_goal_change_def apply_create_def intro: goal_ok_install)
  next
    case False
    with assms(3) Snapshot_Change obtain current where cur: "gf_goal st = Some current"
      and v: "validate_snapshot_transition st sc current = None" and st': "st' = install_snapshot st sc"
      by (auto simp: apply_goal_change_def split: option.splits)
    have "gs_id (sc_goal sc) \<in> gf_seen st"
      using assms(1) cur validate_snapshot_transition_id [OF v] by (simp add: goal_ok_def)
    with assms(2) Snapshot_Change st' show ?thesis by (simp add: goal_ok_install)
  qed
qed

lemma goal_source_count: "goal_source src = Inr (Some (i, r, n)) \<Longrightarrow> wf_count n"
  by (auto simp: goal_source_def wf_count_def split: message_source.splits if_splits)

lemma admit_round_cases [consumes 1, case_names other admitted]:
  assumes "admit_round st q src = Inr st'"
  obtains "src = None" "st' = st"
  | g i r n where "src = Some (i, r, n)" "gf_goal st = Some g" "gs_phase g = Goal_Active" "i = gs_id g"
      "r = gs_revision g" "n = gf_rounds st + 1" "n \<le> gs_max_rounds g" "st' = st\<lparr>gf_rounds := n\<rparr>"
  using assms by (auto simp: admit_round_def split: option.splits prod.splits if_splits)

lemma apply_goal_event_cases [consumes 1, case_names change round other]:
  assumes "apply_goal_event st e = Inr st'"
  obtains v c where "ev_data e = GoalChange v" "decode_goal_change (Some v) = Inr (Some c)"
      "wf_change c" "apply_goal_change st c = Inr st'"
  | m g i r n where "ev_data e = UserMessage m" "goal_source (um_source m) = Inr (Some (i, r, n))"
      "gf_goal st = Some g" "gs_phase g = Goal_Active" "i = gs_id g"
      "r = gs_revision g" "n = gf_rounds st + 1" "n \<le> gs_max_rounds g" "wf_count n"
      "st' = st\<lparr>gf_rounds := n\<rparr>"
  | "st' = st" "\<And>v. ev_data e \<noteq> GoalChange v"
     "\<And>m. ev_data e = UserMessage m \<Longrightarrow> goal_source (um_source m) = Inr None"
proof (cases "ev_data e")
  case (GoalChange v)
  with assms obtain c where "decode_goal_change (Some v) = Inr (Some c)" "apply_goal_change st c = Inr st'"
    by (auto simp: apply_goal_event_def and_then_Inr_iff split: option.splits)
  with GoalChange show ?thesis using that(1) decode_goal_change_wf by blast
next
  case (UserMessage m)
  with assms obtain src where src: "goal_source (um_source m) = Inr src"
    and "admit_round st (ev_seq e) src = Inr st'"
    by (auto simp: apply_goal_event_def and_then_Inr_iff)
  from this(2) show ?thesis
  proof (cases rule: admit_round_cases)
    case other
    with UserMessage src show ?thesis using that(3) by simp
  next
    case (admitted g i r n)
    with UserMessage src show ?thesis using that(2) goal_source_count by blast
  qed
qed (use assms that(3) in \<open>simp_all add: apply_goal_event_def\<close>)

lemma apply_goal_event_ok:
  assumes "goal_ok st" and "apply_goal_event st e = Inr st'"
  shows "goal_ok st'"
  using assms(2)
proof (cases rule: apply_goal_event_cases)
  case (change v c)
  with assms(1) show ?thesis by (blast intro: apply_goal_change_ok)
next
  case (round m g i r n)
  with assms(1) show ?thesis by (simp add: goal_ok_def)
qed (use assms(1) in simp)

interpretation goal_log: log_replay goal_step empty_goal_fold_state "\<lambda>_. goal_ok"
  by unfold_locales (auto simp: goal_step_def intro: goal_ok_empty apply_goal_event_ok)

subsection \<open>What a foldable log says\<close>

text \<open>The changes of a log, and the goal messages counted over a log read backwards.\<close>

fun event_change :: "session_event \<Rightarrow> goal_change option" where
  "event_change e =
     (case ev_data e of
        GoalChange v \<Rightarrow> (case decode_goal_change (Some v) of Inr c \<Rightarrow> c | Inl _ \<Rightarrow> None)
      | _ \<Rightarrow> None)"

definition goal_changes :: "session_event list \<Rightarrow> goal_change list" where
  "goal_changes evs = List.map_filter event_change evs"

definition is_goal_message :: "session_event \<Rightarrow> bool" where
  "is_goal_message e =
     (case ev_data e of
        UserMessage m \<Rightarrow> (case um_source m of GoalSrc _ _ _ \<Rightarrow> True | _ \<Rightarrow> False)
      | _ \<Rightarrow> False)"

definition starts_over :: "session_event \<Rightarrow> bool" where
  "starts_over e =
     (case event_change e of
        Some (Clear_Change _ _) \<Rightarrow> True
      | Some (Snapshot_Change c) \<Rightarrow> sc_op c = Op_Create
      | None \<Rightarrow> False)"

fun rounds_back_to :: "(session_event \<Rightarrow> bool) \<Rightarrow> session_event list \<Rightarrow> int" where
  "rounds_back_to stop [] = 0"
| "rounds_back_to stop (e # es) =
     (if stop e then 0 else (if is_goal_message e then 1 else 0) + rounds_back_to stop es)"

lemma rounds_back_to_nonneg: "0 \<le> rounds_back_to stop es"
  by (induction es) auto

declare event_change.simps [simp del]

lemma goal_changes_simps [simp]:
  "goal_changes [] = []"
  "goal_changes (evs @ [e]) = goal_changes evs @ (case event_change e of None \<Rightarrow> [] | Some c \<Rightarrow> [c])"
  by (auto simp: goal_changes_def List.map_filter_def split: option.splits)

lemma goal_source_None_iff:
  "goal_source src = Inr None \<longleftrightarrow> (\<forall>i r n. src \<noteq> GoalSrc i r n)"
  by (auto simp: goal_source_def split: message_source.splits)

lemma goal_source_Some:
  "goal_source src = Inr (Some (i, r, n)) \<Longrightarrow> src = GoalSrc i r n"
  by (auto simp: goal_source_def split: message_source.splits if_splits)

text \<open>One step of the fold, in terms of the event's change and of whether it is a goal message.\<close>

lemma goal_step_cases [consumes 1, case_names create later clear round other]:
  assumes "goal_step evs k st e = Inr st'"
  obtains c where "event_change e = Some (Snapshot_Change c)" "sc_op c = Op_Create"
      "\<not> is_goal_message e" "gs_id (sc_goal c) \<notin> gf_seen st" "sc_rounds c = 0" "gs_revision (sc_goal c) = 1"
      "st' = install_snapshot (st\<lparr>gf_seen := insert (gs_id (sc_goal c)) (gf_seen st)\<rparr>) c"
  | c g where "event_change e = Some (Snapshot_Change c)" "sc_op c \<noteq> Op_Create"
      "\<not> is_goal_message e" "gf_goal st = Some g" "validate_snapshot_transition st c g = None"
      "gs_id (sc_goal c) = gs_id g" "gs_revision (sc_goal c) = gs_revision g + 1"
      "sc_rounds c = gf_rounds st" "st' = install_snapshot st c"
  | r t g where "event_change e = Some (Clear_Change r t)" "\<not> is_goal_message e" "gf_goal st = Some g"
      "gr_id r = gs_id g" "gr_revision r = gs_revision g + 1"
      "st' = st\<lparr>gf_goal := None, gf_rounds := 0, gf_created := None, gf_updated := None,
                gf_last_ref := Some r\<rparr>"
  | g where "event_change e = None" "is_goal_message e" "gf_goal st = Some g"
      "\<And>v. ev_data e \<noteq> GoalChange v" "gf_rounds st + 1 \<le> gs_max_rounds g" "gs_phase g = Goal_Active"
      "st' = st\<lparr>gf_rounds := gf_rounds st + 1\<rparr>"
  | "event_change e = None" "\<not> is_goal_message e" "\<And>v. ev_data e \<noteq> GoalChange v" "st' = st"
proof -
  from assms have "apply_goal_event st e = Inr st'" by (simp add: goal_step_def)
  then show thesis
  proof (cases rule: apply_goal_event_cases)
    case (change v c)
    have ec: "event_change e = Some c" "\<not> is_goal_message e"
      using change(1,2) by (simp_all add: event_change.simps is_goal_message_def)
    show ?thesis
    proof (cases c)
      case (Clear_Change r t)
      with change(4) obtain g where "gf_goal st = Some g" "is_next_revision g r"
        "st' = st\<lparr>gf_goal := None, gf_rounds := 0, gf_created := None, gf_updated := None,
                  gf_last_ref := Some r\<rparr>"
        by (auto simp: apply_goal_change_def apply_clear_def option_case_Inr_iff)
      with ec Clear_Change show ?thesis by (intro that(3)) (auto simp: is_next_revision_def)
    next
      case (Snapshot_Change sc)
      show ?thesis
      proof (cases "sc_op sc = Op_Create")
        case True
        with change(4) Snapshot_Change ec show ?thesis
          by (intro that(1)) (auto simp: apply_goal_change_def apply_create_def)
      next
        case False
        with change(4) Snapshot_Change obtain g where g: "gf_goal st = Some g"
          "validate_snapshot_transition st sc g = None" "st' = install_snapshot st sc"
          by (auto simp: apply_goal_change_def split: option.splits)
        from g(2) have "is_next_revision g (snapshot_ref (sc_goal sc)) \<and> sc_rounds sc = gf_rounds st"
          unfolding validate_snapshot_transition_def by (auto split: if_splits option.splits)
        with g ec Snapshot_Change False show ?thesis
          by (intro that(2)) (auto simp: is_next_revision_def snapshot_ref_def)
      qed
    qed
  next
    case (round m g i r n)
    then have "um_source m = GoalSrc i r n" using goal_source_Some by blast
    with round show ?thesis
      by (intro that(4)) (auto simp: event_change.simps is_goal_message_def)
  next
    case other
    have "\<not> is_goal_message e"
      using other(3) by (auto simp: is_goal_message_def goal_source_None_iff
          split: event_data.splits message_source.splits)
    moreover have "event_change e = None"
      using other(2) by (auto simp: event_change.simps split: event_data.splits)
    ultimately show ?thesis using other that(5) by blast
  qed
qed

lemma fold_goal_InrE:
  assumes "fold_goal evs = Inr f"
  obtains st where "replay goal_step empty_goal_fold_state evs = (None, length evs, st)"
    and "f = \<lparr>fg_goal = gf_goal st, fg_rounds = gf_rounds st, fg_created = gf_created st,
              fg_updated = gf_updated st, fg_last_ref = gf_last_ref st\<rparr>"
proof -
  obtain r n st where run: "replay goal_step empty_goal_fold_state evs = (r, n, st)"
    by (cases "replay goal_step empty_goal_fold_state evs") auto
  with assms have r: "r = None"
    and "f = \<lparr>fg_goal = gf_goal st, fg_rounds = gf_rounds st, fg_created = gf_created st,
              fg_updated = gf_updated st, fg_last_ref = gf_last_ref st\<rparr>"
    by (auto simp: fold_goal_def split: option.splits)
  with run show ?thesis using that goal_log.replay_length by simp
qed

lemma rounds_counted:
  assumes "replay goal_step empty_goal_fold_state evs = (None, n, st)"
  shows "gf_rounds st = rounds_back_to starts_over (rev evs)"
  using assms
proof (induction rule: goal_log.replay_induct)
  case Nil
  then show ?case by (simp add: empty_goal_fold_state_def)
next
  case (snoc evs e s s')
  from snoc(3) show ?case
  proof (cases rule: goal_step_cases)
    case (create c)
    then show ?thesis by (simp add: starts_over_def install_snapshot_def)
  next
    case (later c g)
    then show ?thesis using snoc(4) by (simp add: starts_over_def install_snapshot_def)
  next
    case (clear r t g)
    then show ?thesis by (simp add: starts_over_def)
  next
    case (round g)
    then show ?thesis using snoc(4) by (simp add: starts_over_def)
  next
    case other
    then show ?thesis using snoc(4) by (simp add: starts_over_def)
  qed
qed

theorem goal_rounds_are_counted:
  assumes "fold_goal evs = Inr f"
  shows "fg_rounds f = rounds_back_to starts_over (rev evs) \<and> (fg_goal f = None \<longrightarrow> fg_rounds f = 0)"
proof -
  obtain st where run: "replay goal_step empty_goal_fold_state evs = (None, length evs, st)"
    and f: "f = \<lparr>fg_goal = gf_goal st, fg_rounds = gf_rounds st, fg_created = gf_created st,
              fg_updated = gf_updated st, fg_last_ref = gf_last_ref st\<rparr>"
    by (rule fold_goal_InrE [OF assms])
  from rounds_counted [OF run] goal_log.replay_inv [OF run] show ?thesis
    by (auto simp: f goal_ok_def)
qed

lemma goal_rounds_are_counted_witness: "2 = rounds_back_to starts_over (rev demo_log)"
  using goal_rounds_are_counted [OF demo_fold] by (simp add: demo_folded_def)

lemma goal_change_ref_simps [simp]:
  "goal_change_ref (Snapshot_Change c) = snapshot_ref (sc_goal c)"
  "goal_change_ref (Clear_Change r t) = r"
  by (simp_all add: goal_change_ref_def)

definition refs_ok :: "goal_ref list \<Rightarrow> goal_fold_state \<Rightarrow> bool" where
  "refs_ok rs st \<longleftrightarrow>
     distinct rs \<and> gr_id ` set rs \<subseteq> gf_seen st
     \<and> (\<forall>g. gf_goal st = Some g \<longrightarrow> (\<forall>r \<in> set rs. gr_id r = gs_id g \<longrightarrow> gr_revision r \<le> gs_revision g))"

lemma refs_ok_advance:
  assumes "refs_ok rs st" and "gf_goal st = Some g" and "gr_id r = gs_id g"
    and "gr_revision r = gs_revision g + 1"
  shows "r \<notin> set rs" and "\<forall>x \<in> set rs. gr_id x = gr_id r \<longrightarrow> gr_revision x \<le> gr_revision r"
  using assms by (fastforce simp: refs_ok_def)+

lemma refs_ok_extend:
  assumes "refs_ok rs st" and "r \<notin> set rs" and "gf_seen st \<subseteq> gf_seen st'" and "gr_id r \<in> gf_seen st'"
    and "gf_goal st' = None \<or>
      (\<exists>g. gf_goal st' = Some g \<and> r = snapshot_ref g
         \<and> (\<forall>x \<in> set rs. gr_id x = gr_id r \<longrightarrow> gr_revision x \<le> gr_revision r))"
  shows "refs_ok (rs @ [r]) st'"
  using assms(5)
proof
  assume "gf_goal st' = None"
  with assms(1-4) show ?thesis by (auto simp: refs_ok_def)
next
  assume "\<exists>g. gf_goal st' = Some g \<and> r = snapshot_ref g
         \<and> (\<forall>x \<in> set rs. gr_id x = gr_id r \<longrightarrow> gr_revision x \<le> gr_revision r)"
  then obtain g where "gf_goal st' = Some g" "r = snapshot_ref g"
    "\<forall>x \<in> set rs. gr_id x = gr_id r \<longrightarrow> gr_revision x \<le> gr_revision r" by blast
  moreover have "gr_id ` set (rs @ [r]) \<subseteq> gf_seen st'" "distinct (rs @ [r])"
    using assms(1-4) by (auto simp: refs_ok_def)
  ultimately show ?thesis by (simp add: refs_ok_def snapshot_ref_def)
qed

lemma refs_ok_replay:
  assumes "replay goal_step empty_goal_fold_state evs = (None, n, st)"
  shows "refs_ok (map goal_change_ref (goal_changes evs)) st"
  using assms
proof (induction rule: goal_log.replay_induct)
  case Nil
  then show ?case by (simp add: refs_ok_def empty_goal_fold_state_def)
next
  case (snoc evs e s s')
  let ?rs = "map goal_change_ref (goal_changes evs)"
  from snoc(3) show ?case
  proof (cases rule: goal_step_cases)
    case (create c)
    let ?r = "snapshot_ref (sc_goal c)"
    have ids: "\<forall>x \<in> set ?rs. gr_id x \<noteq> gr_id ?r"
    proof
      fix x
      assume "x \<in> set ?rs"
      then have "gr_id x \<in> gf_seen s" using snoc(4) unfolding refs_ok_def by blast
      with create(4) show "gr_id x \<noteq> gr_id ?r" by (auto simp: snapshot_ref_def)
    qed
    then have "?r \<notin> set ?rs" by blast
    from refs_ok_extend [OF snoc(4) this, of s'] ids create show ?thesis
      by (simp add: install_snapshot_def snapshot_ref_def subset_insertI)
  next
    case (later c g)
    let ?r = "snapshot_ref (sc_goal c)"
    have "?r \<notin> set ?rs" "\<forall>x \<in> set ?rs. gr_id x = gr_id ?r \<longrightarrow> gr_revision x \<le> gr_revision ?r"
      using refs_ok_advance [OF snoc(4) later(4), of ?r] later(6,7) by (simp_all add: snapshot_ref_def)
    moreover have "gs_id g \<in> gf_seen s"
      using snoc(2) later(4) by (simp add: goal_ok_def)
    ultimately show ?thesis
      using refs_ok_extend [OF snoc(4), of ?r s'] later
      by (simp add: install_snapshot_def snapshot_ref_def)
  next
    case (clear r t g)
    have "r \<notin> set ?rs"
      using refs_ok_advance [OF snoc(4) clear(3)] clear(4,5) by simp
    moreover have "gs_id g \<in> gf_seen s"
      using snoc(2) clear(3) by (simp add: goal_ok_def)
    ultimately show ?thesis
      using refs_ok_extend [OF snoc(4), of r s'] clear by simp
  next
    case (round g)
    then show ?thesis using snoc(4) by (simp add: refs_ok_def)
  next
    case other
    then show ?thesis using snoc(4) by (simp add: refs_ok_def)
  qed
qed

theorem goal_refs_unique:
  assumes "fold_goal evs = Inr f"
  shows "distinct (map goal_change_ref (goal_changes evs))"
proof -
  obtain st where "replay goal_step empty_goal_fold_state evs = (None, length evs, st)"
    by (rule fold_goal_InrE [OF assms])
  from refs_ok_replay [OF this] show ?thesis by (simp add: refs_ok_def)
qed

lemma goal_refs_unique_witness: "distinct (map goal_change_ref (goal_changes demo_log))"
  by (rule goal_refs_unique [OF demo_fold])

subsection \<open>The light projection agrees with the strict fold\<close>

definition is_goal_change :: "session_event \<Rightarrow> bool" where
  "is_goal_change e = (case ev_data e of GoalChange _ \<Rightarrow> True | _ \<Rightarrow> False)"

definition project_goal :: "session_event list \<Rightarrow> goal_projection option" where
  "project_goal evs = foldl apply_goal_projection None evs"

definition projection_of :: "int \<Rightarrow> goal_fold_state \<Rightarrow> goal_projection option" where
  "projection_of since st =
     (case (gf_goal st, gf_created st, gf_updated st) of
        (Some g, Some c, Some u) \<Rightarrow>
          Some \<lparr>gp_goal = g, gp_rounds = gf_rounds st - since, gp_created = c, gp_updated = u\<rparr>
      | _ \<Rightarrow> None)"

lemma event_change_is_goal_change: "event_change e = Some c \<Longrightarrow> is_goal_change e"
  by (simp add: event_change.simps is_goal_change_def split: event_data.splits)

lemma not_goal_change: "(\<And>v. ev_data e \<noteq> GoalChange v) \<Longrightarrow> \<not> is_goal_change e"
  by (simp add: is_goal_change_def split: event_data.splits)

lemma apply_projection_keeps: "(\<And>v. ev_data e \<noteq> GoalChange v) \<Longrightarrow> apply_goal_projection p e = p"
  by (simp add: apply_goal_projection_def split: event_data.splits)

lemma apply_projection_change:
  "event_change e = Some c \<Longrightarrow>
   apply_goal_projection p e =
     (case c of Clear_Change _ _ \<Rightarrow> None
      | Snapshot_Change sc \<Rightarrow> Some \<lparr>gp_goal = sc_goal sc, gp_rounds = sc_rounds sc,
          gp_created = sc_created sc, gp_updated = sc_updated sc\<rparr>)"
  by (auto simp: event_change.simps apply_goal_projection_def split: event_data.splits sum.splits)

lemma projection_replay:
  assumes "replay goal_step empty_goal_fold_state evs = (None, n, st)"
  shows "project_goal evs = projection_of (rounds_back_to is_goal_change (rev evs)) st"
  using assms
proof (induction rule: goal_log.replay_induct)
  case Nil
  then show ?case by (simp add: project_goal_def projection_of_def empty_goal_fold_state_def)
next
  case (snoc evs e s s')
  have step: "project_goal (evs @ [e]) = apply_goal_projection (project_goal evs) e"
    by (simp add: project_goal_def)
  from snoc(3) show ?case
  proof (cases rule: goal_step_cases)
    case (create c)
    then show ?thesis unfolding step apply_projection_change [OF create(1)]
      using event_change_is_goal_change by (simp add: projection_of_def install_snapshot_def)
  next
    case (later c g)
    then show ?thesis unfolding step apply_projection_change [OF later(1)]
      using event_change_is_goal_change by (simp add: projection_of_def install_snapshot_def)
  next
    case (clear r t g)
    then show ?thesis unfolding step apply_projection_change [OF clear(1)]
      by (simp add: projection_of_def)
  next
    case (round g)
    have "\<not> is_goal_change e" by (rule not_goal_change) (rule round)
    with round(2,7) show ?thesis
      unfolding step apply_projection_keeps [OF round(4)] snoc(4)
      by (simp add: projection_of_def algebra_simps split: option.splits)
  next
    case other
    have "\<not> is_goal_change e" by (rule not_goal_change) (rule other)
    with other(2,4) show ?thesis
      unfolding step apply_projection_keeps [OF other(3)] snoc(4)
      by (simp add: projection_of_def)
  qed
qed

theorem goal_projection_agrees:
  assumes "fold_goal evs = Inr f"
  shows "project_goal evs =
    (case (fg_goal f, fg_created f, fg_updated f) of
       (Some g, Some c, Some u) \<Rightarrow>
         Some \<lparr>gp_goal = g, gp_rounds = fg_rounds f - rounds_back_to is_goal_change (rev evs),
               gp_created = c, gp_updated = u\<rparr>
     | _ \<Rightarrow> None)"
proof -
  obtain st where run: "replay goal_step empty_goal_fold_state evs = (None, length evs, st)"
    and f: "f = \<lparr>fg_goal = gf_goal st, fg_rounds = gf_rounds st, fg_created = gf_created st,
              fg_updated = gf_updated st, fg_last_ref = gf_last_ref st\<rparr>"
    by (rule fold_goal_InrE [OF assms])
  from projection_replay [OF run] show ?thesis unfolding f projection_of_def folded_goal.select_convs .
qed

lemma goal_projection_agrees_witness:
  "project_goal demo_log = Some \<lparr>gp_goal = demo_goal Goal_Paused 2, gp_rounds = 2, gp_created = 1, gp_updated = 2\<rparr>"
proof -
  have "rounds_back_to is_goal_change (rev demo_log) = 0" by code_simp
  then show ?thesis using goal_projection_agrees [OF demo_fold] by (simp add: demo_folded_def)
qed

end
