(* ===== verification/Goal_Service.thy ===== *)
theory Goal_Service
  imports Goal_Fold Session_Log
begin

section \<open>The goal service: compare-and-set mutations over the session log\<close>

text \<open>
  \<^verbatim>\<open>packages/goal/goal/src/index.ts\<close>. The service keeps one cache per session: the strict
  fold of the events it has observed, the process-local activation, and the activation its
  own append is about to commit. Every operation may throw after it has changed the state,
  so an operation maps a state to a result and a state. The clocks, the fresh uuid and the
  state of the session's store entry are the environment of a call. Listeners of the
  \<open>session/event\<close> and \<open>goal/changed\<close> events append nothing here.
\<close>

subsection \<open>State\<close>

datatype activation = Armed | Disarmed

record goal_agent =
  ga_id :: string
  ga_object :: nat
  ga_session :: nat

record goal_cache =
  gc_state :: goal_fold_state
  gc_activation :: activation
  gc_observed :: nat
  gc_pending :: "(int \<times> activation) option"

record goal_view =
  gv_goal :: goal_snapshot
  gv_rounds :: int
  gv_created :: int
  gv_updated :: int
  gv_activation :: activation

text \<open>A notification names its operation; \<open>None\<close> is \<open>clear\<close>.\<close>

record goal_changed =
  gn_op :: "snapshot_op option"
  gn_ref :: goal_ref
  gn_goal :: "goal_view option"

datatype goal_error_code =
    Agent_Not_Live
  | Goal_Not_Found
  | Goal_Already_Exists
  | Goal_Stale_Revision
  | Goal_Invalid_Objective
  | Goal_Invalid_Max_Rounds
  | Goal_Invalid_Block_Reason
  | Goal_Invalid_Edit
  | Goal_Invalid_Transition

datatype goal_failure =
    GoalError goal_error_code
  | ReplayFailed goal_fold_error
  | AppendFailed append_error
  | CacheLacksTimes
  | CommitClearedGoal

record goal_service =
  sv_live :: "string \<Rightarrow> nat option"
  sv_sessions :: "nat \<Rightarrow> session"
  sv_caches :: "nat \<Rightarrow> goal_cache option"
  sv_emitted :: "(nat \<times> goal_changed) list"
  sv_default_rounds :: int

record goal_env =
  ge_now :: int
  ge_stamp :: int
  ge_uuid :: string
  ge_appending :: "bool option"
  ge_dispatch_throws :: bool

text \<open>Operations of the service.\<close>

type_synonym 'a goal_op = "(goal_service, goal_failure, 'a) op"

definition session_log_of :: "nat \<Rightarrow> goal_service \<Rightarrow> session_event list" where
  "session_log_of sid sv = ss_log (sv_sessions sv sid)"

definition store_cache :: "nat \<Rightarrow> goal_cache \<Rightarrow> goal_service \<Rightarrow> goal_service" where
  "store_cache sid c sv = sv\<lparr>sv_caches := (sv_caches sv)(sid := Some c)\<rparr>"

subsection \<open>Validation of requests\<close>

definition resolve_max_rounds :: "json \<Rightarrow> goal_error_code + int" where
  "resolve_max_rounds v =
     (case json_safe_int v of
        None \<Rightarrow> Inl Goal_Invalid_Max_Rounds
      | Some i \<Rightarrow> if i < 1 then Inl Goal_Invalid_Max_Rounds else Inr i)"

definition resolve_objective :: "json option \<Rightarrow> goal_error_code + string" where
  "resolve_objective v =
     (case as_string v of
        None \<Rightarrow> Inl Goal_Invalid_Objective
      | Some s \<Rightarrow> if js_trim s = [] then Inl Goal_Invalid_Objective else Inr (js_trim s))"

text \<open>A create or edit request; an absent field is \<open>None\<close>. \<open>??\<close> also replaces \<open>null\<close>.\<close>

record goal_request =
  rq_objective :: "json option"
  rq_max_rounds :: "json option"

definition or_default :: "json option \<Rightarrow> json \<Rightarrow> json" where
  "or_default v d = (case v of None \<Rightarrow> d | Some JNull \<Rightarrow> d | Some x \<Rightarrow> x)"

definition resolve_create_goal :: "goal_request \<Rightarrow> int \<Rightarrow> goal_error_code + string \<times> int" where
  "resolve_create_goal rq dflt =
     and_then (resolve_objective (rq_objective rq))
       (\<lambda>obj. and_then (resolve_max_rounds (or_default (rq_max_rounds rq) (jint dflt)))
       (\<lambda>n. Inr (obj, n)))"

definition resolve_block_reason :: "json option \<Rightarrow> goal_error_code + block_reason" where
  "resolve_block_reason v =
     (case as_record v of
        None \<Rightarrow> Inl Goal_Invalid_Block_Reason
      | Some kvs \<Rightarrow>
          (case (as_string (map_of kvs ''code''), as_string (map_of kvs ''message'')) of
             (Some c, Some m) \<Rightarrow>
               if \<not> lower_kebab c \<or> js_trim m = [] then Inl Goal_Invalid_Block_Reason
               else Inr \<lparr>br_code = c, br_message = js_trim m\<rparr>
           | _ \<Rightarrow> Inl Goal_Invalid_Block_Reason))"

subsection \<open>Caches\<close>

text \<open>One session's cache: folded from the seed on first use, with activation disarmed.\<close>

definition goal_cache_for :: "nat \<Rightarrow> goal_cache goal_op" where
  "goal_cache_for sid sv =
     (case sv_caches sv sid of
        Some c \<Rightarrow> (Inr c, sv)
      | None \<Rightarrow>
          (case replay goal_step empty_goal_fold_state (session_log_of sid sv) of
             (Some x, _, _) \<Rightarrow> (Inl (ReplayFailed x), sv)
           | (None, _, st) \<Rightarrow>
               (let c = \<lparr>gc_state = st, gc_activation = Disarmed,
                         gc_observed = length (session_log_of sid sv), gc_pending = None\<rparr>
                in (Inr c, store_cache sid c sv))))"

definition reconcile_activation :: "goal_cache \<Rightarrow> session_event \<Rightarrow> activation" where
  "reconcile_activation c e =
     (if is_goal_change e
      then (case gc_pending c of
              Some (q, a) \<Rightarrow> if q = ev_seq e then a else Disarmed
            | None \<Rightarrow> Disarmed)
      else gc_activation c)"

text \<open>The loop of \<open>sync\<close>: a throwing event leaves the cache at the events before it.\<close>

fun sync_events :: "session_event list \<Rightarrow> goal_cache \<Rightarrow> goal_fold_error option \<times> goal_cache" where
  "sync_events [] c = (None, c)"
| "sync_events (e # es) c =
     (case apply_goal_event (gc_state c) e of
        Inl x \<Rightarrow> (Some x, c)
      | Inr st \<Rightarrow>
          sync_events es (c\<lparr>gc_state := st, gc_activation := reconcile_activation c e,
                            gc_observed := gc_observed c + 1\<rparr>))"

definition goal_sync :: "nat \<Rightarrow> goal_cache \<Rightarrow> goal_cache goal_op" where
  "goal_sync sid c sv =
     (case sync_events (drop (gc_observed c) (session_log_of sid sv)) c of
        (Some x, c') \<Rightarrow> (Inl (ReplayFailed x), store_cache sid c' sv)
      | (None, c') \<Rightarrow> (Inr c', store_cache sid c' sv))"

definition assert_live :: "goal_agent \<Rightarrow> unit goal_op" where
  "assert_live ag sv =
     (if sv_live sv (ga_id ag) = Some (ga_object ag) then (Inr (), sv)
      else (Inl (GoalError Agent_Not_Live), sv))"

definition prepare_mutation :: "goal_agent \<Rightarrow> goal_cache goal_op" where
  "prepare_mutation ag =
     op_bind (assert_live ag) (\<lambda>_. op_bind (goal_cache_for (ga_session ag)) (goal_sync (ga_session ag)))"

definition view_of :: "goal_cache \<Rightarrow> goal_failure + goal_view option" where
  "view_of c =
     (case gf_goal (gc_state c) of
        None \<Rightarrow> Inr None
      | Some g \<Rightarrow>
          (case (gf_created (gc_state c), gf_updated (gc_state c)) of
             (Some t, Some u) \<Rightarrow>
               Inr (Some \<lparr>gv_goal = g, gv_rounds = gf_rounds (gc_state c), gv_created = t,
                          gv_updated = u, gv_activation = gc_activation c\<rparr>)
           | _ \<Rightarrow> Inl CacheLacksTimes))"

definition expect_current :: "goal_cache \<Rightarrow> goal_ref \<Rightarrow> goal_failure + goal_snapshot" where
  "expect_current c r =
     (case gf_goal (gc_state c) of
        None \<Rightarrow> Inl (GoalError Goal_Not_Found)
      | Some g \<Rightarrow>
          if gr_id r \<noteq> gs_id g \<or> gr_revision r \<noteq> gs_revision g
          then Inl (GoalError Goal_Stale_Revision) else Inr g)"

definition with_phase :: "goal_snapshot \<Rightarrow> goal_phase \<Rightarrow> goal_snapshot" where
  "with_phase g p =
     \<lparr>gs_id = gs_id g, gs_revision = gs_revision g + 1, gs_objective = gs_objective g, gs_phase = p,
      gs_blocked = None, gs_max_rounds = gs_max_rounds g\<rparr>"

definition next_mutation_time :: "goal_env \<Rightarrow> goal_cache \<Rightarrow> goal_failure + int" where
  "next_mutation_time env c =
     (case gf_updated (gc_state c) of
        None \<Rightarrow> Inl CacheLacksTimes
      | Some u \<Rightarrow> Inr (max (ge_now env) u))"

subsection \<open>Commits\<close>

definition goal_append_call :: "goal_env \<Rightarrow> goal_change \<Rightarrow> append_call" where
  "goal_append_call env ch =
     \<lparr>ac_data = Some (GoalChange (encode_goal_change ch)), ac_meta = Some (None, None),
      ac_time = ge_stamp env, ac_appending = ge_appending env,
      ac_dispatch_throws = ge_dispatch_throws env\<rparr>"

definition change_operation :: "goal_change \<Rightarrow> snapshot_op option" where
  "change_operation ch = (case ch of Snapshot_Change c \<Rightarrow> Some (sc_op c) | Clear_Change _ _ \<Rightarrow> None)"

definition goal_commit ::
  "goal_env \<Rightarrow> goal_agent \<Rightarrow> goal_cache \<Rightarrow> goal_change \<Rightarrow> activation \<Rightarrow> goal_cache goal_op"
where
  "goal_commit env ag c ch act sv =
     (let sid = ga_session ag;
          pending = c\<lparr>gc_pending := Some (int (length (session_log_of sid sv)), act)\<rparr>
      in case append_event (goal_append_call env ch) (sv_sessions sv sid) of
           (Inl x, s) \<Rightarrow>
             (Inl (AppendFailed x),
              store_cache sid (c\<lparr>gc_pending := None\<rparr>) (sv\<lparr>sv_sessions := (sv_sessions sv)(sid := s)\<rparr>))
         | (Inr e, s) \<Rightarrow>
             (let sv' = sv\<lparr>sv_sessions := (sv_sessions sv)(sid := s)\<rparr> in
              case sync_events (drop (gc_observed pending) (ss_log s)) pending of
                (Some x, c') \<Rightarrow> (Inl (ReplayFailed x), store_cache sid (c'\<lparr>gc_pending := None\<rparr>) sv')
              | (None, c') \<Rightarrow>
                  (let c'' = c'\<lparr>gc_pending := None\<rparr>; sv'' = store_cache sid c'' sv' in
                   case view_of c'' of
                     Inl x \<Rightarrow> (Inl x, sv'')
                   | Inr v \<Rightarrow>
                       (Inr c'', sv''\<lparr>sv_emitted := sv_emitted sv'' @
                          [(ga_object ag, \<lparr>gn_op = change_operation ch, gn_ref = goal_change_ref ch,
                                           gn_goal = v\<rparr>)]\<rparr>))))"

definition commit_snapshot ::
  "goal_env \<Rightarrow> goal_agent \<Rightarrow> goal_cache \<Rightarrow> snapshot_change \<Rightarrow> activation \<Rightarrow> goal_view goal_op"
where
  "commit_snapshot env ag c sc act =
     op_bind (goal_commit env ag c (Snapshot_Change sc) act)
       (\<lambda>c'. op_bind (op_lift (view_of c'))
       (\<lambda>v. case v of None \<Rightarrow> op_lift (Inl CommitClearedGoal) | Some view \<Rightarrow> op_lift (Inr view)))"

definition commit_current ::
  "goal_env \<Rightarrow> goal_agent \<Rightarrow> goal_cache \<Rightarrow> snapshot_op \<Rightarrow> goal_snapshot \<Rightarrow> activation \<Rightarrow> goal_view goal_op"
where
  "commit_current env ag c p g act =
     (case gf_created (gc_state c) of
        None \<Rightarrow> op_lift (Inl CacheLacksTimes)
      | Some t \<Rightarrow>
          op_bind (op_lift (next_mutation_time env c))
            (\<lambda>u. commit_snapshot env ag c
               \<lparr>sc_op = p, sc_goal = g, sc_rounds = gf_rounds (gc_state c), sc_created = t, sc_updated = u\<rparr>
               act))"

subsection \<open>Operations\<close>

definition goal_get :: "goal_agent \<Rightarrow> goal_view option goal_op" where
  "goal_get ag =
     op_bind (assert_live ag) (\<lambda>_. op_bind (goal_cache_for (ga_session ag))
       (\<lambda>c. op_bind (goal_sync (ga_session ag) c) (\<lambda>c'. op_lift (view_of c'))))"

definition goal_disarm :: "goal_agent \<Rightarrow> goal_view option goal_op" where
  "goal_disarm ag =
     op_bind (assert_live ag) (\<lambda>_. op_bind (goal_cache_for (ga_session ag))
       (\<lambda>c. op_bind (goal_sync (ga_session ag) c)
       (\<lambda>c' sv. (view_of (c'\<lparr>gc_activation := Disarmed\<rparr>),
                 store_cache (ga_session ag) (c'\<lparr>gc_activation := Disarmed\<rparr>) sv))))"

text \<open>The handler of \<open>agent/session-start\<close>.\<close>

definition goal_session_start :: "goal_agent \<Rightarrow> unit goal_op" where
  "goal_session_start ag =
     op_bind (goal_cache_for (ga_session ag))
       (\<lambda>c sv. (Inr (), store_cache (ga_session ag) (c\<lparr>gc_activation := Disarmed\<rparr>) sv))"

text \<open>A current goal in any phase but \<open>complete\<close> blocks a create.\<close>

definition goal_open :: "goal_fold_state \<Rightarrow> bool" where
  "goal_open st =
     (case gf_goal st of None \<Rightarrow> False | Some g \<Rightarrow> gs_phase g \<noteq> Goal_Complete)"

definition fresh_goal_id :: "goal_env \<Rightarrow> string" where
  "fresh_goal_id env = ''goal-'' @ ge_uuid env"

definition goal_create :: "goal_env \<Rightarrow> goal_agent \<Rightarrow> goal_request \<Rightarrow> goal_view goal_op" where
  "goal_create env ag rq sv =
     op_bind (op_lift (map_sum GoalError id (resolve_create_goal rq (sv_default_rounds sv))))
       (\<lambda>spec. op_bind (prepare_mutation ag)
       (\<lambda>c. if goal_open (gc_state c)
             then op_lift (Inl (GoalError Goal_Already_Exists))
             else commit_snapshot env ag c
               \<lparr>sc_op = Op_Create,
                sc_goal = \<lparr>gs_id = fresh_goal_id env, gs_revision = 1, gs_objective = fst spec,
                           gs_phase = Goal_Active, gs_blocked = None, gs_max_rounds = snd spec\<rparr>,
                sc_rounds = 0, sc_created = ge_now env, sc_updated = ge_now env\<rparr> Armed)) sv"

definition edited_snapshot :: "goal_snapshot \<Rightarrow> goal_request \<Rightarrow> goal_error_code + goal_snapshot" where
  "edited_snapshot g rq =
     and_then (case rq_objective rq of None \<Rightarrow> Inr (gs_objective g) | Some v \<Rightarrow> resolve_objective (Some v))
       (\<lambda>obj. and_then (case rq_max_rounds rq of None \<Rightarrow> Inr (gs_max_rounds g) | Some v \<Rightarrow> resolve_max_rounds v)
       (\<lambda>n. Inr (g\<lparr>gs_revision := gs_revision g + 1, gs_objective := obj, gs_max_rounds := n\<rparr>)))"

definition goal_edit :: "goal_env \<Rightarrow> goal_agent \<Rightarrow> goal_ref \<Rightarrow> goal_request \<Rightarrow> goal_view goal_op" where
  "goal_edit env ag r rq =
     op_bind (prepare_mutation ag)
       (\<lambda>c. op_bind (op_lift (expect_current c r))
       (\<lambda>g. if rq_objective rq = None \<and> rq_max_rounds rq = None
             then op_lift (Inl (GoalError Goal_Invalid_Edit))
             else op_bind (op_lift (map_sum GoalError id (edited_snapshot g rq)))
                    (\<lambda>g'. commit_current env ag c Op_Edit g' (gc_activation c))))"

definition goal_transition ::
  "goal_env \<Rightarrow> goal_agent \<Rightarrow> goal_ref \<Rightarrow> snapshot_op \<Rightarrow> goal_phase list \<Rightarrow> goal_phase \<Rightarrow> activation
    \<Rightarrow> goal_view goal_op"
where
  "goal_transition env ag r p allowed phase act =
     op_bind (prepare_mutation ag)
       (\<lambda>c. op_bind (op_lift (expect_current c r))
       (\<lambda>g. if gs_phase g \<notin> set allowed then op_lift (Inl (GoalError Goal_Invalid_Transition))
             else commit_current env ag c p (with_phase g phase) act))"

definition goal_pause :: "goal_env \<Rightarrow> goal_agent \<Rightarrow> goal_ref \<Rightarrow> goal_view goal_op" where
  "goal_pause env ag r = goal_transition env ag r Op_Pause [Goal_Active] Goal_Paused Disarmed"

definition goal_complete :: "goal_env \<Rightarrow> goal_agent \<Rightarrow> goal_ref \<Rightarrow> goal_view goal_op" where
  "goal_complete env ag r =
     goal_transition env ag r Op_Complete [Goal_Active, Goal_Paused, Goal_Blocked] Goal_Complete Disarmed"

definition goal_resume :: "goal_env \<Rightarrow> goal_agent \<Rightarrow> goal_ref \<Rightarrow> goal_view goal_op" where
  "goal_resume env ag r =
     op_bind (prepare_mutation ag)
       (\<lambda>c. op_bind (op_lift (expect_current c r))
       (\<lambda>g. if gs_phase g \<notin> {Goal_Active, Goal_Paused, Goal_Blocked}
             then op_lift (Inl (GoalError Goal_Invalid_Transition))
             else if gs_phase g = Goal_Active \<and> gc_activation c = Armed
             then op_lift (Inl (GoalError Goal_Invalid_Transition))
             else if gf_rounds (gc_state c) \<ge> gs_max_rounds g
             then op_lift (Inl (GoalError Goal_Invalid_Transition))
             else commit_current env ag c Op_Resume (with_phase g Goal_Active) Armed))"

definition goal_block :: "goal_env \<Rightarrow> goal_agent \<Rightarrow> goal_ref \<Rightarrow> json option \<Rightarrow> goal_view goal_op" where
  "goal_block env ag r reason =
     op_bind (prepare_mutation ag)
       (\<lambda>c. op_bind (op_lift (expect_current c r))
       (\<lambda>g. if gs_phase g \<noteq> Goal_Active then op_lift (Inl (GoalError Goal_Invalid_Transition))
             else op_bind (op_lift (map_sum GoalError id (resolve_block_reason reason)))
                    (\<lambda>b. commit_current env ag c Op_Block
                           ((with_phase g Goal_Blocked)\<lparr>gs_blocked := Some b\<rparr>) Disarmed)))"

definition goal_clear :: "goal_env \<Rightarrow> goal_agent \<Rightarrow> goal_ref \<Rightarrow> goal_ref goal_op" where
  "goal_clear env ag r =
     op_bind (prepare_mutation ag)
       (\<lambda>c. op_bind (op_lift (expect_current c r))
       (\<lambda>g. op_bind (op_lift (next_mutation_time env c))
       (\<lambda>t. let tombstone = \<lparr>gr_id = gs_id g, gr_revision = gs_revision g + 1\<rparr> in
             op_bind (goal_commit env ag c (Clear_Change tombstone t) Disarmed)
               (\<lambda>_. op_lift (Inr tombstone)))))"

text \<open>The remote boundary returns the created goal's identity only.\<close>

definition remote_export_create :: "goal_env \<Rightarrow> goal_agent \<Rightarrow> goal_request \<Rightarrow> goal_ref goal_op" where
  "remote_export_create env ag rq =
     op_bind (goal_create env ag rq) (\<lambda>v. op_lift (Inr (snapshot_ref (gv_goal v))))"

subsection \<open>Caches follow the strict fold\<close>

definition folded_to :: "session_event list \<Rightarrow> goal_cache \<Rightarrow> bool" where
  "folded_to evs c \<longleftrightarrow>
     gc_observed c = length evs \<and>
     replay goal_step empty_goal_fold_state evs = (None, length evs, gc_state c)"

definition cache_ok :: "session_event list \<Rightarrow> goal_cache \<Rightarrow> bool" where
  "cache_ok evs c \<longleftrightarrow>
     gc_pending c = None \<and> (\<exists>pre rest. evs = pre @ rest \<and> folded_to pre c)"

lemma folded_to_step:
  assumes "folded_to pre c" and "apply_goal_event (gc_state c) e = Inr st"
  shows "folded_to (pre @ [e]) (c\<lparr>gc_state := st, gc_activation := a, gc_observed := gc_observed c + 1\<rparr>)"
  using assms by (simp add: folded_to_def goal_log.replay_snoc_Some goal_step_def)

lemma replay_stops:
  assumes "folded_to pre c" and "apply_goal_event (gc_state c) e = Inl x"
  shows "fst (replay goal_step empty_goal_fold_state (pre @ e # es)) = Some x"
proof -
  have "fst (replay goal_step empty_goal_fold_state (pre @ [e])) = Some x"
    using assms by (simp add: folded_to_def goal_log.replay_snoc goal_step_def)
  then obtain n st where stop: "replay goal_step empty_goal_fold_state (pre @ [e]) = (Some x, n, st)"
    by (metis prod.collapse)
  have "run_log goal_step ((pre @ [e]) @ es) 0 empty_goal_fold_state (pre @ [e])
        = replay goal_step empty_goal_fold_state (pre @ [e])"
    unfolding replay_def by (rule goal_log.run_local) (simp_all add: goal_ok_empty)
  with stop have "fst (run_log goal_step ((pre @ [e]) @ es) 0 empty_goal_fold_state ((pre @ [e]) @ es)) = Some x"
    by (simp only: run_log_append) simp
  then show ?thesis by (simp add: replay_def)
qed

lemma sync_events_folds:
  assumes "folded_to pre c" and "sync_events es c = (r, c')"
  obtains k where "k \<le> length es" "folded_to (pre @ take k es) c'" "gc_pending c' = gc_pending c"
    "r = None \<Longrightarrow> k = length es"
    "\<And>x. r = Some x \<Longrightarrow> fst (replay goal_step empty_goal_fold_state (pre @ es)) = Some x"
  using assms
proof (induction es arbitrary: pre c thesis)
  case Nil
  then show ?case by simp
next
  case (Cons e es)
  show ?case
  proof (cases "apply_goal_event (gc_state c) e")
    case (Inl x)
    with Cons.prems have "r = Some x" "c' = c" by simp_all
    with Cons.prems(1) [of 0] Cons.prems(2) replay_stops [OF Cons.prems(2) Inl]
    show ?thesis by simp
  next
    case (Inr st)
    let ?c = "c\<lparr>gc_state := st, gc_activation := reconcile_activation c e, gc_observed := gc_observed c + 1\<rparr>"
    from Inr Cons.prems(3) have "sync_events es ?c = (r, c')" by simp
    from Cons.IH [OF _ folded_to_step [OF Cons.prems(2) Inr] this] obtain k where
      "k \<le> length es" "folded_to ((pre @ [e]) @ take k es) c'" "gc_pending c' = gc_pending ?c"
      "r = None \<Longrightarrow> k = length es"
      "\<And>x. r = Some x \<Longrightarrow> fst (replay goal_step empty_goal_fold_state ((pre @ [e]) @ es)) = Some x"
      by blast
    with Cons.prems(1) [of "Suc k"] show ?thesis by simp
  qed
qed

lemma sync_cache:
  assumes "cache_ok evs c" and "sync_events (drop (gc_observed c) evs) c = (r, c')"
  shows "cache_ok evs c'" and "r = None \<Longrightarrow> folded_to evs c'"
    and "r = Some x \<Longrightarrow> fst (replay goal_step empty_goal_fold_state evs) = Some x"
proof -
  from assms(1) obtain pre rest where evs: "evs = pre @ rest" and pre: "folded_to pre c"
    and pend: "gc_pending c = None" by (auto simp: cache_ok_def)
  then have "drop (gc_observed c) evs = rest" by (simp add: folded_to_def)
  with assms(2) have "sync_events rest c = (r, c')" by simp
  from sync_events_folds [OF pre this] obtain k where k: "k \<le> length rest"
    "folded_to (pre @ take k rest) c'" "gc_pending c' = gc_pending c" "r = None \<Longrightarrow> k = length rest"
    and stop: "\<And>x. r = Some x \<Longrightarrow> fst (replay goal_step empty_goal_fold_state (pre @ rest)) = Some x"
    by blast
  have "evs = (pre @ take k rest) @ drop k rest" by (simp add: evs)
  with k(2,3) pend show "cache_ok evs c'" by (metis cache_ok_def)
  show "folded_to evs c'" if "r = None" using k that by (simp add: evs)
  show "fst (replay goal_step empty_goal_fold_state evs) = Some x" if "r = Some x"
    using stop [OF that] by (simp add: evs)
qed

lemma cache_ok_grow: "cache_ok evs c \<Longrightarrow> cache_ok (evs @ rest) c"
  by (fastforce simp: cache_ok_def)

lemma cache_ok_cong:
  "cache_ok evs c \<Longrightarrow> gc_state c' = gc_state c \<Longrightarrow> gc_observed c' = gc_observed c \<Longrightarrow>
   gc_pending c' = None \<Longrightarrow> cache_ok evs c'"
  by (auto simp: cache_ok_def folded_to_def)

lemma folded_to_cong:
  "folded_to evs c \<Longrightarrow> gc_state c' = gc_state c \<Longrightarrow> gc_observed c' = gc_observed c \<Longrightarrow> folded_to evs c'"
  by (simp add: folded_to_def)

lemma folded_cache_ok: "folded_to evs c \<Longrightarrow> gc_pending c = None \<Longrightarrow> cache_ok evs c"
  by (auto simp: cache_ok_def)

definition service_ok :: "goal_service \<Rightarrow> bool" where
  "service_ok sv \<longleftrightarrow>
     (\<forall>sid c. sv_caches sv sid = Some c \<longrightarrow> cache_ok (session_log_of sid sv) c)"

lemma service_okD: "service_ok sv \<Longrightarrow> sv_caches sv sid = Some c \<Longrightarrow> cache_ok (session_log_of sid sv) c"
  by (simp add: service_ok_def)

lemma store_cache_sel [simp]:
  "session_log_of i (store_cache sid c sv) = session_log_of i sv"
  "sv_sessions (store_cache sid c sv) = sv_sessions sv"
  "sv_caches (store_cache sid c sv) i = (if i = sid then Some c else sv_caches sv i)"
  "sv_live (store_cache sid c sv) = sv_live sv"
  "sv_emitted (store_cache sid c sv) = sv_emitted sv"
  "sv_default_rounds (store_cache sid c sv) = sv_default_rounds sv"
  by (simp_all add: store_cache_def session_log_of_def)

lemma service_ok_store: "service_ok sv \<Longrightarrow> cache_ok (session_log_of sid sv) c \<Longrightarrow> service_ok (store_cache sid c sv)"
  by (simp add: service_ok_def)

text \<open>What reading and preparing leave alone: the sessions, the registry, the notifications.\<close>

definition same_world :: "goal_service \<Rightarrow> goal_service \<Rightarrow> bool" where
  "same_world sv sv' \<longleftrightarrow>
     sv_sessions sv' = sv_sessions sv \<and> sv_live sv' = sv_live sv \<and> sv_emitted sv' = sv_emitted sv
     \<and> sv_default_rounds sv' = sv_default_rounds sv"

lemma same_world_refl [simp]: "same_world sv sv"
  by (simp add: same_world_def)

lemma same_world_store [simp]: "same_world sv (store_cache sid c sv') \<longleftrightarrow> same_world sv sv'"
  by (simp add: same_world_def)

lemma same_world_trans: "same_world a b \<Longrightarrow> same_world b c \<Longrightarrow> same_world a c"
  by (simp add: same_world_def)

lemma same_world_log: "same_world sv sv' \<Longrightarrow> session_log_of i sv' = session_log_of i sv"
  by (simp add: same_world_def session_log_of_def)

lemma goal_cache_for_cases:
  assumes "service_ok sv" and "goal_cache_for sid sv = (r, sv')"
  shows "service_ok sv'" and "same_world sv sv'"
    and "r = Inr c \<Longrightarrow> cache_ok (session_log_of sid sv) c \<and> sv_caches sv' sid = Some c"
    and "r = Inl x \<Longrightarrow> \<exists>y. x = ReplayFailed y \<and> fst (replay goal_step empty_goal_fold_state (session_log_of sid sv)) = Some y"
proof -
  let ?evs = "session_log_of sid sv"
  let ?ok = "service_ok sv' \<and> same_world sv sv' \<and>
    (\<forall>c. r = Inr c \<longrightarrow> cache_ok ?evs c \<and> sv_caches sv' sid = Some c) \<and>
    (\<forall>x. r = Inl x \<longrightarrow> (\<exists>y. x = ReplayFailed y \<and> fst (replay goal_step empty_goal_fold_state ?evs) = Some y))"
  have ?ok
  proof (cases "sv_caches sv sid")
    case (Some c')
    with assms service_okD [OF assms(1) Some] show ?thesis by (auto simp: goal_cache_for_def)
  next
    case None
    obtain e n st where run: "replay goal_step empty_goal_fold_state ?evs = (e, n, st)"
      by (cases "replay goal_step empty_goal_fold_state ?evs") auto
    let ?c = "\<lparr>gc_state = st, gc_activation = Disarmed, gc_observed = length ?evs, gc_pending = None\<rparr>"
    show ?thesis
    proof (cases e)
      case None
      with run have "n = length ?evs" using goal_log.replay_length by blast
      with run None have "cache_ok ?evs ?c"
        by (intro folded_cache_ok) (simp_all add: folded_to_def)
      then have "service_ok (store_cache sid ?c sv)" using assms(1) by (rule service_ok_store [rotated])
      with \<open>cache_ok ?evs ?c\<close> assms(2) run None \<open>sv_caches sv sid = None\<close> show ?thesis
        by (auto simp: goal_cache_for_def Let_def)
    next
      case (Some x)
      with assms run \<open>sv_caches sv sid = None\<close> show ?thesis by (auto simp: goal_cache_for_def)
    qed
  qed
  then show "service_ok sv'" and "same_world sv sv'"
    and "r = Inr c \<Longrightarrow> cache_ok ?evs c \<and> sv_caches sv' sid = Some c"
    and "r = Inl x \<Longrightarrow> \<exists>y. x = ReplayFailed y \<and> fst (replay goal_step empty_goal_fold_state ?evs) = Some y"
    by blast+
qed

lemma goal_sync_cases:
  assumes "service_ok sv" and "cache_ok (session_log_of sid sv) c" and "goal_sync sid c sv = (r, sv')"
  shows "service_ok sv'" and "same_world sv sv'"
    and "r = Inr c' \<Longrightarrow> folded_to (session_log_of sid sv) c' \<and> gc_pending c' = None \<and> sv_caches sv' sid = Some c'"
    and "r = Inl x \<Longrightarrow> \<exists>y. x = ReplayFailed y \<and> fst (replay goal_step empty_goal_fold_state (session_log_of sid sv)) = Some y"
proof -
  let ?evs = "session_log_of sid sv"
  obtain e c1 where run: "sync_events (drop (gc_observed c) ?evs) c = (e, c1)"
    by (cases "sync_events (drop (gc_observed c) ?evs) c") auto
  note synced = sync_cache [OF assms(2) run]
  have sv': "sv' = store_cache sid c1 sv" and r: "r = (case e of None \<Rightarrow> Inr c1 | Some x \<Rightarrow> Inl (ReplayFailed x))"
    using assms(3) run by (auto simp: goal_sync_def split: option.splits)
  show "service_ok sv'" unfolding sv' by (rule service_ok_store [OF assms(1) synced(1)])
  show "same_world sv sv'" by (simp add: sv')
  show "folded_to ?evs c' \<and> gc_pending c' = None \<and> sv_caches sv' sid = Some c'" if "r = Inr c'"
    using that synced(1,2) by (auto simp: r sv' cache_ok_def split: option.splits)
  show "\<exists>y. x = ReplayFailed y \<and> fst (replay goal_step empty_goal_fold_state ?evs) = Some y" if "r = Inl x"
    using that synced(3) by (auto simp: r split: option.splits)
qed

lemma prepare_mutation_cases:
  assumes "service_ok sv" and "prepare_mutation ag sv = (r, sv')"
  shows "service_ok sv'" and "same_world sv sv'"
    and "r = Inr c \<Longrightarrow> folded_to (session_log_of (ga_session ag) sv) c \<and> gc_pending c = None
           \<and> sv_caches sv' (ga_session ag) = Some c"
    and "r = Inl x \<Longrightarrow> x = GoalError Agent_Not_Live \<and> sv_live sv (ga_id ag) \<noteq> Some (ga_object ag) \<or>
           (\<exists>y. x = ReplayFailed y \<and>
             fst (replay goal_step empty_goal_fold_state (session_log_of (ga_session ag) sv)) = Some y)"
proof -
  let ?sid = "ga_session ag"
  let ?evs = "session_log_of ?sid sv"
  let ?ok = "service_ok sv' \<and> same_world sv sv' \<and>
    (\<forall>c. r = Inr c \<longrightarrow> folded_to ?evs c \<and> gc_pending c = None \<and> sv_caches sv' ?sid = Some c) \<and>
    (\<forall>x. r = Inl x \<longrightarrow> x = GoalError Agent_Not_Live \<and> sv_live sv (ga_id ag) \<noteq> Some (ga_object ag) \<or>
      (\<exists>y. x = ReplayFailed y \<and> fst (replay goal_step empty_goal_fold_state ?evs) = Some y))"
  have ?ok
  proof (cases "sv_live sv (ga_id ag) = Some (ga_object ag)")
    case False
    with assms show ?thesis by (auto simp: prepare_mutation_def op_bind_def assert_live_def)
  next
    case True
    obtain rc sv1 where c: "goal_cache_for ?sid sv = (rc, sv1)"
      by (cases "goal_cache_for ?sid sv") auto
    note cached = goal_cache_for_cases [OF assms(1) c]
    from True assms(2) c have res: "(r, sv') = (case rc of Inl x \<Rightarrow> (Inl x, sv1) | Inr c \<Rightarrow> goal_sync ?sid c sv1)"
      by (auto simp: prepare_mutation_def op_bind_def assert_live_def split: sum.splits)
    show ?thesis
    proof (cases rc)
      case (Inl x)
      with res cached show ?thesis by auto
    next
      case (Inr c0)
      have log: "session_log_of ?sid sv1 = ?evs" using cached(2) by (rule same_world_log)
      have ok: "cache_ok (session_log_of ?sid sv1) c0" using cached(3) [OF Inr] by (simp add: log)
      have "goal_sync ?sid c0 sv1 = (r, sv')" using res Inr by simp
      note synced = goal_sync_cases [OF cached(1) ok this, unfolded log]
      show ?thesis
      proof (intro conjI allI impI)
        show "service_ok sv'" by (rule synced(1))
        show "same_world sv sv'" using cached(2) synced(2) by (rule same_world_trans)
      qed (use synced(3,4) in blast)+
    qed
  qed
  then show "service_ok sv'" and "same_world sv sv'"
    and "r = Inr c \<Longrightarrow> folded_to (session_log_of (ga_session ag) sv) c \<and> gc_pending c = None
           \<and> sv_caches sv' (ga_session ag) = Some c"
    and "r = Inl x \<Longrightarrow> x = GoalError Agent_Not_Live \<and> sv_live sv (ga_id ag) \<noteq> Some (ga_object ag) \<or>
           (\<exists>y. x = ReplayFailed y \<and>
             fst (replay goal_step empty_goal_fold_state (session_log_of (ga_session ag) sv)) = Some y)"
    by blast+
qed

lemma view_of_folded:
  assumes "goal_ok (gc_state c)"
  shows "view_of c =
    (case gf_goal (gc_state c) of
       None \<Rightarrow> Inr None
     | Some g \<Rightarrow> Inr (Some \<lparr>gv_goal = g, gv_rounds = gf_rounds (gc_state c),
         gv_created = the (gf_created (gc_state c)), gv_updated = the (gf_updated (gc_state c)),
         gv_activation = gc_activation c\<rparr>))"
  using assms by (auto simp: view_of_def goal_ok_def split: option.splits)

lemma folded_goal_ok: "folded_to evs c \<Longrightarrow> goal_ok (gc_state c)"
  using goal_log.replay_inv by (auto simp: folded_to_def)

text \<open>The view of a folded goal.\<close>

definition folded_view :: "activation \<Rightarrow> folded_goal \<Rightarrow> goal_view option" where
  "folded_view a f =
     (case fg_goal f of
        None \<Rightarrow> None
      | Some g \<Rightarrow> Some \<lparr>gv_goal = g, gv_rounds = fg_rounds f, gv_created = the (fg_created f),
                        gv_updated = the (fg_updated f), gv_activation = a\<rparr>)"

lemma folded_view_of:
  assumes "folded_to evs c"
  shows "\<exists>f. fold_goal evs = Inr f \<and> view_of c = Inr (folded_view (gc_activation c) f)"
  using assms view_of_folded [OF folded_goal_ok [OF assms]]
  by (auto simp: folded_to_def fold_goal_def folded_view_def split: option.splits)

lemma fold_goal_Inl_iff: "fold_goal evs = Inl x \<longleftrightarrow> fst (replay goal_step empty_goal_fold_state evs) = Some x"
  by (auto simp: fold_goal_def split: prod.splits option.splits)

lemma goal_get_prepare:
  "goal_get ag = op_bind (prepare_mutation ag) (\<lambda>c. op_lift (view_of c))"
  by (rule ext) (simp add: goal_get_def prepare_mutation_def op_bind_def split: prod.splits sum.splits)

theorem goal_get_is_fold:
  assumes "service_ok sv" and "goal_get ag sv = (r, sv')"
  shows "(\<forall>sid. session_log_of sid sv' = session_log_of sid sv)
    \<and> (if sv_live sv (ga_id ag) \<noteq> Some (ga_object ag) then r = Inl (GoalError Agent_Not_Live)
         else case fold_goal (session_log_of (ga_session ag) sv) of
                Inl x \<Rightarrow> r = Inl (ReplayFailed x)
              | Inr f \<Rightarrow> \<exists>a. r = Inr (folded_view a f))"
proof -
  obtain rc sv1 where prep: "prepare_mutation ag sv = (rc, sv1)"
    by (cases "prepare_mutation ag sv") auto
  note p = prepare_mutation_cases [OF assms(1) prep]
  have res: "(r, sv') = (case rc of Inl x \<Rightarrow> (Inl x, sv1) | Inr c \<Rightarrow> (view_of c, sv1))"
    using assms(2) prep by (simp add: goal_get_prepare op_bind_def op_lift_def split: sum.splits)
  then have "sv' = sv1" by (cases rc) simp_all
  then have logs: "session_log_of sid sv' = session_log_of sid sv" for sid
    using p(2) by (simp add: same_world_log)
  have dead: "r = Inl (GoalError Agent_Not_Live)" if "sv_live sv (ga_id ag) \<noteq> Some (ga_object ag)"
    using that assms(2) by (simp add: goal_get_def op_bind_def assert_live_def)
  have live: "case fold_goal (session_log_of (ga_session ag) sv) of
         Inl x \<Rightarrow> r = Inl (ReplayFailed x)
       | Inr f \<Rightarrow> \<exists>a. r = Inr (folded_view a f)"
    if "sv_live sv (ga_id ag) = Some (ga_object ag)"
  proof (cases rc)
    case (Inl x)
    with p(4) that obtain y where "x = ReplayFailed y"
      "fold_goal (session_log_of (ga_session ag) sv) = Inl y"
      by (auto simp: fold_goal_Inl_iff)
    with res Inl show ?thesis by simp
  next
    case (Inr c)
    from p(3) [OF this] folded_view_of obtain f where
      "fold_goal (session_log_of (ga_session ag) sv) = Inr f" "view_of c = Inr (folded_view (gc_activation c) f)"
      by blast
    with res Inr show ?thesis by auto
  qed
  from logs dead live show ?thesis by simp
qed

subsection \<open>What a commit does\<close>

lemma sync_own_change:
  assumes "folded_to evs c" and "apply_goal_event (gc_state c) e = Inr st" and "is_goal_change e"
    and "gc_pending c = Some (ev_seq e, act)"
  shows "sync_events [e] c = (None, c\<lparr>gc_state := st, gc_activation := act, gc_observed := gc_observed c + 1\<rparr>)"
  using assms by (simp add: reconcile_activation_def)

lemma append_grows_log:
  assumes "append_event k s = (r, s')"
  shows "(\<exists>x. r = Inl x \<and> ss_log s' = ss_log s) \<or>
    (\<exists>e d. r = Inr e \<and> ac_data k = Some d \<and> ss_log s' = ss_log s @ [e] \<and> ev_data e = d
       \<and> ev_seq e = int (length (ss_log s)) \<and> ev_time e = ac_time k)"
  using assms by (cases rule: append_event_cases) (auto simp: next_event_def)

lemma goal_commit_cases [consumes 6, case_names refused logged]:
  assumes "service_ok sv" and "folded_to (session_log_of (ga_session ag) sv) c" and "gc_pending c = None"
    and "wf_change ch" and "apply_goal_change (gc_state c) ch = Inr st"
    and "goal_commit env ag c ch act sv = (r, sv')"
  obtains x s where "append_event (goal_append_call env ch) (sv_sessions sv (ga_session ag)) = (Inl x, s)"
      "r = Inl (AppendFailed x)" "service_ok sv'" "\<And>i. session_log_of i sv' = session_log_of i sv"
      "sv_emitted sv' = sv_emitted sv"
  | e s c' v where "append_event (goal_append_call env ch) (sv_sessions sv (ga_session ag)) = (Inr e, s)"
      "ev_data e = GoalChange (encode_goal_change ch)" "r = Inr c'" "service_ok sv'"
      "session_log_of (ga_session ag) sv' = session_log_of (ga_session ag) sv @ [e]"
      "\<And>i. i \<noteq> ga_session ag \<Longrightarrow> session_log_of i sv' = session_log_of i sv"
      "folded_to (session_log_of (ga_session ag) sv') c'" "gc_state c' = st" "gc_activation c' = act"
      "sv_caches sv' (ga_session ag) = Some c'" "view_of c' = Inr v"
      "sv_emitted sv' = sv_emitted sv @ [(ga_object ag, \<lparr>gn_op = change_operation ch,
         gn_ref = goal_change_ref ch, gn_goal = v\<rparr>)]"
proof -
  let ?sid = "ga_session ag"
  let ?s = "sv_sessions sv ?sid"
  obtain q s where app: "append_event (goal_append_call env ch) ?s = (q, s)"
    by (cases "append_event (goal_append_call env ch) ?s") auto
  let ?sv = "sv\<lparr>sv_sessions := (sv_sessions sv)(?sid := s)\<rparr>"
  from append_grows_log [OF app] consider x where "q = Inl x" "ss_log s = ss_log ?s"
    | e where "q = Inr e" "ss_log s = ss_log ?s @ [e]" "ev_data e = GoalChange (encode_goal_change ch)"
        "ev_seq e = int (length (ss_log ?s))"
    by (auto simp: goal_append_call_def)
  then show thesis
  proof cases
    case 1
    then have logs: "session_log_of i ?sv = session_log_of i sv" for i by (simp add: session_log_of_def)
    then have "service_ok ?sv" using assms(1) by (simp add: service_ok_def)
    moreover have "cache_ok (session_log_of ?sid ?sv) (c\<lparr>gc_pending := None\<rparr>)"
      using folded_cache_ok [OF assms(2,3)] unfolding logs by (rule cache_ok_cong) simp_all
    ultimately have "service_ok (store_cache ?sid (c\<lparr>gc_pending := None\<rparr>) ?sv)" by (rule service_ok_store)
    moreover have "r = Inl (AppendFailed x)" "sv' = store_cache ?sid (c\<lparr>gc_pending := None\<rparr>) ?sv"
      using assms(6) app 1 by (simp_all add: goal_commit_def Let_def)
    ultimately show thesis using that(1) app 1 logs by simp
  next
    case 2
    let ?p = "c\<lparr>gc_pending := Some (ev_seq e, act)\<rparr>"
    let ?c = "c\<lparr>gc_state := st, gc_activation := act, gc_observed := gc_observed c + 1, gc_pending := None\<rparr>"
    have step: "apply_goal_event (gc_state c) e = Inr st"
      using 2(3) assms(4,5) by (simp add: apply_goal_event_def goal_change_round_trip)
    have "folded_to (session_log_of ?sid sv) ?p" using assms(2) by (rule folded_to_cong) simp_all
    then have sync: "sync_events [e] ?p =
        (None, ?p\<lparr>gc_state := st, gc_activation := act, gc_observed := gc_observed c + 1\<rparr>)"
      using sync_own_change [of "session_log_of ?sid sv" ?p e st act] step 2(3)
      by (simp add: is_goal_change_def)
    have new: "drop (gc_observed c) (ss_log s) = [e]"
      using assms(2) 2(2) by (simp add: folded_to_def session_log_of_def)
    have log: "session_log_of ?sid ?sv = session_log_of ?sid sv @ [e]"
      and logs: "\<And>i. i \<noteq> ?sid \<Longrightarrow> session_log_of i ?sv = session_log_of i sv"
      using 2(2) by (simp_all add: session_log_of_def)
    have fold: "folded_to (session_log_of ?sid ?sv) ?c"
      unfolding log using folded_to_step [OF assms(2) step, of act] by (rule folded_to_cong) simp_all
    have "cache_ok (session_log_of i ?sv) k" if "sv_caches ?sv i = Some k" for i k
      using service_okD [OF assms(1), of i k] that log logs cache_ok_grow by (cases "i = ?sid") auto
    then have "service_ok ?sv" by (simp add: service_ok_def)
    then have ok: "service_ok (store_cache ?sid ?c ?sv)"
      by (rule service_ok_store) (rule folded_cache_ok [OF fold], simp)
    obtain v where v: "view_of ?c = Inr v" using folded_view_of [OF fold] by blast
    have res: "r = Inr ?c"
      "sv' = (store_cache ?sid ?c ?sv)\<lparr>sv_emitted := sv_emitted sv @
          [(ga_object ag, \<lparr>gn_op = change_operation ch, gn_ref = goal_change_ref ch, gn_goal = v\<rparr>)]\<rparr>"
      using assms(6) app 2(1,4) sync new v by (simp_all add: goal_commit_def session_log_of_def Let_def)
    have sel: "session_log_of i sv' = session_log_of i ?sv" for i
      by (simp add: res(2) session_log_of_def)
    have "service_ok sv'"
      using ok unfolding res(2) service_ok_def session_log_of_def by simp
    then show thesis
      using that(2) [of e s ?c v] app 2(1,3) res log logs fold v unfolding sel by simp
  qed
qed

subsection \<open>Commands and their abstract plan\<close>

datatype goal_command =
    Cmd_Create goal_request
  | Cmd_Edit goal_ref goal_request
  | Cmd_Pause goal_ref
  | Cmd_Resume goal_ref
  | Cmd_Complete goal_ref
  | Cmd_Block goal_ref "json option"
  | Cmd_Clear goal_ref

datatype goal_reply = Reply_View goal_view | Reply_Ref goal_ref

definition run_command :: "goal_env \<Rightarrow> goal_agent \<Rightarrow> goal_command \<Rightarrow> goal_reply goal_op" where
  "run_command env ag cmd =
     (let view = (\<lambda>m. op_bind m (\<lambda>v. op_lift (Inr (Reply_View v)))) in
      case cmd of
        Cmd_Create rq \<Rightarrow> view (goal_create env ag rq)
      | Cmd_Edit r rq \<Rightarrow> view (goal_edit env ag r rq)
      | Cmd_Pause r \<Rightarrow> view (goal_pause env ag r)
      | Cmd_Resume r \<Rightarrow> view (goal_resume env ag r)
      | Cmd_Complete r \<Rightarrow> view (goal_complete env ag r)
      | Cmd_Block r b \<Rightarrow> view (goal_block env ag r b)
      | Cmd_Clear r \<Rightarrow> op_bind (goal_clear env ag r) (\<lambda>x. op_lift (Inr (Reply_Ref x))))"

text \<open>
  What the service promises, on the folded goal alone: a compare-and-set decision that
  either rejects the command or names the change and the activation after it.
\<close>

definition current_of :: "goal_fold_state \<Rightarrow> goal_ref \<Rightarrow> goal_error_code + goal_snapshot" where
  "current_of st r =
     (case gf_goal st of
        None \<Rightarrow> Inl Goal_Not_Found
      | Some g \<Rightarrow> if r = snapshot_ref g then Inr g else Inl Goal_Stale_Revision)"

definition revised :: "goal_env \<Rightarrow> goal_fold_state \<Rightarrow> snapshot_op \<Rightarrow> goal_snapshot \<Rightarrow> goal_change" where
  "revised env st p g =
     Snapshot_Change \<lparr>sc_op = p, sc_goal = g, sc_rounds = gf_rounds st, sc_created = the (gf_created st),
       sc_updated = max (ge_now env) (the (gf_updated st))\<rparr>"

definition moved ::
  "goal_env \<Rightarrow> goal_fold_state \<Rightarrow> goal_ref \<Rightarrow> snapshot_op \<Rightarrow> goal_phase set \<Rightarrow> goal_phase
    \<Rightarrow> activation \<Rightarrow> goal_error_code + goal_change \<times> activation"
where
  "moved env st r p allowed phase act =
     and_then (current_of st r)
       (\<lambda>g. if gs_phase g \<in> allowed then Inr (revised env st p (with_phase g phase), act)
             else Inl Goal_Invalid_Transition)"

definition plan_command ::
  "goal_env \<Rightarrow> int \<Rightarrow> goal_fold_state \<Rightarrow> activation \<Rightarrow> goal_command
    \<Rightarrow> goal_error_code + goal_change \<times> activation"
where
  "plan_command env dflt st a cmd =
     (case cmd of
        Cmd_Create rq \<Rightarrow>
          and_then (resolve_create_goal rq dflt)
            (\<lambda>spec. if goal_open st
              then Inl Goal_Already_Exists
              else Inr (Snapshot_Change \<lparr>sc_op = Op_Create,
                sc_goal = \<lparr>gs_id = fresh_goal_id env, gs_revision = 1, gs_objective = fst spec,
                           gs_phase = Goal_Active, gs_blocked = None, gs_max_rounds = snd spec\<rparr>,
                sc_rounds = 0, sc_created = ge_now env, sc_updated = ge_now env\<rparr>, Armed))
      | Cmd_Edit r rq \<Rightarrow>
          and_then (current_of st r)
            (\<lambda>g. if rq_objective rq = None \<and> rq_max_rounds rq = None then Inl Goal_Invalid_Edit
              else and_then (edited_snapshot g rq) (\<lambda>g'. Inr (revised env st Op_Edit g', a)))
      | Cmd_Pause r \<Rightarrow> moved env st r Op_Pause {Goal_Active} Goal_Paused Disarmed
      | Cmd_Complete r \<Rightarrow>
          moved env st r Op_Complete {Goal_Active, Goal_Paused, Goal_Blocked} Goal_Complete Disarmed
      | Cmd_Resume r \<Rightarrow>
          and_then (current_of st r)
            (\<lambda>g. if gs_phase g \<noteq> Goal_Complete \<and> \<not> (gs_phase g = Goal_Active \<and> a = Armed)
                     \<and> gf_rounds st < gs_max_rounds g
              then Inr (revised env st Op_Resume (with_phase g Goal_Active), Armed)
              else Inl Goal_Invalid_Transition)
      | Cmd_Block r reason \<Rightarrow>
          and_then (current_of st r)
            (\<lambda>g. if gs_phase g \<noteq> Goal_Active then Inl Goal_Invalid_Transition
              else and_then (resolve_block_reason reason)
                (\<lambda>b. Inr (revised env st Op_Block ((with_phase g Goal_Blocked)\<lparr>gs_blocked := Some b\<rparr>), Disarmed)))
      | Cmd_Clear r \<Rightarrow>
          and_then (current_of st r)
            (\<lambda>g. Inr (Clear_Change \<lparr>gr_id = gs_id g, gr_revision = gs_revision g + 1\<rparr>
                         (max (ge_now env) (the (gf_updated st))), Disarmed)))"

definition reply_of :: "goal_change \<Rightarrow> goal_cache \<Rightarrow> goal_failure + goal_reply" where
  "reply_of ch c =
     (case ch of
        Clear_Change r _ \<Rightarrow> Inr (Reply_Ref r)
      | Snapshot_Change _ \<Rightarrow>
          and_then (view_of c)
            (\<lambda>v. case v of None \<Rightarrow> Inl CommitClearedGoal | Some view \<Rightarrow> Inr (Reply_View view)))"

definition commit_plan ::
  "goal_env \<Rightarrow> goal_agent \<Rightarrow> goal_cache \<Rightarrow> goal_change \<times> activation \<Rightarrow> goal_reply goal_op"
where
  "commit_plan env ag c p = op_bind (goal_commit env ag c (fst p) (snd p)) (\<lambda>c'. op_lift (reply_of (fst p) c'))"

lemma op_lift_Pair [simp]: "op_lift = Pair"
  by (simp add: op_lift_def fun_eq_iff)

lemma op_bind_simps [simp]:
  "op_bind (Pair (Inl x)) f = Pair (Inl x)"
  "op_bind (Pair (Inr a)) f = f a"
  "op_bind (op_bind m f) g = op_bind m (\<lambda>a. op_bind (f a) g)"
  "m sv = (Inr a, sv') \<Longrightarrow> op_bind m f sv = f a sv'"
  by (auto simp: op_bind_def fun_eq_iff split: prod.splits sum.splits)

lemma op_bind_at: "m sv = m' sv' \<Longrightarrow> op_bind m f sv = op_bind m' f sv'"
  by (simp add: op_bind_def)

lemma commit_snapshot_plan [simp]:
  "op_bind (commit_snapshot env ag c sc act) (\<lambda>v. Pair (Inr (Reply_View v))) =
   commit_plan env ag c (Snapshot_Change sc, act)"
proof -
  have "op_bind (Pair (view_of c')) (\<lambda>v. op_bind (case v of None \<Rightarrow> Pair (Inl CommitClearedGoal)
          | Some view \<Rightarrow> Pair (Inr view)) (\<lambda>v. Pair (Inr (Reply_View v))))
        = (Pair (reply_of (Snapshot_Change sc) c') :: goal_reply goal_op)" for c'
  proof (cases "view_of c'")
    case (Inr v)
    then show ?thesis by (cases v) (simp_all add: reply_of_def)
  qed (simp add: reply_of_def)
  then show ?thesis
    unfolding commit_snapshot_def commit_plan_def op_bind_simps op_lift_Pair fst_conv snd_conv by (simp only:)
qed

lemma commit_current_plan:
  assumes "goal_ok (gc_state c)" and "gf_goal (gc_state c) = Some g"
  shows "op_bind (commit_current env ag c p g' act) (\<lambda>v. op_lift (Inr (Reply_View v))) =
         commit_plan env ag c (revised env (gc_state c) p g', act)"
  using assms
  by (auto simp: commit_current_def next_mutation_time_def goal_ok_def revised_def commit_snapshot_plan)

lemma expect_current_plan: "expect_current c r = map_sum GoalError id (current_of (gc_state c) r)"
  by (auto simp: expect_current_def current_of_def snapshot_ref_def split: option.splits)

lemma current_of_Inr_iff: "current_of st r = Inr g \<longleftrightarrow> gf_goal st = Some g \<and> r = snapshot_ref g"
  by (auto simp: current_of_def split: option.splits)

lemma goal_transition_plan:
  assumes "goal_ok (gc_state c)" and "prepare_mutation ag sv = (Inr c, sv1)"
  shows "op_bind (goal_transition env ag r p allowed phase act) (\<lambda>v. op_lift (Inr (Reply_View v))) sv =
     (case moved env (gc_state c) r p (set allowed) phase act of
        Inl x \<Rightarrow> (Inl (GoalError x), sv1) | Inr pl \<Rightarrow> commit_plan env ag c pl sv1)"
proof (cases "current_of (gc_state c) r")
  case (Inr g)
  then have "gf_goal (gc_state c) = Some g" by (simp add: current_of_Inr_iff)
  with commit_current_plan [OF assms(1) this] assms(2) Inr show ?thesis
    by (simp add: goal_transition_def moved_def expect_current_plan)
qed (simp add: goal_transition_def moved_def expect_current_plan assms(2))

lemma run_command_plan:
  assumes ok: "goal_ok (gc_state c)" and prep: "prepare_mutation ag sv = (Inr c, sv1)"
    and dflt: "sv_default_rounds sv = dflt"
  shows "run_command env ag cmd sv =
     (case plan_command env dflt (gc_state c) (gc_activation c) cmd of
        Inl x \<Rightarrow> (Inl (GoalError x), if (\<exists>rq y. cmd = Cmd_Create rq \<and> resolve_create_goal rq dflt = Inl y) then sv else sv1)
      | Inr pl \<Rightarrow> commit_plan env ag c pl sv1)"
proof (cases cmd)
  case (Cmd_Create rq)
  show ?thesis
  proof (cases "resolve_create_goal rq dflt")
    case (Inl x)
    then show ?thesis by (simp add: Cmd_Create run_command_def plan_command_def goal_create_def op_bind_def dflt)
  next
    case (Inr spec)
    let ?change = "\<lparr>sc_op = Op_Create,
        sc_goal = \<lparr>gs_id = fresh_goal_id env, gs_revision = 1, gs_objective = fst spec,
                   gs_phase = Goal_Active, gs_blocked = None, gs_max_rounds = snd spec\<rparr>,
        sc_rounds = 0, sc_created = ge_now env, sc_updated = ge_now env\<rparr>"
    have created: "goal_create env ag rq sv =
      (if goal_open (gc_state c)
       then (Inl (GoalError Goal_Already_Exists), sv1) else commit_snapshot env ag c ?change Armed sv1)"
      using Inr prep dflt by (auto simp: goal_create_def split: option.splits)
    show ?thesis
    proof (cases "goal_open (gc_state c)")
      case True
      with created Inr show ?thesis
        by (simp add: Cmd_Create run_command_def plan_command_def op_bind_def)
    next
      case False
      with created have "goal_create env ag rq sv = commit_snapshot env ag c ?change Armed sv1" by simp
      from op_bind_at [where m = "goal_create env ag rq" and m' = "commit_snapshot env ag c ?change Armed"
          and f = "\<lambda>v. Pair (Inr (Reply_View v))", OF this] False Inr show ?thesis
        by (auto simp: Cmd_Create run_command_def plan_command_def)
    qed
  qed
next
  case (Cmd_Edit r rq)
  show ?thesis
  proof (cases "current_of (gc_state c) r")
    case (Inr g)
    then have "gf_goal (gc_state c) = Some g" by (simp add: current_of_Inr_iff)
    with commit_current_plan [OF ok this] prep Inr show ?thesis
      by (cases "edited_snapshot g rq")
        (simp_all add: Cmd_Edit run_command_def plan_command_def goal_edit_def expect_current_plan)
  qed (simp add: Cmd_Edit run_command_def plan_command_def goal_edit_def expect_current_plan prep)
next
  case (Cmd_Pause r)
  then show ?thesis
    using goal_transition_plan [OF ok prep, of env r Op_Pause "[Goal_Active]"]
    by (simp add: run_command_def plan_command_def goal_pause_def)
next
  case (Cmd_Complete r)
  then show ?thesis
    using goal_transition_plan [OF ok prep, of env r Op_Complete "[Goal_Active, Goal_Paused, Goal_Blocked]"]
    by (simp add: run_command_def plan_command_def goal_complete_def)
next
  case (Cmd_Resume r)
  show ?thesis
  proof (cases "current_of (gc_state c) r")
    case (Inr g)
    then have "gf_goal (gc_state c) = Some g" by (simp add: current_of_Inr_iff)
    moreover have "gs_phase g \<notin> {Goal_Active, Goal_Paused, Goal_Blocked} \<longleftrightarrow> gs_phase g = Goal_Complete"
      by (cases "gs_phase g") simp_all
    ultimately show ?thesis
      using commit_current_plan [OF ok] prep Inr
      by (auto simp: Cmd_Resume run_command_def plan_command_def goal_resume_def expect_current_plan)
  qed (simp add: Cmd_Resume run_command_def plan_command_def goal_resume_def expect_current_plan prep)
next
  case (Cmd_Block r reason)
  show ?thesis
  proof (cases "current_of (gc_state c) r")
    case (Inr g)
    then have "gf_goal (gc_state c) = Some g" by (simp add: current_of_Inr_iff)
    with commit_current_plan [OF ok this] prep Inr show ?thesis
      by (cases "resolve_block_reason reason")
        (simp_all add: Cmd_Block run_command_def plan_command_def goal_block_def expect_current_plan)
  qed (simp add: Cmd_Block run_command_def plan_command_def goal_block_def expect_current_plan prep)
next
  case (Cmd_Clear r)
  show ?thesis
  proof (cases "current_of (gc_state c) r")
    case (Inr g)
    then have "gf_goal (gc_state c) = Some g" by (simp add: current_of_Inr_iff)
    with ok obtain u where "gf_updated (gc_state c) = Some u" by (auto simp: goal_ok_def)
    with prep Inr show ?thesis
      by (simp add: Cmd_Clear run_command_def plan_command_def goal_clear_def expect_current_plan
          next_mutation_time_def commit_plan_def reply_of_def Let_def)
  qed (simp add: Cmd_Clear run_command_def plan_command_def goal_clear_def expect_current_plan prep)
qed

subsection \<open>A planned change is accepted by the strict fold\<close>

lemma dropWhile_prefix: "dropWhile p xs = xs \<Longrightarrow> xs = ys @ zs \<Longrightarrow> dropWhile p ys = ys"
  unfolding dropWhile_eq_self_iff by (cases ys) auto

lemma js_trim_idem [simp]: "js_trim (js_trim s) = js_trim s"
proof -
  let ?a = "dropWhile js_space s" and ?b = "rev (dropWhile js_space (rev (dropWhile js_space s)))"
  have "?a = ?b @ rev (takeWhile js_space (rev ?a))"
    by (metis rev_append rev_rev_ident takeWhile_dropWhile_id)
  moreover have "dropWhile js_space ?a = ?a" by (simp add: dropWhile_idem)
  ultimately have "dropWhile js_space ?b = ?b" using dropWhile_prefix by blast
  then show ?thesis by (simp add: js_trim_def dropWhile_idem)
qed

lemma wf_normalized_trim: "js_trim s \<noteq> [] \<Longrightarrow> wf_normalized (js_trim s)"
  by (simp add: wf_normalized_def)

lemma resolve_objective_wf: "resolve_objective v = Inr s \<Longrightarrow> wf_normalized s"
  by (auto simp: resolve_objective_def wf_normalized_trim split: option.splits if_splits)

lemma resolve_max_rounds_wf: "resolve_max_rounds v = Inr n \<Longrightarrow> wf_positive n"
  by (auto simp: resolve_max_rounds_def wf_positive_def json_safe_int_Some_iff split: option.splits if_splits)

lemma resolve_block_reason_wf: "resolve_block_reason v = Inr b \<Longrightarrow> wf_reason b"
  by (auto simp: resolve_block_reason_def wf_reason_def wf_normalized_trim split: option.splits if_splits)

definition in_range :: "goal_env \<Rightarrow> goal_fold_state \<Rightarrow> bool" where
  "in_range env st \<longleftrightarrow>
     wf_count (ge_now env) \<and> fresh_goal_id env \<notin> gf_seen st
     \<and> (\<forall>g. gf_goal st = Some g \<longrightarrow> gs_revision g < max_safe)"

lemma wf_positive_Suc: "wf_positive r \<Longrightarrow> r < max_safe \<Longrightarrow> wf_positive (r + 1)"
  by (simp add: wf_positive_def safe_int_def max_safe_def)

lemma wf_count_max: "wf_count a \<Longrightarrow> wf_count b \<Longrightarrow> wf_count (max a b)"
  by (simp add: max_def)

text \<open>A revised snapshot passes the counters; its phase step is checked per operation.\<close>

lemma revised_accepted:
  assumes "goal_ok st" and "in_range env st" and "gf_goal st = Some g"
    and "wf_snapshot g'" and "gs_id g' = gs_id g" and "gs_revision g' = gs_revision g + 1"
    and "p \<noteq> Op_Create" and "validate_phase_step st p g' g = None"
  shows "wf_change (revised env st p g')"
    and "\<exists>c. revised env st p g' = Snapshot_Change c \<and> sc_goal c = g'
          \<and> apply_goal_change st (revised env st p g') = Inr (install_snapshot st c)"
proof -
  from assms(1,3) obtain c u where cu: "gf_created st = Some c" "gf_updated st = Some u" "wf_count c"
    "wf_count u" "c \<le> u" "wf_count (gf_rounds st)" by (auto simp: goal_ok_def)
  with assms(2,4) show "wf_change (revised env st p g')"
    by (simp add: revised_def wf_change_def in_range_def wf_count_max)
  show "\<exists>c. revised env st p g' = Snapshot_Change c \<and> sc_goal c = g'
          \<and> apply_goal_change st (revised env st p g') = Inr (install_snapshot st c)"
    using assms(3,5-8) cu
    by (simp add: revised_def apply_goal_change_def validate_snapshot_transition_def
        is_next_revision_def snapshot_ref_def)
qed

lemma with_phase_wf:
  "wf_snapshot g \<Longrightarrow> gs_revision g < max_safe \<Longrightarrow> p \<noteq> Goal_Blocked \<Longrightarrow> wf_snapshot (with_phase g p)"
  by (simp add: wf_snapshot_def with_phase_def wf_positive_Suc)

lemma with_phase_sel [simp]:
  "gs_id (with_phase g p) = gs_id g" "gs_revision (with_phase g p) = gs_revision g + 1"
  "gs_phase (with_phase g p) = p" "gs_blocked (with_phase g p) = None"
  "gs_objective (with_phase g p) = gs_objective g" "gs_max_rounds (with_phase g p) = gs_max_rounds g"
  by (simp_all add: with_phase_def)

lemma edited_snapshot_Inr:
  assumes "edited_snapshot g rq = Inr g'" and "wf_snapshot g" and "gs_revision g < max_safe"
  shows "wf_snapshot g'" and "gs_id g' = gs_id g" and "gs_revision g' = gs_revision g + 1"
    and "gs_phase g' = gs_phase g" and "gs_blocked g' = gs_blocked g"
proof -
  from assms(1) obtain obj n where g': "g' = g\<lparr>gs_revision := gs_revision g + 1, gs_objective := obj, gs_max_rounds := n\<rparr>"
    and obj: "(case rq_objective rq of None \<Rightarrow> Inr (gs_objective g) | Some v \<Rightarrow> resolve_objective (Some v)) = Inr obj"
    and n: "(case rq_max_rounds rq of None \<Rightarrow> Inr (gs_max_rounds g) | Some v \<Rightarrow> resolve_max_rounds v) = Inr n"
    unfolding edited_snapshot_def and_then_Inr_iff by blast
  have "wf_normalized obj" "wf_positive n"
    using obj n assms(2) resolve_objective_wf resolve_max_rounds_wf
    by (auto simp: wf_snapshot_def split: option.splits)
  with assms(2,3) show "wf_snapshot g'" by (simp add: g' wf_snapshot_def wf_positive_Suc)
qed (use assms(1) in \<open>auto simp: edited_snapshot_def and_then_Inr_iff\<close>)

definition accepted :: "goal_fold_state \<Rightarrow> goal_change \<Rightarrow> bool" where
  "accepted st ch \<longleftrightarrow> wf_change ch \<and> (\<exists>st'. apply_goal_change st ch = Inr st')"

lemma revised_is_accepted:
  assumes "goal_ok st" and "in_range env st" and "gf_goal st = Some g"
    and "wf_snapshot g'" and "gs_id g' = gs_id g" and "gs_revision g' = gs_revision g + 1"
    and "p \<noteq> Op_Create" and "validate_phase_step st p g' g = None"
  shows "accepted st (revised env st p g')"
  using revised_accepted [OF assms] unfolding accepted_def by blast

lemma current_facts:
  assumes "goal_ok st" and "in_range env st" and "current_of st r = Inr g"
  shows "gf_goal st = Some g" and "wf_snapshot g" and "gs_revision g < max_safe"
  using assms by (auto simp: goal_ok_def in_range_def current_of_Inr_iff)

lemma moved_accepted:
  assumes ok: "goal_ok st" "in_range env st" and m: "moved env st r p allowed phase act = Inr pl"
    and p: "p \<noteq> Op_Create" "phase \<noteq> Goal_Blocked"
    and step: "\<And>g. gs_phase g \<in> allowed \<Longrightarrow> validate_phase_step st p (with_phase g phase) g = None"
  shows "accepted st (fst pl)"
proof -
  from m obtain g where g: "current_of st r = Inr g" "gs_phase g \<in> allowed"
    and pl: "pl = (revised env st p (with_phase g phase), act)"
    by (auto simp: moved_def and_then_Inr_iff split: if_splits)
  note cur = current_facts [OF ok g(1)]
  have "accepted st (revised env st p (with_phase g phase))"
    using ok cur(1) with_phase_wf [OF cur(2,3) p(2)] p(1) step [OF g(2)]
    by (intro revised_is_accepted) simp_all
  then show ?thesis by (simp add: pl)
qed

lemma plan_accepted:
  assumes ok: "goal_ok st" "in_range env st" and plan: "plan_command env dflt st a cmd = Inr pl"
  shows "accepted st (fst pl)"
proof (cases cmd)
  case (Cmd_Create rq)
  with plan obtain obj n where spec: "resolve_create_goal rq dflt = Inr (obj, n)"
    and free: "\<forall>g. gf_goal st = Some g \<longrightarrow> gs_phase g = Goal_Complete"
    and pl: "fst pl = Snapshot_Change \<lparr>sc_op = Op_Create,
                sc_goal = \<lparr>gs_id = fresh_goal_id env, gs_revision = 1, gs_objective = obj,
                           gs_phase = Goal_Active, gs_blocked = None, gs_max_rounds = n\<rparr>,
                sc_rounds = 0, sc_created = ge_now env, sc_updated = ge_now env\<rparr>"
    by (auto simp: plan_command_def and_then_Inr_iff goal_open_def split: if_splits option.splits)
  from spec have "wf_normalized obj" "wf_positive n"
    by (auto simp: resolve_create_goal_def and_then_Inr_iff dest: resolve_objective_wf resolve_max_rounds_wf)
  then have "wf_change (fst pl)"
    using ok(2) by (simp add: pl wf_change_def wf_snapshot_def in_range_def fresh_goal_id_def
        wf_positive_def wf_count_def safe_int_def max_safe_def)
  moreover have "\<exists>st'. apply_goal_change st (fst pl) = Inr st'"
    using ok(2) free by (auto simp: pl apply_goal_change_def apply_create_def in_range_def split: option.splits)
  ultimately show ?thesis by (simp add: accepted_def)
next
  case (Cmd_Edit r rq)
  with plan obtain g g' where g: "current_of st r = Inr g" "edited_snapshot g rq = Inr g'"
    and pl: "fst pl = revised env st Op_Edit g'"
    by (auto simp: plan_command_def and_then_Inr_iff split: if_splits)
  note cur = current_facts [OF ok g(1)]
  from revised_is_accepted [OF ok cur(1), of g' Op_Edit] edited_snapshot_Inr [OF g(2) cur(2,3)]
  show ?thesis by (simp add: pl validate_phase_step_def)
next
  case (Cmd_Pause r)
  with plan show ?thesis
    by (intro moved_accepted [OF ok, of r Op_Pause "{Goal_Active}" Goal_Paused Disarmed])
      (simp_all add: plan_command_def validate_phase_step_def same_definition_def)
next
  case (Cmd_Complete r)
  with plan show ?thesis
    by (intro moved_accepted [OF ok, of r Op_Complete "{Goal_Active, Goal_Paused, Goal_Blocked}" Goal_Complete Disarmed])
      (auto simp: plan_command_def validate_phase_step_def same_definition_def)
next
  case (Cmd_Resume r)
  with plan obtain g where g: "current_of st r = Inr g" "gs_phase g \<noteq> Goal_Complete"
    "gf_rounds st < gs_max_rounds g" and pl: "fst pl = revised env st Op_Resume (with_phase g Goal_Active)"
    by (auto simp: plan_command_def and_then_Inr_iff split: if_splits)
  note cur = current_facts [OF ok g(1)]
  have "gs_phase g \<in> {Goal_Active, Goal_Paused, Goal_Blocked}" using g(2) by (cases "gs_phase g") simp_all
  with revised_is_accepted [OF ok cur(1) with_phase_wf [OF cur(2,3)], of Goal_Active Op_Resume] g(3)
  show ?thesis by (simp add: pl validate_phase_step_def same_definition_def)
next
  case (Cmd_Block r reason)
  with plan obtain g b where g: "current_of st r = Inr g" "gs_phase g = Goal_Active"
    "resolve_block_reason reason = Inr b"
    and pl: "fst pl = revised env st Op_Block ((with_phase g Goal_Blocked)\<lparr>gs_blocked := Some b\<rparr>)"
    by (auto simp: plan_command_def and_then_Inr_iff split: if_splits)
  note cur = current_facts [OF ok g(1)]
  have "wf_snapshot ((with_phase g Goal_Blocked)\<lparr>gs_blocked := Some b\<rparr>)"
    using cur(2,3) resolve_block_reason_wf [OF g(3)] by (simp add: wf_snapshot_def wf_positive_Suc)
  from revised_is_accepted [OF ok cur(1) this, of Op_Block] g(2)
  show ?thesis by (simp add: pl validate_phase_step_def same_definition_def)
next
  case (Cmd_Clear r)
  with plan obtain g where g: "current_of st r = Inr g"
    and pl: "fst pl = Clear_Change \<lparr>gr_id = gs_id g, gr_revision = gs_revision g + 1\<rparr>
                        (max (ge_now env) (the (gf_updated st)))"
    by (auto simp: plan_command_def and_then_Inr_iff)
  note cur = current_facts [OF ok g]
  from ok(1) cur(1) obtain u where u: "gf_updated st = Some u" "wf_count u" by (auto simp: goal_ok_def)
  with cur ok(2) show ?thesis
    by (simp add: pl accepted_def wf_change_def wf_ref_def wf_snapshot_def in_range_def wf_positive_Suc
        wf_count_max apply_goal_change_def apply_clear_def is_next_revision_def)
qed

subsection \<open>Every state of the service\<close>

lemma goal_commit_ok:
  assumes "service_ok sv" and "folded_to (session_log_of (ga_session ag) sv) c" and "gc_pending c = None"
    and "goal_commit env ag c ch act sv = (r, sv')"
  shows "service_ok sv'"
proof -
  let ?sid = "ga_session ag"
  let ?s = "sv_sessions sv ?sid"
  let ?p = "c\<lparr>gc_pending := Some (int (length (session_log_of ?sid sv)), act)\<rparr>"
  obtain q s where app: "append_event (goal_append_call env ch) ?s = (q, s)"
    by (cases "append_event (goal_append_call env ch) ?s") auto
  let ?sv = "sv\<lparr>sv_sessions := (sv_sessions sv)(?sid := s)\<rparr>"
  obtain rest where grown: "ss_log s = ss_log ?s @ rest"
    using append_grows_log [OF app] by auto
  then have log: "session_log_of ?sid ?sv = session_log_of ?sid sv @ rest"
    and logs: "\<And>i. i \<noteq> ?sid \<Longrightarrow> session_log_of i ?sv = session_log_of i sv"
    by (simp_all add: session_log_of_def)
  have ok: "service_ok ?sv"
    unfolding service_ok_def
  proof (intro allI impI)
    fix i k
    assume "sv_caches ?sv i = Some k"
    then show "cache_ok (session_log_of i ?sv) k"
      using service_okD [OF assms(1), of i k] log logs cache_ok_grow by (cases "i = ?sid") auto
  qed
  have kept: "cache_ok (session_log_of ?sid ?sv) (c\<lparr>gc_pending := None\<rparr>)"
    unfolding log using folded_cache_ok [OF assms(2,3)]
    by (intro cache_ok_grow) (auto intro: cache_ok_cong)
  have pre: "folded_to (session_log_of ?sid sv) ?p" using assms(2) by (rule folded_to_cong) simp_all
  have "drop (gc_observed ?p) (ss_log s) = rest"
    using assms(2) grown by (simp add: folded_to_def session_log_of_def)
  obtain x c' where sync: "sync_events rest ?p = (x, c')" by (cases "sync_events rest ?p") auto
  obtain k where "folded_to (session_log_of ?sid sv @ take k rest) c'"
    by (rule sync_events_folds [OF pre sync])
  then have "folded_to (session_log_of ?sid sv @ take k rest) (c'\<lparr>gc_pending := None\<rparr>)"
    by (rule folded_to_cong) simp_all
  then have synced: "cache_ok (session_log_of ?sid ?sv) (c'\<lparr>gc_pending := None\<rparr>)"
    unfolding log cache_ok_def by (metis append.assoc append_take_drop_id goal_cache.select_convs(4) goal_cache.surjective goal_cache.update_convs(4))
  have emit: "service_ok (u\<lparr>sv_emitted := es\<rparr>) = service_ok u" for u es
    by (simp add: service_ok_def session_log_of_def)
  show ?thesis
    using assms(4) app ok kept synced sync \<open>drop (gc_observed ?p) (ss_log s) = rest\<close>
    by (auto simp: goal_commit_def Let_def emit intro!: service_ok_store split: sum.splits option.splits)
qed

lemma run_command_unprepared:
  assumes "prepare_mutation ag sv = (Inl x, sv1)"
  shows "\<exists>y. run_command env ag cmd sv = (Inl y, sv) \<or> run_command env ag cmd sv = (Inl y, sv1)"
proof -
  have stop: "op_bind (prepare_mutation ag) f sv = (Inl x, sv1)" for f :: "goal_cache \<Rightarrow> 'a goal_op"
    using assms by (simp add: op_bind_def)
  have create: "\<exists>y. goal_create env ag rq sv = (Inl y, sv) \<or> goal_create env ag rq sv = (Inl y, sv1)" for rq
    using assms by (cases "resolve_create_goal rq (sv_default_rounds sv)") (auto simp: goal_create_def op_bind_def)
  show ?thesis
  proof (cases cmd)
    case (Cmd_Create rq)
    with create [of rq] show ?thesis by (auto simp: run_command_def op_bind_def)
  qed (auto simp: run_command_def goal_edit_def goal_pause_def goal_resume_def goal_complete_def
      goal_transition_def goal_block_def goal_clear_def stop)
qed

lemma commit_plan_ok:
  assumes "service_ok sv" and "folded_to (session_log_of (ga_session ag) sv) c" and "gc_pending c = None"
    and "commit_plan env ag c p sv = (r, sv')"
  shows "service_ok sv'"
proof -
  obtain q sv1 where "goal_commit env ag c (fst p) (snd p) sv = (q, sv1)"
    by (cases "goal_commit env ag c (fst p) (snd p) sv") auto
  with goal_commit_ok [OF assms(1-3) this] assms(4) show ?thesis
    by (cases q) (simp_all add: commit_plan_def op_bind_def)
qed

lemma run_command_ok:
  assumes "service_ok sv" and "run_command env ag cmd sv = (r, sv')"
  shows "service_ok sv'"
proof -
  obtain q sv1 where prep: "prepare_mutation ag sv = (q, sv1)" by (cases "prepare_mutation ag sv") auto
  note p = prepare_mutation_cases [OF assms(1) prep]
  show ?thesis
  proof (cases q)
    case (Inl x)
    with prep have "prepare_mutation ag sv = (Inl x, sv1)" by simp
    from run_command_unprepared [OF this, of env cmd] assms p(1) show ?thesis by auto
  next
    case (Inr c)
    from p(3) [OF this] have c: "folded_to (session_log_of (ga_session ag) sv1) c" "gc_pending c = None"
      using same_world_log [OF p(2)] by simp_all
    from prep Inr have "prepare_mutation ag sv = (Inr c, sv1)" by simp
    note run = run_command_plan [OF folded_goal_ok [OF c(1)] this refl, of env cmd]
    show ?thesis
    proof (cases "plan_command env (sv_default_rounds sv) (gc_state c) (gc_activation c) cmd")
      case (Inl x)
      with run assms p(1) show ?thesis by (auto split: if_splits)
    next
      case (Inr pl)
      with run assms(2) have "commit_plan env ag c pl sv1 = (r, sv')" by simp
      with commit_plan_ok [OF p(1) c] show ?thesis by blast
    qed
  qed
qed

text \<open>
  The states a service passes through: the registry changes, other code appends to the
  sessions, and the service's own operations run between them.
\<close>

inductive goal_reach :: "goal_service \<Rightarrow> bool" where
  started: "(\<And>sid. sv_caches sv sid = None) \<Longrightarrow> goal_reach sv"
| registry: "goal_reach sv \<Longrightarrow> goal_reach (sv\<lparr>sv_live := live\<rparr>)"
| foreign: "goal_reach sv \<Longrightarrow> append_event k (sv_sessions sv sid) = (q, s) \<Longrightarrow>
    goal_reach (sv\<lparr>sv_sessions := (sv_sessions sv)(sid := s)\<rparr>)"
| read: "goal_reach sv \<Longrightarrow> goal_get ag sv = (v, sv') \<Longrightarrow> goal_reach sv'"
| disarm: "goal_reach sv \<Longrightarrow> goal_disarm ag sv = (v, sv') \<Longrightarrow> goal_reach sv'"
| session_start: "goal_reach sv \<Longrightarrow> goal_session_start ag sv = (u, sv') \<Longrightarrow> goal_reach sv'"
| mutate: "goal_reach sv \<Longrightarrow> run_command env ag cmd sv = (r, sv') \<Longrightarrow> goal_reach sv'"

lemma goal_disarm_prepare:
  "goal_disarm ag = op_bind (prepare_mutation ag)
     (\<lambda>c sv. (view_of (c\<lparr>gc_activation := Disarmed\<rparr>),
              store_cache (ga_session ag) (c\<lparr>gc_activation := Disarmed\<rparr>) sv))"
  by (simp add: goal_disarm_def prepare_mutation_def)

lemma goal_reach_ok: "goal_reach sv \<Longrightarrow> service_ok sv"
proof (induction rule: goal_reach.induct)
  case (started sv)
  then show ?case by (simp add: service_ok_def)
next
  case (registry sv live)
  then show ?case by (simp add: service_ok_def session_log_of_def)
next
  case (foreign sv k sid q s)
  from append_grows_log [OF foreign(2)] obtain rest where "ss_log s = ss_log (sv_sessions sv sid) @ rest"
    by auto
  with foreign(3) cache_ok_grow show ?case by (auto simp: service_ok_def session_log_of_def)
next
  case (read sv ag v sv')
  obtain q sv1 where "prepare_mutation ag sv = (q, sv1)" by (cases "prepare_mutation ag sv") auto
  with prepare_mutation_cases(1) [OF read(3) this] read(2) show ?case
    by (cases q) (simp_all add: goal_get_prepare op_bind_def)
next
  case (disarm sv ag v sv')
  obtain q sv1 where prep: "prepare_mutation ag sv = (q, sv1)" by (cases "prepare_mutation ag sv") auto
  note p = prepare_mutation_cases [OF disarm(3) prep]
  show ?case
  proof (cases q)
    case (Inl x)
    with disarm(2) prep p(1) show ?thesis by (simp add: goal_disarm_prepare op_bind_def)
  next
    case (Inr c)
    from p(3) [OF this] have "cache_ok (session_log_of (ga_session ag) sv1) (c\<lparr>gc_activation := Disarmed\<rparr>)"
      using same_world_log [OF p(2)] by (auto intro: cache_ok_cong [OF folded_cache_ok])
    with service_ok_store [OF p(1) this] disarm(2) prep Inr show ?thesis
      by (simp add: goal_disarm_prepare)
  qed
next
  case (session_start sv ag u sv')
  obtain q sv1 where cached: "goal_cache_for (ga_session ag) sv = (q, sv1)"
    by (cases "goal_cache_for (ga_session ag) sv") auto
  note p = goal_cache_for_cases [OF session_start(3) cached]
  show ?case
  proof (cases q)
    case (Inl x)
    with session_start(2) cached p(1) show ?thesis by (simp add: goal_session_start_def op_bind_def)
  next
    case (Inr c)
    from p(3) [OF this] have "cache_ok (session_log_of (ga_session ag) sv1) (c\<lparr>gc_activation := Disarmed\<rparr>)"
      using same_world_log [OF p(2)] by (auto simp: cache_ok_def folded_to_def)
    with service_ok_store [OF p(1) this] session_start(2) cached Inr show ?thesis
      by (simp add: goal_session_start_def)
  qed
next
  case (mutate sv env ag cmd r sv')
  then show ?case by (blast intro: run_command_ok)
qed

text \<open>
  Claim C30. In every state the service can reach, whatever other code appends, each cache
  is the strict fold of the observed prefix of its session log and no activation is pending.
\<close>

theorem goal_caches_follow_logs:
  assumes "goal_reach sv" and "sv_caches sv sid = Some c"
  shows "gc_pending c = None \<and> gc_observed c \<le> length (session_log_of sid sv)
    \<and> replay goal_step empty_goal_fold_state (take (gc_observed c) (session_log_of sid sv))
          = (None, gc_observed c, gc_state c)"
  using service_okD [OF goal_reach_ok [OF assms(1)] assms(2)] by (auto simp: cache_ok_def folded_to_def)

definition synced_activation :: "goal_agent \<Rightarrow> goal_service \<Rightarrow> activation" where
  "synced_activation ag sv =
     (case fst (prepare_mutation ag sv) of Inl _ \<Rightarrow> Disarmed | Inr c \<Rightarrow> gc_activation c)"

text \<open>
  Claim C10. Every mutation of the goal service (create, edit, pause, resume, complete,
  block, clear) on a foldable log does what a compare-and-set plan on the folded goal says:
  it rejects with the plan's code and writes nothing, or appends exactly the planned change,
  after which the log is still accepted by the strict fold and the returned view is that of
  the grown log.
\<close>

theorem goal_commands_refine_plan:
  assumes "service_ok sv" and "sv_live sv (ga_id ag) = Some (ga_object ag)"
    and "replay goal_step empty_goal_fold_state (session_log_of (ga_session ag) sv) = (None, n, st)"
    and "in_range env st" and "run_command env ag cmd sv = (r, sv')"
  shows "case plan_command env (sv_default_rounds sv) st (synced_activation ag sv) cmd of
      Inl x \<Rightarrow> r = Inl (GoalError x) \<and> (\<forall>i. session_log_of i sv' = session_log_of i sv)
    | Inr (ch, act) \<Rightarrow>
        (case fst (append_event (goal_append_call env ch) (sv_sessions sv (ga_session ag))) of
           Inl x \<Rightarrow> r = Inl (AppendFailed x) \<and> (\<forall>i. session_log_of i sv' = session_log_of i sv)
         | Inr e \<Rightarrow>
             ev_data e = GoalChange (encode_goal_change ch)
             \<and> session_log_of (ga_session ag) sv' = session_log_of (ga_session ag) sv @ [e]
             \<and> (\<exists>f. fold_goal (session_log_of (ga_session ag) sv') = Inr f
                  \<and> (case ch of
                       Clear_Change t _ \<Rightarrow> fg_goal f = None \<and> r = Inr (Reply_Ref t)
                     | Snapshot_Change c \<Rightarrow>
                         fg_goal f = Some (sc_goal c)
                         \<and> r = Inr (Reply_View (the (folded_view act f))))))"
proof -
  obtain q sv1 where prep: "prepare_mutation ag sv = (q, sv1)" by (cases "prepare_mutation ag sv") auto
  note p = prepare_mutation_cases [OF assms(1) prep]
  have "\<exists>c. q = Inr c" using p(4) assms(2,3) by (cases q) auto
  then obtain c where q: "q = Inr c" by blast
  note log = same_world_log [OF p(2)]
  from p(3) [OF q] have c: "folded_to (session_log_of (ga_session ag) sv1) c" "gc_pending c = None"
    by (simp_all add: log)
  have sess: "sv_sessions sv1 = sv_sessions sv" using p(2) by (simp add: same_world_def)
  have st: "gc_state c = st" using c(1) assms(3) by (simp add: folded_to_def log)
  have act: "synced_activation ag sv = gc_activation c" by (simp add: synced_activation_def prep q)
  from prep q have "prepare_mutation ag sv = (Inr c, sv1)" by simp
  note run = run_command_plan [OF folded_goal_ok [OF c(1)] this refl, of env cmd, unfolded st]
  show ?thesis
  proof (cases "plan_command env (sv_default_rounds sv) st (gc_activation c) cmd")
    case (Inl x)
    with run assms(5) log show ?thesis by (auto simp: act split: if_splits)
  next
    case (Inr pl)
    obtain ch a where pl: "pl = (ch, a)" by (cases pl)
    have ok: "goal_ok st" using folded_goal_ok [OF c(1)] st by simp
    from plan_accepted [OF ok assms(4) Inr] obtain st' where
      ch: "wf_change ch" "apply_goal_change (gc_state c) ch = Inr st'"
      by (auto simp: accepted_def pl st)
    obtain k sv2 where commit: "goal_commit env ag c ch a sv1 = (k, sv2)"
      by (cases "goal_commit env ag c ch a sv1") auto
    have res: "(r, sv') = (case k of Inl x \<Rightarrow> (Inl x, sv2) | Inr c' \<Rightarrow> (reply_of ch c', sv2))"
      using run assms(5) Inr commit by (cases k) (simp_all add: pl commit_plan_def op_bind_def)
    from p(1) c ch commit show ?thesis
    proof (cases rule: goal_commit_cases)
      case (refused x s)
      with res log show ?thesis by (simp add: act Inr pl sess)
    next
      case (logged e s c' v)
      from folded_view_of [OF logged(7)] logged(11) obtain f where
        f: "fold_goal (session_log_of (ga_session ag) sv2) = Inr f" "v = folded_view (gc_activation c') f"
        by auto
      have goal: "fg_goal f = gf_goal st'"
        using f(1) logged(7,8) by (auto simp: fold_goal_def folded_to_def)
      have sv': "sv' = sv2" and r: "r = reply_of ch c'" using res logged(3) by simp_all
      have "gf_goal st' = (case ch of Clear_Change _ _ \<Rightarrow> None | Snapshot_Change c \<Rightarrow> Some (sc_goal c))"
        using ch(2) by (auto simp: apply_goal_change_def apply_clear_def apply_create_def
            install_snapshot_def option_case_Inr_iff split: goal_change.splits if_splits option.splits)
      with f logged(1,2,5,9,11) goal show ?thesis
        by (auto simp: act Inr pl sess sv' r log reply_of_def folded_view_def split: goal_change.splits)
    qed
  qed
qed

subsection \<open>Stale references and foreign changes\<close>

fun command_ref :: "goal_command \<Rightarrow> goal_ref option" where
  "command_ref (Cmd_Create _) = None"
| "command_ref (Cmd_Edit r _) = Some r"
| "command_ref (Cmd_Pause r) = Some r"
| "command_ref (Cmd_Resume r) = Some r"
| "command_ref (Cmd_Complete r) = Some r"
| "command_ref (Cmd_Block r _) = Some r"
| "command_ref (Cmd_Clear r) = Some r"

lemma plan_stale:
  "command_ref cmd = Some r \<Longrightarrow> current_of st r = Inl x \<Longrightarrow> plan_command env dflt st a cmd = Inl x"
  by (cases cmd) (auto simp: plan_command_def moved_def)

text \<open>
  Claim C31. A mutation whose reference is not the current goal revision is rejected with
  GOAL_STALE_REVISION, or GOAL_NOT_FOUND without a goal, and leaves every log as it was.
\<close>

theorem goal_stale_refs_rejected:
  assumes "goal_reach sv" and "sv_live sv (ga_id ag) = Some (ga_object ag)"
    and "fold_goal (session_log_of (ga_session ag) sv) = Inr f"
    and "command_ref cmd = Some ref" and "map_option snapshot_ref (fg_goal f) \<noteq> Some ref"
    and "run_command env ag cmd sv = (r, sv')"
  shows "r = Inl (GoalError (if fg_goal f = None then Goal_Not_Found else Goal_Stale_Revision))
    \<and> (\<forall>i. session_log_of i sv' = session_log_of i sv)"
proof -
  have ok: "service_ok sv" using assms(1) by (rule goal_reach_ok)
  obtain q sv1 where prep: "prepare_mutation ag sv = (q, sv1)" by (cases "prepare_mutation ag sv") auto
  note p = prepare_mutation_cases [OF ok prep]
  obtain st where st: "replay goal_step empty_goal_fold_state (session_log_of (ga_session ag) sv) =
      (None, length (session_log_of (ga_session ag) sv), st)" and goal: "fg_goal f = gf_goal st"
    by (rule fold_goal_InrE [OF assms(3)]) simp
  have "\<exists>c. q = Inr c" using p(4) assms(2) st by (cases q) auto
  then obtain c where q: "q = Inr c" by blast
  from p(3) [OF q] have c: "folded_to (session_log_of (ga_session ag) sv) c" by simp
  with st have "gc_state c = st" by (simp add: folded_to_def)
  moreover have "current_of st ref = Inl (if fg_goal f = None then Goal_Not_Found else Goal_Stale_Revision)"
    using assms(5) goal by (auto simp: current_of_def split: option.splits)
  ultimately have "plan_command env (sv_default_rounds sv) (gc_state c) (gc_activation c) cmd =
      Inl (if fg_goal f = None then Goal_Not_Found else Goal_Stale_Revision)"
    using plan_stale [OF assms(4)] by blast
  moreover have "\<not> (\<exists>rq y. cmd = Cmd_Create rq \<and> resolve_create_goal rq (sv_default_rounds sv) = Inl y)"
    using assms(4) by auto
  moreover have "prepare_mutation ag sv = (Inr c, sv1)" using prep q by simp
  ultimately have "(r, sv') = (Inl (GoalError (if fg_goal f = None then Goal_Not_Found else Goal_Stale_Revision)), sv1)"
    using run_command_plan [OF folded_goal_ok [OF c], of ag sv sv1 _ env cmd] assms(6) by auto
  then show ?thesis using same_world_log [OF p(2)] by simp
qed

lemma sync_events_activation:
  "sync_events es c = (None, c') \<Longrightarrow> gc_pending c = None \<Longrightarrow>
   gc_activation c' = (if \<exists>e \<in> set es. is_goal_change e then Disarmed else gc_activation c)"
proof (induction es arbitrary: c)
  case (Cons e es)
  then show ?case by (auto simp: reconcile_activation_def split: sum.splits)
qed simp

theorem goal_foreign_change_disarms:
  assumes "goal_reach sv" and "sv_caches sv (ga_session ag) = Some c"
    and "goal_get ag sv = (Inr (Some v), sv')"
  shows "gv_activation v =
    (if \<exists>e \<in> set (drop (gc_observed c) (session_log_of (ga_session ag) sv)). is_goal_change e
     then Disarmed else gc_activation c)"
proof -
  have pending: "gc_pending c = None" using service_okD [OF goal_reach_ok [OF assms(1)] assms(2)] by (simp add: cache_ok_def)
  from assms(2,3) obtain c' where
    sync: "sync_events (drop (gc_observed c) (session_log_of (ga_session ag) sv)) c = (None, c')"
    and "view_of c' = Inr (Some v)"
    by (auto simp: goal_get_def op_bind_def goal_cache_for_def goal_sync_def assert_live_def
        split: if_splits prod.splits option.splits sum.splits)
  then have "gv_activation v = gc_activation c'"
    by (auto simp: view_of_def split: option.splits)
  with sync_events_activation [OF sync pending] show ?thesis by simp
qed

subsection \<open>A sample service\<close>

definition sample_goal_agent :: goal_agent where
  "sample_goal_agent = \<lparr>ga_id = ''a'', ga_object = 7, ga_session = 0\<rparr>"

definition sample_goal_service :: goal_service where
  "sample_goal_service =
     \<lparr>sv_live = (\<lambda>i. if i = ''a'' then Some 7 else None), sv_sessions = (\<lambda>_. empty_session),
      sv_caches = (\<lambda>_. None), sv_emitted = [], sv_default_rounds = 256\<rparr>"

definition sample_goal_env :: goal_env where
  "sample_goal_env = \<lparr>ge_now = 5, ge_stamp = 6, ge_uuid = ''u'', ge_appending = Some False, ge_dispatch_throws = False\<rparr>"

definition sample_create :: goal_command where
  "sample_create = Cmd_Create \<lparr>rq_objective = Some (JStr '' ship it ''), rq_max_rounds = None\<rparr>"

definition sample_goal :: goal_snapshot where
  "sample_goal = \<lparr>gs_id = ''goal-u'', gs_revision = 1, gs_objective = ''ship it'', gs_phase = Goal_Active,
     gs_blocked = None, gs_max_rounds = 256\<rparr>"

lemma sample_reach: "goal_reach sample_goal_service"
  by (rule started) (simp add: sample_goal_service_def)

definition created_service :: goal_service where
  "created_service = snd (run_command sample_goal_env sample_goal_agent sample_create sample_goal_service)"

lemma created_reach: "goal_reach created_service"
  unfolding created_service_def by (rule mutate [OF sample_reach]) (rule prod.collapse [symmetric])

lemma created_facts:
  "sv_live created_service ''a'' = Some 7"
  "fold_goal (session_log_of 0 created_service) =
     Inr \<lparr>fg_goal = Some sample_goal, fg_rounds = 0, fg_created = Some 5, fg_updated = Some 5,
          fg_last_ref = Some \<lparr>gr_id = ''goal-u'', gr_revision = 1\<rparr>\<rparr>"
  "map_option gc_activation (sv_caches created_service 0) = Some Armed"
  by code_simp+

definition stale_pause :: goal_command where
  "stale_pause = Cmd_Pause \<lparr>gr_id = ''goal-u'', gr_revision = 2\<rparr>"

lemma goal_get_is_fold_witness:
  "\<exists>a. fst (goal_get sample_goal_agent created_service) = Inr (folded_view a
     \<lparr>fg_goal = Some sample_goal, fg_rounds = 0, fg_created = Some 5, fg_updated = Some 5,
      fg_last_ref = Some \<lparr>gr_id = ''goal-u'', gr_revision = 1\<rparr>\<rparr>)"
  using goal_get_is_fold [OF goal_reach_ok [OF created_reach] prod.collapse [symmetric], of sample_goal_agent]
    created_facts(1,2) by (simp add: sample_goal_agent_def)

lemma goal_caches_follow_logs_witness:
  "\<exists>c. sv_caches created_service 0 = Some c \<and> gc_pending c = None
     \<and> replay goal_step empty_goal_fold_state (take (gc_observed c) (session_log_of 0 created_service))
         = (None, gc_observed c, gc_state c)
     \<and> gc_observed c \<le> length (session_log_of 0 created_service)"
proof -
  from created_facts(3) obtain c where "sv_caches created_service 0 = Some c" by auto
  with goal_caches_follow_logs [OF created_reach this] show ?thesis by blast
qed

lemma goal_commands_refine_plan_witness:
  "\<exists>f. fold_goal (session_log_of 0 created_service) = Inr f \<and> fg_goal f = Some sample_goal"
proof -
  have hyp: "service_ok sample_goal_service"
    "sv_live sample_goal_service (ga_id sample_goal_agent) = Some (ga_object sample_goal_agent)"
    "replay goal_step empty_goal_fold_state (session_log_of (ga_session sample_goal_agent) sample_goal_service)
       = (None, 0, empty_goal_fold_state)"
    using goal_reach_ok [OF sample_reach]
    by (simp_all add: sample_goal_service_def sample_goal_agent_def session_log_of_def empty_session_def)
  have range: "in_range sample_goal_env empty_goal_fold_state"
    by (simp add: in_range_def sample_goal_env_def empty_goal_fold_state_def wf_count_def safe_int_def max_safe_def)
  have plan: "plan_command sample_goal_env (sv_default_rounds sample_goal_service) empty_goal_fold_state
      (synced_activation sample_goal_agent sample_goal_service) sample_create =
      Inr (Snapshot_Change \<lparr>sc_op = Op_Create, sc_goal = sample_goal, sc_rounds = 0, sc_created = 5,
             sc_updated = 5\<rparr>, Armed)"
    by code_simp
  have app: "case fst (append_event (goal_append_call sample_goal_env (Snapshot_Change \<lparr>sc_op = Op_Create,
      sc_goal = sample_goal, sc_rounds = 0, sc_created = 5, sc_updated = 5\<rparr>))
      (sv_sessions sample_goal_service (ga_session sample_goal_agent))) of Inl _ \<Rightarrow> False | Inr _ \<Rightarrow> True"
    by code_simp
  from app obtain e where "fst (append_event (goal_append_call sample_goal_env (Snapshot_Change \<lparr>sc_op = Op_Create,
      sc_goal = sample_goal, sc_rounds = 0, sc_created = 5, sc_updated = 5\<rparr>))
      (sv_sessions sample_goal_service (ga_session sample_goal_agent))) = Inr e"
    by (auto split: sum.splits)
  then show ?thesis
    using goal_commands_refine_plan [OF hyp range prod.collapse [symmetric], of sample_create]
    unfolding plan created_service_def by (auto simp: sample_goal_agent_def)
qed

lemma goal_stale_refs_rejected_witness:
  "fst (run_command sample_goal_env sample_goal_agent stale_pause created_service)
     = Inl (GoalError Goal_Stale_Revision)"
proof -
  have "sv_live created_service (ga_id sample_goal_agent) = Some (ga_object sample_goal_agent)"
    "session_log_of (ga_session sample_goal_agent) created_service = session_log_of 0 created_service"
    using created_facts(1) by (simp_all add: sample_goal_agent_def)
  with goal_stale_refs_rejected [OF created_reach this(1) _ _ _ prod.collapse [symmetric],
      of _ stale_pause "\<lparr>gr_id = ''goal-u'', gr_revision = 2\<rparr>" sample_goal_env] created_facts(2)
  show ?thesis by (simp add: stale_pause_def snapshot_ref_def sample_goal_def)
qed

text \<open>Another writer pauses the goal behind the service's back.\<close>

definition foreign_service :: goal_service where
  "foreign_service = created_service\<lparr>sv_sessions := (sv_sessions created_service)(0 :=
     snd (append_event (goal_append_call sample_goal_env (Snapshot_Change \<lparr>sc_op = Op_Pause,
       sc_goal = sample_goal\<lparr>gs_revision := 2, gs_phase := Goal_Paused\<rparr>, sc_rounds = 0, sc_created = 5,
       sc_updated = 5\<rparr>)) (sv_sessions created_service 0)))\<rparr>"

lemma foreign_reach: "goal_reach foreign_service"
  unfolding foreign_service_def by (rule foreign [OF created_reach prod.collapse [symmetric]])

lemma goal_foreign_change_disarms_witness:
  "\<exists>v. fst (goal_get sample_goal_agent foreign_service) = Inr (Some v) \<and> gv_activation v = Disarmed"
proof -
  have read: "case fst (goal_get sample_goal_agent foreign_service) of Inr (Some _) \<Rightarrow> True | _ \<Rightarrow> False"
    and cached: "case sv_caches foreign_service 0 of None \<Rightarrow> False | Some c \<Rightarrow>
      (\<exists>e \<in> set (drop (gc_observed c) (session_log_of 0 foreign_service)). is_goal_change e)"
    by code_simp+
  then obtain v where v: "goal_get sample_goal_agent foreign_service =
      (Inr (Some v), snd (goal_get sample_goal_agent foreign_service))"
    by (auto simp: prod_eq_iff split: sum.splits option.splits)
  from cached obtain c where c: "sv_caches foreign_service (ga_session sample_goal_agent) = Some c"
    "\<exists>e \<in> set (drop (gc_observed c) (session_log_of 0 foreign_service)). is_goal_change e"
    by (auto simp: sample_goal_agent_def split: option.splits)
  have "gv_activation v = Disarmed"
    using goal_foreign_change_disarms [OF foreign_reach c(1) v] c(2) by (simp add: sample_goal_agent_def)
  then show ?thesis by (subst v) simp
qed

end
