(* ===== verification/Agent_Inbox.thy ===== *)
theory Agent_Inbox
  imports Session_Log Session_Trace "HOL-Library.Multiset"
begin

section \<open>The agent inbox\<close>

text \<open>
  \<^verbatim>\<open>packages/core/agent/src/inbox.ts\<close>: two lists of pending user messages whose mutations are
  all splices recorded in the session log, replayed once from the log and updated in place
  afterwards; and \<^verbatim>\<open>consumed-work.ts\<close>, the account a log gives of the input it consumed.
  Splice arguments are JavaScript numbers: not-a-number, the infinities and finite values
  are told apart, and negative zero from zero. A host is the session, the inbox and the notifications published so far.
\<close>

subsection \<open>JavaScript numbers\<close>

datatype js_number = JsNaN | JsPosInf | JsNegInf | JsNegZero | JsFinite rat

text \<open>\<open>Math.trunc\<close> of a finite number.\<close>

definition trunc_rat :: "rat \<Rightarrow> int" where
  "trunc_rat q = (if q < 0 then \<lceil>q\<rceil> else \<lfloor>q\<rfloor>)"

text \<open>The normalized start and delete count of \<open>mutate\<close> on a list of length \<open>n\<close>.\<close>

definition actual_start :: "js_number \<Rightarrow> nat \<Rightarrow> nat" where
  "actual_start start n =
     (case start of
        JsNaN \<Rightarrow> 0
      | JsPosInf \<Rightarrow> n
      | JsNegInf \<Rightarrow> 0
      | JsNegZero \<Rightarrow> 0
      | JsFinite q \<Rightarrow>
          (let offset = trunc_rat q in
           if offset < 0 then nat (max (int n + offset) 0) else nat (min offset (int n))))"

text \<open>
  A start between \<open>-1\<close> and zero is truncated to negative zero and stays negative zero; the
  splice then has no lossless JSON form, and the session refuses it.
\<close>

fun negative_zero :: "js_number \<Rightarrow> bool" where
  "negative_zero JsNegZero \<longleftrightarrow> True"
| "negative_zero (JsFinite q) \<longleftrightarrow> - 1 < q \<and> q < 0"
| "negative_zero _ \<longleftrightarrow> False"

definition actual_delete_count :: "js_number \<Rightarrow> nat \<Rightarrow> nat \<Rightarrow> nat" where
  "actual_delete_count del n start =
     (case del of
        JsNaN \<Rightarrow> 0
      | JsPosInf \<Rightarrow> n - start
      | JsNegInf \<Rightarrow> 0
      | JsNegZero \<Rightarrow> 0
      | JsFinite q \<Rightarrow> nat (min (max (trunc_rat q) 0) (int (n - start))))"

subsection \<open>State and replay\<close>

record inbox =
  ib_turn :: "user_message list"
  ib_step :: "user_message list"

definition empty_inbox :: inbox where
  "empty_inbox = \<lparr>ib_turn = [], ib_step = []\<rparr>"

definition pending_of :: "inbox_target \<Rightarrow> inbox \<Rightarrow> user_message list" where
  "pending_of t ib = (case t of NextTurn \<Rightarrow> ib_turn ib | NextStep \<Rightarrow> ib_step ib)"

definition set_pending :: "inbox_target \<Rightarrow> user_message list \<Rightarrow> inbox \<Rightarrow> inbox" where
  "set_pending t ms ib = (case t of NextTurn \<Rightarrow> ib\<lparr>ib_turn := ms\<rparr> | NextStep \<Rightarrow> ib\<lparr>ib_step := ms\<rparr>)"

definition has_pending :: "inbox \<Rightarrow> bool" where
  "has_pending ib \<longleftrightarrow> 0 < length (ib_turn ib) \<or> 0 < length (ib_step ib)"

datatype splice_error = InvalidSplice | AlreadyPending message_id

text \<open>The first identity met twice.\<close>

fun first_repeat :: "message_id list \<Rightarrow> user_message list \<Rightarrow> message_id option" where
  "first_repeat seen [] = None"
| "first_repeat seen (m # ms) =
     (if List.member seen (um_id m) then Some (um_id m) else first_repeat (um_id m # seen) ms)"

definition removed_count :: "inbox_splice \<Rightarrow> int" where
  "removed_count sp = (case sp_removed sp of None \<Rightarrow> 0 | Some n \<Rightarrow> n)"

definition spliced :: "inbox_splice \<Rightarrow> user_message list \<Rightarrow> user_message list" where
  "spliced sp ms = js_splice ms (nat (sp_start sp)) (nat (removed_count sp)) (sp_inserted sp)"

definition validate_splice :: "inbox_splice \<Rightarrow> inbox \<Rightarrow> splice_error option" where
  "validate_splice sp ib =
     (let ms = pending_of (sp_target sp) ib; n = int (length ms); k = removed_count sp in
      if \<not> safe_int (sp_start sp) \<or> sp_start sp < 0 \<or> sp_start sp > n
         \<or> \<not> safe_int k \<or> k < 0 \<or> sp_start sp + k > n
      then Some InvalidSplice
      else
        map_option AlreadyPending
          (first_repeat []
             (case sp_target sp of
                NextTurn \<Rightarrow> spliced sp ms @ ib_step ib
              | NextStep \<Rightarrow> ib_turn ib @ spliced sp ms)))"

definition apply_splice :: "inbox_splice \<Rightarrow> inbox \<Rightarrow> splice_error + inbox" where
  "apply_splice sp ib =
     (case validate_splice sp ib of
        Some x \<Rightarrow> Inl x
      | None \<Rightarrow> Inr (set_pending (sp_target sp) (spliced sp (pending_of (sp_target sp) ib)) ib))"

text \<open>The constructor replays the events after the seed; a bad splice is reported with its
  sequence number.\<close>

definition inbox_step ::
  "session_event list \<Rightarrow> nat \<Rightarrow> inbox \<Rightarrow> session_event \<Rightarrow> (int \<times> splice_error) + inbox"
where
  "inbox_step evs i ib e =
     (case ev_data e of
        InboxSpliced sp \<Rightarrow> map_sum (Pair (ev_seq e)) id (apply_splice sp ib)
      | _ \<Rightarrow> Inr ib)"

definition seed_length :: "session \<Rightarrow> nat" where
  "seed_length s =
     (case map_of (ss_header s) ''seedLength'' of
        None \<Rightarrow> 0
      | Some v \<Rightarrow> (case json_safe_int v of None \<Rightarrow> 0 | Some i \<Rightarrow> nat i))"

definition own_events :: "session \<Rightarrow> session_event list" where
  "own_events s = drop (seed_length s) (ss_log s)"

definition open_inbox :: "session \<Rightarrow> (int \<times> splice_error) + inbox" where
  "open_inbox s =
     (case replay inbox_step empty_inbox (own_events s) of
        (Some x, _, _) \<Rightarrow> Inl x
      | (None, _, ib) \<Rightarrow> Inr ib)"

subsection \<open>Mutations\<close>

datatype inbox_notice = Inserted user_message | Discarded user_message | Claimed user_message int

datatype inbox_failure = SpliceRejected splice_error | SpliceNotAppended append_error

record inbox_host =
  ih_session :: session
  ih_inbox :: inbox
  ih_notices :: "inbox_notice list"

record inbox_env =
  ie_time :: int
  ie_appending :: "bool option"
  ie_dispatch_throws :: bool

definition inbox_append_call :: "inbox_env \<Rightarrow> js_number \<Rightarrow> inbox_splice \<Rightarrow> append_call" where
  "inbox_append_call env start sp =
     \<lparr>ac_data = (if negative_zero start then None else Some (InboxSpliced sp)), ac_meta = Some (None, None), ac_time = ie_time env,
      ac_appending = ie_appending env, ac_dispatch_throws = ie_dispatch_throws env\<rparr>"

type_synonym 'a inbox_op = "inbox_host \<Rightarrow> (inbox_failure + 'a) \<times> inbox_host"

definition normal_splice ::
  "inbox_target \<Rightarrow> js_number \<Rightarrow> js_number \<Rightarrow> user_message list \<Rightarrow> bool \<Rightarrow> inbox \<Rightarrow> inbox_splice"
where
  "normal_splice t start del ins discard ib =
     (let n = length (pending_of t ib); s = actual_start start n; k = actual_delete_count del n s in
      \<lparr>sp_target = t, sp_start = int s, sp_removed = (if k = 0 then None else Some (int k)),
       sp_inserted = ins, sp_canceled = (discard \<and> 0 < k)\<rparr>)"

definition mutate_inbox ::
  "inbox_env \<Rightarrow> inbox_target \<Rightarrow> js_number \<Rightarrow> js_number \<Rightarrow> user_message list \<Rightarrow> bool
    \<Rightarrow> user_message list inbox_op"
where
  "mutate_inbox env t start del ins discard h =
     (let ms = pending_of t (ih_inbox h);
          s = actual_start start (length ms);
          k = actual_delete_count del (length ms) s;
          sp = normal_splice t start del ins discard (ih_inbox h)
      in if k = 0 \<and> ins = [] then (Inr [], h)
         else
           (case validate_splice sp (ih_inbox h) of
              Some x \<Rightarrow> (Inl (SpliceRejected x), h)
            | None \<Rightarrow>
                (case append_event (inbox_append_call env start sp) (ih_session h) of
                   (Inl x, ss) \<Rightarrow> (Inl (SpliceNotAppended x), h\<lparr>ih_session := ss\<rparr>)
                 | (Inr e, ss) \<Rightarrow>
                     (let removed = take k (drop s ms) in
                      (Inr removed,
                       h\<lparr>ih_session := ss,
                         ih_inbox := set_pending t (js_splice ms s k ins) (ih_inbox h),
                         ih_notices := ih_notices h @ (if discard then map Discarded removed else [])
                                         @ map Inserted ins\<rparr>)))))"

definition splice_inbox ::
  "inbox_env \<Rightarrow> inbox_target \<Rightarrow> js_number \<Rightarrow> js_number \<Rightarrow> user_message list \<Rightarrow> user_message list inbox_op"
where
  "splice_inbox env t start del ins = mutate_inbox env t start del ins True"

definition js_length :: "'a list \<Rightarrow> js_number" where
  "js_length xs = JsFinite (of_nat (length xs))"

definition append_message :: "inbox_env \<Rightarrow> inbox_target \<Rightarrow> user_message \<Rightarrow> user_message list inbox_op" where
  "append_message env t m h =
     splice_inbox env t (js_length (pending_of t (ih_inbox h))) (JsFinite 0) [m] h"

definition prepend_message :: "inbox_env \<Rightarrow> inbox_target \<Rightarrow> user_message \<Rightarrow> user_message list inbox_op" where
  "prepend_message env t m = splice_inbox env t (JsFinite 0) (JsFinite 0) [m]"

fun find_message :: "message_id \<Rightarrow> user_message list \<Rightarrow> nat option" where
  "find_message i [] = None"
| "find_message i (m # ms) = (if um_id m = i then Some 0 else map_option Suc (find_message i ms))"

definition locate_message :: "message_id \<Rightarrow> inbox \<Rightarrow> (inbox_target \<times> nat) option" where
  "locate_message i ib =
     (case find_message i (ib_turn ib) of
        Some n \<Rightarrow> Some (NextTurn, n)
      | None \<Rightarrow> map_option (Pair NextStep) (find_message i (ib_step ib)))"

definition replace_message :: "inbox_env \<Rightarrow> message_id \<Rightarrow> user_message list \<Rightarrow> bool inbox_op" where
  "replace_message env i new h =
     (case locate_message i (ih_inbox h) of
        None \<Rightarrow> (Inr False, h)
      | Some (t, n) \<Rightarrow>
          (case splice_inbox env t (JsFinite (of_nat n)) (JsFinite 1) new h of
             (Inl x, h') \<Rightarrow> (Inl x, h')
           | (Inr _, h') \<Rightarrow> (Inr True, h')))"

text \<open>\<open>replace\<close> inserts one message, \<open>remove\<close> none.\<close>

definition inbox_replace :: "inbox_env \<Rightarrow> message_id \<Rightarrow> user_message \<Rightarrow> bool inbox_op" where
  "inbox_replace env i m = replace_message env i [m]"

definition inbox_remove :: "inbox_env \<Rightarrow> message_id \<Rightarrow> bool inbox_op" where
  "inbox_remove env i = replace_message env i []"

definition clear_inbox :: "inbox_env \<Rightarrow> unit inbox_op" where
  "clear_inbox env h =
     (case splice_inbox env NextStep (JsFinite 0) (js_length (ib_step (ih_inbox h))) [] h of
        (Inl x, h1) \<Rightarrow> (Inl x, h1)
      | (Inr _, h1) \<Rightarrow>
          (case splice_inbox env NextTurn (JsFinite 0) (js_length (ib_turn (ih_inbox h1))) [] h1 of
             (Inl x, h2) \<Rightarrow> (Inl x, h2)
           | (Inr _, h2) \<Rightarrow> (Inr (), h2)))"

definition claim_batch :: "inbox_env \<Rightarrow> inbox_target \<Rightarrow> user_message list inbox_op" where
  "claim_batch env t h =
     (case mutate_inbox env NextStep (JsFinite 0) (js_length (ib_step (ih_inbox h))) [] False h of
        (Inl x, h1) \<Rightarrow> (Inl x, h1)
      | (Inr ms, h1) \<Rightarrow>
          (if t = NextTurn
           then (case mutate_inbox env NextTurn (JsFinite 0) (JsFinite 1) [] False h1 of
                   (Inl x, h2) \<Rightarrow> (Inl x, h2)
                 | (Inr ns, h2) \<Rightarrow> (Inr (ms @ ns), h2))
           else (Inr ms, h1)))"

definition claim_inbox :: "inbox_env \<Rightarrow> inbox_target \<Rightarrow> int \<Rightarrow> user_message list inbox_op" where
  "claim_inbox env t turn h =
     (case claim_batch env t h of
        (Inl x, h') \<Rightarrow> (Inl x, h')
      | (Inr ms, h') \<Rightarrow> (Inr ms, h'\<lparr>ih_notices := ih_notices h' @ map (\<lambda>m. Claimed m turn) ms\<rparr>))"

subsection \<open>Consumed work\<close>

record consumed_work =
  cw_end :: "session_event option"
  cw_dropped :: bool

definition accounts_for_claim :: "turn_end_reason \<Rightarrow> bool" where
  "accounts_for_claim r = (case r of Completed \<Rightarrow> False | _ \<Rightarrow> True)"

record work_fold =
  wf_stepped :: "int set"
  wf_claimed :: "int set"
  wf_open :: "int option"
  wf_end :: "session_event option"
  wf_dropped :: bool

definition consume_event :: "work_fold \<Rightarrow> session_event \<Rightarrow> work_fold" where
  "consume_event w e =
     (case ev_data e of
        TurnStart t \<Rightarrow> w\<lparr>wf_open := Some t\<rparr>
      | StepStart t _ \<Rightarrow> w\<lparr>wf_stepped := insert t (wf_stepped w)\<rparr>
      | InboxSpliced sp \<Rightarrow>
          if sp_removed sp = None then w
          else if sp_canceled sp
               then w\<lparr>wf_dropped := (wf_dropped w \<or> sp_inserted sp = [])\<rparr>
          else (case wf_open w of
                  None \<Rightarrow> w
                | Some t \<Rightarrow> w\<lparr>wf_claimed := insert t (wf_claimed w)\<rparr>)
      | TurnEnd t r \<Rightarrow>
          (let stepped = t \<in> wf_stepped w; claimed = t \<in> wf_claimed w;
               w1 = w\<lparr>wf_open := None, wf_stepped := wf_stepped w - {t},
                      wf_claimed := (if stepped then wf_claimed w else wf_claimed w - {t})\<rparr>
           in if stepped \<or> (claimed \<and> accounts_for_claim r)
              then w1\<lparr>wf_end := Some e, wf_dropped := False\<rparr>
              else w1)
      | _ \<Rightarrow> w)"

definition fold_consumed_work :: "session_event list \<Rightarrow> consumed_work" where
  "fold_consumed_work evs =
     (let w = foldl consume_event
                \<lparr>wf_stepped = {}, wf_claimed = {}, wf_open = None, wf_end = None, wf_dropped = False\<rparr> evs
      in \<lparr>cw_end = wf_end w, cw_dropped = wf_dropped w\<rparr>)"

subsection \<open>Normalized coordinates\<close>

lemma actual_start_le: "actual_start start n \<le> n"
  by (cases start) (auto simp: actual_start_def Let_def)

lemma actual_delete_count_le: "actual_delete_count del n s \<le> n - s"
  by (cases del) (auto simp: actual_delete_count_def)

lemma trunc_rat_of_nat [simp]: "trunc_rat (of_nat k) = int k"
  by (simp add: trunc_rat_def)

lemma trunc_rat_int: "trunc_rat (of_int i) = i"
  by (simp add: trunc_rat_def)

lemma trunc_rat_numerals [simp]: "trunc_rat 0 = 0" "trunc_rat 1 = 1"
  using trunc_rat_int [of 0] trunc_rat_int [of 1] by simp_all

lemma actual_start_nat: "actual_start (JsFinite (of_nat k)) n = min k n"
  by (simp add: actual_start_def)

lemma actual_delete_count_nat: "actual_delete_count (JsFinite (of_nat k)) n s = min k (n - s)"
  by (simp add: actual_delete_count_def)

lemma first_repeat_None_iff:
  "first_repeat seen ms = None \<longleftrightarrow> distinct (map um_id ms) \<and> um_id ` set ms \<inter> set seen = {}"
  by (induction ms arbitrary: seen) auto

definition pending_ids :: "inbox \<Rightarrow> message_id list" where
  "pending_ids ib = map um_id (ib_turn ib @ ib_step ib)"

definition inbox_ok :: "inbox \<Rightarrow> bool" where
  "inbox_ok ib \<longleftrightarrow> distinct (pending_ids ib)"

lemma pending_set_pending [simp]: "pending_of t (set_pending t ms ib) = ms"
  by (cases t) (simp_all add: pending_of_def set_pending_def)

definition splice_bounds :: "inbox_splice \<Rightarrow> nat \<Rightarrow> bool" where
  "splice_bounds sp n \<longleftrightarrow> safe_int (sp_start sp) \<and> 0 \<le> sp_start sp \<and> safe_int (removed_count sp)
     \<and> 0 \<le> removed_count sp \<and> sp_start sp + removed_count sp \<le> int n"

lemma validate_splice_None_iff:
  "validate_splice sp ib = None \<longleftrightarrow>
     splice_bounds sp (length (pending_of (sp_target sp) ib))
     \<and> inbox_ok (set_pending (sp_target sp) (spliced sp (pending_of (sp_target sp) ib)) ib)"
  by (cases "sp_target sp")
    (auto simp: validate_splice_def splice_bounds_def first_repeat_None_iff inbox_ok_def pending_ids_def
      set_pending_def pending_of_def Let_def)

lemma apply_splice_Inr_iff:
  "apply_splice sp ib = Inr ib' \<longleftrightarrow>
     splice_bounds sp (length (pending_of (sp_target sp) ib)) \<and> inbox_ok ib'
     \<and> ib' = set_pending (sp_target sp) (spliced sp (pending_of (sp_target sp) ib)) ib"
proof -
  define new where "new = set_pending (sp_target sp) (spliced sp (pending_of (sp_target sp) ib)) ib"
  have "validate_splice sp ib = None \<longleftrightarrow>
      splice_bounds sp (length (pending_of (sp_target sp) ib)) \<and> inbox_ok new"
    unfolding new_def by (rule validate_splice_None_iff)
  then show ?thesis
    unfolding apply_splice_def new_def [symmetric] by (cases "validate_splice sp ib") auto
qed

lemma inbox_step_other:
  "(\<And>sp. ev_data e \<noteq> InboxSpliced sp) \<Longrightarrow> inbox_step evs i ib e = Inr ib"
  by (simp add: inbox_step_def split: event_data.splits)

lemma inbox_step_splice:
  "ev_data e = InboxSpliced sp \<Longrightarrow> inbox_step evs i ib e = map_sum (Pair (ev_seq e)) id (apply_splice sp ib)"
  by (simp add: inbox_step_def)

lemma inbox_step_ok:
  assumes "inbox_ok ib" and "inbox_step evs i ib e = Inr ib'"
  shows "inbox_ok ib'"
proof (cases "\<exists>sp. ev_data e = InboxSpliced sp")
  case True
  then obtain sp where sp: "ev_data e = InboxSpliced sp" by blast
  with assms(2) have "apply_splice sp ib = Inr ib'"
    by (cases "apply_splice sp ib") (simp_all add: inbox_step_splice)
  then show ?thesis unfolding apply_splice_Inr_iff by blast
next
  case False
  with assms inbox_step_other [of e] show ?thesis by auto
qed

interpretation inbox_log: log_replay inbox_step empty_inbox "\<lambda>_. inbox_ok"
proof
  show "inbox_ok empty_inbox" by (simp add: inbox_ok_def pending_ids_def empty_inbox_def)
  show "inbox_ok s'" if "inbox_ok s" "inbox_step evs i s e = Inr s'" for i s evs e s'
    using that by (rule inbox_step_ok)
  show "inbox_step (evs @ rest) i s e = inbox_step evs i s e" for evs rest i s e
    by (simp add: inbox_step_def)
qed

subsection \<open>A mutation is the replay of its own event\<close>

lemma normal_splice_sel [simp]:
  "sp_target (normal_splice t start del ins d ib) = t"
  "sp_inserted (normal_splice t start del ins d ib) = ins"
  "sp_start (normal_splice t start del ins d ib) = int (actual_start start (length (pending_of t ib)))"
  "removed_count (normal_splice t start del ins d ib) =
     int (actual_delete_count del (length (pending_of t ib)) (actual_start start (length (pending_of t ib))))"
  by (simp_all add: normal_splice_def removed_count_def Let_def)

lemma normal_splice_bounds:
  assumes "int (length (pending_of t ib)) \<le> max_safe"
  shows "splice_bounds (normal_splice t start del ins d ib) (length (pending_of t ib))"
proof -
  let ?n = "length (pending_of t ib)"
  let ?s = "actual_start start ?n"
  let ?k = "actual_delete_count del ?n ?s"
  have "?s + ?k \<le> ?n" using actual_start_le [of start ?n] actual_delete_count_le [of del ?n ?s] by linarith
  then have "int ?s + int ?k \<le> int ?n" by linarith
  with assms show ?thesis by (simp add: splice_bounds_def safe_int_def max_safe_def)
qed

lemma normal_spliced:
  "spliced (normal_splice t start del ins d ib) (pending_of t ib) =
     js_splice (pending_of t ib) (actual_start start (length (pending_of t ib)))
       (actual_delete_count del (length (pending_of t ib)) (actual_start start (length (pending_of t ib)))) ins"
  by (simp add: spliced_def)

lemma mutate_inbox_cases [consumes 1, case_names idle rejected refused mutated]:
  assumes "mutate_inbox env t start del ins d h = (r, h')"
  obtains "r = Inr []" "h' = h"
  | x where "r = Inl (SpliceRejected x)" "h' = h"
      "validate_splice (normal_splice t start del ins d (ih_inbox h)) (ih_inbox h) = Some x"
  | x ss where "r = Inl (SpliceNotAppended x)" "h' = h\<lparr>ih_session := ss\<rparr>"
      "append_event (inbox_append_call env start (normal_splice t start del ins d (ih_inbox h))) (ih_session h) = (Inl x, ss)"
  | s k removed e ss where "s = actual_start start (length (pending_of t (ih_inbox h)))"
      "k = actual_delete_count del (length (pending_of t (ih_inbox h))) s"
      "removed = take k (drop s (pending_of t (ih_inbox h)))" "r = Inr removed"
      "append_event (inbox_append_call env start (normal_splice t start del ins d (ih_inbox h))) (ih_session h) = (Inr e, ss)"
      "apply_splice (normal_splice t start del ins d (ih_inbox h)) (ih_inbox h) =
         Inr (set_pending t (js_splice (pending_of t (ih_inbox h)) s k ins) (ih_inbox h))"
      "h' = h\<lparr>ih_session := ss,
          ih_inbox := set_pending t (js_splice (pending_of t (ih_inbox h)) s k ins) (ih_inbox h),
          ih_notices := ih_notices h @ (if d then map Discarded removed else []) @ map Inserted ins\<rparr>"
proof -
  let ?ib = "ih_inbox h"
  let ?ms = "pending_of t ?ib"
  let ?s = "actual_start start (length ?ms)"
  let ?k = "actual_delete_count del (length ?ms) ?s"
  let ?sp = "normal_splice t start del ins d ?ib"
  show thesis
  proof (cases "?k = 0 \<and> ins = []")
    case True
    with assms show thesis by (intro that(1)) (simp_all add: mutate_inbox_def Let_def)
  next
    case False
    show thesis
    proof (cases "validate_splice ?sp ?ib")
      case (Some x)
      with assms False that(2) show thesis by (auto simp: mutate_inbox_def Let_def)
    next
      case None
      obtain q ss where app: "append_event (inbox_append_call env start ?sp) (ih_session h) = (q, ss)"
        by (cases "append_event (inbox_append_call env start ?sp) (ih_session h)") auto
      show thesis
      proof (cases q)
        case (Inl x)
        with assms False None app that(3) show thesis by (auto simp: mutate_inbox_def Let_def)
      next
        case (Inr e)
        have "apply_splice ?sp ?ib = Inr (set_pending t (js_splice ?ms ?s ?k ins) ?ib)"
          using None by (simp add: apply_splice_def normal_spliced)
        moreover have "r = Inr (take ?k (drop ?s ?ms))"
          "h' = h\<lparr>ih_session := ss, ih_inbox := set_pending t (js_splice ?ms ?s ?k ins) ?ib,
            ih_notices := ih_notices h @ (if d then map Discarded (take ?k (drop ?s ?ms)) else []) @ map Inserted ins\<rparr>"
          using assms False None app Inr by (auto simp: mutate_inbox_def Let_def)
        ultimately show thesis using that(4) [OF refl refl refl] app Inr by blast
      qed
    qed
  qed
qed

subsection \<open>The live inbox is the replay of its log\<close>

definition host_ok :: "inbox_host \<Rightarrow> bool" where
  "host_ok h \<longleftrightarrow>
     replay inbox_step empty_inbox (own_events (ih_session h))
       = (None, length (own_events (ih_session h)), ih_inbox h)"

lemma host_ok_inbox: "host_ok h \<Longrightarrow> inbox_ok (ih_inbox h)"
  unfolding host_ok_def by (rule inbox_log.replay_inv)

lemma own_events_append:
  assumes "append_event c s = (Inr e, s')" and "seed_length s \<le> length (ss_log s)"
  shows "own_events s' = own_events s @ [e]" and "seed_length s' \<le> length (ss_log s')"
    and "ac_data c = Some (ev_data e)"
proof -
  have len: "seed_length s' = seed_length s" using append_event_header [OF assms(1)] by (simp add: seed_length_def)
  from assms(1) have log: "ss_log s' = ss_log s @ [e]" and "ac_data c = Some (ev_data e)"
    by (cases rule: append_event_cases; simp add: next_event_def)+
  then show "ac_data c = Some (ev_data e)" by simp
  show "own_events s' = own_events s @ [e]" "seed_length s' \<le> length (ss_log s')"
    using log assms(2) by (simp_all add: own_events_def len)
qed

lemma own_events_refused:
  assumes "append_event c s = (Inl x, s')"
  shows "own_events s' = own_events s" and "seed_length s' = seed_length s" and "ss_log s' = ss_log s"
proof -
  show log: "ss_log s' = ss_log s" using assms by (cases rule: append_event_cases) simp_all
  show "seed_length s' = seed_length s" using append_event_header [OF assms] by (simp add: seed_length_def)
  then show "own_events s' = own_events s" using log by (simp add: own_events_def)
qed

definition seed_inside :: "inbox_host \<Rightarrow> bool" where
  "seed_inside h \<longleftrightarrow> seed_length (ih_session h) \<le> length (ss_log (ih_session h))"

lemma mutate_inbox_ok:
  assumes "host_ok h" and "seed_inside h" and "mutate_inbox env t start del ins d h = (r, h')"
  shows "host_ok h' \<and> seed_inside h'"
  using assms(3)
proof (cases rule: mutate_inbox_cases)
  case idle
  with assms show ?thesis by simp
next
  case (rejected x)
  with assms show ?thesis by simp
next
  case (refused x ss)
  from own_events_refused [OF refused(3)] assms(1,2) refused(2) show ?thesis
    by (simp add: host_ok_def seed_inside_def)
next
  case (mutated s k removed e ss)
  note own = own_events_append [OF mutated(5) assms(2) [unfolded seed_inside_def]]
  have "ev_data e = InboxSpliced (normal_splice t start del ins d (ih_inbox h))"
    using own(3) by (simp add: inbox_append_call_def split: if_splits)
  from inbox_step_splice [OF this] mutated(6)
  have "inbox_step evs i (ih_inbox h) e =
      Inr (set_pending t (js_splice (pending_of t (ih_inbox h)) s k ins) (ih_inbox h))" for evs i
    by simp
  with assms(1) own(1,2) mutated(7) show ?thesis
    by (simp add: host_ok_def seed_inside_def inbox_log.replay_snoc_Some)
qed

lemma map_filter_simps [simp]:
  "List.map_filter f (xs @ ys) = List.map_filter f xs @ List.map_filter f ys"
  "List.map_filter f (map g zs) = List.map_filter (f \<circ> g) zs"
  by (auto simp: List.map_filter_def comp_def filter_map)

lemma map_filter_Some [simp]: "List.map_filter Some xs = xs" "List.map_filter (\<lambda>x. None) xs = []"
  by (simp_all add: List.map_filter_def)

lemma mset_js_splice_removed:
  assumes "s + k \<le> length ms"
  shows "mset (js_splice ms s k ins) + mset (take k (drop s ms)) = mset ms + mset ins"
proof -
  have "ms = take s ms @ take k (drop s ms) @ drop (s + k) ms"
    by (metis append_take_drop_id drop_drop add.commute)
  then have "mset ms = mset (take s ms) + mset (take k (drop s ms)) + mset (drop (s + k) ms)"
    by (metis mset_append union_assoc)
  then show ?thesis by (simp add: js_splice_def)
qed

lemma mset_set_pending:
  "mset (ib_turn (set_pending t ms ib) @ ib_step (set_pending t ms ib)) + mset (pending_of t ib) =
   mset (ib_turn ib @ ib_step ib) + mset ms"
  by (cases t) (simp_all add: set_pending_def pending_of_def)

subsection \<open>Commands\<close>

datatype inbox_command =
    Do_Splice inbox_target js_number js_number "user_message list"
  | Do_Append inbox_target user_message
  | Do_Prepend inbox_target user_message
  | Do_Replace message_id user_message
  | Do_Remove message_id
  | Do_Clear
  | Do_Claim inbox_target int

definition without_value :: "(inbox_failure + 'a) \<times> inbox_host \<Rightarrow> (inbox_failure + unit) \<times> inbox_host" where
  "without_value p = (map_sum id (\<lambda>_. ()) (fst p), snd p)"

definition run_inbox :: "inbox_env \<Rightarrow> inbox_command \<Rightarrow> unit inbox_op" where
  "run_inbox env cmd h =
     (case cmd of
        Do_Splice t start del ins \<Rightarrow> without_value (splice_inbox env t start del ins h)
      | Do_Append t m \<Rightarrow> without_value (append_message env t m h)
      | Do_Prepend t m \<Rightarrow> without_value (prepend_message env t m h)
      | Do_Replace i m \<Rightarrow> without_value (inbox_replace env i m h)
      | Do_Remove i \<Rightarrow> without_value (inbox_remove env i h)
      | Do_Clear \<Rightarrow> clear_inbox env h
      | Do_Claim t turn \<Rightarrow> without_value (claim_inbox env t turn h))"

inductive inbox_reach :: "inbox_host \<Rightarrow> bool" where
  opened: "open_inbox s = Inr ib \<Longrightarrow> seed_length s \<le> length (ss_log s) \<Longrightarrow>
    inbox_reach \<lparr>ih_session = s, ih_inbox = ib, ih_notices = []\<rparr>"
| foreign: "inbox_reach h \<Longrightarrow> append_event c (ih_session h) = (r, s') \<Longrightarrow>
    (\<And>sp. ac_data c \<noteq> Some (InboxSpliced sp)) \<Longrightarrow> inbox_reach (h\<lparr>ih_session := s'\<rparr>)"
| command: "inbox_reach h \<Longrightarrow> run_inbox env cmd h = (r, h') \<Longrightarrow> inbox_reach h'"

text \<open>Every command is a sequence of mutations, followed by notifications.\<close>

inductive mutations :: "inbox_host \<Rightarrow> inbox_host \<Rightarrow> bool" where
  still: "mutations h h"
| mutation: "mutate_inbox env t start del ins d h = (r, h1) \<Longrightarrow> mutations h1 h2 \<Longrightarrow> mutations h h2"
| notify: "mutations h (h2\<lparr>ih_notices := ns\<rparr>)" if "mutations h h2"

lemma one_mutation: "mutate_inbox env t start del ins d h = (r, h') \<Longrightarrow> mutations h h'"
  by (rule mutation [OF _ still])

lemma splice_mutations: "splice_inbox env t start del ins h = (r, h') \<Longrightarrow> mutations h h'"
  unfolding splice_inbox_def by (rule one_mutation)

lemma replace_mutations: "replace_message env i new h = (r, h') \<Longrightarrow> mutations h h'"
  by (auto simp: replace_message_def still dest: splice_mutations split: option.splits prod.splits sum.splits)

lemma clear_mutations:
  assumes "clear_inbox env h = (r, h')"
  shows "mutations h h'"
proof -
  obtain q h1 where a: "splice_inbox env NextStep (JsFinite 0) (js_length (ib_step (ih_inbox h))) [] h = (q, h1)"
    by (cases "splice_inbox env NextStep (JsFinite 0) (js_length (ib_step (ih_inbox h))) [] h") auto
  obtain p h2 where b: "splice_inbox env NextTurn (JsFinite 0) (js_length (ib_turn (ih_inbox h1))) [] h1 = (p, h2)"
    by (cases "splice_inbox env NextTurn (JsFinite 0) (js_length (ib_turn (ih_inbox h1))) [] h1") auto
  from assms a b have "h' = h1 \<or> h' = h2"
    by (cases q; cases p) (simp_all add: clear_inbox_def)
  then show ?thesis
    using splice_mutations [OF a] mutation [OF a [unfolded splice_inbox_def] splice_mutations [OF b]] by blast
qed

lemma claim_batch_mutations:
  assumes "claim_batch env t h = (r, h')"
  shows "mutations h h'"
proof -
  obtain q h1 where a: "mutate_inbox env NextStep (JsFinite 0) (js_length (ib_step (ih_inbox h))) [] False h = (q, h1)"
    by (cases "mutate_inbox env NextStep (JsFinite 0) (js_length (ib_step (ih_inbox h))) [] False h") auto
  obtain p h2 where b: "mutate_inbox env NextTurn (JsFinite 0) (JsFinite 1) [] False h1 = (p, h2)"
    by (cases "mutate_inbox env NextTurn (JsFinite 0) (JsFinite 1) [] False h1") auto
  from assms a b have "h' = h1 \<or> h' = h2"
    by (cases q; cases p) (auto simp: claim_batch_def split: if_splits)
  then show ?thesis using one_mutation [OF a] mutation [OF a one_mutation [OF b]] by blast
qed

lemma claim_mutations: "claim_inbox env t turn h = (r, h') \<Longrightarrow> mutations h h'"
  by (auto simp: claim_inbox_def intro: notify claim_batch_mutations split: prod.splits sum.splits)

lemma run_inbox_mutations:
  assumes "run_inbox env cmd h = (r, h')"
  shows "mutations h h'"
proof -
  have snd: "h' = snd p \<Longrightarrow> \<exists>q. p = (q, h')" for p :: "(inbox_failure + 'a) \<times> inbox_host"
    by (cases p) simp
  show ?thesis
  proof (cases cmd)
    case (Do_Splice t start del ins)
    with assms have "h' = snd (splice_inbox env t start del ins h)" by (simp add: run_inbox_def without_value_def)
    from snd [OF this] show ?thesis using splice_mutations by blast
  next
    case (Do_Append t m)
    with assms have "h' = snd (append_message env t m h)" by (simp add: run_inbox_def without_value_def)
    from snd [OF this] show ?thesis unfolding append_message_def using splice_mutations by blast
  next
    case (Do_Prepend t m)
    with assms have "h' = snd (prepend_message env t m h)" by (simp add: run_inbox_def without_value_def)
    from snd [OF this] show ?thesis unfolding prepend_message_def using splice_mutations by blast
  next
    case (Do_Replace i m)
    with assms have "h' = snd (inbox_replace env i m h)" by (simp add: run_inbox_def without_value_def)
    from snd [OF this] show ?thesis unfolding inbox_replace_def using replace_mutations by blast
  next
    case (Do_Remove i)
    with assms have "h' = snd (inbox_remove env i h)" by (simp add: run_inbox_def without_value_def)
    from snd [OF this] show ?thesis unfolding inbox_remove_def using replace_mutations by blast
  next
    case Do_Clear
    with assms clear_mutations show ?thesis by (simp add: run_inbox_def)
  next
    case (Do_Claim t turn)
    with assms have "h' = snd (claim_inbox env t turn h)" by (simp add: run_inbox_def without_value_def)
    from snd [OF this] show ?thesis using claim_mutations by blast
  qed
qed

lemma mutations_ok: "mutations h h' \<Longrightarrow> host_ok h \<and> seed_inside h \<Longrightarrow> host_ok h' \<and> seed_inside h'"
proof (induction rule: mutations.induct)
  case (mutation env t start del ins d h r h1 h2)
  then show ?case using mutate_inbox_ok by blast
qed (simp_all add: host_ok_def seed_inside_def)

lemma inbox_reach_ok: "inbox_reach h \<Longrightarrow> host_ok h \<and> seed_inside h"
proof (induction rule: inbox_reach.induct)
  case (opened s ib)
  obtain e n ib' where run: "replay inbox_step empty_inbox (own_events s) = (e, n, ib')"
    by (cases "replay inbox_step empty_inbox (own_events s)") auto
  with opened have "e = None" "ib' = ib" by (auto simp: open_inbox_def split: option.splits)
  with run opened show ?case
    using inbox_log.replay_length by (simp add: host_ok_def seed_inside_def)
next
  case (foreign h c r s')
  show ?case
  proof (cases r)
    case (Inl x)
    with foreign own_events_refused show ?thesis by (simp add: host_ok_def seed_inside_def)
  next
    case (Inr e)
    with foreign(2) have "append_event c (ih_session h) = (Inr e, s')" by simp
    note own = own_events_append [OF this] 
    from foreign have len: "seed_length (ih_session h) \<le> length (ss_log (ih_session h))"
      by (simp add: seed_inside_def)
    have "\<And>sp. ev_data e \<noteq> InboxSpliced sp" using own(3) [OF len] foreign(3) by auto
    with own(1,2) [OF len] foreign(4) show ?thesis
      by (simp add: host_ok_def seed_inside_def inbox_log.replay_snoc_Some inbox_step_other)
  qed
next
  case (command h env cmd r h')
  then show ?case using mutations_ok [OF run_inbox_mutations] by blast
qed

text \<open>
  Claim C13. In every state that opening, commands (failing ones included) and foreign
  appends can reach, the live inbox is exactly what reopening the session would replay, and
  no message identity is pending twice.
\<close>

theorem live_inbox_is_replay:
  assumes "inbox_reach h"
  shows "open_inbox (ih_session h) = Inr (ih_inbox h) \<and> distinct (pending_ids (ih_inbox h))"
  using inbox_reach_ok [OF assms] host_ok_inbox [of h]
  by (simp add: open_inbox_def host_ok_def inbox_ok_def)

subsection \<open>Every message is accounted for\<close>

definition pending_messages :: "inbox \<Rightarrow> user_message multiset" where
  "pending_messages ib = mset (ib_turn ib) + mset (ib_step ib)"

definition arrived :: "inbox_notice list \<Rightarrow> user_message multiset" where
  "arrived ns = mset (List.map_filter (\<lambda>n. case n of Inserted m \<Rightarrow> Some m | _ \<Rightarrow> None) ns)"

definition departed :: "inbox_notice list \<Rightarrow> user_message multiset" where
  "departed ns =
     mset (List.map_filter (\<lambda>n. case n of Discarded m \<Rightarrow> Some m | Claimed m _ \<Rightarrow> Some m | _ \<Rightarrow> None) ns)"

lemma notices_simps [simp]:
  "arrived [] = {#}" "departed [] = {#}"
  "arrived (xs @ ys) = arrived xs + arrived ys" "departed (xs @ ys) = departed xs + departed ys"
  "arrived (map Inserted ms) = mset ms" "departed (map Inserted ms) = {#}"
  "arrived (map Discarded ms) = {#}" "departed (map Discarded ms) = mset ms"
  "arrived (map (\<lambda>m. Claimed m k) ms) = {#}" "departed (map (\<lambda>m. Claimed m k) ms) = mset ms"
  by (simp_all add: arrived_def departed_def comp_def)

lemma multiset_exchange:
  fixes a b p n r i :: "'a multiset"
  assumes "a + p = b + n" and "n + r = p + i"
  shows "a + r = b + i"
proof (rule multiset_eqI)
  fix x
  from arg_cong [OF assms(1), of "\<lambda>m. count m x"] arg_cong [OF assms(2), of "\<lambda>m. count m x"]
  show "count (a + r) x = count (b + i) x" by simp
qed

lemma mutate_inbox_conserves:
  assumes "mutate_inbox env t start del ins d h = (Inr ms, h')"
  shows "\<exists>new. ih_notices h' = ih_notices h @ new
    \<and> pending_messages (ih_inbox h') + departed new + (if d then {#} else mset ms)
        = pending_messages (ih_inbox h) + arrived new"
  using assms
proof (cases rule: mutate_inbox_cases)
  case idle
  then show ?thesis by (intro exI [of _ "[]"]) simp
next
  case (mutated s k removed e ss)
  let ?p = "pending_of t (ih_inbox h)"
  have "s + k \<le> length ?p"
    using actual_start_le [of start "length ?p"] actual_delete_count_le [of del "length ?p" s] mutated(1,2) by linarith
  from mset_js_splice_removed [OF this, of ins]
  have "mset (js_splice ?p s k ins) + mset removed = mset ?p + mset ins" by (simp add: mutated(3))
  moreover have "pending_messages (ih_inbox h') + mset ?p =
      pending_messages (ih_inbox h) + mset (js_splice ?p s k ins)"
    using mset_set_pending [of t "js_splice ?p s k ins" "ih_inbox h"] mutated(7)
    by (simp add: pending_messages_def)
  ultimately have "pending_messages (ih_inbox h') + mset removed = pending_messages (ih_inbox h) + mset ins"
    by (rule multiset_exchange [rotated])
  with mutated(4,7) show ?thesis
    by (intro exI [of _ "(if d then map Discarded removed else []) @ map Inserted ins"])
      (simp add: ac_simps)
qed simp_all

definition conserves :: "inbox_host \<Rightarrow> inbox_host \<Rightarrow> user_message multiset \<Rightarrow> bool" where
  "conserves h h' taken \<longleftrightarrow>
     (\<exists>new. ih_notices h' = ih_notices h @ new
        \<and> pending_messages (ih_inbox h') + departed new + taken
            = pending_messages (ih_inbox h) + arrived new)"

lemma conserves_trans:
  assumes "conserves h1 h2 a" and "conserves h2 h3 b"
  shows "conserves h1 h3 (a + b)"
proof -
  from assms obtain x y where
    x: "ih_notices h2 = ih_notices h1 @ x"
      "pending_messages (ih_inbox h2) + departed x + a = pending_messages (ih_inbox h1) + arrived x"
    and y: "ih_notices h3 = ih_notices h2 @ y"
      "pending_messages (ih_inbox h3) + departed y + b = pending_messages (ih_inbox h2) + arrived y"
    by (auto simp: conserves_def)
  have "pending_messages (ih_inbox h3) + (departed y + b) = pending_messages (ih_inbox h2) + arrived y"
    using y(2) by (simp add: ac_simps)
  moreover have "pending_messages (ih_inbox h2) + arrived y + (departed x + a)
      = (pending_messages (ih_inbox h2) + departed x + a) + arrived y"
    by (simp add: ac_simps)
  ultimately have "pending_messages (ih_inbox h3) + (departed y + b) + (departed x + a)
      = pending_messages (ih_inbox h1) + arrived x + arrived y"
    by (simp add: x(2))
  with x(1) y(1) show ?thesis
    unfolding conserves_def by (intro exI [of _ "x @ y"]) (simp add: ac_simps)
qed

lemma splice_conserves: "splice_inbox env t start del ins h = (Inr ms, h') \<Longrightarrow> conserves h h' {#}"
  using mutate_inbox_conserves [of env t start del ins True h ms h'] by (simp add: conserves_def splice_inbox_def)

lemma take_conserves: "mutate_inbox env t start del ins False h = (Inr ms, h') \<Longrightarrow> conserves h h' (mset ms)"
  using mutate_inbox_conserves [of env t start del ins False h ms h'] by (simp add: conserves_def)

lemma conserves_refl: "conserves h h {#}"
  by (auto simp: conserves_def intro: exI [of _ "[]"])

lemma replace_conserves: "replace_message env i new h = (Inr b, h') \<Longrightarrow> conserves h h' {#}"
  by (auto simp: replace_message_def conserves_refl dest: splice_conserves
      split: option.splits prod.splits sum.splits)

lemma claim_batch_conserves:
  assumes "claim_batch env t h = (Inr ms, h')"
  shows "conserves h h' (mset ms)"
proof -
  obtain q h1 where a: "mutate_inbox env NextStep (JsFinite 0) (js_length (ib_step (ih_inbox h))) [] False h = (q, h1)"
    by (cases "mutate_inbox env NextStep (JsFinite 0) (js_length (ib_step (ih_inbox h))) [] False h") auto
  obtain p h2 where b: "mutate_inbox env NextTurn (JsFinite 0) (JsFinite 1) [] False h1 = (p, h2)"
    by (cases "mutate_inbox env NextTurn (JsFinite 0) (JsFinite 1) [] False h1") auto
  from assms a obtain xs where q: "q = Inr xs" by (cases q) (simp_all add: claim_batch_def)
  show ?thesis
  proof (cases "t = NextTurn")
    case True
    with assms a b q obtain ys where "p = Inr ys" "ms = xs @ ys" "h' = h2"
      by (cases p) (auto simp: claim_batch_def)
    with conserves_trans [OF take_conserves take_conserves] a b q show ?thesis by fastforce
  next
    case False
    with assms a q take_conserves show ?thesis by (auto simp: claim_batch_def)
  qed
qed

text \<open>
  Claim C33. Across every successful command, the pending messages plus those announced as
  discarded or claimed are, as multisets, the previously pending ones plus those announced
  as inserted.
\<close>

theorem inbox_conserves_messages:
  assumes "run_inbox env cmd h = (Inr (), h')"
  shows "\<exists>new. ih_notices h' = ih_notices h @ new
    \<and> pending_messages (ih_inbox h') + departed new = pending_messages (ih_inbox h) + arrived new"
proof -
  have returned: "\<exists>v. p = (Inr v, h')" if "without_value p = (Inr (), h')" for p :: "(inbox_failure + 'a) \<times> inbox_host"
    using that by (cases p; cases "fst p") (auto simp: without_value_def)
  have "conserves h h' {#}"
  proof (cases cmd)
    case (Do_Splice t start del ins)
    with assms have "without_value (splice_inbox env t start del ins h) = (Inr (), h')" by (simp add: run_inbox_def)
    from returned [OF this] splice_conserves show ?thesis by blast
  next
    case (Do_Append t m)
    with assms have "without_value (append_message env t m h) = (Inr (), h')" by (simp add: run_inbox_def)
    from returned [OF this] splice_conserves show ?thesis unfolding append_message_def by blast
  next
    case (Do_Prepend t m)
    with assms have "without_value (prepend_message env t m h) = (Inr (), h')" by (simp add: run_inbox_def)
    from returned [OF this] splice_conserves show ?thesis unfolding prepend_message_def by blast
  next
    case (Do_Replace i m)
    with assms have "without_value (inbox_replace env i m h) = (Inr (), h')" by (simp add: run_inbox_def)
    from returned [OF this] replace_conserves show ?thesis unfolding inbox_replace_def by blast
  next
    case (Do_Remove i)
    with assms have "without_value (inbox_remove env i h) = (Inr (), h')" by (simp add: run_inbox_def)
    from returned [OF this] replace_conserves show ?thesis unfolding inbox_remove_def by blast
  next
    case Do_Clear
    with assms obtain xs h1 ys where
      "splice_inbox env NextStep (JsFinite 0) (js_length (ib_step (ih_inbox h))) [] h = (Inr xs, h1)"
      "splice_inbox env NextTurn (JsFinite 0) (js_length (ib_turn (ih_inbox h1))) [] h1 = (Inr ys, h')"
      by (auto simp: run_inbox_def clear_inbox_def split: prod.splits sum.splits)
    with conserves_trans [OF splice_conserves splice_conserves] show ?thesis by fastforce
  next
    case (Do_Claim t turn)
    with assms have "without_value (claim_inbox env t turn h) = (Inr (), h')" by (simp add: run_inbox_def)
    from returned [OF this] obtain ms h1 where b: "claim_batch env t h = (Inr ms, h1)"
      and h': "h' = h1\<lparr>ih_notices := ih_notices h1 @ map (\<lambda>m. Claimed m turn) ms\<rparr>"
      by (auto simp: claim_inbox_def split: prod.splits sum.splits)
    from claim_batch_conserves [OF b] obtain new where "ih_notices h1 = ih_notices h @ new"
      "pending_messages (ih_inbox h1) + departed new + mset ms = pending_messages (ih_inbox h) + arrived new"
      by (auto simp: conserves_def)
    then show ?thesis
      unfolding conserves_def h'
      by (intro exI [of _ "new @ map (\<lambda>m. Claimed m turn) ms"]) (simp add: ac_simps)
  qed
  then show ?thesis by (simp add: conserves_def)
qed

theorem inbox_splices_in_bounds:
  assumes "int (length (pending_of t (ih_inbox h))) \<le> max_safe"
  shows "fst (mutate_inbox env t start del ins d h) \<noteq> Inl (SpliceRejected InvalidSplice)"
proof
  assume a: "fst (mutate_inbox env t start del ins d h) = Inl (SpliceRejected InvalidSplice)"
  obtain r h' where m: "mutate_inbox env t start del ins d h = (r, h')"
    by (cases "mutate_inbox env t start del ins d h") auto
  with a have "validate_splice (normal_splice t start del ins d (ih_inbox h)) (ih_inbox h) = Some InvalidSplice"
    by (auto elim: mutate_inbox_cases)
  with normal_splice_bounds [OF assms, of start del ins d] show False
    by (auto simp: validate_splice_def splice_bounds_def Let_def split: if_splits)
qed

lemma take_batch:
  assumes "mutate_inbox env t (JsFinite 0) (JsFinite (of_nat k)) [] False h = (Inr ms, h')"
  shows "ms = take k (pending_of t (ih_inbox h))"
    and "ih_inbox h' = set_pending t (drop k (pending_of t (ih_inbox h))) (ih_inbox h)"
    and "ih_notices h' = ih_notices h"
proof -
  let ?p = "pending_of t (ih_inbox h)"
  have z: "actual_start (JsFinite 0) (length ?p) = 0" using actual_start_nat [of 0] by simp
  have k: "actual_delete_count (JsFinite (of_nat k)) (length ?p) 0 = min k (length ?p)"
    using actual_delete_count_nat [of k "length ?p" 0] by simp
  have self: "set_pending t ?p (ih_inbox h) = ih_inbox h"
    by (cases t) (simp_all add: set_pending_def pending_of_def)
  have idle: "min k (length ?p) = 0 \<Longrightarrow> take k ?p = [] \<and> drop k ?p = ?p" by (auto simp: min_def split: if_splits)
  have "take (min k (length ?p)) ?p = take k ?p" "drop (min k (length ?p)) ?p = drop k ?p"
    by (auto simp: min_def)
  with assms z k self idle
  show "ms = take k ?p" "ih_inbox h' = set_pending t (drop k ?p) (ih_inbox h)" "ih_notices h' = ih_notices h"
    by (auto simp: mutate_inbox_def Let_def js_splice_def split: if_splits option.splits prod.splits sum.splits)
qed

theorem claim_takes_the_batch:
  assumes "claim_inbox env t turn h = (Inr ms, h')"
  shows "ms = ib_step (ih_inbox h) @ (if t = NextTurn then take 1 (ib_turn (ih_inbox h)) else [])
    \<and> ih_inbox h' = \<lparr>ib_turn = (if t = NextTurn then drop 1 (ib_turn (ih_inbox h)) else ib_turn (ih_inbox h)),
                     ib_step = []\<rparr>
    \<and> ih_notices h' = ih_notices h @ map (\<lambda>m. Claimed m turn) ms"
proof -
  from assms obtain h1 where batch: "claim_batch env t h = (Inr ms, h1)"
    and h': "h' = h1\<lparr>ih_notices := ih_notices h1 @ map (\<lambda>m. Claimed m turn) ms\<rparr>"
    by (auto simp: claim_inbox_def split: prod.splits sum.splits)
  from batch obtain xs h2 where
    a: "mutate_inbox env NextStep (JsFinite 0) (js_length (ib_step (ih_inbox h))) [] False h = (Inr xs, h2)"
    by (auto simp: claim_batch_def split: prod.splits sum.splits)
  note step = take_batch [OF a [unfolded js_length_def]]
  have step_all: "xs = ib_step (ih_inbox h)" "ih_inbox h2 = (ih_inbox h)\<lparr>ib_step := []\<rparr>" "ih_notices h2 = ih_notices h"
    using step by (simp_all add: pending_of_def set_pending_def)
  show ?thesis
  proof (cases "t = NextTurn")
    case True
    with batch a obtain ys where
      b: "mutate_inbox env NextTurn (JsFinite 0) (JsFinite (of_nat 1)) [] False h2 = (Inr ys, h1)"
      and ms: "ms = xs @ ys"
      by (auto simp: claim_batch_def split: prod.splits sum.splits)
    from take_batch [OF b] step_all True ms h' show ?thesis by (simp add: pending_of_def set_pending_def)
  next
    case False
    with batch a have "ms = xs" "h1 = h2" by (auto simp: claim_batch_def)
    with step_all False h' show ?thesis by simp
  qed
qed

subsection \<open>Removing by identity\<close>

lemma find_message_None_iff: "find_message i ms = None \<longleftrightarrow> i \<notin> um_id ` set ms"
  by (induction ms) auto

lemma find_message_remove:
  "find_message i ms = Some n \<Longrightarrow> n < length ms \<and> map um_id (js_splice ms n 1 []) = remove1 i (map um_id ms)"
  by (induction ms arbitrary: n) (auto simp: js_splice_def split: if_splits)

lemma splice_one:
  assumes "splice_inbox env t (JsFinite (of_nat n)) (JsFinite 1) new h = (Inr v, h')"
    and "n < length (pending_of t (ih_inbox h))"
  shows "ih_inbox h' = set_pending t (js_splice (pending_of t (ih_inbox h)) n 1 new) (ih_inbox h)"
proof -
  let ?p = "pending_of t (ih_inbox h)"
  have "actual_start (JsFinite (of_nat n)) (length ?p) = n" using assms(2) by (simp add: actual_start_nat)
  moreover have "actual_delete_count (JsFinite 1) (length ?p) n = 1"
    using assms(2) actual_delete_count_nat [of 1 "length ?p" n] by simp
  ultimately show ?thesis
    using assms(1) by (auto simp: splice_inbox_def mutate_inbox_def Let_def
        split: option.splits prod.splits sum.splits)
qed

theorem remove_takes_the_identity:
  assumes "inbox_remove env i h = (Inr b, h')"
  shows "b = (i \<in> set (pending_ids (ih_inbox h)))
    \<and> pending_ids (ih_inbox h') = remove1 i (pending_ids (ih_inbox h))"
proof (cases "locate_message i (ih_inbox h)")
  case None
  then have "i \<notin> set (pending_ids (ih_inbox h))"
    by (auto simp: locate_message_def pending_ids_def find_message_None_iff split: option.splits)
  with assms None show ?thesis by (simp add: inbox_remove_def replace_message_def remove1_idem)
next
  case (Some p)
  obtain t n where p: "p = (t, n)" by (cases p)
  with assms Some obtain v where b: b and sp: "splice_inbox env t (JsFinite (of_nat n)) (JsFinite 1) [] h = (Inr v, h')"
    by (auto simp: inbox_remove_def replace_message_def split: prod.splits sum.splits)
  have found: "find_message i (pending_of t (ih_inbox h)) = Some n"
    and first: "t = NextStep \<Longrightarrow> i \<notin> um_id ` set (ib_turn (ih_inbox h))"
    using Some p by (auto simp: locate_message_def pending_of_def find_message_None_iff [symmetric] split: option.splits)
  have mem: "i \<in> um_id ` set (pending_of t (ih_inbox h))"
    using found find_message_None_iff [of i "pending_of t (ih_inbox h)"] by auto
  have "i \<in> set (pending_ids (ih_inbox h))"
    using found find_message_None_iff [of i "pending_of t (ih_inbox h)"]
    by (cases t) (auto simp: pending_ids_def pending_of_def)
  moreover have "pending_ids (ih_inbox h') = remove1 i (pending_ids (ih_inbox h))"
    using splice_one [OF sp] find_message_remove [OF found] first mem
    by (cases t) (auto simp: pending_ids_def pending_of_def set_pending_def remove1_append
        find_message_None_iff dest: find_message_remove)
  ultimately show ?thesis using b by simp
qed

subsection \<open>The account of consumed work\<close>

text \<open>
  The reference: a turn end accounts for consumed work exactly when, since its turn started,
  a step started, or input was claimed and the ending is not \<open>completed\<close>. The account is the
  last such end, and whether a cancellation left nothing behind after it. The log is read
  backwards.
\<close>

definition this_turn :: "session_event list \<Rightarrow> session_event list" where
  "this_turn es = takeWhile (\<lambda>e. case ev_data e of TurnStart _ \<Rightarrow> False | _ \<Rightarrow> True) es"

definition starts_step :: "session_event \<Rightarrow> bool" where
  "starts_step e = (case ev_data e of StepStart _ _ \<Rightarrow> True | _ \<Rightarrow> False)"

definition claims_input :: "session_event \<Rightarrow> bool" where
  "claims_input e = (case ev_data e of InboxSpliced sp \<Rightarrow> sp_removed sp \<noteq> None \<and> \<not> sp_canceled sp | _ \<Rightarrow> False)"

definition drops_input :: "session_event \<Rightarrow> bool" where
  "drops_input e =
     (case ev_data e of InboxSpliced sp \<Rightarrow> sp_removed sp \<noteq> None \<and> sp_canceled sp \<and> sp_inserted sp = [] | _ \<Rightarrow> False)"

definition accounts :: "session_event \<Rightarrow> session_event list \<Rightarrow> bool" where
  "accounts e before =
     (case ev_data e of
        TurnEnd _ r \<Rightarrow>
          list_ex starts_step (this_turn before) \<or> (list_ex claims_input (this_turn before) \<and> accounts_for_claim r)
      | _ \<Rightarrow> False)"

fun work_account :: "session_event list \<Rightarrow> session_event option \<times> bool" where
  "work_account [] = (None, False)"
| "work_account (e # es) =
     (if accounts e es then (Some e, False)
      else (fst (work_account es), snd (work_account es) \<or> drops_input e))"

definition work_start :: work_fold where
  "work_start = \<lparr>wf_stepped = {}, wf_claimed = {}, wf_open = None, wf_end = None, wf_dropped = False\<rparr>"

definition work_ok :: "session_event list \<Rightarrow> session_trace \<Rightarrow> work_fold \<Rightarrow> bool" where
  "work_ok evs tr w \<longleftrightarrow>
     wf_open w = open_turn tr
     \<and> (\<forall>t \<in> wf_stepped w \<union> wf_claimed w. t < next_turn tr \<or> open_turn tr = Some t)
     \<and> (\<forall>t. open_turn tr = Some t \<longrightarrow>
          (t \<in> wf_stepped w \<longleftrightarrow> list_ex starts_step (this_turn (rev evs)))
          \<and> (t \<in> wf_claimed w \<longleftrightarrow> list_ex claims_input (this_turn (rev evs))))
     \<and> work_account (rev evs) = (wf_end w, wf_dropped w)"

lemma this_turn_Cons [simp]:
  "this_turn (e # es) = (case ev_data e of TurnStart _ \<Rightarrow> [] | _ \<Rightarrow> e # this_turn es)"
  by (simp add: this_turn_def split: event_data.splits)

lemma work_ok_step:
  assumes ok: "work_ok evs tr w" and wf: "trace_wf tr"
    and step: "trace_step evs i tr e = Inr tr'"
  shows "work_ok (evs @ [e]) tr' (consume_event w e)"
proof (cases "ev_data e")
  case (TurnStart t)
  with step have t: "open_turn tr = None" "t = next_turn tr" "open_turn tr' = Some t" "next_turn tr' = next_turn tr"
    by (auto simp: trace_defs split: if_splits option.splits)
  with ok TurnStart show ?thesis
    by (auto simp: work_ok_def consume_event_def accounts_def drops_input_def)
next
  case (TurnEnd t r)
  with step have t: "open_turn tr = Some t" "open_turn tr' = None" "next_turn tr' = next_turn tr + 1"
    by (auto simp: trace_defs split: if_splits option.splits)
  let ?w = "consume_event w e"
  have turn: "t = next_turn tr" using wf t(1) by (simp add: trace_wf_def)
  have sub: "wf_stepped ?w \<union> wf_claimed ?w \<subseteq> wf_stepped w \<union> wf_claimed w" and closed: "wf_open ?w = None"
    using TurnEnd by (auto simp: consume_event_def Let_def split: if_splits)
  have "\<forall>u \<in> wf_stepped w \<union> wf_claimed w. u < next_turn tr'"
  proof
    fix u
    assume "u \<in> wf_stepped w \<union> wf_claimed w"
    with ok have "u < next_turn tr \<or> open_turn tr = Some u" unfolding work_ok_def by blast
    then show "u < next_turn tr'" using t turn by auto
  qed
  with sub have bound: "\<forall>u \<in> wf_stepped ?w \<union> wf_claimed ?w. u < next_turn tr'" by blast
  have mem: "t \<in> wf_stepped w \<longleftrightarrow> list_ex starts_step (this_turn (rev evs))"
    "t \<in> wf_claimed w \<longleftrightarrow> list_ex claims_input (this_turn (rev evs))"
    and acc: "work_account (rev evs) = (wf_end w, wf_dropped w)"
    using ok t(1) by (simp_all add: work_ok_def)
  have "work_account (e # rev evs) = (wf_end ?w, wf_dropped ?w)"
    using TurnEnd by (simp add: consume_event_def Let_def accounts_def drops_input_def mem acc)
  with bound closed t(2) show ?thesis by (simp add: work_ok_def)
next
  case (StepStart t s)
  with step have t: "open_turn tr = Some t" "open_turn tr' = Some t" "next_turn tr' = next_turn tr"
    by (auto simp: trace_defs split: if_splits option.splits)
  with ok StepStart show ?thesis
    by (auto simp: work_ok_def consume_event_def accounts_def drops_input_def starts_step_def claims_input_def)
next
  case (InboxSpliced sp)
  with step have t: "open_turn tr' = open_turn tr" "next_turn tr' = next_turn tr"
    by (auto simp: trace_defs split: if_splits)
  with ok InboxSpliced show ?thesis
    by (cases "open_turn tr"; cases "sp_removed sp")
      (auto simp: work_ok_def consume_event_def accounts_def drops_input_def starts_step_def claims_input_def)
qed (use ok step in \<open>auto simp: work_ok_def consume_event_def accounts_def drops_input_def starts_step_def
    claims_input_def trace_defs split: if_splits option.splits\<close>)

theorem consumed_work_is_the_account:
  assumes "seed_trace evs = Inr tr"
  shows "(cw_end (fold_consumed_work evs), cw_dropped (fold_consumed_work evs)) = work_account (rev evs)"
proof -
  have "work_ok evs tr (foldl consume_event work_start evs)"
    using assms
  proof (induction rule: seed_trace_induct)
    case Nil
    show ?case by (simp add: work_ok_def fresh_trace_def work_start_def)
  next
    case (snoc evs e tr tr')
    then show ?case by (simp add: work_ok_step)
  qed
  then show ?thesis by (simp add: work_ok_def fold_consumed_work_def work_start_def [symmetric] Let_def)
qed

subsection \<open>A sample inbox\<close>

definition sample_inbox_env :: inbox_env where
  "sample_inbox_env = \<lparr>ie_time = 3, ie_appending = None, ie_dispatch_throws = False\<rparr>"

definition fresh_host :: inbox_host where
  "fresh_host = \<lparr>ih_session = empty_session, ih_inbox = empty_inbox, ih_notices = []\<rparr>"

definition filled_host :: inbox_host where
  "filled_host = snd (run_inbox sample_inbox_env (Do_Append NextTurn sample_user) fresh_host)"

lemma filled_host_facts:
  "fst (run_inbox sample_inbox_env (Do_Append NextTurn sample_user) fresh_host) = Inr ()"
  "ib_turn (ih_inbox filled_host) = [sample_user]" "ib_step (ih_inbox filled_host) = []"
  by code_simp+

lemma filled_host_reach: "inbox_reach filled_host"
proof -
  have "open_inbox empty_session = Inr empty_inbox" by code_simp
  then have "inbox_reach fresh_host"
    unfolding fresh_host_def by (rule opened) (simp add: seed_length_def empty_session_def)
  then show ?thesis unfolding filled_host_def by (rule command) (rule prod.collapse [symmetric])
qed

lemma live_inbox_is_replay_witness:
  "open_inbox (ih_session filled_host) = Inr (ih_inbox filled_host) \<and> pending_ids (ih_inbox filled_host) = [''m1'']"
  using live_inbox_is_replay [OF filled_host_reach] filled_host_facts
  by (simp add: pending_ids_def sample_user_def)

lemma inbox_conserves_messages_witness:
  "\<exists>new. ih_notices filled_host = ih_notices fresh_host @ new
    \<and> pending_messages (ih_inbox filled_host) + departed new = pending_messages (ih_inbox fresh_host) + arrived new"
  by (rule inbox_conserves_messages [of sample_inbox_env "Do_Append NextTurn sample_user"])
    (simp add: filled_host_def prod_eq_iff filled_host_facts(1))

lemma inbox_splices_in_bounds_witness:
  "fst (mutate_inbox sample_inbox_env NextTurn (JsFinite (- 3)) JsPosInf [] True filled_host)
     \<noteq> Inl (SpliceRejected InvalidSplice)"
  by (rule inbox_splices_in_bounds) (simp add: pending_of_def filled_host_facts max_safe_def)

lemma claim_takes_the_batch_witness:
  "fst (claim_inbox sample_inbox_env NextTurn 1 filled_host) = Inr [sample_user]
    \<and> ih_inbox (snd (claim_inbox sample_inbox_env NextTurn 1 filled_host)) = empty_inbox"
proof -
  have run: "fst (claim_inbox sample_inbox_env NextTurn 1 filled_host) = Inr [sample_user]" by code_simp
  then have "claim_inbox sample_inbox_env NextTurn 1 filled_host =
      (Inr [sample_user], snd (claim_inbox sample_inbox_env NextTurn 1 filled_host))"
    by (simp add: prod_eq_iff)
  from claim_takes_the_batch [OF this] run filled_host_facts show ?thesis by (simp add: empty_inbox_def)
qed

lemma remove_takes_the_identity_witness:
  "pending_ids (ih_inbox (snd (inbox_remove sample_inbox_env ''m1'' filled_host))) = []"
proof -
  have "fst (inbox_remove sample_inbox_env ''m1'' filled_host) = Inr True" by code_simp
  then have "inbox_remove sample_inbox_env ''m1'' filled_host =
      (Inr True, snd (inbox_remove sample_inbox_env ''m1'' filled_host))"
    by (simp add: prod_eq_iff)
  from remove_takes_the_identity [OF this] filled_host_facts show ?thesis
    by (simp add: pending_ids_def sample_user_def)
qed

definition worked_log :: "session_event list" where
  "worked_log =
     [plain_event 0 0 (TurnStart 1),
      plain_event 1 0 (InboxSpliced \<lparr>sp_target = NextTurn, sp_start = 0, sp_removed = Some 1,
        sp_inserted = [], sp_canceled = False\<rparr>),
      plain_event 2 0 (TurnEnd 1 Blocked)]"

lemma consumed_work_is_the_account_witness:
  "cw_end (fold_consumed_work worked_log) = Some (plain_event 2 0 (TurnEnd 1 Blocked))"
proof -
  have "seed_trace worked_log = Inr (projr (seed_trace worked_log))" by code_simp
  from consumed_work_is_the_account [OF this] have
    "cw_end (fold_consumed_work worked_log) = fst (work_account (rev worked_log))"
    by (simp add: prod_eq_iff)
  also have "\<dots> = Some (plain_event 2 0 (TurnEnd 1 Blocked))" by code_simp
  finally show ?thesis .
qed

end
