(* ===== verification/Prompt_Text.thy ===== *)
theory Prompt_Text
  imports Session_Types "HOL-Library.Multiset" "HOL-Library.List_Lexorder" "HOL-Library.Char_ord"
begin

section \<open>Rendering a prompt assembly\<close>

text \<open>
  The pure half of \<^verbatim>\<open>packages/core/system-prompt/src/index.ts\<close>: the interpolation of
  \<open>{{variable}}\<close> references, the rendering of sections and of the dynamic context, the
  order of the tools, and the check of an assembly in \<^verbatim>\<open>invariant.ts\<close>. A position in a text
  is the rest of the text from there; strings order by their characters.
\<close>

subsection \<open>Assemblies\<close>

record assembled_part =
  ap_name :: string
  ap_text :: string

record tool_schema =
  ts_name :: string
  ts_description :: string
  ts_parameters :: json

text \<open>The variables as the entries of an object; \<open>None\<close> is a registered name without value.\<close>

record prompt_assembly =
  pa_sections :: "assembled_part list"
  pa_contexts :: "assembled_part list"
  pa_tools :: "tool_schema list"
  pa_variables :: "(string \<times> string option) list"

datatype part_kind = SectionPart | ContextPart

datatype prompt_error =
    MalformedAt string part_kind string
  | MalformedName string part_kind string
  | UnknownVariable string part_kind string "string list"
  | NoValue string part_kind string
  | OrderRepeats string
  | OrderLacksRest
  | ReservedTool
  | UnregisteredTools "string list" "string list"
  | CompleteSections "string list"

definition schema_json :: "tool_schema \<Rightarrow> json" where
  "schema_json t =
     JObj [(''name'', JStr (ts_name t)), (''description'', JStr (ts_description t)), (''parameters'', ts_parameters t)]"

subsection \<open>Interpolation\<close>

definition is_brace :: "char \<Rightarrow> bool" where
  "is_brace c \<longleftrightarrow> c = CHR ''{'' \<or> c = CHR ''}''"

text \<open>\<open>indexOf('{{')\<close>: what precedes the first pair, and what follows it.\<close>

fun find_open :: "string \<Rightarrow> (string \<times> string) option" where
  "find_open (a # b # s) =
     (if a = CHR ''{'' \<and> b = CHR ''{'' then Some ([], s)
      else (case find_open (b # s) of None \<Rightarrow> None | Some (pre, r) \<Rightarrow> Some (a # pre, r)))"
| "find_open s = None"

fun has_close :: "string \<Rightarrow> bool" where
  "has_close (a # b # s) \<longleftrightarrow> a = CHR ''}'' \<and> b = CHR ''}'' \<or> has_close (b # s)"
| "has_close s \<longleftrightarrow> False"

text \<open>\<open>/^\{\{([^{}]*)\}\}/\<close> after the opening pair: the name and the rest.\<close>

definition group_at :: "string \<Rightarrow> (string \<times> string) option" where
  "group_at s =
     (case dropWhile (\<lambda>c. \<not> is_brace c) s of
        a # b # r \<Rightarrow>
          if a = CHR ''}'' \<and> b = CHR ''}'' then Some (takeWhile (\<lambda>c. \<not> is_brace c) s, r) else None
      | _ \<Rightarrow> None)"

definition is_lower :: "char \<Rightarrow> bool" where
  "is_lower c \<longleftrightarrow> CHR ''a'' \<le> c \<and> c \<le> CHR ''z''"

definition is_name_char :: "char \<Rightarrow> bool" where
  "is_name_char c \<longleftrightarrow> is_lower c \<or> CHR ''0'' \<le> c \<and> c \<le> CHR ''9'' \<or> c = CHR ''_''"

fun variable_name :: "string \<Rightarrow> bool" where
  "variable_name [] \<longleftrightarrow> False"
| "variable_name (c # cs) \<longleftrightarrow> is_lower c \<and> list_all is_name_char cs"

lemma find_open_length: "find_open s = Some (pre, r) \<Longrightarrow> length s = length pre + 2 + length r"
  by (induction s arbitrary: pre rule: find_open.induct) (auto split: if_splits option.splits)

lemma group_at_length: "group_at s = Some (n, r) \<Longrightarrow> length r < length s"
  using length_dropWhile_le [of "\<lambda>c. \<not> is_brace c" s]
  by (auto simp: group_at_def split: list.splits if_splits)

function interpolate ::
  "part_kind \<Rightarrow> string \<Rightarrow> (string \<times> string option) list \<Rightarrow> string \<Rightarrow> prompt_error + string"
where
  "interpolate kind part vars s =
     (case find_open s of
        None \<Rightarrow> Inr s
      | Some (pre, r) \<Rightarrow>
          (case group_at r of
             None \<Rightarrow>
               if has_close r then Inl (MalformedAt (take 16 (''{{'' @ r)) kind part)
               else map_sum id (\<lambda>t. pre @ ''{{'' @ t) (interpolate kind part vars r)
           | Some (n, r') \<Rightarrow>
               if \<not> variable_name n then Inl (MalformedName n kind part)
               else
                 (case map_of vars n of
                    None \<Rightarrow> Inl (UnknownVariable n kind part (map fst vars))
                  | Some None \<Rightarrow> Inl (NoValue n kind part)
                  | Some (Some v) \<Rightarrow> map_sum id (\<lambda>t. pre @ v @ t) (interpolate kind part vars r'))))"
  by pat_completeness auto
termination
  by (relation "measure (\<lambda>(kind, part, vars, s). length s)")
    (auto dest!: find_open_length group_at_length)

declare interpolate.simps [simp del]

subsection \<open>Rendering\<close>

fun render_parts ::
  "part_kind \<Rightarrow> (string \<times> string option) list \<Rightarrow> assembled_part list \<Rightarrow> prompt_error + assembled_part list"
where
  "render_parts kind vars [] = Inr []"
| "render_parts kind vars (p # ps) =
     and_then (interpolate kind (ap_name p) vars (ap_text p))
       (\<lambda>t. map_sum id ((#) (p\<lparr>ap_text := t\<rparr>)) (render_parts kind vars ps))"

fun join_texts :: "string list \<Rightarrow> string" where
  "join_texts [] = []"
| "join_texts [t] = t"
| "join_texts (t # ts) = t @ [CHR 0x0A, CHR 0x0A] @ join_texts ts"

definition nonempty_parts :: "assembled_part list \<Rightarrow> assembled_part list" where
  "nonempty_parts ps = filter (\<lambda>p. 0 < length (ap_text p)) ps"

definition render_prompt :: "prompt_assembly \<Rightarrow> prompt_error + string" where
  "render_prompt a =
     map_sum id (\<lambda>ps. join_texts (map ap_text (nonempty_parts ps)))
       (render_parts SectionPart (pa_variables a) (pa_sections a))"

definition render_context_sections :: "prompt_assembly \<Rightarrow> prompt_error + assembled_part list" where
  "render_context_sections a =
     map_sum id nonempty_parts (render_parts ContextPart (pa_variables a) (pa_contexts a))"

definition context_lead :: string where
  "context_lead = ''Current runtime context. This snapshot supersedes earlier runtime-context snapshots.''
     @ [CHR 0x0A, CHR 0x0A]"

definition join_context_sections :: "assembled_part list \<Rightarrow> string" where
  "join_context_sections ps =
     (let body = join_texts (map ap_text ps) in
      if length body = 0 then [] else context_lead @ body)"

definition render_context_snapshot :: "prompt_assembly \<Rightarrow> prompt_error + string" where
  "render_context_snapshot a = map_sum id join_context_sections (render_context_sections a)"

subsection \<open>The order of tools\<close>

definition tool_order_rest :: string where
  "tool_order_rest = ''<unlisted-tools>''"

text \<open>The loop of \<open>validateToolOrder\<close>, then its last check.\<close>

fun repeated_name :: "string set \<Rightarrow> string list \<Rightarrow> string option" where
  "repeated_name seen [] = None"
| "repeated_name seen (n # ns) = (if n \<in> seen then Some n else repeated_name (insert n seen) ns)"

definition validate_tool_order :: "string list option \<Rightarrow> prompt_error + string list option" where
  "validate_tool_order ord =
     (case ord of
        None \<Rightarrow> Inr None
      | Some ns \<Rightarrow>
          (case repeated_name {} ns of
             Some n \<Rightarrow> Inl (OrderRepeats n)
           | None \<Rightarrow> if tool_order_rest \<notin> set ns then Inl OrderLacksRest else Inr (Some ns)))"

definition order_tools ::
  "tool_schema list \<Rightarrow> string list option \<Rightarrow> string list \<Rightarrow> prompt_error + tool_schema list"
where
  "order_tools tools ord known =
     (if list_ex (\<lambda>t. ts_name t = tool_order_rest) tools then Inl ReservedTool
      else
        (case ord of
           None \<Rightarrow> Inr (sort_key ts_name tools)
         | Some ns \<Rightarrow>
             (let unknown = filter (\<lambda>n. n \<noteq> tool_order_rest \<and> n \<notin> set known) ns in
              if 0 < length unknown then Inl (UnregisteredTools unknown (sort (remdups known)))
              else
                (let rest = sort_key ts_name (filter (\<lambda>t. ts_name t \<notin> set ns) tools) in
                 Inr (concat (map (\<lambda>n. if n = tool_order_rest then rest
                                       else filter (\<lambda>t. ts_name t = n) tools) ns))))))"

subsection \<open>The check of an assembly\<close>

datatype assembly_fault =
    EmptyPartName part_kind
  | RepeatedPartName part_kind string
  | EmptyToolName
  | BadVariableName string

fun check_parts :: "part_kind \<Rightarrow> string set \<Rightarrow> assembled_part list \<Rightarrow> assembly_fault option" where
  "check_parts kind seen [] = None"
| "check_parts kind seen (p # ps) =
     (if length (ap_name p) = 0 then Some (EmptyPartName kind)
      else if ap_name p \<in> seen then Some (RepeatedPartName kind (ap_name p))
      else check_parts kind (insert (ap_name p) seen) ps)"

definition validate_assembly :: "prompt_assembly \<Rightarrow> assembly_fault option" where
  "validate_assembly a =
     (case check_parts SectionPart {} (pa_sections a) of
        Some x \<Rightarrow> Some x
      | None \<Rightarrow>
          (case check_parts ContextPart {} (pa_contexts a) of
             Some x \<Rightarrow> Some x
           | None \<Rightarrow>
               if list_ex (\<lambda>t. length (ts_name t) = 0) (pa_tools a) then Some EmptyToolName
               else map_option (\<lambda>v. BadVariableName (fst v))
                      (find (\<lambda>v. \<not> variable_name (fst v)) (pa_variables a))))"

subsection \<open>Templates\<close>

text \<open>
  The reference, stated without the scanner: a template is a run of segments, each a literal
  and the name of a variable in double braces, and a last literal. A literal before a
  reference is any text in which no pair of opening braces begins; the last one may hold
  opening pairs that nothing closes, which are prose. Single braces are always prose.
\<close>

text \<open>A text holds another.\<close>

fun holds_text :: "string \<Rightarrow> string \<Rightarrow> bool" where
  "holds_text t [] \<longleftrightarrow> t = []"
| "holds_text t (c # s) \<longleftrightarrow> take (length t) (c # s) = t \<or> holds_text t s"

record segment =
  sg_literal :: string
  sg_name :: string

definition spell_segment :: "segment \<Rightarrow> string" where
  "spell_segment g = sg_literal g @ ''{{'' @ sg_name g @ ''}}''"

definition segment_value :: "(string \<times> string option) list \<Rightarrow> segment \<Rightarrow> string" where
  "segment_value vars g =
     sg_literal g @ (case map_of vars (sg_name g) of Some (Some v) \<Rightarrow> v | _ \<Rightarrow> [])"

definition segment_ok :: "(string \<times> string option) list \<Rightarrow> segment \<Rightarrow> bool" where
  "segment_ok vars g \<longleftrightarrow>
     \<not> holds_text ''{{'' (sg_literal g @ ''{'') \<and> variable_name (sg_name g) \<and>
     (case map_of vars (sg_name g) of Some (Some v) \<Rightarrow> True | _ \<Rightarrow> False)"

fun references_nothing :: "string \<Rightarrow> bool" where
  "references_nothing (a # b # s) \<longleftrightarrow>
     \<not> (a = CHR ''{'' \<and> b = CHR ''{'' \<and> holds_text ''}}'' s) \<and> references_nothing (b # s)"
| "references_nothing s \<longleftrightarrow> True"

lemma has_close_iff: "has_close s \<longleftrightarrow> holds_text ''}}'' s"
  by (induction s rule: has_close.induct) auto

lemma find_open_None_iff: "find_open s = None \<longleftrightarrow> \<not> holds_text ''{{'' s"
  by (induction s rule: find_open.induct) (auto split: option.splits)

lemma find_open_SomeD: "find_open s = Some (p, r) \<Longrightarrow> s = p @ ''{{'' @ r \<and> \<not> holds_text ''{{'' (p @ ''{'')"
proof (induction s arbitrary: p rule: find_open.induct)
  case (1 a b s)
  show ?case
  proof (cases "a = CHR ''{'' \<and> b = CHR ''{''")
    case True
    with 1(2) show ?thesis by auto
  next
    case False
    with 1(2) obtain q where q: "find_open (b # s) = Some (q, r)" "p = a # q"
      by (auto split: option.splits)
    from 1(1) [OF False q(1)] have ih: "b # s = q @ ''{{'' @ r" "\<not> holds_text ''{{'' (q @ ''{'')" by blast+
    show ?thesis using ih False q(2) by (cases q) auto
  qed
qed simp_all

lemma find_open_first: "\<not> holds_text ''{{'' (p @ ''{'') \<Longrightarrow> find_open (p @ CHR ''{'' # CHR ''{'' # r) = Some (p, r)"
proof (induction p)
  case (Cons a p)
  then have "find_open (p @ CHR ''{'' # CHR ''{'' # r) = Some (p, r)" by auto
  with Cons.prems show ?case by (cases p) auto
qed simp

lemma holds_text_later: "holds_text t r \<Longrightarrow> holds_text t (p @ r)"
  by (induction p) auto

lemma references_nothing_iff: "references_nothing s \<longleftrightarrow>
    (case find_open s of None \<Rightarrow> True | Some (p, r) \<Rightarrow> \<not> holds_text ''}}'' r)"
proof (induction s rule: references_nothing.induct)
  case (1 a b s)
  have "\<not> holds_text ''}}'' r"
    if "find_open (b # s) = Some (p, r)" "b = CHR ''{''" "\<not> holds_text ''}}'' s" for p r
    using find_open_SomeD [OF that(1)] that(2,3) holds_text_later [of "''}}''" r "tl p @ ''{{''"] holds_text_later [of "''}}''" r "''{''"]
    by (cases p) auto
  with 1 show ?case
    by (cases "a = CHR ''{'' \<and> b = CHR ''{''") (auto split: option.splits)
qed simp_all

lemma name_no_brace: "variable_name n \<Longrightarrow> c \<in> set n \<Longrightarrow> \<not> is_brace c"
proof (cases n)
  case (Cons a as)
  assume n: "variable_name n" and c: "c \<in> set n"
  have "is_name_char c"
    using n c Cons by (auto simp: is_name_char_def list_all_iff)
  then show ?thesis by (auto simp: is_name_char_def is_lower_def is_brace_def less_eq_char_def)
qed simp

lemma group_at_name: "variable_name n \<Longrightarrow> group_at (n @ ''}}'' @ s) = Some (n, s)"
proof -
  assume "variable_name n"
  then have "\<forall>c \<in> set n. \<not> is_brace c" using name_no_brace by blast
  then have "dropWhile (\<lambda>c. \<not> is_brace c) (n @ ''}}'' @ s) = ''}}'' @ s"
      "takeWhile (\<lambda>c. \<not> is_brace c) (n @ ''}}'' @ s) = n"
    by (simp_all add: dropWhile_append2 takeWhile_append2 is_brace_def)
  then show ?thesis by (simp add: group_at_def)
qed

lemma group_at_SomeD: "group_at r = Some (n, r') \<Longrightarrow> r = n @ ''}}'' @ r'"
proof -
  assume g: "group_at r = Some (n, r')"
  have "r = takeWhile (\<lambda>c. \<not> is_brace c) r @ dropWhile (\<lambda>c. \<not> is_brace c) r" by simp
  with g show ?thesis by (auto simp: group_at_def simp del: takeWhile_dropWhile_id split: list.splits if_splits)
qed

lemma group_at_nothing: "\<not> holds_text ''}}'' r \<Longrightarrow> group_at r = None"
proof (cases "group_at r")
  case (Some x)
  then obtain n r' where "group_at r = Some (n, r')" by (cases x) simp
  from group_at_SomeD [OF this] have "holds_text ''}}'' r" using holds_text_later [of "''}}''" "''}}'' @ r'" n] by simp
  then show "\<not> holds_text ''}}'' r \<Longrightarrow> ?thesis" by simp
qed

lemma interpolate_unclosed: "\<not> holds_text ''}}'' s \<Longrightarrow> interpolate kind part vars s = Inr s"
proof (induction kind part vars s rule: interpolate.induct)
  case (1 kind part vars s)
  show ?case
  proof (cases "find_open s")
    case None
    then show ?thesis by (simp add: interpolate.simps)
  next
    case (Some x)
    then obtain p r where o: "find_open s = Some (p, r)" by (cases x) simp
    from find_open_SomeD [OF this] have s: "s = p @ ''{{'' @ r" by simp
    with "1.prems" have nc: "\<not> holds_text ''}}'' r" using holds_text_later [of "''}}''" r "p @ ''{{''"] by auto
    then have "group_at r = None" "\<not> has_close r" by (simp_all add: group_at_nothing has_close_iff)
    with 1 o nc s show ?thesis by (subst interpolate.simps) simp
  qed
qed


lemma interpolate_nothing:
  assumes "references_nothing s"
  shows "interpolate kind part vars s = Inr s"
proof (cases "find_open s")
  case None
  then show ?thesis by (simp add: interpolate.simps)
next
  case (Some x)
  then obtain p r where o: "find_open s = Some (p, r)" by (cases x) simp
  with assms have "\<not> holds_text ''}}'' r" by (simp add: references_nothing_iff)
  with o find_open_SomeD [OF o] show ?thesis
    by (subst interpolate.simps) (simp add: has_close_iff group_at_nothing interpolate_unclosed)
qed

lemma interpolate_segment:
  assumes "segment_ok vars g"
  shows "interpolate kind part vars (spell_segment g @ s) =
    map_sum id ((@) (segment_value vars g)) (interpolate kind part vars s)"
proof -
  from assms obtain v where g: "\<not> holds_text ''{{'' (sg_literal g @ ''{'')" "variable_name (sg_name g)"
    "map_of vars (sg_name g) = Some (Some v)"
    by (auto simp: segment_ok_def split: option.splits)
  have "find_open (spell_segment g @ s) = Some (sg_literal g, sg_name g @ ''}}'' @ s)"
    using find_open_first [OF g(1)] by (simp add: spell_segment_def)
  moreover have "(@) (segment_value vars g) = (\<lambda>t. sg_literal g @ v @ t)"
    by (simp add: segment_value_def g fun_eq_iff)
  ultimately show ?thesis
    using g group_at_name [OF g(2), of s] by (subst interpolate.simps) simp
qed

lemma interpolate_segments:
  "list_all (segment_ok vars) gs \<Longrightarrow> references_nothing t \<Longrightarrow>
   interpolate kind part vars (concat (map spell_segment gs) @ t) = Inr (concat (map (segment_value vars) gs) @ t)"
  by (induction gs) (simp_all add: interpolate_nothing interpolate_segment)

lemma interpolate_InrD:
  "interpolate kind part vars s = Inr v \<Longrightarrow>
   \<exists>gs t. s = concat (map spell_segment gs) @ t \<and> list_all (segment_ok vars) gs \<and> references_nothing t \<and>
     v = concat (map (segment_value vars) gs) @ t"
proof (induction kind part vars s arbitrary: v rule: interpolate.induct)
  case (1 kind part vars s)
  show ?case
  proof (cases "references_nothing s")
    case True
    with "1.prems" show ?thesis by (intro exI [of _ "[]"] exI [of _ s]) (simp add: interpolate_nothing)
  next
    case False
    then obtain p r where o: "find_open s = Some (p, r)" and "holds_text ''}}'' r"
      by (auto simp: references_nothing_iff split: option.splits)
    with "1.prems" obtain n r' w v' where r: "group_at r = Some (n, r')" "variable_name n"
      "map_of vars n = Some (Some w)" "interpolate kind part vars r' = Inr v'" "v = p @ w @ v'"
      by (subst (asm) interpolate.simps)
        (auto simp: has_close_iff map_sum_Inr_iff split: option.splits if_splits prod.splits)
    from "1.IH"(2) [OF o refl r(1) refl _ r(3) refl r(4)] r(2) obtain gs t where
      gs: "r' = concat (map spell_segment gs) @ t" "list_all (segment_ok vars) gs" "references_nothing t"
        "v' = concat (map (segment_value vars) gs) @ t"
      by blast
    let ?g = "\<lparr>sg_literal = p, sg_name = n\<rparr>"
    have "s = concat (map spell_segment (?g # gs)) @ t"
      using find_open_SomeD [OF o] group_at_SomeD [OF r(1)] gs(1) by (simp add: spell_segment_def)
    moreover have "list_all (segment_ok vars) (?g # gs)"
      using find_open_SomeD [OF o] r gs(2) by (simp add: segment_ok_def)
    moreover have "v = concat (map (segment_value vars) (?g # gs)) @ t"
      using r gs(4) by (simp add: segment_value_def)
    ultimately show ?thesis using gs(3) by blast
  qed
qed

text \<open>
  Claim C37. A text renders to a value exactly when it is a template of literals and
  references, every reference a registered variable with a value, and the value is the
  template with each reference replaced once: values are not scanned again, and literals are
  kept, with their single braces, and in the last one with the opening pairs that nothing
  closes.
\<close>

theorem templates_render_once:
  "interpolate kind part vars s = Inr v \<longleftrightarrow>
     (\<exists>gs t. s = concat (map spell_segment gs) @ t \<and> list_all (segment_ok vars) gs \<and> references_nothing t \<and>
        v = concat (map (segment_value vars) gs) @ t)"
  using interpolate_InrD interpolate_segments by blast

definition sample_segments :: "segment list" where
  "sample_segments = [\<lparr>sg_literal = ''{ cwd: '', sg_name = ''cwd''\<rparr>]"

lemma templates_render_once_witness:
  "interpolate SectionPart ''s'' [(''cwd'', Some ''{{x}}'')] ''{ cwd: {{cwd}} } {{ x'' = Inr ''{ cwd: {{x}} } {{ x''"
proof (rule templates_render_once [THEN iffD2], intro exI conjI)
  show "list_all (segment_ok [(''cwd'', Some ''{{x}}'')]) sample_segments" by code_simp
  show "references_nothing '' } {{ x''" by code_simp
qed code_simp+

subsection \<open>Tools in canonical order\<close>

lemma repeated_name_None_iff: "repeated_name seen ns = None \<longleftrightarrow> distinct ns \<and> set ns \<inter> seen = {}"
  by (induction ns arbitrary: seen) auto

lemma validated_order: "validate_tool_order ord = Inr (Some ns) \<Longrightarrow> distinct ns \<and> tool_order_rest \<in> set ns"
  by (auto simp: validate_tool_order_def repeated_name_None_iff split: option.splits if_splits)

lemma one_order:
  fixes f :: "'a \<Rightarrow> 'b :: linorder"
  assumes "distinct (map f xs)" and "mset ys = mset xs" and "sorted (map f xs)" and "sorted (map f ys)"
  shows "ys = xs"
proof -
  have set: "set ys = set xs" using assms(2) by (rule mset_eq_setD)
  moreover have "distinct (map f ys)"
    using assms(1,2) by (metis mset_eq_imp_distinct_iff mset_map)
  moreover have "inj_on f (set ys \<union> set xs)" using assms(1) set by (simp add: distinct_map)
  ultimately show ?thesis using assms by (intro map_sorted_distinct_set_unique [of f]) auto
qed

lemma distinct_sort_key: "distinct (map f (sort_key f xs)) \<longleftrightarrow> distinct (map f xs)"
  by (rule mset_eq_imp_distinct_iff) simp

lemma same_name_sorted: "sorted (map ts_name (filter (\<lambda>t. ts_name t = n) tools))"
  by (induction tools) auto

lemma mset_filter_names:
  "distinct ns \<Longrightarrow> mset (concat (map (\<lambda>n. filter (\<lambda>t. f t = n) xs) ns)) = filter_mset (\<lambda>t. f t \<in> set ns) (mset xs)"
proof (induction ns)
  case (Cons n ns)
  have "filter_mset (\<lambda>t. f t = n \<or> f t \<in> set ns) (mset xs) =
      filter_mset (\<lambda>t. f t = n) (mset xs) + filter_mset (\<lambda>t. f t \<in> set ns) (mset xs)"
    using Cons.prems by (auto simp: multiset_eq_iff)
  with Cons show ?case by simp
qed simp

lemma order_mset:
  assumes "distinct ns" and "tool_order_rest \<in> set ns" and "\<forall>t \<in> set tools. ts_name t \<noteq> tool_order_rest"
    and "mset rest = mset (filter (\<lambda>t. ts_name t \<notin> set ns) tools)"
  shows "mset (concat (map (\<lambda>n. if n = tool_order_rest then rest else filter (\<lambda>t. ts_name t = n) tools) ns)) = mset tools"
proof -
  let ?f = "\<lambda>n. if n = tool_order_rest then rest else filter (\<lambda>t. ts_name t = n) tools"
  obtain as bs where ns: "ns = as @ tool_order_rest # bs" using assms(2) by (meson split_list)
  with assms(1) have ab: "tool_order_rest \<notin> set as" "tool_order_rest \<notin> set bs" "distinct (as @ bs)" by auto
  have "concat (map ?f cs) = concat (map (\<lambda>n. filter (\<lambda>t. ts_name t = n) tools) cs)" if "tool_order_rest \<notin> set cs" for cs
    using that by (induction cs) auto
  then have "mset (concat (map ?f ns)) =
      mset (concat (map (\<lambda>n. filter (\<lambda>t. ts_name t = n) tools) (as @ bs))) + mset rest"
    using ab ns by simp
  also have "\<dots> = filter_mset (\<lambda>t. ts_name t \<in> set (as @ bs)) (mset tools) + mset rest"
    using mset_filter_names [OF ab(3), of ts_name tools] by simp
  also have "filter_mset (\<lambda>t. ts_name t \<in> set (as @ bs)) (mset tools) = filter_mset (\<lambda>t. ts_name t \<in> set ns) (mset tools)"
    using assms(3) ns by (intro filter_mset_cong) auto
  finally show ?thesis using assms(4) by (simp add: multiset_partition [symmetric])
qed

lemma order_tools_mset:
  assumes "validate_tool_order ord = Inr ord'" and "order_tools tools ord' known = Inr out"
  shows "mset out = mset tools"
proof (cases ord')
  case None
  with assms(2) show ?thesis by (auto simp: order_tools_def)
next
  case (Some ns)
  with assms(1) have "distinct ns" "tool_order_rest \<in> set ns"
    using validated_order [of ord ns] by simp_all
  with assms(2) Some order_mset [of ns tools "sort_key ts_name (filter (\<lambda>t. ts_name t \<notin> set ns) tools)"]
  show ?thesis by (auto simp: order_tools_def Let_def list_ex_iff split: if_splits)
qed

lemma order_tools_same:
  assumes "distinct (map ts_name tools)" and "mset tools' = mset tools"
  shows "order_tools tools' ord known = order_tools tools ord known"
proof -
  have sets: "set tools' = set tools" using assms(2) by (rule mset_eq_setD)
  have part: "filter P tools' = filter P tools" if "\<exists>n. P = (\<lambda>t. ts_name t = n)" for P
    using assms that same_name_sorted
    by (intro one_order [of ts_name]) (auto simp: distinct_map_filter)
  have sort: "sort_key ts_name (filter P tools') = sort_key ts_name (filter P tools)" for P
    using assms by (intro one_order [of ts_name]) (auto simp: distinct_sort_key distinct_map_filter)
  from sort [of "\<lambda>t. True"] have "sort_key ts_name tools' = sort_key ts_name tools" by simp
  moreover have "list_ex (\<lambda>t. ts_name t = tool_order_rest) tools' = list_ex (\<lambda>t. ts_name t = tool_order_rest) tools"
    using sets by (simp add: list_ex_iff)
  moreover have "filter (\<lambda>t. ts_name t = n) tools' = filter (\<lambda>t. ts_name t = n) tools" for n
    by (rule part) blast
  ultimately show ?thesis by (simp add: order_tools_def sort Let_def cong: if_cong option.case_cong)
qed

text \<open>
  Claim C38. Ordering neither loses nor repeats a tool, and the order in which providers
  contributed tools of different names does not show in the result.
\<close>

theorem tools_in_canonical_order:
  assumes "validate_tool_order ord = Inr ord'" and "order_tools tools ord' known = Inr out"
    and "distinct (map ts_name tools)" and "mset tools' = mset tools"
  shows "mset out = mset tools \<and> order_tools tools' ord' known = Inr out"
  using order_tools_mset [OF assms(1,2)] order_tools_same [OF assms(3,4)] assms(2) by simp

definition sample_schemas :: "tool_schema list" where
  "sample_schemas = map (\<lambda>n. \<lparr>ts_name = n, ts_description = [], ts_parameters = JObj []\<rparr>) [''write'', ''read'', ''bash'']"

lemma tools_in_canonical_order_witness:
  "mset (map (\<lambda>n. \<lparr>ts_name = n, ts_description = [], ts_parameters = JObj []\<rparr>) [''read'', ''bash'', ''write'']) =
     mset sample_schemas \<and>
   order_tools (rev sample_schemas) (Some [''read'', tool_order_rest]) [''read'', ''write'', ''bash''] =
     Inr (map (\<lambda>n. \<lparr>ts_name = n, ts_description = [], ts_parameters = JObj []\<rparr>) [''read'', ''bash'', ''write''])"
proof (rule tools_in_canonical_order)
  show "validate_tool_order (Some [''read'', tool_order_rest]) = Inr (Some [''read'', tool_order_rest])" by code_simp
  show "order_tools sample_schemas (Some [''read'', tool_order_rest]) [''read'', ''write'', ''bash''] =
      Inr (map (\<lambda>n. \<lparr>ts_name = n, ts_description = [], ts_parameters = JObj []\<rparr>) [''read'', ''bash'', ''write''])"
    by code_simp
  show "distinct (map ts_name sample_schemas)" by code_simp
  show "mset (rev sample_schemas) = mset sample_schemas" by simp
qed

end
