(* ===== verification/Agent_Machine.thy ===== *)
theory Agent_Machine
  imports Agent_Inbox Block_Assembler Prompt_Text
begin

section \<open>The agent between its turns\<close>

text \<open>
  The part of \<^verbatim>\<open>packages/core/agent-loop/src/agent.ts\<close> that callers reach: the phase of an
  agent, the delivery of input, cancellation, maintenance tasks and the wake of the driver.
  The driver itself and what it awaits follow in \<^verbatim>\<open>Tool_Calls\<close>, \<^verbatim>\<open>Agent_Request\<close> and
  \<^verbatim>\<open>Agent_Loop\<close>. An operation that awaits something that never comes, or has not come yet, is
  \<open>Suspended\<close>: nothing of the code runs after it, no \<open>finally\<close> either, and the state it left is
  the state a crash would find. A component \<open>'w\<close> of the state stands for the world of the
  plugins.
\<close>

subsection \<open>State\<close>

datatype phase =
    Idle int
  | Maintenance "cancel_cause option" int bool
  | Running "cancel_cause option" int int bool

datatype agent_error =
    NotAppended append_error
  | InboxFailed inbox_failure
  | AbortedBy cancel_cause
  | LlmFailed json
  | NotDerived derive_error
  | NotRendered prompt_error
  | NotAssembled assembly_error
  | Thrown string
  | Busy

datatype stop = Suspended | Raised agent_error

datatype agent_notice = StatusChanged bool | ErrorReported int int agent_error

record 'w agent =
  ag_host :: inbox_host
  ag_phase :: phase
  ag_header_logged :: bool
  ag_notices :: "agent_notice list"
  ag_world :: 'w

type_synonym ('w, 'a) agent_op = "('w agent, stop, 'a) op"

abbreviation agent_session :: "'w agent \<Rightarrow> session" where
  "agent_session s \<equiv> ih_session (ag_host s)"

abbreviation agent_log :: "'w agent \<Rightarrow> session_event list" where
  "agent_log s \<equiv> ss_log (agent_session s)"

abbreviation agent_inbox :: "'w agent \<Rightarrow> inbox" where
  "agent_inbox s \<equiv> ih_inbox (ag_host s)"

definition put_session :: "session \<Rightarrow> 'w agent \<Rightarrow> 'w agent" where
  "put_session ss s = s\<lparr>ag_host := (ag_host s)\<lparr>ih_session := ss\<rparr>\<rparr>"

definition put_phase :: "phase \<Rightarrow> 'w agent \<Rightarrow> 'w agent" where
  "put_phase p s = s\<lparr>ag_phase := p\<rparr>"

lemma put_sel [simp]:
  "agent_session (put_session ss s) = ss" "agent_inbox (put_session ss s) = agent_inbox s"
  "ag_phase (put_session ss s) = ag_phase s" "ag_header_logged (put_session ss s) = ag_header_logged s"
  "ag_host (put_phase p s) = ag_host s" "ag_phase (put_phase p s) = p"
  "ag_header_logged (put_phase p s) = ag_header_logged s"
  by (simp_all add: put_session_def put_phase_def)

subsection \<open>Control flow\<close>

text \<open>\<open>try \<dots> finally\<close> and \<open>try \<dots> catch\<close>, which a suspended operation never leaves.\<close>

definition op_finally :: "('w, 'a) agent_op \<Rightarrow> ('w, unit) agent_op \<Rightarrow> ('w, 'a) agent_op" where
  "op_finally m f s =
     (case m s of
        (Inl Suspended, s') \<Rightarrow> (Inl Suspended, s')
      | (r, s') \<Rightarrow> (case f s' of (Inl x, s'') \<Rightarrow> (Inl x, s'') | (Inr _, s'') \<Rightarrow> (r, s'')))"

definition op_catch :: "('w, 'a) agent_op \<Rightarrow> (agent_error \<Rightarrow> ('w, 'a) agent_op) \<Rightarrow> ('w, 'a) agent_op" where
  "op_catch m h s =
     (case m s of
        (Inl (Raised x), s') \<Rightarrow> h x s'
      | r \<Rightarrow> r)"

definition op_raise :: "agent_error \<Rightarrow> ('w, 'a) agent_op" where
  "op_raise x = op_lift (Inl (Raised x))"

definition op_gets :: "('w agent \<Rightarrow> 'a) \<Rightarrow> ('w, 'a) agent_op" where
  "op_gets f s = (Inr (f s), s)"

definition op_modify :: "('w agent \<Rightarrow> 'w agent) \<Rightarrow> ('w, unit) agent_op" where
  "op_modify f s = (Inr (), f s)"

fun for_each :: "('a \<Rightarrow> ('w, unit) agent_op) \<Rightarrow> 'a list \<Rightarrow> ('w, unit) agent_op" where
  "for_each f [] = op_lift (Inr ())"
| "for_each f (x # xs) = op_bind (f x) (\<lambda>_. for_each f xs)"

subsection \<open>Session and inbox\<close>

text \<open>Appends and inbox operations under the environment the state of the world gives.\<close>

definition append_payload ::
  "('w agent \<Rightarrow> append_env) \<Rightarrow> event_data option \<Rightarrow> json option \<times> json option \<Rightarrow> ('w, session_event) agent_op"
where
  "append_payload env d meta s =
     (case append_event (payload_call (env s) d meta) (agent_session s) of
        (r, ss) \<Rightarrow> (map_sum (\<lambda>x. Raised (NotAppended x)) id r, put_session ss s))"

definition agent_append ::
  "('w agent \<Rightarrow> append_env) \<Rightarrow> event_data \<Rightarrow> json option \<times> json option \<Rightarrow> ('w, session_event) agent_op"
where
  "agent_append env d meta = append_payload env (Some d) meta"

definition inbox_env_of :: "append_env \<Rightarrow> inbox_env" where
  "inbox_env_of ae = \<lparr>ie_time = ae_time ae, ie_appending = ae_appending ae, ie_dispatch_throws = ae_throws ae\<rparr>"

definition in_inbox :: "('w agent \<Rightarrow> append_env) \<Rightarrow> (inbox_env \<Rightarrow> 'a inbox_op) \<Rightarrow> ('w, 'a) agent_op" where
  "in_inbox env m s =
     (case m (inbox_env_of (env s)) (ag_host s) of
        (r, h) \<Rightarrow> (map_sum (\<lambda>x. Raised (InboxFailed x)) id r, s\<lparr>ag_host := h\<rparr>))"

subsection \<open>Phases\<close>

fun phase_abort :: "phase \<Rightarrow> cancel_cause option" where
  "phase_abort (Idle t) = None"
| "phase_abort (Maintenance a t w) = a"
| "phase_abort (Running a t st w) = a"

fun is_idle :: "phase \<Rightarrow> bool" where
  "is_idle (Idle t) \<longleftrightarrow> True"
| "is_idle _ \<longleftrightarrow> False"

fun is_running :: "phase \<Rightarrow> bool" where
  "is_running (Running a t st w) \<longleftrightarrow> True"
| "is_running _ \<longleftrightarrow> False"

text \<open>The turn and step an error is reported at.\<close>

fun phase_place :: "phase \<Rightarrow> int \<times> int" where
  "phase_place (Idle t) = (t, 0)"
| "phase_place (Maintenance a t w) = (t, 0)"
| "phase_place (Running a t st w) = (t, st)"

fun with_wake :: "bool \<Rightarrow> phase \<Rightarrow> phase" where
  "with_wake b (Idle t) = Idle t"
| "with_wake b (Maintenance a t w) = Maintenance a t b"
| "with_wake b (Running a t st w) = Running a t st b"

text \<open>\<open>AbortController.abort\<close>: the first cause stays.\<close>

fun aborted_phase :: "cancel_cause \<Rightarrow> phase \<Rightarrow> phase" where
  "aborted_phase c (Idle t) = Idle t"
| "aborted_phase c (Maintenance a t w) = Maintenance (Some (case a of None \<Rightarrow> c | Some c' \<Rightarrow> c')) t w"
| "aborted_phase c (Running a t st w) = Running (Some (case a of None \<Rightarrow> c | Some c' \<Rightarrow> c')) t st w"

definition set_phase :: "phase \<Rightarrow> 'w agent \<Rightarrow> 'w agent" where
  "set_phase p s =
     (if is_running p = is_running (ag_phase s) then put_phase p s
      else (put_phase p s)\<lparr>ag_notices := ag_notices s @ [StatusChanged (is_running p)]\<rparr>)"

text \<open>Returns whether a driver was started.\<close>

definition wake_driver :: "bool \<Rightarrow> 'w agent \<Rightarrow> bool \<times> 'w agent" where
  "wake_driver after_abort s =
     (case ag_phase s of
        Idle t \<Rightarrow> (True, set_phase (Running None t 0 False) s)
      | Maintenance a t w \<Rightarrow>
          (False, if a = Some CauseDisposed then s else put_phase (Maintenance a t True) s)
      | Running a t st w \<Rightarrow>
          (False, if a = Some CauseDisposed \<or> \<not> after_abort then s else put_phase (Running a t st True) s))"

definition send :: "('w agent \<Rightarrow> append_env) \<Rightarrow> user_message \<Rightarrow> inbox_target \<Rightarrow> bool \<Rightarrow> ('w, bool) agent_op" where
  "send env m target wakeup s =
     (let after_abort = (wakeup \<and> \<not> is_idle (ag_phase s) \<and> phase_abort (ag_phase s) \<noteq> None) in
      op_bind (in_inbox env (\<lambda>ie. splice_inbox ie (if after_abort then NextTurn else target) JsPosInf (JsFinite 0) [m]))
        (\<lambda>_ s'. if wakeup then (case wake_driver after_abort s' of (b, s'') \<Rightarrow> (Inr b, s'')) else (Inr False, s')) s)"

definition followup :: "('w agent \<Rightarrow> append_env) \<Rightarrow> user_message \<Rightarrow> ('w, bool) agent_op" where
  "followup env m = send env m NextTurn True"

definition steer :: "('w agent \<Rightarrow> append_env) \<Rightarrow> user_message \<Rightarrow> ('w, bool) agent_op" where
  "steer env m = send env m NextStep True"

definition inject :: "('w agent \<Rightarrow> append_env) \<Rightarrow> user_message \<Rightarrow> ('w, bool) agent_op" where
  "inject env m = send env m NextStep False"

definition cancel :: "('w agent \<Rightarrow> append_env) \<Rightarrow> cancel_cause \<Rightarrow> bool \<Rightarrow> ('w, unit) agent_op" where
  "cancel env cause keep =
     op_bind (if keep then op_lift (Inr ())
              else op_bind (in_inbox env clear_inbox)
                     (\<lambda>_. op_modify (\<lambda>s. put_phase (with_wake False (ag_phase s)) s)))
       (\<lambda>_. op_modify (\<lambda>s. put_phase (aborted_phase cause (ag_phase s)) s))"

text \<open>After an activity: idle, and a latched wake replayed while input is pending.\<close>

definition retire :: "int \<Rightarrow> bool \<Rightarrow> 'w agent \<Rightarrow> bool \<times> 'w agent" where
  "retire turn wake s =
     (let s' = set_phase (Idle turn) s in
      if wake \<and> has_pending (agent_inbox s') then wake_driver False s' else (False, s'))"

definition retire_maintenance :: "'w agent \<Rightarrow> bool \<times> 'w agent" where
  "retire_maintenance s =
     (case ag_phase s of
        Maintenance a t w \<Rightarrow> retire t w s
      | _ \<Rightarrow> (False, s))"

text \<open>The task's result, with whether a driver was started behind it.\<close>

definition run_maintenance :: "('w, 'a) agent_op \<Rightarrow> 'w agent \<Rightarrow> (stop + 'a) \<times> bool \<times> 'w agent" where
  "run_maintenance job s =
     (case ag_phase s of
        Idle t \<Rightarrow>
          (case job (set_phase (Maintenance None t False) s) of
             (Inl Suspended, s') \<Rightarrow> (Inl Suspended, False, s')
           | (r, s') \<Rightarrow> (r, retire_maintenance s'))
      | _ \<Rightarrow> (Inl (Raised Busy), False, s))"

end
