(* ===== verification/Agent_Rely.thy ===== *)
theory Agent_Rely
  imports Agent_Machine
begin

section \<open>Where an agent stands in its log\<close>

text \<open>
  The position of the log in its turns and steps, as the companion of
  \<^verbatim>\<open>packages/core/session/src/invariant.ts\<close> computes it, what an append of the driver does to
  it, and what everything outside the driver may do while the driver awaits: send, cancel,
  read, change the inbox, and append events that belong to no turn structure.
\<close>

subsection \<open>Positions\<close>

text \<open>The companion's trace without the last sequence number.\<close>

definition position :: "session_event list \<Rightarrow> session_trace option" where
  "position evs = (case seed_trace evs of Inl x \<Rightarrow> None | Inr tr \<Rightarrow> Some (tr\<lparr>last_seq := 0\<rparr>))"

definition place_step :: "session_trace \<Rightarrow> json option \<Rightarrow> event_data \<Rightarrow> session_trace option" where
  "place_step p op d =
     (case validate_data p 0 op d of Inl x \<Rightarrow> None | Inr t \<Rightarrow> Some (apply_transition p t))"

lemma position_Some_iff: "position evs = Some p \<longleftrightarrow> (\<exists>n. seed_trace evs = Inr (p\<lparr>last_seq := n\<rparr>)) \<and> last_seq p = 0"
proof
  assume "position evs = Some p"
  then obtain tr where "seed_trace evs = Inr tr" "p = tr\<lparr>last_seq := 0\<rparr>"
    by (auto simp: position_def split: sum.splits)
  moreover from this have "tr = p\<lparr>last_seq := last_seq tr\<rparr>" by simp
  ultimately show "(\<exists>n. seed_trace evs = Inr (p\<lparr>last_seq := n\<rparr>)) \<and> last_seq p = 0" by (metis session_trace.select_convs(1) session_trace.surjective session_trace.update_convs(1))
qed (auto simp: position_def)

lemma validate_data_place:
  "validate_data (p\<lparr>last_seq := k\<rparr>) n op d =
     map_sum id (\<lambda>t. ((fst t)\<lparr>ts_last_seq := n\<rparr>, snd t)) (validate_data p 0 op d)"
  by (cases d) (auto simp: require_open_step_def scalars_of_def Let_def split: option.splits)

lemma position_append:
  assumes "position evs = Some p" and "place_step p (ev_surface_op e) (ev_data e) = Some p'"
    and "contiguous (evs @ [e])"
  shows "position (evs @ [e]) = Some p'"
proof -
  obtain n where tr: "seed_trace evs = Inr (p\<lparr>last_seq := n\<rparr>)" and p: "last_seq p = 0"
    using assms(1) by (auto simp: position_Some_iff)
  have "ev_seq e > n"
  proof (cases "evs = []")
    case True
    with tr have "n = - 1" by (auto simp: fresh_trace_def dest: arg_cong [of _ _ last_seq])
    with True assms(3) show ?thesis by (simp add: contiguous_def)
  next
    case False
    with seed_trace_last_seq [OF tr] have "n = ev_seq (last evs)" by simp
    moreover have "ev_seq (last evs) = int (length evs - 1)" and "ev_seq e = int (length evs)"
      using False assms(3) by (simp_all add: contiguous_snoc last_conv_nth) (simp add: contiguous_def)
    ultimately show ?thesis using False by simp
  qed
  moreover obtain t where "validate_data p 0 (ev_surface_op e) (ev_data e) = Inr t" "p' = apply_transition p t"
    using assms(2) by (auto simp: place_step_def split: sum.splits)
  ultimately have "trace_step evs (length evs) (p\<lparr>last_seq := n\<rparr>) e
      = Inr (p'\<lparr>last_seq := ev_seq e\<rparr>)" and "last_seq p' = ts_last_seq (fst t)"
    by (auto simp: trace_step_def validate_event_def validate_data_place apply_transition_def)
  moreover have "ts_last_seq (fst t) = 0"
    using \<open>validate_data p 0 (ev_surface_op e) (ev_data e) = Inr t\<close>
    by (cases "ev_data e") (auto simp: scalars_of_def Let_def split: option.splits if_splits)
  ultimately show ?thesis
    using tr by (auto simp: position_Some_iff seed_trace_snoc)
qed

lemma position_wf:
  assumes "position evs = Some p"
  shows "trace_wf p"
proof -
  from assms obtain n where "trace_wf (p\<lparr>last_seq := n\<rparr>)" by (auto simp: position_Some_iff dest: seed_trace_wf)
  then show ?thesis by (auto simp: trace_wf_def split: option.splits)
qed

text \<open>
  Two tool calls of one message under the same identity would share one entry of the trace,
  so a position is claimed of the logs whose messages name their calls apart.
\<close>

definition message_calls :: "content_block list \<Rightarrow> call_id list" where
  "message_calls bs = List.map_filter (\<lambda>b. case b of ToolCallB c n a \<Rightarrow> Some c | _ \<Rightarrow> None) bs"

definition calls_apart :: "session_event list \<Rightarrow> bool" where
  "calls_apart evs \<longleftrightarrow>
     list_all (\<lambda>e. case ev_data e of
         AssistantMessage t s m u \<Rightarrow> distinct (message_calls (am_content m)) | _ \<Rightarrow> True) evs"

lemma calls_apart_append [simp]: "calls_apart (xs @ ys) \<longleftrightarrow> calls_apart xs \<and> calls_apart ys"
  by (simp add: calls_apart_def)

text \<open>A sound session whose log stands at \<open>p\<close>.\<close>

definition session_at :: "session_trace \<Rightarrow> session \<Rightarrow> bool" where
  "session_at p ss \<longleftrightarrow> session_ok ss \<and> last_seq p = 0 \<and>
     (calls_apart (ss_log ss) \<longrightarrow> position (ss_log ss) = Some p)"

abbreviation at_place :: "session_trace \<Rightarrow> 'w agent \<Rightarrow> bool" where
  "at_place p s \<equiv> session_at p (agent_session s)"

lemma session_ok_contiguous: "session_ok ss \<Longrightarrow> contiguous (ss_log ss)"
  using surface_replay_fold fold_surface_contiguous by (fastforce simp: session_ok_def log_ok_def)

lemma session_at_log: "session_at p ss \<Longrightarrow> session_ok ss' \<Longrightarrow> ss_log ss' = ss_log ss \<Longrightarrow> session_at p ss'"
  by (simp add: session_at_def)

lemma place_step_last_seq: "place_step p op d = Some p' \<Longrightarrow> last_seq p' = 0"
  by (cases d) (auto simp: place_step_def apply_transition_def scalars_of_def Let_def split: option.splits if_splits sum.splits)

lemma event_at:
  assumes "session_at p ss" and "append_event c ss = (Inr e, ss')" and "last_seq p' = 0"
    and "calls_apart (ss_log ss) \<Longrightarrow> place_step p (ev_surface_op e) (ev_data e) = Some p'"
  shows "session_at p' ss'"
proof -
  have ok: "session_ok ss'" and log: "ss_log ss' = ss_log ss @ [e]"
    using append_event_ok [OF _ assms(2)] append_event_log [OF assms(2)] assms(1) by (auto simp: session_at_def)
  have "position (ss_log ss @ [e]) = Some p'" if "calls_apart (ss_log ss)"
    using position_append [OF _ assms(4)] assms(1) that ok log session_ok_contiguous [of ss']
    by (simp add: session_at_def)
  with ok log assms(3) show ?thesis by (simp add: session_at_def)
qed

subsection \<open>Appends of the driver\<close>

lemma append_payload_logged:
  assumes "append_payload env d meta s = (Inr e, s')"
  shows "\<exists>ss d'. append_event (payload_call (env s) d meta) (agent_session s) = (Inr e, ss) \<and> s' = put_session ss s
    \<and> d = Some d' \<and> ev_data e = d' \<and> ev_surface_op e = fst meta \<and> ev_sources e = snd meta
    \<and> ev_seq e = int (length (agent_log s)) \<and> ss_log ss = agent_log s @ [e]"
proof -
  obtain ss where run: "append_event (payload_call (env s) d meta) (agent_session s) = (Inr e, ss)" and s': "s' = put_session ss s"
    using assms by (auto simp: append_payload_def map_sum_Inr_iff split: prod.splits)
  from run show ?thesis
    by (cases rule: append_event_cases) (use run s' in \<open>auto simp: payload_call_def next_event_def\<close>)
qed

lemma append_payload_refused:
  assumes "append_payload env d meta s = (Inl x, s')" and "session_ok (agent_session s)"
  shows "\<exists>y ss. x = Raised (NotAppended y) \<and> s' = put_session ss s \<and> ss_log ss = agent_log s \<and> session_ok ss"
proof -
  obtain y ss where run: "append_event (payload_call (env s) d meta) (agent_session s) = (Inl y, ss)"
      and s': "x = Raised (NotAppended y)" "s' = put_session ss s"
  proof -
    obtain q ss where run: "append_event (payload_call (env s) d meta) (agent_session s) = (q, ss)" by fastforce
    with assms(1) that show ?thesis by (cases q) (auto simp: append_payload_def)
  qed
  moreover have "ss_log ss = agent_log s"
    using run by (cases rule: append_event_cases) auto
  ultimately show ?thesis using append_event_ok [OF assms(2) run] by blast
qed

text \<open>An event that is never on the surface is always appended when nothing throws.\<close>

lemma unsurfaced_append:
  assumes ok: "session_ok (agent_session s)" and env: "lets_through (env s)"
    and d: "\<not> is_surface_eligible_type (event_type d)" "assert_supported_request_header d = None"
  shows "\<exists>e s'. append_payload env (Some d) (None, None) s = (Inr e, s')"
proof -
  let ?ss = "agent_session s" and ?evs = "agent_log s"
  let ?e = "next_event ?ss (ae_time (env s)) d None None"
  obtain k where k: "manager_at 0 ?evs k (ss_surface ?ss)"
    using ok by (auto simp: session_ok_def log_ok_def)
  obtain st where st: "replay (surface_step 0) create_fold_state ?evs = (None, length ?evs, st)"
    using ok by (auto simp: session_ok_def log_ok_def)
  obtain sm where sm: "sync_surface 0 ?evs (ss_surface ?ss) = (None, sm)"
    using sync_surface_full [OF k st] by metis
  have "plan_surface_event (sm_state sm) ?e (int (length ?evs)) ?evs 0 = Inr None"
    using d(1) by (simp add: plan_surface_event_def next_event_def surface_op_of_def)
  then have "validate_next 0 ?evs ?e (ss_surface ?ss) = (None, sm\<lparr>sm_pending := Some (?e, int (length ?evs), None)\<rparr>)"
    using sm by (simp add: validate_next_def Let_def)
  then have "\<exists>ss'. append_event (payload_call (env s) (Some d) (None, None)) ?ss = (Inr ?e, ss')"
    using env d(2) by (auto simp: append_event_def payload_call_def Let_def lets_through_def)
  then show ?thesis by (auto simp: append_payload_def)
qed

subsection \<open>What the outside may do\<close>

text \<open>
  The events of others: messages, rewrites of earlier tool results, todo lists, goals and the
  events of plugins. Rewrites and todo lists belong to a turn.
\<close>

fun foreign_data :: "bool \<Rightarrow> json option \<Rightarrow> event_data \<Rightarrow> bool" where
  "foreign_data running op (UserMessage m) \<longleftrightarrow> True"
| "foreign_data running op (GoalChange j) \<longleftrightarrow> True"
| "foreign_data running op (OtherEvent t j) \<longleftrightarrow> True"
| "foreign_data running op (TodoWrite ts) \<longleftrightarrow> running"
| "foreign_data running op (ToolResult d) \<longleftrightarrow> running \<and> op \<noteq> Some (JStr ''append'')"
| "foreign_data running op _ \<longleftrightarrow> False"

definition foreign_call :: "bool \<Rightarrow> append_call \<Rightarrow> bool" where
  "foreign_call running c \<longleftrightarrow>
     (case (ac_data c, ac_meta c) of
        (Some d, Some (op, srcs)) \<Rightarrow> foreign_data running op d
      | _ \<Rightarrow> True)"

text \<open>The views a session offers, each of which may bring its caches up to date.\<close>

definition session_read :: "session \<Rightarrow> session \<Rightarrow> bool" where
  "session_read ss ss' \<longleftrightarrow>
     ss' = snd (events_of ss) \<or> ss' = snd (request_header ss) \<or> ss' = snd (request_context_of ss) \<or>
     ss' = snd (derive_messages ss)"

inductive outside :: "'w agent \<Rightarrow> 'w agent \<Rightarrow> bool" for s :: "'w agent" where
  out_still: "outside s s"
| out_world: "outside s t \<Longrightarrow> outside s (t\<lparr>ag_world := w\<rparr>)"
| out_send: "outside s t \<Longrightarrow> send env m target wakeup t = (r, u) \<Longrightarrow> r \<noteq> Inr True \<Longrightarrow> outside s u"
| out_cancel: "outside s t \<Longrightarrow> cancel env cause keep t = (r, u) \<Longrightarrow> outside s u"
| out_append: "outside s t \<Longrightarrow> append_event c (agent_session t) = (r, ss) \<Longrightarrow>
    foreign_call (is_running (ag_phase t)) c \<Longrightarrow> outside s (put_session ss t)"
| out_inbox: "outside s t \<Longrightarrow> run_inbox ie cmd (ag_host t) = (r, h) \<Longrightarrow> outside s (t\<lparr>ag_host := h\<rparr>)"
| out_read: "outside s t \<Longrightarrow> session_read (agent_session t) ss \<Longrightarrow> outside s (put_session ss t)"

text \<open>What stays: the activity with its turn and step, and what the driver wrote.\<close>

fun phase_kept :: "phase \<Rightarrow> phase \<Rightarrow> bool" where
  "phase_kept (Idle t) p \<longleftrightarrow> p = Idle t"
| "phase_kept (Maintenance a t w) p \<longleftrightarrow> (\<exists>a' w'. p = Maintenance a' t w' \<and> (a = None \<or> a' = a))"
| "phase_kept (Running a t st w) p \<longleftrightarrow> (\<exists>a' w'. p = Running a' t st w' \<and> (a = None \<or> a' = a))"

text \<open>The tool calls and results of a log, the events only the driver writes.\<close>

definition tool_event :: "session_event \<Rightarrow> bool" where
  "tool_event e \<longleftrightarrow>
     (case ev_data e of
        ToolCall t s c n a \<Rightarrow> True
      | ToolResult d \<Rightarrow> ev_surface_op e = Some (JStr ''append'')
      | _ \<Rightarrow> False)"

definition tool_events :: "session_event list \<Rightarrow> session_event list" where
  "tool_events evs = filter tool_event evs"

definition steady :: "'w agent \<Rightarrow> 'w agent \<Rightarrow> bool" where
  "steady s t \<longleftrightarrow>
     phase_kept (ag_phase s) (ag_phase t) \<and> ag_header_logged t = ag_header_logged s \<and>
     (\<exists>es. agent_log t = agent_log s @ es \<and> tool_events es = [])"

lemma phase_kept_refl [simp]: "phase_kept p p"
  by (cases p) auto

lemma phase_kept_trans: "phase_kept p q \<Longrightarrow> phase_kept q r \<Longrightarrow> phase_kept p r"
  by (cases p) auto

lemma phase_kept_wake: "phase_kept p (with_wake b p)"
  by (cases p) auto

lemma phase_kept_aborted: "phase_kept p (aborted_phase c p)"
  by (cases p) (auto split: option.splits)

lemma phase_kept_running: "phase_kept p q \<Longrightarrow> is_running q = is_running p"
  by (cases p) auto

lemma steady_refl [simp]: "steady s s"
  by (simp add: steady_def tool_events_def)

lemma steady_trans: "steady s t \<Longrightarrow> steady t u \<Longrightarrow> steady s u"
  by (auto simp: steady_def tool_events_def intro: phase_kept_trans)

text \<open>Events outside the turn structure leave the position.\<close>

lemma place_step_foreign:
  assumes "foreign_data b op d" and "b \<longrightarrow> open_turn p \<noteq> None" and "last_seq p = 0"
  shows "place_step p op d = Some p"
  using assms by (cases d) (auto simp: place_step_def apply_transition_def scalars_of_def)

lemma place_step_inbox: "last_seq p = 0 \<Longrightarrow> place_step p op (InboxSpliced sp) = Some p"
  by (simp add: place_step_def apply_transition_def scalars_of_def)

lemma mutation_place:
  assumes "mutate_inbox ie t start del ins d h = (r, h')" and "session_at p (ih_session h)"
  shows "session_at p (ih_session h') \<and> (\<exists>es. ss_log (ih_session h') = ss_log (ih_session h) @ es \<and> tool_events es = [])"
proof -
  let ?sp = "normal_splice t start del ins d (ih_inbox h)"
  obtain q ss where app: "append_event (inbox_append_call ie start ?sp) (ih_session h) = (q, ss)"
    by (cases "append_event (inbox_append_call ie start ?sp) (ih_session h)") auto
  have "ih_session h' = ih_session h \<or> ih_session h' = ss"
    using assms(1) app by (auto simp: mutate_inbox_def Let_def split: if_splits option.splits sum.splits)
  moreover have "session_at p ss \<and> (\<exists>es. ss_log ss = ss_log (ih_session h) @ es \<and> tool_events es = [])"
    using app
  proof (cases rule: append_event_cases)
    case (stuck x)
    with assms(2) show ?thesis by (simp add: tool_events_def)
  next
    case (rejected x e q' sm)
    with assms(2) append_event_ok [OF _ app] show ?thesis
      by (auto simp: tool_events_def session_at_def)
  next
    case (logged d' op sources sm)
    then have e: "ev_data (next_event (ih_session h) (ac_time (inbox_append_call ie start ?sp)) d' op sources) = InboxSpliced ?sp"
      by (simp add: inbox_append_call_def next_event_def split: if_splits)
    have "session_at p ss"
      by (rule event_at [OF assms(2), of _ _ _ p]) (use app logged(6) e assms(2) in \<open>auto simp: place_step_inbox session_at_def\<close>)
    with logged(7) e show ?thesis by (simp add: tool_events_def tool_event_def)
  qed
  ultimately show ?thesis using assms(2) by (auto simp: tool_events_def)
qed

lemma mutations_place:
  "mutations h h' \<Longrightarrow> session_at p (ih_session h) \<Longrightarrow>
   session_at p (ih_session h') \<and> (\<exists>es. ss_log (ih_session h') = ss_log (ih_session h) @ es \<and> tool_events es = [])"
proof (induction rule: mutations.induct)
  case (mutation ie t start del ins d h r h1 h2)
  from mutation_place [OF mutation(1,4)] mutation(3) show ?case by (auto simp: tool_events_def)
qed (auto simp: tool_events_def)

text \<open>An inbox operation leaves everything else.\<close>

definition only_host :: "'w agent \<Rightarrow> 'w agent \<Rightarrow> bool" where
  "only_host s t \<longleftrightarrow> ag_phase t = ag_phase s \<and> ag_header_logged t = ag_header_logged s"

lemma in_inbox_place:
  assumes "in_inbox env m s = (r, t)" and "\<And>ie r h'. m ie (ag_host s) = (r, h') \<Longrightarrow> mutations (ag_host s) h'"
    and "at_place p s"
  shows "at_place p t \<and> steady s t \<and> only_host s t"
proof -
  obtain q h where run: "m (inbox_env_of (env s)) (ag_host s) = (q, h)" and t: "t = s\<lparr>ag_host := h\<rparr>"
    using assms(1) by (auto simp: in_inbox_def split: prod.splits)
  from mutations_place [OF assms(2) [OF run] assms(3)] t show ?thesis by (simp add: steady_def only_host_def)
qed

lemma wake_driver_kept:
  assumes "wake_driver b s = (False, t)"
  shows "ag_host t = ag_host s \<and> phase_kept (ag_phase s) (ag_phase t) \<and> ag_header_logged t = ag_header_logged s"
  using assms by (auto simp: wake_driver_def split: phase.splits if_splits)

lemma send_place:
  assumes "send env m target wakeup s = (r, t)" and "r \<noteq> Inr True" and "at_place p s"
  shows "at_place p t \<and> steady s t"
proof -
  define tg where "tg = (if wakeup \<and> \<not> is_idle (ag_phase s) \<and> phase_abort (ag_phase s) \<noteq> None then NextTurn else target)"
  obtain q u where sp: "in_inbox env (\<lambda>ie. splice_inbox ie tg JsPosInf (JsFinite 0) [m]) s = (q, u)"
    by (cases "in_inbox env (\<lambda>ie. splice_inbox ie tg JsPosInf (JsFinite 0) [m]) s") auto
  have u: "at_place p u \<and> steady s u"
    using in_inbox_place [OF sp _ assms(3)] splice_mutations by blast
  show ?thesis
  proof (cases "t = u")
    case False
    have "\<exists>b x. wake_driver b u = (x, t) \<and> (r = Inr x \<or> \<not> x)"
      using assms(1) sp False
      by (auto simp: send_def Let_def op_bind_def tg_def split: sum.splits prod.splits if_splits)
    then obtain b x where "wake_driver b u = (x, t)" and "r = Inr x \<or> \<not> x" by blast
    moreover from this assms(2) have "x = False" by (cases x) auto
    ultimately have "wake_driver b u = (False, t)" by simp
    from wake_driver_kept [OF this] u show ?thesis
      by (auto simp: steady_def intro: phase_kept_trans)
  qed (use u in simp)
qed

lemma cancel_place:
  assumes "cancel env cause keep s = (r, t)" and "at_place p s"
  shows "at_place p t \<and> steady s t"
proof -
  have modify: "at_place p u \<and> steady s u \<Longrightarrow> phase_kept (ag_phase u) q \<Longrightarrow>
      at_place p (put_phase q u) \<and> steady s (put_phase q u)" for u q
    by (auto simp: steady_def intro: phase_kept_trans)
  show ?thesis
  proof (cases keep)
    case True
    with assms modify [of s] show ?thesis
      by (auto simp: cancel_def op_bind_def op_lift_def op_modify_def phase_kept_aborted)
  next
    case False
    obtain q u where cl: "in_inbox env clear_inbox s = (q, u)" by fastforce
    have u: "at_place p u \<and> steady s u"
      using in_inbox_place [OF cl _ assms(2)] clear_mutations by blast
    have w: "at_place p (put_phase (with_wake False (ag_phase u)) u) \<and> steady s (put_phase (with_wake False (ag_phase u)) u)"
      using modify [OF u phase_kept_wake] .
    from False assms(1) cl u modify [OF w phase_kept_aborted] show ?thesis
      by (cases q) (auto simp: cancel_def op_bind_def op_modify_def)
  qed
qed

lemma append_event_place:
  assumes "append_event c ss = (r, ss')" and "session_at p ss" and "foreign_call b c"
    and "b \<longrightarrow> open_turn p \<noteq> None"
  shows "session_at p ss' \<and> (\<exists>es. ss_log ss' = ss_log ss @ es \<and> tool_events es = [])"
  using assms(1)
proof (cases rule: append_event_cases)
  case (stuck x)
  with assms(2) show ?thesis by (simp add: tool_events_def)
next
  case (rejected x e q' sm)
  with assms(2) append_event_ok [OF _ assms(1)] show ?thesis by (auto simp: tool_events_def session_at_def)
next
  case (logged d op sources sm)
  then have fd: "foreign_data b op d" using assms(3) by (simp add: foreign_call_def)
  have "session_at p ss'"
    by (rule event_at [OF assms(2), of _ _ _ p])
      (use assms logged(6) fd in \<open>auto simp: next_event_def session_at_def intro: place_step_foreign\<close>)
  moreover have "tool_event (next_event ss (ac_time c) d op sources) = False"
    using fd by (cases d) (auto simp: tool_event_def next_event_def)
  ultimately show ?thesis using logged(7) by (simp add: tool_events_def)
qed

lemma session_read_ok:
  assumes "session_read ss ss'" and "session_ok ss"
  shows "session_ok ss' \<and> ss_log ss' = ss_log ss"
proof -
  obtain st where "replay (surface_step 0) create_fold_state (ss_log ss) = (None, length (ss_log ss), st)"
    using assms(2) by (auto simp: session_ok_def log_ok_def)
  from derive_messages_ok [OF assms(2) this]
  have "session_ok (snd (derive_messages ss)) \<and> ss_log (snd (derive_messages ss)) = ss_log ss" by auto
  moreover have "session_ok (snd (events_of ss))" "session_ok (snd (request_header ss))"
      "session_ok (snd (request_context_of ss))"
    using events_of_ok [OF assms(2)] request_header_ok [OF assms(2)] request_context_ok [OF assms(2)]
    by (metis prod.collapse)+
  moreover have "ss_log (snd (events_of ss)) = ss_log ss" "ss_log (snd (request_header ss)) = ss_log ss"
      "ss_log (snd (request_context_of ss)) = ss_log ss"
    by (auto simp: events_of_def request_header_def request_context_of_def Let_def split: option.splits)
  ultimately show ?thesis using assms(1) by (auto simp: session_read_def)
qed

lemma outside_place:
  assumes "outside s t" and "at_place p s" and "is_running (ag_phase s) \<longrightarrow> open_turn p \<noteq> None"
  shows "at_place p t \<and> steady s t"
  using assms(1)
proof (induction rule: outside.induct)
  case out_still
  show ?case using assms(2) by simp
next
  case (out_world t w)
  then show ?case by (simp add: steady_def)
next
  case (out_send t env m target wakeup r u)
  then show ?case using send_place steady_trans by blast
next
  case (out_cancel t env cause keep r u)
  then show ?case using cancel_place steady_trans by blast
next
  case (out_append t c r ss)
  then have "is_running (ag_phase t) \<longrightarrow> open_turn p \<noteq> None"
    using assms(3) phase_kept_running by (auto simp: steady_def)
  from append_event_place [OF out_append(2) _ out_append(3) this] out_append(4)
  show ?case by (auto simp: steady_def tool_events_def)
next
  case (out_inbox t ie cmd r h)
  from out_inbox(3) mutations_place [OF run_inbox_mutations [OF out_inbox(2)], of p]
  show ?case by (auto simp: steady_def tool_events_def)
next
  case (out_read t ss)
  with session_read_ok [OF out_read(2)] show ?case
    by (auto simp: steady_def session_at_def)
qed

end
