(* ===== verification/Tool_Calls.thy ===== *)
theory Tool_Calls
  imports Agent_Rely
begin

section \<open>Scheduling the tool calls of a step\<close>

text \<open>
  \<^verbatim>\<open>packages/core/agent-loop/src/tool-calls.ts\<close>: exclusive calls form barriers, parallel calls
  run in a bounded pool, results are committed in the order the model asked. The registry
  of \<^verbatim>\<open>packages/core/tools\<close> is an argument: what preparing, dispatching and finalizing a call
  does, and which dispatches have settled whenever the scheduler awaits. The local variables
  of \<open>runGroup\<close> are the record \<open>pool\<close>; a dispatch that settles during any await changes it,
  as its \<open>then\<close> callback does.
\<close>

subsection \<open>The registry\<close>

record exec_input =
  ei_call :: call_id
  ei_name :: string
  ei_arguments :: json

record tool_outcome =
  to_content :: "content_block list"
  to_is_error :: bool
  to_info :: "(string \<times> string) option"
  to_meta :: "json option"
  to_contexts :: "user_message list"
  to_concludes :: bool
  to_plain :: bool

datatype prepared_call = Dispatch | Settled_Early tool_outcome bool

text \<open>
  \<open>tl_settled\<close> reports the dispatches among the unsettled that have settled by now, with the
  result and whether it still needs post-execute, or the failure; \<open>tl_race\<close> picks one of the
  settled; \<open>tl_drain\<close> waits for all.
\<close>

record 'w tool_runtime =
  tl_env :: "'w agent \<Rightarrow> append_env"
  tl_parse :: "string \<Rightarrow> json option"
  tl_parallel :: "'w agent \<Rightarrow> exec_input \<Rightarrow> bool"
  tl_limit :: "'w agent \<Rightarrow> nat"
  tl_mint :: "('w, message_id) agent_op"
  tl_prepare :: "exec_input \<Rightarrow> ('w, prepared_call) agent_op"
  tl_dispatch :: "exec_input \<Rightarrow> ('w, unit) agent_op"
  tl_settled :: "nat list \<Rightarrow> ('w, (nat \<times> (agent_error + tool_outcome \<times> bool)) list) agent_op"
  tl_race :: "nat list \<Rightarrow> ('w, nat) agent_op"
  tl_drain :: "nat list \<Rightarrow> ('w, unit) agent_op"
  tl_finalize :: "exec_input \<Rightarrow> tool_outcome \<Rightarrow> ('w, tool_outcome) agent_op"
  tl_finish :: "exec_input \<Rightarrow> tool_outcome \<Rightarrow> ('w, tool_outcome) agent_op"

subsection \<open>Planned calls and their events\<close>

record planned_call =
  pc_id :: call_id
  pc_name :: string
  pc_text :: string
  pc_exec :: exec_input

definition parse_arguments :: "(string \<Rightarrow> json option) \<Rightarrow> string \<Rightarrow> json" where
  "parse_arguments parse raw =
     (if raw = [] then JObj [] else (case parse raw of Some v \<Rightarrow> v | None \<Rightarrow> JStr raw))"

fun plan_block :: "(string \<Rightarrow> json option) \<Rightarrow> content_block \<Rightarrow> planned_call option" where
  "plan_block parse (ToolCallB c n a) =
     Some \<lparr>pc_id = c, pc_name = n, pc_text = a,
           pc_exec = \<lparr>ei_call = c, ei_name = n, ei_arguments = parse_arguments parse a\<rparr>\<rparr>"
| "plan_block parse _ = None"

definition append_tool_call ::
  "'w tool_runtime \<Rightarrow> int \<Rightarrow> int \<Rightarrow> planned_call \<Rightarrow> ('w, int) agent_op"
where
  "append_tool_call rt turn step c =
     op_bind (agent_append (tl_env rt) (ToolCall turn step (pc_id c) (pc_name c) (pc_text c)) (None, None))
       (\<lambda>e. op_lift (Inr (ev_seq e)))"

definition result_data :: "int \<Rightarrow> int \<Rightarrow> planned_call \<Rightarrow> message_id \<Rightarrow> tool_outcome \<Rightarrow> event_data" where
  "result_data turn step c mid out =
     ToolResult \<lparr>tr_turn = turn, tr_step = step,
       tr_message = \<lparr>trm_id = mid, trm_call = pc_id c, trm_tool_call = pc_id c,
                     trm_content = to_content out, trm_is_error = Some (to_is_error out)\<rparr>,
       tr_error = to_info out, tr_meta = to_meta out\<rparr>"

definition append_tool_result ::
  "'w tool_runtime \<Rightarrow> int \<Rightarrow> int \<Rightarrow> planned_call \<Rightarrow> tool_outcome \<Rightarrow> int \<Rightarrow> ('w, unit) agent_op"
where
  "append_tool_result rt turn step c out n =
     op_bind (tl_mint rt)
       (\<lambda>mid. op_bind (append_payload (tl_env rt)
                 (if to_plain out then Some (result_data turn step c mid out) else None)
                 (Some (JStr ''append''), Some (JArr [jint n])))
         (\<lambda>_. op_lift (Inr ())))"

definition aborted_before_dispatch :: tool_outcome where
  "aborted_before_dispatch =
     \<lparr>to_content = [TextB ''Error: tool call aborted before dispatch''], to_is_error = True,
      to_info = Some (''AbortError'', ''ABORTED_BEFORE_DISPATCH''), to_meta = None, to_contexts = [],
      to_concludes = False, to_plain = True\<rparr>"

definition append_skipped_tool_call ::
  "'w tool_runtime \<Rightarrow> int \<Rightarrow> int \<Rightarrow> planned_call \<Rightarrow> ('w, unit) agent_op"
where
  "append_skipped_tool_call rt turn step c =
     op_bind (append_tool_call rt turn step c)
       (\<lambda>n. append_tool_result rt turn step c aborted_before_dispatch n)"

text \<open>A context is accepted into the next-step inbox of the agent.\<close>

definition accept_context :: "'w tool_runtime \<Rightarrow> user_message \<Rightarrow> ('w, unit) agent_op" where
  "accept_context rt m =
     op_bind (in_inbox (tl_env rt) (\<lambda>ie. append_message ie NextStep m)) (\<lambda>_. op_lift (Inr ()))"

subsection \<open>The pool\<close>

record pool =
  pl_slots :: "nat \<rightharpoonup> tool_outcome \<times> bool"
  pl_seqs :: "nat \<rightharpoonup> int"
  pl_flight :: "nat list"
  pl_settled :: "nat list"
  pl_next :: nat
  pl_committed :: nat
  pl_started :: nat
  pl_aborted :: bool
  pl_concluded :: bool
  pl_failure :: "agent_error option"

type_synonym ('w, 'a) pool_op = "('w agent \<times> pool, stop, 'a) op"

definition new_pool :: "bool \<Rightarrow> pool" where
  "new_pool aborted =
     \<lparr>pl_slots = Map.empty, pl_seqs = Map.empty, pl_flight = [], pl_settled = [], pl_next = 0,
      pl_committed = 0, pl_started = 0, pl_aborted = aborted, pl_concluded = False, pl_failure = None\<rparr>"

definition on_agent :: "('w, 'a) agent_op \<Rightarrow> ('w, 'a) pool_op" where
  "on_agent m sp = (case m (fst sp) of (r, s') \<Rightarrow> (r, s', snd sp))"

definition on_pool :: "(pool \<Rightarrow> pool) \<Rightarrow> ('w, unit) pool_op" where
  "on_pool f sp = (Inr (), fst sp, f (snd sp))"

definition reading :: "('w agent \<Rightarrow> pool \<Rightarrow> ('w, 'a) pool_op) \<Rightarrow> ('w, 'a) pool_op" where
  "reading f sp = f (fst sp) (snd sp) sp"

text \<open>The callbacks of a dispatch: the slot is filled, or the first failure kept.\<close>

definition settle_one :: "nat \<times> (agent_error + tool_outcome \<times> bool) \<Rightarrow> pool \<Rightarrow> pool" where
  "settle_one x p =
     (if fst x \<in> set (pl_flight p) \<and> fst x \<notin> set (pl_settled p)
      then (case snd x of
              Inr slot \<Rightarrow> p\<lparr>pl_settled := fst x # pl_settled p, pl_slots := (pl_slots p)(fst x \<mapsto> slot)\<rparr>
            | Inl e \<Rightarrow> p\<lparr>pl_settled := fst x # pl_settled p,
                        pl_failure := Some (case pl_failure p of None \<Rightarrow> e | Some e' \<Rightarrow> e')\<rparr>)
      else p)"

definition unsettled :: "pool \<Rightarrow> nat list" where
  "unsettled p = filter (\<lambda>i. i \<notin> set (pl_settled p)) (pl_flight p)"

definition settle :: "'w tool_runtime \<Rightarrow> ('w, unit) pool_op" where
  "settle rt =
     reading (\<lambda>s p. op_bind (on_agent (tl_settled rt (unsettled p)))
       (\<lambda>xs. on_pool (fold settle_one xs)))"

text \<open>
  An await: the operation, and whatever settles meanwhile; a dispatch that settled while the
  operation went on to throw has been recorded when its error arrives.
\<close>

definition awaiting :: "'w tool_runtime \<Rightarrow> ('w, 'a) pool_op \<Rightarrow> ('w, 'a) pool_op" where
  "awaiting rt m sp =
     (case m sp of
        (Inr x, sp') \<Rightarrow> op_bind (settle rt) (\<lambda>_. op_lift (Inr x)) sp'
      | (Inl (Raised e), sp') \<Rightarrow> op_bind (settle rt) (\<lambda>_. op_lift (Inl (Raised e))) sp'
      | (Inl Suspended, sp') \<Rightarrow> (Inl Suspended, sp'))"

definition throw_scheduler_failure :: "('w, unit) pool_op" where
  "throw_scheduler_failure =
     reading (\<lambda>s p. op_lift (case pl_failure p of None \<Rightarrow> Inr () | Some e \<Rightarrow> Inl (Raised e)))"

definition commit_one ::
  "'w tool_runtime \<Rightarrow> int \<Rightarrow> int \<Rightarrow> planned_call \<Rightarrow> int \<Rightarrow> tool_outcome \<times> bool \<Rightarrow> ('w, unit) pool_op"
where
  "commit_one rt turn step c n slot =
     op_bind (if snd slot then awaiting rt (on_agent (tl_finalize rt (pc_exec c) (fst slot)))
              else on_agent (tl_finish rt (pc_exec c) (fst slot)))
       (\<lambda>out. op_bind (on_agent (append_tool_result rt turn step c out n))
         (\<lambda>_. op_bind (on_agent (for_each (accept_context rt) (to_contexts out)))
           (\<lambda>_. on_pool (\<lambda>p. p\<lparr>pl_concluded := (pl_concluded p \<or> to_concludes out),
                              pl_committed := pl_committed p + 1\<rparr>))))"

text \<open>
  The loop of \<open>commitReady\<close> runs at most once per call of the group; a slot that started has
  its sequence number, and \<open>- 1\<close> otherwise.
\<close>

definition call_seq :: "pool \<Rightarrow> nat \<Rightarrow> int" where
  "call_seq p i = (case pl_seqs p i of None \<Rightarrow> - 1 | Some n \<Rightarrow> n)"

fun commit_ready ::
  "'w tool_runtime \<Rightarrow> int \<Rightarrow> int \<Rightarrow> planned_call list \<Rightarrow> nat \<Rightarrow> ('w, unit) pool_op"
where
  "commit_ready rt turn step batch 0 = op_lift (Inr ())"
| "commit_ready rt turn step batch (Suc k) =
     reading (\<lambda>s p.
       if length batch \<le> pl_committed p then op_lift (Inr ())
       else
         (case pl_slots p (pl_committed p) of
            None \<Rightarrow> op_lift (Inr ())
          | Some slot \<Rightarrow>
              op_bind (commit_one rt turn step (batch ! pl_committed p) (call_seq p (pl_committed p)) slot)
                (\<lambda>_. commit_ready rt turn step batch k)))"

definition start_call :: "'w tool_runtime \<Rightarrow> int \<Rightarrow> int \<Rightarrow> planned_call \<Rightarrow> nat \<Rightarrow> ('w, unit) pool_op" where
  "start_call rt turn step c i =
     op_bind (on_agent (append_tool_call rt turn step c))
       (\<lambda>n. op_bind (on_pool (\<lambda>p. p\<lparr>pl_seqs := (pl_seqs p)(i \<mapsto> n), pl_started := pl_started p + 1\<rparr>))
         (\<lambda>_. op_bind (awaiting rt (on_agent (tl_prepare rt (pc_exec c))))
           (\<lambda>pre. op_bind throw_scheduler_failure
             (\<lambda>_. case pre of
                Dispatch \<Rightarrow>
                  op_bind (on_agent (tl_dispatch rt (pc_exec c)))
                    (\<lambda>_. on_pool (\<lambda>p. p\<lparr>pl_flight := pl_flight p @ [i]\<rparr>))
              | Settled_Early out post \<Rightarrow>
                  on_pool (\<lambda>p. p\<lparr>pl_slots := (pl_slots p)(i \<mapsto> (out, post))\<rparr>)))))"

definition note_abort :: "('w, unit) pool_op" where
  "note_abort =
     reading (\<lambda>s p. if phase_abort (ag_phase s) \<noteq> None then on_pool (\<lambda>p. p\<lparr>pl_aborted := True\<rparr>)
                    else op_lift (Inr ()))"

text \<open>Each round of \<open>fillPool\<close> starts a call, so there are at most as many as calls.\<close>

fun fill_pool ::
  "'w tool_runtime \<Rightarrow> int \<Rightarrow> int \<Rightarrow> planned_call list \<Rightarrow> bool \<Rightarrow> nat \<Rightarrow> nat \<Rightarrow> ('w, unit) pool_op"
where
  "fill_pool rt turn step batch parallel limit 0 = op_lift (Inr ())"
| "fill_pool rt turn step batch parallel limit (Suc k) =
     reading (\<lambda>s p.
       if pl_aborted p \<or> length batch \<le> pl_next p \<or> limit \<le> length (pl_flight p)
          \<or> 0 < pl_next p \<and> parallel \<and> \<not> tl_parallel rt s (pc_exec (batch ! pl_next p))
       then op_lift (Inr ())
       else
         op_bind (awaiting rt (start_call rt turn step (batch ! pl_next p) (pl_next p)))
           (\<lambda>_. op_bind (on_pool (\<lambda>p. p\<lparr>pl_next := pl_next p + 1\<rparr>))
             (\<lambda>_. op_bind throw_scheduler_failure
               (\<lambda>_. op_bind (awaiting rt (commit_ready rt turn step batch (length batch)))
                 (\<lambda>_. op_bind throw_scheduler_failure
                   (\<lambda>_. op_bind note_abort
                     (\<lambda>_. fill_pool rt turn step batch parallel limit k)))))))"

text \<open>
  \<open>Promise.race\<close> over the pool: it fulfills with a dispatch in flight that has settled, and
  stays pending while there is none.
\<close>

definition race :: "'w tool_runtime \<Rightarrow> ('w, nat) pool_op" where
  "race rt =
     op_bind (reading (\<lambda>s p. awaiting rt (on_agent (tl_race rt (pl_flight p)))))
       (\<lambda>i. reading (\<lambda>s p. op_lift (if i \<in> set (pl_flight p) \<and> i \<in> set (pl_settled p)
                                    then Inr i else Inl Suspended)))"

fun pool_loop ::
  "'w tool_runtime \<Rightarrow> int \<Rightarrow> int \<Rightarrow> planned_call list \<Rightarrow> bool \<Rightarrow> nat \<Rightarrow> nat \<Rightarrow> ('w, unit) pool_op"
where
  "pool_loop rt turn step batch parallel limit 0 =
     reading (\<lambda>s p. op_lift (if pl_flight p = [] then Inr () else Inl Suspended))"
| "pool_loop rt turn step batch parallel limit (Suc k) =
     reading (\<lambda>s p.
       if pl_flight p = [] then op_lift (Inr ())
       else
         op_bind (race rt)
           (\<lambda>i. op_bind (on_pool (\<lambda>p. p\<lparr>pl_flight := remove1 i (pl_flight p)\<rparr>))
             (\<lambda>_. op_bind throw_scheduler_failure
               (\<lambda>_. op_bind (awaiting rt (commit_ready rt turn step batch (length batch)))
                 (\<lambda>_. op_bind throw_scheduler_failure
                   (\<lambda>_. op_bind note_abort
                     (\<lambda>_. op_bind (awaiting rt (fill_pool rt turn step batch parallel limit (length batch)))
                       (\<lambda>_. pool_loop rt turn step batch parallel limit k))))))))"

record group_outcome =
  go_consumed :: nat
  go_aborted :: bool
  go_concluded :: bool

text \<open>
  The body of the \<open>try\<close>, its \<open>catch\<close>, and what follows. Every turn of the loop takes one call
  out of the pool, so as many turns as the group has calls are enough.
\<close>

definition run_pool ::
  "'w tool_runtime \<Rightarrow> int \<Rightarrow> int \<Rightarrow> planned_call list \<Rightarrow> bool \<Rightarrow> nat \<Rightarrow> ('w, unit) pool_op"
where
  "run_pool rt turn step batch parallel limit sp =
     (case op_bind (awaiting rt (fill_pool rt turn step batch parallel limit (length batch)))
             (\<lambda>_. pool_loop rt turn step batch parallel limit (length batch)) sp of
        (Inl (Raised x), s, p) \<Rightarrow>
          op_bind (on_agent (tl_drain rt (pl_flight p)))
            (\<lambda>_. op_lift (Inl (Raised (case pl_failure p of None \<Rightarrow> x | Some e \<Rightarrow> e)))) (s, p)
      | r \<Rightarrow> r)"

definition run_group ::
  "'w tool_runtime \<Rightarrow> int \<Rightarrow> int \<Rightarrow> planned_call list \<Rightarrow> bool \<Rightarrow> ('w, group_outcome) agent_op"
where
  "run_group rt turn step batch parallel s =
     (case run_pool rt turn step batch parallel (tl_limit rt s)
             (s, new_pool (phase_abort (ag_phase s) \<noteq> None)) of
        (Inl x, s', p) \<Rightarrow> (Inl x, s')
      | (Inr _, s', p) \<Rightarrow>
          if pl_aborted p
          then op_bind (for_each (append_skipped_tool_call rt turn step) (drop (pl_started p) batch))
                 (\<lambda>_. op_lift (Inr \<lparr>go_consumed = length batch, go_aborted = True, go_concluded = pl_concluded p\<rparr>)) s'
          else if pl_committed p \<noteq> pl_started p
          then (Inl (Raised (Thrown ''tool-call scheduler: uncommitted settled calls'')), s')
          else (Inr \<lparr>go_consumed = pl_started p, go_aborted = False, go_concluded = pl_concluded p\<rparr>, s'))"

text \<open>The outer loop over the groups; each consumes at least one call.\<close>

fun tool_groups ::
  "'w tool_runtime \<Rightarrow> int \<Rightarrow> int \<Rightarrow> nat \<Rightarrow> planned_call list \<Rightarrow> bool \<Rightarrow> ('w, bool) agent_op"
where
  "tool_groups rt turn step k [] concluded = op_lift (Inr concluded)"
| "tool_groups rt turn step 0 (c # cs) concluded = op_lift (Inl Suspended)"
| "tool_groups rt turn step (Suc k) (c # cs) concluded =
     op_bind (op_gets (\<lambda>s. tl_parallel rt s (pc_exec c)))
       (\<lambda>parallel. op_bind (run_group rt turn step (if parallel then c # cs else [c]) parallel)
         (\<lambda>out.
            (let rest = drop (go_consumed out) (c # cs) in
             if go_aborted out
             then op_bind (for_each (append_skipped_tool_call rt turn step) rest)
                    (\<lambda>_. op_lift (Inr (concluded \<or> go_concluded out)))
             else tool_groups rt turn step k rest (concluded \<or> go_concluded out))))"

definition execute_tool_calls ::
  "'w tool_runtime \<Rightarrow> int \<Rightarrow> int \<Rightarrow> content_block list \<Rightarrow> ('w, bool) agent_op"
where
  "execute_tool_calls rt turn step blocks =
     (let planned = List.map_filter (plan_block (tl_parse rt)) blocks in
      tool_groups rt turn step (length planned) planned False)"

subsection \<open>Rules for operations\<close>

lemma op_triple_conj_pure: "op_triple (\<lambda>s. b \<and> P s) m Q E" if "b \<Longrightarrow> op_triple P m Q E"
  using that by (auto simp: op_triple_def)

lemma triple_on_pool:
  "(\<And>s p. P (s, p) \<Longrightarrow> Q () (s, f p)) \<Longrightarrow> op_triple P (on_pool f) Q E"
  by (auto simp: op_triple_def on_pool_def)

lemma triple_on_agent:
  assumes "\<And>p. op_triple (\<lambda>s. P (s, p)) m (\<lambda>a s. Q a (s, p)) (\<lambda>x s. E x (s, p))"
  shows "op_triple P (on_agent m) Q E"
proof (rule op_tripleI)
  fix sp x sp' assume P: "P sp" and run: "on_agent m sp = (Inl x, sp')"
  obtain s p where sp: "sp = (s, p)" by fastforce
  with run obtain s' where "m s = (Inl x, s')" "sp' = (s', p)" by (auto simp: on_agent_def split: prod.splits)
  with op_triple_throwD [OF assms [of p], of s x s'] P sp show "E x sp'" by simp
next
  fix sp a sp' assume P: "P sp" and run: "on_agent m sp = (Inr a, sp')"
  obtain s p where sp: "sp = (s, p)" by fastforce
  with run obtain s' where "m s = (Inr a, s')" "sp' = (s', p)" by (auto simp: on_agent_def split: prod.splits)
  with op_triple_returnD [OF assms [of p], of s a s'] P sp show "Q a sp'" by simp
qed

lemma triple_reading:
  "(\<And>s p. P (s, p) \<Longrightarrow> op_triple (\<lambda>sp. sp = (s, p)) (f s p) Q E) \<Longrightarrow> op_triple P (reading f) Q E"
  by (fastforce simp: op_triple_def reading_def)

lemma triple_started_at: "op_triple P m Q E \<Longrightarrow> P s \<Longrightarrow> op_triple (\<lambda>t. t = s) m Q E"
  by (auto simp: op_triple_def)

lemma triple_gets: "(\<And>s. P s \<Longrightarrow> Q (f s) s) \<Longrightarrow> op_triple P (op_gets f) Q E"
  by (auto simp: op_triple_def op_gets_def)

lemma triple_modify: "(\<And>s. P s \<Longrightarrow> Q () (f s)) \<Longrightarrow> op_triple P (op_modify f) Q E"
  by (auto simp: op_triple_def op_modify_def)

lemma triple_for_each:
  assumes "\<And>x. x \<in> set xs \<Longrightarrow> op_triple P (f x) (\<lambda>_. P) E"
  shows "op_triple P (for_each f xs) (\<lambda>_. P) E"
  using assms
proof (induction xs)
  case Nil
  show ?case by (auto intro: op_triple_lift)
next
  case (Cons x xs)
  show ?case by (auto intro!: op_triple_bind [of _ _ "\<lambda>_. P"] Cons)
qed

text \<open>What an operation of the outside may do, and the predicates it cannot falsify.\<close>

definition polite :: "('w, 'a) agent_op \<Rightarrow> bool" where
  "polite m \<longleftrightarrow> (\<forall>s r t. m s = (r, t) \<longrightarrow> outside s t)"

definition stable :: "('w agent \<Rightarrow> bool) \<Rightarrow> bool" where
  "stable A \<longleftrightarrow> (\<forall>s t. A s \<longrightarrow> outside s t \<longrightarrow> A t)"

lemma triple_polite: "polite m \<Longrightarrow> stable A \<Longrightarrow> op_triple A m (\<lambda>_. A) (\<lambda>_. A)"
  by (auto simp: polite_def stable_def op_triple_def split: prod.splits sum.splits)

definition polite_tools :: "'w tool_runtime \<Rightarrow> bool" where
  "polite_tools rt \<longleftrightarrow>
     polite (tl_mint rt) \<and> (\<forall>x. polite (tl_prepare rt x)) \<and> (\<forall>x. polite (tl_dispatch rt x)) \<and>
     (\<forall>is. polite (tl_settled rt is)) \<and> (\<forall>is. polite (tl_race rt is)) \<and> (\<forall>is. polite (tl_drain rt is)) \<and>
     (\<forall>x out. polite (tl_finalize rt x out)) \<and> (\<forall>x out. polite (tl_finish rt x out))"

subsection \<open>The agent during a step\<close>

text \<open>
  The log stands in the step of \<open>p\<close> with at least the calls \<open>ids\<close> awaiting results, and the
  phase is the step's.
\<close>

definition in_step :: "session_trace \<Rightarrow> call_id set \<Rightarrow> 'w agent \<Rightarrow> bool" where
  "in_step p ids s \<longleftrightarrow>
     (\<exists>P. ids \<subseteq> P \<and> at_place (p\<lparr>pending_calls := P\<rparr>) s) \<and>
     (\<exists>t st a w. open_turn p = Some t \<and> open_step p = Some st \<and> ag_phase s = Running a t st w)"

lemma in_step_mono: "in_step p ids s \<Longrightarrow> ids' \<subseteq> ids \<Longrightarrow> in_step p ids' s"
  by (auto simp: in_step_def)

lemma in_step_outside:
  assumes "in_step p ids s" and "outside s t"
  shows "in_step p ids t \<and> steady s t"
proof -
  obtain P tn st a w where P: "ids \<subseteq> P" "at_place (p\<lparr>pending_calls := P\<rparr>) s"
      and p: "open_turn p = Some tn" "open_step p = Some st" "ag_phase s = Running a tn st w"
    using assms(1) by (auto simp: in_step_def)
  have "at_place (p\<lparr>pending_calls := P\<rparr>) t \<and> steady s t"
    using outside_place [OF assms(2) P(2)] p by simp
  with P(1) p show ?thesis by (auto simp: in_step_def steady_def)
qed

lemma stable_in_step: "stable (in_step p ids)"
  using in_step_outside by (auto simp: stable_def)

text \<open>The calls and results among tool events, with the numbers that link them.\<close>

definition call_view :: "session_event \<Rightarrow> (int \<times> int \<times> call_id \<times> string \<times> string \<times> int) option" where
  "call_view e = (case ev_data e of ToolCall t s c n a \<Rightarrow> Some (t, s, c, n, a, ev_seq e) | _ \<Rightarrow> None)"

definition result_view :: "session_event \<Rightarrow> (int \<times> int \<times> call_id \<times> json option) option" where
  "result_view e =
     (case ev_data e of
        ToolResult d \<Rightarrow> Some (tr_turn d, tr_step d, trm_call (tr_message d), ev_sources e) | _ \<Rightarrow> None)"

definition calls_of :: "session_event list \<Rightarrow> (int \<times> int \<times> call_id \<times> string \<times> string \<times> int) list" where
  "calls_of evs = List.map_filter call_view evs"

definition results_of :: "session_event list \<Rightarrow> (int \<times> int \<times> call_id \<times> json option) list" where
  "results_of evs = List.map_filter result_view evs"

lemma views_append [simp]:
  "calls_of (xs @ ys) = calls_of xs @ calls_of ys" "results_of (xs @ ys) = results_of xs @ results_of ys"
  by (simp_all add: calls_of_def results_of_def map_filter_def)

lemma views_Nil [simp]: "calls_of [] = []" "results_of [] = []"
  by (simp_all add: calls_of_def results_of_def map_filter_def)

text \<open>
  The calls \<open>gs\<close> recorded at the sequence numbers \<open>qs\<close>, and the first \<open>c\<close> of them answered,
  in order, by results that cite them.
\<close>

definition calls_at :: "int \<Rightarrow> int \<Rightarrow> planned_call list \<Rightarrow> int list \<Rightarrow> (int \<times> int \<times> call_id \<times> string \<times> string \<times> int) list" where
  "calls_at t st gs qs = map2 (\<lambda>g q. (t, st, pc_id g, pc_name g, pc_text g, q)) gs qs"

definition results_at :: "int \<Rightarrow> int \<Rightarrow> planned_call list \<Rightarrow> int list \<Rightarrow> (int \<times> int \<times> call_id \<times> json option) list" where
  "results_at t st gs qs = map2 (\<lambda>g q. (t, st, pc_id g, Some (JArr [jint q]))) gs qs"

definition written ::
  "int \<Rightarrow> int \<Rightarrow> session_event list \<Rightarrow> planned_call list \<Rightarrow> int list \<Rightarrow> nat \<Rightarrow> 'w agent \<Rightarrow> bool"
where
  "written t st L gs qs c s \<longleftrightarrow>
     (\<exists>X. tool_events (agent_log s) = L @ X \<and> calls_of X = calls_at t st (take (length qs) gs) qs \<and>
        results_of X = results_at t st (take c gs) (take c qs))"

definition answered :: "int \<Rightarrow> int \<Rightarrow> planned_call list \<Rightarrow> session_event list \<Rightarrow> bool" where
  "answered t st gs X \<longleftrightarrow>
     (\<exists>qs. length qs = length gs \<and> calls_of X = calls_at t st gs qs \<and> results_of X = results_at t st gs qs)"

lemma answered_append: "answered t st gs X \<Longrightarrow> answered t st hs Y \<Longrightarrow> answered t st (gs @ hs) (X @ Y)"
proof -
  assume "answered t st gs X" and "answered t st hs Y"
  then obtain qs rs where "length qs = length gs" "calls_of X = calls_at t st gs qs" "results_of X = results_at t st gs qs"
      and "length rs = length hs" "calls_of Y = calls_at t st hs rs" "results_of Y = results_at t st hs rs"
    by (auto simp: answered_def)
  then have "length (qs @ rs) = length (gs @ hs) \<and> calls_of (X @ Y) = calls_at t st (gs @ hs) (qs @ rs) \<and>
      results_of (X @ Y) = results_at t st (gs @ hs) (qs @ rs)"
    by (simp add: calls_at_def results_at_def)
  then show "answered t st (gs @ hs) (X @ Y)" unfolding answered_def by blast
qed

lemma answered_Nil [simp]: "answered t st [] []"
  by (simp add: answered_def calls_at_def results_at_def)

text \<open>Identities that are told apart whenever the log's messages tell theirs apart.\<close>

definition apart :: "planned_call list \<Rightarrow> 'w agent \<Rightarrow> bool" where
  "apart gs s \<longleftrightarrow> (calls_apart (agent_log s) \<longrightarrow> distinct (map pc_id gs))"

definition waiting :: "planned_call list \<Rightarrow> int list \<Rightarrow> nat \<Rightarrow> call_id set" where
  "waiting gs qs c = set (map pc_id (drop c (take (length qs) gs)))"

definition tooling ::
  "session_trace \<Rightarrow> planned_call list \<Rightarrow> session_event list \<Rightarrow> planned_call list \<Rightarrow> int list \<Rightarrow> nat \<Rightarrow> 'w agent \<Rightarrow> bool"
where
  "tooling p U L gs qs c s \<longleftrightarrow>
     in_step p (waiting gs qs c) s \<and> apart U s \<and>
     (distinct (map pc_id U) \<longrightarrow> distinct (map pc_id gs)) \<and>
     written (the (open_turn p)) (the (open_step p)) L gs qs c s"

lemma steady_log: "steady s t \<Longrightarrow> tool_events (agent_log t) = tool_events (agent_log s)"
  by (auto simp: steady_def tool_events_def)

lemma steady_apart: "steady s t \<Longrightarrow> apart gs s \<Longrightarrow> apart gs t"
  by (auto simp: steady_def apart_def)

lemma stable_tooling: "stable (tooling p U L gs qs c)"
  unfolding stable_def tooling_def
proof (intro allI impI)
  fix s t :: "'a agent"
  assume "in_step p (waiting gs qs c) s \<and> apart U s \<and> (distinct (map pc_id U) \<longrightarrow> distinct (map pc_id gs)) \<and>
      written (the (open_turn p)) (the (open_step p)) L gs qs c s"
    and "outside s t"
  with in_step_outside [of p "waiting gs qs c" s t]
  show "in_step p (waiting gs qs c) t \<and> apart U t \<and> (distinct (map pc_id U) \<longrightarrow> distinct (map pc_id gs)) \<and>
      written (the (open_turn p)) (the (open_step p)) L gs qs c t"
    by (auto simp: written_def steady_log intro: steady_apart)
qed

subsection \<open>The events of one call\<close>

lemma in_step_place: "in_step p ids s \<Longrightarrow> session_ok (agent_session s) \<and> last_seq p = 0"
  by (auto simp: in_step_def session_at_def)

lemma in_step_refused:
  assumes "in_step p ids s" and "append_payload env d meta s = (Inl x, s')"
  shows "in_step p {} s'"
proof -
  obtain ss where s': "s' = put_session ss s" "ss_log ss = agent_log s" "session_ok ss"
    using append_payload_refused [OF assms(2)] in_step_place [OF assms(1)] by blast
  from assms(1) s' show ?thesis by (auto simp: in_step_def session_at_def)
qed

lemma in_step_logged:
  assumes "in_step p ids s" and "append_payload env d meta s = (Inr e, s')"
    and "\<And>P. ids \<subseteq> P \<Longrightarrow> calls_apart (agent_log s) \<Longrightarrow>
           \<exists>P'. ids' \<subseteq> P' \<and> place_step (p\<lparr>pending_calls := P\<rparr>) (fst meta) (the d) = Some (p\<lparr>pending_calls := P'\<rparr>)"
  shows "in_step p ids' s'"
proof -
  obtain ss d' where run: "append_event (payload_call (env s) d meta) (agent_session s) = (Inr e, ss)"
      and s': "s' = put_session ss s" "d = Some d'" "ev_data e = d'" "ev_surface_op e = fst meta"
    using append_payload_logged [OF assms(2)] by blast
  obtain P where P: "ids \<subseteq> P" "at_place (p\<lparr>pending_calls := P\<rparr>) s"
    using assms(1) by (auto simp: in_step_def)
  obtain P' where P': "ids' \<subseteq> P'" "calls_apart (agent_log s) \<Longrightarrow>
      place_step (p\<lparr>pending_calls := P\<rparr>) (fst meta) d' = Some (p\<lparr>pending_calls := P'\<rparr>)"
    using assms(3) [OF P(1)] s'(2) by (cases "calls_apart (agent_log s)") auto
  have "session_at (p\<lparr>pending_calls := P'\<rparr>) ss"
    by (rule event_at [OF P(2) run]) (use P P' s' in \<open>auto simp: session_at_def\<close>)
  with P'(1) assms(1) s'(1) show ?thesis by (auto simp: in_step_def)
qed

text \<open>What the two events do to a position in their step.\<close>

lemma place_step_call:
  assumes "open_turn p = Some t" and "open_step p = Some st" and "last_seq p = 0"
  shows "place_step (p\<lparr>pending_calls := P\<rparr>) None (ToolCall t st c n a) = Some (p\<lparr>pending_calls := insert c P\<rparr>)"
  using assms by (simp add: place_step_def require_open_step_def apply_transition_def scalars_of_def)

lemma place_step_result:
  assumes "open_turn p = Some t" and "open_step p = Some st" and "last_seq p = 0" and "pc_id c \<in> P"
  shows "place_step (p\<lparr>pending_calls := P\<rparr>) (Some (JStr ''append'')) (result_data t st c mid out)
    = Some (p\<lparr>pending_calls := P - {pc_id c}\<rparr>)"
  using assms by (simp add: place_step_def require_open_step_def apply_transition_def scalars_of_def result_data_def Let_def)

lemma waiting_call: "c \<le> length qs \<Longrightarrow> length qs < length gs \<Longrightarrow>
    waiting gs (qs @ [q]) c = insert (pc_id (gs ! length qs)) (waiting gs qs c)"
  by (auto simp: waiting_def take_Suc_conv_app_nth)

lemma waiting_result:
  assumes "c < length qs" and "length qs \<le> length gs"
  shows "pc_id (gs ! c) \<in> waiting gs qs c"
    and "distinct (map pc_id gs) \<Longrightarrow> waiting gs qs (Suc c) \<subseteq> waiting gs qs c - {pc_id (gs ! c)}"
proof -
  have split: "drop c (take (length qs) gs) = gs ! c # drop (Suc c) (take (length qs) gs)"
    using assms by (simp add: Cons_nth_drop_Suc [symmetric])
  then show "pc_id (gs ! c) \<in> waiting gs qs c" by (simp add: waiting_def)
  assume "distinct (map pc_id gs)"
  then have "distinct (map pc_id (drop c (take (length qs) gs)))"
    by (simp add: drop_map [symmetric] take_map [symmetric] distinct_drop distinct_take)
  with split show "waiting gs qs (Suc c) \<subseteq> waiting gs qs c - {pc_id (gs ! c)}"
    by (auto simp: waiting_def)
qed

lemma tooling_refused:
  "tooling p U L gs qs c s \<Longrightarrow> append_payload env d meta s = (Inl x, s') \<Longrightarrow> in_step p {} s'"
  by (auto simp: tooling_def intro: in_step_refused)

lemma append_tool_call_triple:
  assumes p: "open_turn p = Some t" "open_step p = Some st" and n: "length qs < length gs" "c \<le> length qs"
  shows "op_triple (tooling p U L gs qs c) (append_tool_call rt t st (gs ! length qs))
    (\<lambda>q. tooling p U L gs (qs @ [q]) c) (\<lambda>_. in_step p {})"
  unfolding append_tool_call_def agent_append_def
proof (rule op_triple_bind [of _ _ "\<lambda>e. tooling p U L gs (qs @ [ev_seq e]) c"])
  let ?g = "gs ! length qs"
  let ?d = "ToolCall t st (pc_id ?g) (pc_name ?g) (pc_text ?g)"
  show "op_triple (tooling p U L gs qs c) (append_payload (tl_env rt) (Some ?d) (None, None))
      (\<lambda>e. tooling p U L gs (qs @ [ev_seq e]) c) (\<lambda>_. in_step p {})"
  proof (rule op_tripleI)
    fix s x s' assume "tooling p U L gs qs c s" and "append_payload (tl_env rt) (Some ?d) (None, None) s = (Inl x, s')"
    then show "in_step p {} s'" by (rule tooling_refused)
  next
    fix s e s' assume s: "tooling p U L gs qs c s" and run: "append_payload (tl_env rt) (Some ?d) (None, None) s = (Inr e, s')"
    from append_payload_logged [OF run] have e: "ev_data e = ?d" and log: "agent_log s' = agent_log s @ [e]"
      by auto
    have "in_step p (waiting gs (qs @ [ev_seq e]) c) s'"
    proof (rule in_step_logged [OF _ run])
      show "in_step p (waiting gs qs c) s" using s by (simp add: tooling_def)
      show "\<exists>P'. waiting gs (qs @ [ev_seq e]) c \<subseteq> P' \<and>
          place_step (p\<lparr>pending_calls := P\<rparr>) (fst (None, None)) (the (Some ?d)) = Some (p\<lparr>pending_calls := P'\<rparr>)"
        if "waiting gs qs c \<subseteq> P" for P
        using place_step_call [OF p] in_step_place [of p _ s] s that n
        by (intro exI [of _ "insert (pc_id ?g) P"]) (auto simp: tooling_def waiting_call)
    qed
    moreover have "apart U s'" and "distinct (map pc_id U) \<longrightarrow> distinct (map pc_id gs)"
        using s log by (auto simp: tooling_def apart_def)
    moreover have "written t st L gs (qs @ [ev_seq e]) c s'"
    proof -
      obtain X where X: "tool_events (agent_log s) = L @ X" "calls_of X = calls_at t st (take (length qs) gs) qs"
          "results_of X = results_at t st (take c gs) (take c qs)"
        using s p by (auto simp: tooling_def written_def)
      have "tool_events (agent_log s') = L @ X @ [e]" using log X(1) e by (simp add: tool_events_def tool_event_def)
      moreover have "calls_of (X @ [e]) = calls_at t st (take (length (qs @ [ev_seq e])) gs) (qs @ [ev_seq e])"
        using X(2) e n(1)
        by (simp add: calls_at_def take_Suc_conv_app_nth) (simp add: calls_of_def map_filter_def call_view_def)
      moreover have "results_of (X @ [e]) = results_at t st (take c gs) (take c (qs @ [ev_seq e]))"
        using X(3) e n(2) by simp (simp add: results_of_def map_filter_def result_view_def)
      ultimately show ?thesis unfolding written_def by blast
    qed
    ultimately show "tooling p U L gs (qs @ [ev_seq e]) c s'" using p by (simp add: tooling_def)
  qed
qed (auto intro: op_triple_lift)

lemma append_tool_result_triple:
  assumes p: "open_turn p = Some t" "open_step p = Some st" and n: "c < length qs" "length qs \<le> length gs"
    and mint: "polite (tl_mint rt)"
  shows "op_triple (tooling p U L gs qs c) (append_tool_result rt t st (gs ! c) out (qs ! c))
    (\<lambda>_. tooling p U L gs qs (Suc c)) (\<lambda>_. in_step p {})"
  unfolding append_tool_result_def
proof (rule op_triple_seq [OF triple_polite [OF mint stable_tooling]])
  fix x :: stop and s :: "'a agent" assume "tooling p U L gs qs c s"
  then show "in_step p {} s" by (auto simp: tooling_def intro: in_step_mono)
next
  fix mid
  let ?g = "gs ! c" let ?d = "if to_plain out then Some (result_data t st ?g mid out) else None"
  let ?m = "(Some (JStr ''append''), Some (JArr [jint (qs ! c)]))"
  show "op_triple (tooling p U L gs qs c)
      (op_bind (append_payload (tl_env rt) ?d ?m) (\<lambda>_. op_lift (Inr ())))
      (\<lambda>_. tooling p U L gs qs (Suc c)) (\<lambda>_. in_step p {})"
  proof (rule op_triple_bind [of _ _ "\<lambda>_. tooling p U L gs qs (Suc c)"])
    show "op_triple (tooling p U L gs qs c) (append_payload (tl_env rt) ?d ?m)
        (\<lambda>_. tooling p U L gs qs (Suc c)) (\<lambda>_. in_step p {})"
    proof (rule op_tripleI)
      fix s x s' assume "tooling p U L gs qs c s" and "append_payload (tl_env rt) ?d ?m s = (Inl x, s')"
      then show "in_step p {} s'" by (rule tooling_refused)
    next
      fix s e s' assume s: "tooling p U L gs qs c s" and run: "append_payload (tl_env rt) ?d ?m s = (Inr e, s')"
      from append_payload_logged [OF run] have d: "?d = Some (result_data t st ?g mid out)"
        and e: "ev_data e = result_data t st ?g mid out" "ev_surface_op e = Some (JStr ''append'')"
          "ev_sources e = Some (JArr [jint (qs ! c)])" and log: "agent_log s' = agent_log s @ [e]"
        by (auto split: if_splits)
      have "in_step p (waiting gs qs (Suc c)) s'"
      proof (rule in_step_logged [OF _ run])
        show "in_step p (waiting gs qs c) s" using s by (simp add: tooling_def)
        show "\<exists>P'. waiting gs qs (Suc c) \<subseteq> P' \<and>
            place_step (p\<lparr>pending_calls := P\<rparr>) (fst ?m) (the ?d) = Some (p\<lparr>pending_calls := P'\<rparr>)"
          if "waiting gs qs c \<subseteq> P" and "calls_apart (agent_log s)" for P
          using place_step_result [OF p, of "?g" P mid out] in_step_place [of p _ s] s that d
            waiting_result [OF n]
          by (intro exI [of _ "P - {pc_id ?g}"]) (auto simp: tooling_def apart_def)
      qed
      moreover have "apart U s'" and "distinct (map pc_id U) \<longrightarrow> distinct (map pc_id gs)"
        using s log by (auto simp: tooling_def apart_def)
      moreover have "written t st L gs qs (Suc c) s'"
      proof -
        obtain X where X: "tool_events (agent_log s) = L @ X" "calls_of X = calls_at t st (take (length qs) gs) qs"
            "results_of X = results_at t st (take c gs) (take c qs)"
          using s p by (auto simp: tooling_def written_def)
        have "tool_events (agent_log s') = L @ X @ [e]"
          using log X(1) e by (simp add: tool_events_def tool_event_def result_data_def)
        moreover have "calls_of (X @ [e]) = calls_at t st (take (length qs) gs) qs"
          using X(2) e by simp (simp add: calls_of_def map_filter_def call_view_def result_data_def)
        moreover have "results_of (X @ [e]) = results_at t st (take (Suc c) gs) (take (Suc c) qs)"
          using X(3) e n
          by (simp add: results_at_def take_Suc_conv_app_nth)
            (simp add: results_of_def map_filter_def result_view_def result_data_def)
        ultimately show ?thesis unfolding written_def by blast
      qed
      ultimately show "tooling p U L gs qs (Suc c) s'" using p by (simp add: tooling_def)
    qed
  qed (auto intro: op_triple_lift)
qed

end
