(* ===== verification/Tool_Order.thy ===== *)
theory Tool_Order
  imports Tool_Calls
begin

section \<open>Every call is answered, in order\<close>

text \<open>
  What the scheduler of \<^verbatim>\<open>tool-calls.ts\<close> guarantees, whatever the order in which dispatches
  settle: the invariant of its pool, and from it the order of the calls and results in the
  log. A scheduler that stops early leaves the log inside the step.
\<close>

subsection \<open>What the outside composes to\<close>

lemma outside_trans: "outside t u \<Longrightarrow> outside s t \<Longrightarrow> outside s u"
  by (induction rule: outside.induct) (auto intro: outside.intros)

lemma polite_bind: "polite m \<Longrightarrow> (\<And>x. polite (f x)) \<Longrightarrow> polite (op_bind m f)"
  unfolding polite_def op_bind_def
  by (auto split: prod.splits sum.splits) (metis outside_trans)+

lemma polite_lift: "polite (op_lift r)"
  by (auto simp: polite_def op_lift_def intro: outside.intros)

lemma polite_for_each: "(\<And>x. polite (f x)) \<Longrightarrow> polite (for_each f xs)"
  by (induction xs) (auto intro: polite_lift polite_bind)

lemma polite_accept: "polite (accept_context rt m)"
  unfolding accept_context_def
proof (rule polite_bind [OF _ polite_lift])
  show "polite (in_inbox (tl_env rt) (\<lambda>ie. append_message ie NextStep m))"
    unfolding polite_def
  proof (intro allI impI)
    fix s r t assume run: "in_inbox (tl_env rt) (\<lambda>ie. append_message ie NextStep m) s = (r, t)"
    then obtain q h where "append_message (inbox_env_of (tl_env rt s)) NextStep m (ag_host s) = (q, h)"
        and t: "t = s\<lparr>ag_host := h\<rparr>"
      by (auto simp: in_inbox_def split: prod.splits)
    then have "run_inbox (inbox_env_of (tl_env rt s)) (Do_Append NextStep m) (ag_host s) = (map_sum id (\<lambda>_. ()) q, h)"
      by (simp add: run_inbox_def without_value_def)
    from out_inbox [OF out_still this] t show "outside s t" by simp
  qed
qed

subsection \<open>The invariant of the pool\<close>

definition pool_ok :: "planned_call list \<Rightarrow> int list \<Rightarrow> pool \<Rightarrow> bool" where
  "pool_ok gs qs p \<longleftrightarrow>
     pl_started p = length qs \<and> length qs \<le> length gs \<and> pl_committed p \<le> length qs \<and>
     (\<forall>i < length qs. pl_seqs p i = Some (qs ! i)) \<and>
     (\<forall>i. pl_slots p i \<noteq> None \<longrightarrow> i < length qs) \<and> (\<forall>i \<in> set (pl_flight p). i < length qs) \<and>
     (\<forall>i \<in> set (pl_settled p). pl_slots p i \<noteq> None \<or> pl_failure p \<noteq> None)"

text \<open>Every call started is in flight, has its result, or a dispatch failed.\<close>

definition covered :: "nat \<Rightarrow> pool \<Rightarrow> bool" where
  "covered n p \<longleftrightarrow> (\<forall>i < n. i \<in> set (pl_flight p) \<or> pl_slots p i \<noteq> None \<or> pl_failure p \<noteq> None)"

text \<open>The next result to commit has not arrived, or arrived while its call is in flight.\<close>

definition flushed :: "pool \<Rightarrow> bool" where
  "flushed p \<longleftrightarrow> (pl_committed p < pl_started p \<longrightarrow> pl_slots p (pl_committed p) \<noteq> None \<longrightarrow>
     pl_committed p \<in> set (pl_flight p))"

definition failing :: "pool \<Rightarrow> bool" where
  "failing p \<longleftrightarrow> (pl_failure p \<noteq> None \<longrightarrow> pl_flight p \<noteq> [])"

lemmas pool_defs = pool_ok_def covered_def flushed_def failing_def

text \<open>A predicate on the agent and the pool, for some sequence numbers of the calls.\<close>

definition tooled ::
  "session_trace \<Rightarrow> planned_call list \<Rightarrow> session_event list \<Rightarrow> planned_call list \<Rightarrow> nat \<Rightarrow> (int list \<Rightarrow> pool \<Rightarrow> bool)
    \<Rightarrow> 'w agent \<times> pool \<Rightarrow> bool"
where
  "tooled pl U L gs k B sp \<longleftrightarrow>
     (\<exists>qs. tooling pl U L gs qs (pl_committed (snd sp) + k) (fst sp) \<and> B qs (snd sp))"

definition settles :: "(int list \<Rightarrow> pool \<Rightarrow> bool) \<Rightarrow> bool" where
  "settles B \<longleftrightarrow> (\<forall>qs p x. B qs p \<longrightarrow> B qs (settle_one x p))"

lemma settle_one_same [simp]:
  "pl_committed (settle_one x p) = pl_committed p" "pl_started (settle_one x p) = pl_started p"
  "pl_next (settle_one x p) = pl_next p" "pl_flight (settle_one x p) = pl_flight p"
  "pl_aborted (settle_one x p) = pl_aborted p"
  by (simp_all add: settle_one_def split: sum.splits)

lemma settle_one_ok:
  "pool_ok gs qs p \<Longrightarrow> pool_ok gs qs (settle_one x p)" "covered n p \<Longrightarrow> covered n (settle_one x p)"
  "flushed p \<Longrightarrow> flushed (settle_one x p)" "failing p \<Longrightarrow> failing (settle_one x p)"
  by (auto simp: pool_defs settle_one_def split: sum.splits if_splits)

lemma tooled_in_step: "tooled pl U L gs k B sp \<Longrightarrow> in_step pl {} (fst sp)"
  by (auto simp: tooled_def tooling_def intro: in_step_mono)

abbreviation left_in_step :: "session_trace \<Rightarrow> stop \<Rightarrow> 'w agent \<times> pool \<Rightarrow> bool" where
  "left_in_step pl x sp \<equiv> in_step pl {} (fst sp)"

lemma stable_tooled: "stable (\<lambda>s. tooled pl U L gs k B (s, p))"
  using stable_tooling unfolding stable_def tooled_def by fastforce

lemma triple_service:
  assumes "polite m"
  shows "op_triple (tooled pl U L gs k B) (on_agent m) (\<lambda>_. tooled pl U L gs k B) (left_in_step pl)"
proof (rule triple_on_agent)
  fix p
  show "op_triple (\<lambda>s. tooled pl U L gs k B (s, p)) m (\<lambda>a s. tooled pl U L gs k B (s, p)) (\<lambda>x s. left_in_step pl x (s, p))"
    by (rule op_triple_weaken [OF triple_polite [OF assms stable_tooled]]) (auto dest: tooled_in_step)
qed

lemma triple_settle:
  assumes "polite_tools rt" and "settles B"
  shows "op_triple (tooled pl U L gs k B) (settle rt) (\<lambda>_. tooled pl U L gs k B) (left_in_step pl)"
  unfolding settle_def
proof (rule triple_reading)
  fix s :: "'a agent" and p
  assume at: "tooled pl U L gs k B (s, p)"
  have fold: "tooled pl U L gs k B (s', fold settle_one xs p')" if "tooled pl U L gs k B (s', p')" for s' xs p'
    using that
  proof (induction xs arbitrary: p')
    case (Cons x xs)
    have "tooled pl U L gs k B (s', settle_one x p')"
      using Cons(2) assms(2) unfolding tooled_def settles_def by (metis fst_conv snd_conv settle_one_same(1))
    from Cons(1) [OF this] show ?case by simp
  qed simp
  show "op_triple (\<lambda>sp. sp = (s, p))
      (op_bind (on_agent (tl_settled rt (unsettled p))) (\<lambda>xs. on_pool (fold settle_one xs)))
      (\<lambda>_. tooled pl U L gs k B) (left_in_step pl)"
    by (rule triple_started_at [OF op_triple_bind [OF triple_service] at])
      (use assms(1) fold in \<open>auto simp: polite_tools_def intro!: triple_on_pool\<close>)
qed

text \<open>Nothing that settles takes the log out of its step.\<close>

lemma triple_settle_left:
  assumes "polite_tools rt"
  shows "op_triple (\<lambda>sp. in_step pl {} (fst sp)) (settle rt) (\<lambda>_ sp. in_step pl {} (fst sp)) (left_in_step pl)"
  unfolding settle_def
proof (rule triple_reading, rule op_triple_bind)
  fix s :: "'a agent" and p :: pool assume at: "in_step pl {} (fst (s, p))"
  have "polite (tl_settled rt (unsettled p))" using assms by (simp add: polite_tools_def)
  then have m: "op_triple (in_step pl {}) (tl_settled rt (unsettled p)) (\<lambda>_. in_step pl {}) (\<lambda>_. in_step pl {})"
    by (rule triple_polite [OF _ stable_in_step])
  have "op_triple (\<lambda>sp. in_step pl {} (fst sp)) (on_agent (tl_settled rt (unsettled p)))
      (\<lambda>_ sp. in_step pl {} (fst sp)) (left_in_step pl)"
    by (rule triple_on_agent) (use m in simp)
  then show "op_triple (\<lambda>sp. sp = (s, p)) (on_agent (tl_settled rt (unsettled p)))
      (\<lambda>_ sp. in_step pl {} (fst sp)) (left_in_step pl)"
    by (rule triple_started_at) (rule at)
qed (rule triple_on_pool, simp)

lemma triple_awaiting:
  assumes m: "op_triple P m (\<lambda>x. tooled pl U L gs k (B x)) (left_in_step pl)"
    and rt: "polite_tools rt" and B: "\<And>x. settles (B x)"
  shows "op_triple P (awaiting rt m) (\<lambda>x. tooled pl U L gs k (B x)) (left_in_step pl)"
proof -
  have returned: "op_triple (tooled pl U L gs k (B x)) (op_bind (settle rt) (\<lambda>_. op_lift (Inr x)))
      (\<lambda>y. tooled pl U L gs k (B y)) (left_in_step pl)" for x
    by (rule op_triple_bind [OF triple_settle [OF rt B]]) (auto intro!: op_triple_lift)
  have thrown: "op_triple (\<lambda>sp. in_step pl {} (fst sp)) (op_bind (settle rt) (\<lambda>_. op_lift (Inl (Raised e))))
      (\<lambda>y. tooled pl U L gs k (B y)) (left_in_step pl)" for e
    by (rule op_triple_bind [OF triple_settle_left [OF rt]]) (auto intro!: op_triple_lift)
  show ?thesis
  proof (rule op_tripleI)
    fix sp x sp' assume P: "P sp" and run: "awaiting rt m sp = (Inl x, sp')"
    obtain r q where q: "m sp = (r, q)" by (cases "m sp")
    show "left_in_step pl x sp'"
    proof (cases r)
      case (Inl y)
      with op_triple_throwD [OF m P] q have "in_step pl {} (fst q)" by blast
      with run q Inl op_triple_throwD [OF thrown] show ?thesis
        by (cases y) (auto simp: awaiting_def)
    next
      case (Inr y)
      with run q have "op_bind (settle rt) (\<lambda>_. op_lift (Inr y)) q = (Inl x, sp')" by (simp add: awaiting_def)
      with op_triple_throwD [OF returned] op_triple_returnD [OF m P] q Inr show ?thesis by blast
    qed
  next
    fix sp a sp' assume P: "P sp" and run: "awaiting rt m sp = (Inr a, sp')"
    obtain r q where q: "m sp = (r, q)" by (cases "m sp")
    show "tooled pl U L gs k (B a) sp'"
    proof (cases r)
      case (Inl y)
      with op_triple_throwD [OF m P] q have "in_step pl {} (fst q)" by blast
      with run q Inl op_triple_returnD [OF thrown] show ?thesis
        by (cases y) (auto simp: awaiting_def)
    next
      case (Inr y)
      with run q have "op_bind (settle rt) (\<lambda>_. op_lift (Inr y)) q = (Inr a, sp')" by (simp add: awaiting_def)
      with op_triple_returnD [OF returned] op_triple_returnD [OF m P] q Inr show ?thesis by blast
    qed
  qed
qed

lemma triple_throw:
  assumes "\<And>qs p. B qs p \<Longrightarrow> pl_failure p = None \<Longrightarrow> C qs p"
  shows "op_triple (tooled pl U L gs k B) throw_scheduler_failure (\<lambda>_. tooled pl U L gs k C) (left_in_step pl)"
  unfolding throw_scheduler_failure_def
proof (rule triple_reading)
  fix s p assume at: "tooled pl U L gs k B (s, p)"
  show "op_triple (\<lambda>sp. sp = (s, p)) (op_lift (case pl_failure p of None \<Rightarrow> Inr () | Some e \<Rightarrow> Inl (Raised e)))
      (\<lambda>_. tooled pl U L gs k C) (left_in_step pl)"
    by (rule op_triple_lift)
      (use at assms tooled_in_step [OF at] in \<open>auto simp: tooled_def split: option.splits\<close>)
qed

lemma triple_change:
  assumes "\<And>qs p. B qs p \<Longrightarrow> C qs (f p) \<and> pl_committed (f p) + j = pl_committed p + k"
  shows "op_triple (tooled pl U L gs k B) (on_pool f) (\<lambda>_. tooled pl U L gs j C) (left_in_step pl)"
proof (rule triple_on_pool)
  fix s p assume "tooled pl U L gs k B (s, p)"
  then obtain qs where "tooling pl U L gs qs (pl_committed p + k) s" and B: "B qs p" by (auto simp: tooled_def)
  with assms [OF B] show "tooled pl U L gs j C (s, f p)" by (auto simp: tooled_def)
qed

lemma triple_tooled_weaken:
  "op_triple P m (\<lambda>x. tooled pl U L gs k (B x)) E \<Longrightarrow> (\<And>x qs p. B x qs p \<Longrightarrow> C x qs p) \<Longrightarrow>
   op_triple P m (\<lambda>x. tooled pl U L gs k (C x)) E"
  by (erule op_triple_weaken) (auto simp: tooled_def)

subsection \<open>Committing results\<close>

text \<open>Between the loops of the scheduler, and while results are committed.\<close>

definition busy :: "planned_call list \<Rightarrow> int list \<Rightarrow> pool \<Rightarrow> bool" where
  "busy gs qs p \<longleftrightarrow> pool_ok gs qs p \<and> covered (length qs) p \<and> failing p \<and> pl_next p = length qs"

definition rested :: "planned_call list \<Rightarrow> int list \<Rightarrow> pool \<Rightarrow> bool" where
  "rested gs qs p \<longleftrightarrow> busy gs qs p \<and> flushed p"

lemma settles_busy [simp]: "settles (busy gs)" "settles (rested gs)"
  "settles (\<lambda>qs p. busy gs qs p \<and> pl_committed p < length qs \<and> pl_committed p + k = n)"
  by (auto simp: settles_def busy_def rested_def settle_one_ok)

lemma triple_commit_one:
  assumes p: "open_turn pl = Some t" "open_step pl = Some st" and rt: "polite_tools rt" and c: "c < length gs"
  shows "op_triple (tooled pl U L gs 0 (\<lambda>qs p. busy gs qs p \<and> pl_committed p < length qs \<and> pl_committed p = c \<and> qs ! c = n))
    (commit_one rt t st (gs ! c) n slot)
    (\<lambda>_. tooled pl U L gs 0 (\<lambda>qs p. busy gs qs p \<and> pl_committed p = Suc c)) (left_in_step pl)"
proof -
  let ?B = "\<lambda>qs p. busy gs qs p \<and> pl_committed p < length qs \<and> pl_committed p = c \<and> qs ! c = n"
  have sB: "settles ?B" by (auto simp: settles_def busy_def settle_one_ok)
  have result: "op_triple (tooled pl U L gs 0 ?B) (on_agent (append_tool_result rt t st (gs ! c) out n))
      (\<lambda>_. tooled pl U L gs 1 ?B) (left_in_step pl)" for out
  proof (rule op_tripleI)
    fix sp x sp' assume at: "tooled pl U L gs 0 ?B sp" and run: "on_agent (append_tool_result rt t st (gs ! c) out n) sp = (Inl x, sp')"
    obtain s q where sp: "sp = (s, q)" by fastforce
    with at obtain qs where t: "tooling pl U L gs qs c s" and B: "?B qs q" by (auto simp: tooled_def)
    from run sp obtain s' where "append_tool_result rt t st (gs ! c) out n s = (Inl x, s')" "sp' = (s', q)"
      by (auto simp: on_agent_def split: prod.splits)
    with op_triple_throwD [OF append_tool_result_triple [OF p, of c qs gs rt U L out] t] B rt
    show "left_in_step pl x sp'" by (auto simp: busy_def pool_ok_def polite_tools_def)
  next
    fix sp a sp' assume at: "tooled pl U L gs 0 ?B sp" and run: "on_agent (append_tool_result rt t st (gs ! c) out n) sp = (Inr a, sp')"
    obtain s q where sp: "sp = (s, q)" by fastforce
    with at obtain qs where t: "tooling pl U L gs qs c s" and B: "?B qs q" by (auto simp: tooled_def)
    from run sp obtain s' where "append_tool_result rt t st (gs ! c) out n s = (Inr a, s')" "sp' = (s', q)"
      by (auto simp: on_agent_def split: prod.splits)
    with op_triple_returnD [OF append_tool_result_triple [OF p, of c qs gs rt U L out] t] B rt
    show "tooled pl U L gs 1 ?B sp'" by (auto simp: busy_def pool_ok_def polite_tools_def tooled_def)
  qed
  have final: "op_triple (tooled pl U L gs 0 ?B)
      (if snd slot then awaiting rt (on_agent (tl_finalize rt (pc_exec (gs ! c)) (fst slot)))
       else on_agent (tl_finish rt (pc_exec (gs ! c)) (fst slot)))
      (\<lambda>_. tooled pl U L gs 0 ?B) (left_in_step pl)"
    using rt sB by (auto simp: polite_tools_def intro!: triple_awaiting [where B = "\<lambda>_. ?B"] triple_service)
  show ?thesis
    unfolding commit_one_def
    by (rule op_triple_bind [OF final], rule op_triple_bind [OF result],
        rule op_triple_bind [OF triple_service [OF polite_for_each [OF polite_accept]]],
        rule triple_change) (auto simp: busy_def pool_defs)
qed

lemma triple_commit_ready:
  assumes p: "open_turn pl = Some t" "open_step pl = Some st" and rt: "polite_tools rt"
  shows "op_triple (tooled pl U L gs 0 (\<lambda>qs p. busy gs qs p \<and> length gs \<le> pl_committed p + k))
    (commit_ready rt t st gs k) (\<lambda>_. tooled pl U L gs 0 (rested gs)) (left_in_step pl)"
proof (induction k)
  case 0
  show ?case
    by (auto simp: tooled_def rested_def busy_def pool_ok_def flushed_def intro!: op_triple_lift)
next
  case (Suc k)
  show ?case
  proof (subst commit_ready.simps, rule triple_reading)
    fix s :: "'a agent" and q
    assume at: "tooled pl U L gs 0 (\<lambda>qs p. busy gs qs p \<and> length gs \<le> pl_committed p + Suc k) (s, q)"
    then obtain qs where t: "tooling pl U L gs qs (pl_committed q) s" and B: "busy gs qs q" "length gs \<le> pl_committed q + Suc k"
      by (auto simp: tooled_def)
    let ?c = "pl_committed q"
    show "op_triple (\<lambda>sp. sp = (s, q))
        (if length gs \<le> ?c then op_lift (Inr ())
         else case pl_slots q ?c of None \<Rightarrow> op_lift (Inr ())
           | Some slot \<Rightarrow> op_bind (commit_one rt t st (gs ! ?c) (call_seq q ?c) slot) (\<lambda>_. commit_ready rt t st gs k))
        (\<lambda>_. tooled pl U L gs 0 (rested gs)) (left_in_step pl)"
    proof (cases "length gs \<le> ?c \<or> pl_slots q ?c = None")
      case True
      then have "rested gs qs q" using B by (auto simp: rested_def busy_def pool_ok_def flushed_def)
      with t have "tooled pl U L gs 0 (rested gs) (s, q)" by (auto simp: tooled_def)
      with True show ?thesis by (auto intro!: op_triple_lift)
    next
      case False
      then obtain slot where slot: "pl_slots q ?c = Some slot" and c: "?c < length gs" by auto
      from slot B have n: "?c < length qs" "call_seq q ?c = qs ! ?c"
        by (auto simp: busy_def pool_ok_def call_seq_def)
      have "op_triple (\<lambda>sp. sp = (s, q)) (op_bind (commit_one rt t st (gs ! ?c) (call_seq q ?c) slot) (\<lambda>_. commit_ready rt t st gs k))
          (\<lambda>_. tooled pl U L gs 0 (rested gs)) (left_in_step pl)"
      proof (rule triple_started_at [OF op_triple_bind [OF triple_commit_one [OF p rt c] op_triple_weaken [OF Suc]]])
        show "tooled pl U L gs 0 (\<lambda>qs p. busy gs qs p \<and> pl_committed p < length qs \<and> pl_committed p = ?c \<and> qs ! ?c = call_seq q ?c) (s, q)"
          using t B n by (auto simp: tooled_def)
        show "tooled pl U L gs 0 (\<lambda>qs p. busy gs qs p \<and> length gs \<le> pl_committed p + k) sp"
          if "tooled pl U L gs 0 (\<lambda>qs p. busy gs qs p \<and> pl_committed p = Suc ?c) sp" for sp
          using that B by (auto simp: tooled_def)
      qed auto
      with False slot show ?thesis by simp
    qed
  qed
qed

subsection \<open>Starting calls\<close>

text \<open>One call more has been recorded and started; \<open>k\<close> calls are accounted for.\<close>

definition starting :: "planned_call list \<Rightarrow> nat \<Rightarrow> int list \<Rightarrow> pool \<Rightarrow> bool" where
  "starting gs i qs p \<longleftrightarrow> pool_ok gs qs p \<and> length qs = Suc i \<and> pl_next p = i \<and> covered i p \<and> failing p"

definition started_one :: "planned_call list \<Rightarrow> nat \<Rightarrow> int list \<Rightarrow> pool \<Rightarrow> bool" where
  "started_one gs i qs p \<longleftrightarrow> starting gs i qs p \<and> covered (Suc i) p"

lemma settles_starting [simp]: "settles (starting gs i)" "settles (started_one gs i)"
  by (auto simp: settles_def starting_def started_one_def settle_one_ok)

lemma triple_record_call:
  assumes p: "open_turn pl = Some t" "open_step pl = Some st" and i: "i < length gs"
  shows "op_triple (tooled pl U L gs 0 (\<lambda>qs p. rested gs qs p \<and> pl_next p = i))
    (op_bind (on_agent (append_tool_call rt t st (gs ! i)))
       (\<lambda>n. on_pool (\<lambda>p. p\<lparr>pl_seqs := (pl_seqs p)(i \<mapsto> n), pl_started := pl_started p + 1\<rparr>)))
    (\<lambda>_. tooled pl U L gs 0 (starting gs i)) (left_in_step pl)"
proof -
  let ?B = "\<lambda>qs p. rested gs qs p \<and> pl_next p = i"
  let ?C = "\<lambda>n sp. \<exists>qs. tooling pl U L gs (qs @ [n]) (pl_committed (snd sp)) (fst sp) \<and> ?B qs (snd sp)"
  have "op_triple (tooled pl U L gs 0 ?B) (on_agent (append_tool_call rt t st (gs ! i))) ?C (left_in_step pl)"
  proof (rule op_tripleI)
    fix sp x sp' assume at: "tooled pl U L gs 0 ?B sp" and run: "on_agent (append_tool_call rt t st (gs ! i)) sp = (Inl x, sp')"
    obtain s q where sp: "sp = (s, q)" by fastforce
    with at obtain qs where t: "tooling pl U L gs qs (pl_committed q) s" and B: "?B qs q" by (auto simp: tooled_def)
    from run sp obtain s' where r: "append_tool_call rt t st (gs ! i) s = (Inl x, s')" "sp' = (s', q)"
      by (auto simp: on_agent_def split: prod.splits)
    have i': "i = length qs" "pl_committed q \<le> length qs" using B by (auto simp: rested_def busy_def pool_ok_def)
    from op_triple_throwD [OF append_tool_call_triple [OF p, of qs gs "pl_committed q" U L rt] t] r i i'
    show "left_in_step pl x sp'" by auto
  next
    fix sp n sp' assume at: "tooled pl U L gs 0 ?B sp" and run: "on_agent (append_tool_call rt t st (gs ! i)) sp = (Inr n, sp')"
    obtain s q where sp: "sp = (s, q)" by fastforce
    with at obtain qs where t: "tooling pl U L gs qs (pl_committed q) s" and B: "?B qs q" by (auto simp: tooled_def)
    from run sp obtain s' where r: "append_tool_call rt t st (gs ! i) s = (Inr n, s')" "sp' = (s', q)"
      by (auto simp: on_agent_def split: prod.splits)
    have i': "i = length qs" "pl_committed q \<le> length qs" using B by (auto simp: rested_def busy_def pool_ok_def)
    from op_triple_returnD [OF append_tool_call_triple [OF p, of qs gs "pl_committed q" U L rt] t] r i i' B
    show "?C n sp'" by auto
  qed
  moreover have "op_triple (?C n) (on_pool (\<lambda>p. p\<lparr>pl_seqs := (pl_seqs p)(i \<mapsto> n), pl_started := pl_started p + 1\<rparr>))
      (\<lambda>_. tooled pl U L gs 0 (starting gs i)) (left_in_step pl)" for n
  proof (rule triple_on_pool)
    fix s p assume "?C n (s, p)"
    then obtain qs where t: "tooling pl U L gs (qs @ [n]) (pl_committed p) s" and B: "rested gs qs p" "pl_next p = i"
      by auto
    then have "starting gs i (qs @ [n]) (p\<lparr>pl_seqs := (pl_seqs p)(i \<mapsto> n), pl_started := pl_started p + 1\<rparr>)"
      using i by (auto simp: starting_def rested_def busy_def pool_defs nth_append less_Suc_eq)
    with t show "tooled pl U L gs 0 (starting gs i) (s, p\<lparr>pl_seqs := (pl_seqs p)(i \<mapsto> n), pl_started := pl_started p + 1\<rparr>)"
      by (auto simp: tooled_def)
  qed
  ultimately show ?thesis by (rule op_triple_bind)
qed

lemma op_bind_assoc: "op_bind (op_bind m f) g = op_bind m (\<lambda>x. op_bind (f x) g)"
  by (auto simp: op_bind_def fun_eq_iff split: prod.splits sum.splits)

lemma triple_start_call:
  assumes p: "open_turn pl = Some t" "open_step pl = Some st" and rt: "polite_tools rt" and i: "i < length gs"
  shows "op_triple (tooled pl U L gs 0 (\<lambda>qs p. rested gs qs p \<and> pl_next p = i))
    (start_call rt t st (gs ! i) i) (\<lambda>_. tooled pl U L gs 0 (started_one gs i)) (left_in_step pl)"
proof -
  have prep: "op_triple (tooled pl U L gs 0 (starting gs i)) (awaiting rt (on_agent (tl_prepare rt (pc_exec (gs ! i)))))
      (\<lambda>_. tooled pl U L gs 0 (starting gs i)) (left_in_step pl)"
    using rt by (intro triple_awaiting [where B = "\<lambda>_. starting gs i"] triple_service) (auto simp: polite_tools_def)
  have dispatch: "op_triple (tooled pl U L gs 0 (starting gs i))
      (op_bind (on_agent (tl_dispatch rt (pc_exec (gs ! i)))) (\<lambda>_. on_pool (\<lambda>p. p\<lparr>pl_flight := pl_flight p @ [i]\<rparr>)))
      (\<lambda>_. tooled pl U L gs 0 (started_one gs i)) (left_in_step pl)"
    using rt by (intro op_triple_bind [OF triple_service] triple_change)
      (auto simp: polite_tools_def starting_def started_one_def pool_defs elim!: less_SucE)
  have early: "op_triple (tooled pl U L gs 0 (starting gs i)) (on_pool (\<lambda>p. p\<lparr>pl_slots := (pl_slots p)(i \<mapsto> x)\<rparr>))
      (\<lambda>_. tooled pl U L gs 0 (started_one gs i)) (left_in_step pl)" for x
    by (intro triple_change) (auto simp: starting_def started_one_def pool_defs elim!: less_SucE)
  show ?thesis
    unfolding start_call_def
    by (rule op_triple_bind [OF triple_record_call [OF p i, of U L rt], unfolded op_bind_assoc],
        rule op_triple_bind [OF prep], rule op_triple_bind [OF triple_throw [where C = "starting gs i"]])
      (use dispatch early in \<open>auto split: prepared_call.split\<close>)
qed

lemma triple_note_abort:
  assumes "\<And>qs p. B qs p \<Longrightarrow> B qs (p\<lparr>pl_aborted := True\<rparr>)"
  shows "op_triple (tooled pl U L gs 0 B) note_abort (\<lambda>_. tooled pl U L gs 0 B) (left_in_step pl)"
  unfolding note_abort_def
proof (rule triple_reading)
  fix s :: "'a agent" and p
  assume at: "tooled pl U L gs 0 B (s, p)"
  have "op_triple (tooled pl U L gs 0 B) (on_pool (\<lambda>p. p\<lparr>pl_aborted := True\<rparr>)) (\<lambda>_. tooled pl U L gs 0 B) (left_in_step pl)"
    by (rule triple_change) (use assms in auto)
  then have on: "op_triple (\<lambda>sp. sp = (s, p)) (on_pool (\<lambda>p. p\<lparr>pl_aborted := True\<rparr>)) (\<lambda>_. tooled pl U L gs 0 B) (left_in_step pl)"
    using at by (rule triple_started_at)
  show "op_triple (\<lambda>sp. sp = (s, p))
      (if phase_abort (ag_phase s) \<noteq> None then on_pool (\<lambda>p. p\<lparr>pl_aborted := True\<rparr>) else op_lift (Inr ()))
      (\<lambda>_. tooled pl U L gs 0 B) (left_in_step pl)"
  proof (cases "phase_abort (ag_phase s) = None")
    case True
    with at show ?thesis by (auto intro!: op_triple_lift)
  qed (use on in simp)
qed

lemma rested_abort [simp]: "rested gs qs (p\<lparr>pl_aborted := b\<rparr>) = rested gs qs p"
  by (simp add: rested_def busy_def pool_defs)

text \<open>What follows the start or the race: results are committed and the abort noted.\<close>

lemma triple_commit_note:
  assumes p: "open_turn pl = Some t" "open_step pl = Some st" and rt: "polite_tools rt"
    and rest: "op_triple (tooled pl U L gs 0 (rested gs)) m Q (left_in_step pl)"
  shows "op_triple (tooled pl U L gs 0 (busy gs))
    (op_bind (awaiting rt (commit_ready rt t st gs (length gs)))
       (\<lambda>_. op_bind throw_scheduler_failure (\<lambda>_. op_bind note_abort (\<lambda>_. m)))) Q (left_in_step pl)"
proof -
  have commit: "op_triple (tooled pl U L gs 0 (busy gs)) (commit_ready rt t st gs (length gs))
      (\<lambda>_. tooled pl U L gs 0 (rested gs)) (left_in_step pl)"
    by (rule op_triple_weaken [OF triple_commit_ready [OF p rt]]) (auto simp: tooled_def)
  show ?thesis
    by (rule op_triple_bind [OF triple_awaiting [OF commit rt]], simp,
        rule op_triple_bind [OF triple_throw], assumption,
        rule op_triple_bind [OF triple_note_abort rest], simp)
qed

lemma triple_fill_pool:
  assumes p: "open_turn pl = Some t" "open_step pl = Some st" and rt: "polite_tools rt"
  shows "op_triple (tooled pl U L gs 0 (rested gs)) (fill_pool rt t st gs parallel limit k)
    (\<lambda>_. tooled pl U L gs 0 (rested gs)) (left_in_step pl)"
proof (induction k)
  case 0
  show ?case by (auto intro!: op_triple_lift)
next
  case (Suc k)
  show ?case
  proof (subst fill_pool.simps, rule triple_reading)
    fix s :: "'a agent" and q
    assume at: "tooled pl U L gs 0 (rested gs) (s, q)"
    let ?i = "pl_next q"
    let ?go = "op_bind (awaiting rt (start_call rt t st (gs ! ?i) ?i))
      (\<lambda>_. op_bind (on_pool (\<lambda>p. p\<lparr>pl_next := pl_next p + 1\<rparr>))
        (\<lambda>_. op_bind throw_scheduler_failure
          (\<lambda>_. op_bind (awaiting rt (commit_ready rt t st gs (length gs)))
            (\<lambda>_. op_bind throw_scheduler_failure (\<lambda>_. op_bind note_abort (\<lambda>_. fill_pool rt t st gs parallel limit k))))))"
    show "op_triple (\<lambda>sp. sp = (s, q))
        (if pl_aborted q \<or> length gs \<le> ?i \<or> limit \<le> length (pl_flight q) \<or>
            0 < ?i \<and> parallel \<and> \<not> tl_parallel rt s (pc_exec (gs ! ?i))
         then op_lift (Inr ()) else ?go) (\<lambda>_. tooled pl U L gs 0 (rested gs)) (left_in_step pl)"
    proof (cases "?i < length gs")
      case True
      have start: "op_triple (tooled pl U L gs 0 (\<lambda>qs p. rested gs qs p \<and> pl_next p = ?i))
          (awaiting rt (start_call rt t st (gs ! ?i) ?i)) (\<lambda>_. tooled pl U L gs 0 (started_one gs ?i)) (left_in_step pl)"
        by (rule triple_awaiting [OF triple_start_call [OF p rt True] rt]) simp
      have "op_triple (\<lambda>sp. sp = (s, q)) ?go (\<lambda>_. tooled pl U L gs 0 (rested gs)) (left_in_step pl)"
        by (rule triple_started_at [OF op_triple_bind [OF start op_triple_bind [OF triple_change [where C = "busy gs" and j = 0]
                op_triple_bind [OF triple_throw triple_commit_note [OF p rt Suc]]]]])
          (use at in \<open>auto simp: tooled_def started_one_def starting_def busy_def pool_defs\<close>)
      with at show ?thesis by (auto intro!: op_triple_lift)
    next
      case False
      with at show ?thesis by (auto intro!: op_triple_lift)
    qed
  qed
qed

subsection \<open>Draining the pool\<close>

lemma triple_race:
  assumes rt: "polite_tools rt"
  shows "op_triple (tooled pl U L gs 0 (rested gs)) (race rt)
    (\<lambda>i. tooled pl U L gs 0 (\<lambda>qs p. rested gs qs p \<and> i \<in> set (pl_settled p))) (left_in_step pl)"
  unfolding race_def
proof (rule op_triple_bind [of _ _ "\<lambda>_. tooled pl U L gs 0 (rested gs)"])
  show "op_triple (tooled pl U L gs 0 (rested gs)) (reading (\<lambda>s p. awaiting rt (on_agent (tl_race rt (pl_flight p)))))
      (\<lambda>_. tooled pl U L gs 0 (rested gs)) (left_in_step pl)"
  proof (rule triple_reading)
    fix s :: "'a agent" and q
    assume at: "tooled pl U L gs 0 (rested gs) (s, q)"
    show "op_triple (\<lambda>sp. sp = (s, q)) (awaiting rt (on_agent (tl_race rt (pl_flight q))))
        (\<lambda>_. tooled pl U L gs 0 (rested gs)) (left_in_step pl)"
      by (rule triple_started_at [OF triple_awaiting [where B = "\<lambda>_. rested gs", OF triple_service] at])
        (use rt in \<open>auto simp: polite_tools_def\<close>)
  qed
next
  fix i
  show "op_triple (tooled pl U L gs 0 (rested gs))
      (reading (\<lambda>s p. op_lift (if i \<in> set (pl_flight p) \<and> i \<in> set (pl_settled p) then Inr i else Inl Suspended))
         :: ('a, nat) pool_op)
      (\<lambda>i. tooled pl U L gs 0 (\<lambda>qs p. rested gs qs p \<and> i \<in> set (pl_settled p))) (left_in_step pl)"
  proof (rule triple_reading)
    fix s :: "'a agent" and q
    assume at: "tooled pl U L gs 0 (rested gs) (s, q)"
    show "op_triple (\<lambda>sp. sp = (s, q))
        (op_lift (if i \<in> set (pl_flight q) \<and> i \<in> set (pl_settled q) then Inr i else Inl Suspended))
        (\<lambda>i. tooled pl U L gs 0 (\<lambda>qs p. rested gs qs p \<and> i \<in> set (pl_settled p))) (left_in_step pl)"
      using at tooled_in_step [OF at] by (auto intro!: op_triple_lift simp: tooled_def split: if_splits)
  qed
qed

text \<open>A call taken out of the pool has its result or has failed, and a failure is thrown.\<close>

definition taken_out :: "planned_call list \<Rightarrow> int list \<Rightarrow> pool \<Rightarrow> bool" where
  "taken_out gs qs p \<longleftrightarrow> pool_ok gs qs p \<and> covered (length qs) p \<and> pl_next p = length qs"

definition drained :: "planned_call list \<Rightarrow> int list \<Rightarrow> pool \<Rightarrow> bool" where
  "drained gs qs p \<longleftrightarrow> rested gs qs p \<and> pl_flight p = []"

lemma drained_committed: "drained gs qs p \<Longrightarrow> pl_committed p = length qs \<and> pl_started p = length qs"
  by (auto simp: drained_def rested_def busy_def pool_defs) (metis le_neq_implies_less option.distinct(1))

lemma settles_drained [simp]: "settles (drained gs)"
  by (auto simp: settles_def drained_def rested_def busy_def settle_one_ok)

lemma triple_pool_loop:
  assumes p: "open_turn pl = Some t" "open_step pl = Some st" and rt: "polite_tools rt"
  shows "op_triple (tooled pl U L gs 0 (rested gs)) (pool_loop rt t st gs parallel limit k)
    (\<lambda>_. tooled pl U L gs 0 (drained gs)) (left_in_step pl)"
proof (induction k)
  case 0
  show ?case
  proof (subst pool_loop.simps, rule triple_reading)
    fix s :: "'a agent" and q
    assume at: "tooled pl U L gs 0 (rested gs) (s, q)"
    then show "op_triple (\<lambda>sp. sp = (s, q)) (op_lift (if pl_flight q = [] then Inr () else Inl Suspended))
        (\<lambda>_. tooled pl U L gs 0 (drained gs)) (left_in_step pl)"
      using tooled_in_step [OF at] by (auto intro!: op_triple_lift simp: tooled_def drained_def split: if_splits)
  qed
next
  case (Suc k)
  show ?case
  proof (subst pool_loop.simps, rule triple_reading)
    fix s :: "'a agent" and q
    assume at: "tooled pl U L gs 0 (rested gs) (s, q)"
    let ?m = "op_bind (awaiting rt (fill_pool rt t st gs parallel limit (length gs)))
      (\<lambda>_. pool_loop rt t st gs parallel limit k)"
    let ?go = "op_bind (race rt)
      (\<lambda>i. op_bind (on_pool (\<lambda>p. p\<lparr>pl_flight := remove1 i (pl_flight p)\<rparr>))
        (\<lambda>_. op_bind throw_scheduler_failure
          (\<lambda>_. op_bind (awaiting rt (commit_ready rt t st gs (length gs)))
            (\<lambda>_. op_bind throw_scheduler_failure (\<lambda>_. op_bind note_abort (\<lambda>_. ?m))))))"
    have fill: "op_triple (tooled pl U L gs 0 (rested gs)) ?m (\<lambda>_. tooled pl U L gs 0 (drained gs)) (left_in_step pl)"
      by (rule op_triple_bind [OF triple_awaiting [where B = "\<lambda>_. rested gs", OF triple_fill_pool [OF p rt] rt] Suc]) simp
    have take: "taken_out gs qs (p\<lparr>pl_flight := remove1 i (pl_flight p)\<rparr>)"
      if "rested gs qs p \<and> i \<in> set (pl_settled p)" for qs p i
      using that by (auto simp: taken_out_def rested_def busy_def pool_ok_def covered_def dest: notin_set_remove1)
        (metis in_set_remove1 option.distinct(1))+
    have thrown: "busy gs qs p" if "taken_out gs qs p" "pl_failure p = None" for qs p
      using that by (simp add: taken_out_def busy_def failing_def)
    have "op_triple (tooled pl U L gs 0 (rested gs)) ?go (\<lambda>_. tooled pl U L gs 0 (drained gs)) (left_in_step pl)"
      by (rule op_triple_bind [OF triple_race [OF rt]],
          rule op_triple_bind [OF triple_change [where C = "taken_out gs" and j = 0]],
          (use take in simp),
          rule op_triple_bind [OF triple_throw [where C = "busy gs"] triple_commit_note [OF p rt fill]])
        (use thrown in auto)
    then have go: "op_triple (\<lambda>sp. sp = (s, q)) ?go (\<lambda>_. tooled pl U L gs 0 (drained gs)) (left_in_step pl)"
      using at by (rule triple_started_at)
    show "op_triple (\<lambda>sp. sp = (s, q)) (if pl_flight q = [] then op_lift (Inr ()) else ?go)
        (\<lambda>_. tooled pl U L gs 0 (drained gs)) (left_in_step pl)"
    proof (cases "pl_flight q = []")
      case True
      with at show ?thesis by (auto intro!: op_triple_lift simp: tooled_def drained_def)
    qed (use go in simp)
  qed
qed

lemma triple_run_pool:
  assumes p: "open_turn pl = Some t" "open_step pl = Some st" and rt: "polite_tools rt"
  shows "op_triple (tooled pl U L gs 0 (rested gs)) (run_pool rt t st gs parallel limit)
    (\<lambda>_. tooled pl U L gs 0 (drained gs)) (left_in_step pl)"
proof -
  let ?body = "op_bind (awaiting rt (fill_pool rt t st gs parallel limit (length gs)))
    (\<lambda>_. pool_loop rt t st gs parallel limit (length gs))"
  have body: "op_triple (tooled pl U L gs 0 (rested gs)) ?body (\<lambda>_. tooled pl U L gs 0 (drained gs)) (left_in_step pl)"
    by (rule op_triple_bind [OF triple_awaiting [where B = "\<lambda>_. rested gs", OF triple_fill_pool [OF p rt] rt]
          triple_pool_loop [OF p rt]]) simp
  have drain: "in_step pl {} s' \<Longrightarrow> op_bind (on_agent (tl_drain rt is)) (\<lambda>_. op_lift (Inl z)) (s', q') = (r, sp')
      \<Longrightarrow> in_step pl {} (fst sp') \<and> (\<exists>x. r = Inl x)" for s' q' "is" z r sp' and y :: unit
  proof -
    assume s': "in_step pl {} s'" and run: "op_bind (on_agent (tl_drain rt is)) (\<lambda>_. op_lift (Inl z)) (s', q') = (r, sp')"
    obtain w s'' where w: "tl_drain rt is s' = (w, s'')" by fastforce
    with rt have "outside s' s''" by (auto simp: polite_tools_def polite_def)
    with s' have "in_step pl {} s''" using in_step_outside by blast
    with run w show ?thesis
      by (cases w) (auto simp: op_bind_def on_agent_def op_lift_def)
  qed
  show ?thesis
  proof (rule op_tripleI)
    fix sp x sp' assume at: "tooled pl U L gs 0 (rested gs) sp" and run: "run_pool rt t st gs parallel limit sp = (Inl x, sp')"
    obtain r s' q' where b: "?body sp = (r, s', q')" by (cases "?body sp") auto
    show "left_in_step pl x sp'"
    proof (cases r)
      case (Inl y)
      with op_triple_throwD [OF body at] b have s': "in_step pl {} s'" by fastforce
      show ?thesis
      proof (cases y)
        case Suspended
        with run b Inl s' show ?thesis by (cases sp') (simp add: run_pool_def)
      next
        case (Raised e)
        then have "op_bind (on_agent (tl_drain rt (pl_flight q')))
            (\<lambda>_. op_lift (Inl (Raised (case pl_failure q' of None \<Rightarrow> e | Some e \<Rightarrow> e))) :: ('a, unit) pool_op) (s', q') = (Inl x, sp')"
          using run b Inl by (simp add: run_pool_def)
        from drain [OF s' this] show ?thesis by simp
      qed
    next
      case (Inr u)
      with run b show ?thesis by (simp add: run_pool_def)
    qed
  next
    fix sp a sp' assume at: "tooled pl U L gs 0 (rested gs) sp" and run: "run_pool rt t st gs parallel limit sp = (Inr a, sp')"
    obtain r s' q' where b: "?body sp = (r, s', q')" by (cases "?body sp") auto
    show "tooled pl U L gs 0 (drained gs) sp'"
    proof (cases r)
      case (Inl y)
      with op_triple_throwD [OF body at] b have s': "in_step pl {} s'" by fastforce
      show ?thesis
      proof (cases y)
        case Suspended
        with run b Inl show ?thesis by (simp add: run_pool_def)
      next
        case (Raised e)
        then have "op_bind (on_agent (tl_drain rt (pl_flight q')))
            (\<lambda>_. op_lift (Inl (Raised (case pl_failure q' of None \<Rightarrow> e | Some e \<Rightarrow> e))) :: ('a, unit) pool_op) (s', q') = (Inr a, sp')"
          using run b Inl by (simp add: run_pool_def)
        from drain [OF s' this] show ?thesis by simp
      qed
    next
      case (Inr u)
      with run b op_triple_returnD [OF body at] show ?thesis by (fastforce simp: run_pool_def)
    qed
  qed
qed

subsection \<open>Groups\<close>

text \<open>The first \<open>n\<close> calls have been recorded and answered after the tool events \<open>L\<close>.\<close>

definition served ::
  "session_trace \<Rightarrow> planned_call list \<Rightarrow> session_event list \<Rightarrow> planned_call list \<Rightarrow> nat \<Rightarrow> 'w agent \<Rightarrow> bool"
where
  "served pl U L gs n s \<longleftrightarrow> in_step pl {} s \<and> apart U s \<and> (distinct (map pc_id U) \<longrightarrow> distinct (map pc_id gs)) \<and>
     (\<exists>X. tool_events (agent_log s) = L @ X \<and>
        answered (the (open_turn pl)) (the (open_step pl)) (take n gs) X)"

lemma tooling_served:
  assumes "tooling pl U L gs qs (length qs) s" and "length qs \<le> length gs"
  shows "served pl U L gs (length qs) s"
proof -
  let ?t = "the (open_turn pl)" and ?st = "the (open_step pl)"
  obtain X where X: "tool_events (agent_log s) = L @ X" "calls_of X = calls_at ?t ?st (take (length qs) gs) qs"
      "results_of X = results_at ?t ?st (take (length qs) gs) qs"
    using assms(1) by (auto simp: tooling_def written_def)
  then have "answered ?t ?st (take (length qs) gs) X"
    unfolding answered_def using assms(2) by (intro exI [of _ qs]) simp
  with X assms(1) show ?thesis by (auto simp: served_def tooling_def intro: in_step_mono)
qed

lemma served_batch:
  assumes "served pl U L gs n s"
  obtains X where "tooling pl U (L @ X) (take m (drop n gs)) [] 0 s"
    and "tool_events (agent_log s) = L @ X"
    and "answered (the (open_turn pl)) (the (open_step pl)) (take n gs) X"
proof -
  obtain X where X: "tool_events (agent_log s) = L @ X"
      "answered (the (open_turn pl)) (the (open_step pl)) (take n gs) X"
    using assms by (auto simp: served_def)
  moreover have "tooling pl U (L @ X) (take m (drop n gs)) [] 0 s"
    using assms X
    by (simp add: served_def tooling_def written_def waiting_def calls_at_def results_at_def
        drop_map [symmetric] take_map [symmetric] distinct_drop distinct_take)
  ultimately show ?thesis by (rule that(1) [rotated])
qed

lemma served_drop:
  assumes "served pl U L gs n s"
  obtains X where "tooling pl U (L @ X) (drop n gs) [] 0 s"
    and "answered (the (open_turn pl)) (the (open_step pl)) (take n gs) X"
  using served_batch [OF assms, of "length gs"] by (metis length_drop take_all diff_le_self)

text \<open>Batches add up.\<close>

lemma served_add:
  assumes X: "answered (the (open_turn pl)) (the (open_step pl)) (take n gs) X"
    and U: "distinct (map pc_id U) \<longrightarrow> distinct (map pc_id gs)"
    and s: "served pl U (L @ X) (take m (drop n gs)) j s" and j: "j \<le> m"
  shows "served pl U L gs (n + j) s"
proof -
  obtain Y where Y: "tool_events (agent_log s) = L @ X @ Y"
      "answered (the (open_turn pl)) (the (open_step pl)) (take j (drop n gs)) Y"
    using s j by (auto simp: served_def min_absorb1)
  from answered_append [OF X Y(2)]
  have "answered (the (open_turn pl)) (the (open_step pl)) (take (n + j) gs) (X @ Y)" by (simp add: take_add)
  with s U Y(1) show ?thesis unfolding served_def by auto
qed

lemma triple_skipped:
  assumes p: "open_turn pl = Some t" "open_step pl = Some st" and rt: "polite_tools rt"
  shows "length qs \<le> length hs \<Longrightarrow>
    op_triple (tooling pl U L hs qs (length qs)) (for_each (append_skipped_tool_call rt t st) (drop (length qs) hs))
      (\<lambda>_. served pl U L hs (length hs)) (\<lambda>_. in_step pl {})"
proof (induction "length hs - length qs" arbitrary: qs)
  case 0
  then have "drop (length qs) hs = []" "length qs = length hs" by simp_all
  then show ?case using tooling_served [of pl U L hs qs] by (auto intro!: op_triple_lift)
next
  case (Suc n)
  then have lt: "length qs < length hs" by simp
  then have split: "drop (length qs) hs = hs ! length qs # drop (Suc (length qs)) hs"
    by (simp add: Cons_nth_drop_Suc)
  let ?h = "hs ! length qs"
  have one: "op_triple (tooling pl U L hs qs (length qs)) (append_skipped_tool_call rt t st ?h)
      (\<lambda>_ s. \<exists>q. tooling pl U L hs (qs @ [q]) (length (qs @ [q])) s) (\<lambda>_. in_step pl {})"
    unfolding append_skipped_tool_call_def
  proof (rule op_triple_bind [OF append_tool_call_triple [OF p lt]])
    fix q
    have "op_triple (tooling pl U L hs (qs @ [q]) (length qs)) (append_tool_result rt t st ?h aborted_before_dispatch q)
        (\<lambda>_. tooling pl U L hs (qs @ [q]) (Suc (length qs))) (\<lambda>_. in_step pl {})"
      using append_tool_result_triple [OF p, of "length qs" "qs @ [q]" hs rt U L aborted_before_dispatch] lt rt
      by (simp add: polite_tools_def)
    then show "op_triple (tooling pl U L hs (qs @ [q]) (length qs)) (append_tool_result rt t st ?h aborted_before_dispatch q)
        (\<lambda>_ s. \<exists>q. tooling pl U L hs (qs @ [q]) (length (qs @ [q])) s) (\<lambda>_. in_step pl {})"
      by (rule op_triple_weaken) auto
  qed simp
  show ?case
    unfolding split for_each.simps
  proof (rule op_triple_bind [OF one], rule op_triple_ex)
    fix a :: unit and q
    from Suc(1) [of "qs @ [q]"] Suc(2) lt
    show "op_triple (tooling pl U L hs (qs @ [q]) (length (qs @ [q])))
        (for_each (append_skipped_tool_call rt t st) (drop (Suc (length qs)) hs))
        (\<lambda>_. served pl U L hs (length hs)) (\<lambda>_. in_step pl {})"
      by simp
  qed
qed

text \<open>Skipping what is left of the calls.\<close>

lemma triple_skip_rest:
  assumes p: "open_turn pl = Some t" "open_step pl = Some st" and rt: "polite_tools rt"
  shows "op_triple (served pl U L gs n) (for_each (append_skipped_tool_call rt t st) (drop n gs))
    (\<lambda>_. served pl U L gs (length gs)) (\<lambda>_. in_step pl {})"
proof (rule op_tripleI)
  fix s x s' assume at: "served pl U L gs n s" and run: "for_each (append_skipped_tool_call rt t st) (drop n gs) s = (Inl x, s')"
  from at obtain X where "tooling pl U (L @ X) (drop n gs) [] 0 s"
    by (blast elim: served_drop)
  with op_triple_throwD [OF triple_skipped [OF p rt, of "[]" "drop n gs" U "L @ X"]] run
  show "in_step pl {} s'" by simp
next
  fix s a s' assume at: "served pl U L gs n s" and run: "for_each (append_skipped_tool_call rt t st) (drop n gs) s = (Inr a, s')"
  from at obtain X where X: "tooling pl U (L @ X) (drop n gs) [] 0 s"
      "answered (the (open_turn pl)) (the (open_step pl)) (take n gs) X"
    by (blast elim: served_drop)
  with op_triple_returnD [OF triple_skipped [OF p rt, of "[]" "drop n gs" U "L @ X"]] run
  have s': "served pl U (L @ X) (drop n gs) (length (drop n gs)) s'" by simp
  then obtain Y where Y: "tool_events (agent_log s') = L @ X @ Y"
      "answered (the (open_turn pl)) (the (open_step pl)) (drop n gs) Y"
    by (auto simp: served_def)
  have "answered (the (open_turn pl)) (the (open_step pl)) (take (length gs) gs) (X @ Y)"
    using answered_append [OF X(2) Y(2)] by simp
  with at s' Y(1) show "served pl U L gs (length gs) s'" unfolding served_def by auto
qed

lemma tooling_rested: "tooling pl U L gs [] 0 s \<Longrightarrow> tooled pl U L gs 0 (rested gs) (s, new_pool b)"
  by (auto simp: tooled_def rested_def busy_def pool_defs new_pool_def intro!: exI [of _ "[]"])

lemma triple_run_group:
  assumes p: "open_turn pl = Some t" "open_step pl = Some st" and rt: "polite_tools rt"
  shows "op_triple (tooling pl U L gs [] 0) (run_group rt t st gs parallel)
    (\<lambda>out s. go_consumed out \<le> length gs \<and> served pl U L gs (go_consumed out) s) (\<lambda>_. in_step pl {})"
proof -
  let ?run = "\<lambda>s :: 'a agent. run_pool rt t st gs parallel (tl_limit rt s) (s, new_pool (phase_abort (ag_phase s) \<noteq> None))"
  have pool: "in_step pl {} s'" if "tooling pl U L gs [] 0 s" "?run s = (Inl x, s', q)" for s x s' q
    using op_triple_throwD [OF triple_run_pool [OF p rt] tooling_rested [OF that(1)] that(2)] by simp
  have fin: "\<exists>n. served pl U L gs n s' \<and> n \<le> length gs \<and> pl_started q = n \<and> pl_committed q = n"
    if at: "tooling pl U L gs [] 0 s" and run: "?run s = (Inr u, s', q)" for s u s' q
  proof -
    obtain qs where t: "tooling pl U L gs qs (pl_committed q) s'" and d: "drained gs qs q"
      using op_triple_returnD [OF triple_run_pool [OF p rt] tooling_rested [OF at] run] by (auto simp: tooled_def)
    have "length qs \<le> length gs" using d by (simp add: drained_def rested_def busy_def pool_ok_def)
    with tooling_served [of pl U L gs qs s'] t drained_committed [OF d] show ?thesis by auto
  qed
  let ?skip = "\<lambda>q. op_bind (for_each (append_skipped_tool_call rt t st) (drop (pl_started q) gs))
      (\<lambda>_. op_lift (Inr \<lparr>go_consumed = length gs, go_aborted = True, go_concluded = pl_concluded q\<rparr>))"
  have skip: "op_triple (served pl U L gs (pl_started q)) (?skip q)
      (\<lambda>out s. go_consumed out \<le> length gs \<and> served pl U L gs (go_consumed out) s) (\<lambda>_. in_step pl {})" for q
    by (rule op_triple_bind [OF triple_skip_rest [OF p rt]]) (auto intro!: op_triple_lift)
  show ?thesis
  proof (rule op_tripleI)
    fix s x s' assume at: "tooling pl U L gs [] 0 s" and run: "run_group rt t st gs parallel s = (Inl x, s')"
    obtain r s1 q where b: "?run s = (r, s1, q)" by (cases "?run s") auto
    show "in_step pl {} s'"
    proof (cases r)
      case (Inl y)
      with run b pool [OF at] show ?thesis by (simp add: run_group_def)
    next
      case (Inr u)
      with fin [OF at] b have s1: "served pl U L gs (pl_started q) s1" by auto
      show ?thesis
      proof (cases "pl_aborted q")
        case True
        with run b Inr have "?skip q s1 = (Inl x, s')" by (simp add: run_group_def)
        from op_triple_throwD [OF skip s1 this] show ?thesis .
      next
        case False
        with run b Inr s1 show ?thesis by (auto simp: run_group_def served_def split: if_splits)
      qed
    qed
  next
    fix s out s' assume at: "tooling pl U L gs [] 0 s" and run: "run_group rt t st gs parallel s = (Inr out, s')"
    obtain r s1 q where b: "?run s = (r, s1, q)" by (cases "?run s") auto
    with run obtain u where u: "r = Inr u" by (cases r) (auto simp: run_group_def)
    with fin [OF at] b have s1: "served pl U L gs (pl_started q) s1" "pl_started q \<le> length gs" by auto
    show "go_consumed out \<le> length gs \<and> served pl U L gs (go_consumed out) s'"
    proof (cases "pl_aborted q")
      case True
      with run b u have "?skip q s1 = (Inr out, s')" by (simp add: run_group_def)
      from op_triple_returnD [OF skip s1(1) this] show ?thesis .
    next
      case False
      with run b u s1 show ?thesis by (auto simp: run_group_def split: if_splits)
    qed
  qed
qed

lemma triple_tool_groups:
  assumes p: "open_turn pl = Some t" "open_step pl = Some st" and rt: "polite_tools rt"
  shows "n \<le> length gs \<Longrightarrow> op_triple (served pl U L gs n) (tool_groups rt t st k (drop n gs) concluded)
    (\<lambda>_. served pl U L gs (length gs)) (\<lambda>_. in_step pl {})"
proof (induction k arbitrary: n concluded)
  case 0
  show ?case
  proof (cases "drop n gs")
    case Nil
    with 0 show ?thesis by (auto intro!: op_triple_lift)
  next
    case (Cons c cs)
    then show ?thesis by (auto intro!: op_triple_lift simp: served_def)
  qed
next
  case (Suc k)
  show ?case
  proof (cases "drop n gs")
    case Nil
    with Suc show ?thesis by (auto intro!: op_triple_lift)
  next
    case (Cons c cs)
    let ?after = "\<lambda>out. let rest = drop (go_consumed out) (c # cs) in
             if go_aborted out
             then op_bind (for_each (append_skipped_tool_call rt t st) rest)
                    (\<lambda>_. op_lift (Inr (concluded \<or> go_concluded out)))
             else tool_groups rt t st k rest (concluded \<or> go_concluded out)"
    have after: "op_triple (served pl U L gs (n + go_consumed out)) (?after out)
        (\<lambda>_. served pl U L gs (length gs)) (\<lambda>_. in_step pl {})" if "n + go_consumed out \<le> length gs" for out
    proof -
      have rest: "drop (go_consumed out) (c # cs) = drop (n + go_consumed out) gs"
        using Cons by (metis add.commute drop_drop)
      have "op_triple (served pl U L gs (n + go_consumed out))
          (op_bind (for_each (append_skipped_tool_call rt t st) (drop (n + go_consumed out) gs))
             (\<lambda>_. op_lift (Inr (concluded \<or> go_concluded out))))
          (\<lambda>_. served pl U L gs (length gs)) (\<lambda>_. in_step pl {})"
        by (rule op_triple_bind [OF triple_skip_rest [OF p rt]]) (auto intro!: op_triple_lift)
      with Suc(1) [OF that, of "concluded \<or> go_concluded out"] show ?thesis unfolding rest by (simp add: Let_def)
    qed
    have batch: "(if parallel then c # cs else [c]) = take (if parallel then length gs else 1) (drop n gs)" for parallel
      using Cons by (auto simp: min_def) (metis drop_all length_drop diff_le_self take_all)
    have run: "op_triple (served pl U L gs n) (run_group rt t st (if parallel then c # cs else [c]) parallel)
        (\<lambda>out s. n + go_consumed out \<le> length gs \<and> served pl U L gs (n + go_consumed out) s) (\<lambda>_. in_step pl {})" for parallel
      unfolding batch
    proof (rule op_tripleI)
      fix s x s' let ?m = "if parallel then length gs else 1"
      assume at: "served pl U L gs n s" and r: "run_group rt t st (take ?m (drop n gs)) parallel s = (Inl x, s')"
      from at obtain X where "tooling pl U (L @ X) (take ?m (drop n gs)) [] 0 s" by (rule served_batch)
      from op_triple_throwD [OF triple_run_group [OF p rt] this r] show "in_step pl {} s'" .
    next
      fix s out s' let ?m = "if parallel then length gs else 1"
      assume at: "served pl U L gs n s" and r: "run_group rt t st (take ?m (drop n gs)) parallel s = (Inr out, s')"
      from at obtain X where X: "tooling pl U (L @ X) (take ?m (drop n gs)) [] 0 s"
          "answered (the (open_turn pl)) (the (open_step pl)) (take n gs) X" by (rule served_batch)
      from op_triple_returnD [OF triple_run_group [OF p rt] X(1) r]
      have le: "go_consumed out \<le> length (take ?m (drop n gs))"
        and sv: "served pl U (L @ X) (take ?m (drop n gs)) (go_consumed out) s'" by auto
      from at have "distinct (map pc_id U) \<longrightarrow> distinct (map pc_id gs)" by (simp add: served_def)
      from served_add [OF X(2) this sv] le Suc(2)
      show "n + go_consumed out \<le> length gs \<and> served pl U L gs (n + go_consumed out) s'" by auto
    qed
    have "op_triple (served pl U L gs n)
        (op_bind (op_gets (\<lambda>s. tl_parallel rt s (pc_exec c)))
          (\<lambda>parallel. op_bind (run_group rt t st (if parallel then c # cs else [c]) parallel) ?after))
        (\<lambda>_. served pl U L gs (length gs)) (\<lambda>_. in_step pl {})"
    proof (rule op_triple_bind [of _ _ "\<lambda>_. served pl U L gs n"])
      show "op_triple (served pl U L gs n) (op_gets (\<lambda>s. tl_parallel rt s (pc_exec c)))
          (\<lambda>_. served pl U L gs n) (\<lambda>_. in_step pl {})"
        by (rule triple_gets)
      show "op_triple (served pl U L gs n) (op_bind (run_group rt t st (if parallel then c # cs else [c]) parallel) ?after)
          (\<lambda>_. served pl U L gs (length gs)) (\<lambda>_. in_step pl {})" for parallel
        by (rule op_triple_bind [OF run], rule op_triple_conj_pure, erule after)
    qed
    then show ?thesis unfolding Cons by simp
  qed
qed

definition planned_calls :: "'w tool_runtime \<Rightarrow> content_block list \<Rightarrow> planned_call list" where
  "planned_calls rt blocks = List.map_filter (plan_block (tl_parse rt)) blocks"

lemma planned_ids: "map pc_id (planned_calls rt blocks) = message_calls blocks"
  by (induction blocks) (auto simp: planned_calls_def message_calls_def map_filter_def split: content_block.splits)

text \<open>
  The calls of a message, executed in its step: whatever happens the log stays in the step,
  and when the scheduler returns every call is recorded and answered, in order.
\<close>

lemma triple_execute:
  assumes p: "open_turn pl = Some t" "open_step pl = Some st" and rt: "polite_tools rt"
  shows "op_triple
    (\<lambda>s. in_step pl {} s \<and> (calls_apart (agent_log s) \<longrightarrow> distinct (message_calls blocks)) \<and>
         tool_events (agent_log s) = L)
    (execute_tool_calls rt t st blocks)
    (\<lambda>_ s. in_step pl {} s \<and> (\<exists>X. tool_events (agent_log s) = L @ X \<and> answered t st (planned_calls rt blocks) X))
    (\<lambda>_. in_step pl {})"
proof -
  let ?gs = "planned_calls rt blocks"
  have "op_triple (served pl ?gs L ?gs 0) (tool_groups rt t st (length ?gs) ?gs False)
      (\<lambda>_. served pl ?gs L ?gs (length ?gs)) (\<lambda>_. in_step pl {})"
    using triple_tool_groups [OF p rt, of 0 ?gs] by simp
  then show ?thesis
    unfolding execute_tool_calls_def planned_calls_def [symmetric] Let_def
    by (rule op_triple_weaken) (use p in \<open>auto simp: served_def apart_def planned_ids\<close>)
qed

text \<open>
  Claim C11. Whatever the order in which dispatches settle, a scheduler that returns has
  recorded and answered every call once, calls and results both in the order of the message
  and every result citing its call; one that stops early leaves the log in its step.
\<close>

theorem tool_calls_answered_in_order:
  assumes "polite_tools rt"
    and "at_place pl s" and "open_turn pl = Some t" and "open_step pl = Some st" and "ag_phase s = Running a t st w"
    and "calls_apart (agent_log s) \<longrightarrow> distinct (message_calls blocks)"
  shows "case execute_tool_calls rt t st blocks s of
      (Inr b, s') \<Rightarrow> (\<exists>X. tool_events (agent_log s') = tool_events (agent_log s) @ X \<and>
        answered t st (planned_calls rt blocks) X)
    | (Inl x, s') \<Rightarrow> (\<exists>P. at_place (pl\<lparr>pending_calls := P\<rparr>) s')"
proof -
  have "at_place (pl\<lparr>pending_calls := pending_calls pl\<rparr>) s" using assms(2) by simp
  then have "in_step pl {} s" using assms(3-5) unfolding in_step_def by blast
  with assms(6) have pre: "in_step pl {} s \<and> (calls_apart (agent_log s) \<longrightarrow> distinct (message_calls blocks)) \<and>
      tool_events (agent_log s) = tool_events (agent_log s)" by blast
  note run = triple_execute [OF assms(3,4,1), of blocks "tool_events (agent_log s)"]
  obtain r s' where r: "execute_tool_calls rt t st blocks s = (r, s')" by fastforce
  show ?thesis
  proof (cases r)
    case (Inl x)
    with op_triple_throwD [OF run pre] r have "in_step pl {} s'" by blast
    with r Inl show ?thesis by (auto simp: in_step_def)
  next
    case (Inr b)
    with op_triple_returnD [OF run pre] r have "\<exists>X. tool_events (agent_log s') = tool_events (agent_log s) @ X \<and>
        answered t st (planned_calls rt blocks) X" by blast
    with r Inr show ?thesis by simp
  qed
qed

subsection \<open>A sample\<close>

text \<open>A registry whose dispatches settle at once, in reverse order.\<close>

definition sample_outcome :: tool_outcome where
  "sample_outcome = \<lparr>to_content = [], to_is_error = False, to_info = None, to_meta = None,
     to_contexts = [], to_concludes = False, to_plain = True\<rparr>"

definition sample_append_env :: append_env where
  "sample_append_env = \<lparr>ae_time = 0, ae_appending = None, ae_throws = False\<rparr>"

definition sample_tools :: "'w tool_runtime" where
  "sample_tools = \<lparr>tl_env = (\<lambda>s. sample_append_env), tl_parse = (\<lambda>x. None), tl_parallel = (\<lambda>s x. True),
     tl_limit = (\<lambda>s. 10), tl_mint = op_lift (Inr ''r''), tl_prepare = (\<lambda>x. op_lift (Inr Dispatch)),
     tl_dispatch = (\<lambda>x. op_lift (Inr ())),
     tl_settled = (\<lambda>is. op_lift (Inr (map (\<lambda>i. (i, Inr (sample_outcome, True))) (rev is)))),
     tl_race = (\<lambda>is. op_lift (Inr (last is))), tl_drain = (\<lambda>is. op_lift (Inr ())),
     tl_finalize = (\<lambda>x out. op_lift (Inr out)), tl_finish = (\<lambda>x out. op_lift (Inr out))\<rparr>"

lemma sample_tools_polite: "polite_tools sample_tools"
  by (simp add: polite_tools_def sample_tools_def polite_lift)

definition sample_agent :: "unit agent" where
  "sample_agent = \<lparr>ag_host = \<lparr>ih_session = sample_session, ih_inbox = empty_inbox, ih_notices = []\<rparr>,
     ag_phase = Running None 1 1 False, ag_header_logged = False, ag_notices = [], ag_world = ()\<rparr>"

definition sample_place :: session_trace where
  "sample_place = the (position (ss_log sample_session))"

lemma sample_agent_place:
  "at_place sample_place sample_agent" "open_turn sample_place = Some 1" "open_step sample_place = Some 1"
proof -
  have "position (ss_log sample_session) = Some sample_place" by code_simp
  moreover from this have "last_seq sample_place = 0" by (simp add: position_Some_iff)
  ultimately show "at_place sample_place sample_agent"
    using session_reach_ok [OF sample_session_reach] by (simp add: session_at_def sample_agent_def)
  show "open_turn sample_place = Some 1" "open_step sample_place = Some 1" by code_simp+
qed

definition sample_calls :: "content_block list" where
  "sample_calls = [TextB ''both'', ToolCallB ''c2'' ''run'' ''x'', ToolCallB ''c3'' ''run'' []]"

lemma tool_calls_answered_in_order_witness:
  "case execute_tool_calls sample_tools 1 1 sample_calls sample_agent of
      (Inr b, s') \<Rightarrow> (\<exists>X. tool_events (agent_log s') = tool_events (agent_log sample_agent) @ X \<and>
        answered 1 1 (planned_calls (sample_tools :: unit tool_runtime) sample_calls) X)
    | (Inl x, s') \<Rightarrow> (\<exists>P. at_place (sample_place\<lparr>pending_calls := P\<rparr>) s')"
proof (rule tool_calls_answered_in_order [OF sample_tools_polite sample_agent_place])
  show "ag_phase sample_agent = Running None 1 1 False" by (simp add: sample_agent_def)
  show "calls_apart (agent_log sample_agent) \<longrightarrow> distinct (message_calls sample_calls)"
    by (simp add: sample_calls_def message_calls_def map_filter_def)
qed

lemma sample_tools_run: "fst (execute_tool_calls sample_tools 1 1 sample_calls sample_agent) = Inr False"
  by code_simp

end
