(* ===== verification/Runtime_Context.thy ===== *)
theory Runtime_Context
  imports Session_Log
begin

section \<open>Snapshots of the runtime context\<close>

text \<open>
  \<^verbatim>\<open>packages/core/agent-loop/src/runtime-context.ts\<close>: the projection that decides whether the
  dynamic context of a request has to be said again. It is restored once from the log and
  the surface, and then follows the events of the session; here the following is a fold over
  the events since the construction.
\<close>

definition context_plugin :: string where
  "context_plugin = ''@deepseek-ai/dsh-system-prompt''"

definition cleared_text :: string where
  "cleared_text = ''Current runtime context: none. Earlier runtime-context snapshots no longer apply.''"

fun is_owned :: "user_message \<Rightarrow> bool" where
  "is_owned m \<longleftrightarrow>
     (case um_source m of
        PluginSrc j \<Rightarrow> data_field j ''plugin'' = Some (JStr context_plugin)
      | _ \<Rightarrow> False)"

definition text_of :: "user_message \<Rightarrow> string option" where
  "text_of m = (case um_content m of [TextB x] \<Rightarrow> Some x | _ \<Rightarrow> None)"

datatype retained_context = Never | Dropped | Kept int "string option"

text \<open>The loop of the constructor, from the end of the log.\<close>

fun restore_back :: "int list \<Rightarrow> session_event list \<Rightarrow> retained_context \<Rightarrow> retained_context" where
  "restore_back surface [] r = r"
| "restore_back surface (e # es) r =
     (case ev_data e of
        UserMessage m \<Rightarrow>
          if is_owned m
          then (if ev_seq e \<in> set surface then Kept (ev_seq e) (text_of m)
                else restore_back surface es (if r = Never then Dropped else r))
          else restore_back surface es r
      | _ \<Rightarrow> restore_back surface es r)"

definition restore_context :: "int list \<Rightarrow> session_event list \<Rightarrow> retained_context" where
  "restore_context surface evs = restore_back surface (rev evs) Never"

text \<open>The listener: \<open>sourceEventSeqs?.includes(seq)\<close> is membership in the JSON array.\<close>

definition cites :: "session_event \<Rightarrow> int \<Rightarrow> bool" where
  "cites e n \<longleftrightarrow> (case ev_sources e of Some (JArr xs) \<Rightarrow> jint n \<in> set xs | _ \<Rightarrow> False)"

definition owned_event :: "session_event \<Rightarrow> bool" where
  "owned_event e \<longleftrightarrow> (case ev_data e of UserMessage m \<Rightarrow> is_owned m | _ \<Rightarrow> False)"

definition follow_context :: "retained_context \<Rightarrow> session_event \<Rightarrow> retained_context" where
  "follow_context r e =
     (case ev_data e of
        UserMessage m \<Rightarrow>
          if is_owned m then Kept (ev_seq e) (text_of m)
          else (case r of
                  Kept n x \<Rightarrow> if is_replacement_surface_event e \<and> cites e n then Dropped else r
                | _ \<Rightarrow> r)
      | _ \<Rightarrow>
          (case r of
             Kept n x \<Rightarrow> if is_replacement_surface_event e \<and> cites e n then Dropped else r
           | _ \<Rightarrow> r))"

text \<open>The state of a projection constructed over the first \<open>k\<close> events of the log.\<close>

definition context_now :: "retained_context \<times> nat \<Rightarrow> session_event list \<Rightarrow> retained_context" where
  "context_now base evs = foldl follow_context (fst base) (drop (snd base) evs)"

definition context_source :: "json list \<Rightarrow> message_source" where
  "context_source sections =
     PluginSrc (JObj ([(''plugin'', JStr context_plugin)]
       @ (if sections = [] then [] else [(''form'', JStr ''snapshot''), (''sections'', JArr sections)])))"

definition project_context ::
  "retained_context \<Rightarrow> string \<Rightarrow> json list \<Rightarrow> message_id \<Rightarrow> user_message option"
where
  "project_context r current sections mid =
     (if r = Never \<and> length current = 0 then None
      else
        (let snapshot = (if length current = 0 then cleared_text else current) in
         if (case r of Kept n (Some x) \<Rightarrow> x = snapshot | _ \<Rightarrow> False) then None
         else Some \<lparr>um_id = mid, um_content = [TextB snapshot], um_source = context_source sections\<rparr>))"

declare is_owned.simps [simp del]

subsection \<open>What the projection claims is on the surface\<close>

definition context_ok :: "retained_context \<Rightarrow> session_event list \<Rightarrow> int list \<Rightarrow> bool" where
  "context_ok r evs surface \<longleftrightarrow>
     (case r of
        Never \<Rightarrow> \<not> list_ex owned_event evs
      | Dropped \<Rightarrow> list_ex owned_event evs
      | Kept n x \<Rightarrow> n \<in> set surface \<and>
          (\<exists>e m. js_at evs n = Some e \<and> ev_data e = UserMessage m \<and> is_owned m \<and> x = text_of m))"

lemma owned_event_iff: "owned_event e \<longleftrightarrow> (\<exists>m. ev_data e = UserMessage m \<and> is_owned m)"
  by (auto simp: owned_event_def split: event_data.splits)

lemma follow_other:
  "\<not> owned_event e \<Longrightarrow>
   follow_context r e =
     (case r of Kept n x \<Rightarrow> if is_replacement_surface_event e \<and> cites e n then Dropped else r | _ \<Rightarrow> r)"
  by (cases "ev_data e") (simp_all add: follow_context_def owned_event_def)

lemma scan_sources_members:
  "scan_sources n vs acc late = Some (sources, late') \<Longrightarrow> s \<in> set sources \<Longrightarrow> s \<in> set acc \<or> jint s \<in> set vs"
proof (induction vs arbitrary: acc late)
  case (Cons v vs)
  then obtain i where i: "v = jint i"
      and rest: "scan_sources n vs (i # acc) (if late = None \<and> n \<le> i then Some i else late) = Some (sources, late')"
    by (auto simp: is_event_seq_Some_iff split: option.splits)
  from Cons.IH [OF rest Cons.prems(2)] i show ?case by auto
qed simp

lemma check_sources_cites: "check_sources e = Inr sources \<Longrightarrow> s \<in> set sources \<Longrightarrow> cites e s"
  using scan_sources_members [of "ev_seq e" _ "[]" None sources _ s]
  by (auto simp: check_sources_def cites_def split: option.splits json.splits if_splits prod.splits)

lemma splice_keeps:
  assumes "n \<in> set xs" and "n \<notin> set (js_slice xs k (Suc j))" and "k \<le> j" and "j < length xs"
  shows "n \<in> set (js_splice xs k (Suc (j - k)) ins)"
proof -
  have end_at: "k + Suc (j - k) = Suc j" using assms(3) by simp
  have "xs = take k xs @ js_slice xs k (Suc j) @ drop (Suc j) xs"
    using js_splice_slice [of k "Suc (j - k)" xs] assms(3,4) end_at by simp
  then have "set xs = set (take k xs) \<union> set (js_slice xs k (Suc j)) \<union> set (drop (Suc j) xs)"
    by (metis set_append sup_assoc)
  with assms(1,2) end_at show ?thesis by (auto simp: js_splice_def)
qed

lemma context_ok_follow:
  assumes ok: "context_ok r evs (nodes st)" and step: "surface_step 0 evs (length evs) st e = Inr st'"
    and inside: "\<forall>n \<in> set (nodes st). n < int (length evs)"
  shows "context_ok (follow_context r e) (evs @ [e]) (nodes st')"
proof -
  obtain p where p: "plan_surface_event st e (int (length evs)) evs 0 = Inr p" "st' = fst (apply_surface_plan st p)"
    using step by (fastforce simp: surface_step_def apply_surface_event_def split: sum.splits)
  have seq: "ev_seq e = int (length evs)" using p(1) by (simp add: plan_surface_event_def split: if_splits)
  have here: "js_at (evs @ [e]) (int (length evs)) = Some e" by (simp add: js_at_def)
  show ?thesis
  proof (cases "owned_event e")
    case True
    then obtain m where m: "ev_data e = UserMessage m" "is_owned m" by (auto simp: owned_event_iff)
    from p have "int (length evs) \<in> set (nodes st')"
      by (cases rule: plan_surface_event_cases)
        (use m in \<open>auto simp: js_splice_def is_surface_eligible_type_def message_types_def\<close>)
    with m seq here show ?thesis by (auto simp: follow_context_def context_ok_def)
  next
    case False
    show ?thesis
    proof (cases "\<exists>n x. r = Kept n x")
      case True
      then obtain n x where r: "r = Kept n x" by blast
      with ok obtain e' m where n: "n \<in> set (nodes st)" and e': "js_at evs n = Some e'" "ev_data e' = UserMessage m"
          "is_owned m" "x = text_of m"
        by (auto simp: context_ok_def)
      from n inside have at: "js_at (evs @ [e]) n = Some e'" using e'(1) by (simp add: js_at_append)
      have "e' \<in> set evs" using e'(1) by (auto simp: js_at_Some_iff)
      moreover have "owned_event e'" using e'(2,3) by (simp add: owned_event_iff)
      ultimately have owned: "list_ex owned_event (evs @ [e])" by (auto simp: list_ex_iff)
      show ?thesis
      proof (cases "is_replacement_surface_event e \<and> cites e n")
        case True
        with False r owned show ?thesis by (simp add: follow_other context_ok_def)
      next
        case nocite: False
        from p have "n \<in> set (nodes st')"
        proof (cases rule: plan_surface_event_cases)
          case log_only
          with p(2) n show ?thesis by simp
        next
          case append
          with p(2) n show ?thesis by simp
        next
          case (replace a b i j sh)
          obtain sources where "check_sources e = Inr sources" "set sh \<subseteq> set sources"
            using assert_provenance_Inr [OF replace(4)] .
          with nocite replace(2) have "n \<notin> set sh" using check_sources_cites by blast
          with replacement_range_InrD [OF replace(3)] n replace(6) p(2) show ?thesis
            by (auto intro: splice_keeps)
        qed
        with False r nocite at e' show ?thesis by (auto simp: follow_other context_ok_def)
      qed
    next
      case other: False
      with False have "follow_context r e = r" by (cases r) (simp_all add: follow_other)
      with False ok other show ?thesis by (cases r) (simp_all add: context_ok_def)
    qed
  qed
qed

lemma restore_back_eq:
  "restore_back surface es r =
     (case find (\<lambda>e. owned_event e \<and> ev_seq e \<in> set surface) es of
        Some e \<Rightarrow> (case ev_data e of UserMessage m \<Rightarrow> Kept (ev_seq e) (text_of m) | _ \<Rightarrow> Never)
      | None \<Rightarrow> if r = Never \<and> list_ex owned_event es then Dropped else r)"
  by (induction es arbitrary: r) (auto simp: owned_event_def split: event_data.splits)

lemma restore_context_ok:
  assumes "contiguous evs"
  shows "context_ok (restore_context surface evs) evs surface"
proof (cases "find (\<lambda>e. owned_event e \<and> ev_seq e \<in> set surface) (rev evs)")
  case None
  then have "restore_context surface evs = (if list_ex owned_event evs then Dropped else Never)"
    by (simp add: restore_context_def restore_back_eq list_ex_iff)
  then show ?thesis by (simp add: context_ok_def)
next
  case (Some e)
  then obtain i where i: "i < length (rev evs)" "owned_event (rev evs ! i) \<and> ev_seq (rev evs ! i) \<in> set surface"
      "e = rev evs ! i"
    by (auto simp only: find_Some_iff)
  then have e: "owned_event e" "ev_seq e \<in> set surface" "e \<in> set evs"
    using nth_mem [OF i(1)] by auto
  from e(3) assms have "js_at evs (ev_seq e) = Some e"
    by (auto simp: in_set_conv_nth contiguous_def js_at_def)
  with e Some show ?thesis
    by (auto simp: restore_context_def restore_back_eq owned_event_iff context_ok_def)
qed

lemma follow_run:
  assumes "replay (surface_step 0) create_fold_state (base @ rest) = (None, n, st)"
    and "\<And>t. replay (surface_step 0) create_fold_state base = (None, length base, t) \<Longrightarrow> context_ok r base (nodes t)"
  shows "context_ok (foldl follow_context r rest) (base @ rest) (nodes st)"
  using assms(1)
proof (induction rest arbitrary: n st rule: rev_induct)
  case Nil
  with assms(2) surface_log.replay_length show ?case by fastforce
next
  case (snoc e rest)
  then have "replay (surface_step 0) create_fold_state ((base @ rest) @ [e]) = (None, n, st)" by simp
  then obtain t where t: "replay (surface_step 0) create_fold_state (base @ rest) = (None, length (base @ rest), t)"
      "surface_step 0 (base @ rest) (length (base @ rest)) t e = Inr st"
    unfolding surface_log.replay_snoc_Some by blast
  have "\<forall>n \<in> set (nodes t). n < int (length (base @ rest))"
    using surface_log.replay_inv [OF t(1)] by (auto simp: surface_inv_def)
  from context_ok_follow [OF snoc.IH [OF t(1)] t(2) this] show ?case by simp
qed

text \<open>
  Claim C36. A projection restored over a prefix of an accepted log and fed the rest says
  that no snapshot ever existed exactly when the log has none, and the snapshot it retains
  is one of the log, with its text, still on the surface.
\<close>

theorem context_projection_is_on_the_surface:
  assumes "fold_surface (base @ rest) = Inr (ns, rs)" and "fold_surface base = Inr (ns0, rs0)"
  shows "context_ok (context_now (restore_context ns0 base, length base) (base @ rest)) (base @ rest) ns"
proof -
  obtain st where st: "replay (surface_step 0) create_fold_state (base @ rest) = (None, length (base @ rest), st)" "nodes st = ns"
    using fold_surface_replay [OF assms(1)] .
  obtain t where t: "replay (surface_step 0) create_fold_state base = (None, length base, t)" "nodes t = ns0"
    using fold_surface_replay [OF assms(2)] .
  have "contiguous base" using assms(2) fold_surface_contiguous by blast
  then have "context_ok (restore_context ns0 base) base (nodes t')"
    if "replay (surface_step 0) create_fold_state base = (None, length base, t')" for t'
    using that t restore_context_ok by auto
  from follow_run [OF st(1) this] st(2) show ?thesis by (simp add: context_now_def)
qed

lemma context_message_owned [simp]:
  "is_owned \<lparr>um_id = i, um_content = c, um_source = context_source sections\<rparr>"
  by (simp add: is_owned.simps context_source_def)

theorem committed_context_is_settled:
  "case project_context r current sections mid of
     None \<Rightarrow> project_context r current sections' mid' = None
   | Some m \<Rightarrow> project_context (follow_context r \<lparr>ev_seq = n, ev_time = tm, ev_data = UserMessage m,
        ev_surface_op = op, ev_sources = srcs, ev_ignorable = ign\<rparr>) current sections' mid' = None"
  by (auto simp: project_context_def follow_context_def text_of_def Let_def)

subsection \<open>A sample\<close>

definition context_log :: "session_event list" where
  "context_log =
     [on_surface 0 (UserMessage \<lparr>um_id = ''s1'', um_content = [TextB ''now''], um_source = context_source []\<rparr>),
      on_surface 1 (UserMessage sample_user)]"

lemma context_projection_is_on_the_surface_witness:
  "context_ok (context_now (restore_context [0] (take 1 context_log), length (take 1 context_log))
      (take 1 context_log @ drop 1 context_log)) (take 1 context_log @ drop 1 context_log) [0, 1]"
  by (rule context_projection_is_on_the_surface [where rs = "[]" and rs0 = "[]"]) code_simp+

end
