(* ===== verification/Retry_Policy.thy ===== *)
theory Retry_Policy
  imports Dsh_Prelude
begin

section \<open>Retry policies of a provider route\<close>

text \<open>
  \<^verbatim>\<open>packages/llm/llm/src/retry-policy.ts\<close>: the configuration a provider hands in, as the JSON
  its configuration file holds, and the resolution that validates it, fills in the
  defaults and detaches the result. The resolver does not trust its input to have passed
  the schema, so every field may hold any JSON value; reading a missing field gives
  \<open>undefined\<close>, here \<open>None\<close>.
\<close>

subsection \<open>Resolved policies\<close>

record retry_backoff =
  rb_initial_delay :: rat
  rb_max_delay :: rat
  rb_jitter :: rat

datatype retry_policy =
    NormalPolicy int "string list" retry_backoff
  | AlwaysPolicy retry_backoff

fun policy_backoff :: "retry_policy \<Rightarrow> retry_backoff" where
  "policy_backoff (NormalPolicy n cs b) = b"
| "policy_backoff (AlwaysPolicy b) = b"

fun policy_mode :: "retry_policy \<Rightarrow> string" where
  "policy_mode (NormalPolicy n cs b) = ''normal''"
| "policy_mode (AlwaysPolicy b) = ''always''"

text \<open>The number literal \<open>0.1\<close> is the double nearest to it.\<close>

definition max_timer_delay :: rat where "max_timer_delay = 2147483647"
definition default_max_retries :: int where "default_max_retries = 12"
definition default_initial_delay :: rat where "default_initial_delay = 1000"
definition default_max_delay :: rat where "default_max_delay = 15000"
definition default_jitter :: rat where
  "default_jitter = 3602879701896397 / 36028797018963968"

definition default_retryable_codes :: "string list" where
  "default_retryable_codes =
     [''EMPTY_RESPONSE'', ''CHANNEL_LEAK'', ''RATE_LIMIT'', ''SERVER'', ''TIMEOUT'', ''TRANSPORT'']"

lemmas policy_defaults =
  default_max_retries_def default_initial_delay_def default_max_delay_def default_jitter_def
  default_retryable_codes_def max_timer_delay_def

subsection \<open>Resolution\<close>

datatype policy_error =
    UnknownKey string string
  | BadInitialDelay string
  | BadMaxDelay string
  | InitialAboveMax string
  | BadJitter string
  | BadMaxRetries string
  | EmptyCodes string
  | BadCodes string
  | DuplicateCodes string
  | BadMode string
  | PolicyTypeError string

text \<open>\<open>Object.keys\<close> of a value; it throws on \<open>null\<close>.\<close>

fun object_keys :: "json \<Rightarrow> string list option" where
  "object_keys JNull = None"
| "object_keys (JBool b) = Some []"
| "object_keys (JNum q) = Some []"
| "object_keys (JStr s) = Some (map string_of_nat [0..<length s])"
| "object_keys (JArr xs) = Some (map string_of_nat [0..<length xs])"
| "object_keys (JObj kvs) = Some (map fst kvs)"

definition validate_keys :: "json \<Rightarrow> string list \<Rightarrow> string \<Rightarrow> policy_error + unit" where
  "validate_keys v allowed path =
     (case object_keys v of
        None \<Rightarrow> Inl (PolicyTypeError path)
      | Some ks \<Rightarrow> (case find (\<lambda>k. k \<notin> set allowed) ks of
                     Some k \<Rightarrow> Inl (UnknownKey path k)
                   | None \<Rightarrow> Inr ()))"

text \<open>\<open>config?.key ?? fallback\<close>: a \<open>null\<close> counts as absent.\<close>

fun config_field :: "json option \<Rightarrow> string \<Rightarrow> json \<Rightarrow> json" where
  "config_field (Some (JObj kvs)) k d =
     (case map_of kvs k of None \<Rightarrow> d | Some JNull \<Rightarrow> d | Some v \<Rightarrow> v)"
| "config_field _ k d = d"

text \<open>A number of JSON is finite: \<open>Number.isFinite\<close> refuses every other value.\<close>

fun finite_number :: "json \<Rightarrow> rat option" where
  "finite_number (JNum q) = Some q"
| "finite_number _ = None"

definition backoff_keys :: "string list" where
  "backoff_keys = [''initialDelayMs'', ''maxDelayMs'', ''jitterRatio'']"

definition timer_delay :: "json \<Rightarrow> rat option" where
  "timer_delay v =
     (case finite_number v of
        None \<Rightarrow> None | Some q \<Rightarrow> if q \<le> 0 \<or> max_timer_delay < q then None else Some q)"

definition resolve_backoff :: "json option \<Rightarrow> string \<Rightarrow> policy_error + retry_backoff" where
  "resolve_backoff config path =
     and_then (case config of None \<Rightarrow> Inr () | Some c \<Rightarrow> validate_keys c backoff_keys path)
       (\<lambda>_. case timer_delay (config_field config ''initialDelayMs'' (JNum default_initial_delay)) of
          None \<Rightarrow> Inl (BadInitialDelay path)
        | Some initial \<Rightarrow>
            (case timer_delay (config_field config ''maxDelayMs'' (JNum default_max_delay)) of
               None \<Rightarrow> Inl (BadMaxDelay path)
             | Some longest \<Rightarrow>
                 if longest < initial then Inl (InitialAboveMax path)
                 else
                   (case finite_number (config_field config ''jitterRatio'' (JNum default_jitter)) of
                      None \<Rightarrow> Inl (BadJitter path)
                    | Some j \<Rightarrow>
                        if j < 0 \<or> 1 < j then Inl (BadJitter path)
                        else Inr \<lparr>rb_initial_delay = initial, rb_max_delay = longest, rb_jitter = j\<rparr>)))"

text \<open>
  The checks on \<open>retryableCodes\<close>: a value without a \<open>some\<close> method throws a type error unless
  its \<open>length\<close> is zero.
\<close>

fun code_string :: "json \<Rightarrow> string option" where
  "code_string (JStr s) = (if s = [] then None else Some s)"
| "code_string _ = None"

definition resolve_codes :: "json \<Rightarrow> string \<Rightarrow> policy_error + string list" where
  "resolve_codes v path =
     (case v of
        JArr xs \<Rightarrow>
          if xs = [] then Inl (EmptyCodes path)
          else if list_ex (\<lambda>x. code_string x = None) xs then Inl (BadCodes path)
          else (let cs = map (\<lambda>x. the (code_string x)) xs in
                if \<not> distinct cs then Inl (DuplicateCodes path) else Inr cs)
      | JStr s \<Rightarrow> if s = [] then Inl (EmptyCodes path) else Inl (PolicyTypeError path)
      | JObj kvs \<Rightarrow> if map_of kvs ''length'' = Some (JNum 0) then Inl (EmptyCodes path)
                    else Inl (PolicyTypeError path)
      | _ \<Rightarrow> Inl (PolicyTypeError path))"

definition normal_keys :: "string list" where
  "normal_keys = [''mode'', ''maxRetries'', ''retryableCodes'', ''backoff'']"

definition always_keys :: "string list" where
  "always_keys = [''mode'', ''backoff'']"

definition backoff_path :: "string \<Rightarrow> string" where
  "backoff_path path = path @ ''.backoff''"

definition codes_json :: "string list \<Rightarrow> json" where
  "codes_json cs = JArr (map JStr cs)"

definition resolve_retry_policy :: "json_fields option \<Rightarrow> string \<Rightarrow> policy_error + retry_policy" where
  "resolve_retry_policy config path =
     (case config of
        None \<Rightarrow> map_sum id (NormalPolicy default_max_retries default_retryable_codes)
                  (resolve_backoff None (backoff_path path))
      | Some kvs \<Rightarrow>
          if map_of kvs ''mode'' = Some (JStr ''normal'') then
            and_then (validate_keys (JObj kvs) normal_keys path)
              (\<lambda>_. case json_safe_int (config_field (Some (JObj kvs)) ''maxRetries'' (jint default_max_retries)) of
                 None \<Rightarrow> Inl (BadMaxRetries path)
               | Some n \<Rightarrow>
                   if n < 0 then Inl (BadMaxRetries path)
                   else
                     and_then (resolve_codes (config_field (Some (JObj kvs)) ''retryableCodes''
                                 (codes_json default_retryable_codes)) path)
                       (\<lambda>cs. map_sum id (NormalPolicy n cs)
                          (resolve_backoff (map_of kvs ''backoff'') (backoff_path path))))
          else if map_of kvs ''mode'' = Some (JStr ''always'') then
            and_then (validate_keys (JObj kvs) always_keys path)
              (\<lambda>_. map_sum id AlwaysPolicy (resolve_backoff (map_of kvs ''backoff'') (backoff_path path)))
          else Inl (BadMode path))"

subsection \<open>Well-formed policies\<close>

definition backoff_ok :: "retry_backoff \<Rightarrow> bool" where
  "backoff_ok b \<longleftrightarrow>
     0 < rb_initial_delay b \<and> rb_initial_delay b \<le> rb_max_delay b \<and> rb_max_delay b \<le> max_timer_delay \<and>
     0 \<le> rb_jitter b \<and> rb_jitter b \<le> 1"

fun policy_ok :: "retry_policy \<Rightarrow> bool" where
  "policy_ok (NormalPolicy n cs b) \<longleftrightarrow>
     0 \<le> n \<and> safe_int n \<and> cs \<noteq> [] \<and> distinct cs \<and> [] \<notin> set cs \<and> backoff_ok b"
| "policy_ok (AlwaysPolicy b) \<longleftrightarrow> backoff_ok b"

text \<open>A resolved policy written down as a configuration.\<close>

definition backoff_json :: "retry_backoff \<Rightarrow> json" where
  "backoff_json b = JObj [(''initialDelayMs'', JNum (rb_initial_delay b)),
     (''maxDelayMs'', JNum (rb_max_delay b)), (''jitterRatio'', JNum (rb_jitter b))]"

fun policy_json :: "retry_policy \<Rightarrow> json_fields" where
  "policy_json (NormalPolicy n cs b) =
     [(''mode'', JStr ''normal''), (''maxRetries'', jint n), (''retryableCodes'', codes_json cs),
      (''backoff'', backoff_json b)]"
| "policy_json (AlwaysPolicy b) = [(''mode'', JStr ''always''), (''backoff'', backoff_json b)]"

lemma timer_delay_Some_iff: "timer_delay v = Some q \<longleftrightarrow> v = JNum q \<and> 0 < q \<and> q \<le> max_timer_delay"
  by (cases v) (auto simp: timer_delay_def)

lemma finite_number_Some_iff: "finite_number v = Some q \<longleftrightarrow> v = JNum q"
  by (cases v) auto

lemma code_string_Some_iff: "code_string v = Some c \<longleftrightarrow> v = JStr c \<and> c \<noteq> []"
  by (cases v) auto

lemma resolve_backoff_ok: "resolve_backoff config path = Inr b \<Longrightarrow> backoff_ok b"
  by (auto simp: resolve_backoff_def and_then_Inr_iff option_case_Inr_iff backoff_ok_def
      timer_delay_Some_iff finite_number_Some_iff)

lemma resolve_backoff_json: "backoff_ok b \<Longrightarrow> resolve_backoff (Some (backoff_json b)) path = Inr b"
  by (auto simp: resolve_backoff_def backoff_json_def validate_keys_def backoff_keys_def
      timer_delay_def backoff_ok_def)

lemma resolve_codes_Inr_iff:
  "resolve_codes v path = Inr cs \<longleftrightarrow> v = codes_json cs \<and> cs \<noteq> [] \<and> distinct cs \<and> [] \<notin> set cs"
proof
  assume run: "resolve_codes v path = Inr cs"
  then obtain xs where v: "v = JArr xs" and xs: "xs \<noteq> []" "list_all (\<lambda>x. code_string x \<noteq> None) xs"
      and cs: "cs = map (\<lambda>x. the (code_string x)) xs" "distinct cs"
    by (auto simp: resolve_codes_def Let_def list_all_iff list_ex_iff split: json.splits if_splits)
  have each: "x = JStr (the (code_string x)) \<and> the (code_string x) \<noteq> []" if "x \<in> set xs" for x
    using xs(2) that code_string_Some_iff by (fastforce simp: list_all_iff)
  have "xs = map JStr cs" unfolding cs(1) map_map o_def by (rule map_idI [symmetric]) (metis each)
  with v xs cs each show "v = codes_json cs \<and> cs \<noteq> [] \<and> distinct cs \<and> [] \<notin> set cs"
    unfolding codes_json_def by fastforce
next
  assume cs: "v = codes_json cs \<and> cs \<noteq> [] \<and> distinct cs \<and> [] \<notin> set cs"
  define xs where "xs = map JStr cs"
  have "map (\<lambda>x. the (code_string x)) xs = cs"
    unfolding xs_def map_map by (rule map_idI) (use cs in auto)
  moreover have "xs \<noteq> []" and "\<not> list_ex (\<lambda>x. code_string x = None) xs"
    using cs by (auto simp: xs_def list_ex_iff)
  ultimately show "resolve_codes v path = Inr cs"
    using cs by (simp add: resolve_codes_def codes_json_def xs_def [symmetric])
qed

lemma resolved_is_ok: "resolve_retry_policy config path = Inr p \<Longrightarrow> policy_ok p"
  by (auto simp: resolve_retry_policy_def and_then_Inr_iff option_case_Inr_iff map_sum_Inr_iff
      json_safe_int_Some_iff resolve_codes_Inr_iff policy_defaults safe_int_def max_safe_def
      split: option.splits if_splits dest: resolve_backoff_ok)

lemma resolve_policy_json: "policy_ok p \<Longrightarrow> resolve_retry_policy (Some (policy_json p)) path = Inr p"
  by (cases p) (auto simp: resolve_retry_policy_def resolve_backoff_json validate_keys_def
      normal_keys_def always_keys_def resolve_codes_Inr_iff and_then_Inr_iff codes_json_def
      map_sum_Inr_iff backoff_json_def [symmetric] del: notI)

text \<open>
  Claim C39. The resolver answers only well-formed policies, and every well-formed policy,
  written out as a configuration, resolves to itself.
\<close>

theorem resolved_policies_are_the_well_formed:
  "{p. \<exists>config. resolve_retry_policy config path = Inr p} = {p. policy_ok p} \<and>
   (policy_ok p \<longleftrightarrow> resolve_retry_policy (Some (policy_json p)) path = Inr p)"
  using resolved_is_ok resolve_policy_json by blast

end
