(* ===== verification/Agent_Request.thy ===== *)
theory Agent_Request
  imports Tool_Order Runtime_Context Retry_Policy
begin

section \<open>Composing a model request\<close>

text \<open>
  \<open>requestProposal\<close> and \<open>buildRequest\<close> of \<^verbatim>\<open>packages/core/agent-loop/src/agent.ts\<close>, and the
  companion of \<^verbatim>\<open>packages/core/agent-loop/src/invariant.ts\<close> that checks the request when it
  is dispatched. What the loop calls outside itself is the record \<open>loop_services\<close>: the
  waterfalls of the plugins, the provider registry, the prompt assembly and the stream of
  the model, whose iterator state is part of the world.
\<close>

subsection \<open>Services\<close>

text \<open>A call bound to an adapter registration, and a request.\<close>

record llm_call =
  lc_config :: call_config
  lc_defaults :: adapter_defaults
  lc_window :: "rat option"
  lc_policy :: retry_policy

record llm_request =
  rq_config :: call_config
  rq_messages :: "message list"
  rq_system :: "string option"
  rq_tools :: "json list option"

datatype pre_step_decision = Reject | Enter "user_message list"

record 'w loop_services =
  ls_tools :: "'w tool_runtime"
  ls_provider :: "string option"
  ls_model :: "string option"
  ls_max_tokens :: "rat option"
  ls_context :: "retained_context \<times> nat"
  ls_mint :: "('w, message_id) agent_op"
  ls_assemble :: "('w, prompt_assembly) agent_op"
  ls_pre_step :: "int \<Rightarrow> int \<Rightarrow> user_message list \<Rightarrow> pre_step_decision \<Rightarrow> ('w, pre_step_decision) agent_op"
  ls_request :: "int \<Rightarrow> int \<Rightarrow> call_config \<Rightarrow> ('w, call_config) agent_op"
  ls_prepare :: "call_config \<Rightarrow> ('w, llm_call) agent_op"
  ls_stream :: "llm_request \<Rightarrow> llm_call option \<Rightarrow> ('w, unit) agent_op"
  ls_chunk :: "('w, stream_chunk option) agent_op"
  ls_close :: "('w, unit) agent_op"
  ls_request_error :: "int \<Rightarrow> int \<Rightarrow> string \<Rightarrow> json \<Rightarrow> retry_policy option \<Rightarrow> ('w, bool) agent_op"
  ls_stopping :: "int \<Rightarrow> ('w, unit) agent_op"
  ls_chain :: "agent_error \<Rightarrow> string"

abbreviation ls_env :: "'w loop_services \<Rightarrow> 'w agent \<Rightarrow> append_env" where
  "ls_env sv \<equiv> tl_env (ls_tools sv)"

text \<open>Reading one of the session's cached views.\<close>

definition on_session :: "(session \<Rightarrow> 'a \<times> session) \<Rightarrow> ('w, 'a) agent_op" where
  "on_session f s = (case f (agent_session s) of (x, ss) \<Rightarrow> (Inr x, put_session ss s))"

definition throw_if_aborted :: "('w, unit) agent_op" where
  "throw_if_aborted s =
     (case phase_abort (ag_phase s) of
        None \<Rightarrow> (Inr (), s)
      | Some c \<Rightarrow> (Inl (Raised (AbortedBy c)), s))"

subsection \<open>The configuration\<close>

definition request_proposal :: "epoch_header \<Rightarrow> call_config" where
  "request_proposal h =
     (case eh_adapter_defaults h of
        None \<Rightarrow> eh_config h
      | Some d \<Rightarrow>
          (let c = (if ad_reasoning_effort d then (eh_config h)\<lparr>cc_reasoning_effort := None\<rparr> else eh_config h) in
           if ad_max_tokens d then c\<lparr>cc_max_tokens := None\<rparr> else c))"

definition declared_config :: "'w loop_services \<Rightarrow> epoch_header option \<Rightarrow> call_config" where
  "declared_config sv persisted =
     (let provider = (case ls_provider sv of None \<Rightarrow> [] | Some x \<Rightarrow> x);
          model = (case ls_model sv of None \<Rightarrow> [] | Some x \<Rightarrow> x) in
      \<lparr>cc_provider = provider, cc_model = model,
       cc_reasoning_effort =
         (case persisted of
            None \<Rightarrow> None
          | Some h \<Rightarrow>
              if cc_provider (eh_config h) = provider \<and> cc_model (eh_config h) = model
                 \<and> \<not> (case eh_adapter_defaults h of None \<Rightarrow> False | Some d \<Rightarrow> ad_reasoning_effort d)
              then cc_reasoning_effort (eh_config h) else None),
       cc_temperature = None, cc_max_tokens = ls_max_tokens sv, cc_stop = None\<rparr>)"

definition seed_config :: "'w loop_services \<Rightarrow> epoch_header option \<Rightarrow> ('w, call_config) agent_op" where
  "seed_config sv persisted s =
     (if ag_header_logged s
      then (case persisted of
              None \<Rightarrow> (Inl (Raised (Thrown ''TypeError'')), s)
            | Some h \<Rightarrow> (Inr (request_proposal h), s))
      else (Inr (declared_config sv persisted), s))"

text \<open>A route without adapter is left to the middleware; other failures are thrown.\<close>

definition no_adapter :: "agent_error \<Rightarrow> bool" where
  "no_adapter x \<longleftrightarrow> (case x of LlmFailed j \<Rightarrow> data_field j ''code'' = Some (JStr ''NO_ADAPTER'') | _ \<Rightarrow> False)"

definition prepare_call :: "'w loop_services \<Rightarrow> call_config \<Rightarrow> ('w, llm_call option) agent_op" where
  "prepare_call sv config =
     op_catch (op_bind (ls_prepare sv config) (\<lambda>c. op_lift (Inr (Some c))))
       (\<lambda>x. if no_adapter x then op_lift (Inr None) else op_raise x)"

subsection \<open>The request\<close>

definition composed_header :: "call_config \<Rightarrow> llm_call option \<Rightarrow> string \<Rightarrow> tool_schema list \<Rightarrow> epoch_header" where
  "composed_header config prepared system tools =
     canonical_header
       \<lparr>eh_config = config, eh_adapter_defaults = map_option lc_defaults prepared,
        eh_system = (if 0 < length system then Some system else None),
        eh_tools = (if 0 < length tools then Some (map schema_json tools) else None)\<rparr>"

definition log_header :: "'w loop_services \<Rightarrow> epoch_header \<Rightarrow> ('w, unit) agent_op" where
  "log_header sv header =
     op_bind (on_session request_header)
       (\<lambda>baseline. op_bind (op_gets ag_header_logged)
         (\<lambda>logged.
            if \<not> logged
            then op_bind (agent_append (ls_env sv)
                     (RequestHeader header (if baseline = None then InitialHeader else ResumeHeader)) (None, None))
                   (\<lambda>_. op_modify (\<lambda>s. s\<lparr>ag_header_logged := True\<rparr>))
            else if (case baseline of None \<Rightarrow> True | Some h \<Rightarrow> \<not> header_equals h header)
            then op_bind (agent_append (ls_env sv) (RequestHeader header ChangeHeader) (None, None))
                   (\<lambda>_. op_lift (Inr ()))
            else op_lift (Inr ())))"

definition log_context :: "'w loop_services \<Rightarrow> request_context \<Rightarrow> ('w, unit) agent_op" where
  "log_context sv rc =
     op_bind (on_session request_context_of)
       (\<lambda>previous.
          if map_option rc_provider previous \<noteq> Some (rc_provider rc)
             \<or> map_option rc_model previous \<noteq> Some (rc_model rc)
             \<or> Option.bind previous rc_context_window \<noteq> rc_context_window rc
          then op_bind (agent_append (ls_env sv) (RequestContext rc) (None, None)) (\<lambda>_. op_lift (Inr ()))
          else op_lift (Inr ()))"

definition request_of :: "epoch_header \<Rightarrow> message list \<Rightarrow> llm_request" where
  "request_of h messages =
     \<lparr>rq_config = eh_config h, rq_messages = messages, rq_system = eh_system h, rq_tools = eh_tools h\<rparr>"

definition send_request ::
  "'w loop_services \<Rightarrow> call_config \<Rightarrow> llm_call option \<Rightarrow> tool_schema list \<Rightarrow> string \<Rightarrow> message list
    \<Rightarrow> ('w, llm_request \<times> llm_call option) agent_op"
where
  "send_request sv config prepared tools system messages =
     (let header = composed_header config prepared system tools in
      op_bind (log_header sv header)
        (\<lambda>_. op_bind (log_context sv \<lparr>rc_provider = cc_provider config, rc_model = cc_model config,
                         rc_context_window = Option.bind prepared lc_window\<rparr>)
          (\<lambda>_. op_bind throw_if_aborted
            (\<lambda>_. op_lift (Inr (request_of header messages, prepared))))))"

definition build_request ::
  "'w loop_services \<Rightarrow> int \<Rightarrow> int \<Rightarrow> tool_schema list \<Rightarrow> string \<Rightarrow> message list
    \<Rightarrow> ('w, llm_request \<times> llm_call option) agent_op"
where
  "build_request sv turn step tools system messages =
     op_bind (on_session request_header)
       (\<lambda>persisted. op_bind (seed_config sv persisted)
         (\<lambda>seed. op_bind (ls_request sv turn step seed)
           (\<lambda>proposed. op_bind throw_if_aborted
             (\<lambda>_. if length (cc_provider proposed) = 0 \<or> length (cc_model proposed) = 0
                  then op_raise (Thrown ''no provider/model'')
                  else op_bind (prepare_call sv proposed)
                    (\<lambda>prepared. op_bind throw_if_aborted
                      (\<lambda>_. send_request sv (case prepared of None \<Rightarrow> proposed | Some c \<Rightarrow> lc_config c)
                             prepared tools system messages))))))"

subsection \<open>The companion\<close>

datatype request_fault =
    NoStepStart
  | NoHeader
  | CannotDerive derive_error
  | MessagesDiverge
  | HeaderDiverges

text \<open>
  The durable checks of the companion, in their order. The checks before them, that the
  request and its messages are frozen and that it carries the id of a live session, are about
  the identity of objects, which values here do not have: the session is the argument.
\<close>

definition dispatch_check :: "llm_request \<Rightarrow> session \<Rightarrow> request_fault option \<times> session" where
  "dispatch_check rq ss =
     (case events_of ss of
        (evs, ss1) \<Rightarrow>
          if \<not> list_ex (\<lambda>e. case ev_data e of StepStart t st \<Rightarrow> True | _ \<Rightarrow> False) evs then (Some NoStepStart, ss1)
          else
            (case fold_request_header evs of
               None \<Rightarrow> (Some NoHeader, ss1)
             | Some h \<Rightarrow>
                 (case derive_messages ss1 of
                    (Inl x, ss2) \<Rightarrow> (Some (CannotDerive x), ss2)
                  | (Inr expected, ss2) \<Rightarrow>
                      if rq_messages rq \<noteq> expected then (Some MessagesDiverge, ss2)
                      else if \<not> (cc_model (rq_config rq) = cc_model (eh_config h)
                          \<and> rq_system rq = eh_system h
                          \<and> cc_temperature (rq_config rq) = cc_temperature (eh_config h)
                          \<and> cc_max_tokens (rq_config rq) = cc_max_tokens (eh_config h)
                          \<and> cc_stop (rq_config rq) = cc_stop (eh_config h)
                          \<and> (case rq_tools rq of None \<Rightarrow> [] | Some ts \<Rightarrow> ts)
                            = (case eh_tools h of None \<Rightarrow> [] | Some ts \<Rightarrow> ts))
                      then (Some HeaderDiverges, ss2)
                      else (None, ss2))))"

subsection \<open>Events that leave the surface\<close>

definition off_surface :: "session_event list \<Rightarrow> bool" where
  "off_surface es \<longleftrightarrow> list_all (\<lambda>e. \<not> is_surface_eligible_type (event_type (ev_data e))) es"

text \<open>An append-only log that went on from an earlier one.\<close>

definition grown_since :: "session_event list \<Rightarrow> 'w agent \<Rightarrow> bool" where
  "grown_since L s \<longleftrightarrow> (\<exists>es. agent_log s = L @ es)"

lemma off_surface_append [simp]: "off_surface (xs @ ys) \<longleftrightarrow> off_surface xs \<and> off_surface ys"
  by (simp add: off_surface_def)

lemma grown_since_refl [simp]: "grown_since (agent_log s) s"
  by (simp add: grown_since_def)

lemma grown_since_steady: "grown_since L s \<Longrightarrow> steady s t \<Longrightarrow> grown_since L t"
  by (auto simp: grown_since_def steady_def)

lemma grown_since_log: "grown_since L s \<Longrightarrow> agent_log t = agent_log s \<Longrightarrow> grown_since L t"
  by (simp add: grown_since_def)

lemma off_surface_nodes:
  assumes "replay (surface_step 0) create_fold_state evs = (None, length evs, st)"
  shows "replay (surface_step 0) create_fold_state (evs @ es) = (None, n, st') \<Longrightarrow> off_surface es \<Longrightarrow> st' = st"
proof (induction es arbitrary: n st' rule: rev_induct)
  case Nil
  with assms show ?case by simp
next
  case (snoc e es)
  then have "replay (surface_step 0) create_fold_state ((evs @ es) @ [e]) = (None, n, st')" by simp
  then obtain t where t: "replay (surface_step 0) create_fold_state (evs @ es) = (None, length (evs @ es), t)"
      "surface_step 0 (evs @ es) (length (evs @ es)) t e = Inr st'"
    unfolding surface_log.replay_snoc_Some by blast
  from t(2) obtain p where p: "plan_surface_event t e (0 + int (length (evs @ es))) (evs @ es) 0 = Inr p"
      "st' = fst (apply_surface_plan t p)"
    by (fastforce simp: surface_step_def apply_surface_event_def split: sum.splits)
  have "\<not> is_surface_eligible_type (event_type (ev_data e))" using snoc.prems(2) by (simp add: off_surface_def)
  with p have "st' = t"
    by (cases rule: plan_surface_event_cases)
      (auto simp: is_append_surface_event_def is_replacement_surface_event_def is_surface_event_def)
  with snoc.IH [OF t(1)] snoc.prems(2) show ?case by simp
qed

lemma derive_off_surface:
  assumes "session_ok ss" and "session_ok ss'" and "ss_log ss' = ss_log ss @ es" and "off_surface es"
  shows "fst (derive_messages ss') = fst (derive_messages ss)"
proof -
  obtain st where st: "replay (surface_step 0) create_fold_state (ss_log ss) = (None, length (ss_log ss), st)"
    using assms(1) by (auto simp: session_ok_def log_ok_def)
  obtain st' where st': "replay (surface_step 0) create_fold_state (ss_log ss') = (None, length (ss_log ss'), st')"
    using assms(2) by (auto simp: session_ok_def log_ok_def)
  have "st' = st" using off_surface_nodes [OF st] st' assms(3,4) by metis
  moreover have "\<forall>n \<in> set (nodes st). n < int (length (ss_log ss))"
    using surface_log.replay_inv [OF st] by (force simp: surface_inv_def)
  ultimately have "projection (ss_log ss') (nodes st') = projection (ss_log ss) (nodes st)"
    using assms(3) by (simp add: projection_append)
  with derive_messages_ok [OF assms(1) st] derive_messages_ok [OF assms(2) st'] show ?thesis by auto
qed

subsection \<open>What the composition keeps\<close>

definition composing :: "session_trace \<Rightarrow> session_event list \<Rightarrow> 'w agent \<Rightarrow> bool" where
  "composing p L s \<longleftrightarrow> in_step p {} s \<and> grown_since L s"

lemma stable_composing: "stable (composing p L)"
  using in_step_outside grown_since_steady by (fastforce simp: stable_def composing_def)

lemma composing_in_step: "composing p L s \<Longrightarrow> in_step p {} s"
  by (simp add: composing_def)

lemma triple_outside:
  assumes "polite m"
  shows "op_triple (composing p L) m (\<lambda>_. composing p L) (\<lambda>_. in_step p {})"
  by (rule op_triple_weaken [OF triple_polite [OF assms stable_composing]]) (auto dest: composing_in_step)

lemma read_place:
  assumes "session_read (agent_session s) ss" and "in_step p ids s"
  shows "in_step p ids (put_session ss s) \<and> agent_log (put_session ss s) = agent_log s"
proof -
  have "session_ok ss \<and> ss_log ss = agent_log s"
    using session_read_ok [OF assms(1)] in_step_place [OF assms(2)] by blast
  with assms(2) show ?thesis by (auto simp: in_step_def session_at_def)
qed

lemma triple_read:
  fixes Q :: "'a \<Rightarrow> 'w agent \<Rightarrow> bool"
  assumes "\<And>ss. session_read ss (snd (f ss))"
    and "\<And>s. composing p L s \<Longrightarrow> Q (fst (f (agent_session s))) (put_session (snd (f (agent_session s))) s)"
  shows "op_triple (composing p L) (on_session f) (\<lambda>x s. composing p L s \<and> Q x s) (\<lambda>_. in_step p {})"
proof (rule op_tripleI)
  fix s x and s' :: "'w agent" assume "on_session f s = (Inl x, s')"
  then show "in_step p {} s'" by (simp add: on_session_def split: prod.splits)
next
  fix s :: "'w agent" and a s' assume s: "composing p L s" and run: "on_session f s = (Inr a, s')"
  from run have a: "a = fst (f (agent_session s))" "s' = put_session (snd (f (agent_session s))) s"
    by (auto simp: on_session_def split: prod.splits)
  have "composing p L s'"
    using read_place [where s = s and p = p and ids = "{}", OF assms(1)] s a(2) by (auto simp: composing_def intro: grown_since_log)
  with assms(2) [OF s] a show "composing p L s' \<and> Q a s'" by simp
qed

lemma triple_throw_if:
  assumes "\<And>s. P s \<Longrightarrow> E s"
  shows "op_triple P throw_if_aborted (\<lambda>_. P) (\<lambda>_. E)"
  using assms by (auto simp: op_triple_def throw_if_aborted_def split: option.splits)

text \<open>The two events of the request leave the surface and the step.\<close>

lemma triple_request_event:
  assumes d: "\<not> is_surface_eligible_type (event_type d)"
    and at: "\<And>P. last_seq p = 0 \<Longrightarrow> open_turn p \<noteq> None \<Longrightarrow>
               place_step (p\<lparr>pending_calls := P\<rparr>) None d = Some (p\<lparr>pending_calls := P\<rparr>)"
    and after: "\<And>s e s'. R s \<Longrightarrow> ev_data e = d \<Longrightarrow> agent_log s' = agent_log s @ [e] \<Longrightarrow> Q s'"
  shows "op_triple (\<lambda>s. composing p L s \<and> R s) (agent_append env d (None, None))
    (\<lambda>_ s. composing p L s \<and> Q s) (\<lambda>_. in_step p {})"
  unfolding agent_append_def
proof (rule op_tripleI)
  fix s x s' assume "composing p L s \<and> R s" and "append_payload env (Some d) (None, None) s = (Inl x, s')"
  then show "in_step p {} s'" by (auto simp: composing_def intro: in_step_refused)
next
  fix s e s' assume s: "composing p L s \<and> R s" and run: "append_payload env (Some d) (None, None) s = (Inr e, s')"
  from append_payload_logged [OF run] have e: "ev_data e = d" and log: "agent_log s' = agent_log s @ [e]" by auto
  from s have step: "in_step p {} s" by (simp add: composing_def)
  then have pl: "last_seq p = 0" "open_turn p \<noteq> None" using in_step_place [OF step] by (auto simp: in_step_def)
  have "in_step p {} s'"
    by (rule in_step_logged [OF step run]) (use at [OF pl] in auto)
  moreover have "grown_since L s'"
    using s log by (auto simp: composing_def grown_since_def)
  ultimately show "composing p L s' \<and> Q s'" using after [OF _ e log] s by (simp add: composing_def)
qed

lemma place_request_events:
  "last_seq p = 0 \<Longrightarrow> open_turn p \<noteq> None \<Longrightarrow> place_step p None (RequestHeader h r) = Some p"
  "last_seq p = 0 \<Longrightarrow> open_turn p \<noteq> None \<Longrightarrow> place_step p None (RequestContext c) = Some p"
  by (simp_all add: place_step_def apply_transition_def scalars_of_def)

definition folded :: "epoch_header \<Rightarrow> 'w agent \<Rightarrow> bool" where
  "folded h s \<longleftrightarrow> fold_request_header (agent_log s) = Some h"

lemma header_types: "\<not> is_surface_eligible_type (event_type (RequestHeader h r))"
    "\<not> is_surface_eligible_type (event_type (RequestContext c))"
  by (simp_all add: is_surface_eligible_type_def message_types_def)

lemma triple_log_header:
  assumes "canonical_header h = h"
  shows "op_triple (composing p L) (log_header sv h) (\<lambda>_ s. composing p L s \<and> folded h s) (\<lambda>_. in_step p {})"
  unfolding log_header_def
proof (rule op_triple_bind)
  let ?Q = "\<lambda>b s. b = fold_request_header (agent_log s)"
  show "op_triple (composing p L) (on_session request_header) (\<lambda>b s. composing p L s \<and> ?Q b s) (\<lambda>_. in_step p {})"
  proof (rule triple_read)
    show "session_read ss (snd (request_header ss))" for ss by (simp add: session_read_def)
    fix s assume "composing p L s"
    then have ok: "session_ok (agent_session s)" using in_step_place by (auto simp: composing_def)
    have "session_read (agent_session s) (snd (request_header (agent_session s)))" by (simp add: session_read_def)
    with session_read_ok ok request_header_ok [OF ok]
    show "?Q (fst (request_header (agent_session s))) (put_session (snd (request_header (agent_session s))) s)"
      by (metis prod.collapse put_sel(1))
  qed
  fix b
  have append: "op_triple (\<lambda>s. composing p L s \<and> ?Q b s)
      (op_bind (agent_append (ls_env sv) (RequestHeader h r) (None, None)) k)
      (\<lambda>_ s. composing p L s \<and> folded h s) (\<lambda>_. in_step p {})"
    if "\<And>e. op_triple (\<lambda>s. composing p L s \<and> folded h s) (k e) (\<lambda>_ s. composing p L s \<and> folded h s) (\<lambda>_. in_step p {})"
    for r and k :: "session_event \<Rightarrow> ('a, unit) agent_op"
    by (rule op_triple_bind [OF triple_request_event that])
      (use assms header_types in \<open>auto simp: place_request_events folded_def fold_request_header_def fold_header_from_append\<close>)
  have keep: "op_triple (\<lambda>s. composing p L s \<and> folded h s) (op_lift (Inr ()))
      (\<lambda>_ s. composing p L s \<and> folded h s) (\<lambda>_. in_step p {})"
    by (rule op_triple_lift) auto
  have flag: "op_triple (\<lambda>s. composing p L s \<and> folded h s) (op_modify (\<lambda>s. s\<lparr>ag_header_logged := True\<rparr>))
      (\<lambda>_ s. composing p L s \<and> folded h s) (\<lambda>_. in_step p {})"
    by (rule triple_modify) (auto simp: composing_def in_step_def grown_since_def folded_def)
  have same: "op_triple (\<lambda>s. composing p L s \<and> ?Q b s) (op_lift (Inr ()))
      (\<lambda>_ s. composing p L s \<and> folded h s) (\<lambda>_. in_step p {})"
    if "\<not> (case b of None \<Rightarrow> True | Some g \<Rightarrow> \<not> header_equals g h)"
  proof (rule op_triple_lift)
    fix s assume s: "composing p L s \<and> ?Q b s"
    from that obtain g where g: "b = Some g" "header_equals g h" by (auto split: option.splits)
    have "canonical_header g = g"
      using s g(1) fold_header_canonical [of None "agent_log s" g] by (simp add: fold_request_header_def)
    with g(2) assms have "g = h" by (simp add: header_equals_iff)
    with s g(1) show "composing p L s \<and> folded h s" by (simp add: folded_def)
  qed simp
  show "op_triple (\<lambda>s. composing p L s \<and> ?Q b s)
     (op_bind (op_gets ag_header_logged)
       (\<lambda>logged. if \<not> logged
          then op_bind (agent_append (ls_env sv)
                   (RequestHeader h (if b = None then InitialHeader else ResumeHeader)) (None, None))
                 (\<lambda>_. op_modify (\<lambda>s. s\<lparr>ag_header_logged := True\<rparr>))
          else if (case b of None \<Rightarrow> True | Some g \<Rightarrow> \<not> header_equals g h)
          then op_bind (agent_append (ls_env sv) (RequestHeader h ChangeHeader) (None, None)) (\<lambda>_. op_lift (Inr ()))
          else op_lift (Inr ())))
     (\<lambda>_ s. composing p L s \<and> folded h s) (\<lambda>_. in_step p {})"
  proof (rule op_triple_bind [of _ _ "\<lambda>_ s. composing p L s \<and> ?Q b s"])
    show "op_triple (\<lambda>s. composing p L s \<and> ?Q b s) (op_gets ag_header_logged)
        (\<lambda>_ s. composing p L s \<and> ?Q b s) (\<lambda>_. in_step p {})"
      by (rule triple_gets) simp
  qed (use append flag keep same in auto)
qed

lemma triple_log_context:
  fixes sv :: "'w loop_services"
  shows "op_triple (\<lambda>s. composing p L s \<and> folded h s) (log_context sv rc) (\<lambda>_ s. composing p L s \<and> folded h s) (\<lambda>_. in_step p {})"
  unfolding log_context_def
proof (rule op_triple_bind [of _ _ "\<lambda>_ s. composing p L s \<and> folded h s"])
  show "op_triple (\<lambda>s :: 'w agent. composing p L s \<and> folded h s) (on_session request_context_of)
      (\<lambda>_ s. composing p L s \<and> folded h s) (\<lambda>_. in_step p {})"
  proof (rule op_tripleI)
    fix s :: "'w agent" and x s' assume "on_session request_context_of s = (Inl x, s')"
    then show "in_step p {} s'" by (simp add: on_session_def split: prod.splits)
  next
    fix s :: "'w agent" and a s' assume s: "composing p L s \<and> folded h s" and run: "on_session request_context_of s = (Inr a, s')"
    have "s' = put_session (snd (request_context_of (agent_session s))) s"
      using run by (auto simp: on_session_def split: prod.splits)
    moreover have "session_read (agent_session s) (snd (request_context_of (agent_session s)))" by (simp add: session_read_def)
    ultimately have "in_step p {} s'" "agent_log s' = agent_log s"
      using read_place [where s = s and p = p and ids = "{}"] s by (auto simp: composing_def)
    with s show "composing p L s' \<and> folded h s'" by (auto simp: composing_def folded_def intro: grown_since_log)
  qed
  fix prev
  have event: "op_triple (\<lambda>s. composing p L s \<and> folded h s) (agent_append (ls_env sv) (RequestContext rc) (None, None))
      (\<lambda>_ s. composing p L s \<and> folded h s) (\<lambda>_. in_step p {})"
    by (rule triple_request_event)
      (use header_types in \<open>auto simp: place_request_events folded_def fold_request_header_def fold_header_from_append\<close>)
  have append: "op_triple (\<lambda>s. composing p L s \<and> folded h s)
      (op_bind (agent_append (ls_env sv) (RequestContext rc) (None, None)) (\<lambda>_. op_lift (Inr ())))
      (\<lambda>_ s. composing p L s \<and> folded h s) (\<lambda>_. in_step p {})"
    by (rule op_triple_bind [OF event]) (auto intro!: op_triple_lift)
  have keep: "op_triple (\<lambda>s. composing p L s \<and> folded h s) (op_lift (Inr ()))
      (\<lambda>_ s. composing p L s \<and> folded h s) (\<lambda>_. in_step p {})"
    by (rule op_triple_lift) auto
  show "op_triple (\<lambda>s. composing p L s \<and> folded h s)
     (if map_option rc_provider prev \<noteq> Some (rc_provider rc) \<or> map_option rc_model prev \<noteq> Some (rc_model rc)
         \<or> Option.bind prev rc_context_window \<noteq> rc_context_window rc
      then op_bind (agent_append (ls_env sv) (RequestContext rc) (None, None)) (\<lambda>_. op_lift (Inr ()))
      else op_lift (Inr ()))
     (\<lambda>_ s. composing p L s \<and> folded h s) (\<lambda>_. in_step p {})"
    using append keep by (cases "map_option rc_provider prev \<noteq> Some (rc_provider rc) \<or> map_option rc_model prev \<noteq> Some (rc_model rc)
         \<or> Option.bind prev rc_context_window \<noteq> rc_context_window rc") (simp_all only: if_True if_False)
qed

subsection \<open>What was built\<close>

definition built :: "session_trace \<Rightarrow> session_event list \<Rightarrow> message list \<Rightarrow> llm_request \<Rightarrow> 'w agent \<Rightarrow> bool" where
  "built p L ms rq s \<longleftrightarrow> composing p L s \<and> (\<exists>h. folded h s \<and> rq = request_of h ms)"

lemma triple_send_request:
  "op_triple (composing p L) (send_request sv config prepared tools system ms)
     (\<lambda>x s. built p L ms (fst x) s) (\<lambda>_. in_step p {})"
  unfolding send_request_def Let_def
  by (intro op_triple_bind [OF triple_log_header] op_triple_bind [OF triple_log_context]
      op_triple_bind [OF triple_throw_if] op_triple_lift)
    (auto simp: composed_header_def canonical_header_idem composing_def built_def)

definition polite_composition :: "'w loop_services \<Rightarrow> bool" where
  "polite_composition sv \<longleftrightarrow> (\<forall>t st c. polite (ls_request sv t st c)) \<and> (\<forall>c. polite (ls_prepare sv c))"

lemma triple_prepare:
  assumes "polite (ls_prepare sv c)"
  shows "op_triple (composing p L) (prepare_call sv c) (\<lambda>_. composing p L) (\<lambda>_. in_step p {})"
proof -
  have "outside s t" if "prepare_call sv c s = (r, t)" for s r t
  proof -
    obtain q u where q: "ls_prepare sv c s = (q, u)" by fastforce
    with that have "t = u"
      by (auto simp: prepare_call_def op_catch_def op_bind_def op_lift_def op_raise_def
          split: sum.splits stop.splits if_splits)
    with assms q show ?thesis by (simp add: polite_def)
  qed
  then show ?thesis by (intro triple_outside) (simp add: polite_def)
qed

lemma triple_build_request:
  assumes "polite_composition sv"
  shows "op_triple (composing p L) (build_request sv t st tools system ms)
    (\<lambda>x s. built p L ms (fst x) s) (\<lambda>_. in_step p {})"
  unfolding build_request_def
proof (rule op_triple_bind [of _ _ "\<lambda>_. composing p L"])
  have "op_triple (composing p L) (on_session request_header) (\<lambda>x s. composing p L s \<and> True) (\<lambda>_. in_step p {})"
    by (rule triple_read) (simp_all add: session_read_def)
  then show "op_triple (composing p L) (on_session request_header) (\<lambda>_. composing p L) (\<lambda>_. in_step p {})" by simp
  fix persisted
  have seed: "op_triple (composing p L) (seed_config sv persisted) (\<lambda>_. composing p L) (\<lambda>_. in_step p {})"
    by (auto simp: op_triple_def seed_config_def composing_def split: option.splits)
  show "op_triple (composing p L)
     (op_bind (seed_config sv persisted)
       (\<lambda>seed. op_bind (ls_request sv t st seed)
         (\<lambda>proposed. op_bind throw_if_aborted
           (\<lambda>_. if length (cc_provider proposed) = 0 \<or> length (cc_model proposed) = 0
                then op_raise (Thrown ''no provider/model'')
                else op_bind (prepare_call sv proposed)
                  (\<lambda>prepared. op_bind throw_if_aborted
                    (\<lambda>_. send_request sv (case prepared of None \<Rightarrow> proposed | Some c \<Rightarrow> lc_config c)
                           prepared tools system ms))))))
     (\<lambda>x s. built p L ms (fst x) s) (\<lambda>_. in_step p {})"
  proof (rule op_triple_bind [OF seed], rule op_triple_bind [OF triple_outside], goal_cases)
    case (2 seed proposed)
    have "op_triple (composing p L) (op_raise (Thrown ''no provider/model''))
        (\<lambda>x s. built p L ms (fst x) s) (\<lambda>_. in_step p {})"
      unfolding op_raise_def by (rule op_triple_lift) (auto simp: composing_def)
    moreover have "op_triple (composing p L) (op_bind (prepare_call sv proposed)
        (\<lambda>prepared. op_bind throw_if_aborted
          (\<lambda>_. send_request sv (case prepared of None \<Rightarrow> proposed | Some c \<Rightarrow> lc_config c) prepared tools system ms)))
        (\<lambda>x s. built p L ms (fst x) s) (\<lambda>_. in_step p {})"
      using assms
      by (intro op_triple_bind [OF triple_prepare] op_triple_bind [OF triple_throw_if] triple_send_request)
        (auto simp: polite_composition_def composing_def)
    ultimately show ?case
      by (intro op_triple_bind [OF triple_throw_if]) (auto simp: composing_def)
  qed (use assms in \<open>auto simp: polite_composition_def\<close>)
qed

lemma derive_after_events:
  assumes "session_ok ss" and "events_of ss = (evs, ss1)"
  shows "evs = ss_log ss \<and> (\<exists>ms. fst (derive_messages ss1) = Inr ms \<and> fst (derive_messages ss) = Inr ms)"
proof -
  from events_of_ok [OF assms] have ok: "session_ok ss1" and evs: "evs = ss_log ss" by auto
  have log: "ss_log ss1 = ss_log ss" using assms(2) by (auto simp: events_of_def split: option.splits)
  obtain st where st: "replay (surface_step 0) create_fold_state (ss_log ss) = (None, length (ss_log ss), st)"
    using assms(1) by (auto simp: session_ok_def log_ok_def)
  from derive_messages_ok [OF assms(1) st] have "\<exists>ms. fst (derive_messages ss) = Inr ms" by auto
  moreover have "fst (derive_messages ss1) = fst (derive_messages ss)"
    using derive_off_surface [OF assms(1) ok, of "[]"] log by (simp add: off_surface_def)
  ultimately show ?thesis using evs by simp
qed

lemma dispatch_of_built:
  assumes "built p L ms rq s" and "list_ex (\<lambda>e. case ev_data e of StepStart t st \<Rightarrow> True | _ \<Rightarrow> False) L"
  shows "fst (dispatch_check rq (agent_session s)) =
    (if fst (derive_messages (agent_session s)) = Inr ms then None else Some MessagesDiverge)"
proof -
  from assms(1) obtain h es where h: "fold_request_header (agent_log s) = Some h" "rq = request_of h ms"
      and es: "agent_log s = L @ es" and at: "in_step p {} s"
    by (auto simp: built_def composing_def folded_def grown_since_def)
  obtain evs ss1 where ev: "events_of (agent_session s) = (evs, ss1)" by fastforce
  from derive_after_events [OF _ ev] in_step_place [OF at] obtain ms' where
    ss1: "evs = agent_log s" "fst (derive_messages ss1) = Inr ms'" "fst (derive_messages (agent_session s)) = Inr ms'"
    by auto
  obtain d ss2 where d: "derive_messages ss1 = (d, ss2)" by fastforce
  have "list_ex (\<lambda>e. case ev_data e of StepStart t st \<Rightarrow> True | _ \<Rightarrow> False) evs"
    using assms(2) es ss1(1) by simp
  with ev ss1 h d show ?thesis by (auto simp: dispatch_check_def request_of_def)
qed

text \<open>
  Claim C7. Inside an open step, with services that act on the agent only by what the
  harness offers to others (sending, cancelling, reading, inbox commands, events outside the
  turn structure), a request composed from the messages derived before always stands under
  the header the log folds to, whatever was proposed and resolved: the durable checks of the
  companion at dispatch can refuse it only because the session no longer derives those
  messages, and pass whenever they are still what it derives, in particular when nothing the
  model sees was appended while the request was proposed and prepared. A composition that
  throws leaves the log in its step.
\<close>

theorem built_requests_pass_the_companion:
  assumes "polite_composition sv"
    and "at_place p s" and "open_turn p = Some t" and "open_step p = Some st" and "ag_phase s = Running a t st w"
    and "fst (derive_messages (agent_session s)) = Inr ms"
    and "list_ex (\<lambda>e. case ev_data e of StepStart t st \<Rightarrow> True | _ \<Rightarrow> False) (agent_log s)"
  shows "case build_request sv t st tools system ms s of
      (Inr (rq, prepared), s') \<Rightarrow>
        fst (dispatch_check rq (agent_session s')) =
          (if fst (derive_messages (agent_session s')) = Inr ms then None else Some MessagesDiverge) \<and>
        (\<exists>es. agent_log s' = agent_log s @ es \<and>
          (off_surface es \<longrightarrow> fst (dispatch_check rq (agent_session s')) = None))
    | (Inl x, s') \<Rightarrow> (\<exists>P. at_place (p\<lparr>pending_calls := P\<rparr>) s')"
proof -
  have "at_place (p\<lparr>pending_calls := pending_calls p\<rparr>) s" using assms(2) by simp
  then have at: "in_step p {} s" using assms(3-5) unfolding in_step_def by blast
  then have pre: "composing p (agent_log s) s" by (simp add: composing_def)
  obtain r s' where r: "build_request sv t st tools system ms s = (r, s')" by fastforce
  show ?thesis
  proof (cases r)
    case (Inl x)
    with op_triple_throwD [OF triple_build_request [OF assms(1)] pre] r have "in_step p {} s'" by blast
    with r Inl show ?thesis by (auto simp: in_step_def)
  next
    case (Inr b)
    obtain rq prepared where b: "b = (rq, prepared)" by fastforce
    with op_triple_returnD [OF triple_build_request [OF assms(1)] pre] r Inr
    have built: "built p (agent_log s) ms rq s'" by fastforce
    then obtain es where es: "agent_log s' = agent_log s @ es" and at': "in_step p {} s'"
      by (auto simp: built_def composing_def grown_since_def)
    have ok: "session_ok (agent_session s)" "session_ok (agent_session s')"
      using in_step_place at at' by auto
    have "fst (derive_messages (agent_session s')) = Inr ms" if "off_surface es"
      using derive_off_surface [OF ok es that] assms(6) by simp
    with dispatch_of_built [OF built assms(7)] es r Inr b show ?thesis by auto
  qed
qed

subsection \<open>A sample\<close>

text \<open>Services that answer at once; the model streams one text block and stops.\<close>

definition sample_config :: call_config where
  "sample_config = \<lparr>cc_provider = ''p'', cc_model = ''m'', cc_reasoning_effort = None, cc_temperature = None,
     cc_max_tokens = Some 100, cc_stop = None\<rparr>"

definition sample_assembly :: prompt_assembly where
  "sample_assembly = \<lparr>pa_sections = [\<lparr>ap_name = ''s'', ap_text = ''in {{cwd}}''\<rparr>], pa_contexts = [],
     pa_tools = sample_schemas, pa_variables = [(''cwd'', Some ''/'')]\<rparr>"

definition sample_llm_call :: llm_call where
  "sample_llm_call = \<lparr>lc_config = sample_config, lc_defaults = \<lparr>ad_reasoning_effort = False, ad_max_tokens = True\<rparr>,
     lc_window = Some 1000, lc_policy = AlwaysPolicy \<lparr>rb_initial_delay = 1, rb_max_delay = 2, rb_jitter = 0\<rparr>\<rparr>"

definition sample_services :: "nat loop_services" where
  "sample_services = \<lparr>ls_tools = sample_tools, ls_provider = Some ''p'', ls_model = Some ''m'', ls_max_tokens = None,
     ls_context = (Never, 0), ls_mint = op_lift (Inr ''a1''), ls_assemble = op_lift (Inr sample_assembly),
     ls_pre_step = (\<lambda>t st ms d. op_lift (Inr d)), ls_request = (\<lambda>t st c. op_lift (Inr c)),
     ls_prepare = (\<lambda>c. op_lift (Inr sample_llm_call)), ls_stream = (\<lambda>rq c. op_modify (\<lambda>s. s\<lparr>ag_world := 0\<rparr>)),
     ls_chunk = (\<lambda>s. case drop (ag_world s) [BlockStart 0 ''text'', TextDelta 0 ''ok'', BlockEnd 0 (TextB ''ok''),
         FinishC FStop None] of
         [] \<Rightarrow> (Inr None, s) | c # cs \<Rightarrow> (Inr (Some c), s\<lparr>ag_world := Suc (ag_world s)\<rparr>)),
     ls_close = op_lift (Inr ()), ls_request_error = (\<lambda>t st p j r. op_lift (Inr False)),
     ls_stopping = (\<lambda>t. op_lift (Inr ())), ls_chain = (\<lambda>x. ''failed'')\<rparr>"

lemma sample_composition_polite: "polite_composition sample_services"
  by (simp add: polite_composition_def sample_services_def polite_lift)

definition sample_messages :: "message list" where
  "sample_messages = (case fst (derive_messages sample_session) of Inr ms \<Rightarrow> ms | Inl x \<Rightarrow> [])"

definition counting_agent :: "nat agent" where
  "counting_agent = \<lparr>ag_host = \<lparr>ih_session = sample_session, ih_inbox = empty_inbox, ih_notices = []\<rparr>,
     ag_phase = Running None 1 1 False, ag_header_logged = False, ag_notices = [], ag_world = 0\<rparr>"

lemma built_requests_pass_the_companion_witness:
  "case build_request sample_services 1 1 [] ''in /'' sample_messages counting_agent of
      (Inr (rq, prepared), s') \<Rightarrow>
        fst (dispatch_check rq (agent_session s')) =
          (if fst (derive_messages (agent_session s')) = Inr sample_messages then None else Some MessagesDiverge)
    | (Inl x, s') \<Rightarrow> (\<exists>P. at_place (sample_place\<lparr>pending_calls := P\<rparr>) s')"
proof -
  have place: "at_place sample_place counting_agent"
    using sample_agent_place(1) by (simp add: counting_agent_def sample_agent_def)
  have phase: "ag_phase counting_agent = Running None 1 1 False" by (simp add: counting_agent_def)
  have messages: "fst (derive_messages (agent_session counting_agent)) = Inr sample_messages" by code_simp
  have "list_ex (\<lambda>e. case ev_data e of StepStart t st \<Rightarrow> True | _ \<Rightarrow> False) (agent_log counting_agent)" by code_simp
  from built_requests_pass_the_companion [OF sample_composition_polite place sample_agent_place(2,3) phase messages this,
      where tools = "[]" and system = "''in /''"]
  show ?thesis by (auto split: prod.splits sum.splits)
qed

lemma sample_request_built:
  "map_sum id (\<lambda>x. rq_system (fst x)) (fst (build_request sample_services 1 1 [] ''in /'' sample_messages counting_agent)) =
     Inr (Some ''in /'')"
  by code_simp

end
