(* ===== verification/Agent_Loop.thy ===== *)
theory Agent_Loop
  imports Agent_Request
begin

section \<open>The driver of an agent\<close>

text \<open>
  \<open>kick\<close>, \<open>preStep\<close>, \<open>turn\<close> and \<open>step\<close> of \<^verbatim>\<open>packages/core/agent-loop/src/agent.ts\<close>. The
  loops of the driver may go on forever (a model that never stops streaming, a plugin that
  always retries, input that never runs dry), so each takes a bound and is \<open>Suspended\<close> past
  it: the state it left is one the driver passes through. Between two turns of one driver
  nothing else is let in.
\<close>

subsection \<open>Failures\<close>

text \<open>\<open>new LlmError(failure.message, failure.code, failure)\<close>, which checks its arguments.\<close>

definition nonempty_string :: "json option \<Rightarrow> bool" where
  "nonempty_string v \<longleftrightarrow> (case v of Some (JStr (c # cs)) \<Rightarrow> True | _ \<Rightarrow> False)"

definition field_entries :: "json \<Rightarrow> string \<Rightarrow> (string \<times> json) list" where
  "field_entries j k = (case data_field j k of None \<Rightarrow> [] | Some v \<Rightarrow> [(k, v)])"

definition new_llm_error :: "json \<Rightarrow> agent_error" where
  "new_llm_error j =
     (if \<not> nonempty_string (data_field j ''message'') \<or> \<not> nonempty_string (data_field j ''code'')
         \<or> (case data_field j ''status'' of None \<Rightarrow> False
            | Some v \<Rightarrow> (case json_safe_int v of Some n \<Rightarrow> n < 100 \<or> 599 < n | None \<Rightarrow> True))
         \<or> (case data_field j ''providerRetryAfterMs'' of None \<Rightarrow> False
            | Some v \<Rightarrow> (case v of JNum q \<Rightarrow> q \<le> 0 | _ \<Rightarrow> True))
         \<or> data_field j ''requestId'' \<noteq> None \<and> \<not> nonempty_string (data_field j ''requestId'')
      then Thrown ''Error''
      else LlmFailed (JObj (field_entries j ''message'' @ field_entries j ''code'' @ field_entries j ''status''
             @ field_entries j ''providerRetryAfterMs'' @ field_entries j ''requestId'')))"

definition throw_error :: "agent_error \<Rightarrow> ('w, 'a) agent_op" where
  "throw_error x s =
     (case phase_place (ag_phase s) of
        (turn, step) \<Rightarrow> (Inl (Raised x), s\<lparr>ag_notices := ag_notices s @ [ErrorReported turn step x]\<rparr>))"

definition turn_failure :: "'w loop_services \<Rightarrow> agent_error \<Rightarrow> turn_end_reason" where
  "turn_failure sv x =
     Errored (case x of
                LlmFailed j \<Rightarrow> j
              | _ \<Rightarrow> JObj [(''message'', JStr (ls_chain sv x)), (''code'', JStr ''UNKNOWN'')])"

subsection \<open>Proposing a step\<close>

datatype prepared_step = RejectStep | EnterStep "user_message list" prompt_assembly

definition section_json :: "assembled_part \<Rightarrow> json" where
  "section_json p = JObj [(''name'', JStr (ap_name p)), (''text'', JStr (ap_text p))]"

definition rendered :: "prompt_error + 'a \<Rightarrow> ('w, 'a) agent_op" where
  "rendered r = op_lift (map_sum (\<lambda>x. Raised (NotRendered x)) id r)"

text \<open>An identity is minted only for a snapshot that has to be said.\<close>

definition propose_context :: "'w loop_services \<Rightarrow> assembled_part list \<Rightarrow> ('w, user_message option) agent_op" where
  "propose_context sv sections =
     op_bind (op_gets (\<lambda>s. context_now (ls_context sv) (agent_log s)))
       (\<lambda>r. case project_context r (join_context_sections sections) (map section_json sections) [] of
              None \<Rightarrow> op_lift (Inr None)
            | Some m \<Rightarrow> op_bind (ls_mint sv) (\<lambda>i. op_lift (Inr (Some (m\<lparr>um_id := i\<rparr>)))))"

definition pre_step :: "'w loop_services \<Rightarrow> inbox_target \<Rightarrow> int \<Rightarrow> int \<Rightarrow> ('w, prepared_step) agent_op" where
  "pre_step sv target turn step =
     op_bind (in_inbox (ls_env sv) (\<lambda>ie. claim_inbox ie target turn))
       (\<lambda>claimed. op_bind (ls_assemble sv)
         (\<lambda>assembly. op_bind throw_if_aborted
           (\<lambda>_. op_bind (rendered (render_context_sections assembly))
             (\<lambda>sections. op_bind (propose_context sv sections)
               (\<lambda>context. op_bind (ls_pre_step sv turn step claimed
                               (Enter (case context of None \<Rightarrow> claimed | Some m \<Rightarrow> claimed @ [m])))
                 (\<lambda>decision. op_bind throw_if_aborted
                   (\<lambda>_. op_lift (Inr (case decision of
                           Reject \<Rightarrow> RejectStep
                         | Enter ms \<Rightarrow> EnterStep ms assembly)))))))))"

subsection \<open>A model call\<close>

definition derived_history :: "('w, message list) agent_op" where
  "derived_history s =
     (case derive_messages (agent_session s) of
        (r, ss) \<Rightarrow> (map_sum (\<lambda>x. Raised (NotDerived x)) id r, put_session ss s))"

text \<open>The body of \<open>for await\<close>: when it throws, the iterator is closed before the error goes on.\<close>

definition closing :: "'w loop_services \<Rightarrow> ('w, 'a) agent_op \<Rightarrow> ('w, 'a) agent_op" where
  "closing sv m s =
     (case m s of
        (Inl (Raised x), s') \<Rightarrow>
          (case ls_close sv s' of
             (Inl Suspended, s'') \<Rightarrow> (Inl Suspended, s'')
           | (_, s'') \<Rightarrow> (Inl (Raised x), s''))
      | r \<Rightarrow> r)"

definition log_chunk :: "'w loop_services \<Rightarrow> int \<Rightarrow> int \<Rightarrow> stream_chunk \<Rightarrow> ('w, int) agent_op" where
  "log_chunk sv turn step c =
     closing sv (op_bind throw_if_aborted
       (\<lambda>_. op_bind (agent_append (ls_env sv) (AssistantChunk turn step c) (None, None))
         (\<lambda>e. op_lift (Inr (ev_seq e)))))"

fun read_stream ::
  "'w loop_services \<Rightarrow> int \<Rightarrow> int \<Rightarrow> nat \<Rightarrow> block_assembler \<Rightarrow> int list \<Rightarrow> ('w, block_assembler \<times> int list) agent_op"
where
  "read_stream sv turn step 0 asm seqs = op_lift (Inl Suspended)"
| "read_stream sv turn step (Suc k) asm seqs =
     op_bind (ls_chunk sv)
       (\<lambda>c. case c of
              None \<Rightarrow> op_lift (Inr (asm, seqs))
            | Some c \<Rightarrow>
                op_bind (log_chunk sv turn step c)
                  (\<lambda>n. read_stream sv turn step k (push_chunk asm c) (seqs @ [n])))"

fun finish_failure :: "finish_reason \<Rightarrow> json option" where
  "finish_failure (FError j) = Some j"
| "finish_failure (FAborted j) = Some j"
| "finish_failure _ = None"

fun is_tool_call :: "content_block \<Rightarrow> bool" where
  "is_tool_call (ToolCallB c n a) \<longleftrightarrow> True"
| "is_tool_call _ \<longleftrightarrow> False"

definition answer_data ::
  "int \<Rightarrow> int \<Rightarrow> llm_request \<Rightarrow> block_assembler \<Rightarrow> content_block list \<Rightarrow> message_id \<Rightarrow> event_data"
where
  "answer_data turn step rq asm blocks i =
     AssistantMessage turn step
       \<lparr>am_id = i, am_content = blocks, am_provider = cc_provider (rq_config rq), am_model = cc_model (rq_config rq),
        am_replay = ba_replay asm\<rparr> (ba_usage asm)"

definition run_tools ::
  "'w loop_services \<Rightarrow> int \<Rightarrow> int \<Rightarrow> block_assembler \<Rightarrow> content_block list \<Rightarrow> ('w, turn_end_reason option) agent_op"
where
  "run_tools sv turn step asm blocks =
     (if finish_of asm = FMaxTokens then op_lift (Inr (Some MaxTokens))
      else
        (let calls = filter is_tool_call blocks in
         if length calls = 0 then op_lift (Inr (Some Completed))
         else op_bind (execute_tool_calls (ls_tools sv) turn step calls)
                (\<lambda>concluded. op_lift (Inr (if concluded then Some Completed else None)))))"

definition answer ::
  "'w loop_services \<Rightarrow> int \<Rightarrow> int \<Rightarrow> llm_request \<Rightarrow> block_assembler \<Rightarrow> int list \<Rightarrow> ('w, turn_end_reason option) agent_op"
where
  "answer sv turn step rq asm seqs =
     op_bind (op_lift (map_sum (\<lambda>x. Raised (NotAssembled x)) id (assembled_blocks asm)))
       (\<lambda>blocks. op_bind (ls_mint sv)
         (\<lambda>i. op_bind (agent_append (ls_env sv) (answer_data turn step rq asm blocks i)
                  (Some (JStr ''append''), Some (JArr (map jint seqs))))
           (\<lambda>_. run_tools sv turn step asm blocks)))"

text \<open>One round of the loop of \<open>step\<close>; \<open>None\<close> is a retry.\<close>

definition model_round ::
  "'w loop_services \<Rightarrow> int \<Rightarrow> int \<Rightarrow> tool_schema list \<Rightarrow> string \<Rightarrow> nat \<Rightarrow> ('w, turn_end_reason option option) agent_op"
where
  "model_round sv turn step tools system n =
     op_bind derived_history
       (\<lambda>messages. op_bind (build_request sv turn step tools system messages)
         (\<lambda>built. op_bind (ls_stream sv (fst built) (snd built))
           (\<lambda>_. op_bind throw_if_aborted
             (\<lambda>_. op_bind (read_stream sv turn step n new_assembler [])
               (\<lambda>got. op_bind throw_if_aborted
                 (\<lambda>_. case finish_failure (finish_of (fst got)) of
                        Some j \<Rightarrow>
                          op_bind (ls_request_error sv turn step (cc_provider (rq_config (fst built))) j
                                     (map_option lc_policy (snd built)))
                            (\<lambda>retry. op_bind throw_if_aborted
                              (\<lambda>_. if retry then op_lift (Inr None) else op_raise (new_llm_error j)))
                      | None \<Rightarrow>
                          op_bind (answer sv turn step (fst built) (fst got) (snd got))
                            (\<lambda>r. op_lift (Inr (Some r)))))))))"

fun model_rounds ::
  "'w loop_services \<Rightarrow> int \<Rightarrow> int \<Rightarrow> tool_schema list \<Rightarrow> string \<Rightarrow> nat \<Rightarrow> nat \<Rightarrow> ('w, turn_end_reason option) agent_op"
where
  "model_rounds sv turn step tools system n 0 = op_lift (Inl Suspended)"
| "model_rounds sv turn step tools system n (Suc k) =
     op_bind (model_round sv turn step tools system n)
       (\<lambda>r. case r of
              None \<Rightarrow> model_rounds sv turn step tools system n k
            | Some x \<Rightarrow> op_lift (Inr x))"

definition run_step :: "'w loop_services \<Rightarrow> nat \<Rightarrow> prompt_assembly \<Rightarrow> ('w, turn_end_reason option) agent_op" where
  "run_step sv n assembly =
     op_bind (op_gets ag_phase)
       (\<lambda>p. case p of
              Running a turn step w \<Rightarrow>
                op_bind throw_if_aborted
                  (\<lambda>_. op_bind (rendered (render_prompt assembly))
                    (\<lambda>system. model_rounds sv turn step (pa_tools assembly) system n n))
            | _ \<Rightarrow> op_raise (Thrown ''step outside running phase''))"

subsection \<open>A turn\<close>

fun with_turn :: "int \<Rightarrow> phase \<Rightarrow> phase" where
  "with_turn t (Running a t' st w) = Running a t st w"
| "with_turn t p = p"

fun with_step :: "int \<Rightarrow> phase \<Rightarrow> phase" where
  "with_step st (Running a t st' w) = Running a t st w"
| "with_step st p = p"

definition log_messages :: "'w loop_services \<Rightarrow> user_message list \<Rightarrow> ('w, unit) agent_op" where
  "log_messages sv ms =
     for_each (\<lambda>m. op_bind (agent_append (ls_env sv) (UserMessage m) (Some (JStr ''append''), None))
                     (\<lambda>_. op_lift (Inr ()))) ms"

definition begin_step :: "'w loop_services \<Rightarrow> int \<Rightarrow> int \<Rightarrow> ('w, unit) agent_op" where
  "begin_step sv turn step =
     op_bind (agent_append (ls_env sv) (StepStart turn step) (None, None))
       (\<lambda>_. op_modify (\<lambda>s. put_phase (with_step step (ag_phase s)) s))"

definition end_step :: "'w loop_services \<Rightarrow> int \<Rightarrow> int \<Rightarrow> ('w, unit) agent_op" where
  "end_step sv turn step =
     op_bind (agent_append (ls_env sv) (StepEnd turn step) (None, None)) (\<lambda>_. op_lift (Inr ()))"

definition entered_step ::
  "'w loop_services \<Rightarrow> nat \<Rightarrow> int \<Rightarrow> int \<Rightarrow> user_message list \<Rightarrow> prompt_assembly \<Rightarrow> ('w, turn_end_reason option) agent_op"
where
  "entered_step sv n turn step ms assembly =
     op_bind (begin_step sv turn step)
       (\<lambda>_. op_finally (op_bind (log_messages sv ms) (\<lambda>_. run_step sv n assembly)) (end_step sv turn step))"

text \<open>Max-tokens is sticky.\<close>

definition sticky_end :: "turn_end_reason option \<Rightarrow> turn_end_reason option \<Rightarrow> turn_end_reason option" where
  "sticky_end old new = (if old = Some MaxTokens then old else new)"

definition no_next_step :: "'w agent \<Rightarrow> bool" where
  "no_next_step s \<longleftrightarrow> length (pending_of NextStep (agent_inbox s)) = 0"

definition stopping :: "'w loop_services \<Rightarrow> int \<Rightarrow> turn_end_reason option \<Rightarrow> ('w, unit) agent_op" where
  "stopping sv turn ends =
     op_bind (op_gets no_next_step)
       (\<lambda>b. if ends \<noteq> None \<and> b
            then op_bind (ls_stopping sv turn) (\<lambda>_. throw_if_aborted)
            else op_lift (Inr ()))"

text \<open>
  The loop of \<open>turn\<close>: the reason the turn ends with, and whether the driver may go on
  (\<open>break\<close>) or stops (\<open>return false\<close>).
\<close>

fun turn_steps ::
  "'w loop_services \<Rightarrow> nat \<Rightarrow> int \<Rightarrow> nat \<Rightarrow> inbox_target \<Rightarrow> turn_end_reason option \<Rightarrow> ('w, turn_end_reason \<times> bool) agent_op"
where
  "turn_steps sv n turn 0 target ends = op_lift (Inl Suspended)"
| "turn_steps sv n turn (Suc k) target ends =
     op_bind throw_if_aborted
       (\<lambda>_. op_bind (op_gets (\<lambda>s. snd (phase_place (ag_phase s))))
         (\<lambda>before. op_bind (pre_step sv target turn (before + 1))
           (\<lambda>decision. case decision of
                RejectStep \<Rightarrow> op_lift (Inr (Blocked, False))
              | EnterStep ms assembly \<Rightarrow>
                  if ends \<noteq> None \<and> length ms = 0 then op_lift (Inr (the ends, True))
                  else if before = 0 \<and> length ms = 0 then op_lift (Inr (Completed, False))
                  else
                    op_bind throw_if_aborted
                      (\<lambda>_. op_bind (entered_step sv n turn (before + 1) ms assembly)
                        (\<lambda>ended. op_bind throw_if_aborted
                          (\<lambda>_. op_bind (stopping sv turn (sticky_end ends ended))
                            (\<lambda>_. op_bind (op_gets no_next_step)
                              (\<lambda>b. if sticky_end ends ended \<noteq> None \<and> b
                                   then op_lift (Inr (the (sticky_end ends ended), True))
                                   else turn_steps sv n turn k NextStep (sticky_end ends ended)))))))))"

definition begin_turn :: "'w loop_services \<Rightarrow> ('w, int) agent_op" where
  "begin_turn sv =
     op_bind throw_if_aborted
       (\<lambda>_. op_bind (op_gets (\<lambda>s. fst (phase_place (ag_phase s)) + 1))
         (\<lambda>turn. op_bind (op_catch (agent_append (ls_env sv) (TurnStart turn) (None, None)) throw_error)
           (\<lambda>_. op_bind (op_modify (\<lambda>s. put_phase (with_turn turn (ag_phase s)) s))
             (\<lambda>_. op_lift (Inr turn)))))"

definition end_turn :: "'w loop_services \<Rightarrow> int \<Rightarrow> turn_end_reason \<Rightarrow> ('w, unit) agent_op" where
  "end_turn sv turn reason =
     op_bind (op_catch (agent_append (ls_env sv) (TurnEnd turn reason) (None, None)) throw_error)
       (\<lambda>_. op_lift (Inr ()))"

text \<open>The \<open>catch\<close> and \<open>finally\<close> of a turn.\<close>

definition settled_turn ::
  "'w loop_services \<Rightarrow> int \<Rightarrow> ('w, turn_end_reason \<times> bool) agent_op \<Rightarrow> ('w, bool) agent_op"
where
  "settled_turn sv turn m s =
     (case m s of
        (Inl Suspended, s') \<Rightarrow> (Inl Suspended, s')
      | (Inl (Raised x), s') \<Rightarrow>
          (case phase_abort (ag_phase s') of
             Some c \<Rightarrow> op_finally (op_raise x) (end_turn sv turn (Aborted c)) s'
           | None \<Rightarrow> op_finally (throw_error x) (end_turn sv turn (turn_failure sv x)) s')
      | (Inr (reason, go), s') \<Rightarrow> op_bind (end_turn sv turn reason) (\<lambda>_. op_lift (Inr go)) s')"

definition next_turn_phase :: "phase \<Rightarrow> phase" where
  "next_turn_phase p = (case p of Running a t st w \<Rightarrow> Running None t 0 False | _ \<Rightarrow> p)"

definition run_turn :: "'w loop_services \<Rightarrow> nat \<Rightarrow> ('w, bool) agent_op" where
  "run_turn sv n =
     op_bind (begin_turn sv)
       (\<lambda>turn. op_bind (settled_turn sv turn (turn_steps sv n turn n NextTurn None))
         (\<lambda>go. op_bind (op_gets (\<lambda>s. has_pending (agent_inbox s)))
           (\<lambda>pending. if \<not> go \<or> \<not> pending then op_lift (Inr False)
                      else op_bind (op_modify (\<lambda>s. put_phase (next_turn_phase (ag_phase s)) s))
                             (\<lambda>_. op_lift (Inr True)))))"

subsection \<open>The driver\<close>

fun turns :: "'w loop_services \<Rightarrow> nat \<Rightarrow> nat \<Rightarrow> ('w, unit) agent_op" where
  "turns sv n 0 = op_lift (Inl Suspended)"
| "turns sv n (Suc k) =
     op_bind (run_turn sv n) (\<lambda>more. if more then turns sv n k else op_lift (Inr ()))"

text \<open>Whether the driver came back, and whether another was started behind it.\<close>

definition kick :: "'w loop_services \<Rightarrow> nat \<Rightarrow> 'w agent \<Rightarrow> (bool \<times> bool) \<times> 'w agent" where
  "kick sv n s =
     (case turns sv n n s of
        (Inl Suspended, s') \<Rightarrow> ((False, False), s')
      | (_, s') \<Rightarrow>
          (case ag_phase s' of
             Running a t st w \<Rightarrow> (case retire t w s' of (b, s'') \<Rightarrow> ((True, b), s''))
           | _ \<Rightarrow> ((True, False), s')))"

text \<open>The phase the constructor gives an agent over a restored log.\<close>

definition last_turn :: "session_event list \<Rightarrow> int" where
  "last_turn evs =
     (case List.map_filter (\<lambda>e. case ev_data e of TurnStart t \<Rightarrow> Some t | _ \<Rightarrow> None) (rev evs) of
        [] \<Rightarrow> 0 | t # ts \<Rightarrow> t)"

end
