(* ===== verification/Agent_Turns.thy ===== *)
theory Agent_Turns
  imports Agent_Loop
begin

section \<open>The driver keeps the log in its turns and steps\<close>

text \<open>
  What every operation of \<^verbatim>\<open>Agent_Loop\<close> does to the position of the log: within a step it stays
  in the step, a step entered is ended, a turn begun is ended, whatever is thrown.
\<close>

subsection \<open>Operations that keep a predicate\<close>

definition keeps :: "('w agent \<Rightarrow> bool) \<Rightarrow> ('w, 'a) agent_op \<Rightarrow> bool" where
  "keeps A m \<longleftrightarrow> op_triple A m (\<lambda>_. A) (\<lambda>_. A)"

lemma keepsI: "(\<And>s r t. A s \<Longrightarrow> m s = (r, t) \<Longrightarrow> A t) \<Longrightarrow> keeps A m"
  by (auto simp: keeps_def op_triple_def split: prod.splits sum.splits)

lemma keepsD: "keeps A m \<Longrightarrow> A s \<Longrightarrow> m s = (r, t) \<Longrightarrow> A t"
  by (cases r) (auto simp: keeps_def dest: op_triple_throwD op_triple_returnD)

lemma keeps_bind: "keeps A m \<Longrightarrow> (\<And>x. keeps A (f x)) \<Longrightarrow> keeps A (op_bind m f)"
  unfolding keeps_def by (rule op_triple_bind)

lemma keeps_lift [simp]: "keeps A (op_lift r)"
  by (rule keepsI) (simp add: op_lift_def)

lemma keeps_raise [simp]: "keeps A (op_raise x)"
  by (simp add: op_raise_def)

lemma keeps_gets [simp]: "keeps A (op_gets f)"
  by (rule keepsI) (simp add: op_gets_def)

lemma keeps_polite: "polite m \<Longrightarrow> stable A \<Longrightarrow> keeps A m"
  unfolding keeps_def by (rule triple_polite)

lemma keeps_throw_if [simp]: "keeps A throw_if_aborted"
  unfolding keeps_def by (rule triple_throw_if)

lemma keeps_catch: "keeps A m \<Longrightarrow> (\<And>x. keeps A (h x)) \<Longrightarrow> keeps A (op_catch m h)"
  by (rule keepsI) (auto simp: op_catch_def split: prod.splits sum.splits stop.splits dest: keepsD)

lemma keeps_for_each: "(\<And>x. keeps A (f x)) \<Longrightarrow> keeps A (for_each f xs)"
  unfolding keeps_def by (rule triple_for_each)

lemma keeps_seed [simp]: "keeps A (seed_config sv h)"
  by (rule keepsI) (auto simp: seed_config_def split: if_splits option.splits)

subsection \<open>Inside a step\<close>

definition polite_services :: "'w loop_services \<Rightarrow> bool" where
  "polite_services sv \<longleftrightarrow>
     polite_tools (ls_tools sv) \<and> polite (ls_mint sv) \<and> polite (ls_assemble sv) \<and>
     (\<forall>t st ms d. polite (ls_pre_step sv t st ms d)) \<and> (\<forall>t st c. polite (ls_request sv t st c)) \<and>
     (\<forall>c. polite (ls_prepare sv c)) \<and> (\<forall>rq c. polite (ls_stream sv rq c)) \<and> polite (ls_chunk sv) \<and>
     polite (ls_close sv) \<and> (\<forall>t st p j r. polite (ls_request_error sv t st p j r)) \<and>
     (\<forall>t. polite (ls_stopping sv t))"

lemma keeps_services:
  assumes "polite_services sv"
  shows "keeps (in_step p ids) (ls_mint sv)" "keeps (in_step p ids) (ls_request sv t st c)"
    "keeps (in_step p ids) (ls_prepare sv c)" "keeps (in_step p ids) (ls_stream sv rq b)"
    "keeps (in_step p ids) (ls_chunk sv)" "keeps (in_step p ids) (ls_close sv)"
    "keeps (in_step p ids) (ls_request_error sv t st pr j r)"
  using assms stable_in_step by (auto simp: polite_services_def intro!: keeps_polite)

lemma keeps_append:
  assumes "\<And>P. last_seq p = 0 \<Longrightarrow> open_turn p \<noteq> None \<Longrightarrow>
      place_step (p\<lparr>pending_calls := P\<rparr>) op d = Some (p\<lparr>pending_calls := P\<rparr>)"
  shows "keeps (in_step p {}) (agent_append env d (op, srcs))"
proof (rule keepsI)
  fix s r t assume s: "in_step p {} s" and run: "agent_append env d (op, srcs) s = (r, t)"
  have pl: "last_seq p = 0" "open_turn p \<noteq> None" using in_step_place [OF s] s by (auto simp: in_step_def)
  show "in_step p {} t"
  proof (cases r)
    case (Inl x)
    with run in_step_refused [OF s] show ?thesis by (auto simp: agent_append_def)
  next
    case (Inr e)
    with run have "append_payload env (Some d) (op, srcs) s = (Inr e, t)" by (simp add: agent_append_def)
    from in_step_logged [OF s this] assms [OF pl] show ?thesis by auto
  qed
qed

lemma keeps_read:
  assumes "\<And>ss. session_read ss (snd (f ss))"
  shows "keeps (in_step p {}) (on_session f)"
proof (rule keepsI)
  fix s r t assume s: "in_step p {} s" and run: "on_session f s = (r, t)"
  then have "t = put_session (snd (f (agent_session s))) s" by (auto simp: on_session_def split: prod.splits)
  with read_place [OF assms s] show "in_step p {} t" by blast
qed

lemma keeps_derive: "keeps (in_step p {}) derived_history"
proof (rule keepsI)
  fix s r t assume s: "in_step p {} s" and run: "derived_history s = (r, t)"
  have "t = put_session (snd (derive_messages (agent_session s))) s"
    using run by (auto simp: derived_history_def split: prod.splits)
  moreover have "session_read (agent_session s) (snd (derive_messages (agent_session s)))" by (simp add: session_read_def)
  ultimately show "in_step p {} t" using read_place s by blast
qed

lemma keeps_flag: "keeps (in_step p {}) (op_modify (\<lambda>s. s\<lparr>ag_header_logged := b\<rparr>))"
  by (rule keepsI) (auto simp: op_modify_def in_step_def)

lemma keeps_request:
  assumes "polite_services sv"
  shows "keeps (in_step p {}) (build_request sv t st tools system ms)"
proof -
  have header: "keeps (in_step p {}) (agent_append (ls_env sv) (RequestHeader h r) (None, None))" for h r
    by (rule keeps_append) (simp add: place_request_events)
  have about: "keeps (in_step p {}) (agent_append (ls_env sv) (RequestContext c) (None, None))" for c
    by (rule keeps_append) (simp add: place_request_events)
  have reads: "keeps (in_step p {}) (on_session request_header)" "keeps (in_step p {}) (on_session request_context_of)"
    by (rule keeps_read; simp add: session_read_def)+
  have send: "keeps (in_step p {}) (send_request sv config prepared tools system ms)" for config prepared
    unfolding send_request_def log_header_def log_context_def Let_def
    by (intro keeps_bind reads keeps_gets keeps_throw_if keeps_lift)
      (auto intro!: keeps_bind header about keeps_flag)
  have prepare: "keeps (in_step p {}) (prepare_call sv c)" for c
    unfolding prepare_call_def by (auto intro!: keeps_catch keeps_bind keeps_services [OF assms])
  show ?thesis
    unfolding build_request_def
    by (intro keeps_bind reads keeps_seed keeps_services [OF assms] keeps_throw_if)
      (auto intro!: keeps_bind prepare send)
qed

lemma place_in_step:
  assumes "open_turn p = Some t" and "open_step p = Some st" and "last_seq p = 0"
  shows "place_step (p\<lparr>pending_calls := P\<rparr>) op (AssistantChunk t st c) = Some (p\<lparr>pending_calls := P\<rparr>)"
    and "place_step (p\<lparr>pending_calls := P\<rparr>) op (AssistantMessage t st m u) = Some (p\<lparr>pending_calls := P\<rparr>)"
  using assms by (auto simp: place_step_def require_open_step_def apply_transition_def scalars_of_def)

lemma place_user_message: "last_seq p = 0 \<Longrightarrow> place_step p op (UserMessage m) = Some p"
  by (simp add: place_step_def apply_transition_def scalars_of_def)

lemma keeps_closing: "keeps A m \<Longrightarrow> keeps A (ls_close sv) \<Longrightarrow> keeps A (closing sv m)"
  by (rule keepsI) (auto simp: closing_def split: prod.splits sum.splits stop.splits dest: keepsD)

lemma keeps_stream:
  assumes "polite_services sv" and "open_turn p = Some t" and "open_step p = Some st"
  shows "keeps (in_step p {}) (read_stream sv t st k asm seqs)"
proof (induction k arbitrary: asm seqs)
  case (Suc k)
  have "keeps (in_step p {}) (log_chunk sv t st c)" for c
    using assms(2,3) unfolding log_chunk_def
    by (intro keeps_closing keeps_bind keeps_throw_if keeps_append keeps_services [OF assms(1)] keeps_lift)
      (simp add: place_in_step)
  with Suc show ?case by (auto intro!: keeps_bind keeps_services [OF assms(1)] split: option.splits)
qed simp

lemma calls_filter: "message_calls (filter is_tool_call bs) = message_calls bs"
proof (induction bs)
  case (Cons b bs)
  then show ?case by (cases b) (simp_all add: message_calls_def map_filter_simps)
qed simp

lemma keeps_tools:
  assumes "polite_services sv" and p: "open_turn p = Some t" "open_step p = Some st"
  shows "op_triple (\<lambda>s. in_step p {} s \<and> (calls_apart (agent_log s) \<longrightarrow> distinct (message_calls blocks)))
    (run_tools sv t st asm blocks) (\<lambda>_. in_step p {}) (\<lambda>_. in_step p {})"
proof -
  let ?calls = "filter is_tool_call blocks"
  have run: "op_triple (\<lambda>s. in_step p {} s \<and> (calls_apart (agent_log s) \<longrightarrow> distinct (message_calls blocks)))
      (execute_tool_calls (ls_tools sv) t st ?calls) (\<lambda>_. in_step p {}) (\<lambda>_. in_step p {})"
  proof (rule op_tripleI)
    fix s x s' assume s: "in_step p {} s \<and> (calls_apart (agent_log s) \<longrightarrow> distinct (message_calls blocks))"
      and r: "execute_tool_calls (ls_tools sv) t st ?calls s = (Inl x, s')"
    from assms(1) have "polite_tools (ls_tools sv)" by (simp add: polite_services_def)
    from op_triple_throwD [OF triple_execute [OF p this] _ r] s calls_filter [of blocks] show "in_step p {} s'" by auto
  next
    fix s b s' assume s: "in_step p {} s \<and> (calls_apart (agent_log s) \<longrightarrow> distinct (message_calls blocks))"
      and r: "execute_tool_calls (ls_tools sv) t st ?calls s = (Inr b, s')"
    from assms(1) have "polite_tools (ls_tools sv)" by (simp add: polite_services_def)
    from op_triple_returnD [OF triple_execute [OF p this] _ r] s calls_filter [of blocks] show "in_step p {} s'" by auto
  qed
  show ?thesis
  proof (cases "finish_of asm = FMaxTokens \<or> length ?calls = 0")
    case True
    then show ?thesis by (auto simp: run_tools_def Let_def intro!: op_triple_lift)
  next
    case False
    have "op_triple (\<lambda>s. in_step p {} s \<and> (calls_apart (agent_log s) \<longrightarrow> distinct (message_calls blocks)))
        (op_bind (execute_tool_calls (ls_tools sv) t st ?calls)
          (\<lambda>concluded. op_lift (Inr (if concluded then Some Completed else None))))
        (\<lambda>_. in_step p {}) (\<lambda>_. in_step p {})"
      by (rule op_triple_bind [OF run]) (auto intro!: op_triple_lift)
    with False show ?thesis by (simp add: run_tools_def Let_def)
  qed
qed

lemma keeps_answer:
  assumes "polite_services sv" and p: "open_turn p = Some t" "open_step p = Some st"
  shows "keeps (in_step p {}) (answer sv t st rq asm seqs)"
proof -
  have logged: "op_triple (in_step p {})
      (agent_append (ls_env sv) (answer_data t st rq asm blocks i) (Some (JStr ''append''), Some (JArr (map jint seqs))))
      (\<lambda>_ s. in_step p {} s \<and> (calls_apart (agent_log s) \<longrightarrow> distinct (message_calls blocks))) (\<lambda>_. in_step p {})"
    (is "op_triple _ ?m _ _") for blocks i
  proof -
    have keep: "keeps (in_step p {}) ?m"
      by (rule keeps_append) (simp add: answer_data_def place_in_step p)
    show ?thesis
    proof (rule op_tripleI)
      fix s x s' assume "in_step p {} s" and "?m s = (Inl x, s')"
      with keep show "in_step p {} s'" by (rule keepsD)
    next
      fix s e s' assume s: "in_step p {} s" and run: "?m s = (Inr e, s')"
      then have "in_step p {} s'" using keep by (blast intro: keepsD)
      moreover have "agent_log s' = agent_log s @ [e] \<and> ev_data e = answer_data t st rq asm blocks i"
        using run append_payload_logged by (fastforce simp: agent_append_def)
      ultimately show "in_step p {} s' \<and> (calls_apart (agent_log s') \<longrightarrow> distinct (message_calls blocks))"
        by (simp add: calls_apart_def answer_data_def)
    qed
  qed
  have "op_triple (in_step p {})
      (op_bind (agent_append (ls_env sv) (answer_data t st rq asm blocks i) (Some (JStr ''append''), Some (JArr (map jint seqs))))
        (\<lambda>_. run_tools sv t st asm blocks)) (\<lambda>_. in_step p {}) (\<lambda>_. in_step p {})" for blocks i
    by (rule op_triple_bind [OF logged keeps_tools [OF assms]])
  then have "keeps (in_step p {})
      (op_bind (agent_append (ls_env sv) (answer_data t st rq asm blocks i) (Some (JStr ''append''), Some (JArr (map jint seqs))))
        (\<lambda>_. run_tools sv t st asm blocks))" for blocks i
    by (simp add: keeps_def)
  then show ?thesis
    unfolding answer_def by (intro keeps_bind [OF keeps_lift] keeps_bind [OF keeps_services(1) [OF assms(1)]])
qed

lemma keeps_rounds:
  assumes "polite_services sv" and p: "open_turn p = Some t" "open_step p = Some st"
  shows "keeps (in_step p {}) (model_rounds sv t st tools system n k)"
proof (induction k)
  case (Suc k)
  have "keeps (in_step p {}) (model_round sv t st tools system n)"
    unfolding model_round_def
    by (intro keeps_bind keeps_derive keeps_request [OF assms(1)] keeps_throw_if keeps_stream [OF assms]
        keeps_services [OF assms(1)])
      (auto split: option.splits intro!: keeps_bind keeps_answer [OF assms] keeps_services [OF assms(1)])
  with Suc show ?case by (auto intro!: keeps_bind split: option.splits)
qed simp

lemma keeps_step:
  assumes "polite_services sv"
  shows "keeps (in_step p {}) (run_step sv n assembly)"
proof (rule keepsI)
  fix s r s' assume s: "in_step p {} s" and run: "run_step sv n assembly s = (r, s')"
  then obtain t st a w where p: "open_turn p = Some t" "open_step p = Some st" "ag_phase s = Running a t st w"
    by (auto simp: in_step_def)
  let ?m = "op_bind throw_if_aborted (\<lambda>_. op_bind (rendered (render_prompt assembly))
      (\<lambda>system. model_rounds sv t st (pa_tools assembly) system n n))"
  have "keeps (in_step p {}) ?m"
    unfolding rendered_def by (intro keeps_bind keeps_throw_if keeps_lift keeps_rounds [OF assms p(1,2)])
  moreover have "?m s = (r, s')" using run p(3) by (simp add: run_step_def op_bind_def op_gets_def)
  ultimately show "in_step p {} s'" using s by (blast intro: keepsD)
qed

lemma keeps_messages: "keeps (in_step p {}) (log_messages sv ms)"
  unfolding log_messages_def
  by (intro keeps_for_each keeps_bind keeps_append keeps_lift) (simp add: place_user_message)

subsection \<open>The stages of a driver\<close>

text \<open>In turn \<open>t\<close> after \<open>st\<close> steps; in step \<open>st\<close> of it; between turns after \<open>t\<close> of them.\<close>

definition in_turn :: "int \<Rightarrow> int \<Rightarrow> 'w agent \<Rightarrow> bool" where
  "in_turn t st s \<longleftrightarrow>
     (\<exists>p a w. at_place p s \<and> open_turn p = Some t \<and> open_step p = None \<and> next_turn p = t \<and>
        next_step p = st + 1 \<and> ag_phase s = Running a t st w)"

definition stepping :: "int \<Rightarrow> int \<Rightarrow> 'w agent \<Rightarrow> bool" where
  "stepping t st s \<longleftrightarrow>
     (\<exists>p. open_turn p = Some t \<and> open_step p = Some st \<and> next_turn p = t \<and> next_step p = st \<and> in_step p {} s)"

definition at_rest :: "int \<Rightarrow> 'w agent \<Rightarrow> bool" where
  "at_rest t s \<longleftrightarrow>
     (\<exists>p a st w. at_place p s \<and> open_turn p = None \<and> open_step p = None \<and> next_turn p = t + 1 \<and>
        ag_phase s = Running a t st w)"

definition at_start :: "int \<Rightarrow> 'w agent \<Rightarrow> bool" where
  "at_start t s \<longleftrightarrow> at_rest t s \<and> (\<exists>a w. ag_phase s = Running a t 0 w)"

definition accepted :: "'w agent \<Rightarrow> bool" where
  "accepted s \<longleftrightarrow> (\<exists>p. at_place p s)"

lemma stable_in_turn: "stable (in_turn t st)"
  unfolding stable_def
proof (intro allI impI)
  fix s u :: "'a agent" assume "in_turn t st s" and out: "outside s u"
  then obtain p a w where p: "at_place p s" "open_turn p = Some t" "open_step p = None" "next_turn p = t"
      "next_step p = st + 1" "ag_phase s = Running a t st w" by (auto simp: in_turn_def)
  then have "at_place p u \<and> steady s u" using outside_place [OF out] by simp
  with p show "in_turn t st u" by (auto simp: in_turn_def steady_def)
qed

lemma accepted_stages: "in_turn t st s \<Longrightarrow> accepted s" "at_rest t s \<Longrightarrow> accepted s" "stepping t st s \<Longrightarrow> accepted s"
  by (auto simp: in_turn_def at_rest_def accepted_def stepping_def in_step_def)

lemma keeps_stepping: "(\<And>p. keeps (in_step p {}) m) \<Longrightarrow> keeps (stepping t st) m"
  by (rule keepsI) (auto simp: stepping_def dest: keepsD)

text \<open>An event of the turn structure, in an environment that lets appends through.\<close>

lemma structure_event:
  assumes at: "at_place p s" and env: "lets_through (env s)"
    and d: "\<not> is_surface_eligible_type (event_type d)" "assert_supported_request_header d = None"
    and step: "place_step p None d = Some p'"
  shows "\<exists>e s'. agent_append env d (None, None) s = (Inr e, s') \<and> at_place p' s' \<and> ag_phase s' = ag_phase s \<and>
    ag_notices s' = ag_notices s"
proof -
  have ok: "session_ok (agent_session s)" and last: "last_seq p = 0" using at by (simp_all add: session_at_def)
  obtain e s' where run: "append_payload env (Some d) (None, None) s = (Inr e, s')"
    using unsurfaced_append [where s = s and env = env and d = d, OF ok env d] by blast
  from append_payload_logged [OF run] obtain ss where ss: "append_event (payload_call (env s) (Some d) (None, None)) (agent_session s) = (Inr e, ss)"
      "s' = put_session ss s" "ev_data e = d" "ev_surface_op e = None" by auto
  have "session_at p' ss"
    by (rule event_at [OF at ss(1)]) (use step ss place_step_last_seq in auto)
  with run ss show ?thesis by (auto simp: agent_append_def put_session_def)
qed

lemma structure_types:
  "\<not> is_surface_eligible_type (event_type (TurnStart t))" "\<not> is_surface_eligible_type (event_type (TurnEnd t r))"
  "\<not> is_surface_eligible_type (event_type (StepStart t st))" "\<not> is_surface_eligible_type (event_type (StepEnd t st))"
  "assert_supported_request_header (TurnStart t) = None" "assert_supported_request_header (TurnEnd t r) = None"
  "assert_supported_request_header (StepStart t st) = None" "assert_supported_request_header (StepEnd t st) = None"
  by (simp_all add: is_surface_eligible_type_def message_types_def assert_supported_request_header_def)

lemmas place_defs = place_step_def require_open_step_def apply_transition_def scalars_of_def

definition open_services :: "'w loop_services \<Rightarrow> bool" where
  "open_services sv \<longleftrightarrow> (\<forall>s. lets_through (ls_env sv s))"

lemma begin_step_stage:
  assumes "open_services sv" and "in_turn t st s"
  shows "\<exists>s'. begin_step sv t (st + 1) s = (Inr (), s') \<and> stepping t (st + 1) s'"
proof -
  obtain p a w where p: "at_place p s" "open_turn p = Some t" "open_step p = None" "next_turn p = t"
      "next_step p = st + 1" "ag_phase s = Running a t st w" using assms(2) by (auto simp: in_turn_def)
  have "last_seq p = 0" using p(1) by (simp add: session_at_def)
  then have "place_step p None (StepStart t (st + 1)) = Some (p\<lparr>open_step := Some (st + 1)\<rparr>)"
    using p by (simp add: place_defs)
  with structure_event [OF p(1) _ structure_types(3,7)] assms(1)
  obtain e s' where s': "agent_append (ls_env sv) (StepStart t (st + 1)) (None, None) s = (Inr e, s')"
      "at_place (p\<lparr>open_step := Some (st + 1)\<rparr>) s'" "ag_phase s' = ag_phase s"
    unfolding open_services_def by blast
  let ?u = "put_phase (with_step (st + 1) (ag_phase s')) s'"
  have "(p\<lparr>open_step := Some (st + 1)\<rparr>)\<lparr>pending_calls := pending_calls p\<rparr> = p\<lparr>open_step := Some (st + 1)\<rparr>"
    by (rule session_trace.equality) simp_all
  then have "\<exists>P. at_place ((p\<lparr>open_step := Some (st + 1)\<rparr>)\<lparr>pending_calls := P\<rparr>) ?u"
    using s'(2) by (metis put_sel(5))
  then have "in_step (p\<lparr>open_step := Some (st + 1)\<rparr>) {} ?u"
    unfolding in_step_def using s'(3) p by simp
  then have "stepping t (st + 1) ?u" unfolding stepping_def using p
    by (intro exI [of _ "p\<lparr>open_step := Some (st + 1)\<rparr>"]) simp
  with s'(1) show ?thesis by (simp add: begin_step_def op_bind_def op_modify_def)
qed

lemma end_step_stage:
  assumes "open_services sv" and "stepping t st s"
  shows "\<exists>s'. end_step sv t st s = (Inr (), s') \<and> in_turn t st s'"
proof -
  obtain p P a w where p: "open_turn p = Some t" "open_step p = Some st" "next_turn p = t" "next_step p = st"
      "at_place (p\<lparr>pending_calls := P\<rparr>) s" "ag_phase s = Running a t st w"
    using assms(2) by (auto simp: stepping_def in_step_def)
  let ?p = "p\<lparr>pending_calls := {}, open_step := None, next_step := st + 1\<rparr>"
  have "last_seq p = 0" using p(5) by (simp add: session_at_def)
  then have "place_step (p\<lparr>pending_calls := P\<rparr>) None (StepEnd t st) = Some ?p"
    using p by (simp add: place_defs)
  with structure_event [OF p(5) _ structure_types(4,8)] assms(1)
  obtain e s' where s': "agent_append (ls_env sv) (StepEnd t st) (None, None) s = (Inr e, s')"
      "at_place ?p s'" "ag_phase s' = ag_phase s"
    unfolding open_services_def by blast
  then have "in_turn t st s'" unfolding in_turn_def using p by (intro exI [of _ ?p]) auto
  with s'(1) show ?thesis by (simp add: end_step_def op_bind_def op_lift_def)
qed

lemma end_turn_stage:
  assumes "open_services sv" and "in_turn t st s"
  shows "\<exists>s'. end_turn sv t reason s = (Inr (), s') \<and> at_rest t s' \<and> ag_phase s' = ag_phase s"
proof -
  obtain p a w where p: "at_place p s" "open_turn p = Some t" "open_step p = None" "next_turn p = t"
      "next_step p = st + 1" "ag_phase s = Running a t st w" using assms(2) by (auto simp: in_turn_def)
  let ?p = "p\<lparr>open_turn := None, next_turn := t + 1\<rparr>"
  have "last_seq p = 0" using p(1) by (simp add: session_at_def)
  then have "place_step p None (TurnEnd t reason) = Some ?p" using p by (simp add: place_defs)
  with structure_event [OF p(1) _ structure_types(2,6)] assms(1)
  obtain e s' where s': "agent_append (ls_env sv) (TurnEnd t reason) (None, None) s = (Inr e, s')"
      "at_place ?p s'" "ag_phase s' = ag_phase s"
    unfolding open_services_def by blast
  then have "at_rest t s'" unfolding at_rest_def using p by (intro exI [of _ ?p]) auto
  with s' show ?thesis by (simp add: end_turn_def op_bind_def op_lift_def op_catch_def)
qed

lemma begin_turn_stage:
  assumes "open_services sv" and "at_start t s" and "begin_turn sv s = (r, s')"
  shows "(case r of Inl x \<Rightarrow> (\<exists>y. x = Raised y) \<and> at_rest t s' | Inr u \<Rightarrow> u = t + 1 \<and> in_turn (t + 1) 0 s')"
proof (cases "phase_abort (ag_phase s)")
  case (Some c)
  with assms(2,3) show ?thesis by (auto simp: begin_turn_def op_bind_def throw_if_aborted_def at_start_def)
next
  case None
  obtain p w where p: "at_place p s" "open_turn p = None" "open_step p = None" "next_turn p = t + 1"
      "ag_phase s = Running None t 0 w" using assms(2) None by (auto simp: at_start_def at_rest_def)
  let ?p = "p\<lparr>open_turn := Some (t + 1), next_step := 1\<rparr>"
  have "last_seq p = 0" using p(1) by (simp add: session_at_def)
  then have "place_step p None (TurnStart (t + 1)) = Some ?p" using p by (simp add: place_defs)
  with structure_event [OF p(1) _ structure_types(1,5)] assms(1)
  obtain e u where u: "agent_append (ls_env sv) (TurnStart (t + 1)) (None, None) s = (Inr e, u)"
      "at_place ?p u" "ag_phase u = ag_phase s"
    unfolding open_services_def by blast
  let ?v = "put_phase (with_turn (t + 1) (ag_phase u)) u"
  have "at_place ?p ?v" using u(2) by simp
  then have "in_turn (t + 1) 0 ?v" unfolding in_turn_def using u p by (intro exI [of _ ?p]) auto
  moreover have "begin_turn sv s = (Inr (t + 1), ?v)"
    using u p by (simp add: begin_turn_def op_bind_def throw_if_aborted_def op_gets_def op_catch_def op_modify_def op_lift_def)
  ultimately show ?thesis using assms(3) by simp
qed

subsection \<open>Steps and turns\<close>

text \<open>What a stage may leave behind: suspended anywhere accepted, thrown back to the turn.\<close>

definition left_in_turn :: "int \<Rightarrow> stop \<Rightarrow> 'w agent \<Rightarrow> bool" where
  "left_in_turn t x s \<longleftrightarrow> (case x of Suspended \<Rightarrow> accepted s | Raised y \<Rightarrow> \<exists>st. in_turn t st s)"

lemma entered_step_stage:
  assumes "polite_services sv" and "open_services sv"
  shows "op_triple (in_turn t st) (entered_step sv n t (st + 1) ms assembly)
    (\<lambda>_. in_turn t (st + 1)) (left_in_turn t)"
proof -
  let ?m = "op_bind (log_messages sv ms) (\<lambda>_. run_step sv n assembly)"
  have keep: "keeps (stepping t (st + 1)) ?m"
    by (intro keeps_stepping keeps_bind keeps_messages keeps_step [OF assms(1)])
  have fin: "(case r of Inl x \<Rightarrow> left_in_turn t x s' | Inr a \<Rightarrow> in_turn t (st + 1) s')"
    if s: "in_turn t st s" and run: "entered_step sv n t (st + 1) ms assembly s = (r, s')" for s r s'
  proof -
    obtain u where u: "begin_step sv t (st + 1) s = (Inr (), u)" "stepping t (st + 1) u"
      using begin_step_stage [OF assms(2) s] by blast
    obtain q v where v: "?m u = (q, v)" by fastforce
    have at: "stepping t (st + 1) v" using keepsD [OF keep u(2) v] .
    obtain w where w: "end_step sv t (st + 1) v = (Inr (), w)" "in_turn t (st + 1) w"
      using end_step_stage [OF assms(2) at] by blast
    from run u(1) have r: "op_finally ?m (end_step sv t (st + 1)) u = (r, s')"
      by (simp add: entered_step_def op_bind_def)
    show ?thesis
    proof (cases "q = Inl Suspended")
      case True
      with r v at accepted_stages(3) show ?thesis by (auto simp: op_finally_def left_in_turn_def)
    next
      case False
      then have "op_finally ?m (end_step sv t (st + 1)) u = (q, w)"
        using v w(1) by (auto simp: op_finally_def split: sum.splits stop.splits)
      with r w(2) False show ?thesis by (auto simp: left_in_turn_def split: sum.splits stop.splits)
    qed
  qed
  show ?thesis by (rule op_tripleI) (use fin in fastforce)+
qed

lemma keeps_turn_services:
  assumes "polite_services sv"
  shows "keeps (in_turn t st) (ls_mint sv)" "keeps (in_turn t st) (ls_assemble sv)"
    "keeps (in_turn t st) (ls_pre_step sv u v ms d)" "keeps (in_turn t st) (ls_stopping sv u)"
  using assms stable_in_turn by (auto simp: polite_services_def intro!: keeps_polite)

lemma keeps_claim: "keeps (in_turn t st) (in_inbox env (\<lambda>ie. claim_inbox ie target turn))"
proof (rule keepsI)
  fix s r u assume s: "in_turn t st s" and run: "in_inbox env (\<lambda>ie. claim_inbox ie target turn) s = (r, u)"
  from s obtain p a w where p: "at_place p s" "open_turn p = Some t" "open_step p = None" "next_turn p = t"
      "next_step p = st + 1" "ag_phase s = Running a t st w" by (auto simp: in_turn_def)
  have "at_place p u \<and> steady s u \<and> only_host s u"
    by (rule in_inbox_place [OF run _ p(1)]) (rule claim_mutations)
  with p show "in_turn t st u" by (auto simp: in_turn_def only_host_def)
qed

lemma keeps_pre_step:
  assumes "polite_services sv"
  shows "keeps (in_turn t st) (pre_step sv target turn step)"
proof -
  have "keeps (in_turn t st) (propose_context sv sections)" for sections
    unfolding propose_context_def
    by (rule keeps_bind) (auto intro!: keeps_bind keeps_turn_services [OF assms] split: option.splits)
  then show ?thesis
    unfolding pre_step_def rendered_def
    by (intro keeps_bind keeps_claim keeps_turn_services [OF assms] keeps_throw_if keeps_lift)
qed

lemma keeps_stopping: "polite_services sv \<Longrightarrow> keeps (in_turn t st) (stopping sv turn ends)"
  unfolding stopping_def by (rule keeps_bind) (auto intro!: keeps_bind keeps_turn_services)

lemma keeps_left: "keeps (in_turn t st) m \<Longrightarrow> op_triple (in_turn t st) m (\<lambda>_. in_turn t st) (left_in_turn t)"
  unfolding keeps_def
  by (erule op_triple_weaken) (auto simp: left_in_turn_def split: stop.splits dest: accepted_stages(1))

lemma triple_turn_steps:
  assumes sv: "polite_services sv" "open_services sv"
  shows "op_triple (in_turn t st) (turn_steps sv n t k target ends) (\<lambda>_ s. \<exists>st. in_turn t st s) (left_in_turn t)"
proof (induction k arbitrary: st target ends)
  case 0
  show ?case by (auto intro!: op_triple_lift simp: left_in_turn_def dest: accepted_stages(1))
next
  case (Suc k)
  let ?Q = "\<lambda>_ s. \<exists>st. in_turn t st s"
  have done_at: "op_triple (in_turn t st) (op_lift (Inr x)) ?Q (left_in_turn t)" for st and x :: "turn_end_reason \<times> bool"
    by (rule op_triple_lift) auto
  have tail: "op_triple (in_turn t (st + 1))
      (op_bind throw_if_aborted
        (\<lambda>_. op_bind (stopping sv t e)
          (\<lambda>_. op_bind (op_gets no_next_step)
            (\<lambda>b. if e \<noteq> None \<and> b then op_lift (Inr (the e, True)) else turn_steps sv n t k NextStep e))))
      ?Q (left_in_turn t)" for e
    by (intro op_triple_bind [OF keeps_left [OF keeps_throw_if]] op_triple_bind [OF keeps_left [OF keeps_stopping [OF sv(1)]]]
        op_triple_bind [OF keeps_left [OF keeps_gets]]) (auto intro: done_at Suc)
  have enter: "op_triple (in_turn t st)
      (op_bind throw_if_aborted
        (\<lambda>_. op_bind (entered_step sv n t (st + 1) ms assembly)
          (\<lambda>ended. op_bind throw_if_aborted
            (\<lambda>_. op_bind (stopping sv t (sticky_end ends ended))
              (\<lambda>_. op_bind (op_gets no_next_step)
                (\<lambda>b. if sticky_end ends ended \<noteq> None \<and> b
                     then op_lift (Inr (the (sticky_end ends ended), True))
                     else turn_steps sv n t k NextStep (sticky_end ends ended)))))))
      ?Q (left_in_turn t)" for ms assembly
    by (intro op_triple_bind [OF keeps_left [OF keeps_throw_if]] op_triple_bind [OF entered_step_stage [OF sv]] tail)
  have number: "op_triple (in_turn t st) (op_gets (\<lambda>s. snd (phase_place (ag_phase s))))
      (\<lambda>b s. in_turn t st s \<and> b = st) (left_in_turn t)"
    by (rule triple_gets) (auto simp: in_turn_def)
  show ?case
    unfolding turn_steps.simps
  proof (rule op_triple_bind [OF keeps_left [OF keeps_throw_if]], rule op_triple_bind [OF number], rule op_triple_pure)
    fix b assume b: "b = st"
    show "op_triple (in_turn t st)
        (op_bind (pre_step sv target t (b + 1))
         (\<lambda>decision. case decision of
              RejectStep \<Rightarrow> op_lift (Inr (Blocked, False))
            | EnterStep ms assembly \<Rightarrow>
                if ends \<noteq> None \<and> length ms = 0 then op_lift (Inr (the ends, True))
                else if b = 0 \<and> length ms = 0 then op_lift (Inr (Completed, False))
                else
                  op_bind throw_if_aborted
                    (\<lambda>_. op_bind (entered_step sv n t (b + 1) ms assembly)
                      (\<lambda>ended. op_bind throw_if_aborted
                        (\<lambda>_. op_bind (stopping sv t (sticky_end ends ended))
                          (\<lambda>_. op_bind (op_gets no_next_step)
                            (\<lambda>b. if sticky_end ends ended \<noteq> None \<and> b
                                 then op_lift (Inr (the (sticky_end ends ended), True))
                                 else turn_steps sv n t k NextStep (sticky_end ends ended))))))))
        ?Q (left_in_turn t)"
      unfolding b
      by (rule op_triple_bind [OF keeps_left [OF keeps_pre_step [OF sv(1)]]])
        (use done_at enter in \<open>auto split: prepared_step.splits\<close>)
  qed
qed

text \<open>What a turn leaves behind: suspended, or between turns.\<close>

definition left_at_rest :: "int \<Rightarrow> stop \<Rightarrow> 'w agent \<Rightarrow> bool" where
  "left_at_rest t x s \<longleftrightarrow> (case x of Suspended \<Rightarrow> accepted s | Raised y \<Rightarrow> at_rest t s)"

lemma settled_turn_stage:
  assumes sv: "open_services sv"
    and m: "op_triple A m (\<lambda>_ s. \<exists>st. in_turn t st s) (left_in_turn t)"
  shows "op_triple A (settled_turn sv t m) (\<lambda>_. at_rest t) (left_at_rest t)"
proof -
  have fin: "(case r of Inl x \<Rightarrow> left_at_rest t x s' | Inr a \<Rightarrow> at_rest t s')"
    if A: "A s" and run: "settled_turn sv t m s = (r, s')" for s r s'
  proof -
    obtain q u where q: "m s = (q, u)" by fastforce
    show ?thesis
    proof (cases q)
      case (Inr a)
      with op_triple_returnD [OF m A] q obtain st where "in_turn t st u" by blast
      from end_turn_stage [OF sv this] obtain v where "end_turn sv t (fst a) u = (Inr (), v)" "at_rest t v" by blast
      with run q Inr show ?thesis by (auto simp: settled_turn_def op_bind_def op_lift_def split: prod.splits)
    next
      case (Inl x)
      with op_triple_throwD [OF m A] q have x: "left_in_turn t x u" by blast
      show ?thesis
      proof (cases x)
        case Suspended
        with run q Inl x show ?thesis by (auto simp: settled_turn_def left_in_turn_def left_at_rest_def)
      next
        case (Raised y)
        with x obtain st where at: "in_turn t st u" by (auto simp: left_in_turn_def)
        then have at': "in_turn t st (u\<lparr>ag_notices := ns\<rparr>)" for ns by (simp add: in_turn_def)
        show ?thesis
        proof (cases "phase_abort (ag_phase u)")
          case (Some c)
          from end_turn_stage [OF sv at] obtain v where "end_turn sv t (Aborted c) u = (Inr (), v)" "at_rest t v" by blast
          with run q Inl Raised Some show ?thesis
            by (auto simp: settled_turn_def op_finally_def op_raise_def op_lift_def left_at_rest_def)
        next
          case None
          obtain a b where ab: "phase_place (ag_phase u) = (a, b)" by fastforce
          let ?u = "u\<lparr>ag_notices := ag_notices u @ [ErrorReported a b y]\<rparr>"
          from end_turn_stage [OF sv at'] obtain v where "end_turn sv t (turn_failure sv y) ?u = (Inr (), v)" "at_rest t v"
            by blast
          with run q Inl Raised None ab show ?thesis
            by (auto simp: settled_turn_def op_finally_def throw_error_def left_at_rest_def)
        qed
      qed
    qed
  qed
  show ?thesis by (rule op_tripleI) (use fin in fastforce)+
qed

definition after_turns :: "stop \<Rightarrow> 'w agent \<Rightarrow> bool" where
  "after_turns x s \<longleftrightarrow> (case x of Suspended \<Rightarrow> accepted s | Raised y \<Rightarrow> \<exists>t. at_rest t s)"

lemma left_after: "left_at_rest t x s \<Longrightarrow> after_turns x s"
  by (auto simp: left_at_rest_def after_turns_def split: stop.splits)

lemma run_turn_stage:
  assumes sv: "polite_services sv" "open_services sv"
  shows "op_triple (at_start t) (run_turn sv n) (\<lambda>more s. if more then at_start (t + 1) s else at_rest (t + 1) s) after_turns"
  unfolding run_turn_def
proof (rule op_triple_bind [of _ _ "\<lambda>u s. in_turn (t + 1) 0 s \<and> u = t + 1"])
  show "op_triple (at_start t) (begin_turn sv) (\<lambda>u s. in_turn (t + 1) 0 s \<and> u = t + 1) after_turns"
    by (rule op_tripleI) (use begin_turn_stage [OF sv(2)] in \<open>fastforce simp: after_turns_def\<close>)+
  fix u
  have rest: "op_triple (at_rest (t + 1))
      (op_bind (op_gets (\<lambda>s. has_pending (agent_inbox s)))
        (\<lambda>pending. if \<not> go \<or> \<not> pending then op_lift (Inr False)
                   else op_bind (op_modify (\<lambda>s. put_phase (next_turn_phase (ag_phase s)) s)) (\<lambda>_. op_lift (Inr True))))
      (\<lambda>more s. if more then at_start (t + 1) s else at_rest (t + 1) s) after_turns" for go
  proof (rule op_triple_bind [of _ _ "\<lambda>_. at_rest (t + 1)"])
    have "op_triple (at_rest (t + 1)) (op_modify (\<lambda>s. put_phase (next_turn_phase (ag_phase s)) s))
        (\<lambda>_. at_start (t + 1)) after_turns"
      by (rule triple_modify) (fastforce simp: at_start_def at_rest_def next_turn_phase_def)
    then have start: "op_triple (at_rest (t + 1))
        (op_bind (op_modify (\<lambda>s. put_phase (next_turn_phase (ag_phase s)) s)) (\<lambda>_. op_lift (Inr True)))
        (\<lambda>more s. if more then at_start (t + 1) s else at_rest (t + 1) s) after_turns"
      by (rule op_triple_bind) (auto intro!: op_triple_lift)
    have stop: "op_triple (at_rest (t + 1)) (op_lift (Inr False))
        (\<lambda>more s. if more then at_start (t + 1) s else at_rest (t + 1) s) after_turns"
      by (rule op_triple_lift) auto
    show "op_triple (at_rest (t + 1))
        (if \<not> go \<or> \<not> pending then op_lift (Inr False)
         else op_bind (op_modify (\<lambda>s. put_phase (next_turn_phase (ag_phase s)) s)) (\<lambda>_. op_lift (Inr True)))
        (\<lambda>more s. if more then at_start (t + 1) s else at_rest (t + 1) s) after_turns" for pending
      using start stop by (cases "\<not> go \<or> \<not> pending") (simp_all only: if_True if_False)
  qed (rule triple_gets, simp)
  show "op_triple (\<lambda>s. in_turn (t + 1) 0 s \<and> u = t + 1)
      (op_bind (settled_turn sv u (turn_steps sv n u n NextTurn None))
        (\<lambda>go. op_bind (op_gets (\<lambda>s. has_pending (agent_inbox s)))
          (\<lambda>pending. if \<not> go \<or> \<not> pending then op_lift (Inr False)
                     else op_bind (op_modify (\<lambda>s. put_phase (next_turn_phase (ag_phase s)) s)) (\<lambda>_. op_lift (Inr True)))))
      (\<lambda>more s. if more then at_start (t + 1) s else at_rest (t + 1) s) after_turns"
  proof (rule op_triple_pure)
    assume u: "u = t + 1"
    show "op_triple (in_turn (t + 1) 0)
      (op_bind (settled_turn sv u (turn_steps sv n u n NextTurn None))
        (\<lambda>go. op_bind (op_gets (\<lambda>s. has_pending (agent_inbox s)))
          (\<lambda>pending. if \<not> go \<or> \<not> pending then op_lift (Inr False)
                     else op_bind (op_modify (\<lambda>s. put_phase (next_turn_phase (ag_phase s)) s)) (\<lambda>_. op_lift (Inr True)))))
      (\<lambda>more s. if more then at_start (t + 1) s else at_rest (t + 1) s) after_turns"
      unfolding u
      by (rule op_triple_seq [OF settled_turn_stage [OF sv(2) triple_turn_steps [OF sv]] left_after rest])
  qed
qed

lemma turns_stage:
  assumes sv: "polite_services sv" "open_services sv"
  shows "op_triple (at_start t) (turns sv n k) (\<lambda>_ s. \<exists>t. at_rest t s) after_turns"
proof (induction k arbitrary: t)
  case 0
  show ?case
    by (auto intro!: op_triple_lift simp: after_turns_def at_start_def dest: accepted_stages(2))
next
  case (Suc k)
  show ?case
    unfolding turns.simps
  proof (rule op_triple_bind [OF run_turn_stage [OF sv]], goal_cases)
    case (1 more)
    have "op_triple (if more then at_start (t + 1) else at_rest (t + 1))
        (if more then turns sv n k else op_lift (Inr ())) (\<lambda>_ s. \<exists>t. at_rest t s) after_turns" for more
      using Suc by (auto intro!: op_triple_lift)
    from this [of more] show ?case by (cases more) auto
  qed
qed

subsection \<open>The driver as a whole\<close>

lemma last_turn_starts: "last_turn evs = (if turn_starts evs = [] then 0 else last (turn_starts evs))"
proof -
  have "turn_starts evs = List.map_filter (\<lambda>e. case ev_data e of TurnStart t \<Rightarrow> Some t | _ \<Rightarrow> None) evs"
    by (induction evs) (auto simp: map_filter_def split: event_data.splits)
  then have "rev (turn_starts evs) = List.map_filter (\<lambda>e. case ev_data e of TurnStart t \<Rightarrow> Some t | _ \<Rightarrow> None) (rev evs)"
    by (simp add: map_filter_def rev_map rev_filter)
  then show ?thesis by (auto simp: last_turn_def hd_rev [symmetric] split: list.splits)
qed

lemma last_turn_position:
  assumes "position evs = Some p" and "open_turn p = None"
  shows "next_turn p = last_turn evs + 1"
proof -
  obtain n where "seed_trace evs = Inr (p\<lparr>last_seq := n\<rparr>)" using assms(1) by (auto simp: position_Some_iff)
  from seed_trace_turns_counted [OF this] assms(2)
  have "0 < next_turn p" "turn_starts evs = [1..next_turn p - 1]" by (auto simp: turns_counted_def)
  then show ?thesis by (auto simp: last_turn_starts upto_rec2)
qed

lemma retired_stage:
  assumes "at_rest t s" and "ag_phase s = Running a t st w" and "retire t w s = (b, s')"
  shows "ag_host s' = ag_host s \<and> ag_phase s' = (if b then Running None t 0 False else Idle t)"
  using assms(2,3) by (auto simp: retire_def wake_driver_def set_phase_def put_phase_def Let_def split: if_splits)

lemma kick_stage:
  assumes sv: "polite_services sv" "open_services sv" and s: "at_start t s" and run: "kick sv n s = ((home, b), s')"
  shows "if home then \<exists>u p. at_place p s' \<and> open_turn p = None \<and> next_turn p = u + 1 \<and>
           ag_phase s' = (if b then Running None u 0 False else Idle u)
         else \<not> b \<and> accepted s'"
proof -
  obtain r v where r: "turns sv n n s = (r, v)" by fastforce
  show ?thesis
  proof (cases "r = Inl Suspended")
    case True
    with op_triple_throwD [OF turns_stage [OF sv] s] r have "accepted v" by (fastforce simp: after_turns_def)
    with run r True show ?thesis by (auto simp: kick_def)
  next
    case False
    have "\<exists>u. at_rest u v"
    proof (cases r)
      case (Inl x)
      with op_triple_throwD [OF turns_stage [OF sv] s] r False show ?thesis
        by (fastforce simp: after_turns_def split: stop.splits)
    next
      case (Inr x)
      with op_triple_returnD [OF turns_stage [OF sv] s] r show ?thesis by blast
    qed
    then obtain u where rest: "at_rest u v" by blast
    then obtain p a st w where p: "at_place p v" "open_turn p = None" "next_turn p = u + 1"
        "ag_phase v = Running a u st w" by (auto simp: at_rest_def)
    note u = rest p
    obtain c z where z: "retire u w v = (c, z)" by fastforce
    with run r False u(5) have "home" "b = c" "s' = z"
      by (auto simp: kick_def split: sum.splits stop.splits)
    with retired_stage [OF u(1,5) z] u show ?thesis by auto
  qed
qed

text \<open>
  A sound log that the companion accepts, and with it no turn open and the agent idle, or
  with the next driver in its place. Positions are claimed of logs that name calls apart.
\<close>

definition log_accepted :: "'w agent \<Rightarrow> bool" where
  "log_accepted s \<longleftrightarrow>
     session_ok (agent_session s) \<and> (calls_apart (agent_log s) \<longrightarrow> position (agent_log s) \<noteq> None)"

definition turns_ended :: "bool \<Rightarrow> 'w agent \<Rightarrow> bool" where
  "turns_ended started s \<longleftrightarrow>
     session_ok (agent_session s) \<and>
     (calls_apart (agent_log s) \<longrightarrow>
        (\<exists>q. position (agent_log s) = Some q \<and> open_turn q = None) \<and>
        ag_phase s = (if started then Running None (last_turn (agent_log s)) 0 False
                      else Idle (last_turn (agent_log s))))"

text \<open>
  Claim C5. Over services that act on the agent only by what the harness offers to others
  (sending, cancelling, reading, inbox commands, events outside the turn structure), and a
  session in which every append of the driver is let through (none inside another append, no
  throwing listener), a driver woken on an idle agent over a log between turns leaves an
  accepted log, whatever was answered, thrown, cancelled or sent meanwhile, when it gives
  control back and when it is suspended on what never answers. When it gives control back
  and no message of that log names one call id twice, every step and turn it began is ended,
  the companion is satisfied, and the agent is idle at the number of turns, or the next
  driver is in its place.
\<close>

theorem driver_ends_what_it_began:
  assumes "polite_services sv" and "open_services sv"
    and "session_ok (agent_session s)" and "position (agent_log s) = Some p" and "open_turn p = None"
    and "ag_phase s = Idle (last_turn (agent_log s))"
  shows "case kick sv n (snd (wake_driver after_abort s)) of
      ((True, started), s') \<Rightarrow> turns_ended started s'
    | ((False, started), s') \<Rightarrow> log_accepted s'"
proof -
  let ?t = "last_turn (agent_log s)" let ?s = "snd (wake_driver after_abort s)"
  have host: "ag_host ?s = ag_host s" and phase: "ag_phase ?s = Running None ?t 0 False"
    using assms(6) by (auto simp: wake_driver_def set_phase_def put_phase_def)
  have "last_seq p = 0" using assms(4) by (simp add: position_Some_iff)
  then have "at_place p ?s" using assms(3,4) host by (simp add: session_at_def)
  moreover have "open_step p = None" using position_wf [OF assms(4)] assms(5) by (simp add: trace_wf_def)
  ultimately have start: "at_start ?t ?s"
    using last_turn_position [OF assms(4,5)] assms(5) phase by (auto simp: at_start_def at_rest_def)
  obtain home b s' where run: "kick sv n ?s = ((home, b), s')" by (metis surj_pair)
  from kick_stage [OF assms(1,2) start run] show ?thesis
  proof (cases home)
    case True
    with kick_stage [OF assms(1,2) start run] obtain u q where q: "at_place q s'" "open_turn q = None" "next_turn q = u + 1"
        "ag_phase s' = (if b then Running None u 0 False else Idle u)" by auto
    moreover have "u = last_turn (agent_log s')" if "calls_apart (agent_log s')"
      using q(1-3) that last_turn_position [of "agent_log s'" q] by (simp add: session_at_def)
    ultimately show ?thesis using run True by (auto simp: session_at_def turns_ended_def)
  next
    case False
    with kick_stage [OF assms(1,2) start run] obtain q where "at_place q s'" by (auto simp: accepted_def)
    with run False show ?thesis by (auto simp: session_at_def log_accepted_def)
  qed
qed

subsection \<open>A sample run\<close>

lemma outside_world: "outside s (s\<lparr>ag_world := w\<rparr>)"
  by (rule out_world) (rule out_still)

lemma sample_services_polite: "polite_services sample_services" "open_services sample_services"
proof -
  have chunk: "polite (ls_chunk sample_services)"
    by (auto simp: polite_def sample_services_def out_still outside_world split: list.splits)
  have stream: "polite (ls_stream sample_services rq c)" for rq c
    by (auto simp: polite_def sample_services_def op_modify_def outside_world)
  show "polite_services sample_services"
    using chunk stream by (auto simp: polite_services_def sample_services_def sample_tools_polite polite_lift)
  show "open_services sample_services"
    by (simp add: open_services_def sample_services_def sample_tools_def sample_append_env_def lets_through_def)
qed

definition waiting_agent :: "nat agent" where
  "waiting_agent =
     snd (in_inbox (\<lambda>s. sample_append_env) (\<lambda>ie. append_message ie NextTurn sample_user)
       \<lparr>ag_host = \<lparr>ih_session = empty_session, ih_inbox = empty_inbox, ih_notices = []\<rparr>,
        ag_phase = Idle 0, ag_header_logged = False, ag_notices = [], ag_world = 0\<rparr>)"

lemma waiting_agent_facts:
  "session_ok (agent_session waiting_agent)" "position (agent_log waiting_agent) = Some (fresh_trace\<lparr>last_seq := 0\<rparr>)"
  "ag_phase waiting_agent = Idle (last_turn (agent_log waiting_agent))"
proof -
  let ?s = "\<lparr>ag_host = \<lparr>ih_session = empty_session, ih_inbox = empty_inbox, ih_notices = []\<rparr>,
        ag_phase = Idle 0, ag_header_logged = False, ag_notices = [], ag_world = 0 :: nat\<rparr>"
  obtain r where r: "in_inbox (\<lambda>s. sample_append_env) (\<lambda>ie. append_message ie NextTurn sample_user) ?s = (r, waiting_agent)"
    by (metis waiting_agent_def prod.collapse)
  have start: "at_place (fresh_trace\<lparr>last_seq := 0\<rparr>) ?s"
    using session_ok_empty by (simp add: session_at_def position_def empty_session_def)
  have "mutations h h'" if "append_message ie NextTurn sample_user h = (q, h')" for ie h q h'
    using that splice_mutations by (simp add: append_message_def)
  from in_inbox_place [OF r this start] show "session_ok (agent_session waiting_agent)" by (simp add: session_at_def)
  show "position (agent_log waiting_agent) = Some (fresh_trace\<lparr>last_seq := 0\<rparr>)" by code_simp
  show "ag_phase waiting_agent = Idle (last_turn (agent_log waiting_agent))" by code_simp
qed

lemma driver_ends_what_it_began_witness:
  "case kick sample_services 6 (snd (wake_driver False waiting_agent)) of
      ((True, started), s') \<Rightarrow> turns_ended started s'
    | ((False, started), s') \<Rightarrow> log_accepted s'"
  by (rule driver_ends_what_it_began [OF sample_services_polite waiting_agent_facts(1,2) _ waiting_agent_facts(3)])
    (simp add: fresh_trace_def)

text \<open>The whole of one turn.\<close>

lemma sample_run:
  "map (\<lambda>e. event_type (ev_data e)) (agent_log (snd (kick sample_services 6 (snd (wake_driver False waiting_agent))))) =
     [''agent/inbox/spliced'', ''turn/start'', ''agent/inbox/spliced'', ''step/start'', ''user/message'',
      ''request/header'', ''request/context'', ''assistant/chunk'', ''assistant/chunk'', ''assistant/chunk'',
      ''assistant/chunk'', ''assistant/message'', ''step/end'', ''turn/end'']"
  "fst (kick sample_services 6 (snd (wake_driver False waiting_agent))) = (True, False)"
  by code_simp+

end
