(* ===== verification/Scope_Chain.thy ===== *)
theory Scope_Chain
  imports Dsh_Prelude
begin

section \<open>Scope keys and their parents\<close>

text \<open>
  The parent relation of \<^verbatim>\<open>packages/core/scope/src/index.ts\<close>: linking with its cycle check, the
  chain of a key and the routing filter of \<open>scopeTarget\<close>. The three loops walk parents until
  a key has none, so each is a partial function: \<open>None\<close> is a walk that never ends.
\<close>

subsection \<open>Walks\<close>

datatype scope_error = WouldCycle | AlreadyBound

partial_function (option) meets :: "('k \<rightharpoonup> 'k) \<Rightarrow> 'k \<Rightarrow> 'k option \<Rightarrow> bool option" where
  "meets parents key cursor =
     (case cursor of
        None \<Rightarrow> Some False
      | Some c \<Rightarrow> if c = key then Some True else meets parents key (parents c))"

partial_function (option) chain_from :: "('k \<rightharpoonup> 'k) \<Rightarrow> 'k list \<Rightarrow> 'k option \<Rightarrow> 'k list option" where
  "chain_from parents chain cursor =
     (case cursor of
        None \<Rightarrow> Some chain
      | Some c \<Rightarrow> chain_from parents (chain @ [c]) (parents c))"

declare meets.simps [code] chain_from.simps [code]

definition scope_chain_of :: "('k \<rightharpoonup> 'k) \<Rightarrow> 'k option \<Rightarrow> 'k list option" where
  "scope_chain_of parents key = chain_from parents [] key"

definition link_scope_parent :: "('k \<rightharpoonup> 'k) \<Rightarrow> 'k \<Rightarrow> 'k \<Rightarrow> (scope_error + ('k \<rightharpoonup> 'k)) option" where
  "link_scope_parent parents key parent =
     map_option (\<lambda>found. if found then Inl WouldCycle else Inr (parents(key \<mapsto> parent)))
       (meets parents key (Some parent))"

definition bind_scope_parent :: "('k \<rightharpoonup> 'k) \<Rightarrow> 'k \<Rightarrow> 'k \<Rightarrow> (scope_error + ('k \<rightharpoonup> 'k)) option" where
  "bind_scope_parent parents key parent =
     (if parents key \<noteq> None then Some (Inl AlreadyBound) else link_scope_parent parents key parent)"

text \<open>The filter of a carrier for \<open>key\<close>, on a listener whose context carries \<open>tag\<close>.\<close>

definition carrier_admits :: "('k \<rightharpoonup> 'k) \<Rightarrow> bool \<Rightarrow> 'k option \<Rightarrow> 'k option \<Rightarrow> bool option" where
  "carrier_admits parents base key tag =
     (if \<not> base then Some False
      else (case tag of None \<Rightarrow> Some True | Some t \<Rightarrow> meets parents t key))"

subsection \<open>The relations that can arise\<close>

text \<open>Only the binder of a key holds its \<open>rebind\<close>, so a key rebound is one that was bound.\<close>

inductive parents_reach :: "('k \<rightharpoonup> 'k) \<Rightarrow> bool" where
  no_parents: "parents_reach (\<lambda>_. None)"
| bound: "parents_reach m \<Longrightarrow> bind_scope_parent m key parent = Some (Inr m') \<Longrightarrow> parents_reach m'"
| rebound: "parents_reach m \<Longrightarrow> m key \<noteq> None \<Longrightarrow> link_scope_parent m key parent = Some (Inr m') \<Longrightarrow> parents_reach m'"

definition edges :: "('k \<rightharpoonup> 'k) \<Rightarrow> ('k \<times> 'k) set" where
  "edges m = {(x, y). m x = Some y}"

definition forest :: "('k \<rightharpoonup> 'k) \<Rightarrow> bool" where
  "forest m \<longleftrightarrow> finite (dom m) \<and> acyclic (edges m)"

lemma edges_iff [simp]: "(x, y) \<in> edges m \<longleftrightarrow> m x = Some y"
  by (simp add: edges_def)

lemma edges_step: "m x = Some y \<Longrightarrow> (x, z) \<in> (edges m)\<^sup>* \<longleftrightarrow> x = z \<or> (y, z) \<in> (edges m)\<^sup>*"
  by (auto elim: converse_rtranclE intro: converse_rtrancl_into_rtrancl)

lemma edges_root: "m x = None \<Longrightarrow> (x, z) \<in> (edges m)\<^sup>* \<longleftrightarrow> x = z"
  by (auto elim: converse_rtranclE)

lemma forest_wf: assumes "forest m" shows "wf ((edges m)\<inverse>)"
proof -
  have "edges m \<subseteq> (\<lambda>x. (x, the (m x))) ` dom m" by (force simp: edges_def)
  then have "finite (edges m)" using assms by (auto simp: forest_def intro: finite_subset)
  then show ?thesis using assms by (intro finite_acyclic_wf_converse) (simp_all add: forest_def)
qed

lemma forest_induct [consumes 1, case_names key]:
  assumes "forest m" and "\<And>x. (\<And>y. m x = Some y \<Longrightarrow> P y) \<Longrightarrow> P x"
  shows "P x"
  using forest_wf [OF assms(1)] by (induction x rule: wf_induct_rule) (auto intro: assms(2))

lemma meets_walk:
  assumes "forest m"
  shows "meets m key (Some x) = Some ((x, key) \<in> (edges m)\<^sup>*)"
  using assms
proof (induction x rule: forest_induct)
  case (key x)
  then show ?case
    by (cases "m x") (subst meets.simps; auto simp: edges_step edges_root meets.simps [of _ _ None])+
qed

lemma chain_walk:
  assumes "forest m"
  shows "\<exists>xs. chain_from m acc (Some x) = Some (acc @ x # xs) \<and> distinct (x # xs) \<and>
    set (x # xs) = {y. (x, y) \<in> (edges m)\<^sup>*}"
  using assms
proof (induction x arbitrary: acc rule: forest_induct)
  case (key x)
  show ?case
  proof (cases "m x")
    case None
    then show ?thesis by (subst chain_from.simps) (auto simp: edges_root chain_from.simps [of _ _ None])
  next
    case (Some y)
    from key [OF Some, of "acc @ [x]"] obtain ys
      where ys: "chain_from m (acc @ [x]) (Some y) = Some (acc @ x # y # ys)" "distinct (y # ys)"
        "set (y # ys) = {z. (y, z) \<in> (edges m)\<^sup>*}" by auto
    have "(y, x) \<notin> (edges m)\<^sup>*"
      using assms Some by (auto simp: forest_def acyclic_def dest: rtrancl_into_trancl1 rtrancl_into_trancl2)
    then have "x \<notin> set (y # ys)" using ys(3) by blast
    moreover have "set (x # y # ys) = {z. (x, z) \<in> (edges m)\<^sup>*}"
      using ys(3) by (auto simp: edges_step [of m x y, OF Some])
    ultimately show ?thesis using ys Some by (subst chain_from.simps) auto
  qed
qed

lemma forest_link:
  assumes "forest m" and "link_scope_parent m key parent = Some (Inr m')"
  shows "forest m' \<and> m' = m(key \<mapsto> parent)"
proof -
  have m': "m' = m(key \<mapsto> parent)" and free: "(parent, key) \<notin> (edges m)\<^sup>*"
    using assms(2) meets_walk [OF assms(1), of key parent] by (auto simp: link_scope_parent_def split: if_splits)
  have sub: "edges m' \<subseteq> insert (key, parent) (edges m)" using m' by (auto split: if_splits)
  have "acyclic (insert (key, parent) (edges m))"
    using assms(1) free by (simp add: forest_def)
  then have "acyclic (edges m')" using sub by (rule acyclic_subset)
  with assms(1) m' show ?thesis by (simp add: forest_def)
qed

lemma parents_forest: "parents_reach m \<Longrightarrow> forest m"
proof (induction rule: parents_reach.induct)
  case no_parents
  then show ?case by (simp add: forest_def edges_def acyclic_def)
qed (auto simp: bind_scope_parent_def dest: forest_link split: if_splits)

definition ancestry :: "('k \<rightharpoonup> 'k) \<Rightarrow> 'k option \<Rightarrow> 'k set" where
  "ancestry m c = (case c of None \<Rightarrow> {} | Some x \<Rightarrow> {y. (x, y) \<in> (edges m)\<^sup>*})"

lemma chain_ancestry:
  assumes "forest m"
  shows "\<exists>xs. scope_chain_of m c = Some xs \<and> distinct xs \<and> set xs = ancestry m c"
proof (cases c)
  case None
  then show ?thesis by (simp add: scope_chain_of_def ancestry_def chain_from.simps [of _ _ None])
next
  case (Some x)
  from chain_walk [OF assms, of "[]" x] show ?thesis by (auto simp: scope_chain_of_def ancestry_def Some)
qed

text \<open>
  Claim C18. Whatever is bound and rebound, every walk over parents ends: the chain of a key
  is the list of its ancestors without repeats, a carrier admits a listener without tag or
  with the tag of one of them, and a link is refused exactly when it would close a cycle.
\<close>

theorem parent_walks_end:
  assumes "parents_reach m"
  shows "(\<exists>xs. scope_chain_of m c = Some xs \<and> distinct xs \<and> set xs = ancestry m c \<and>
        carrier_admits m base c tag = Some (base \<and> (tag = None \<or> the tag \<in> set xs))) \<and>
      link_scope_parent m key parent =
        Some (if key \<in> ancestry m (Some parent) then Inl WouldCycle else Inr (m(key \<mapsto> parent)))"
proof -
  have forest: "forest m" using assms by (rule parents_forest)
  have meets: "meets m t c = Some (t \<in> ancestry m c)" for t c
    by (cases c) (simp_all add: ancestry_def meets_walk [OF forest] meets.simps [of _ _ None])
  have "carrier_admits m base c tag = Some (base \<and> (tag = None \<or> the tag \<in> ancestry m c))"
    by (cases tag) (simp_all add: carrier_admits_def meets)
  moreover have "link_scope_parent m key parent =
      Some (if key \<in> ancestry m (Some parent) then Inl WouldCycle else Inr (m(key \<mapsto> parent)))"
    by (simp add: link_scope_parent_def meets)
  ultimately show ?thesis using chain_ancestry [OF forest, of c] by auto
qed

subsection \<open>A sample\<close>

definition sample_parents :: "nat \<rightharpoonup> nat" where
  "sample_parents = (\<lambda>_. None)(2 \<mapsto> 1, 3 \<mapsto> 2)"

lemma sample_parents_reach: "parents_reach sample_parents"
proof -
  have "meets (\<lambda>_. None) 2 (Some (1 :: nat)) = Some False" by code_simp
  then have "bind_scope_parent (\<lambda>_. None) 2 (1 :: nat) = Some (Inr ((\<lambda>_. None)(2 \<mapsto> 1)))"
    by (simp add: bind_scope_parent_def link_scope_parent_def)
  with no_parents have one: "parents_reach ((\<lambda>_. None)(2 \<mapsto> 1 :: nat))" by (rule parents_reach.bound)
  have "meets ((\<lambda>_. None)(2 \<mapsto> 1)) 3 (Some (2 :: nat)) = Some False" by code_simp
  then have "bind_scope_parent ((\<lambda>_. None)(2 \<mapsto> 1)) 3 (2 :: nat) = Some (Inr sample_parents)"
    by (simp add: bind_scope_parent_def link_scope_parent_def sample_parents_def)
  with one show ?thesis by (rule parents_reach.bound)
qed

lemma sample_chain: "scope_chain_of sample_parents (Some 3) = Some [3, 2, 1]"
  by code_simp

lemma parent_walks_end_witness:
  "carrier_admits sample_parents True (Some 3) (Some 1) = Some True \<and>
   (\<exists>r. link_scope_parent sample_parents 1 3 = Some r)"
proof -
  obtain xs where "scope_chain_of sample_parents (Some 3) = Some xs"
      "carrier_admits sample_parents True (Some 3) (Some 1) = Some (True \<and> (Some (1::nat) = None \<or> the (Some 1) \<in> set xs))"
    using parent_walks_end [OF sample_parents_reach, of "Some 3" True "Some 1" 1 3] by blast
  moreover have "\<exists>r. link_scope_parent sample_parents 1 3 = Some r"
    using parent_walks_end [OF sample_parents_reach, of "Some 3" True "Some 1" 1 3] by blast
  ultimately show ?thesis using sample_chain by auto
qed

end
