(* ===== verification/Scope_Layers.thy ===== *)
theory Scope_Layers
  imports Scope_Chain "HOL-Library.AList"
begin

section \<open>Registries layered by scope\<close>

text \<open>
  \<open>NamedEntries\<close>, \<open>AnonymousEntries\<close> and \<open>ScopedLayers\<close> of
  \<^verbatim>\<open>packages/core/scope/src/store.ts\<close>. What an undo closure captured (the map it was inserted
  into, its key, its \<open>active\<close> flag) is kept in the state; an undo is its number.
\<close>

subsection \<open>Tables\<close>

record 'k entry_undo =
  eu_map :: nat
  eu_key :: 'k
  eu_active :: bool

text \<open>The maps a table has had, the last one its \<open>data\<close>, and the undos it handed out.\<close>

record ('k, 'v) entries =
  et_maps :: "('k \<times> 'v) list list"
  et_undos :: "'k entry_undo list"

definition new_entries :: "('k, 'v) entries" where
  "new_entries = \<lparr>et_maps = [[]], et_undos = []\<rparr>"

definition entry_list :: "('k, 'v) entries \<Rightarrow> ('k \<times> 'v) list" where
  "entry_list t = last (et_maps t)"

definition entries_empty :: "('k, 'v) entries \<Rightarrow> bool" where
  "entries_empty t \<longleftrightarrow> length (entry_list t) = 0"

definition entry_has :: "'k \<Rightarrow> ('k, 'v) entries \<Rightarrow> bool" where
  "entry_has k t \<longleftrightarrow> map_of (entry_list t) k \<noteq> None"

definition entry_get :: "'k \<Rightarrow> ('k, 'v) entries \<Rightarrow> 'v option" where
  "entry_get k t = map_of (entry_list t) k"

definition entry_add :: "'k \<Rightarrow> 'v \<Rightarrow> ('k, 'v) entries \<Rightarrow> nat \<times> ('k, 'v) entries" where
  "entry_add k v t =
     (length (et_undos t),
      \<lparr>et_maps = butlast (et_maps t) @ [entry_list t @ [(k, v)]],
       et_undos = et_undos t @ [\<lparr>eu_map = length (et_maps t) - 1, eu_key = k, eu_active = True\<rparr>]\<rparr>)"

definition named_insert :: "(string \<Rightarrow> 'e) \<Rightarrow> string \<Rightarrow> 'v \<Rightarrow> (string, 'v) entries \<Rightarrow> ('e + nat) \<times> (string, 'v) entries" where
  "named_insert duplicate k v t =
     (if entry_has k t then (Inl (duplicate k), t) else (case entry_add k v t of (i, t') \<Rightarrow> (Inr i, t')))"

text \<open>A fresh symbol is the number of symbols minted before it.\<close>

definition anonymous_append :: "'v \<Rightarrow> (nat, 'v) entries \<Rightarrow> nat \<times> (nat, 'v) entries" where
  "anonymous_append v t = entry_add (length (et_undos t)) v t"

definition undo_entry :: "nat \<Rightarrow> ('k, 'v) entries \<Rightarrow> ('k, 'v) entries" where
  "undo_entry i t =
     (let u = et_undos t ! i in
      if \<not> eu_active u then t
      else
        (let data = filter (\<lambda>e. fst e \<noteq> eu_key u) (et_maps t ! eu_map u);
             maps = (et_maps t)[eu_map u := data] in
         \<lparr>et_maps = (if length data = 0 \<and> eu_map u = length (et_maps t) - 1 then maps @ [[]] else maps),
          et_undos = (et_undos t)[i := u\<lparr>eu_active := False\<rparr>]\<rparr>))"

text \<open>The ledger of a table: the insertions not undone, in order.\<close>

definition entries_hold :: "('k, 'v) entries \<Rightarrow> (nat \<times> 'k \<times> 'v) list \<Rightarrow> bool" where
  "entries_hold t L \<longleftrightarrow>
     et_maps t \<noteq> [] \<and> entry_list t = map snd L \<and> distinct (map fst L) \<and> distinct (map (fst \<circ> snd) L) \<and>
     (\<forall>e \<in> set L. fst e < length (et_undos t)) \<and>
     (\<forall>i < length (et_undos t). eu_active (et_undos t ! i) \<longleftrightarrow> i \<in> fst ` set L) \<and>
     (\<forall>e \<in> set L. eu_map (et_undos t ! fst e) = length (et_maps t) - 1 \<and> eu_key (et_undos t ! fst e) = fst (snd e))"

lemma entries_hold_new: "entries_hold new_entries []"
  by (simp add: entries_hold_def new_entries_def entry_list_def)

lemma entries_hold_empty: "entries_hold t L \<Longrightarrow> entries_empty t \<longleftrightarrow> L = []"
  by (auto simp: entries_hold_def entries_empty_def)

lemma entries_hold_add:
  assumes "entries_hold t L" and "k \<notin> fst ` snd ` set L" and "entry_add k v t = (i, t')"
  shows "i \<notin> fst ` set L \<and> entries_hold t' (L @ [(i, k, v)])"
proof -
  have i: "i = length (et_undos t)" and t': "t' = \<lparr>et_maps = butlast (et_maps t) @ [entry_list t @ [(k, v)]],
      et_undos = et_undos t @ [\<lparr>eu_map = length (et_maps t) - 1, eu_key = k, eu_active = True\<rparr>]\<rparr>"
    using assms(3) by (auto simp: entry_add_def)
  have L: "\<And>e. e \<in> set L \<Longrightarrow> fst e < i" using assms(1) by (auto simp: entries_hold_def i)
  then have "i \<notin> fst ` set L" by force
  moreover have "entries_hold t' (L @ [(i, k, v)])"
    using assms(1,2) L unfolding entries_hold_def t'
    by (auto simp: entry_list_def nth_append i less_Suc_eq image_image)
  ultimately show ?thesis by simp
qed

lemma entry_has_ledger: "entries_hold t L \<Longrightarrow> entry_has k t \<longleftrightarrow> k \<in> fst ` snd ` set L"
  by (auto simp: entries_hold_def entry_has_def map_of_eq_None_iff image_image)

lemma entries_hold_insert:
  assumes "entries_hold t L" and "named_insert dup k v t = (r, t')"
  shows "case r of Inl x \<Rightarrow> t' = t | Inr i \<Rightarrow> i \<notin> fst ` set L \<and> entries_hold t' (L @ [(i, k, v)])"
proof (cases "entry_has k t")
  case True
  with assms(2) show ?thesis by (auto simp: named_insert_def)
next
  case False
  obtain i u where add: "entry_add k v t = (i, u)" by fastforce
  with False assms have "r = Inr i" "t' = u" by (simp_all add: named_insert_def)
  moreover have "k \<notin> fst ` snd ` set L" using False assms(1) by (simp add: entry_has_ledger)
  ultimately show ?thesis using entries_hold_add [OF assms(1) _ add] by simp
qed

lemma entries_hold_undo:
  assumes hold: "entries_hold t L" and "i \<in> fst ` set L"
  shows "entries_hold (undo_entry i t) (filter (\<lambda>e. fst e \<noteq> i) L)"
proof -
  obtain k v where e: "(i, k, v) \<in> set L" using assms(2) by auto
  have maps: "et_maps t \<noteq> []" and list: "last (et_maps t) = map snd L" and ids: "distinct (map fst L)"
    and keys: "distinct (map (fst \<circ> snd) L)" and i: "i < length (et_undos t)"
    using hold e by (auto simp: entries_hold_def entry_list_def)
  have u: "eu_active (et_undos t ! i)" "eu_map (et_undos t ! i) = length (et_maps t) - 1" "eu_key (et_undos t ! i) = k"
    using hold e i by (force simp: entries_hold_def)+
  let ?L = "filter (\<lambda>e. fst e \<noteq> i) L"
  have same: "fst (snd e) = k \<longleftrightarrow> fst e = i" if "e \<in> set L" for e
    using that e ids keys by (metis comp_apply distinct_map fst_conv inj_onD snd_conv)
  let ?n = "length (et_maps t) - 1"
  have old: "et_maps t ! ?n = map snd L" using list maps by (simp add: last_conv_nth)
  have data: "filter (\<lambda>e. fst e \<noteq> k) (et_maps t ! ?n) = map snd ?L"
    unfolding old filter_map using same by (intro arg_cong [where f = "map snd"] filter_cong) auto
  let ?undos = "(et_undos t)[i := (et_undos t ! i)\<lparr>eu_active := False\<rparr>]"
  let ?maps = "(et_maps t)[?n := map snd ?L]"
  have t': "undo_entry i t = \<lparr>et_maps = (if ?L = [] then ?maps @ [[]] else ?maps), et_undos = ?undos\<rparr>"
    using u data by (simp add: undo_entry_def Let_def)
  have last: "last ?maps = map snd ?L" using maps by (simp add: last_list_update)
  have active: "eu_active (?undos ! j) \<longleftrightarrow> j \<in> fst ` set ?L" if "j < length (et_undos t)" for j
    using that hold by (cases "j = i") (auto simp: entries_hold_def)
  have rest: "eu_map (?undos ! fst e) = ?n \<and> eu_key (?undos ! fst e) = fst (snd e)" if "e \<in> set ?L" for e
    using that hold by (auto simp: entries_hold_def)
  have "distinct (map fst ?L)" "distinct (map (fst \<circ> snd) ?L)" "\<forall>e \<in> set ?L. fst e < length (et_undos t)"
    using hold by (auto simp: entries_hold_def distinct_map_filter)
  with last active rest maps show ?thesis
    unfolding entries_hold_def t' entry_list_def by (cases "?L = []") auto
qed

subsection \<open>Layers\<close>

text \<open>
  The layers a registry has created, the global one first, and which of them is the overlay
  of a key. An effect is what the disposer of a registration captured.
\<close>

record ('k, 'l) scoped_layers =
  sl_objects :: "'l list"
  sl_scoped :: "'k \<rightharpoonup> nat"
  sl_changes :: nat

record ('k, 'u) layer_effect =
  le_layer :: nat
  le_scope :: "'k option"
  le_undo :: 'u
  le_notify :: bool

definition new_layers :: "('k option \<Rightarrow> 'l) \<Rightarrow> ('k, 'l) scoped_layers" where
  "new_layers create = \<lparr>sl_objects = [create None], sl_scoped = (\<lambda>_. None), sl_changes = 0\<rparr>"

definition peek_layer :: "('k, 'l) scoped_layers \<Rightarrow> 'k option \<Rightarrow> 'l option" where
  "peek_layer s scope = map_option (nth (sl_objects s)) (Option.bind scope (sl_scoped s))"

definition chain_layers :: "('k \<rightharpoonup> 'k) \<Rightarrow> ('k, 'l) scoped_layers \<Rightarrow> 'k option \<Rightarrow> 'l list option" where
  "chain_layers parents s scope =
     map_option (\<lambda>chain. List.map_filter (\<lambda>k. peek_layer s (Some k)) (rev chain)) (scope_chain_of parents scope)"

definition merge_layers :: "('l \<Rightarrow> (string, 'v) entries) \<Rightarrow> 'l \<Rightarrow> 'l list \<Rightarrow> (string \<times> 'v) list" where
  "merge_layers pick global layers =
     fold (\<lambda>l merged. fold (\<lambda>e. AList.update (fst e) (snd e)) (entry_list (pick l)) merged) layers
       (entry_list (pick global))"

text \<open>The layer a registration goes to, and whether it was created for it.\<close>

definition layer_for :: "('k option \<Rightarrow> 'l) \<Rightarrow> 'k option \<Rightarrow> ('k, 'l) scoped_layers \<Rightarrow> (nat \<times> bool) \<times> ('k, 'l) scoped_layers" where
  "layer_for create scope s =
     (case scope of
        None \<Rightarrow> ((0, False), s)
      | Some k \<Rightarrow>
          (case sl_scoped s k of
             Some i \<Rightarrow> ((i, False), s)
           | None \<Rightarrow>
               ((length (sl_objects s), True),
                s\<lparr>sl_objects := sl_objects s @ [create scope], sl_scoped := (sl_scoped s)(k \<mapsto> length (sl_objects s))\<rparr>)))"

definition drop_overlay :: "'k option \<Rightarrow> ('k, 'l) scoped_layers \<Rightarrow> ('k, 'l) scoped_layers" where
  "drop_overlay scope s = (case scope of None \<Rightarrow> s | Some k \<Rightarrow> s\<lparr>sl_scoped := (sl_scoped s)(k := None)\<rparr>)"

definition layers_effect ::
  "('k option \<Rightarrow> 'l) \<Rightarrow> ('l \<Rightarrow> bool) \<Rightarrow> 'k option \<Rightarrow> ('l \<Rightarrow> ('e + 'u) \<times> 'l) \<Rightarrow> bool
    \<Rightarrow> ('k, 'l) scoped_layers \<Rightarrow> ('e + ('k, 'u) layer_effect) \<times> ('k, 'l) scoped_layers"
where
  "layers_effect create is_empty scope action notify s =
     (case layer_for create scope s of
        ((i, created), s1) \<Rightarrow>
          (case action (sl_objects s1 ! i) of
             (Inl x, l) \<Rightarrow>
               (Inl x, (if created \<and> is_empty l then drop_overlay scope else id) (s1\<lparr>sl_objects := (sl_objects s1)[i := l]\<rparr>))
           | (Inr u, l) \<Rightarrow>
               (Inr \<lparr>le_layer = i, le_scope = scope, le_undo = u, le_notify = notify\<rparr>,
                s1\<lparr>sl_objects := (sl_objects s1)[i := l],
                   sl_changes := (if notify then sl_changes s1 + 1 else sl_changes s1)\<rparr>)))"

definition dispose_effect ::
  "('l \<Rightarrow> bool) \<Rightarrow> ('u \<Rightarrow> 'l \<Rightarrow> 'l) \<Rightarrow> ('k, 'u) layer_effect \<Rightarrow> ('k, 'l) scoped_layers \<Rightarrow> ('k, 'l) scoped_layers"
where
  "dispose_effect is_empty undo ef s =
     (let l = undo (le_undo ef) (sl_objects s ! le_layer ef);
          s1 = s\<lparr>sl_objects := (sl_objects s)[le_layer ef := l]\<rparr>;
          s2 = (if is_empty l then drop_overlay (le_scope ef) s1 else s1) in
      s2\<lparr>sl_changes := (if le_notify ef then sl_changes s2 + 1 else sl_changes s2)\<rparr>)"

subsection \<open>The contract of a layer\<close>

text \<open>
  A registry relies on its layers to be empty exactly when nothing is registered in them, and
  on an undo to remove one registration. \<open>holds l us\<close> says that \<open>us\<close> are the undos of the live
  registrations of \<open>l\<close>, each with what was registered. An action registers \<open>c\<close> if it does so
  wherever it does not throw, and changes nothing where it throws.
\<close>

definition registers :: "('l \<Rightarrow> ('u \<times> 'c) list \<Rightarrow> bool) \<Rightarrow> ('l \<Rightarrow> ('e + 'u) \<times> 'l) \<Rightarrow> 'c \<Rightarrow> bool" where
  "registers holds action c \<longleftrightarrow>
     (\<forall>l us. holds l us \<longrightarrow>
        (case action l of
           (Inl x, l') \<Rightarrow> holds l' us
         | (Inr u, l') \<Rightarrow> holds l' (us @ [(u, c)])))"

lemma registersD:
  assumes "registers holds action c" and "holds l us"
  shows "action l = (Inl x, l') \<Longrightarrow> holds l' us" and "action l = (Inr u, l') \<Longrightarrow> holds l' (us @ [(u, c)])"
  using assms by (fastforce simp: registers_def)+

locale scope_layer =
  fixes create :: "'k option \<Rightarrow> 'l" and is_empty :: "'l \<Rightarrow> bool" and undo :: "'u \<Rightarrow> 'l \<Rightarrow> 'l"
    and holds :: "'l \<Rightarrow> ('u \<times> 'c) list \<Rightarrow> bool"
  assumes fresh: "holds (create scope) []"
    and empty: "holds l us \<Longrightarrow> is_empty l \<longleftrightarrow> us = []"
    and apart: "holds l us \<Longrightarrow> distinct (map fst us)"
    and undone: "holds l us \<Longrightarrow> u \<in> fst ` set us \<Longrightarrow> holds (undo u l) (filter (\<lambda>r. fst r \<noteq> u) us)"

text \<open>The live registrations of one scope, and the layer its effects belong to.\<close>

type_synonym ('k, 'u, 'c) registrations = "(('k, 'u) layer_effect \<times> 'c) list"

definition owned :: "'k option \<Rightarrow> ('k, 'u, 'c) registrations \<Rightarrow> ('u \<times> 'c) list" where
  "owned scope live = map (\<lambda>r. (le_undo (fst r), snd r)) (filter (\<lambda>r. le_scope (fst r) = scope) live)"

definition place_of :: "('k, 'l) scoped_layers \<Rightarrow> 'k option \<Rightarrow> nat option" where
  "place_of s scope = (case scope of None \<Rightarrow> Some 0 | Some k \<Rightarrow> sl_scoped s k)"

definition without :: "('k, 'u) layer_effect \<Rightarrow> ('k, 'u, 'c) registrations \<Rightarrow> ('k, 'u, 'c) registrations" where
  "without ef live = filter (\<lambda>r. \<not> (le_scope (fst r) = le_scope ef \<and> le_undo (fst r) = le_undo ef)) live"

definition layers_hold ::
  "('l \<Rightarrow> ('u \<times> 'c) list \<Rightarrow> bool) \<Rightarrow> ('k, 'l) scoped_layers \<Rightarrow> ('k, 'u, 'c) registrations \<Rightarrow> bool"
where
  "layers_hold holds s live \<longleftrightarrow>
     (\<forall>scope. case place_of s scope of
        None \<Rightarrow> owned scope live = []
      | Some i \<Rightarrow> i < length (sl_objects s) \<and> holds (sl_objects s ! i) (owned scope live) \<and>
          (scope \<noteq> None \<longrightarrow> owned scope live \<noteq> [])) \<and>
     (\<forall>scope scope' i. place_of s scope = Some i \<and> place_of s scope' = Some i \<longrightarrow> scope = scope') \<and>
     (\<forall>r \<in> set live. place_of s (le_scope (fst r)) = Some (le_layer (fst r)))"

lemma owned_simps [simp]:
  "owned scope [] = []"
  "owned scope (xs @ ys) = owned scope xs @ owned scope ys"
  "owned scope (r # xs) = (if le_scope (fst r) = scope then (le_undo (fst r), snd r) # owned scope xs else owned scope xs)"
  by (simp_all add: owned_def)

lemma owned_without:
  "owned scope (without ef live) =
     (if scope = le_scope ef then filter (\<lambda>r. fst r \<noteq> le_undo ef) (owned scope live) else owned scope live)"
  by (induction live) (auto simp: without_def)

lemma layers_holdI:
  assumes "\<And>scope i. place_of s scope = Some i \<Longrightarrow> i < length (sl_objects s) \<and>
      holds (sl_objects s ! i) (owned scope live) \<and> (scope \<noteq> None \<longrightarrow> owned scope live \<noteq> [])"
    and "\<And>scope. place_of s scope = None \<Longrightarrow> owned scope live = []"
    and "\<And>scope scope' i. place_of s scope = Some i \<Longrightarrow> place_of s scope' = Some i \<Longrightarrow> scope = scope'"
    and "\<And>r. r \<in> set live \<Longrightarrow> place_of s (le_scope (fst r)) = Some (le_layer (fst r))"
  shows "layers_hold holds s live"
  using assms unfolding layers_hold_def by (fastforce split: option.splits)

lemma layers_holdD:
  assumes "layers_hold holds s live"
  shows "place_of s scope = Some i \<Longrightarrow> i < length (sl_objects s) \<and>
      holds (sl_objects s ! i) (owned scope live) \<and> (scope \<noteq> None \<longrightarrow> owned scope live \<noteq> [])"
    and "place_of s scope = None \<Longrightarrow> owned scope live = []"
    and "place_of s scope = Some i \<Longrightarrow> place_of s scope' = Some i \<Longrightarrow> scope = scope'"
    and "r \<in> set live \<Longrightarrow> place_of s (le_scope (fst r)) = Some (le_layer (fst r))"
proof -
  note parts = assms [unfolded layers_hold_def]
  show "place_of s scope = Some i \<Longrightarrow> i < length (sl_objects s) \<and>
      holds (sl_objects s ! i) (owned scope live) \<and> (scope \<noteq> None \<longrightarrow> owned scope live \<noteq> [])"
    using spec [OF conjunct1 [OF parts], of scope] by simp
  show "place_of s scope = None \<Longrightarrow> owned scope live = []"
    using spec [OF conjunct1 [OF parts], of scope] by simp
qed (use assms in \<open>auto simp: layers_hold_def\<close>)

lemma place_of_simps [simp]:
  "place_of s None = Some 0" "place_of (s\<lparr>sl_objects := os\<rparr>) scope = place_of s scope"
  "place_of (s\<lparr>sl_changes := n\<rparr>) scope = place_of s scope"
  "place_of s (Some k) = sl_scoped s k"
  by (simp_all add: place_of_def split: option.splits)

lemma drop_overlay_sel [simp]:
  "sl_objects (drop_overlay scope s) = sl_objects s"
  "place_of (drop_overlay scope s) scope' = (if scope' = scope \<and> scope \<noteq> None then None else place_of s scope')"
  by (cases scope; cases scope'; simp add: drop_overlay_def)+

lemma drop_overlay_None [simp]: "drop_overlay None s = s"
  by (simp add: drop_overlay_def)

text \<open>The layer found for a registration: its own, or a new one.\<close>

lemma layer_for_cases:
  assumes "layer_for create scope s = ((i, made), s1)"
  obtains (existing) "\<not> made" "s1 = s" "place_of s scope = Some i"
  | (new) "made" "scope \<noteq> None" "i = length (sl_objects s)" "place_of s scope = None"
      "sl_objects s1 = sl_objects s @ [create scope]"
      "\<And>scope'. place_of s1 scope' = (if scope' = scope then Some i else place_of s scope')"
proof (cases scope)
  case None
  with assms existing show ?thesis by (auto simp: layer_for_def)
next
  case (Some k)
  show ?thesis
  proof (cases "sl_scoped s k")
    case None
    have "place_of s1 scope' = (if scope' = scope then Some i else place_of s scope')" for scope'
      using assms Some None by (cases scope') (auto simp: layer_for_def)
    with assms Some None new show ?thesis by (auto simp: layer_for_def)
  next
    case (Some j)
    with assms \<open>scope = Some k\<close> existing show ?thesis by (auto simp: layer_for_def)
  qed
qed

lemma layers_hold_objects:
  assumes hold: "layers_hold holds s live" and at: "place_of s scope = Some i"
    and l: "holds l (owned scope live')" and some: "scope \<noteq> None \<Longrightarrow> owned scope live' \<noteq> []"
    and same: "\<And>scope'. scope' \<noteq> scope \<Longrightarrow> owned scope' live' = owned scope' live"
    and set: "\<And>r. r \<in> set live' \<Longrightarrow> place_of s (le_scope (fst r)) = Some (le_layer (fst r))"
  shows "layers_hold holds (s\<lparr>sl_objects := (sl_objects s)[i := l]\<rparr>) live'"
proof (rule layers_holdI)
  fix scope' j assume p: "place_of (s\<lparr>sl_objects := (sl_objects s)[i := l]\<rparr>) scope' = Some j"
  then have j: "j < length (sl_objects s)" "holds (sl_objects s ! j) (owned scope' live)"
      "scope' \<noteq> None \<longrightarrow> owned scope' live \<noteq> []"
    using layers_holdD(1) [OF hold, of scope' j] by simp_all
  have "j = i \<longleftrightarrow> scope' = scope" using p at layers_holdD(3) [OF hold] by auto
  with j l some same show "j < length (sl_objects (s\<lparr>sl_objects := (sl_objects s)[i := l]\<rparr>)) \<and>
      holds (sl_objects (s\<lparr>sl_objects := (sl_objects s)[i := l]\<rparr>) ! j) (owned scope' live') \<and>
      (scope' \<noteq> None \<longrightarrow> owned scope' live' \<noteq> [])" by auto
next
  fix scope' assume p: "place_of (s\<lparr>sl_objects := (sl_objects s)[i := l]\<rparr>) scope' = None"
  with at same [of scope'] layers_holdD(2) [OF hold, of scope'] show "owned scope' live' = []"
    by (cases "scope' = scope") auto
qed (use layers_holdD(3) [OF hold] set in auto)

lemma layers_hold_cong:
  assumes "sl_objects s' = sl_objects s" and "\<And>scope. place_of s' scope = place_of s scope"
  shows "layers_hold holds s' live \<longleftrightarrow> layers_hold holds s live"
  unfolding layers_hold_def assms ..

lemma layers_hold_changes: "layers_hold holds (s\<lparr>sl_changes := n\<rparr>) live \<longleftrightarrow> layers_hold holds s live"
  by (rule layers_hold_cong) simp_all

context scope_layer
begin

lemma new_layers_hold: "layers_hold holds (new_layers create) []"
  by (rule layers_holdI) (auto simp: new_layers_def place_of_def fresh split: option.splits)

lemma existing_effect_hold:
  assumes hold: "layers_hold holds s live" and act: "registers holds action c" and at: "place_of s scope = Some i"
    and q: "action (sl_objects s ! i) = (q, l)"
  shows "case q of
      Inl x \<Rightarrow> layers_hold holds (s\<lparr>sl_objects := (sl_objects s)[i := l]\<rparr>) live
    | Inr u \<Rightarrow> layers_hold holds (s\<lparr>sl_objects := (sl_objects s)[i := l]\<rparr>)
        (live @ [(\<lparr>le_layer = i, le_scope = scope, le_undo = u, le_notify = n\<rparr>, c)])"
proof -
  note own = layers_holdD(1) [OF hold at]
  show ?thesis
  proof (cases q)
    case (Inl x)
    with registersD(1) [OF act, of _ "owned scope live"] own q have l: "holds l (owned scope live)" by blast
    have "layers_hold holds (s\<lparr>sl_objects := (sl_objects s)[i := l]\<rparr>) live"
      by (rule layers_hold_objects [OF hold at l]) (use own layers_holdD(4) [OF hold] in simp_all)
    with Inl show ?thesis by simp
  next
    case (Inr u)
    let ?ef = "\<lparr>le_layer = i, le_scope = scope, le_undo = u, le_notify = n\<rparr>"
    from Inr registersD(2) [OF act, of _ "owned scope live"] own q
    have "holds l (owned scope live @ [(u, c)])" by blast
    then have l: "holds l (owned scope (live @ [(?ef, c)]))" by simp
    have "layers_hold holds (s\<lparr>sl_objects := (sl_objects s)[i := l]\<rparr>) (live @ [(?ef, c)])"
      by (rule layers_hold_objects [OF hold at l]) (use layers_holdD(4) [OF hold] at in auto)
    with Inr show ?thesis by simp
  qed
qed

lemma new_layer_hold:
  assumes hold: "layers_hold holds s live" and none: "place_of s scope = None"
    and l: "holds l [(u, c)]" and objects: "sl_objects s' = sl_objects s @ [l]"
    and place: "\<And>scope'. place_of s' scope' = (if scope' = scope then Some (length (sl_objects s)) else place_of s scope')"
  shows "layers_hold holds s' (live @ [(\<lparr>le_layer = length (sl_objects s), le_scope = scope, le_undo = u, le_notify = n\<rparr>, c)])"
    (is "layers_hold _ _ ?live")
proof (rule layers_holdI)
  have own: "owned scope live = []" using layers_holdD(2) [OF hold none] .
  fix scope' j assume j: "place_of s' scope' = Some j"
  show "j < length (sl_objects s') \<and> holds (sl_objects s' ! j) (owned scope' ?live) \<and> (scope' \<noteq> None \<longrightarrow> owned scope' ?live \<noteq> [])"
  proof (cases "scope' = scope")
    case True
    with j place have "j = length (sl_objects s)" by simp
    with True own l objects show ?thesis by simp
  next
    case False
    with j place have "place_of s scope' = Some j" by simp
    from layers_holdD(1) [OF hold this] False objects show ?thesis by (simp add: nth_append)
  qed
next
  fix scope' assume "place_of s' scope' = None"
  then show "owned scope' ?live = []" using place layers_holdD(2) [OF hold, of scope'] by (auto split: if_splits)
next
  fix scope' scope'' j assume "place_of s' scope' = Some j" "place_of s' scope'' = Some j"
  moreover have "place_of s scope = Some j \<Longrightarrow> j \<noteq> length (sl_objects s)" for scope
    using layers_holdD(1) [OF hold] by blast
  ultimately show "scope' = scope''" using place layers_holdD(3) [OF hold] by (metis option.inject)
next
  fix r assume "r \<in> set ?live"
  then show "place_of s' (le_scope (fst r)) = Some (le_layer (fst r))"
    using place none layers_holdD(4) [OF hold, of r] by auto
qed

lemma layers_effect_hold:
  assumes hold: "layers_hold holds s live" and act: "registers holds action c"
    and run: "layers_effect create is_empty scope action notify s = (r, s')"
  shows "case r of Inl x \<Rightarrow> layers_hold holds s' live | Inr ef \<Rightarrow> layers_hold holds s' (live @ [(ef, c)])"
proof -
  obtain i made s1 where found: "layer_for create scope s = ((i, made), s1)" by (metis surj_pair)
  obtain q l where q: "action (sl_objects s1 ! i) = (q, l)" by fastforce
  from found show ?thesis
  proof (cases rule: layer_for_cases)
    case existing
    from existing_effect_hold [OF hold act existing(3)] q existing(2) have keep: "case q of
        Inl x \<Rightarrow> layers_hold holds (s\<lparr>sl_objects := (sl_objects s)[i := l]\<rparr>) live
      | Inr u \<Rightarrow> layers_hold holds (s\<lparr>sl_objects := (sl_objects s)[i := l]\<rparr>)
          (live @ [(\<lparr>le_layer = i, le_scope = scope, le_undo = u, le_notify = notify\<rparr>, c)])" by simp
    have s': "sl_objects s' = (sl_objects s)[i := l]" "\<And>scope. place_of s' scope = place_of s scope"
      using run found q existing by (auto simp: layers_effect_def split: sum.splits)
    have r: "r = map_sum id (\<lambda>u. \<lparr>le_layer = i, le_scope = scope, le_undo = u, le_notify = notify\<rparr>) q"
      using run found q by (auto simp: layers_effect_def split: sum.splits)
    from keep show ?thesis
      by (cases q) (simp_all add: r layers_hold_cong [of s' "s\<lparr>sl_objects := (sl_objects s)[i := l]\<rparr>"] s')
  next
    case new
    have obj: "sl_objects s1 ! i = create scope" using new by simp
    show ?thesis
    proof (cases q)
      case (Inl x)
      with registersD(1) [OF act fresh] obj q have "holds l []" by simp
      with empty have "is_empty l" by blast
      then have s': "r = Inl x" "s' = drop_overlay scope (s1\<lparr>sl_objects := (sl_objects s1)[i := l]\<rparr>)"
        using run found q Inl new(1) by (simp_all add: layers_effect_def)
      have "place_of s' scope' = place_of s scope'" for scope' using new s'(2) by simp
      then have "layers_hold holds s' live \<longleftrightarrow> layers_hold holds (s\<lparr>sl_objects := sl_objects s @ [l]\<rparr>) live"
        using new s'(2) by (intro layers_hold_cong) simp_all
      moreover have "layers_hold holds (s\<lparr>sl_objects := sl_objects s @ [l]\<rparr>) live"
        using layers_holdD [OF hold] by (intro layers_holdI) (auto simp: nth_append less_Suc_eq)
      ultimately show ?thesis using s'(1) by simp
    next
      case (Inr u)
      with registersD(2) [OF act fresh] obj q have l: "holds l [(u, c)]" by fastforce
      have s': "r = Inr \<lparr>le_layer = length (sl_objects s), le_scope = scope, le_undo = u, le_notify = notify\<rparr>"
          "sl_objects s' = sl_objects s @ [l]" "\<And>scope'. place_of s' scope' = place_of s1 scope'"
        using run found q Inr new(1,3,5) by (auto simp: layers_effect_def)
      have "layers_hold holds s' (live @ [(\<lparr>le_layer = length (sl_objects s), le_scope = scope, le_undo = u, le_notify = notify\<rparr>, c)])"
        by (rule new_layer_hold [OF hold new(4) l s'(2)]) (simp add: s'(3) new)
      with s'(1) show ?thesis by simp
    qed
  qed
qed

lemma dispose_effect_hold:
  assumes hold: "layers_hold holds s live" and ef: "ef \<in> fst ` set live"
  shows "layers_hold holds (dispose_effect is_empty undo ef s) (without ef live)"
proof -
  let ?scope = "le_scope ef" let ?i = "le_layer ef" let ?l = "undo (le_undo ef) (sl_objects s ! ?i)"
  have at: "place_of s ?scope = Some ?i" using layers_holdD(4) [OF hold] ef by auto
  note own = layers_holdD(1) [OF hold at]
  have "le_undo ef \<in> fst ` set (owned ?scope live)" using ef by (force simp: owned_def)
  with own undone have l: "holds ?l (owned ?scope (without ef live))" by (simp add: owned_without)
  have kept: "owned scope (without ef live) = owned scope live" if "scope \<noteq> ?scope" for scope
    using that by (simp add: owned_without)
  have members: "r \<in> set (without ef live) \<Longrightarrow> r \<in> set live" for r by (simp add: without_def)
  show ?thesis
  proof (cases "?scope \<noteq> None \<and> is_empty ?l")
    case True
    with l empty have none: "owned ?scope (without ef live) = []" by blast
    let ?s = "drop_overlay ?scope (s\<lparr>sl_objects := (sl_objects s)[?i := ?l]\<rparr>)"
    have "layers_hold holds ?s (without ef live)"
    proof (rule layers_holdI)
      fix scope j assume "place_of ?s scope = Some j"
      then have p: "scope \<noteq> ?scope" "place_of s scope = Some j" using True by (auto split: if_splits)
      then have "j \<noteq> ?i" using at layers_holdD(3) [OF hold] by blast
      with p layers_holdD(1) [OF hold p(2)] kept
      show "j < length (sl_objects ?s) \<and> holds (sl_objects ?s ! j) (owned scope (without ef live)) \<and>
          (scope \<noteq> None \<longrightarrow> owned scope (without ef live) \<noteq> [])" by simp
    next
      fix scope assume "place_of ?s scope = None"
      then show "owned scope (without ef live) = []"
        using none kept layers_holdD(2) [OF hold, of scope] by (cases "scope = ?scope") auto
    next
      fix scope scope' j assume "place_of ?s scope = Some j" "place_of ?s scope' = Some j"
      then show "scope = scope'" using layers_holdD(3) [OF hold] by (auto split: if_splits)
    next
      fix r assume r: "r \<in> set (without ef live)"
      have "le_scope (fst r) \<noteq> ?scope"
      proof
        assume "le_scope (fst r) = ?scope"
        with r have "(le_undo (fst r), snd r) \<in> set (owned ?scope (without ef live))" by (force simp: owned_def)
        with none show False by simp
      qed
      with members [OF r] layers_holdD(4) [OF hold] show "place_of ?s (le_scope (fst r)) = Some (le_layer (fst r))" by simp
    qed
    with True show ?thesis by (simp add: dispose_effect_def Let_def layers_hold_changes)
  next
    case False
    have "layers_hold holds (s\<lparr>sl_objects := (sl_objects s)[?i := ?l]\<rparr>) (without ef live)"
      by (rule layers_hold_objects [OF hold at l])
        (use False l empty kept members layers_holdD(4) [OF hold] in auto)
    with False show ?thesis by (auto simp: dispose_effect_def Let_def layers_hold_changes)
  qed
qed

end

subsection \<open>What a scope sees\<close>

lemma fold_update_map_of:
  "map_of (fold (\<lambda>e. AList.update (fst e) (snd e)) es m) k = (case map_of (rev es) k of None \<Rightarrow> map_of m k | Some v \<Rightarrow> Some v)"
  by (induction es arbitrary: m) (auto simp: update_conv' map_add_def split: option.splits)

lemma update_new: "k \<notin> fst ` set m \<Longrightarrow> AList.update k v m = m @ [(k, v)]"
  by (induction m) auto

lemma fold_update_distinct:
  "distinct (map fst m @ map fst es) \<Longrightarrow> fold (\<lambda>e. AList.update (fst e) (snd e)) es m = m @ es"
  by (induction es arbitrary: m) (auto simp: update_new)

text \<open>The merge is one run of updates over the entries in the order of the view.\<close>

lemma merge_layers_concat:
  assumes "distinct (map fst (entry_list (pick global)))"
  shows "merge_layers pick global layers =
    fold (\<lambda>e. AList.update (fst e) (snd e)) (concat (map (\<lambda>l. entry_list (pick l)) (global # layers))) []"
proof -
  have "fold (\<lambda>l. fold (\<lambda>e. AList.update (fst e) (snd e)) (entry_list (pick l))) layers m =
      fold (\<lambda>e. AList.update (fst e) (snd e)) (concat (map (\<lambda>l. entry_list (pick l)) layers)) m" for m
    by (induction layers arbitrary: m) simp_all
  then show ?thesis using fold_update_distinct [of "[]" "entry_list (pick global)"] assms by (simp add: merge_layers_def)
qed

lemma chain_layers_hold:
  assumes hold: "layers_hold holds s live" and chain: "scope_chain_of parents scope = Some chain"
  shows "\<exists>ls. chain_layers parents s scope = Some ls \<and>
    list_all2 holds ls (filter (\<lambda>us. us \<noteq> []) (map (\<lambda>k. owned (Some k) live) (rev chain)))"
proof -
  have "list_all2 holds (List.map_filter (\<lambda>k. peek_layer s (Some k)) ks)
      (filter (\<lambda>us. us \<noteq> []) (map (\<lambda>k. owned (Some k) live) ks))" for ks
  proof (induction ks)
    case (Cons k ks)
    then show ?case
      using layers_holdD(1,2) [OF hold, of "Some k"]
      by (cases "sl_scoped s k") (auto simp: map_filter_def peek_layer_def)
  qed (simp add: map_filter_def)
  with chain show ?thesis by (simp add: chain_layers_def)
qed

end
