(* ===== verification/Prompt_Registry.thy ===== *)
theory Prompt_Registry
  imports Prompt_Text Scope_Layers
begin

section \<open>The registry of prompt inputs\<close>

text \<open>
  The service \<open>SystemPrompt\<close> of \<^verbatim>\<open>packages/core/system-prompt/src/index.ts\<close>: five tables per
  layer, registrations and their disposal, and the assembly of a prompt. Providers are
  functions of the context of an assembly that may throw and do not touch the registry; the
  \<open>system-prompt/assemble\<close> waterfall is an argument.
\<close>

subsection \<open>Registrations\<close>

datatype registry_table = SectionTable | ContextTable | VariableTable

datatype registry_error =
    DuplicateEntry registry_table bool string
  | OrderNotFinite registry_table string
  | BadPromptVariable string
  | ManyComplete "string list"
  | ToolOrdering prompt_error
  | ProviderFailed string

datatype 'c text_source = StaticText string | TextFrom "'c \<Rightarrow> registry_error + string"

record 'c prompt_section =
  ps_name :: string
  ps_order :: "rat option"
  ps_text :: "'c text_source"
  ps_complete :: bool

record 'c prompt_context =
  px_name :: string
  px_order :: "rat option"
  px_text :: "'c text_source"

type_synonym 'c tool_provider = "'c \<Rightarrow> registry_error + tool_schema list \<times> string list option"
type_synonym 'c variable_provider = "'c \<Rightarrow> registry_error + string option"

record 'c prompt_layer =
  py_scoped :: bool
  py_sections :: "(string, 'c prompt_section) entries"
  py_contexts :: "(string, 'c prompt_context) entries"
  py_suppressors :: "(nat, unit) entries"
  py_tools :: "(nat, 'c tool_provider) entries"
  py_variables :: "(string, 'c variable_provider) entries"

definition new_prompt_layer :: "'k option \<Rightarrow> 'c prompt_layer" where
  "new_prompt_layer scope =
     \<lparr>py_scoped = (scope \<noteq> None), py_sections = new_entries, py_contexts = new_entries,
      py_suppressors = new_entries, py_tools = new_entries, py_variables = new_entries\<rparr>"

definition prompt_layer_empty :: "'c prompt_layer \<Rightarrow> bool" where
  "prompt_layer_empty l \<longleftrightarrow>
     entries_empty (py_sections l) \<and> entries_empty (py_contexts l) \<and> entries_empty (py_suppressors l) \<and>
     entries_empty (py_tools l) \<and> entries_empty (py_variables l)"

text \<open>An undo of a layer is one of its tables' undos.\<close>

datatype prompt_undo =
    UndoSection nat
  | UndoContext nat
  | UndoSuppressor nat
  | UndoTools nat
  | UndoVariable nat

fun undo_prompt :: "prompt_undo \<Rightarrow> 'c prompt_layer \<Rightarrow> 'c prompt_layer" where
  "undo_prompt (UndoSection i) l = l\<lparr>py_sections := undo_entry i (py_sections l)\<rparr>"
| "undo_prompt (UndoContext i) l = l\<lparr>py_contexts := undo_entry i (py_contexts l)\<rparr>"
| "undo_prompt (UndoSuppressor i) l = l\<lparr>py_suppressors := undo_entry i (py_suppressors l)\<rparr>"
| "undo_prompt (UndoTools i) l = l\<lparr>py_tools := undo_entry i (py_tools l)\<rparr>"
| "undo_prompt (UndoVariable i) l = l\<lparr>py_variables := undo_entry i (py_variables l)\<rparr>"

text \<open>What is registered, and the action each method passes to \<open>effect\<close>.\<close>

datatype 'c contribution =
    AddSection "'c prompt_section"
  | AddContext "'c prompt_context"
  | AddSuppressor
  | AddTools "'c tool_provider"
  | AddVariable string "'c variable_provider"

fun contribute :: "'c contribution \<Rightarrow> 'c prompt_layer \<Rightarrow> (registry_error + prompt_undo) \<times> 'c prompt_layer" where
  "contribute (AddSection p) l =
     (case named_insert (DuplicateEntry SectionTable (py_scoped l)) (ps_name p) p (py_sections l) of
        (r, t) \<Rightarrow> (map_sum id UndoSection r, l\<lparr>py_sections := t\<rparr>))"
| "contribute (AddContext p) l =
     (case named_insert (DuplicateEntry ContextTable (py_scoped l)) (px_name p) p (py_contexts l) of
        (r, t) \<Rightarrow> (map_sum id UndoContext r, l\<lparr>py_contexts := t\<rparr>))"
| "contribute AddSuppressor l =
     (case anonymous_append () (py_suppressors l) of (i, t) \<Rightarrow> (Inr (UndoSuppressor i), l\<lparr>py_suppressors := t\<rparr>))"
| "contribute (AddTools p) l =
     (case anonymous_append p (py_tools l) of (i, t) \<Rightarrow> (Inr (UndoTools i), l\<lparr>py_tools := t\<rparr>))"
| "contribute (AddVariable n p) l =
     (case named_insert (DuplicateEntry VariableTable (py_scoped l)) n p (py_variables l) of
        (r, t) \<Rightarrow> (map_sum id UndoVariable r, l\<lparr>py_variables := t\<rparr>))"

type_synonym ('k, 'c) prompt_layers = "('k, 'c prompt_layer) scoped_layers"
type_synonym 'k prompt_effect = "('k, prompt_undo) layer_effect"

definition prompt_effect ::
  "'k option \<Rightarrow> 'c contribution \<Rightarrow> ('k, 'c) prompt_layers \<Rightarrow> (registry_error + 'k prompt_effect) \<times> ('k, 'c) prompt_layers"
where
  "prompt_effect scope c = layers_effect new_prompt_layer prompt_layer_empty scope (contribute c) True"

definition add_section ::
  "'k option \<Rightarrow> 'c prompt_section \<Rightarrow> ('k, 'c) prompt_layers \<Rightarrow> (registry_error + 'k prompt_effect) \<times> ('k, 'c) prompt_layers"
where
  "add_section scope p s =
     (if ps_order p = None then (Inl (OrderNotFinite SectionTable (ps_name p)), s)
      else prompt_effect scope (AddSection p) s)"

definition add_context ::
  "'k option \<Rightarrow> 'c prompt_context \<Rightarrow> ('k, 'c) prompt_layers \<Rightarrow> (registry_error + 'k prompt_effect) \<times> ('k, 'c) prompt_layers"
where
  "add_context scope p s =
     (if px_order p = None then (Inl (OrderNotFinite ContextTable (px_name p)), s)
      else prompt_effect scope (AddContext p) s)"

definition suppress_runtime_context ::
  "'k option \<Rightarrow> ('k, 'c) prompt_layers \<Rightarrow> (registry_error + 'k prompt_effect) \<times> ('k, 'c) prompt_layers"
where
  "suppress_runtime_context scope s = prompt_effect scope AddSuppressor s"

definition add_tools ::
  "'k option \<Rightarrow> 'c tool_provider \<Rightarrow> ('k, 'c) prompt_layers \<Rightarrow> (registry_error + 'k prompt_effect) \<times> ('k, 'c) prompt_layers"
where
  "add_tools scope p s = prompt_effect scope (AddTools p) s"

definition add_variable ::
  "'k option \<Rightarrow> string \<Rightarrow> 'c variable_provider \<Rightarrow> ('k, 'c) prompt_layers
    \<Rightarrow> (registry_error + 'k prompt_effect) \<times> ('k, 'c) prompt_layers"
where
  "add_variable scope n p s =
     (if \<not> variable_name n then (Inl (BadPromptVariable n), s) else prompt_effect scope (AddVariable n p) s)"

fun register ::
  "'k option \<Rightarrow> 'c contribution \<Rightarrow> ('k, 'c) prompt_layers \<Rightarrow> (registry_error + 'k prompt_effect) \<times> ('k, 'c) prompt_layers"
where
  "register scope (AddSection p) = add_section scope p"
| "register scope (AddContext p) = add_context scope p"
| "register scope AddSuppressor = suppress_runtime_context scope"
| "register scope (AddTools p) = add_tools scope p"
| "register scope (AddVariable n p) = add_variable scope n p"

definition unregister :: "'k prompt_effect \<Rightarrow> ('k, 'c) prompt_layers \<Rightarrow> ('k, 'c) prompt_layers" where
  "unregister = dispose_effect prompt_layer_empty undo_prompt"

subsection \<open>The constructor\<close>

record prompt_config =
  pg_identity :: "bool option"
  pg_context :: "bool option"
  pg_persona :: "string option"
  pg_order :: "string list option"

record ('k, 'c) prompt_service =
  sp_layers :: "('k, 'c) prompt_layers"
  sp_order :: "string list option"

definition opening_parts :: "prompt_config \<Rightarrow> 'c contribution list" where
  "opening_parts cfg =
     (if pg_identity cfg \<noteq> Some False
      then [AddSection \<lparr>ps_name = ''harness:identity'', ps_order = Some (- 100),
              ps_text = StaticText ''You are an AI agent powered by DeepSeek Harness.'', ps_complete = False\<rparr>]
      else [])
     @ [AddSection \<lparr>ps_name = ''deployment:persona'', ps_order = Some 0,
          ps_text = StaticText (case pg_persona cfg of None \<Rightarrow> [] | Some t \<Rightarrow> t), ps_complete = False\<rparr>]
     @ (if pg_context cfg = Some False then [AddSuppressor] else [])"

fun register_all ::
  "'c contribution list \<Rightarrow> ('k, 'c) prompt_layers \<Rightarrow> (registry_error + 'k prompt_effect list) \<times> ('k, 'c) prompt_layers"
where
  "register_all [] s = (Inr [], s)"
| "register_all (c # cs) s =
     (case register None c s of
        (Inl x, s') \<Rightarrow> (Inl x, s')
      | (Inr ef, s') \<Rightarrow> (case register_all cs s' of (r, s'') \<Rightarrow> (map_sum id ((#) ef) r, s'')))"

definition new_prompt_service ::
  "prompt_config \<Rightarrow> registry_error + ('k, 'c) prompt_service \<times> 'k prompt_effect list"
where
  "new_prompt_service cfg =
     (case validate_tool_order (pg_order cfg) of
        Inl x \<Rightarrow> Inl (ToolOrdering x)
      | Inr ord \<Rightarrow>
          (case register_all (opening_parts cfg) (new_layers new_prompt_layer) of
             (Inl x, s) \<Rightarrow> Inl x
           | (Inr efs, s) \<Rightarrow> Inr (\<lparr>sp_layers = s, sp_order = ord\<rparr>, efs)))"

subsection \<open>Assembly\<close>

record ('k, 'c) assembly_env =
  ae_scope :: "'c \<Rightarrow> 'k option"
  ae_waterfall :: "'c \<Rightarrow> prompt_assembly \<Rightarrow> registry_error + prompt_assembly"

fun eval_variables ::
  "'c \<Rightarrow> (string \<times> 'c variable_provider) list \<Rightarrow> (string \<times> string option) list
    \<Rightarrow> registry_error + (string \<times> string option) list"
where
  "eval_variables cx [] vars = Inr vars"
| "eval_variables cx ((n, p) # ps) vars = and_then (p cx) (\<lambda>v. eval_variables cx ps (AList.update n v vars))"

fun collect_tools ::
  "'c \<Rightarrow> 'c tool_provider list \<Rightarrow> tool_schema list \<Rightarrow> string list
    \<Rightarrow> registry_error + tool_schema list \<times> string list"
where
  "collect_tools cx [] tools known = Inr (tools, known)"
| "collect_tools cx (p # ps) tools known =
     and_then (p cx)
       (\<lambda>r. collect_tools cx ps (tools @ fst r)
              (known @ (case snd r of None \<Rightarrow> map ts_name (fst r) | Some ns \<Rightarrow> ns)))"

fun resolve_text :: "'c \<Rightarrow> 'c text_source \<Rightarrow> registry_error + string" where
  "resolve_text cx (StaticText t) = Inr t"
| "resolve_text cx (TextFrom f) = f cx"

fun resolve_parts :: "'c \<Rightarrow> (string \<times> 'c text_source) list \<Rightarrow> registry_error + assembled_part list" where
  "resolve_parts cx [] = Inr []"
| "resolve_parts cx ((n, src) # ps) =
     and_then (resolve_text cx src)
       (\<lambda>t. map_sum id ((#) \<lparr>ap_name = n, ap_text = t\<rparr>) (resolve_parts cx ps))"

definition finite_order :: "rat option \<Rightarrow> rat" where
  "finite_order q = (case q of None \<Rightarrow> 0 | Some q \<Rightarrow> q)"

text \<open>The copy kept of the complete section, the last one the map over the sections met.\<close>

definition complete_part :: "'c prompt_section list \<Rightarrow> assembled_part list \<Rightarrow> assembled_part option" where
  "complete_part ps parts =
     (case filter (\<lambda>x. ps_complete (fst x)) (zip ps parts) of [] \<Rightarrow> None | xs \<Rightarrow> Some (snd (last xs)))"

definition restore_complete :: "assembled_part option \<Rightarrow> bool \<Rightarrow> prompt_assembly \<Rightarrow> prompt_assembly" where
  "restore_complete whole suppressed a =
     (if whole = None \<and> \<not> suppressed then a
      else a\<lparr>pa_sections := (case whole of None \<Rightarrow> pa_sections a | Some p \<Rightarrow> [p]),
             pa_contexts := (if suppressed then [] else pa_contexts a)\<rparr>)"

definition assemble_parts ::
  "('k, 'c) assembly_env \<Rightarrow> bool \<Rightarrow> (string \<times> 'c variable_provider) list \<Rightarrow> 'c prompt_section list
    \<Rightarrow> 'c prompt_context list \<Rightarrow> 'c tool_provider list \<Rightarrow> string list option \<Rightarrow> 'c \<Rightarrow> registry_error + prompt_assembly"
where
  "assemble_parts env suppressed variables sections contexts providers ord cx =
     and_then (eval_variables cx variables [])
       (\<lambda>vars. and_then (collect_tools cx providers [] [])
         (\<lambda>(tools, known).
            let ps = sort_key (\<lambda>p. finite_order (ps_order p)) sections;
                whole = filter ps_complete ps in
            if 1 < length whole then Inl (ManyComplete (map ps_name whole))
            else
              and_then (resolve_parts cx (map (\<lambda>p. (ps_name p, ps_text p)) ps))
                (\<lambda>parts. and_then
                   (if suppressed then Inr []
                    else resolve_parts cx (map (\<lambda>p. (px_name p, px_text p)) (sort_key (\<lambda>p. finite_order (px_order p)) contexts)))
                   (\<lambda>contexts. and_then (map_sum ToolOrdering id (order_tools tools ord known))
                     (\<lambda>tools. and_then
                        (ae_waterfall env cx \<lparr>pa_sections = parts, pa_contexts = contexts, pa_tools = tools, pa_variables = vars\<rparr>)
                        (\<lambda>a. Inr (restore_complete (complete_part ps parts) suppressed a)))))))"

definition assemble_layers ::
  "('k, 'c) assembly_env \<Rightarrow> 'c prompt_layer \<Rightarrow> 'c prompt_layer list \<Rightarrow> string list option \<Rightarrow> 'c
    \<Rightarrow> registry_error + prompt_assembly"
where
  "assemble_layers env global layers ord cx =
     assemble_parts env
       (\<not> entries_empty (py_suppressors global) \<or> list_ex (\<lambda>l. \<not> entries_empty (py_suppressors l)) layers)
       (entry_list (py_variables global) @ concat (map (\<lambda>l. entry_list (py_variables l)) layers))
       (map snd (merge_layers py_sections global layers))
       (map snd (merge_layers py_contexts global layers))
       (map snd (entry_list (py_tools global)) @ concat (map (\<lambda>l. map snd (entry_list (py_tools l))) layers))
       ord cx"

definition assemble_prompt ::
  "('k, 'c) assembly_env \<Rightarrow> ('k \<rightharpoonup> 'k) \<Rightarrow> ('k, 'c) prompt_service \<Rightarrow> 'c \<Rightarrow> (registry_error + prompt_assembly) option"
where
  "assemble_prompt env parents sv cx =
     map_option (\<lambda>layers. assemble_layers env (sl_objects (sp_layers sv) ! 0) layers (sp_order sv) cx)
       (chain_layers parents (sp_layers sv) (ae_scope env cx))"

subsection \<open>The ledger of a layer\<close>

type_synonym 'c prompt_ledger = "(prompt_undo \<times> 'c contribution) list"

fun section_entry :: "prompt_undo \<times> 'c contribution \<Rightarrow> (nat \<times> string \<times> 'c prompt_section) option" where
  "section_entry (UndoSection i, AddSection p) = Some (i, ps_name p, p)"
| "section_entry r = None"

fun context_entry :: "prompt_undo \<times> 'c contribution \<Rightarrow> (nat \<times> string \<times> 'c prompt_context) option" where
  "context_entry (UndoContext i, AddContext p) = Some (i, px_name p, p)"
| "context_entry r = None"

fun suppressor_entry :: "prompt_undo \<times> 'c contribution \<Rightarrow> (nat \<times> nat \<times> unit) option" where
  "suppressor_entry (UndoSuppressor i, AddSuppressor) = Some (i, i, ())"
| "suppressor_entry r = None"

fun tools_entry :: "prompt_undo \<times> 'c contribution \<Rightarrow> (nat \<times> nat \<times> 'c tool_provider) option" where
  "tools_entry (UndoTools i, AddTools p) = Some (i, i, p)"
| "tools_entry r = None"

fun variable_entry :: "prompt_undo \<times> 'c contribution \<Rightarrow> (nat \<times> string \<times> 'c variable_provider) option" where
  "variable_entry (UndoVariable i, AddVariable n p) = Some (i, n, p)"
| "variable_entry r = None"

definition tagged :: "prompt_undo \<times> 'c contribution \<Rightarrow> bool" where
  "tagged r \<longleftrightarrow> section_entry r \<noteq> None \<or> context_entry r \<noteq> None \<or> suppressor_entry r \<noteq> None \<or>
     tools_entry r \<noteq> None \<or> variable_entry r \<noteq> None"

definition prompt_layer_holds :: "'c prompt_layer \<Rightarrow> 'c prompt_ledger \<Rightarrow> bool" where
  "prompt_layer_holds l us \<longleftrightarrow>
     distinct (map fst us) \<and> (\<forall>r \<in> set us. tagged r) \<and>
     entries_hold (py_sections l) (List.map_filter section_entry us) \<and>
     entries_hold (py_contexts l) (List.map_filter context_entry us) \<and>
     entries_hold (py_suppressors l) (List.map_filter suppressor_entry us) \<and>
     entries_hold (py_tools l) (List.map_filter tools_entry us) \<and>
     entries_hold (py_variables l) (List.map_filter variable_entry us)"

lemma section_undo: "section_entry r = Some e \<Longrightarrow> fst r = UndoSection (fst e)"
  by (cases r rule: section_entry.cases) auto

lemma context_undo: "context_entry r = Some e \<Longrightarrow> fst r = UndoContext (fst e)"
  by (cases r rule: context_entry.cases) auto

lemma suppressor_undo: "suppressor_entry r = Some e \<Longrightarrow> fst r = UndoSuppressor (fst e) \<and> fst (snd e) = fst e"
  by (cases r rule: suppressor_entry.cases) auto

lemma tools_undo: "tools_entry r = Some e \<Longrightarrow> fst r = UndoTools (fst e) \<and> fst (snd e) = fst e"
  by (cases r rule: tools_entry.cases) auto

lemma variable_undo: "variable_entry r = Some e \<Longrightarrow> fst r = UndoVariable (fst e)"
  by (cases r rule: variable_entry.cases) auto

lemmas entry_undos = section_undo context_undo suppressor_undo tools_undo variable_undo

lemma tagged_undo:
  "tagged (UndoSection i, c) \<Longrightarrow> \<exists>e. section_entry (UndoSection i, c) = Some e \<and> fst e = i"
  "tagged (UndoContext i, c) \<Longrightarrow> \<exists>e. context_entry (UndoContext i, c) = Some e \<and> fst e = i"
  "tagged (UndoSuppressor i, c) \<Longrightarrow> \<exists>e. suppressor_entry (UndoSuppressor i, c) = Some e \<and> fst e = i"
  "tagged (UndoTools i, c) \<Longrightarrow> \<exists>e. tools_entry (UndoTools i, c) = Some e \<and> fst e = i"
  "tagged (UndoVariable i, c) \<Longrightarrow> \<exists>e. variable_entry (UndoVariable i, c) = Some e \<and> fst e = i"
  by (cases c; simp add: tagged_def)+

text \<open>An undo of one table leaves the ledgers of the others.\<close>

lemma ledger_filter:
  assumes "\<And>r e. ent r = Some e \<Longrightarrow> fst r \<noteq> u \<longleftrightarrow> keep e"
  shows "List.map_filter ent (filter (\<lambda>r. fst r \<noteq> u) us) = filter keep (List.map_filter ent us)"
proof (induction us)
  case (Cons r us)
  then show ?case using assms [of r] by (cases "ent r") (auto simp: List.map_filter_simps)
qed (simp add: List.map_filter_simps)

lemma ledger_kept:
  assumes "\<And>r e. ent r = Some e \<Longrightarrow> fst r \<noteq> u"
  shows "List.map_filter ent (filter (\<lambda>r. fst r \<noteq> u) us) = List.map_filter ent us"
  using ledger_filter [of ent u "\<lambda>_. True"] assms by simp

lemma ledger_members:
  assumes "distinct (map fst us)" and "(u, c) \<in> set us" and "ent (u, c) = Some e"
  shows "e \<in> set (List.map_filter ent us)"
  using assms by (force simp: map_filter_def image_iff)

lemma ledger_ids:
  assumes "i \<notin> fst ` set (List.map_filter ent us)" and "\<forall>r \<in> set us. tagged r"
    and "\<And>c. tagged (tag i, c) \<Longrightarrow> \<exists>e. ent (tag i, c) = Some e \<and> fst e = i"
  shows "tag i \<notin> fst ` set us"
proof
  assume "tag i \<in> fst ` set us"
  then obtain c where c: "(tag i, c) \<in> set us" by force
  with assms(2,3) obtain e where "ent (tag i, c) = Some e" "fst e = i" by blast
  with c have "i \<in> fst ` set (List.map_filter ent us)" by (force simp: map_filter_def image_iff)
  with assms(1) show False by simp
qed

lemma tagged_made [simp]:
  "tagged (UndoSection i, AddSection p)" "tagged (UndoContext i, AddContext x)" "tagged (UndoSuppressor i, AddSuppressor)"
  "tagged (UndoTools i, AddTools f)" "tagged (UndoVariable i, AddVariable n g)"
  by (simp_all add: tagged_def)

lemma fresh_undo:
  assumes "\<forall>r \<in> set us. tagged r"
  shows "i \<notin> fst ` set (List.map_filter section_entry us) \<Longrightarrow> UndoSection i \<notin> fst ` set us"
    and "i \<notin> fst ` set (List.map_filter context_entry us) \<Longrightarrow> UndoContext i \<notin> fst ` set us"
    and "i \<notin> fst ` set (List.map_filter suppressor_entry us) \<Longrightarrow> UndoSuppressor i \<notin> fst ` set us"
    and "i \<notin> fst ` set (List.map_filter tools_entry us) \<Longrightarrow> UndoTools i \<notin> fst ` set us"
    and "i \<notin> fst ` set (List.map_filter variable_entry us) \<Longrightarrow> UndoVariable i \<notin> fst ` set us"
  by (erule ledger_ids [OF _ assms], erule tagged_undo)+

lemma anonymous_hold:
  assumes "entries_hold t L" and "\<forall>e \<in> set L. fst (snd e) = fst e" and "anonymous_append v t = (i, t')"
  shows "i \<notin> fst ` set L \<and> entries_hold t' (L @ [(i, i, v)])"
proof -
  have i: "i = length (et_undos t)" using assms(3) by (simp add: anonymous_append_def entry_add_def)
  have "\<forall>e \<in> set L. fst e < length (et_undos t)" using assms(1) by (simp add: entries_hold_def)
  with assms(2) have "length (et_undos t) \<notin> fst ` snd ` set L" by force
  with entries_hold_add [OF assms(1) this] assms(3) i show ?thesis by (simp add: anonymous_append_def)
qed

lemma ledger_mem: "e \<in> set (List.map_filter ent us) \<longleftrightarrow> (\<exists>r \<in> set us. ent r = Some e)"
  by (force simp: map_filter_def)

lemma ledger_snoc: "List.map_filter ent (us @ [r]) = List.map_filter ent us @ (case ent r of None \<Rightarrow> [] | Some e \<Rightarrow> [e])"
  by (simp add: map_filter_def split: option.splits)

lemma contribute_registers: "registers prompt_layer_holds (contribute c) c"
  unfolding registers_def
proof (intro allI impI)
  fix l :: "'a prompt_layer" and us assume l: "prompt_layer_holds l us"
  then have tags: "\<forall>r \<in> set us. tagged r" by (simp add: prompt_layer_holds_def)
  show "case contribute c l of (Inl x, l') \<Rightarrow> prompt_layer_holds l' us | (Inr u, l') \<Rightarrow> prompt_layer_holds l' (us @ [(u, c)])"
  proof (cases c)
    case (AddSection p)
    obtain r t where r: "named_insert (DuplicateEntry SectionTable (py_scoped l)) (ps_name p) p (py_sections l) = (r, t)" by fastforce
    have hold: "entries_hold (py_sections l) (List.map_filter section_entry us)" using l by (simp add: prompt_layer_holds_def)
    show ?thesis
      by (cases r) (use entries_hold_insert [OF hold r] fresh_undo(1) [OF tags] l in \<open>auto simp: AddSection r prompt_layer_holds_def ledger_snoc\<close>)
  next
    case (AddContext p)
    obtain r t where r: "named_insert (DuplicateEntry ContextTable (py_scoped l)) (px_name p) p (py_contexts l) = (r, t)" by fastforce
    have hold: "entries_hold (py_contexts l) (List.map_filter context_entry us)" using l by (simp add: prompt_layer_holds_def)
    show ?thesis
      by (cases r) (use entries_hold_insert [OF hold r] fresh_undo(2) [OF tags] l in \<open>auto simp: AddContext r prompt_layer_holds_def ledger_snoc\<close>)
  next
    case AddSuppressor
    obtain i t where r: "anonymous_append () (py_suppressors l) = (i, t)" by fastforce
    have hold: "entries_hold (py_suppressors l) (List.map_filter suppressor_entry us)" using l by (simp add: prompt_layer_holds_def)
    have keys: "\<forall>e \<in> set (List.map_filter suppressor_entry us). fst (snd e) = fst e"
      using suppressor_undo by (fastforce simp: ledger_mem)
    show ?thesis
      using anonymous_hold [OF hold keys r] fresh_undo(3) [OF tags] l
      by (auto simp: AddSuppressor r prompt_layer_holds_def ledger_snoc)
  next
    case (AddTools p)
    obtain i t where r: "anonymous_append p (py_tools l) = (i, t)" by fastforce
    have hold: "entries_hold (py_tools l) (List.map_filter tools_entry us)" using l by (simp add: prompt_layer_holds_def)
    have keys: "\<forall>e \<in> set (List.map_filter tools_entry us). fst (snd e) = fst e"
      using tools_undo by (fastforce simp: ledger_mem)
    show ?thesis
      using anonymous_hold [OF hold keys r] fresh_undo(4) [OF tags] l
      by (auto simp: AddTools r prompt_layer_holds_def ledger_snoc)
  next
    case (AddVariable n p)
    obtain r t where r: "named_insert (DuplicateEntry VariableTable (py_scoped l)) n p (py_variables l) = (r, t)" by fastforce
    have hold: "entries_hold (py_variables l) (List.map_filter variable_entry us)" using l by (simp add: prompt_layer_holds_def)
    show ?thesis
      by (cases r) (use entries_hold_insert [OF hold r] fresh_undo(5) [OF tags] l in \<open>auto simp: AddVariable r prompt_layer_holds_def ledger_snoc\<close>)
  qed
qed

lemma ledger_undo:
  assumes "entries_hold t (List.map_filter ent us)" and "(tag i, c) \<in> set us" and "\<exists>e. ent (tag i, c) = Some e \<and> fst e = i"
    and "\<And>r e. ent r = Some e \<Longrightarrow> fst r = tag (fst e)" and "\<And>j. tag j = tag i \<longleftrightarrow> j = i"
  shows "entries_hold (undo_entry i t) (List.map_filter ent (filter (\<lambda>r. fst r \<noteq> tag i) us))"
proof -
  have "List.map_filter ent (filter (\<lambda>r. fst r \<noteq> tag i) us) = filter (\<lambda>e. fst e \<noteq> i) (List.map_filter ent us)"
    by (rule ledger_filter) (use assms(4,5) in auto)
  moreover have "i \<in> fst ` set (List.map_filter ent us)" using assms(2,3) by (force simp: ledger_mem)
  ultimately show ?thesis using entries_hold_undo [OF assms(1)] by simp
qed

lemma undo_prompt_holds:
  assumes l: "prompt_layer_holds l us" and u: "u \<in> fst ` set us"
  shows "prompt_layer_holds (undo_prompt u l) (filter (\<lambda>r. fst r \<noteq> u) us)"
proof -
  obtain c where c: "(u, c) \<in> set us" using u by force
  with l have tag: "tagged (u, c)" by (auto simp: prompt_layer_holds_def)
  have rest: "distinct (map fst (filter (\<lambda>r. fst r \<noteq> u) us))" "\<forall>r \<in> set (filter (\<lambda>r. fst r \<noteq> u) us). tagged r"
    using l by (simp_all add: prompt_layer_holds_def distinct_map_filter)
  show ?thesis
  proof (cases u)
    case (UndoSection i)
    have "entries_hold (undo_entry i (py_sections l)) (List.map_filter section_entry (filter (\<lambda>r. fst r \<noteq> u) us))"
      unfolding UndoSection
      by (rule ledger_undo [where tag = UndoSection and ent = section_entry, OF _ _ tagged_undo(1)]) (use l c tag UndoSection in \<open>auto simp: prompt_layer_holds_def dest: section_undo\<close>)
    with rest l show ?thesis by (simp add: UndoSection prompt_layer_holds_def ledger_kept entry_undos)
  next
    case (UndoContext i)
    have "entries_hold (undo_entry i (py_contexts l)) (List.map_filter context_entry (filter (\<lambda>r. fst r \<noteq> u) us))"
      unfolding UndoContext
      by (rule ledger_undo [where tag = UndoContext and ent = context_entry, OF _ _ tagged_undo(2)]) (use l c tag UndoContext in \<open>auto simp: prompt_layer_holds_def dest: context_undo\<close>)
    with rest l show ?thesis by (simp add: UndoContext prompt_layer_holds_def ledger_kept entry_undos)
  next
    case (UndoSuppressor i)
    have "entries_hold (undo_entry i (py_suppressors l)) (List.map_filter suppressor_entry (filter (\<lambda>r. fst r \<noteq> u) us))"
      unfolding UndoSuppressor
      by (rule ledger_undo [where tag = UndoSuppressor and ent = suppressor_entry, OF _ _ tagged_undo(3)]) (use l c tag UndoSuppressor in \<open>auto simp: prompt_layer_holds_def dest: suppressor_undo\<close>)
    with rest l show ?thesis by (simp add: UndoSuppressor prompt_layer_holds_def ledger_kept entry_undos)
  next
    case (UndoTools i)
    have "entries_hold (undo_entry i (py_tools l)) (List.map_filter tools_entry (filter (\<lambda>r. fst r \<noteq> u) us))"
      unfolding UndoTools
      by (rule ledger_undo [where tag = UndoTools and ent = tools_entry, OF _ _ tagged_undo(4)]) (use l c tag UndoTools in \<open>auto simp: prompt_layer_holds_def dest: tools_undo\<close>)
    with rest l show ?thesis by (simp add: UndoTools prompt_layer_holds_def ledger_kept entry_undos)
  next
    case (UndoVariable i)
    have "entries_hold (undo_entry i (py_variables l)) (List.map_filter variable_entry (filter (\<lambda>r. fst r \<noteq> u) us))"
      unfolding UndoVariable
      by (rule ledger_undo [where tag = UndoVariable and ent = variable_entry, OF _ _ tagged_undo(5)]) (use l c tag UndoVariable in \<open>auto simp: prompt_layer_holds_def dest: variable_undo\<close>)
    with rest l show ?thesis by (simp add: UndoVariable prompt_layer_holds_def ledger_kept entry_undos)
  qed
qed

lemma tagged_cases: "tagged r \<Longrightarrow> r \<in> set us \<Longrightarrow> List.map_filter section_entry us \<noteq> [] \<or> List.map_filter context_entry us \<noteq> [] \<or>
    List.map_filter suppressor_entry us \<noteq> [] \<or> List.map_filter tools_entry us \<noteq> [] \<or> List.map_filter variable_entry us \<noteq> []"
  by (auto simp: tagged_def map_filter_def filter_empty_conv)

interpretation prompt: scope_layer new_prompt_layer prompt_layer_empty undo_prompt prompt_layer_holds
proof unfold_locales
  show "prompt_layer_holds (new_prompt_layer scope) []" for scope
    by (simp add: prompt_layer_holds_def new_prompt_layer_def List.map_filter_simps entries_hold_new)
  show "distinct (map fst us)" if "prompt_layer_holds l us" for l us
    using that by (simp add: prompt_layer_holds_def)
  show "prompt_layer_holds (undo_prompt u l) (filter (\<lambda>r. fst r \<noteq> u) us)"
    if "prompt_layer_holds l us" "u \<in> fst ` set us" for l us u
    using that by (rule undo_prompt_holds)
  show "prompt_layer_empty l \<longleftrightarrow> us = []" if l: "prompt_layer_holds l us" for l us
  proof -
    have "entries_empty (py_sections l) \<longleftrightarrow> List.map_filter section_entry us = []"
      "entries_empty (py_contexts l) \<longleftrightarrow> List.map_filter context_entry us = []"
      "entries_empty (py_suppressors l) \<longleftrightarrow> List.map_filter suppressor_entry us = []"
      "entries_empty (py_tools l) \<longleftrightarrow> List.map_filter tools_entry us = []"
      "entries_empty (py_variables l) \<longleftrightarrow> List.map_filter variable_entry us = []"
      using l by (simp_all add: prompt_layer_holds_def entries_hold_empty)
    then have "prompt_layer_empty l \<longleftrightarrow> List.map_filter section_entry us = [] \<and> List.map_filter context_entry us = [] \<and>
        List.map_filter suppressor_entry us = [] \<and> List.map_filter tools_entry us = [] \<and> List.map_filter variable_entry us = []"
      by (simp add: prompt_layer_empty_def)
    moreover have "us = [] \<or> (\<exists>r. r \<in> set us \<and> tagged r)" using l by (cases us) (auto simp: prompt_layer_holds_def)
    ultimately show ?thesis using tagged_cases [of _ us] by (auto simp: List.map_filter_simps)
  qed
qed

subsection \<open>Histories of the registry\<close>

text \<open>
  Any sequence of registrations, from any scope, refused or not, and disposals. The effect of
  a registration is disposed at most once: the framework's \<open>ctx.effect\<close> runs what it collected
  a single time.
\<close>

type_synonym ('k, 'c) prompt_live = "('k, prompt_undo, 'c contribution) registrations"

inductive registry_reach :: "prompt_config \<Rightarrow> ('k, 'c) prompt_service \<Rightarrow> ('k, 'c) prompt_live \<Rightarrow> bool" for cfg where
  opened: "new_prompt_service cfg = Inr (sv, efs) \<Longrightarrow> registry_reach cfg sv (zip efs (opening_parts cfg))"
| registered: "registry_reach cfg sv live \<Longrightarrow> register scope c (sp_layers sv) = (Inr ef, ls) \<Longrightarrow>
    registry_reach cfg (sv\<lparr>sp_layers := ls\<rparr>) (live @ [(ef, c)])"
| refused: "registry_reach cfg sv live \<Longrightarrow> register scope c (sp_layers sv) = (Inl x, ls) \<Longrightarrow>
    registry_reach cfg (sv\<lparr>sp_layers := ls\<rparr>) live"
| disposed: "registry_reach cfg sv live \<Longrightarrow> ef \<in> fst ` set live \<Longrightarrow>
    registry_reach cfg (sv\<lparr>sp_layers := unregister ef (sp_layers sv)\<rparr>) (without ef live)"

lemma register_hold:
  assumes hold: "layers_hold prompt_layer_holds s live" and run: "register scope c s = (r, s')"
  shows "case r of Inl x \<Rightarrow> layers_hold prompt_layer_holds s' live
    | Inr ef \<Rightarrow> layers_hold prompt_layer_holds s' (live @ [(ef, c)])"
proof (cases "prompt_effect scope c s = (r, s')")
  case True
  then show ?thesis
    unfolding prompt_effect_def by (rule prompt.layers_effect_hold [OF hold contribute_registers])
next
  case False
  with run have "(\<exists>x. r = Inl x) \<and> s' = s"
    by (cases c) (auto simp: add_section_def add_context_def suppress_runtime_context_def add_tools_def add_variable_def
        split: if_splits)
  with hold show ?thesis by auto
qed

lemma register_all_hold:
  "layers_hold prompt_layer_holds s live \<Longrightarrow> register_all cs s = (Inr efs, s') \<Longrightarrow>
    layers_hold prompt_layer_holds s' (live @ zip efs cs) \<and> length efs = length cs"
proof (induction cs arbitrary: s live efs)
  case (Cons c cs)
  obtain r s1 where r: "register None c s = (r, s1)" by fastforce
  with Cons.prems(2) obtain ef efs' where ef: "r = Inr ef" "register_all cs s1 = (Inr efs', s')" "efs = ef # efs'"
    by (cases r; cases "fst (register_all cs s1)") (auto split: prod.splits)
  from register_hold [OF Cons.prems(1) r] ef(1) have "layers_hold prompt_layer_holds s1 (live @ [(ef, c)])" by simp
  from Cons.IH [OF this ef(2)] ef(3) show ?case by simp
qed simp

lemma registry_hold: "registry_reach cfg sv live \<Longrightarrow> layers_hold prompt_layer_holds (sp_layers sv) live"
proof (induction rule: registry_reach.induct)
  case (opened sv efs)
  then obtain s where "register_all (opening_parts cfg) (new_layers new_prompt_layer) = (Inr efs, s)" "sp_layers sv = s"
    by (auto simp: new_prompt_service_def split: sum.splits prod.splits)
  with register_all_hold [OF prompt.new_layers_hold] show ?case by fastforce
next
  case (registered sv live scope c ef ls)
  with register_hold [of "sp_layers sv" live scope c "Inr ef" ls] show ?case by simp
next
  case (refused sv live scope c x ls)
  with register_hold [of "sp_layers sv" live scope c "Inl x" ls] show ?case by simp
next
  case (disposed sv live ef)
  then show ?case by (simp add: unregister_def prompt.dispose_effect_hold)
qed

subsection \<open>Assembly from the live registrations\<close>

text \<open>What a scope sees: the global registrations, then those of its chain, the nearest last.\<close>

definition prompt_view :: "('k, 'c) prompt_live \<Rightarrow> 'k list \<Rightarrow> 'c contribution list" where
  "prompt_view live chain = concat (map (\<lambda>scope. map snd (owned scope live)) (None # map Some (rev chain)))"

fun section_of :: "'c contribution \<Rightarrow> (string \<times> 'c prompt_section) option" where
  "section_of (AddSection p) = Some (ps_name p, p)"
| "section_of c = None"

fun context_of :: "'c contribution \<Rightarrow> (string \<times> 'c prompt_context) option" where
  "context_of (AddContext p) = Some (px_name p, p)"
| "context_of c = None"

fun tools_of :: "'c contribution \<Rightarrow> 'c tool_provider option" where
  "tools_of (AddTools p) = Some p"
| "tools_of c = None"

fun variable_of :: "'c contribution \<Rightarrow> (string \<times> 'c variable_provider) option" where
  "variable_of (AddVariable n p) = Some (n, p)"
| "variable_of c = None"

fun suppresses :: "'c contribution \<Rightarrow> bool" where
  "suppresses AddSuppressor \<longleftrightarrow> True"
| "suppresses c \<longleftrightarrow> False"

text \<open>One entry for each name: the place of the first, the value of the last.\<close>

definition by_name :: "(string \<times> 'v) list \<Rightarrow> (string \<times> 'v) list" where
  "by_name es = fold (\<lambda>e. AList.update (fst e) (snd e)) es []"

definition assemble_view ::
  "('k, 'c) assembly_env \<Rightarrow> 'c contribution list \<Rightarrow> string list option \<Rightarrow> 'c \<Rightarrow> registry_error + prompt_assembly"
where
  "assemble_view env view ord cx =
     assemble_parts env (list_ex suppresses view) (List.map_filter variable_of view)
       (map snd (by_name (List.map_filter section_of view))) (map snd (by_name (List.map_filter context_of view)))
       (List.map_filter tools_of view) ord cx"

lemma ledger_reads:
  assumes "\<And>r. r \<in> set us \<Longrightarrow> map_option f (ent r) = sel (snd r)"
  shows "map f (List.map_filter ent us) = List.map_filter sel (map snd us)"
  using assms
proof (induction us)
  case (Cons r us)
  then show ?case using Cons.prems [of r] by (cases "ent r") (auto simp: List.map_filter_simps dest: sym)
qed (simp add: List.map_filter_simps)

lemma tagged_reads:
  assumes "tagged r"
  shows "map_option snd (section_entry r) = section_of (snd r)" "map_option snd (context_entry r) = context_of (snd r)"
    "map_option (\<lambda>e. snd (snd e)) (tools_entry r) = tools_of (snd r)" "map_option snd (variable_entry r) = variable_of (snd r)"
    "suppressor_entry r \<noteq> None \<longleftrightarrow> suppresses (snd r)"
  using assms by (cases r; cases "fst r"; cases "snd r"; simp add: tagged_def)+

lemma layer_reads:
  assumes "prompt_layer_holds l us"
  shows "entry_list (py_sections l) = List.map_filter section_of (map snd us)"
    and "entry_list (py_contexts l) = List.map_filter context_of (map snd us)"
    and "map snd (entry_list (py_tools l)) = List.map_filter tools_of (map snd us)"
    and "entry_list (py_variables l) = List.map_filter variable_of (map snd us)"
    and "\<not> entries_empty (py_suppressors l) \<longleftrightarrow> list_ex suppresses (map snd us)"
    and "distinct (map fst (entry_list (py_sections l)))" "distinct (map fst (entry_list (py_contexts l)))"
proof -
  have tags: "\<And>r. r \<in> set us \<Longrightarrow> tagged r" using assms by (simp add: prompt_layer_holds_def)
  show "entry_list (py_sections l) = List.map_filter section_of (map snd us)"
    using assms ledger_reads [of us snd section_entry section_of] tagged_reads(1) [OF tags]
    by (simp add: prompt_layer_holds_def entries_hold_def)
  show "entry_list (py_contexts l) = List.map_filter context_of (map snd us)"
    using assms ledger_reads [of us snd context_entry context_of] tagged_reads(2) [OF tags]
    by (simp add: prompt_layer_holds_def entries_hold_def)
  show "map snd (entry_list (py_tools l)) = List.map_filter tools_of (map snd us)"
    using assms ledger_reads [of us "\<lambda>e. snd (snd e)" tools_entry tools_of] tagged_reads(3) [OF tags]
    by (simp add: prompt_layer_holds_def entries_hold_def comp_def)
  show "entry_list (py_variables l) = List.map_filter variable_of (map snd us)"
    using assms ledger_reads [of us snd variable_entry variable_of] tagged_reads(4) [OF tags]
    by (simp add: prompt_layer_holds_def entries_hold_def)
  have "List.map_filter suppressor_entry us = [] \<longleftrightarrow> (\<forall>r \<in> set us. suppressor_entry r = None)"
    by (simp only: map_filter_def map_is_Nil_conv filter_empty_conv not_not)
  then have "\<not> entries_empty (py_suppressors l) \<longleftrightarrow> (\<exists>r \<in> set us. suppressor_entry r \<noteq> None)"
    using assms entries_hold_empty [of "py_suppressors l" "List.map_filter suppressor_entry us"]
    by (simp add: prompt_layer_holds_def)
  also have "\<dots> \<longleftrightarrow> (\<exists>r \<in> set us. suppresses (snd r))" by (rule bex_cong [OF refl tagged_reads(5) [OF tags]])
  finally show "\<not> entries_empty (py_suppressors l) \<longleftrightarrow> list_ex suppresses (map snd us)" by (simp add: list_ex_iff)
  show "distinct (map fst (entry_list (py_sections l)))" "distinct (map fst (entry_list (py_contexts l)))"
    using assms by (auto simp: prompt_layer_holds_def entries_hold_def)
qed

lemma map_filter_append: "List.map_filter f (xs @ ys) = List.map_filter f xs @ List.map_filter f ys"
  by (simp add: map_filter_def)

lemma layers_read:
  assumes "list_all2 prompt_layer_holds ls uss"
  shows "concat (map (\<lambda>l. entry_list (py_sections l)) ls) = List.map_filter section_of (concat (map (map snd) uss))"
    and "concat (map (\<lambda>l. entry_list (py_contexts l)) ls) = List.map_filter context_of (concat (map (map snd) uss))"
    and "concat (map (\<lambda>l. map snd (entry_list (py_tools l))) ls) = List.map_filter tools_of (concat (map (map snd) uss))"
    and "concat (map (\<lambda>l. entry_list (py_variables l)) ls) = List.map_filter variable_of (concat (map (map snd) uss))"
    and "list_ex (\<lambda>l. \<not> entries_empty (py_suppressors l)) ls \<longleftrightarrow> list_ex suppresses (concat (map (map snd) uss))"
  using assms by (induction rule: list_all2_induct) (simp_all add: List.map_filter_simps map_filter_append layer_reads)

lemma assemble_layers_view:
  assumes "list_all2 prompt_layer_holds (global # ls) uss"
  shows "assemble_layers env global ls ord cx = assemble_view env (concat (map (map snd) uss)) ord cx"
proof -
  obtain us rest where us: "prompt_layer_holds global us" using assms by (auto simp: list_all2_Cons1)
  note merges = merge_layers_concat [of py_sections, OF layer_reads(6) [OF us]]
    merge_layers_concat [of py_contexts, OF layer_reads(7) [OF us]]
  show ?thesis
    using layers_read [OF assms]
    by (simp add: assemble_layers_def assemble_view_def by_name_def merges del: fold_simps)
qed

lemma assembly_of_view:
  fixes sv :: "('k, 'c) prompt_service"
  assumes "parents_reach parents" and "registry_reach cfg sv live"
  shows "\<exists>chain. scope_chain_of parents (ae_scope env cx) = Some chain \<and>
    assemble_prompt env parents sv cx = Some (assemble_view env (prompt_view live chain) (sp_order sv) cx)"
proof -
  obtain chain where chain: "scope_chain_of parents (ae_scope env cx) = Some chain"
    using chain_ancestry [OF parents_forest [OF assms(1)]] by blast
  note hold = registry_hold [OF assms(2)]
  from chain_layers_hold [OF hold chain] obtain ls
    where ls: "chain_layers parents (sp_layers sv) (ae_scope env cx) = Some ls"
      "list_all2 prompt_layer_holds ls (filter (\<lambda>us. us \<noteq> []) (map (\<lambda>k. owned (Some k) live) (rev chain)))" by blast
  have "prompt_layer_holds (sl_objects (sp_layers sv) ! 0) (owned None live)"
    using layers_holdD(1) [OF hold, of None 0] by simp
  with ls(2) have all: "list_all2 prompt_layer_holds (sl_objects (sp_layers sv) ! 0 # ls)
      (owned None live # filter (\<lambda>us. us \<noteq> []) (map (\<lambda>k. owned (Some k) live) (rev chain)))" by simp
  have "concat (map (map snd) (filter (\<lambda>us. us \<noteq> []) uss)) = concat (map (map snd) uss)" for uss :: "'c prompt_ledger list"
    by (induction uss) auto
  then have "concat (map (map snd) (owned None live # filter (\<lambda>us. us \<noteq> []) (map (\<lambda>k. owned (Some k) live) (rev chain)))) =
      prompt_view live chain"
    by (simp only: list.map concat.simps) (simp add: prompt_view_def comp_def)
  with assemble_layers_view [OF all] chain ls(1) show ?thesis by (simp add: assemble_prompt_def)
qed

subsection \<open>The nearest registration\<close>

text \<open>What one scope registered under a name, and the first of several scopes that has it.\<close>

definition section_in :: "('k, 'c) prompt_live \<Rightarrow> string \<Rightarrow> 'k option \<Rightarrow> 'c prompt_section option" where
  "section_in live n scope = map_of (List.map_filter section_of (map snd (owned scope live))) n"

fun first_some :: "('a \<Rightarrow> 'b option) \<Rightarrow> 'a list \<Rightarrow> 'b option" where
  "first_some f [] = None"
| "first_some f (x # xs) = (case f x of None \<Rightarrow> first_some f xs | Some y \<Rightarrow> Some y)"

lemma first_some_append:
  "first_some f (xs @ ys) = (case first_some f xs of None \<Rightarrow> first_some f ys | Some y \<Rightarrow> Some y)"
  by (induction xs) (auto split: option.splits)

lemma map_of_by_name: "map_of (by_name es) n = map_of (rev es) n"
  by (simp add: by_name_def fold_update_map_of split: option.splits)

lemma map_of_rev_distinct: "distinct (map fst es) \<Longrightarrow> map_of (rev es) n = map_of es n"
  using map_of_inject_set [of "rev es" es] by (simp add: rev_map [symmetric])

lemma map_of_rev_concat:
  assumes "\<And>es. es \<in> set ess \<Longrightarrow> distinct (map fst es)"
  shows "map_of (rev (concat ess)) n = first_some (\<lambda>es. map_of es n) (rev ess)"
  using assms
proof (induction ess)
  case (Cons es ess)
  then have "map_of (rev es) n = map_of es n" by (simp add: map_of_rev_distinct)
  with Cons show ?case by (auto simp: first_some_append map_add_def split: option.splits)
qed simp

lemma sections_distinct:
  assumes "layers_hold prompt_layer_holds s live"
  shows "distinct (map fst (List.map_filter section_of (map snd (owned scope live))))"
proof (cases "place_of s scope")
  case None
  then show ?thesis using layers_holdD(2) [OF assms None] by (simp add: List.map_filter_simps)
next
  case (Some i)
  then have "prompt_layer_holds (sl_objects s ! i) (owned scope live)" using layers_holdD(1) [OF assms] by blast
  from layer_reads(1,6) [OF this] show ?thesis by simp
qed

lemma first_some_map: "first_some f (map g xs) = first_some (\<lambda>x. f (g x)) xs"
  by (induction xs) (auto split: option.splits)

text \<open>
  Claim C12. After any registrations, refusals and disposals from any scopes, an assembly
  returns, and is a function of the registrations still live: the global ones and those of
  the chain of its scope, the nearest last.
\<close>

theorem assembly_reads_live_registrations:
  assumes "parents_reach parents" and "registry_reach cfg sv live"
  shows "\<exists>chain. scope_chain_of parents (ae_scope env cx) = Some chain \<and>
    assemble_prompt env parents sv cx = Some (assemble_view env (prompt_view live chain) (sp_order sv) cx)"
  by (rule assembly_of_view [OF assms])

text \<open>
  Claim C40. Of several live sections of one name the merged view has that of the nearest
  scope of the chain, and the global one only when no scope of the chain registered one.
\<close>

theorem nearest_section_wins:
  fixes sv :: "('k, 'c) prompt_service"
  assumes "registry_reach cfg sv live" and "scope_chain_of parents scope = Some chain"
  shows "\<exists>layers. chain_layers parents (sp_layers sv) scope = Some layers \<and>
    map_of (merge_layers py_sections (sl_objects (sp_layers sv) ! 0) layers) n =
      first_some (section_in live n) (map Some chain @ [None])"
proof -
  note hold = registry_hold [OF assms(1)]
  define ess where "ess = map (\<lambda>scope. List.map_filter section_of (map snd (owned scope live))) (None # map Some (rev chain))"
  have distinct: "distinct (map fst es)" if "es \<in> set ess" for es
    using that sections_distinct [OF hold] unfolding ess_def by fastforce
  from chain_layers_hold [OF hold assms(2)] obtain ls
    where ls: "chain_layers parents (sp_layers sv) scope = Some ls"
      "list_all2 prompt_layer_holds ls (filter (\<lambda>us. us \<noteq> []) (map (\<lambda>k. owned (Some k) live) (rev chain)))" by blast
  have global: "prompt_layer_holds (sl_objects (sp_layers sv) ! 0) (owned None live)"
    using layers_holdD(1) [OF hold, of None 0] by simp
  have skip: "concat (map (\<lambda>us. List.map_filter section_of (map snd us)) (filter (\<lambda>us. us \<noteq> []) uss)) =
      concat (map (\<lambda>us. List.map_filter section_of (map snd us)) uss)" for uss :: "'c prompt_ledger list"
    by (induction uss) (auto simp: List.map_filter_simps)
  have each: "map (\<lambda>l. entry_list (py_sections l)) ls = map (\<lambda>us. List.map_filter section_of (map snd us)) uss"
    if "list_all2 prompt_layer_holds ls uss" for ls uss
    using that by (induction rule: list_all2_induct) (simp_all add: layer_reads(1))
  have "concat (map (\<lambda>l. entry_list (py_sections l)) (sl_objects (sp_layers sv) ! 0 # ls)) = concat ess"
    using each [OF ls(2)] layer_reads(1) [OF global] skip [of "map (\<lambda>k. owned (Some k) live) (rev chain)"]
    by (simp add: ess_def comp_def)
  then have "merge_layers py_sections (sl_objects (sp_layers sv) ! 0) ls = by_name (concat ess)"
    using merge_layers_concat [of py_sections, OF layer_reads(6) [OF global]] by (simp only: by_name_def)
  then have "map_of (merge_layers py_sections (sl_objects (sp_layers sv) ! 0) ls) n =
      first_some (\<lambda>es. map_of es n) (rev ess)"
    using map_of_rev_concat [of ess n] distinct by (simp only: map_of_by_name)
  also have "rev ess = map (\<lambda>scope. List.map_filter section_of (map snd (owned scope live))) (map Some chain @ [None])"
    by (simp add: ess_def rev_map)
  finally have "map_of (merge_layers py_sections (sl_objects (sp_layers sv) ! 0) ls) n =
      first_some (section_in live n) (map Some chain @ [None])"
    by (simp only: first_some_map section_in_def [abs_def])
  with ls(1) show ?thesis by blast
qed

subsection \<open>Complete sections and suppressed contexts\<close>

lemma resolve_parts_nth:
  "resolve_parts cx (map (\<lambda>p. (nm p, src p)) ps) = Inr parts \<Longrightarrow>
    length parts = length ps \<and> (\<forall>x \<in> set (zip ps parts). \<exists>t. resolve_text cx (src (fst x)) = Inr t \<and>
      snd x = \<lparr>ap_name = nm (fst x), ap_text = t\<rparr>)"
proof (induction ps arbitrary: parts)
  case (Cons p ps)
  then obtain t rest where t: "resolve_text cx (src p) = Inr t" "resolve_parts cx (map (\<lambda>p. (nm p, src p)) ps) = Inr rest"
      "parts = \<lparr>ap_name = nm p, ap_text = t\<rparr> # rest" by (auto simp: and_then_Inr_iff map_sum_Inr_iff)
  with Cons.IH [OF t(2)] show ?case by auto
qed simp

lemma complete_part_cases:
  assumes "resolve_parts cx (map (\<lambda>p. (ps_name p, ps_text p)) ps) = Inr parts"
  shows "filter ps_complete ps = [] \<Longrightarrow> complete_part ps parts = None"
    and "filter ps_complete ps = [p] \<Longrightarrow>
      \<exists>t. resolve_text cx (ps_text p) = Inr t \<and> complete_part ps parts = Some \<lparr>ap_name = ps_name p, ap_text = t\<rparr>"
proof -
  have zip: "map fst (filter (\<lambda>x. ps_complete (fst x)) (zip ps parts)) = filter ps_complete ps"
    using resolve_parts_nth [OF assms] by (simp add: filter_map [unfolded comp_def, symmetric])
  show "filter ps_complete ps = [] \<Longrightarrow> complete_part ps parts = None"
    using zip by (simp add: complete_part_def)
  assume "filter ps_complete ps = [p]"
  with zip obtain x where x: "filter (\<lambda>x. ps_complete (fst x)) (zip ps parts) = [(p, x)]" by fastforce
  then have "(p, x) \<in> set (zip ps parts)" by (metis filter_is_subset list.set_intros(1) subsetD)
  with resolve_parts_nth [OF assms] x
  show "\<exists>t. resolve_text cx (ps_text p) = Inr t \<and> complete_part ps parts = Some \<lparr>ap_name = ps_name p, ap_text = t\<rparr>"
    by (fastforce simp: complete_part_def)
qed

lemma assemble_parts_restored:
  assumes "assemble_parts env suppressed variables sections contexts providers ord cx = Inr a"
  shows "(case filter ps_complete sections of
        [] \<Rightarrow> True
      | [p] \<Rightarrow> \<exists>t. resolve_text cx (ps_text p) = Inr t \<and> pa_sections a = [\<lparr>ap_name = ps_name p, ap_text = t\<rparr>]
      | _ \<Rightarrow> False) \<and> (suppressed \<longrightarrow> pa_contexts a = [])"
proof -
  let ?ps = "sort_key (\<lambda>p. finite_order (ps_order p)) sections"
  from assms obtain parts b where few: "\<not> 1 < length (filter ps_complete ?ps)"
      and parts: "resolve_parts cx (map (\<lambda>p. (ps_name p, ps_text p)) ?ps) = Inr parts"
      and a: "a = restore_complete (complete_part ?ps parts) suppressed b"
    unfolding assemble_parts_def Let_def split_def and_then_Inr_iff if_Inl_Inr_iff by blast
  have perm: "mset (filter ps_complete ?ps) = mset (filter ps_complete sections)" by simp
  show ?thesis
  proof (cases "filter ps_complete sections")
    case Nil
    with perm a show ?thesis by (simp add: restore_complete_def)
  next
    case (Cons p rest)
    have len: "length (filter ps_complete ?ps) = length (filter ps_complete sections)"
      by (rule mset_eq_length [OF perm])
    with few Cons have "rest = []" by simp
    with len Cons obtain q where q: "filter ps_complete ?ps = [q]" by (auto simp: length_Suc_conv)
    with perm Cons \<open>rest = []\<close> have "filter ps_complete ?ps = [p]" by simp
    from complete_part_cases(2) [OF parts this] obtain t where t: "resolve_text cx (ps_text p) = Inr t"
        "complete_part ?ps parts = Some \<lparr>ap_name = ps_name p, ap_text = t\<rparr>" by blast
    then have "pa_sections a = [\<lparr>ap_name = ps_name p, ap_text = t\<rparr>] \<and> (suppressed \<longrightarrow> pa_contexts a = [])"
      by (simp add: a restore_complete_def)
    with Cons \<open>rest = []\<close> t(1) show ?thesis by simp
  qed
qed

definition seen_sections :: "'c contribution list \<Rightarrow> 'c prompt_section list" where
  "seen_sections view = map snd (by_name (List.map_filter section_of view))"

text \<open>
  Claim C19. A prompt that assembles sees at most one complete section; where it sees one,
  that section, resolved, is the whole prompt whatever the waterfall returned, and where the
  context is suppressed it has none.
\<close>

theorem complete_section_stands_alone:
  assumes "parents_reach parents" and "registry_reach cfg sv live"
    and "scope_chain_of parents (ae_scope env cx) = Some chain" and "assemble_prompt env parents sv cx = Some (Inr a)"
  shows "(case filter ps_complete (seen_sections (prompt_view live chain)) of
        [] \<Rightarrow> True
      | [p] \<Rightarrow> \<exists>t. resolve_text cx (ps_text p) = Inr t \<and> pa_sections a = [\<lparr>ap_name = ps_name p, ap_text = t\<rparr>]
      | _ \<Rightarrow> False) \<and>
    (list_ex suppresses (prompt_view live chain) \<longrightarrow> pa_contexts a = [])"
proof -
  have "assemble_view env (prompt_view live chain) (sp_order sv) cx = Inr a"
    using assembly_of_view [OF assms(1,2), of env cx] assms(3,4) by auto
  then show ?thesis unfolding assemble_view_def seen_sections_def by (rule assemble_parts_restored)
qed

subsection \<open>A sample\<close>

text \<open>A scope overrides the persona with a complete section; the waterfall drops every section.\<close>

definition plain_config :: prompt_config where
  "plain_config = \<lparr>pg_identity = None, pg_context = None, pg_persona = Some ''hello'', pg_order = None\<rparr>"

definition complete_persona :: "unit prompt_section" where
  "complete_persona = \<lparr>ps_name = ''deployment:persona'', ps_order = Some 5,
     ps_text = TextFrom (\<lambda>_. Inr ''only this''), ps_complete = True\<rparr>"

definition dropping_env :: "(nat, unit) assembly_env" where
  "dropping_env = \<lparr>ae_scope = (\<lambda>_. Some 3), ae_waterfall = (\<lambda>_ a. Inr (a\<lparr>pa_sections := []\<rparr>))\<rparr>"

definition opened_service :: "(nat, unit) prompt_service \<times> nat prompt_effect list" where
  "opened_service = (case new_prompt_service plain_config of Inr r \<Rightarrow> r | Inl x \<Rightarrow> undefined)"

definition overridden_service :: "(nat, unit) prompt_service" where
  "overridden_service = (fst opened_service)\<lparr>sp_layers :=
     snd (register (Some 2) (AddSection complete_persona) (sp_layers (fst opened_service)))\<rparr>"

definition overriding_effect :: "nat prompt_effect" where
  "overriding_effect = \<lparr>le_layer = 1, le_scope = Some 2, le_undo = UndoSection 0, le_notify = True\<rparr>"

definition overridden_live :: "(nat, unit) prompt_live" where
  "overridden_live = zip (snd opened_service) (opening_parts plain_config) @ [(overriding_effect, AddSection complete_persona)]"

lemma overridden_reach: "registry_reach plain_config overridden_service overridden_live"
proof -
  have "new_prompt_service plain_config = Inr (fst opened_service, snd opened_service)"
    by (simp add: opened_service_def new_prompt_service_def plain_config_def opening_parts_def add_section_def
        prompt_effect_def layers_effect_def layer_for_def new_layers_def new_prompt_layer_def new_entries_def
        named_insert_def entry_has_def entry_list_def entry_add_def validate_tool_order_def)
  then have "registry_reach plain_config (fst opened_service) (zip (snd opened_service) (opening_parts plain_config))"
    by (rule registry_reach.opened)
  moreover have "register (Some 2) (AddSection complete_persona) (sp_layers (fst opened_service)) =
      (Inr overriding_effect, snd (register (Some 2) (AddSection complete_persona) (sp_layers (fst opened_service))))"
    by (simp add: overriding_effect_def opened_service_def new_prompt_service_def plain_config_def opening_parts_def add_section_def
        prompt_effect_def layers_effect_def layer_for_def new_layers_def new_prompt_layer_def new_entries_def
        named_insert_def entry_has_def entry_list_def entry_add_def validate_tool_order_def complete_persona_def)
  ultimately show ?thesis
    unfolding overridden_service_def overridden_live_def by (rule registry_reach.registered)
qed

lemma assembly_reads_live_registrations_witness:
  "\<exists>chain. scope_chain_of sample_parents (ae_scope dropping_env ()) = Some chain \<and>
    assemble_prompt dropping_env sample_parents overridden_service () =
      Some (assemble_view dropping_env (prompt_view overridden_live chain) (sp_order overridden_service) ())"
  by (rule assembly_reads_live_registrations [OF sample_parents_reach overridden_reach])

lemma nearest_section_wins_witness:
  "\<exists>layers. chain_layers sample_parents (sp_layers overridden_service) (Some 3) = Some layers \<and>
    map_of (merge_layers py_sections (sl_objects (sp_layers overridden_service) ! 0) layers) ''deployment:persona'' =
      first_some (section_in overridden_live ''deployment:persona'') (map Some [3, 2, 1] @ [None])"
  by (rule nearest_section_wins [OF overridden_reach sample_chain])

lemma sample_prompt_alone:
  "map_option (map_sum id pa_sections) (assemble_prompt dropping_env sample_parents overridden_service ()) =
     Some (Inr [\<lparr>ap_name = ''deployment:persona'', ap_text = ''only this''\<rparr>])"
  by code_simp

lemma complete_section_stands_alone_witness:
  "\<exists>a. assemble_prompt dropping_env sample_parents overridden_service () = Some (Inr a) \<and>
    (case filter ps_complete (seen_sections (prompt_view overridden_live [3, 2, 1])) of
        [] \<Rightarrow> True
      | [p] \<Rightarrow> \<exists>t. resolve_text () (ps_text p) = Inr t \<and> pa_sections a = [\<lparr>ap_name = ps_name p, ap_text = t\<rparr>]
      | _ \<Rightarrow> False) \<and>
    (list_ex suppresses (prompt_view overridden_live [3, 2, 1]) \<longrightarrow> pa_contexts a = [])"
proof -
  obtain a where a: "assemble_prompt dropping_env sample_parents overridden_service () = Some (Inr a)"
    using sample_prompt_alone by (auto simp: map_sum_Inr_iff)
  have "scope_chain_of sample_parents (ae_scope dropping_env ()) = Some [3, 2, 1]"
    using sample_chain by (simp add: dropping_env_def)
  from complete_section_stands_alone [OF sample_parents_reach overridden_reach this a] a show ?thesis by blast
qed

end
