(* ===== verification/Json_Walk.thy ===== *)
theory Json_Walk
  imports Dsh_Prelude "HOL-Library.AList"
begin

section \<open>Lossless JSON in a heap of objects\<close>

text \<open>
  \<open>isJsonValue\<close> and \<open>snapshotJsonValue\<close> of \<^verbatim>\<open>packages/core/session/src/json.ts\<close>: one walk with a
  stack of its own over values that may be shared, cyclic, sparse or exotic. Objects live in
  a heap and are compared by their reference. Properties are data properties: a getter that
  answers differently on each read, or throws, is not modelled. The tests of a prototype
  against the intrinsics of its realm are facts of the heap.
\<close>

subsection \<open>Values\<close>

datatype js_num = FiniteNum rat | NegativeZero | NotFinite

text \<open>\<open>VOther\<close> stands for \<open>undefined\<close>, functions, symbols and big integers.\<close>

datatype js_value =
    VNull
  | VBool bool
  | VNum js_num
  | VStr string
  | VOther
  | VRef nat

text \<open>
  An array has a prototype test, a number of own keys beside its elements and \<open>length\<close>, and
  elements with holes; any other object a prototype test, whether all its own keys are
  enumerable strings, and its string keys in order.
\<close>

datatype js_object =
    ArrayObj bool nat "js_value option list"
  | RecordObj bool bool "(string \<times> js_value) list"

type_synonym js_heap = "nat \<rightharpoonup> js_object"

subsection \<open>The walk\<close>

datatype destination = ToRoot | ToArray nat nat | ToField nat string

datatype json_task =
    Visit js_value "destination option"
  | ArrayItem nat nat "nat option"
  | ObjectProperty nat string "nat option"
  | Leave nat

text \<open>The detached objects built so far, and the detached root.\<close>

type_synonym detached = "js_object list \<times> js_value option"

definition put_item :: "nat \<Rightarrow> js_value \<Rightarrow> js_value option list \<Rightarrow> js_value option list" where
  "put_item i v xs = (if i < length xs then xs[i := Some v] else xs @ replicate (i - length xs) None @ [Some v])"

fun assign_to :: "destination option \<Rightarrow> js_value \<Rightarrow> detached \<Rightarrow> detached" where
  "assign_to None v d = d"
| "assign_to (Some ToRoot) v d = (fst d, Some v)"
| "assign_to (Some (ToArray n i)) v d =
     (case fst d ! n of
        ArrayObj p x items \<Rightarrow> ((fst d)[n := ArrayObj p x (put_item i v items)], snd d)
      | RecordObj p k fields \<Rightarrow> d)"
| "assign_to (Some (ToField n k)) v d =
     (case fst d ! n of
        RecordObj p q fields \<Rightarrow> ((fst d)[n := RecordObj p q (AList.update k v fields)], snd d)
      | ArrayObj p x items \<Rightarrow> d)"

text \<open>A container visited: its detached copy, assigned before its members are, if one is made.\<close>

definition enter_copy :: "bool \<Rightarrow> js_object \<Rightarrow> destination option \<Rightarrow> detached \<Rightarrow> nat option \<times> detached" where
  "enter_copy detach blank dest d =
     (if detach
      then (let n = length (fst d); d' = (fst d @ [blank], snd d) in (Some n, assign_to dest (VRef n) d'))
      else (None, d))"

text \<open>
  One task: \<open>None\<close> where the walk returns \<open>undefined\<close>, else the tasks pushed, in the order
  they are popped, the ancestors and what is detached.
\<close>

fun walk_task ::
  "js_heap \<Rightarrow> bool \<Rightarrow> json_task \<Rightarrow> nat set \<Rightarrow> detached \<Rightarrow> (json_task list \<times> nat set \<times> detached) option"
where
  "walk_task H detach (Leave r) anc d = Some ([], anc - {r}, d)"
| "walk_task H detach (ArrayItem r i target) anc d =
     (case H r of
        Some (ArrayObj p x items) \<Rightarrow>
          (if i < length items
           then (case items ! i of
                   None \<Rightarrow> None
                 | Some v \<Rightarrow> Some ([Visit v (map_option (\<lambda>n. ToArray n i) target)], anc, d))
           else None)
      | _ \<Rightarrow> None)"
| "walk_task H detach (ObjectProperty r k target) anc d =
     (case H r of
        Some (RecordObj p q fields) \<Rightarrow>
          Some ([Visit (case map_of fields k of None \<Rightarrow> VOther | Some v \<Rightarrow> v) (map_option (\<lambda>n. ToField n k) target)], anc, d)
      | _ \<Rightarrow> None)"
| "walk_task H detach (Visit v dest) anc d =
     (case v of
        VNull \<Rightarrow> Some ([], anc, assign_to dest VNull d)
      | VBool b \<Rightarrow> Some ([], anc, assign_to dest (VBool b) d)
      | VStr s \<Rightarrow> Some ([], anc, assign_to dest (VStr s) d)
      | VNum (FiniteNum q) \<Rightarrow> Some ([], anc, assign_to dest (VNum (FiniteNum q)) d)
      | VNum _ \<Rightarrow> None
      | VOther \<Rightarrow> None
      | VRef r \<Rightarrow>
          if r \<in> anc then None
          else
            (case H r of
               Some (ArrayObj plain extra items) \<Rightarrow>
                 if \<not> plain then None
                 else if length (filter (\<lambda>x. x \<noteq> None) items) + 1 + extra \<noteq> length items + 1 then None
                 else
                   (case enter_copy detach (ArrayObj True 0 []) dest d of
                      (target, d') \<Rightarrow>
                        Some (map (\<lambda>i. ArrayItem r i target) [0..<length items] @ [Leave r], insert r anc, d'))
             | Some (RecordObj plain keys fields) \<Rightarrow>
                 if \<not> plain then None
                 else if \<not> keys then None
                 else
                   (case enter_copy detach (RecordObj True True []) dest d of
                      (target, d') \<Rightarrow>
                        Some (map (\<lambda>k. ObjectProperty r k target) (map fst fields) @ [Leave r], insert r anc, d'))
             | None \<Rightarrow> None))"

partial_function (option) walk_tasks ::
  "js_heap \<Rightarrow> bool \<Rightarrow> json_task list \<Rightarrow> nat set \<Rightarrow> detached \<Rightarrow> detached option option"
where
  "walk_tasks H detach tasks anc d =
     (case tasks of
        [] \<Rightarrow> Some (Some d)
      | t # ts \<Rightarrow>
          (case walk_task H detach t anc d of
             None \<Rightarrow> Some None
           | Some (new, anc', d') \<Rightarrow> walk_tasks H detach (new @ ts) anc' d'))"

declare walk_tasks.simps [code]

definition walk_json_value :: "js_heap \<Rightarrow> bool \<Rightarrow> js_value \<Rightarrow> detached option option" where
  "walk_json_value H detach v =
     walk_tasks H detach [Visit v (if detach then Some ToRoot else None)] {} ([], None)"

text \<open>\<open>None\<close>: it does not return.\<close>

definition is_json_value :: "js_heap \<Rightarrow> js_value \<Rightarrow> bool option" where
  "is_json_value H v = map_option (\<lambda>r. r \<noteq> None) (walk_json_value H False v)"

text \<open>The detached root with the objects it was built in, or \<open>undefined\<close>.\<close>

definition snapshot_json_value :: "js_heap \<Rightarrow> js_value \<Rightarrow> (js_value \<times> js_object list) option option" where
  "snapshot_json_value H v =
     map_option (\<lambda>r. case r of None \<Rightarrow> None | Some d \<Rightarrow> map_option (\<lambda>rt. (rt, fst d)) (snd d))
       (walk_json_value H True v)"

subsection \<open>What a value denotes\<close>

text \<open>The JSON tree a value unfolds to; cyclic, sparse or exotic values have none.\<close>

inductive denotes :: "js_heap \<Rightarrow> js_value \<Rightarrow> json \<Rightarrow> bool" for H where
  null: "denotes H VNull JNull"
| bool: "denotes H (VBool b) (JBool b)"
| num: "denotes H (VNum (FiniteNum q)) (JNum q)"
| str: "denotes H (VStr s) (JStr s)"
| arr: "H r = Some (ArrayObj True 0 (map Some vs)) \<Longrightarrow> list_all2 (denotes H) vs js \<Longrightarrow> denotes H (VRef r) (JArr js)"
| obj: "H r = Some (RecordObj True True fields) \<Longrightarrow> list_all2 (denotes H) (map snd fields) js \<Longrightarrow>
    denotes H (VRef r) (JObj (zip (map fst fields) js))"

text \<open>Own keys are distinct.\<close>

definition heap_ok :: "js_heap \<Rightarrow> bool" where
  "heap_ok H \<longleftrightarrow> finite (dom H) \<and> (\<forall>r p q fields. H r = Some (RecordObj p q fields) \<longrightarrow> distinct (map fst fields))"

text \<open>The same, on paths that meet none of the given ancestors and no object twice.\<close>

inductive denotes_in :: "js_heap \<Rightarrow> nat set \<Rightarrow> js_value \<Rightarrow> json \<Rightarrow> bool" for H where
  null_in: "denotes_in H anc VNull JNull"
| bool_in: "denotes_in H anc (VBool b) (JBool b)"
| num_in: "denotes_in H anc (VNum (FiniteNum q)) (JNum q)"
| str_in: "denotes_in H anc (VStr s) (JStr s)"
| arr_in: "r \<notin> anc \<Longrightarrow> H r = Some (ArrayObj True 0 (map Some vs)) \<Longrightarrow> list_all2 (denotes_in H (insert r anc)) vs js \<Longrightarrow>
    denotes_in H anc (VRef r) (JArr js)"
| obj_in: "r \<notin> anc \<Longrightarrow> H r = Some (RecordObj True True fields) \<Longrightarrow>
    list_all2 (denotes_in H (insert r anc)) (map snd fields) js \<Longrightarrow> denotes_in H anc (VRef r) (JObj (zip (map fst fields) js))"

inductive_cases denotes_refE: "denotes H (VRef r) j"

inductive_simps denotes_scalars [simp]:
  "denotes H VNull j" "denotes H (VBool b) j" "denotes H (VNum n) j" "denotes H (VStr s) j" "denotes H VOther j"

inductive_simps denotes_in_scalars [simp]:
  "denotes_in H anc VNull j" "denotes_in H anc (VBool b) j" "denotes_in H anc (VNum n) j" "denotes_in H anc (VStr s) j"
  "denotes_in H anc VOther j"

inductive_simps denotes_in_ref: "denotes_in H anc (VRef r) j"

lemma denotes_fun: "denotes H v j \<Longrightarrow> denotes H v j' \<Longrightarrow> j' = j"
proof (induction arbitrary: j' rule: denotes.induct)
  case (arr r vs js)
  from arr.prems arr(1) obtain vs' js' where j: "j' = JArr js'" "map Some vs' = map Some vs" "list_all2 (denotes H) vs' js'"
    by (auto elim!: denotes_refE)
  then have "list_all2 (denotes H) vs js'" by (simp add: inj_map_eq_map)
  with arr(2) have "js' = js" by (auto simp: list_all2_conv_all_nth intro!: nth_equalityI)
  with j show ?case by simp
next
  case (obj r fields js)
  from obj.prems obj(1) obtain js' where j: "j' = JObj (zip (map fst fields) js')" "list_all2 (denotes H) (map snd fields) js'"
    by (auto elim!: denotes_refE)
  with obj(2) have "js' = js" by (auto simp: list_all2_conv_all_nth intro!: nth_equalityI)
  with j show ?case by simp
qed auto

lemma denotes_in_denotes: "denotes_in H anc v j \<Longrightarrow> denotes H v j"
  by (induction rule: denotes_in.induct) (auto intro: denotes.intros elim!: list_all2_mono)

text \<open>A value with a finite unfolding lies below none of its own members.\<close>

lemma denotes_denotes_in:
  "denotes H v j \<Longrightarrow> (\<And>r j'. r \<in> anc \<Longrightarrow> denotes H (VRef r) j' \<Longrightarrow> size j < size j') \<Longrightarrow> denotes_in H anc v j"
proof (induction arbitrary: anc rule: denotes.induct)
  case (arr r vs js)
  have whole: "denotes H (VRef r) (JArr js)"
    using arr(1,2) by (intro denotes.arr) (auto elim!: list_all2_mono)
  then have "r \<notin> anc" using arr.prems by blast
  moreover have "list_all2 (denotes_in H (insert r anc)) vs js"
  proof (rule list_all2_all_nthI)
    show "length vs = length js" using arr(2) by (rule list_all2_lengthD)
    fix i assume i: "i < length vs"
    with arr(2) have len: "i < length js" by (simp add: list_all2_lengthD)
    have "size (js ! i) < size (JArr js)" using size_list_estimation' [of "js ! i" js _ size] len
      by (simp add: less_Suc_eq_le)
    then have "size (js ! i) < size j'" if "r' \<in> insert r anc" "denotes H (VRef r') j'" for r' j'
      using that arr.prems [of r' j'] denotes_fun [OF whole, of j'] by (cases "r' = r") (simp, simp)
    with list_all2_nthD [OF arr(2) i] show "denotes_in H (insert r anc) (vs ! i) (js ! i)" by blast
  qed
  ultimately show ?case using arr(1) by (intro denotes_in.arr_in)
next
  case (obj r fields js)
  let ?o = "JObj (zip (map fst fields) js)"
  have whole: "denotes H (VRef r) ?o"
    using obj(1,2) by (intro denotes.obj) (auto elim!: list_all2_mono)
  then have "r \<notin> anc" using obj.prems by blast
  moreover have "list_all2 (denotes_in H (insert r anc)) (map snd fields) js"
  proof (rule list_all2_all_nthI)
    show len: "length (map snd fields) = length js" using obj(2) by (rule list_all2_lengthD)
    fix i assume i: "i < length (map snd fields)"
    with len have "(fst (fields ! i), js ! i) \<in> set (zip (map fst fields) js)"
      by (auto simp: set_zip intro!: exI [of _ i])
    then have "size (js ! i) < size ?o"
      using size_list_estimation' [of _ "zip (map fst fields) js" _ "size_prod (\<lambda>_. 0) size"] 
      by (fastforce simp: less_Suc_eq_le)
    then have "size (js ! i) < size j'" if "r' \<in> insert r anc" "denotes H (VRef r') j'" for r' j'
      using that obj.prems [of r' j'] denotes_fun [OF whole, of j'] by (cases "r' = r") (simp, simp)
    with list_all2_nthD [OF obj(2) i] show "denotes_in H (insert r anc) (map snd fields ! i) (js ! i)" by blast
  qed
  ultimately show ?case using obj(1) by (intro denotes_in.obj_in)
qed auto

lemma denotes_in_empty: "denotes_in H {} v j \<longleftrightarrow> denotes H v j"
  using denotes_in_denotes denotes_denotes_in by blast


subsection \<open>Detached objects\<close>

text \<open>Objects allocated from a reference on, as a heap of their own.\<close>

definition heap_from :: "nat \<Rightarrow> js_object list \<Rightarrow> js_heap" where
  "heap_from k objs r = (if k \<le> r \<and> r < k + length objs then Some (objs ! (r - k)) else None)"

lemma map_le_Some: "H \<subseteq>\<^sub>m H' \<Longrightarrow> H r = Some x \<Longrightarrow> H' r = Some x"
  by (auto simp: map_le_def dom_def)

lemma denotes_mono: "denotes H v j \<Longrightarrow> H \<subseteq>\<^sub>m H' \<Longrightarrow> denotes H' v j"
proof (induction rule: denotes.induct)
  case (arr r vs js)
  then have "list_all2 (denotes H') vs js" by (auto elim!: list_all2_mono)
  with map_le_Some [OF arr.prems arr(1)] show ?case by (rule denotes.arr)
next
  case (obj r fields js)
  then have "list_all2 (denotes H') (map snd fields) js" by (auto elim!: list_all2_mono)
  with map_le_Some [OF obj.prems obj(1)] show ?case by (rule denotes.obj)
qed auto

lemma heap_from_left: "heap_from k xs \<subseteq>\<^sub>m heap_from k (xs @ ys)"
  by (auto simp: map_le_def heap_from_def nth_append split: if_splits)

lemma heap_from_right: "heap_from (k + length xs) ys \<subseteq>\<^sub>m heap_from k (xs @ ys)"
  by (auto simp: map_le_def heap_from_def nth_append split: if_splits)

lemma denotes_from_left: "denotes (heap_from k xs) v j \<Longrightarrow> denotes (heap_from k (xs @ ys)) v j"
  by (rule denotes_mono [OF _ heap_from_left])

lemma denotes_from_right: "denotes (heap_from (k + length xs) ys) v j \<Longrightarrow> denotes (heap_from k (xs @ ys)) v j"
  by (rule denotes_mono [OF _ heap_from_right])

fun dest_ok :: "bool \<Rightarrow> destination option \<Rightarrow> detached \<Rightarrow> bool" where
  "dest_ok False dest d \<longleftrightarrow> dest = None"
| "dest_ok True None d \<longleftrightarrow> False"
| "dest_ok True (Some ToRoot) d \<longleftrightarrow> True"
| "dest_ok True (Some (ToArray n i)) d \<longleftrightarrow> n < length (fst d)"
| "dest_ok True (Some (ToField n k)) d \<longleftrightarrow> n < length (fst d)"

lemma assign_to_length [simp]: "length (fst (assign_to dest v d)) = length (fst d)"
  by (induction dest v d rule: assign_to.induct) (auto split: js_object.splits)

lemma assign_to_append:
  "dest_ok True dest (os, rt) \<Longrightarrow>
   assign_to dest v (os @ xs, rt) = (fst (assign_to dest v (os, rt)) @ xs, snd (assign_to dest v (os, rt)))"
  by (induction True dest "(os, rt)" rule: dest_ok.induct)
    (auto simp: nth_append list_update_append split: js_object.splits)

text \<open>What a successful visit leaves: the value at its destination, built of new objects only.\<close>

definition visited :: "bool \<Rightarrow> destination option \<Rightarrow> detached \<Rightarrow> json \<Rightarrow> detached \<Rightarrow> bool" where
  "visited det dest d j d' \<longleftrightarrow>
     (if det
      then (\<exists>w new. d' = (fst (assign_to dest w d) @ new, snd (assign_to dest w d)) \<and>
              denotes (heap_from (length (fst d)) new) w j)
      else d' = d)"

definition visit_ok :: "js_heap \<Rightarrow> bool \<Rightarrow> nat set \<Rightarrow> js_value \<Rightarrow> bool" where
  "visit_ok H det anc v \<longleftrightarrow>
     (\<forall>dest d. dest_ok det dest d \<longrightarrow>
        (\<exists>j d'. denotes_in H anc v j \<and> visited det dest d j d' \<and>
           (\<forall>ts. walk_tasks H det (Visit v dest # ts) anc d = walk_tasks H det ts anc d')) \<or>
        (\<nexists>j. denotes_in H anc v j) \<and>
           (\<forall>ts. walk_tasks H det (Visit v dest # ts) anc d = Some None))"

lemma walk_tasks_Nil [simp]: "walk_tasks H det [] anc d = Some (Some d)"
  by (subst walk_tasks.simps) simp

lemma walk_tasks_Cons:
  "walk_tasks H det (t # ts) anc d =
     (case walk_task H det t anc d of
        None \<Rightarrow> Some None
      | Some (new, anc', d') \<Rightarrow> walk_tasks H det (new @ ts) anc' d')"
  by (subst walk_tasks.simps) simp

definition member_denotes :: "js_heap \<Rightarrow> nat set \<Rightarrow> js_value option \<Rightarrow> json \<Rightarrow> bool" where
  "member_denotes H anc x j \<longleftrightarrow> (\<exists>v. x = Some v \<and> denotes_in H anc v j)"

text \<open>The members of a container, read in order into its copy.\<close>

definition filled :: "bool \<Rightarrow> js_object list \<Rightarrow> (js_value list \<Rightarrow> js_object) \<Rightarrow> detached
    \<Rightarrow> js_value list \<Rightarrow> js_object list \<Rightarrow> detached" where
  "filled det A obj d ws new = (if det then (A @ obj ws # new, snd d) else d)"

lemma walk_members:
  assumes task: "\<And>i d. i < length vs \<Longrightarrow> walk_task H det (f i) anc d =
        (case vs ! i of None \<Rightarrow> None | Some v \<Rightarrow> Some ([Visit v (dst i)], anc, d))"
    and ok: "\<And>i v. i < length vs \<Longrightarrow> vs ! i = Some v \<Longrightarrow> visit_ok H det anc v"
    and dest: "\<And>ws new. length ws < length vs \<Longrightarrow> dest_ok det (dst (length ws)) (filled det A obj d ws new)"
    and fill: "\<And>ws new w. det \<Longrightarrow> length ws < length vs \<Longrightarrow>
        assign_to (dst (length ws)) w (filled det A obj d ws new) = filled det A obj d (ws @ [w]) new"
  shows "length ws \<le> length vs \<Longrightarrow>
    (\<exists>js ws' new'. list_all2 (member_denotes H anc) (drop (length ws) vs) js \<and>
       (det \<longrightarrow> list_all2 (denotes (heap_from (length A + 1 + length new) new')) ws' js) \<and>
       (\<forall>ts. walk_tasks H det (map f [length ws..<length vs] @ ts) anc (filled det A obj d ws new) =
          walk_tasks H det ts anc (filled det A obj d (ws @ ws') (new @ new')))) \<or>
    (\<nexists>js. list_all2 (member_denotes H anc) (drop (length ws) vs) js) \<and>
       (\<forall>ts. walk_tasks H det (map f [length ws..<length vs] @ ts) anc (filled det A obj d ws new) = Some None)"
proof (induction "length vs - length ws" arbitrary: ws new)
  case 0
  then have "drop (length ws) vs = []" "[length ws..<length vs] = []" by simp_all
  then show ?case by (intro disjI1 exI [of _ "[]"]) simp
next
  case (Suc m)
  let ?k = "length ws"
  from Suc.hyps(2) have k: "?k < length vs" by linarith
  have tasks: "map f [?k..<length vs] = f ?k # map f [Suc ?k..<length vs]" using k by (simp add: upt_conv_Cons)
  have drop: "drop ?k vs = vs ! ?k # drop (Suc ?k) vs" using k by (simp add: Cons_nth_drop_Suc)
  let ?d = "filled det A obj d ws new"
  show ?case
  proof (cases "vs ! ?k")
    case None
    then show ?thesis
      by (intro disjI2) (auto simp: tasks drop walk_tasks_Cons task [OF k] member_denotes_def list_all2_Cons1)
  next
    case (Some v)
    have run: "walk_tasks H det (map f [?k..<length vs] @ ts) anc ?d =
        walk_tasks H det (Visit v (dst ?k) # map f [Suc ?k..<length vs] @ ts) anc ?d" for ts
      by (simp add: tasks walk_tasks_Cons [of _ _ "f ?k"] task [OF k] Some)
    from ok [OF k Some] dest [OF k] consider
      (found) j d' where "denotes_in H anc v j" "visited det (dst ?k) ?d j d'"
        "\<And>ts. walk_tasks H det (Visit v (dst ?k) # ts) anc ?d = walk_tasks H det ts anc d'"
    | (failed) "\<nexists>j. denotes_in H anc v j" "\<And>ts. walk_tasks H det (Visit v (dst ?k) # ts) anc ?d = Some None"
      unfolding visit_ok_def by blast
    then show ?thesis
    proof cases
      case failed
      then show ?thesis by (intro disjI2) (auto simp: run drop Some member_denotes_def list_all2_Cons1)
    next
      case found
      obtain w new1 where w: "d' = filled det A obj d (ws @ [w]) (new @ new1)"
          "det \<Longrightarrow> denotes (heap_from (length A + 1 + length new) new1) w j"
      proof (cases det)
        case True
        with found(2) obtain w new1 where d': "d' = (fst (assign_to (dst ?k) w ?d) @ new1, snd (assign_to (dst ?k) w ?d))"
            and "denotes (heap_from (length (fst ?d)) new1) w j"
          by (auto simp: visited_def)
        then show thesis
          using fill [OF True k, of w new] True by (intro that [of w new1]) (auto simp: filled_def)
      next
        case False
        with found(2) show thesis by (intro that [of VNull "[]"]) (auto simp: visited_def filled_def)
      qed
      have len: "length (ws @ [w]) = Suc ?k" by simp
      have "m = length vs - length (ws @ [w])" "length (ws @ [w]) \<le> length vs" using Suc.hyps(2) k by simp_all
      from Suc.hyps(1) [OF this, of "new @ new1"] show ?thesis
        unfolding len
      proof (elim disjE exE conjE)
        fix js ws' new2
        assume js: "list_all2 (member_denotes H anc) (drop (Suc ?k) vs) js"
          and ws': "det \<longrightarrow> list_all2 (denotes (heap_from (length A + 1 + length (new @ new1)) new2)) ws' js"
          and ts: "\<forall>ts. walk_tasks H det (map f [Suc ?k..<length vs] @ ts) anc (filled det A obj d (ws @ [w]) (new @ new1)) =
             walk_tasks H det ts anc (filled det A obj d ((ws @ [w]) @ ws') ((new @ new1) @ new2))"
        have "list_all2 (denotes (heap_from (length A + 1 + length new) (new1 @ new2))) (w # ws') (j # js)" if det
        proof -
          have "list_all2 (denotes (heap_from ((length A + 1 + length new) + length new1) new2)) ws' js"
            using ws' that by (simp add: add.assoc)
          then have "list_all2 (denotes (heap_from (length A + 1 + length new) (new1 @ new2))) ws' js"
            by (rule list_all2_mono) (rule denotes_from_right)
          with denotes_from_left [OF w(2) [OF that]] show ?thesis by simp
        qed
        with js found ts w(1) show ?thesis
          by (intro disjI1 exI [of _ "j # js"] exI [of _ "w # ws'"] exI [of _ "new1 @ new2"])
            (simp add: drop Some member_denotes_def run)
      next
        assume "\<nexists>js. list_all2 (member_denotes H anc) (drop (Suc ?k) vs) js"
          and "\<forall>ts. walk_tasks H det (map f [Suc ?k..<length vs] @ ts) anc (filled det A obj d (ws @ [w]) (new @ new1)) = Some None"
        with found(3) w(1) show ?thesis
          by (intro disjI2) (auto simp: run drop list_all2_Cons1)
      qed
    qed
  qed
qed


text \<open>A container: its copy is placed, its members are walked below it, and it is left.\<close>

lemma visit_container:
  fixes H det r anc obj vs
  defines "target d \<equiv> (if det then Some (length (fst d)) else None)"
  assumes r: "r \<notin> anc"
    and members: "\<And>v. Some v \<in> set vs \<Longrightarrow> visit_ok H det (insert r anc) v"
    and enter: "\<And>dest d. walk_task H det (Visit (VRef r) dest) anc d =
        Some (map (f (target d)) [0..<length vs] @ [Leave r], insert r anc, snd (enter_copy det (obj []) dest d))"
    and task: "\<And>i x d. i < length vs \<Longrightarrow> walk_task H det (f x i) (insert r anc) d =
        (case vs ! i of None \<Rightarrow> None | Some v \<Rightarrow> Some ([Visit v (map_option (\<lambda>n. place n i) x)], insert r anc, d))"
    and place: "\<And>n i d. dest_ok True (Some (place n i)) d \<longleftrightarrow> n < length (fst d)"
    and fill: "\<And>A ws new rt w. length ws < length vs \<Longrightarrow>
        assign_to (Some (place (length A) (length ws))) w (A @ obj ws # new, rt) = (A @ obj (ws @ [w]) # new, rt)"
    and whole: "\<And>js. list_all2 (member_denotes H (insert r anc)) vs js \<Longrightarrow> denotes_in H anc (VRef r) (mk js)"
    and only: "\<And>j. denotes_in H anc (VRef r) j \<Longrightarrow> \<exists>js. list_all2 (member_denotes H (insert r anc)) vs js"
    and copy: "\<And>K n ws js. K n = Some (obj ws) \<Longrightarrow> length js = length vs \<Longrightarrow> list_all2 (denotes K) ws js \<Longrightarrow> denotes K (VRef n) (mk js)"
  shows "visit_ok H det anc (VRef r)"
  unfolding visit_ok_def
proof (intro allI impI)
  fix dest d assume dok: "dest_ok det dest d"
  define n where "n = length (fst d)"
  define A where "A = fst (assign_to dest (VRef n) d)"
  define d0 where "d0 = (if det then (A, snd (assign_to dest (VRef n) d)) else d)"
  let ?S = "filled det A obj d0"
  have len: "length A = n" by (simp add: A_def n_def)
  have start: "snd (enter_copy det (obj []) dest d) = ?S [] []"
  proof (cases det)
    case True
    with dok have "dest_ok True dest (fst d, snd d)" by simp
    from assign_to_append [OF this] True show ?thesis
      by (simp add: enter_copy_def Let_def filled_def d0_def A_def n_def)
  qed (simp add: enter_copy_def filled_def d0_def)
  have run: "walk_tasks H det (Visit (VRef r) dest # ts) anc d =
      walk_tasks H det (map (f (target d)) [0..<length vs] @ Leave r # ts) (insert r anc) (?S [] [])" for ts
    by (simp add: walk_tasks_Cons [of _ _ "Visit (VRef r) dest"] enter start del: walk_task.simps)
  have leave: "walk_tasks H det (Leave r # ts) (insert r anc) d' = walk_tasks H det ts anc d'" for ts d'
    using r by (simp add: walk_tasks_Cons)
  have "(\<exists>js ws' new'. list_all2 (member_denotes H (insert r anc)) (drop (length ([] :: js_value list)) vs) js \<and>
       (det \<longrightarrow> list_all2 (denotes (heap_from (length A + 1 + length ([] :: js_object list)) new')) ws' js) \<and>
       (\<forall>ts. walk_tasks H det (map (f (target d)) [length ([] :: js_value list)..<length vs] @ ts) (insert r anc) (?S [] []) =
          walk_tasks H det ts (insert r anc) (?S ([] @ ws') ([] @ new')))) \<or>
    (\<nexists>js. list_all2 (member_denotes H (insert r anc)) (drop (length ([] :: js_value list)) vs) js) \<and>
       (\<forall>ts. walk_tasks H det (map (f (target d)) [length ([] :: js_value list)..<length vs] @ ts) (insert r anc) (?S [] []) = Some None)"
  proof (rule walk_members [where dst = "\<lambda>i. map_option (\<lambda>n. place n i) (target d)"])
    show "visit_ok H det (insert r anc) v" if "i < length vs" "vs ! i = Some v" for i v
      using members [of v] that by (metis nth_mem)
    fix ws :: "js_value list" and new assume k: "length ws < length vs"
    show "dest_ok det (map_option (\<lambda>n. place n (length ws)) (target d)) (?S ws new)"
      using len by (cases det) (simp_all add: target_def place filled_def n_def)
    show "assign_to (map_option (\<lambda>n. place n (length ws)) (target d)) w (?S ws new) = ?S (ws @ [w]) new" if det for w
      using fill [OF k, of A w new] that len by (simp add: target_def filled_def n_def)
  qed (use members task in auto)
  then consider
    (found) js ws' new' where "list_all2 (member_denotes H (insert r anc)) vs js"
      "det \<Longrightarrow> list_all2 (denotes (heap_from (n + 1) new')) ws' js"
      "\<And>ts. walk_tasks H det (map (f (target d)) [0..<length vs] @ ts) (insert r anc) (?S [] []) =
          walk_tasks H det ts (insert r anc) (?S ws' new')"
  | (failed) "\<nexists>js. list_all2 (member_denotes H (insert r anc)) vs js"
      "\<And>ts. walk_tasks H det (map (f (target d)) [0..<length vs] @ ts) (insert r anc) (?S [] []) = Some None"
    using len by auto
  then show "(\<exists>j d'. denotes_in H anc (VRef r) j \<and> visited det dest d j d' \<and>
           (\<forall>ts. walk_tasks H det (Visit (VRef r) dest # ts) anc d = walk_tasks H det ts anc d')) \<or>
        (\<nexists>j. denotes_in H anc (VRef r) j) \<and>
           (\<forall>ts. walk_tasks H det (Visit (VRef r) dest # ts) anc d = Some None)"
  proof cases
    case failed
    with only show ?thesis by (intro disjI2) (auto simp: run)
  next
    case found
    have "visited det dest d (mk js) (?S ws' new')"
    proof (cases det)
      case True
      let ?K = "heap_from n (obj ws' # new')"
      have "list_all2 (denotes ?K) ws' js"
        using found(2) [OF True] denotes_from_right [of n "[obj ws']" new'] by (auto elim!: list_all2_mono)
      moreover have "?K n = Some (obj ws')" by (simp add: heap_from_def)
      moreover have "length js = length vs" using found(1) by (simp add: list_all2_lengthD)
      ultimately have "denotes ?K (VRef n) (mk js)" using copy by blast
      with True show ?thesis
        by (auto simp: visited_def filled_def d0_def A_def n_def intro!: exI [of _ "VRef n"] exI [of _ "obj ws' # new'"])
    qed (simp add: visited_def filled_def d0_def)
    with whole [OF found(1)] found(3) show ?thesis
      by (intro disjI1 exI conjI) (auto simp: run leave)
  qed
qed


lemma visit_array:
  assumes r: "r \<notin> anc" and H: "H r = Some (ArrayObj True extra items)"
    and size: "length (filter (\<lambda>x. x \<noteq> None) items) + extra = length items"
    and members: "\<And>v. Some v \<in> set items \<Longrightarrow> visit_ok H det (insert r anc) v"
  shows "visit_ok H det anc (VRef r)"
proof (rule visit_container [where f = "\<lambda>x i. ArrayItem r i x" and place = ToArray and vs = items
      and obj = "\<lambda>ws. ArrayObj True 0 (map Some ws)" and mk = JArr])
  show "walk_task H det (Visit (VRef r) dest) anc d =
      Some (map (\<lambda>i. ArrayItem r i (if det then Some (length (fst d)) else None)) [0..<length items] @ [Leave r],
        insert r anc, snd (enter_copy det (ArrayObj True 0 (map Some [])) dest d))" for dest d
    using r H size by (simp add: enter_copy_def Let_def)
  show "assign_to (Some (ToArray (length A) (length ws))) w (A @ ArrayObj True 0 (map Some ws) # new, rt) =
      (A @ ArrayObj True 0 (map Some (ws @ [w])) # new, rt)" for A ws new rt w
    by (simp add: put_item_def)
  show "denotes_in H anc (VRef r) (JArr js)" if js: "list_all2 (member_denotes H (insert r anc)) items js" for js
  proof -
    have all: "x \<noteq> None" if "x \<in> set items" for x
      using js that by (auto simp: list_all2_conv_all_nth in_set_conv_nth member_denotes_def)
    then have "filter (\<lambda>x. x \<noteq> None) items = items" by (simp add: filter_id_conv)
    with size have "extra = 0" by simp
    moreover have "items = map Some (map the items)" using all by (auto intro!: nth_equalityI)
    moreover have "list_all2 (denotes_in H (insert r anc)) (map the items) js"
      using js by (auto simp: list_all2_conv_all_nth member_denotes_def)
    ultimately show ?thesis using H r by (metis denotes_in.arr_in)
  qed
  show "\<exists>js. list_all2 (member_denotes H (insert r anc)) items js" if "denotes_in H anc (VRef r) j" for j
    using that H by (auto simp: denotes_in_ref member_denotes_def list_all2_conv_all_nth)
qed (use r H members in \<open>auto intro: denotes.arr\<close>)

lemma update_zip:
  "distinct ks \<Longrightarrow> length ws < length ks \<Longrightarrow> AList.update (ks ! length ws) w (zip ks ws) = zip ks (ws @ [w])"
proof (induction ks arbitrary: ws)
  case (Cons k ks)
  then show ?case by (cases ws) auto
qed simp

lemma visit_record:
  assumes r: "r \<notin> anc" and H: "H r = Some (RecordObj True True fields)" and keys: "distinct (map fst fields)"
    and members: "\<And>v. v \<in> snd ` set fields \<Longrightarrow> visit_ok H det (insert r anc) v"
  shows "visit_ok H det anc (VRef r)"
proof (rule visit_container [where f = "\<lambda>x i. ObjectProperty r (map fst fields ! i) x"
      and place = "\<lambda>n i. ToField n (map fst fields ! i)" and vs = "map (Some \<circ> snd) fields"
      and obj = "\<lambda>ws. RecordObj True True (zip (map fst fields) ws)" and mk = "\<lambda>js. JObj (zip (map fst fields) js)"])
  have tasks: "map (\<lambda>k. ObjectProperty r k x) (map fst fields) =
      map (\<lambda>i. ObjectProperty r (map fst fields ! i) x) [0..<length fields]" for x
    by (rule nth_equalityI) simp_all
  show "walk_task H det (Visit (VRef r) dest) anc d =
      Some (map (\<lambda>i. ObjectProperty r (map fst fields ! i) (if det then Some (length (fst d)) else None))
          [0..<length (map (Some \<circ> snd) fields)] @ [Leave r],
        insert r anc, snd (enter_copy det (RecordObj True True (zip (map fst fields) [])) dest d))" for dest d
    using r H by (simp add: enter_copy_def Let_def tasks [simplified])
  show "walk_task H det (ObjectProperty r (map fst fields ! i) x) (insert r anc) d =
      (case map (Some \<circ> snd) fields ! i of None \<Rightarrow> None
       | Some v \<Rightarrow> Some ([Visit v (map_option (\<lambda>n. ToField n (map fst fields ! i)) x)], insert r anc, d))"
    if "i < length (map (Some \<circ> snd) fields)" for i x d
  proof -
    have "map_of fields (fst (fields ! i)) = Some (snd (fields ! i))"
      using keys that by (intro map_of_is_SomeI) auto
    with H that show ?thesis by simp
  qed
  show "assign_to (Some (ToField (length A) (map fst fields ! length ws))) w
      (A @ RecordObj True True (zip (map fst fields) ws) # new, rt) =
      (A @ RecordObj True True (zip (map fst fields) (ws @ [w])) # new, rt)"
    if "length ws < length (map (Some \<circ> snd) fields)" for A ws new rt w
    using update_zip [OF keys, of ws w] that by simp
  have members_iff: "list_all2 (member_denotes H (insert r anc)) (map (Some \<circ> snd) fields) js \<longleftrightarrow>
      list_all2 (denotes_in H (insert r anc)) (map snd fields) js" for js
    by (simp add: list_all2_conv_all_nth member_denotes_def cong: conj_cong)
  show "denotes_in H anc (VRef r) (JObj (zip (map fst fields) js))"
    if "list_all2 (member_denotes H (insert r anc)) (map (Some \<circ> snd) fields) js" for js
    using that r H by (intro denotes_in.obj_in) (simp_all add: members_iff)
  show "\<exists>js. list_all2 (member_denotes H (insert r anc)) (map (Some \<circ> snd) fields) js" if "denotes_in H anc (VRef r) j" for j
    using that H by (auto simp: denotes_in_ref members_iff)
  show "denotes K (VRef n) (JObj (zip (map fst fields) js))"
    if K: "K n = Some (RecordObj True True (zip (map fst fields) ws))"
      and len: "length js = length (map (Some \<circ> snd) fields)" and ws: "list_all2 (denotes K) ws js" for K n ws js
  proof -
    have l: "length ws = length fields" using ws len by (simp add: list_all2_lengthD)
    have "list_all2 (denotes K) (map snd (zip (map fst fields) ws)) js" using ws l by simp
    with K have "denotes K (VRef n) (JObj (zip (map fst (zip (map fst fields) ws)) js))" by (rule denotes.obj)
    with l show ?thesis by simp
  qed
qed (use r H members in auto)

text \<open>A value that is refused at its own visit.\<close>

lemma visit_refused:
  assumes "\<And>dest d. walk_task H det (Visit v dest) anc d = None" and "\<nexists>j. denotes_in H anc v j"
  shows "visit_ok H det anc v"
  using assms by (simp add: visit_ok_def walk_tasks_Cons del: walk_task.simps)

lemma visit_scalar:
  assumes "\<And>dest d. walk_task H det (Visit v dest) anc d = Some ([], anc, assign_to dest v d)"
    and "denotes_in H anc v j" and "\<And>K. denotes K v j"
  shows "visit_ok H det anc v"
  unfolding visit_ok_def
proof (intro allI impI disjI1 exI conjI)
  fix dest d ts assume dok: "dest_ok det dest d"
  show "visited det dest d j (assign_to dest v d)"
    using dok assms(3) by (cases det) (auto simp: visited_def intro!: exI [of _ v] exI [of _ "[]"])
  show "walk_tasks H det (Visit v dest # ts) anc d = walk_tasks H det ts anc (assign_to dest v d)"
    by (simp add: walk_tasks_Cons assms(1) del: walk_task.simps)
qed (rule assms(2))

lemma visit_okD:
  "visit_ok H det anc v \<Longrightarrow> dest_ok det dest d \<Longrightarrow>
   (\<exists>j d'. denotes_in H anc v j \<and> visited det dest d j d' \<and>
      walk_tasks H det [Visit v dest] anc d = Some (Some d')) \<or>
   (\<nexists>j. denotes_in H anc v j) \<and> walk_tasks H det [Visit v dest] anc d = Some None"
  unfolding visit_ok_def by (metis walk_tasks_Nil)

lemma visit_any:
  assumes "heap_ok H"
  shows "visit_ok H det anc v"
proof (induction "card (dom H - anc)" arbitrary: anc v rule: less_induct)
  case (less anc v)
  show ?case
  proof (cases v)
    case VNull
    then show ?thesis by (intro visit_scalar [where j = JNull]) simp_all
  next
    case (VBool b)
    then show ?thesis by (intro visit_scalar [where j = "JBool b"]) simp_all
  next
    case (VStr s)
    then show ?thesis by (intro visit_scalar [where j = "JStr s"]) simp_all
  next
    case VOther
    then show ?thesis by (intro visit_refused) simp_all
  next
    case (VNum n)
    show ?thesis
    proof (cases n)
      case (FiniteNum q)
      with VNum show ?thesis by (intro visit_scalar [where j = "JNum q"]) simp_all
    qed (use VNum in \<open>auto intro!: visit_refused\<close>)
  next
    case (VRef r)
    have below: "visit_ok H det (insert r anc) w" if "r \<notin> anc" "H r = Some x" for w x
    proof (rule less)
      have "dom H - insert r anc \<subset> dom H - anc" using that by auto
      then show "card (dom H - insert r anc) < card (dom H - anc)"
        using assms by (intro psubset_card_mono) (auto simp: heap_ok_def)
    qed
    show ?thesis
    proof (cases "r \<in> anc \<or> H r = None")
      case True
      with VRef show ?thesis by (intro visit_refused) (auto simp: denotes_in_ref)
    next
      case False
      then obtain x where x: "H r = Some x" and r: "r \<notin> anc" by auto
      show ?thesis
      proof (cases x)
        case (ArrayObj plain extra items)
        show ?thesis
        proof (cases "plain \<and> length (filter (\<lambda>x. x \<noteq> None) items) + extra = length items")
          case True
          with VRef visit_array [OF r] x ArrayObj below [OF r x] show ?thesis by auto
        next
          case False
          have "\<nexists>j. denotes_in H anc v j"
            using False x ArrayObj VRef by (auto simp: denotes_in_ref filter_map comp_def)
          moreover have "walk_task H det (Visit v dest) anc d = None" for dest d
            using False x ArrayObj VRef r by auto
          ultimately show ?thesis by (intro visit_refused)
        qed
      next
        case (RecordObj plain keys fields)
        show ?thesis
        proof (cases "plain \<and> keys")
          case True
          moreover have "distinct (map fst fields)" using assms x RecordObj by (auto simp: heap_ok_def)
          ultimately show ?thesis using VRef visit_record [OF r] x RecordObj below [OF r x] by auto
        next
          case False
          with x RecordObj VRef r show ?thesis by (intro visit_refused) (auto simp: denotes_in_ref)
        qed
      qed
    qed
  qed
qed

text \<open>
  Claim C20. Over any heap of finitely many objects, cyclic ones included, the walk returns:
  isJsonValue accepts a value exactly when it unfolds to a finite JSON tree of plain dense
  arrays and plain records, no object below itself, and exactly then snapshotJsonValue
  returns a value, built of new objects only, that unfolds to the same tree.
\<close>

theorem walk_accepts_lossless_json:
  assumes "heap_ok H"
  shows "is_json_value H v = Some (\<exists>j. denotes H v j) \<and>
    (case snapshot_json_value H v of
       None \<Rightarrow> False
     | Some None \<Rightarrow> \<nexists>j. denotes H v j
     | Some (Some (r, objs)) \<Rightarrow> \<exists>j. denotes H v j \<and> denotes (heap_from 0 objs) r j)"
proof
  show "is_json_value H v = Some (\<exists>j. denotes H v j)"
    using visit_okD [OF visit_any [OF assms], of False None "([], None)" "{}" v]
    by (auto simp: visited_def denotes_in_empty is_json_value_def walk_json_value_def)
  show "case snapshot_json_value H v of
       None \<Rightarrow> False
     | Some None \<Rightarrow> \<nexists>j. denotes H v j
     | Some (Some (r, objs)) \<Rightarrow> \<exists>j. denotes H v j \<and> denotes (heap_from 0 objs) r j"
    using visit_okD [OF visit_any [OF assms], of True "Some ToRoot" "([], None)" "{}" v]
    by (auto simp: visited_def denotes_in_empty snapshot_json_value_def walk_json_value_def)
qed


text \<open>One object shared by two properties, and an array that holds itself.\<close>

definition sample_heap :: js_heap where
  "sample_heap =
     [0 \<mapsto> RecordObj True True [(''a'', VRef 1), (''b'', VRef 1)],
      1 \<mapsto> ArrayObj True 0 [Some (VNum (FiniteNum 1)), Some VNull],
      2 \<mapsto> ArrayObj True 0 [Some (VStr ''x''), Some (VRef 2)],
      3 \<mapsto> ArrayObj True 1 [Some VNull, None]]"

lemma sample_heap_ok: "heap_ok sample_heap"
  by (auto simp: heap_ok_def sample_heap_def split: if_splits)

lemma walk_accepts_lossless_json_witness:
  "is_json_value sample_heap (VRef 0) = Some (\<exists>j. denotes sample_heap (VRef 0) j) \<and>
    (case snapshot_json_value sample_heap (VRef 0) of
       None \<Rightarrow> False
     | Some None \<Rightarrow> \<nexists>j. denotes sample_heap (VRef 0) j
     | Some (Some (r, objs)) \<Rightarrow> \<exists>j. denotes sample_heap (VRef 0) j \<and> denotes (heap_from 0 objs) r j)"
  by (rule walk_accepts_lossless_json [OF sample_heap_ok])

lemma sample_walks:
  "map (is_json_value sample_heap) [VRef 0, VRef 2, VRef 3] = [Some True, Some False, Some False]"
  "snapshot_json_value sample_heap (VRef 0) =
     Some (Some (VRef 0, [RecordObj True True [(''a'', VRef 1), (''b'', VRef 2)],
       ArrayObj True 0 [Some (VNum (FiniteNum 1)), Some VNull], ArrayObj True 0 [Some (VNum (FiniteNum 1)), Some VNull]]))"
  by code_simp+

end
