(* ===== verification/Spec2Isabelle.thy ===== *)
theory Spec2Isabelle
  imports Compaction_Metered Session_Store Session_Repair Chunk_Rows Request_Header Goal_Service Agent_Inbox
    Agent_Turns Prompt_Registry Json_Walk
begin

text \<open>
  A verification library for the agent harness: the session log at its core, and the
  services that keep their state in it.

  \<^bold>\<open>The program.\<close> Everything an agent does is an append-only log of events owned by a
  \<^verbatim>\<open>Session\<close> (\<^verbatim>\<open>packages/core/session/src\<close>). The log alone is durable: the messages sent to
  the model, the request header, the goal, the pending input, the token figures are folds of
  it. Components keep caches of their folds and catch up when the log grew. The recurring
  questions are whether an incremental cache computes what a replay of the whole log
  computes, and whether what a component appends is accepted by that replay and by the
  invariant companions, whatever others append meanwhile.

  \<^bold>\<open>Theories and code\<close> (paths under \<^verbatim>\<open>src/packages\<close>).
  \<^item> \<^verbatim>\<open>Dsh_Prelude\<close>: results, operations on a state that may throw and their triples, JSON
    values, JavaScript arrays, and the locale \<^verbatim>\<open>log_replay\<close> for a step function replayed over a
    log.
  \<^item> \<^verbatim>\<open>Session_Types\<close>: the event vocabulary (\<^verbatim>\<open>core/session/src/types.ts\<close> and the message and
    chunk types of \<^verbatim>\<open>llm/llm/src\<close>).
  \<^item> \<^verbatim>\<open>Json_Walk\<close>: the boundary of lossless JSON (\<^verbatim>\<open>core/session/src/json.ts\<close>) over a heap of
    objects that may be shared, cyclic or exotic; the session takes its verdict and its copy as
    arguments of an append.
  \<^item> \<^verbatim>\<open>Session_Surface\<close>: the model-visible surface (\<^verbatim>\<open>surface.ts\<close>), the complete fold and the
    incremental \<^verbatim>\<open>SurfaceManager\<close>.
  \<^item> \<^verbatim>\<open>Request_Header\<close>: canonical headers and their fold (\<^verbatim>\<open>request-header.ts\<close>).
  \<^item> \<^verbatim>\<open>Session_Trace\<close>: the turn and step discipline (\<^verbatim>\<open>invariant.ts\<close>).
  \<^item> \<^verbatim>\<open>Session_Repair\<close>: the closers of an interrupted turn (\<^verbatim>\<open>repair.ts\<close>).
  \<^item> \<^verbatim>\<open>Session_Log\<close>: the class \<^verbatim>\<open>Session\<close> (\<^verbatim>\<open>index.ts\<close>).
  \<^item> \<^verbatim>\<open>Session_Store\<close>: the class \<^verbatim>\<open>SessionStore\<close> (\<^verbatim>\<open>index.ts\<close>), publication and forks.
  \<^item> \<^verbatim>\<open>Chunk_Rows\<close>: the storage codec of stream deltas (\<^verbatim>\<open>chunk-rows.ts\<close>).
  \<^item> \<^verbatim>\<open>Goal_Fold\<close>, \<^verbatim>\<open>Goal_Service\<close>: the strict goal decoder and fold (\<^verbatim>\<open>goal/goal/src/fold.ts\<close>)
    and the goal service (\<^verbatim>\<open>goal/goal/src/index.ts\<close>).
  \<^item> \<^verbatim>\<open>Agent_Inbox\<close>: the pending input of an agent (\<^verbatim>\<open>core/agent/src/inbox.ts\<close>) and the account
    of consumed work (\<^verbatim>\<open>consumed-work.ts\<close>).
  \<^item> \<^verbatim>\<open>Tool_Pairing\<close>, \<^verbatim>\<open>Compaction_Trace\<close>, \<^verbatim>\<open>Compaction_Region\<close>, \<^verbatim>\<open>Compaction_Accepted\<close>: the
    compaction engine (\<^verbatim>\<open>compaction/compaction/src\<close>): which calls a span leaves unpaired, the
    companion, the selection of a span and the compaction transaction, and that what the
    transaction appends passes the companion.
  \<^item> \<^verbatim>\<open>Block_Assembler\<close>: the assembler of streamed messages and the stream grammar
    (\<^verbatim>\<open>llm/llm/src/assembler.ts\<close>, \<^verbatim>\<open>invariant.ts\<close>).
  \<^item> \<^verbatim>\<open>Token_Meter\<close>, \<^verbatim>\<open>Token_Surface\<close>, \<^verbatim>\<open>Token_Projections\<close>, \<^verbatim>\<open>Compaction_Metered\<close>: the token
    meter (\<^verbatim>\<open>llm/token-meter/src\<close>), its bounded projections, and their composition with the
    compaction transaction through the locale \<^verbatim>\<open>surface_meter\<close>.
  \<^item> \<^verbatim>\<open>Retry_Policy\<close>: the retry policy of a provider route (\<^verbatim>\<open>llm/llm/src/retry-policy.ts\<close>).
  \<^item> \<^verbatim>\<open>Prompt_Text\<close>: rendering and tool order of a prompt assembly
    (\<^verbatim>\<open>core/system-prompt/src\<close>).
  \<^item> \<^verbatim>\<open>Scope_Chain\<close>, \<^verbatim>\<open>Scope_Layers\<close>, \<^verbatim>\<open>Prompt_Registry\<close>: scope keys and their parents
    (\<^verbatim>\<open>core/scope/src/index.ts\<close>), registries layered by scope (\<^verbatim>\<open>store.ts\<close>) through the locale
    \<^verbatim>\<open>scope_layer\<close>, and the registry of prompt inputs over them with its assembly
    (\<^verbatim>\<open>core/system-prompt/src/index.ts\<close>).
  \<^item> \<^verbatim>\<open>Runtime_Context\<close>: the snapshots of the dynamic context
    (\<^verbatim>\<open>core/agent-loop/src/runtime-context.ts\<close>).
  \<^item> \<^verbatim>\<open>Agent_Machine\<close>, \<^verbatim>\<open>Agent_Rely\<close>: the phases of an agent and what callers do to it
    (\<^verbatim>\<open>core/agent-loop/src/agent.ts\<close>), the position of a log in its turns and steps, and what
    everything outside a driver may do while the driver awaits.
  \<^item> \<^verbatim>\<open>Tool_Calls\<close>, \<^verbatim>\<open>Tool_Order\<close>: the scheduler of tool calls (\<^verbatim>\<open>tool-calls.ts\<close>) and the proof
    that it answers every call in order.
  \<^item> \<^verbatim>\<open>Agent_Request\<close>: the composition of a model request (\<^verbatim>\<open>buildRequest\<close> of \<^verbatim>\<open>agent.ts\<close>) and
    the companion that checks it at dispatch (\<^verbatim>\<open>core/agent-loop/src/invariant.ts\<close>).
  \<^item> \<^verbatim>\<open>Agent_Loop\<close>, \<^verbatim>\<open>Agent_Turns\<close>: the driver (\<^verbatim>\<open>kick\<close>, \<^verbatim>\<open>turn\<close>, \<^verbatim>\<open>preStep\<close> and \<^verbatim>\<open>step\<close> of
    \<^verbatim>\<open>agent.ts\<close>), over the inbox, the prompt, the context, the assembler and the scheduler
    above, and the proof that it ends every step and turn it began.

  \<^bold>\<open>Conventions.\<close> A throwing operation returns \<^verbatim>\<open>Inl\<close> of an error of its own datatype; an
  operation that may throw after it changed the state returns a result and a state. Clocks,
  fresh identifiers, lossless snapshots of borrowed values and listeners are arguments.
  Sequence, turn and step numbers are integers with the source's \<^verbatim>\<open>isSafeInteger\<close> checks
  written out; where the code computes with doubles beyond the safe range (\<^verbatim>\<open>Chunk_Rows\<close>) the
  rounding is part of the model. Strings hold code units below 256.

  \<^bold>\<open>Awaiting.\<close> A service a driver awaits (a tool registry, a plugin waterfall) is an operation
  on the whole state of the agent. The theorems ask that it is \<^verbatim>\<open>polite\<close>: it reaches its state
  by the operations the harness offers to others (sending, cancelling, reading, inbox
  commands, appending events that belong to no turn structure) and changes of a component
  that stands for the world. An operation that never returns is \<^verbatim>\<open>Suspended\<close>; nothing of the
  code runs after it, and the theorems speak of the state it left.

  \<^bold>\<open>What the lemmas show.\<close> Refinement of the full folds by the caches (surface, headers,
  messages, goal, inbox, tokens); exactness of appends (outside another append, and when no
  listener throws, an event is accepted exactly when the fold of the grown log accepts it; every goal mutation keeps the log foldable); invariants
  of the logs (partition of the surface, numbering of turns, unique goal references); repair
  (a repaired log is accepted, balanced, and forkable); the store's life cycle; compaction (a
  transaction replaces the selected span, releases its lock, passes its companion, keeps the
  log metered); streams (an accepted stream assembles); scheduling (every tool call recorded
  and answered once, in order); registries (an assembly reads exactly the registrations still
  live in its scopes); the driver (a request stands under the header the log folds to,
  and is its durable derivation unless a plugin appended what the model sees while it was
  composed; in a session that takes every append of the driver, whatever is thrown, every step
  and turn begun is ended, and the agent rests at the number of its turns); round trips of the codecs; the renderings of
  templates; termination and exactness of the JSON walk.

  \<^bold>\<open>Bounds.\<close> Loops are total functions, but for the JSON walk, which may be asked to unfold a
  heap: it is partial by definition, and returns on every finite heap by its theorem. Two loops of the scheduler take a bound as an
  argument: the pool loop as many turns as the group has calls, since every turn takes a call
  out of the pool, and the loop over groups as many as there are calls, since every group
  consumes one; beyond the bound they are \<^verbatim>\<open>Suspended\<close>. The loops of the driver need not end (a model may
  stream forever, a plugin may always retry, input may never run dry): each takes a bound, its
  theorem holds for every bound, and past the bound the driver is \<^verbatim>\<open>Suspended\<close> in a state the
  code passes through. Between two turns of one driver nothing else is let in. The goal theorems ask that the
  current revision is below the largest safe integer, the clock value a safe non-negative
  integer and the fresh id new. A position in turns and steps is claimed of the logs whose
  messages name their tool calls apart. The companion's checks on the identity of a request
  (that the object is frozen, that it carries the id of a live session) have no counterpart:
  values here have no identity.

  \<^bold>\<open>Not modelled.\<close> Listener registration and plugin wiring, input and output, the client,
  process and sandbox providers, model adapters: they move data or call other programs. The
  tool registry, the plugin waterfalls, the assembly of the prompt, the provider registry and
  the stream of the model are arguments of the scheduler and the driver (\<^verbatim>\<open>tool_runtime\<close>,
  \<^verbatim>\<open>loop_services\<close>).
\<close>

end
